(* ===== verification/Prelude.thy ===== *)
theory Prelude
  imports Main "HOL-Library.AList" "HOL-Library.Sublist" "HOL-Library.List_Lexorder"
    "HOL-Library.Char_ord" "HOL-Library.Multiset"
begin

text \<open>
  The JavaScript values that the modules under src/ share, and the lemmas the component theories
  rest on.

  \<^item> A JavaScript string is a \<open>string\<close>, one \<open>char\<close> for one UTF-16 code unit, so the model speaks
    of strings whose code units are below 256. Every format the modelled code parses (dependency
    paths, specifiers, selectors) is ASCII.
  \<^item> A plain object used as a dictionary, or a \<open>Map\<close>, is an association list in insertion order:
    reading is \<open>map_of\<close>, assigning is \<open>AList.update\<close> (in place when the key is present, at the end
    when it is not), \<open>delete\<close> is \<open>AList.delete\<close>. Only own properties are modelled. JavaScript moves
    integer-like keys to the front of a plain object; no theorem depends on that order.
  \<^item> A \<open>Set\<close> is a distinct list in insertion order.
  \<^item> \<open>undefined\<close> and \<open>null\<close> are \<open>None\<close>; a thrown error is an \<open>Inl\<close>.
\<close>

section \<open>Objects and maps as association lists\<close>

type_synonym 'v obj = "(string \<times> 'v) list"

abbreviation keys :: "('k \<times> 'v) list \<Rightarrow> 'k list" where
  "keys m \<equiv> map fst m"

abbreviation vals :: "('k \<times> 'v) list \<Rightarrow> 'v list" where
  "vals m \<equiv> map snd m"

abbreviation jset :: "'k \<Rightarrow> 'v \<Rightarrow> ('k \<times> 'v) list \<Rightarrow> ('k \<times> 'v) list" where
  "jset \<equiv> AList.update"

abbreviation jdel :: "'k \<Rightarrow> ('k \<times> 'v) list \<Rightarrow> ('k \<times> 'v) list" where
  "jdel \<equiv> AList.delete"

text \<open>The object spread \<open>{...a, ...b}\<close>: the keys of \<open>a\<close> keep their places, the new keys of \<open>b\<close>
  follow, and \<open>b\<close> wins where both have the key.\<close>

definition spread :: "('k \<times> 'v) list \<Rightarrow> ('k \<times> 'v) list \<Rightarrow> ('k \<times> 'v) list" where
  "spread a b =
     map (\<lambda>(k, v). (k, case map_of b k of Some w \<Rightarrow> w | None \<Rightarrow> v)) a @
     filter (\<lambda>(k, v). map_of a k = None) b"

text \<open>\<open>m ?? {}\<close> on an optional dictionary, and \<open>m ?? []\<close> on an optional array.\<close>

definition orEmpty :: "'a list option \<Rightarrow> 'a list" where
  "orEmpty m = (case m of None \<Rightarrow> [] | Some x \<Rightarrow> x)"

lemma orEmpty_simps [simp]: "orEmpty None = []" "orEmpty (Some m) = m"
  by (simp_all add: orEmpty_def)

lemma map_of_map_keyed:
  "map_of (map (\<lambda>(k, v). (k, f k v)) m) k = map_option (f k) (map_of m k)"
  by (induction m) auto

lemma map_of_filter_keyed:
  "map_of (filter (\<lambda>(k, v). P k) m) k = (if P k then map_of m k else None)"
  by (induction m) auto

lemma map_of_spread [simp]: "map_of (spread a b) k = (map_of a ++ map_of b) k"
  by (auto simp: spread_def map_add_def map_of_map_keyed map_of_filter_keyed
      split: option.splits)

lemma keys_spread: "set (keys (spread a b)) = set (keys a) \<union> set (keys b)"
  by (auto simp: spread_def case_prod_unfold image_image map_of_eq_None_iff image_iff)

lemma spread_Nil [simp]: "spread a [] = a" "spread [] b = b"
  by (simp_all add: spread_def case_prod_unfold)

lemma distinct_keys_filter:
  "distinct (keys m) \<Longrightarrow> distinct (keys (filter P m))"
  by (induction m) auto

lemma distinct_keys_spread:
  assumes "distinct (keys a)" "distinct (keys b)"
  shows "distinct (keys (spread a b))"
  using assms
  by (simp add: spread_def case_prod_unfold o_def map_of_eq_None_iff distinct_keys_filter)
    (auto simp: image_iff)

lemma distinct_keys_update: "distinct (keys m) \<Longrightarrow> distinct (keys (jset k v m))"
  by (simp add: distinct_update)

lemma jset_new: "k \<notin> set (keys m) \<Longrightarrow> jset k v m = m @ [(k, v)]"
  by (induction m) auto

text \<open>\<open>Object.fromEntries\<close> of entries whose keys are distinct.\<close>

lemma fold_jset_append: "distinct (keys (m @ xs)) \<Longrightarrow> fold (\<lambda>(k, v). jset k v) xs m = m @ xs"
proof (induction xs arbitrary: m)
  case (Cons x xs)
  obtain k v where x: "x = (k, v)" by (cases x)
  have "jset k v m = m @ [(k, v)]" using Cons.prems by (intro jset_new) (auto simp: x)
  then show ?case using Cons by (simp add: x)
qed simp

lemmas fold_jset_distinct = fold_jset_append [of "[]", simplified]

lemma map_of_rev_distinct: "distinct (keys m) \<Longrightarrow> map_of (rev m) = map_of m"
  by (rule map_of_inject_set [THEN iffD2]) (auto simp: rev_map [symmetric])

lemma in_keys_iff: "k \<in> set (keys m) \<longleftrightarrow> map_of m k \<noteq> None"
  by (simp add: map_of_eq_None_iff)

subsection \<open>The dictionary interface\<close>

text \<open>What the code relies on when it reads and writes a dictionary, whatever stores it. Loops that
  fill a dictionary are proved once, over the interface.\<close>

locale dictionary =
  fixes get :: "'m \<Rightarrow> 'k \<Rightarrow> 'v option"
    and put :: "'k \<Rightarrow> 'v \<Rightarrow> 'm \<Rightarrow> 'm"
    and del :: "'k \<Rightarrow> 'm \<Rightarrow> 'm"
  assumes get_put: "get (put k v m) k' = (if k' = k then Some v else get m k')"
    and get_del: "get (del k m) k' = (if k' = k then None else get m k')"
begin

text \<open>A loop \<open>for (const [k, v] of xs) m[k] = v\<close>: the last write to a key wins.\<close>

lemma get_fold_put:
  "get (fold (\<lambda>(k, v). put k v) xs m) k' =
     (case map_of (rev xs) k' of Some v \<Rightarrow> Some v | None \<Rightarrow> get m k')"
  by (induction xs arbitrary: m) (auto simp: get_put map_add_def split: option.splits)

lemma get_fold_put_distinct:
  assumes "distinct (keys xs)"
  shows "get (fold (\<lambda>(k, v). put k v) xs m) k' =
     (case map_of xs k' of Some v \<Rightarrow> Some v | None \<Rightarrow> get m k')"
  using assms by (simp add: get_fold_put map_of_rev_distinct)

lemma get_fold_put_keyed:
  "get (fold (\<lambda>k. put k (f k)) ks m) k' = (if k' \<in> set ks then Some (f k') else get m k')"
  by (induction ks arbitrary: m) (auto simp: get_put)

lemma get_fold_del:
  "get (fold del ks m) k' = (if k' \<in> set ks then None else get m k')"
  by (induction ks arbitrary: m) (auto simp: get_del)

lemma put_put_get: "get (put k v (put k w m)) k' = get (put k v m) k'"
  by (simp add: get_put)

end

interpretation alist: dictionary map_of "AList.update" "AList.delete"
  by unfold_locales (simp_all add: update_conv' delete_conv')

section \<open>Sets in insertion order\<close>

definition sadd :: "'a \<Rightarrow> 'a list \<Rightarrow> 'a list" where
  "sadd x xs = (if x \<in> set xs then xs else xs @ [x])"

text \<open>\<open>[...new Set(xs)]\<close>: the first occurrence of each element, in order.\<close>

definition uniq :: "'a list \<Rightarrow> 'a list" where
  "uniq xs = fold sadd xs []"

text \<open>The laws of \<open>Set.add\<close> and \<open>Set.delete\<close> that the code relies on.\<close>

locale js_set =
  fixes elems :: "'s \<Rightarrow> 'a set"
    and add :: "'a \<Rightarrow> 's \<Rightarrow> 's"
    and remove :: "'a \<Rightarrow> 's \<Rightarrow> 's"
    and ok :: "'s \<Rightarrow> bool"
  assumes elems_add: "elems (add x s) = insert x (elems s)"
    and elems_remove: "ok s \<Longrightarrow> elems (remove x s) = elems s - {x}"
    and ok_add: "ok s \<Longrightarrow> ok (add x s)"
    and ok_remove: "ok s \<Longrightarrow> ok (remove x s)"
begin

lemma elems_fold_add: "elems (fold add xs s) = elems s \<union> set xs"
  by (induction xs arbitrary: s) (auto simp: elems_add)

lemma ok_fold_add: "ok s \<Longrightarrow> ok (fold add xs s)"
  by (induction xs arbitrary: s) (auto simp: ok_add)

lemma elems_fold_remove: "ok s \<Longrightarrow> elems (fold remove xs s) = elems s - set xs"
  by (induction xs arbitrary: s) (auto simp: elems_remove ok_remove)

lemma ok_fold_remove: "ok s \<Longrightarrow> ok (fold remove xs s)"
  by (induction xs arbitrary: s) (auto simp: ok_remove)

end

lemma set_sadd [simp]: "set (sadd x xs) = insert x (set xs)"
  by (auto simp: sadd_def)

lemma distinct_sadd [simp]: "distinct (sadd x xs) = distinct xs"
  by (auto simp: sadd_def)

interpretation lset: js_set set sadd remove1 distinct
  by unfold_locales auto

lemma set_uniq [simp]: "set (uniq xs) = set xs"
  by (simp add: uniq_def lset.elems_fold_add)

lemma distinct_uniq [simp]: "distinct (uniq xs)"
  by (simp add: uniq_def lset.ok_fold_add)

section \<open>Strings\<close>

type_synonym str = string

definition startsWith :: "str \<Rightarrow> str \<Rightarrow> bool" where
  "startsWith s p \<longleftrightarrow> take (length p) s = p"

definition endsWith :: "str \<Rightarrow> str \<Rightarrow> bool" where
  "endsWith s p \<longleftrightarrow> length p \<le> length s \<and> drop (length s - length p) s = p"

text \<open>\<open>s.indexOf(c)\<close> for a one-character string, \<open>-1\<close> when it does not occur.\<close>

definition indexOf :: "str \<Rightarrow> char \<Rightarrow> int" where
  "indexOf s c = (if c \<in> set s then int (length (takeWhile (\<lambda>d. d \<noteq> c) s)) else - 1)"

definition indexOfFrom :: "str \<Rightarrow> char \<Rightarrow> nat \<Rightarrow> int" where
  "indexOfFrom s c n =
     (let i = indexOf (drop n s) c in if i = - 1 then - 1 else i + int n)"

definition lastIndexOf :: "str \<Rightarrow> char \<Rightarrow> int" where
  "lastIndexOf s c = (let i = indexOf (rev s) c in if i = - 1 then - 1 else int (length s) - 1 - i)"

text \<open>\<open>s.substring(i)\<close> and \<open>s.substring(i, j)\<close>: negative indices count as 0, and the two are
  swapped when out of order.\<close>

definition substr :: "str \<Rightarrow> int \<Rightarrow> str" where
  "substr s i = drop (nat i) s"

definition substring :: "str \<Rightarrow> int \<Rightarrow> int \<Rightarrow> str" where
  "substring s i j =
     (let a = min (nat i) (nat j); b = max (nat i) (nat j) in take (b - a) (drop a s))"

text \<open>\<open>s.slice(i, j)\<close> with indices that may be negative (counted from the end).\<close>

definition slice :: "str \<Rightarrow> int \<Rightarrow> int \<Rightarrow> str" where
  "slice s i j =
     (let n = int (length s);
          a = nat (if i < 0 then max 0 (n + i) else i);
          b = nat (if j < 0 then max 0 (n + j) else j)
      in take (b - a) (drop a s))"

fun contains :: "str \<Rightarrow> str \<Rightarrow> bool" where
  "contains [] p \<longleftrightarrow> p = []"
| "contains (c # s) p \<longleftrightarrow> startsWith (c # s) p \<or> contains s p"

text \<open>\<open>s.split(c)\<close> for a one-character separator.\<close>

fun splitOn :: "char \<Rightarrow> str \<Rightarrow> str list" where
  "splitOn c [] = [[]]"
| "splitOn c (d # s) =
     (if d = c then [] # splitOn c s
      else (case splitOn c s of [] \<Rightarrow> [[d]] | w # ws \<Rightarrow> (d # w) # ws))"

fun joinWith :: "str \<Rightarrow> str list \<Rightarrow> str" where
  "joinWith sep [] = []"
| "joinWith sep [w] = w"
| "joinWith sep (w # v # ws) = w @ sep @ joinWith sep (v # ws)"

text \<open>\<open>toLowerCase\<close> on code units below 256: A to Z, and the Latin-1 capitals 192 to 222 except
  the multiplication sign 215.\<close>

definition lowerC :: "char \<Rightarrow> char" where
  "lowerC c =
     (let n = of_char c :: nat in
      if (65 \<le> n \<and> n \<le> 90) \<or> (192 \<le> n \<and> n \<le> 222 \<and> n \<noteq> 215) then char_of (n + 32) else c)"

definition toLowerCase :: "str \<Rightarrow> str" where
  "toLowerCase s = map lowerC s"

text \<open>\<open>trim\<close>: the white space and line terminators below 256.\<close>

definition jsSpace :: "char \<Rightarrow> bool" where
  "jsSpace c \<longleftrightarrow> of_char c \<in> {9, 10, 11, 12, 13, 32, 160 :: nat}"

definition trim :: "str \<Rightarrow> str" where
  "trim s = rev (dropWhile jsSpace (rev (dropWhile jsSpace s)))"

definition lineTerminator :: "char \<Rightarrow> bool" where
  "lineTerminator c \<longleftrightarrow> c = CHR 0x0A \<or> c = CHR 0x0D"

text \<open>A string that is neither \<open>undefined\<close> nor empty.\<close>

definition truthy :: "str option \<Rightarrow> bool" where
  "truthy s = (case s of None \<Rightarrow> False | Some t \<Rightarrow> t \<noteq> [])"

lemma truthy_simps [simp]: "\<not> truthy None" "truthy (Some t) \<longleftrightarrow> t \<noteq> []"
  by (simp_all add: truthy_def)

lemma startsWith_iff: "startsWith s p \<longleftrightarrow> (\<exists>t. s = p @ t)"
  by (metis append_eq_conv_conj append_take_drop_id startsWith_def)

lemma startsWith_append [simp]: "startsWith (p @ t) p"
  by (simp add: startsWith_def)

lemma startsWith_Nil [simp]: "startsWith s []"
  by (simp add: startsWith_def)

lemma startsWith_Cons [simp]:
  "startsWith (c # s) (d # p) \<longleftrightarrow> c = d \<and> startsWith s p" "\<not> startsWith [] (d # p)"
  by (auto simp: startsWith_def)

lemma startsWith_append_cut: "c \<notin> set p \<Longrightarrow> startsWith (v @ c # s) p \<longleftrightarrow> startsWith v p"
proof (induction v arbitrary: p)
  case Nil
  then show ?case by (cases p) auto
next
  case (Cons d v)
  then show ?case by (cases p) auto
qed

lemma endsWith_iff: "endsWith s p \<longleftrightarrow> (\<exists>t. s = t @ p)"
  by (metis append_eq_conv_conj append_take_drop_id diff_diff_cancel endsWith_def
      le_add2 length_append length_drop add_diff_cancel_right')

lemma endsWith_single: "endsWith s [c] \<longleftrightarrow> s \<noteq> [] \<and> last s = c"
  by (metis append_butlast_last_id endsWith_iff last_snoc snoc_eq_iff_butlast)

lemma includes_Nil [simp]: "contains s []"
  by (cases s) auto

lemma includes_iff: "contains s p \<longleftrightarrow> (\<exists>u v. s = u @ p @ v)"
proof (induction s)
  case Nil
  show ?case by auto
next
  case (Cons c s)
  have "contains (c # s) p \<longleftrightarrow> (\<exists>v. c # s = p @ v) \<or> (\<exists>u v. s = u @ p @ v)"
    by (simp only: contains.simps startsWith_iff Cons.IH)
  also have "\<dots> \<longleftrightarrow> (\<exists>u v. c # s = u @ p @ v)"
    by (auto simp: Cons_eq_append_conv)
  finally show ?case .
qed

lemma includes_char: "contains s [c] \<longleftrightarrow> c \<in> set s"
  by (metis append_Cons append_Nil in_set_conv_decomp includes_iff)

lemma indexOf_minus_one [simp]: "indexOf s c = - 1 \<longleftrightarrow> c \<notin> set s"
  by (simp add: indexOf_def)

lemma indexOf_nonneg: "c \<in> set s \<Longrightarrow> 0 \<le> indexOf s c"
  by (simp add: indexOf_def)

lemma takeWhile_append_notin:
  "c \<notin> set p \<Longrightarrow> takeWhile (\<lambda>d. d \<noteq> c) (p @ s) = p @ takeWhile (\<lambda>d. d \<noteq> c) s"
  by (rule takeWhile_append2) auto

lemma indexOf_split:
  "c \<notin> set p \<Longrightarrow> indexOf (p @ c # s) c = int (length p)"
  by (simp add: indexOf_def takeWhile_append_notin)

lemma indexOf_append_left: "c \<in> set p \<Longrightarrow> indexOf (p @ s) c = indexOf p c"
  by (simp add: indexOf_def)

lemma indexOf_append_right:
  "c \<notin> set p \<Longrightarrow> c \<in> set s \<Longrightarrow> indexOf (p @ s) c = int (length p) + indexOf s c"
  by (simp add: indexOf_def takeWhile_append_notin)

lemma substring_0: "substring s 0 (int n) = take n s"
  by (simp add: substring_def)

lemma substr_nat [simp]: "substr s (int n) = drop n s"
  by (simp add: substr_def)

lemma substring_substr_append: "substring s 0 i @ substr s i = s"
  by (simp add: substring_def substr_def)

lemma splitOn_not_Nil [simp]: "splitOn c s \<noteq> []"
  by (induction s) (auto split: list.splits)

lemma hd_splitOn: "hd (splitOn c s) = takeWhile (\<lambda>d. d \<noteq> c) s"
proof (induction s)
  case (Cons d s)
  then show ?case by (cases "splitOn c s") auto
qed simp

lemma joinWith_splitOn: "joinWith [c] (splitOn c s) = s"
proof (induction s)
  case (Cons d s)
  obtain w ws where w: "splitOn c s = w # ws"
    by (meson neq_Nil_conv splitOn_not_Nil)
  with Cons show ?case by (cases ws) auto
qed simp

lemma lowerC_idem [simp]: "lowerC (lowerC c) = lowerC c"
proof -
  let ?n = "of_char c :: nat"

  show ?thesis
  proof (cases "(65 \<le> ?n \<and> ?n \<le> 90) \<or> (192 \<le> ?n \<and> ?n \<le> 222 \<and> ?n \<noteq> 215)")
    case True
    then have l: "lowerC c = char_of (?n + 32)" by (simp add: lowerC_def)
    from True have "of_char (char_of (?n + 32) :: char) = ?n + 32"
      by (auto simp: of_char_of)
    with True l show ?thesis by (auto simp: lowerC_def [of "char_of (?n + 32)"])
  next
    case False
    then have "lowerC c = c" by (auto simp: lowerC_def Let_def)
    then show ?thesis by simp
  qed
qed

lemma toLowerCase_simps [simp]:
  "toLowerCase [] = []" "toLowerCase (c # s) = lowerC c # toLowerCase s"
  "toLowerCase (s @ t) = toLowerCase s @ toLowerCase t"
  by (simp_all add: toLowerCase_def)

lemma toLowerCase_idem [simp]: "toLowerCase (toLowerCase s) = toLowerCase s"
  by (simp add: toLowerCase_def)

lemma length_toLowerCase [simp]: "length (toLowerCase s) = length s"
  by (simp add: toLowerCase_def)

section \<open>Errors\<close>

text \<open>The errors the modelled code throws: a \<open>PnpmError\<close> with its code, a plain \<open>Error\<close>, and
  the \<open>TypeError\<close> of JavaScript itself (reading a property of \<open>undefined\<close>, a \<open>semver\<close> call on a
  string that is not a version). Messages are kept where the code builds them from data.\<close>

datatype js_error =
    PnpmError (errCode: str) (errMessage: str)
  | PlainError str
  | TypeError str

text \<open>The constructor of \<open>PnpmError\<close> (packages/error/src/index.ts): the code gets a prefix once.\<close>

definition pnpmError :: "str \<Rightarrow> str \<Rightarrow> js_error" where
  "pnpmError code message =
     PnpmError (if startsWith code ''ERR_PNPM_'' then code else ''ERR_PNPM_'' @ code) message"

text \<open>A value in single quotes, as the messages show it.\<close>

definition quoted :: "str \<Rightarrow> str" where
  "quoted s = [CHR 0x27] @ s @ [CHR 0x27]"

definition sbind :: "'e + 'a \<Rightarrow> ('a \<Rightarrow> 'e + 'b) \<Rightarrow> 'e + 'b" where
  "sbind x f = (case x of Inl e \<Rightarrow> Inl e | Inr a \<Rightarrow> f a)"

lemma sbind_simps [simp]: "sbind (Inl e) f = Inl e" "sbind (Inr a) f = f a"
  by (simp_all add: sbind_def)

lemma sbind_cong [fundef_cong]:
  "x = y \<Longrightarrow> (\<And>a. y = Inr a \<Longrightarrow> f a = g a) \<Longrightarrow> sbind x f = sbind y g"
  by (cases y) auto

lemma sbind_Inr_iff: "sbind x f = Inr b \<longleftrightarrow> (\<exists>a. x = Inr a \<and> f a = Inr b)"
  by (cases x) auto

text \<open>A loop whose body may throw: the first error stops it.\<close>

fun smap :: "('a \<Rightarrow> 'e + 'b) \<Rightarrow> 'a list \<Rightarrow> 'e + 'b list" where
  "smap f [] = Inr []"
| "smap f (x # xs) = sbind (f x) (\<lambda>y. sbind (smap f xs) (\<lambda>ys. Inr (y # ys)))"

fun sfold :: "('a \<Rightarrow> 's \<Rightarrow> 'e + 's) \<Rightarrow> 'a list \<Rightarrow> 's \<Rightarrow> 'e + 's" where
  "sfold f [] s = Inr s"
| "sfold f (x # xs) s = sbind (f x s) (sfold f xs)"

lemma smap_Inr_iff:
  "smap f xs = Inr ys \<longleftrightarrow> list_all2 (\<lambda>x y. f x = Inr y) xs ys"
  by (induction xs arbitrary: ys) (auto simp: sbind_Inr_iff list_all2_Cons1)

lemma smap_total: "(\<And>x. x \<in> set xs \<Longrightarrow> f x = Inr (g x)) \<Longrightarrow> smap f xs = Inr (map g xs)"
  by (induction xs) auto

lemma sfold_total:
  "(\<And>x s. x \<in> set xs \<Longrightarrow> f x s = Inr (g x s)) \<Longrightarrow> sfold f xs s = Inr (fold g xs s)"
  by (induction xs arbitrary: s) auto

section \<open>Sorting\<close>

text \<open>\<open>lexCompare\<close> and the default comparison of \<open>Array.prototype.sort\<close> order strings by code
  units, which is the lexicographic order of the library on \<open>char list\<close>; \<open>sort\<close> is stable, as
  JavaScript's is. Two lists with the same elements sort to the same list.\<close>

lemma sort_mset_cong: "mset xs = mset ys \<Longrightarrow> sort xs = sort (ys :: 'a :: linorder list)"
  by (metis mset_sort properties_for_sort sorted_sort)

end
