(* ===== verification/GraphSequencer.thy ===== *)
theory GraphSequencer
  imports Prelude
begin

text \<open>
  The topological sort of workspace projects and of packages to build:
  deps/graph-sequencer/src/index.ts, and workspace/sort-packages/src/index.ts which calls it.

  The graph is a \<open>Map\<close> (association list) from nodes to their outgoing edges. The mutable sets and
  maps of the function (\<open>nodes\<close>, \<open>visited\<close>, \<open>outDegree\<close>, \<open>reverseGraph\<close>) are fields of a state. The
  outer \<open>while\<close> has no evident bound, so it is a \<open>partial_function\<close> whose \<open>None\<close> is non-termination;
  the theorems show that it returns. A read of a missing key, which would be a \<open>TypeError\<close> at run
  time, is an \<open>Inl\<close>.
\<close>

section \<open>State and operations\<close>

type_synonym 'a graph = "('a \<times> 'a list) list"

record 'a gsState =
  gNodes :: "'a list"
  gVisited :: "'a list"
  gOutDegree :: "('a \<times> int) list"
  gReverse :: "'a graph"
  gChunks :: "'a list list"
  gCycles :: "'a list list"
  gSafe :: bool

record 'a gsResult =
  safe :: bool
  chunks :: "'a list list"
  cycles :: "'a list list"

definition notIterable :: "js_error + 'b" where
  "notIterable = Inl (TypeError ''undefined is not iterable'')"

definition changeOutDegree :: "'a \<Rightarrow> int \<Rightarrow> ('a \<times> int) list \<Rightarrow> ('a \<times> int) list" where
  "changeOutDegree node value od =
     (let degree = (case map_of od node of None \<Rightarrow> 0 | Some d \<Rightarrow> d) in jset node (degree + value) od)"

text \<open>The body of the loop over edges that fills \<open>outDegree\<close> and \<open>reverseGraph\<close>.\<close>

definition addEdge :: "'a list \<Rightarrow> 'a \<Rightarrow> 'a \<Rightarrow> ('a \<times> int) list \<times> 'a graph \<Rightarrow>
    js_error + ('a \<times> int) list \<times> 'a graph" where
  "addEdge nodes source target = (\<lambda>(od, rg).
     if source \<in> set nodes \<and> target \<in> set nodes then
       (case map_of rg target of
          None \<Rightarrow> Inl (TypeError ''Cannot read properties of undefined'')
        | Some fs \<Rightarrow> Inr (changeOutDegree source 1 od, jset target (fs @ [source]) rg))
     else Inr (od, rg))"

definition addNode :: "'a list \<Rightarrow> 'a \<times> 'a list \<Rightarrow> 'a gsState \<Rightarrow> js_error + 'a gsState" where
  "addNode included = (\<lambda>(source, edges) st.
     sbind (sfold (addEdge included source) edges (jset source 0 (gOutDegree st), gReverse st))
       (\<lambda>(od, rg). Inr (st\<lparr>gOutDegree := od, gReverse := rg,
          gVisited := (if source \<notin> set included then sadd source (gVisited st) else gVisited st)\<rparr>)))"

definition initState :: "'a graph \<Rightarrow> 'a list \<Rightarrow> js_error + 'a gsState" where
  "initState graph includedNodes =
     (let nodes = uniq includedNodes in
      sfold (addNode nodes) graph
        \<lparr>gNodes = nodes, gVisited = [], gOutDegree = [], gReverse = map (\<lambda>k. (k, [])) (keys graph),
         gChunks = [], gCycles = [], gSafe = True\<rparr>)"

definition removeNode :: "'a \<Rightarrow> 'a gsState \<Rightarrow> 'a gsState" where
  "removeNode node st =
     (case map_of (gReverse st) node of
        None \<Rightarrow> st
      | Some sources \<Rightarrow>
          st\<lparr>gOutDegree := fold (\<lambda>source. changeOutDegree source (- 1)) sources (gOutDegree st),
             gVisited := sadd node (gVisited st),
             gNodes := remove1 node (gNodes st)\<rparr>)"

text \<open>\<open>removeNode\<close> is called with nodes of the graph only, whose entry of \<open>reverseGraph\<close> exists: those
  of out-degree 0, and those of a cycle that \<open>findCycle\<close> walked through.\<close>

subsection \<open>findCycle\<close>

text \<open>The inner loop over the edges of \<open>id\<close>, on \<open>cycleVisited\<close>, \<open>queue\<close> and \<open>cycles\<close>.\<close>

fun cycleEdges :: "'a \<Rightarrow> 'a list \<Rightarrow> 'a list \<Rightarrow> 'a list \<Rightarrow>
    'a list \<times> ('a \<times> 'a list) list \<times> 'a list list \<Rightarrow> 'a list \<times> ('a \<times> 'a list) list \<times> 'a list list" where
  "cycleEdges startNode visited path [] st = st"
| "cycleEdges startNode visited path (to # es) (cv, queue, cs) =
     (if to = startNode then cycleEdges startNode visited path es (sadd to cv, queue, cs @ [path])
      else if to \<in> set visited \<or> to \<in> set cv then cycleEdges startNode visited path es (cv, queue, cs)
      else cycleEdges startNode visited path es (sadd to cv, queue @ [(to, path @ [to])], cs))"

definition targets :: "'a graph \<Rightarrow> 'a set" where
  "targets graph = (\<Union>(_, es) \<in> set graph. set es)"

lemma finite_targets [simp]: "finite (targets graph)"
  by (auto simp: targets_def)

lemma map_of_targets: "map_of graph n = Some es \<Longrightarrow> set es \<subseteq> targets graph"
  by (auto simp: targets_def dest: map_of_SomeD)

lemma cycleEdges_measure:
  assumes "set es \<subseteq> T" "finite T" "cycleEdges s vis path es (cv, q, cs) = (cv', q', cs')"
  shows "2 * card (T - set cv') + length q' \<le> 2 * card (T - set cv) + length q \<and> set cv \<subseteq> set cv'"
  using assms
proof (induction es arbitrary: cv q cs)
  case (Cons to es)
  show ?case
  proof (cases "to \<in> set cv")
    case True
    then have "sadd to cv = cv" by (simp add: sadd_def)
    with True Cons.prems Cons.IH [of cv q] show ?thesis by (auto split: if_splits)
  next
    case False
    then have "T - set cv = insert to (T - set (sadd to cv))"
      using Cons.prems(1) by auto
    then have "card (T - set cv) = Suc (card (T - set (sadd to cv)))"
      using Cons.prems(2) by (metis DiffD2 card_insert_disjoint finite_Diff insertI1 set_sadd)
    moreover consider "to = s" | "to \<noteq> s" "to \<in> set vis" | "to \<noteq> s" "to \<notin> set vis" by blast
    then have "2 * card (T - set cv') + length q' \<le> 2 * card (T - set (sadd to cv)) + length q + 1 \<and>
        set (sadd to cv) \<subseteq> set cv' \<or>
        2 * card (T - set cv') + length q' \<le> 2 * card (T - set cv) + length q \<and> set cv \<subseteq> set cv'"
    proof cases
      case 1
      with Cons.prems Cons.IH [of "sadd to cv" q "cs @ [path]"] show ?thesis by simp
    next
      case 2
      with Cons.prems Cons.IH [of cv q cs] show ?thesis by simp
    next
      case 3
      with False Cons.prems Cons.IH [of "sadd to cv" "q @ [(to, path @ [to])]" cs]
      show ?thesis by simp
    qed
    ultimately show ?thesis by auto
  qed
qed simp

text \<open>The breadth-first loop over the queue.\<close>

function cycleLoop :: "'a graph \<Rightarrow> 'a list \<Rightarrow> 'a \<Rightarrow> 'a list \<times> ('a \<times> 'a list) list \<times> 'a list list \<Rightarrow>
    js_error + 'a list list" where
  "cycleLoop graph visited startNode (cv, [], cs) = Inr cs"
| "cycleLoop graph visited startNode (cv, (node, path) # queue, cs) =
     (case map_of graph node of
        None \<Rightarrow> notIterable
      | Some edges \<Rightarrow>
          cycleLoop graph visited startNode (cycleEdges startNode visited path edges (cv, queue, cs)))"
  by pat_completeness auto
termination
proof (relation "measure (\<lambda>(graph, _, _, cv, queue, _).
    2 * card (targets graph - set cv) + length queue)", goal_cases)
  case (2 graph visited startNode cv node path queue cs edges)
  obtain cv' q' cs' where e: "cycleEdges startNode visited path edges (cv, queue, cs) = (cv', q', cs')"
    by (metis prod_cases3)
  from cycleEdges_measure [OF map_of_targets [OF 2] finite_targets e] show ?case
    by (simp add: e)
qed simp

definition findCycle :: "'a graph \<Rightarrow> 'a list \<Rightarrow> 'a \<Rightarrow> js_error + 'a list" where
  "findCycle graph visited startNode =
     sbind (cycleLoop graph visited startNode ([], [(startNode, [startNode])], []))
       (\<lambda>cs. Inr (if cs = [] then [] else hd (sort_key (\<lambda>c. - int (length c)) cs)))"

subsection \<open>The main loop\<close>

text \<open>One pass over the nodes when none has out-degree 0. The iteration over the \<open>Set\<close> skips the
  nodes that were removed in the meantime.\<close>

fun cyclePass :: "'a graph \<Rightarrow> 'a list \<Rightarrow> 'a list \<Rightarrow> 'a gsState \<Rightarrow> js_error + 'a list \<times> 'a gsState" where
  "cyclePass graph [] cycleNodes st = Inr (cycleNodes, st)"
| "cyclePass graph (node # ns) cycleNodes st =
     (if node \<notin> set (gNodes st) then cyclePass graph ns cycleNodes st
      else sbind (findCycle graph (gVisited st) node)
        (\<lambda>cycle.
          if cycle \<noteq> [] then
            cyclePass graph ns (cycleNodes @ cycle)
              ((fold removeNode cycle st)
                 \<lparr>gCycles := gCycles st @ [cycle], gSafe := gSafe st \<and> length cycle \<le> 1\<rparr>)
          else cyclePass graph ns cycleNodes st))"

definition MAX_SAFE_INTEGER :: int where
  "MAX_SAFE_INTEGER = 2 ^ 53 - 1"

text \<open>\<open>Math.min\<close> with a missing degree is \<open>NaN\<close>, here \<open>None\<close>, which is not 0.\<close>

definition minDegree :: "'a gsState \<Rightarrow> int option" where
  "minDegree st =
     fold (\<lambda>node m. case (m, map_of (gOutDegree st) node) of
        (Some a, Some b) \<Rightarrow> Some (min a b) | _ \<Rightarrow> None) (gNodes st) (Some MAX_SAFE_INTEGER)"

definition zeroDegreeNodes :: "'a gsState \<Rightarrow> 'a list" where
  "zeroDegreeNodes st = filter (\<lambda>node. map_of (gOutDegree st) node = Some 0) (gNodes st)"

definition iteration :: "'a graph \<Rightarrow> 'a gsState \<Rightarrow> js_error + 'a gsState" where
  "iteration graph st =
     (if minDegree st = Some 0 then
        let chunk = zeroDegreeNodes st
        in Inr ((fold removeNode chunk st)\<lparr>gChunks := gChunks st @ [chunk]\<rparr>)
      else sbind (cyclePass graph (gNodes st) [] st)
        (\<lambda>(cycleNodes, st'). Inr (st'\<lparr>gChunks := gChunks st' @ [cycleNodes]\<rparr>)))"

partial_function (option) mainLoop :: "'a graph \<Rightarrow> 'a gsState \<Rightarrow> (js_error + 'a gsState) option" where
  "mainLoop graph st =
     (if gNodes st = [] then Some (Inr st)
      else case iteration graph st of
          Inl e \<Rightarrow> Some (Inl e)
        | Inr st' \<Rightarrow> mainLoop graph st')"

definition graphSequencer :: "'a graph \<Rightarrow> 'a list \<Rightarrow> (js_error + 'a gsResult) option" where
  "graphSequencer graph includedNodes =
     (case initState graph includedNodes of
        Inl e \<Rightarrow> Some (Inl e)
      | Inr st \<Rightarrow> map_option (\<lambda>r. sbind r (\<lambda>st'.
          Inr \<lparr>safe = gSafe st', chunks = gChunks st', cycles = gCycles st'\<rparr>)) (mainLoop graph st))"

section \<open>What findCycle finds\<close>

definition edgesOf :: "'a graph \<Rightarrow> 'a \<Rightarrow> 'a list" where
  "edgesOf graph n = (case map_of graph n of None \<Rightarrow> [] | Some es \<Rightarrow> es)"

definition edgePath :: "'a graph \<Rightarrow> 'a list \<Rightarrow> bool" where
  "edgePath graph p \<longleftrightarrow> successively (\<lambda>a b. b \<in> set (edgesOf graph a)) p"

text \<open>A real cycle: distinct nodes, an edge from each to the next and from the last to the first.\<close>

definition isCycle :: "'a graph \<Rightarrow> 'a list \<Rightarrow> bool" where
  "isCycle graph c \<longleftrightarrow> c \<noteq> [] \<and> distinct c \<and> edgePath graph c \<and> hd c \<in> set (edgesOf graph (last c))"

text \<open>The entries of the queue are paths from the start node through nodes not visited before.\<close>

definition pathOk :: "'a graph \<Rightarrow> 'a list \<Rightarrow> 'a \<Rightarrow> 'a list \<Rightarrow> 'a \<times> 'a list \<Rightarrow> bool" where
  "pathOk graph visited s cv = (\<lambda>(n, p). p \<noteq> [] \<and> hd p = s \<and> last p = n \<and> distinct p \<and>
     edgePath graph p \<and> set p \<subseteq> insert s (set cv) \<and> set (tl p) \<inter> set visited = {} \<and> s \<notin> set (tl p))"

definition cycleOk :: "'a graph \<Rightarrow> 'a list \<Rightarrow> 'a \<Rightarrow> 'a list \<Rightarrow> bool" where
  "cycleOk graph visited s c \<longleftrightarrow> isCycle graph c \<and> hd c = s \<and> set (tl c) \<inter> set visited = {}"

text \<open>What the loop over edges and the loop over the queue preserve. \<open>done\<close> is the part of the search
  that is complete: every other node found has its edges explored.\<close>

definition explored :: "'a graph \<Rightarrow> 'a list \<Rightarrow> 'a \<Rightarrow> 'a list \<Rightarrow> 'a list list \<Rightarrow> 'a \<Rightarrow> bool" where
  "explored graph visited s cv cs n \<longleftrightarrow>
     (\<forall>t \<in> set (edgesOf graph n). if t = s then cs \<noteq> [] else t \<in> set visited \<union> set cv)"

lemma pathOk_mono: "pathOk g vis s cv x \<Longrightarrow> set cv \<subseteq> set cv' \<Longrightarrow> pathOk g vis s cv' x"
  by (auto simp: pathOk_def)

lemma edgePath_snoc:
  "p \<noteq> [] \<Longrightarrow> edgePath g (p @ [t]) \<longleftrightarrow> edgePath g p \<and> t \<in> set (edgesOf g (last p))"
  by (auto simp: edgePath_def successively_append_iff)

lemma cycleEdges_sound:
  assumes "cycleEdges s vis path es (cv, q, cs) = (cv', q', cs')"
    and "set es \<subseteq> set (edgesOf g n)" "pathOk g vis s cv (n, path)"
    and "\<forall>x \<in> set q. pathOk g vis s cv x" "\<forall>c \<in> set cs. cycleOk g vis s c"
  shows "(\<forall>x \<in> set q'. pathOk g vis s cv' x) \<and> (\<forall>c \<in> set cs'. cycleOk g vis s c)"
  using assms
proof (induction es arbitrary: cv q cs)
  case (Cons t es)
  consider "t = s" | "t \<noteq> s" "t \<in> set vis \<union> set cv" | "t \<noteq> s" "t \<notin> set vis \<union> set cv" by blast
  then show ?case
  proof cases
    case 1
    have "cycleOk g vis s path"
      using Cons.prems 1 by (auto simp: cycleOk_def isCycle_def pathOk_def)
    with 1 Cons.prems show ?thesis
      by (intro Cons.IH [of "sadd t cv" q "cs @ [path]"])
        (auto intro: pathOk_mono [where cv = cv])
  next
    case 2
    with Cons.prems show ?thesis by (intro Cons.IH [of cv q cs]) auto
  next
    case 3
    have p: "path \<noteq> []" "last path = n" using Cons.prems by (auto simp: pathOk_def)
    have "t \<notin> set path" using Cons.prems 3 by (auto simp: pathOk_def)
    moreover have "edgePath g (path @ [t])"
      using Cons.prems p by (auto simp: edgePath_snoc pathOk_def)
    ultimately have "pathOk g vis s (sadd t cv) (t, path @ [t])"
      using Cons.prems 3 p by (auto simp: pathOk_def)
    with 3 Cons.prems show ?thesis
      by (intro Cons.IH [of "sadd t cv" "q @ [(t, path @ [t])]" cs])
        (auto intro: pathOk_mono [where cv = cv])
  qed
qed auto

lemma cycleEdges_explores:
  assumes "cycleEdges s vis path es (cv, q, cs) = (cv', q', cs')"
  shows "set cv \<subseteq> set cv' \<and> (cs \<noteq> [] \<longrightarrow> cs' \<noteq> []) \<and> set q \<subseteq> set q' \<and>
    (\<forall>t \<in> set es. (t = s \<longrightarrow> cs' \<noteq> []) \<and> (t \<noteq> s \<longrightarrow> t \<in> set vis \<union> set cv')) \<and>
    set cv' \<subseteq> insert s (set cv \<union> fst ` set q')"
  using assms
proof (induction es arbitrary: cv q cs)
  case (Cons t es)
  consider "t = s" | "t \<noteq> s" "t \<in> set vis \<union> set cv" | "t \<noteq> s" "t \<notin> set vis \<union> set cv" by blast
  then show ?case
  proof cases
    case 1
    with Cons.prems Cons.IH [of "sadd t cv" q "cs @ [path]"] show ?thesis by auto
  next
    case 2
    with Cons.prems Cons.IH [of cv q cs] show ?thesis by auto
  next
    case 3
    let ?q = "q @ [(t, path @ [t])]"
    have "cycleEdges s vis path es (sadd t cv, ?q, cs) = (cv', q', cs')" using Cons.prems 3 by simp
    from Cons.IH [OF this] have IH: "insert t (set cv) \<subseteq> set cv'" "cs \<noteq> [] \<longrightarrow> cs' \<noteq> []"
      "set q \<subseteq> set q'" "(t, path @ [t]) \<in> set q'"
      "\<forall>t \<in> set es. (t = s \<longrightarrow> cs' \<noteq> []) \<and> (t \<noteq> s \<longrightarrow> t \<in> set vis \<union> set cv')"
      "set cv' \<subseteq> insert s (insert t (set cv) \<union> fst ` set q')" by simp_all
    moreover have "t \<in> fst ` set q'" using IH(4) by force
    ultimately show ?thesis using 3 by auto
  qed
qed auto

lemma cycleEdges_queue:
  "cycleEdges s vis path es (cv, q, cs) = (cv', q', cs') \<Longrightarrow>
   fst ` set q' \<subseteq> fst ` set q \<union> (set es - set vis)"
proof (induction es arbitrary: cv q cs)
  case (Cons t es)
  consider "t = s" | "t \<noteq> s" "t \<in> set vis \<union> set cv" | "t \<noteq> s" "t \<notin> set vis \<union> set cv" by blast
  then show ?case
  proof cases
    case 1
    with Cons.prems Cons.IH [of "sadd t cv" q "cs @ [path]"] show ?thesis by auto
  next
    case 2
    with Cons.prems Cons.IH [of cv q cs] show ?thesis by auto
  next
    case 3
    with Cons.prems Cons.IH [of "sadd t cv" "q @ [(t, path @ [t])]" cs] show ?thesis by auto
  qed
qed auto

lemma cycleLoop_sound:
  assumes "cycleLoop g vis s (cv, q, cs) = Inr r"
    and "\<forall>x \<in> set q. pathOk g vis s cv x" "\<forall>c \<in> set cs. cycleOk g vis s c"
  shows "\<forall>c \<in> set r. cycleOk g vis s c"
  using assms
proof (induction g vis s "(cv, q, cs)" arbitrary: cv q cs rule: cycleLoop.induct)
  case (1 g vis s cv cs)
  then show ?case by simp
next
  case (2 g vis s cv n path q cs)
  then obtain es where es: "map_of g n = Some es" by (auto simp: notIterable_def split: option.splits)
  obtain cv' q' cs' where e: "cycleEdges s vis path es (cv, q, cs) = (cv', q', cs')"
    by (metis prod_cases3)
  from 2 es have "(\<forall>x \<in> set q'. pathOk g vis s cv' x) \<and> (\<forall>c \<in> set cs'. cycleOk g vis s c)"
    by (intro cycleEdges_sound [OF e, of g n]) (auto simp: edgesOf_def)
  with 2 es e show ?case by auto
qed

lemma cycleLoop_complete:
  assumes "cycleLoop g vis s (cv, q, cs) = Inr []"
    and "\<forall>n \<in> insert s (set cv). n \<in> fst ` set q \<or> explored g vis s cv cs n"
  shows "\<exists>C. insert s (set cv) \<subseteq> C \<and>
    (\<forall>n \<in> C. \<forall>t \<in> set (edgesOf g n). t \<noteq> s \<and> (t \<in> set vis \<or> t \<in> C))"
  using assms
proof (induction g vis s "(cv, q, cs)" arbitrary: cv q cs rule: cycleLoop.induct)
  case (1 g vis s cv cs)
  then show ?case
    by (intro exI [of _ "insert s (set cv)"]) (auto simp: explored_def split: if_splits)
next
  case (2 g vis s cv n path q cs)
  then obtain es where es: "map_of g n = Some es" by (auto simp: notIterable_def split: option.splits)
  obtain cv' q' cs' where e: "cycleEdges s vis path es (cv, q, cs) = (cv', q', cs')"
    by (metis prod_cases3)
  note x = cycleEdges_explores [OF e]
  have "m \<in> fst ` set q' \<or> explored g vis s cv' cs' m" if m: "m \<in> insert s (set cv')" for m
  proof (cases "m = n")
    case True
    with x es show ?thesis by (auto simp: explored_def edgesOf_def)
  next
    case False
    from x have "set cv' \<subseteq> insert s (set cv \<union> fst ` set q')" by blast
    with m have "m \<in> insert s (set cv) \<or> m \<in> fst ` set q'" by blast
    then show ?thesis
    proof
      assume "m \<in> insert s (set cv)"
      then have "m \<in> fst ` set q \<or> explored g vis s cv cs m" using "2.prems"(2) False by auto
      then show ?thesis
      proof
        assume "m \<in> fst ` set q"
        with x show ?thesis by blast
      next
        assume "explored g vis s cv cs m"
        with x show ?thesis unfolding explored_def by (meson UnCI UnE subsetD)
      qed
    qed simp
  qed
  then have all: "\<forall>m \<in> insert s (set cv'). m \<in> fst ` set q' \<or> explored g vis s cv' cs' m" by blast
  have "cycleLoop g vis s (cv', q', cs') = Inr []" using "2.prems"(1) es e by simp
  from "2.hyps" [OF es e this all]
  obtain C where C: "insert s (set cv') \<subseteq> C"
      "\<forall>n \<in> C. \<forall>t \<in> set (edgesOf g n). t \<noteq> s \<and> (t \<in> set vis \<or> t \<in> C)" by blast
  with x have "insert s (set cv) \<subseteq> C" by blast
  with C(2) show ?case by blast
qed

text \<open>The search does not fail when every node it can meet is a key of the graph.\<close>

lemma cycleLoop_total:
  assumes "\<forall>n. \<forall>t \<in> set (edgesOf g n). t \<notin> set vis \<longrightarrow> t \<in> set (keys g)"
    and "fst ` set q \<subseteq> set (keys g)"
  shows "\<exists>r. cycleLoop g vis s (cv, q, cs) = Inr r"
  using assms
proof (induction g vis s "(cv, q, cs)" arbitrary: cv q cs rule: cycleLoop.induct)
  case (2 g vis s cv n path q cs)
  then have "n \<in> set (keys g)" by auto
  then obtain es where es: "map_of g n = Some es" unfolding in_keys_iff by auto
  obtain cv' q' cs' where e: "cycleEdges s vis path es (cv, q, cs) = (cv', q', cs')"
    by (metis prod_cases3)
  have "set es - set vis \<subseteq> set (keys g)"
    using "2.prems"(1) [THEN spec, of n] es by (auto simp: edgesOf_def)
  moreover have "fst ` set q \<subseteq> set (keys g)" using "2.prems"(2) by simp
  ultimately have "fst ` set q' \<subseteq> set (keys g)"
    using cycleEdges_queue [OF e] by (meson Un_least order_trans)
  with "2.hyps" [OF es e "2.prems"(1)] es e show ?case by simp
qed auto

section \<open>The invariant of the state\<close>

text \<open>\<open>outDegree\<close> counts the edges into the remaining nodes, \<open>reverseGraph\<close> lists the edges among the
  included nodes backwards with their multiplicities, and \<open>visited\<close> holds every node of the graph
  that does not remain.\<close>

definition revCount :: "'a graph \<Rightarrow> 'a \<Rightarrow> 'a \<Rightarrow> nat" where
  "revCount rg m f = (case map_of rg m of None \<Rightarrow> 0 | Some fs \<Rightarrow> count_list fs f)"

definition degreeIn :: "'a graph \<Rightarrow> 'a list \<Rightarrow> 'a \<Rightarrow> nat" where
  "degreeIn g nodes n = length (filter (\<lambda>t. t \<in> set nodes) (edgesOf g n))"

definition gsInv :: "'a graph \<Rightarrow> 'a list \<Rightarrow> 'a gsState \<Rightarrow> bool" where
  "gsInv g inc st \<longleftrightarrow>
     distinct (gNodes st) \<and> set (gNodes st) \<subseteq> set inc \<and> set inc \<subseteq> set (keys g) \<and>
     set (gVisited st) = set (keys g) - set (gNodes st) \<and>
     (\<forall>n \<in> set inc. map_of (gOutDegree st) n = Some (int (degreeIn g (gNodes st) n))) \<and>
     (\<forall>m \<in> set inc. m \<in> set (keys (gReverse st)) \<and>
        (\<forall>f. revCount (gReverse st) m f = (if f \<in> set inc then count_list (edgesOf g f) m else 0)))"

lemma gsInv_update [simp]:
  "gsInv g inc (st\<lparr>gCycles := cs, gSafe := b\<rparr>) = gsInv g inc st"
  "gsInv g inc (st\<lparr>gChunks := ch\<rparr>) = gsInv g inc st"
  by (simp_all add: gsInv_def)

lemma gsInv_degree:
  "gsInv g inc st \<Longrightarrow> n \<in> set (gNodes st) \<Longrightarrow>
   map_of (gOutDegree st) n = Some (int (degreeIn g (gNodes st) n))"
  by (auto simp: gsInv_def)

lemma map_of_changeOutDegree:
  "map_of (changeOutDegree n v od) k =
     (if k = n then Some ((case map_of od n of None \<Rightarrow> 0 | Some d \<Rightarrow> d) + v) else map_of od k)"
  by (simp add: changeOutDegree_def Let_def alist.get_put)

lemma decrement_all:
  "map_of od f = Some d \<Longrightarrow>
   map_of (fold (\<lambda>s. changeOutDegree s (- 1)) fs od) f = Some (d - int (count_list fs f))"
  by (induction fs arbitrary: od d) (auto simp: map_of_changeOutDegree)

lemma degreeIn_remove:
  assumes "distinct nodes" "n \<in> set nodes"
  shows "int (degreeIn g (remove1 n nodes) f) = int (degreeIn g nodes f) - int (count_list (edgesOf g f) n)"
proof -
  have "length (filter (\<lambda>t. t \<in> set nodes) es) =
      length (filter (\<lambda>t. t \<in> set (remove1 n nodes)) es) + count_list es n" for es
    using assms by (induction es) auto
  then show ?thesis by (simp add: degreeIn_def)
qed

lemma removeNode_inv:
  assumes "gsInv g inc st" "n \<in> set (gNodes st)"
  shows "gsInv g inc (removeNode n st)" "gNodes (removeNode n st) = remove1 n (gNodes st)"
    "gChunks (removeNode n st) = gChunks st" "gCycles (removeNode n st) = gCycles st"
    "gSafe (removeNode n st) = gSafe st"
proof -
  have n: "n \<in> set inc" using assms by (auto simp: gsInv_def)
  then obtain fs where fs: "map_of (gReverse st) n = Some fs"
    using assms(1) by (auto simp: gsInv_def in_keys_iff simp del: set_map)
  have c: "count_list fs f = (if f \<in> set inc then count_list (edgesOf g f) n else 0)" for f
    using assms(1) n fs by (auto simp: gsInv_def revCount_def)
  have d: "map_of (gOutDegree (removeNode n st)) f = Some (int (degreeIn g (remove1 n (gNodes st)) f))"
    if "f \<in> set inc" for f
    using assms that decrement_all [of "gOutDegree st" f _ fs] degreeIn_remove [of "gNodes st" n g f] c
    by (auto simp: removeNode_def fs gsInv_def)
  show "gsInv g inc (removeNode n st)"
    using assms d by (auto simp: gsInv_def removeNode_def fs dest: notin_set_remove1)
  show "gNodes (removeNode n st) = remove1 n (gNodes st)"
    "gChunks (removeNode n st) = gChunks st" "gCycles (removeNode n st) = gCycles st"
    "gSafe (removeNode n st) = gSafe st"
    by (simp_all add: removeNode_def fs)
qed

lemma removeNodes_inv:
  assumes "gsInv g inc st" "distinct xs" "set xs \<subseteq> set (gNodes st)"
  shows "gsInv g inc (fold removeNode xs st) \<and>
    set (gNodes (fold removeNode xs st)) = set (gNodes st) - set xs \<and>
    gChunks (fold removeNode xs st) = gChunks st \<and> gCycles (fold removeNode xs st) = gCycles st \<and>
    gSafe (fold removeNode xs st) = gSafe st"
  using assms
proof (induction xs arbitrary: st)
  case (Cons x xs)
  note r = removeNode_inv [of g inc st x]
  have d: "distinct (gNodes st)" using Cons.prems(1) by (simp add: gsInv_def)
  have "gsInv g inc (removeNode x st)" "distinct xs" "set xs \<subseteq> set (gNodes (removeNode x st))"
    using Cons.prems r d by auto
  from Cons.IH [OF this] show ?case using Cons.prems r d by auto
qed auto

subsection \<open>The initial state\<close>

lemma addEdges_ok:
  assumes "set inc \<subseteq> set (keys rg)" "s \<in> set inc" "map_of od s = Some d"
  shows "\<exists>od' rg'. sfold (addEdge inc s) es (od, rg) = Inr (od', rg') \<and>
    map_of od' s = Some (d + int (length (filter (\<lambda>t. t \<in> set inc) es))) \<and>
    (\<forall>n. n \<noteq> s \<longrightarrow> map_of od' n = map_of od n) \<and> set (keys rg') = set (keys rg) \<and>
    (\<forall>m \<in> set inc. \<forall>f. revCount rg' m f = revCount rg m f + (if f = s then count_list es m else 0))"
  using assms
proof (induction es arbitrary: od rg d)
  case (Cons t es)
  show ?case
  proof (cases "t \<in> set inc")
    case False
    with Cons.IH [OF Cons.prems] show ?thesis by (auto simp: addEdge_def)
  next
    case True
    with Cons.prems(1) have "t \<in> set (keys rg)" by blast
    then obtain fs where fs: "map_of rg t = Some fs" unfolding in_keys_iff by auto
    let ?od = "changeOutDegree s 1 od" and ?rg = "jset t (fs @ [s]) rg"
    have k: "set (keys ?rg) = set (keys rg)"
      by (rule set_eqI) (simp add: in_keys_iff alist.get_put fs del: set_map)
    have e: "addEdge inc s t (od, rg) = Inr (?od, ?rg)" using Cons.prems True fs by (simp add: addEdge_def)
    have rc: "revCount ?rg m f = revCount rg m f + (if m = t \<and> f = s then 1 else 0)" for m f
      by (auto simp: revCount_def fs alist.get_put split: option.splits)
    have "map_of ?od s = Some (d + 1)" using Cons.prems by (simp add: map_of_changeOutDegree)
    with Cons.IH [of ?rg ?od "d + 1"] Cons.prems k obtain od' rg' where
      "sfold (addEdge inc s) es (?od, ?rg) = Inr (od', rg')"
      "map_of od' s = Some (d + 1 + int (length (filter (\<lambda>t. t \<in> set inc) es)))"
      "\<forall>n. n \<noteq> s \<longrightarrow> map_of od' n = map_of ?od n" "set (keys rg') = set (keys ?rg)"
      "\<forall>m \<in> set inc. \<forall>f. revCount rg' m f = revCount ?rg m f + (if f = s then count_list es m else 0)"
      by auto
    then show ?thesis using True e k by (auto simp: map_of_changeOutDegree rc)
  qed
qed auto

lemma addEdges_excluded: "s \<notin> set inc \<Longrightarrow> sfold (addEdge inc s) es x = Inr x"
  by (induction es arbitrary: x) (auto simp: addEdge_def)

text \<open>The state after the nodes of \<open>gs\<close> have been added.\<close>

definition addedNodes :: "'a list \<Rightarrow> 'a graph \<Rightarrow> 'a gsState \<Rightarrow> 'a gsState \<Rightarrow> bool" where
  "addedNodes inc gs st st' \<longleftrightarrow>
    gNodes st' = gNodes st \<and> gChunks st' = gChunks st \<and> gCycles st' = gCycles st \<and>
    gSafe st' = gSafe st \<and> set (gVisited st') = set (gVisited st) \<union> (set (keys gs) - set inc) \<and>
    (\<forall>n \<in> set inc. map_of (gOutDegree st') n = (case map_of gs n of None \<Rightarrow> map_of (gOutDegree st) n
       | Some es \<Rightarrow> Some (int (length (filter (\<lambda>t. t \<in> set inc) es))))) \<and>
    set (keys (gReverse st')) = set (keys (gReverse st)) \<and>
    (\<forall>m \<in> set inc. \<forall>f. revCount (gReverse st') m f = revCount (gReverse st) m f +
       (if f \<in> set inc then (case map_of gs f of None \<Rightarrow> 0 | Some es \<Rightarrow> count_list es m) else 0))"

lemma addNodes_ok:
  assumes "set inc \<subseteq> set (keys (gReverse st))" "distinct (keys gs)"
  shows "\<exists>st'. sfold (addNode inc) gs st = Inr st' \<and> addedNodes inc gs st st'"
  using assms
proof (induction gs arbitrary: st)
  case Nil
  then show ?case by (simp add: addedNodes_def)
next
  case (Cons x gs)
  obtain s es where x: "x = (s, es)" by force
  have s: "map_of gs s = None" "distinct (keys gs)"
    using Cons.prems x by (simp_all add: map_of_eq_None_iff)
  show ?case
  proof (cases "s \<in> set inc")
    case False
    let ?st = "st\<lparr>gOutDegree := jset s 0 (gOutDegree st), gVisited := sadd s (gVisited st)\<rparr>"
    have a: "addNode inc x st = Inr ?st" using False by (simp add: addNode_def x addEdges_excluded)
    obtain st' where st': "sfold (addNode inc) gs ?st = Inr st'" "addedNodes inc gs ?st st'"
      using Cons.IH [of ?st] Cons.prems(1) s(2) by auto
    have "n \<in> set inc \<Longrightarrow> n \<noteq> s" for n using False by auto
    then have "addedNodes inc (x # gs) st st'"
      using st'(2) x False by (auto simp: addedNodes_def alist.get_put split: option.splits)
    with st' a show ?thesis by simp
  next
    case True
    let ?od = "jset s 0 (gOutDegree st)"
    obtain od' rg' where e: "sfold (addEdge inc s) es (?od, gReverse st) = Inr (od', rg')"
      "map_of od' s = Some (int (length (filter (\<lambda>t. t \<in> set inc) es)))"
      "\<forall>n. n \<noteq> s \<longrightarrow> map_of od' n = map_of ?od n" "set (keys rg') = set (keys (gReverse st))"
      "\<forall>m \<in> set inc. \<forall>f. revCount rg' m f = revCount (gReverse st) m f + (if f = s then count_list es m else 0)"
      using addEdges_ok [OF Cons.prems(1) True, of ?od 0 es] by (auto simp: alist.get_put)
    let ?st = "st\<lparr>gOutDegree := od', gReverse := rg'\<rparr>"
    have a: "addNode inc x st = Inr ?st" using True e by (simp add: addNode_def x)
    obtain st' where st': "sfold (addNode inc) gs ?st = Inr st'" "addedNodes inc gs ?st st'"
      using Cons.IH [of ?st] Cons.prems(1) s(2) e(4) by auto
    have "addedNodes inc (x # gs) st st'"
      unfolding addedNodes_def
    proof (intro conjI ballI allI)
      fix n assume "n \<in> set inc"
      with st'(2) e(2,3) s(1) show "map_of (gOutDegree st') n = (case map_of (x # gs) n of
          None \<Rightarrow> map_of (gOutDegree st) n
        | Some es \<Rightarrow> Some (int (length (filter (\<lambda>t. t \<in> set inc) es))))"
        by (cases "n = s") (simp_all add: addedNodes_def x alist.get_put split: option.split)
    next
      fix m f assume "m \<in> set inc"
      with st'(2) e(5) s(1) True show "revCount (gReverse st') m f = revCount (gReverse st) m f +
         (if f \<in> set inc then (case map_of (x # gs) f of None \<Rightarrow> 0 | Some es \<Rightarrow> count_list es m) else 0)"
        by (cases "f = s") (simp_all add: addedNodes_def x)
    qed (use st'(2) e(4) True x in \<open>auto simp: addedNodes_def\<close>)
    with st' a show ?thesis by simp
  qed
qed

lemma initState_ok:
  assumes "distinct (keys g)" "set included \<subseteq> set (keys g)"
  shows "\<exists>st. initState g included = Inr st \<and> gsInv g (uniq included) st \<and> gNodes st = uniq included \<and>
    gChunks st = [] \<and> gCycles st = [] \<and> gSafe st"
proof -
  let ?inc = "uniq included"
  let ?st = "\<lparr>gNodes = ?inc, gVisited = [], gOutDegree = [], gReverse = map (\<lambda>k. (k, [])) (keys g),
         gChunks = [], gCycles = [], gSafe = True\<rparr>"
  have r: "revCount (map (\<lambda>k. (k, [])) ks) m f = 0" for ks m and f :: 'a
    by (induction ks) (auto simp: revCount_def)
  have k: "keys (map (\<lambda>k. (k, [])) ks) = ks" for ks :: "'a list"
    by (simp add: o_def)
  have "set ?inc \<subseteq> set (keys (gReverse ?st))" using assms(2) by (simp only: k gsState.simps set_uniq)
  from addNodes_ok [OF this assms(1)] obtain st where
    st: "sfold (addNode ?inc) g ?st = Inr st" "addedNodes ?inc g ?st st" by blast
  note p = st(2) [unfolded addedNodes_def]
  have out: "map_of (gOutDegree st) n = Some (int (degreeIn g ?inc n))" if n: "n \<in> set ?inc" for n
  proof -
    from n assms(2) have "n \<in> set (keys g)" by (metis set_uniq subsetD)
    then obtain es where "map_of g n = Some es" unfolding in_keys_iff by auto
    with p n show ?thesis by (simp add: degreeIn_def edgesOf_def)
  qed
  have rev: "revCount (gReverse st) m f = (if f \<in> set ?inc then count_list (edgesOf g f) m else 0)"
    if "m \<in> set ?inc" for m f
    using p that r [of "keys g"] by (cases "map_of g f") (simp_all add: edgesOf_def)
  have "set (keys (gReverse st)) = set (keys g)" using p by (simp only: k gsState.simps)
  then have "gsInv g ?inc st"
    using p out rev assms(2) by (simp add: gsInv_def subset_iff)
  with st p show ?thesis by (simp add: initState_def Let_def)
qed

section \<open>The main loop\<close>

text \<open>The precondition: every included node is a node of the graph, and so is every target of an edge.\<close>

definition closedGraph :: "'a graph \<Rightarrow> 'a list \<Rightarrow> bool" where
  "closedGraph g included \<longleftrightarrow> distinct (keys g) \<and> set included \<subseteq> set (keys g) \<and>
     targets g \<subseteq> set (keys g)"

lemma edgesOf_targets: "t \<in> set (edgesOf g m) \<Longrightarrow> t \<in> targets g"
  by (cases "map_of g m") (use map_of_targets [of g m] in \<open>auto simp: edgesOf_def\<close>)

lemma minDegree_zero:
  assumes "gsInv g inc st"
  shows "minDegree st = Some 0 \<longleftrightarrow> zeroDegreeNodes st \<noteq> []"
proof -
  let ?f = "\<lambda>node m. case (m, map_of (gOutDegree st) node) of
        (Some a, Some b) \<Rightarrow> Some (min a b) | _ \<Rightarrow> None"
  have d: "n \<in> set (gNodes st) \<Longrightarrow> map_of (gOutDegree st) n = Some (int (degreeIn g (gNodes st) n))" for n
    using assms by (auto simp: gsInv_def)
  have "set ns \<subseteq> set (gNodes st) \<Longrightarrow> 0 \<le> a \<Longrightarrow> \<exists>b. fold ?f ns (Some a) = Some b \<and>
      (b = 0 \<longleftrightarrow> a = 0 \<or> (\<exists>n \<in> set ns. degreeIn g (gNodes st) n = 0))" for ns and a :: int
  proof (induction ns arbitrary: a)
    case (Cons n ns)
    let ?d = "int (degreeIn g (gNodes st) n)"
    have "0 \<le> min a ?d" using Cons.prems by simp
    then obtain b where b: "fold ?f ns (Some (min a ?d)) = Some b"
      "b = 0 \<longleftrightarrow> min a ?d = 0 \<or> (\<exists>n \<in> set ns. degreeIn g (gNodes st) n = 0)"
      using Cons.IH [of "min a ?d"] Cons.prems(1) by (meson set_subset_Cons subset_trans)
    moreover have "min a ?d = 0 \<longleftrightarrow> a = 0 \<or> degreeIn g (gNodes st) n = 0"
      using Cons.prems by (auto simp: min_def)
    ultimately show ?case using Cons.prems d [of n] by simp
  qed simp
  from this [of "gNodes st" MAX_SAFE_INTEGER]
  have "minDegree st = Some 0 \<longleftrightarrow> (\<exists>n \<in> set (gNodes st). degreeIn g (gNodes st) n = 0)"
    unfolding minDegree_def by (auto simp: MAX_SAFE_INTEGER_def)
  also have "\<dots> \<longleftrightarrow> zeroDegreeNodes st \<noteq> []"
    using d by (simp add: zeroDegreeNodes_def filter_empty_conv)
  finally show ?thesis .
qed

lemma hd_sort_key_in: "r \<noteq> [] \<Longrightarrow> hd (sort_key f r) \<in> set r"
  by (metis hd_in_set set_empty set_sort)

lemma findCycle_ok:
  assumes "targets g \<subseteq> set (keys g)" "n \<in> set (keys g)"
  shows "\<exists>c. findCycle g vis n = Inr c \<and> (c \<noteq> [] \<longrightarrow> cycleOk g vis n c)"
proof -
  have "\<forall>m. \<forall>t \<in> set (edgesOf g m). t \<notin> set vis \<longrightarrow> t \<in> set (keys g)"
    using assms(1) by (meson edgesOf_targets subsetD)
  moreover have "fst ` set [(n, [n])] \<subseteq> set (keys g)" using assms(2) by simp
  ultimately obtain r where r: "cycleLoop g vis n ([], [(n, [n])], []) = Inr r"
    using cycleLoop_total [of g vis "[(n, [n])]" n "[]" "[]"] by blast
  have "pathOk g vis n [] (n, [n])" by (auto simp: pathOk_def edgePath_def)
  with cycleLoop_sound [OF r] have "\<forall>c \<in> set r. cycleOk g vis n c" by simp
  then show ?thesis using r hd_sort_key_in [of r "\<lambda>c. - int (length c)"]
    by (cases "r = []") (simp_all add: findCycle_def)
qed

text \<open>A node that lies on a cycle of remaining nodes is not missed.\<close>

lemma findCycle_complete:
  assumes "findCycle g vis s = Inr []"
    and "(s, s) \<in> {(a, b). b \<in> set (edgesOf g a) \<and> b \<notin> set vis}\<^sup>+"
  shows False
proof -
  let ?R = "{(a, b). b \<in> set (edgesOf g a) \<and> b \<notin> set vis}"
  from assms(1) obtain r where r: "cycleLoop g vis s ([], [(s, [s])], []) = Inr r"
      "(if r = [] then [] else hd (sort_key (\<lambda>c. - int (length c)) r)) = []"
    by (auto simp: findCycle_def sbind_Inr_iff)
  have "pathOk g vis s [] (s, [s])" by (auto simp: pathOk_def edgePath_def)
  with cycleLoop_sound [OF r(1)] have "\<forall>c \<in> set r. c \<noteq> []" by (simp add: cycleOk_def isCycle_def)
  with r(2) hd_sort_key_in [of r] have "r = []" by (auto split: if_splits)
  with r(1) cycleLoop_complete [of g vis s "[]" "[(s, [s])]" "[]"] obtain C where
    C: "s \<in> C" "\<forall>n \<in> C. \<forall>t \<in> set (edgesOf g n). t \<noteq> s \<and> (t \<in> set vis \<or> t \<in> C)"
    by auto
  have "(s, x) \<in> ?R\<^sup>+ \<Longrightarrow> x \<in> C \<and> x \<noteq> s" for x
    by (induction rule: trancl_induct) (use C in blast)+
  with assms(2) show False by blast
qed

lemma degree_cycle:
  assumes "finite N" "N \<noteq> {}" "\<forall>n \<in> N. \<exists>t \<in> N. t \<in> E n"
  shows "\<exists>n \<in> N. (n, n) \<in> {(a, b). a \<in> N \<and> b \<in> N \<and> b \<in> E a}\<^sup>+"
proof (rule ccontr)
  let ?R = "{(a, b). a \<in> N \<and> b \<in> N \<and> b \<in> E a}"
  assume "\<not> ?thesis"
  moreover have "(n, m) \<in> ?R\<^sup>+ \<Longrightarrow> n \<in> N" for n m by (induction rule: trancl_induct) auto
  ultimately have "acyclic ?R" unfolding acyclic_def by blast
  moreover have "finite ?R" by (rule finite_subset [of _ "N \<times> N"]) (use assms(1) in auto)
  ultimately have "wf (?R\<inverse>)" by (simp add: finite_acyclic_wf_converse)
  then obtain m where "m \<in> N" "\<forall>y. (y, m) \<in> ?R\<inverse> \<longrightarrow> y \<notin> N"
    using assms(2) by (meson ex_in_conv wf_eq_minimal)
  with assms(3) show False by blast
qed

definition cyclesOk :: "'a graph \<Rightarrow> 'a list \<Rightarrow> 'a gsState \<Rightarrow> bool" where
  "cyclesOk g inc st \<longleftrightarrow> (\<forall>c \<in> set (gCycles st). isCycle g c \<and> set c \<subseteq> set inc) \<and>
     (gSafe st \<longleftrightarrow> (\<forall>c \<in> set (gCycles st). length c \<le> 1))"

text \<open>One pass: it removes exactly the nodes it reports, and at least one when some node of the list
  has a cycle to be found.\<close>

lemma cyclePass_ok:
  assumes "gsInv g inc st" "targets g \<subseteq> set (keys g)" "cyclesOk g inc st"
    and "distinct cn" "set cn \<inter> set (gNodes st) = {}"
  shows "\<exists>cn' st'. cyclePass g ns cn st = Inr (cn @ cn', st') \<and> gsInv g inc st' \<and>
    distinct (cn @ cn') \<and> set (gNodes st') = set (gNodes st) - set cn' \<and> set cn' \<subseteq> set (gNodes st) \<and>
    gChunks st' = gChunks st \<and> cyclesOk g inc st' \<and> (gCycles st \<noteq> [] \<longrightarrow> gCycles st' \<noteq> []) \<and>
    (cn' \<noteq> [] \<longrightarrow> gCycles st' \<noteq> []) \<and>
    (cn' = [] \<longrightarrow> (\<forall>n \<in> set ns \<inter> set (gNodes st). findCycle g (gVisited st) n = Inr []))"
  using assms
proof (induction ns arbitrary: cn st)
  case Nil
  then show ?case by auto
next
  case (Cons n ns)
  have keys: "set (gNodes st) \<subseteq> set (keys g)" "set (gNodes st) \<subseteq> set inc"
    using Cons.prems(1) by (auto simp: gsInv_def)
  show ?case
  proof (cases "n \<in> set (gNodes st)")
    case False
    then show ?thesis using Cons.IH [OF Cons.prems] by simp
  next
    case True
    then obtain c where c: "findCycle g (gVisited st) n = Inr c" "c \<noteq> [] \<longrightarrow> cycleOk g (gVisited st) n c"
      using findCycle_ok [OF Cons.prems(2), of n] keys by blast
    show ?thesis
    proof (cases "c = []")
      case True
      then show ?thesis using Cons.IH [OF Cons.prems] c by (auto 0 4)
    next
      case False
      then have ok: "isCycle g c" "hd c = n" "set (tl c) \<inter> set (gVisited st) = {}"
        using c by (auto simp: cycleOk_def)
      have "set (tl c) \<subseteq> targets g"
      proof
        fix x assume "x \<in> set (tl c)"
        then obtain i where i: "Suc i < length c" "x = c ! Suc i"
          by (metis in_set_conv_nth length_tl nth_tl less_diff_conv add.commute plus_1_eq_Suc)
        then have "x \<in> set (edgesOf g (c ! i))"
          using ok(1) by (auto simp: isCycle_def edgePath_def successively_conv_nth)
        then show "x \<in> targets g"
          by (rule edgesOf_targets)
      qed
      then have "set (tl c) \<subseteq> set (gNodes st)"
        using Cons.prems(1,2) ok(3) by (auto simp: gsInv_def)
      then have sub: "set c \<subseteq> set (gNodes st)" using ok(2) True False by (cases c) auto
      have dist: "distinct c" using ok(1) by (simp add: isCycle_def)
      let ?st = "(fold removeNode c st)\<lparr>gCycles := gCycles st @ [c], gSafe := gSafe st \<and> length c \<le> 1\<rparr>"
      note r = removeNodes_inv [OF Cons.prems(1) dist sub]
      have "gsInv g inc ?st" using r by simp
      moreover have "cyclesOk g inc ?st"
        using Cons.prems(3) ok(1) sub keys(2) by (auto simp: cyclesOk_def)
      moreover have "distinct (cn @ c)" "set (cn @ c) \<inter> set (gNodes ?st) = {}"
        using Cons.prems(4,5) dist sub r by auto
      ultimately obtain cn' st' where "cyclePass g ns (cn @ c) ?st = Inr ((cn @ c) @ cn', st')"
        "gsInv g inc st'" "distinct ((cn @ c) @ cn')" "set (gNodes st') = set (gNodes ?st) - set cn'"
        "set cn' \<subseteq> set (gNodes ?st)" "gChunks st' = gChunks ?st" "cyclesOk g inc st'"
        "gCycles ?st \<noteq> [] \<longrightarrow> gCycles st' \<noteq> []"
        using Cons.IH [of ?st "cn @ c"] Cons.prems(2) by blast
      then show ?thesis
        using True False c(1) r sub by (intro exI [of _ "c @ cn'"] exI [of _ st']) auto
    qed
  qed
qed

subsection \<open>Chunks in dependency order\<close>

text \<open>\<open>orderedFrom g inc before cs\<close>: the included nodes that a node of a chunk has edges to are in
  \<open>before\<close> or in an earlier chunk.\<close>

fun orderedFrom :: "'a graph \<Rightarrow> 'a list \<Rightarrow> 'a set \<Rightarrow> 'a list list \<Rightarrow> bool" where
  "orderedFrom g inc before [] \<longleftrightarrow> True"
| "orderedFrom g inc before (c # cs) \<longleftrightarrow>
     (\<forall>n \<in> set c. set (edgesOf g n) \<inter> set inc \<subseteq> before) \<and> orderedFrom g inc (before \<union> set c) cs"

lemma orderedFrom_snoc:
  "orderedFrom g inc before (cs @ [c]) \<longleftrightarrow> orderedFrom g inc before cs \<and>
     (\<forall>n \<in> set c. set (edgesOf g n) \<inter> set inc \<subseteq> before \<union> set (concat cs))"
  by (induction cs arbitrary: before) (simp_all add: Un_assoc)

lemma orderedFrom_inc_cong: "set i = set j \<Longrightarrow> orderedFrom g i b cs = orderedFrom g j b cs"
  by (induction cs arbitrary: b) auto

definition loopInv :: "'a graph \<Rightarrow> 'a list \<Rightarrow> 'a gsState \<Rightarrow> bool" where
  "loopInv g inc st \<longleftrightarrow> gsInv g inc st \<and> cyclesOk g inc st \<and> distinct (concat (gChunks st)) \<and>
     set (concat (gChunks st)) = set inc - set (gNodes st) \<and>
     (gCycles st = [] \<longrightarrow> orderedFrom g inc {} (gChunks st))"

lemma zeroDegree_iteration:
  assumes "loopInv g inc st" "zeroDegreeNodes st \<noteq> []"
  defines "st' \<equiv> (fold removeNode (zeroDegreeNodes st) st)\<lparr>gChunks := gChunks st @ [zeroDegreeNodes st]\<rparr>"
  shows "loopInv g inc st' \<and> length (gNodes st') < length (gNodes st)"
proof -
  let ?c = "zeroDegreeNodes st"
  have inv: "gsInv g inc st" using assms(1) by (simp add: loopInv_def)
  have c: "distinct ?c" "set ?c \<subseteq> set (gNodes st)"
    using inv by (auto simp: zeroDegreeNodes_def gsInv_def)
  have inc: "set (gNodes st) \<subseteq> set inc" using inv by (simp add: gsInv_def)
  note r = removeNodes_inv [OF inv c]
  have nodes: "set (gNodes st') = set (gNodes st) - set ?c" using r by (simp add: st'_def)
  have g': "gsInv g inc st'" using r by (simp add: st'_def)
  have "degreeIn g (gNodes st) n = 0" if "n \<in> set ?c" for n
    using that gsInv_degree [OF inv, of n] by (auto simp: zeroDegreeNodes_def)
  then have "\<forall>n \<in> set ?c. set (edgesOf g n) \<inter> set (gNodes st) = {}"
    by (auto simp: degreeIn_def filter_empty_conv)
  then have o: "\<forall>n \<in> set ?c. set (edgesOf g n) \<inter> set inc \<subseteq> set (concat (gChunks st))"
    using assms(1) by (auto simp: loopInv_def)
  have d: "distinct (concat (gChunks st')) \<and> set (concat (gChunks st')) = set inc - set (gNodes st')"
    using assms(1) c inc nodes by (auto simp: loopInv_def st'_def)
  have "loopInv g inc st'"
    unfolding loopInv_def
  proof (intro conjI impI)
    show "cyclesOk g inc st'" using assms(1) r by (simp add: loopInv_def cyclesOk_def st'_def)
    assume "gCycles st' = []"
    with assms(1) r o show "orderedFrom g inc {} (gChunks st')"
      by (simp add: loopInv_def st'_def orderedFrom_snoc)
  qed (use g' d in auto)
  moreover have "length (gNodes st') < length (gNodes st)"
  proof -
    have "set (gNodes st') \<subset> set (gNodes st)" using nodes c(2) assms(2) by (cases ?c) auto
    then have "card (set (gNodes st')) < card (set (gNodes st))" by (intro psubset_card_mono) auto
    with g' inv show ?thesis by (simp add: gsInv_def distinct_card)
  qed
  ultimately show ?thesis ..
qed

lemma cycle_iteration:
  assumes "loopInv g inc st" "targets g \<subseteq> set (keys g)" "zeroDegreeNodes st = []" "gNodes st \<noteq> []"
  shows "\<exists>cn st'. cyclePass g (gNodes st) [] st = Inr (cn, st') \<and>
    loopInv g inc (st'\<lparr>gChunks := gChunks st' @ [cn]\<rparr>) \<and> length (gNodes st') < length (gNodes st)"
proof -
  have inv: "gsInv g inc st" and cyc: "cyclesOk g inc st" using assms(1) by (simp_all add: loopInv_def)
  have inc: "set (gNodes st) \<subseteq> set inc" using inv by (simp add: gsInv_def)
  obtain cn st' where p: "cyclePass g (gNodes st) [] st = Inr (cn, st')" "gsInv g inc st'" "distinct cn"
    "set (gNodes st') = set (gNodes st) - set cn" "set cn \<subseteq> set (gNodes st)"
    "gChunks st' = gChunks st" "cyclesOk g inc st'" "cn \<noteq> [] \<longrightarrow> gCycles st' \<noteq> []"
    "cn = [] \<longrightarrow> (\<forall>n \<in> set (gNodes st). findCycle g (gVisited st) n = Inr [])"
    using cyclePass_ok [OF inv assms(2) cyc, of "[]" "gNodes st"] by auto
  have "degreeIn g (gNodes st) n \<noteq> 0" if "n \<in> set (gNodes st)" for n
    using that assms(3) gsInv_degree [OF inv, of n]
    by (auto simp: zeroDegreeNodes_def filter_empty_conv)
  then have "\<forall>n \<in> set (gNodes st). \<exists>t \<in> set (gNodes st). t \<in> set (edgesOf g n)"
    by (auto simp: degreeIn_def filter_empty_conv)
  from degree_cycle [OF finite_set _ this] assms(4) obtain n where n: "n \<in> set (gNodes st)"
    "(n, n) \<in> {(a, b). a \<in> set (gNodes st) \<and> b \<in> set (gNodes st) \<and> b \<in> set (edgesOf g a)}\<^sup>+" (is "_ \<in> ?R\<^sup>+")
    by auto
  have "?R \<subseteq> {(a, b). b \<in> set (edgesOf g a) \<and> b \<notin> set (gVisited st)}"
    using inv by (auto simp: gsInv_def)
  with n(2) have "(n, n) \<in> {(a, b). b \<in> set (edgesOf g a) \<and> b \<notin> set (gVisited st)}\<^sup>+"
    by (rule trancl_mono)
  then have "cn \<noteq> []" using findCycle_complete [of g "gVisited st" n] p(9) n(1) by auto
  moreover have "length (gNodes st') < length (gNodes st)"
  proof -
    have "set (gNodes st') \<subset> set (gNodes st)"
      using p(4,5) \<open>cn \<noteq> []\<close> by (cases cn) auto
    then have "card (set (gNodes st')) < card (set (gNodes st))" by (intro psubset_card_mono) auto
    with p(2) inv show ?thesis by (simp add: gsInv_def distinct_card)
  qed
  moreover have "loopInv g inc (st'\<lparr>gChunks := gChunks st' @ [cn]\<rparr>)"
    using p assms(1) inc \<open>cn \<noteq> []\<close> by (auto simp: loopInv_def cyclesOk_def)
  ultimately show ?thesis using p(1) by blast
qed

lemma iteration_ok:
  assumes "loopInv g inc st" "targets g \<subseteq> set (keys g)" "gNodes st \<noteq> []"
  shows "\<exists>st'. iteration g st = Inr st' \<and> loopInv g inc st' \<and> length (gNodes st') < length (gNodes st)"
proof (cases "zeroDegreeNodes st = []")
  case False
  then have "minDegree st = Some 0"
    using minDegree_zero [of g inc st] assms(1) by (simp add: loopInv_def)
  with zeroDegree_iteration [OF assms(1) False] show ?thesis by (simp add: iteration_def Let_def)
next
  case True
  then have "minDegree st \<noteq> Some 0"
    using minDegree_zero [of g inc st] assms(1) by (simp add: loopInv_def)
  with cycle_iteration [OF assms(1,2) True assms(3)] show ?thesis
    by (auto simp: iteration_def)
qed

lemma mainLoop_ok:
  assumes "loopInv g inc st" "targets g \<subseteq> set (keys g)"
  shows "\<exists>st'. mainLoop g st = Some (Inr st') \<and> loopInv g inc st' \<and> gNodes st' = []"
  using assms(1)
proof (induction "length (gNodes st)" arbitrary: st rule: less_induct)
  case less
  show ?case
  proof (cases "gNodes st = []")
    case True
    with less.prems show ?thesis by (simp add: mainLoop.simps)
  next
    case False
    then obtain st' where "iteration g st = Inr st'" "loopInv g inc st'"
      "length (gNodes st') < length (gNodes st)"
      using iteration_ok less.prems assms(2) by blast
    with less.hyps False show ?thesis by (simp add: mainLoop.simps)
  qed
qed

definition resultOk :: "'a graph \<Rightarrow> 'a list \<Rightarrow> 'a gsResult \<Rightarrow> bool" where
  "resultOk g included r \<longleftrightarrow>
     distinct (concat (chunks r)) \<and> set (concat (chunks r)) = set included \<and>
     (\<forall>c \<in> set (cycles r). isCycle g c \<and> set c \<subseteq> set included) \<and>
     (safe r \<longleftrightarrow> (\<forall>c \<in> set (cycles r). length c \<le> 1)) \<and>
     (cycles r = [] \<longrightarrow> orderedFrom g included {} (chunks r))"

lemma graphSequencer_ok:
  assumes "closedGraph g included"
  shows "\<exists>r. graphSequencer g included = Some (Inr r) \<and> resultOk g included r"
proof -
  obtain st where st: "initState g included = Inr st" "gsInv g (uniq included) st"
    "gNodes st = uniq included" "gChunks st = []" "gCycles st = []" "gSafe st"
    using initState_ok assms unfolding closedGraph_def by blast
  then have "loopInv g (uniq included) st" by (simp add: loopInv_def cyclesOk_def)
  then obtain st' where st': "mainLoop g st = Some (Inr st')" "loopInv g (uniq included) st'" "gNodes st' = []"
    using mainLoop_ok assms unfolding closedGraph_def by blast
  have "orderedFrom g (uniq included) {} cs = orderedFrom g included {} cs" for cs
    by (rule orderedFrom_inc_cong) simp
  then have "resultOk g included \<lparr>safe = gSafe st', chunks = gChunks st', cycles = gCycles st'\<rparr>"
    using st'(2) unfolding resultOk_def loopInv_def cyclesOk_def st'(3) by simp
  with st(1) st'(1) show ?thesis by (simp add: graphSequencer_def)
qed

lemma graphSequencer_resultOk:
  "closedGraph g included \<Longrightarrow> graphSequencer g included = Some (Inr r) \<Longrightarrow> resultOk g included r"
  using graphSequencer_ok [of g included] by simp

lemma isCycle_trancl:
  assumes "isCycle g c" "set c \<subseteq> A"
  shows "(hd c, hd c) \<in> {(a, b). a \<in> A \<and> b \<in> A \<and> b \<in> set (edgesOf g a)}\<^sup>+" (is "_ \<in> ?R\<^sup>+")
proof -
  have "p \<noteq> [] \<longrightarrow> edgePath g p \<longrightarrow> set p \<subseteq> A \<longrightarrow> (hd p, last p) \<in> ?R\<^sup>*" for p
  proof (induction p rule: induct_list012)
    case (3 x y p)
    show ?case
    proof (intro impI)
      assume "edgePath g (x # y # p)" "set (x # y # p) \<subseteq> A"
      then have "(x, y) \<in> ?R" "edgePath g (y # p)" "set (y # p) \<subseteq> A" by (simp_all add: edgePath_def)
      with 3 have "(x, y) \<in> ?R" "(y, last (y # p)) \<in> ?R\<^sup>*" by simp_all
      then have "(x, last (y # p)) \<in> ?R\<^sup>*" by (rule converse_rtrancl_into_rtrancl)
      then show "(hd (x # y # p), last (x # y # p)) \<in> ?R\<^sup>*" by simp
    qed
  qed simp_all
  from this [of c] assms have "(hd c, last c) \<in> ?R\<^sup>*" by (simp add: isCycle_def)
  moreover have "(last c, hd c) \<in> ?R" using assms by (auto simp: isCycle_def)
  ultimately show ?thesis by (rule rtrancl_into_trancl1)
qed

lemma acyclic_resultOk:
  assumes "resultOk g included r"
    and "acyclic {(a, b). a \<in> set included \<and> b \<in> set included \<and> b \<in> set (edgesOf g a)}"
  shows "safe r" "cycles r = []" "orderedFrom g included {} (chunks r)"
proof -
  show c: "cycles r = []"
  proof (rule ccontr)
    assume "cycles r \<noteq> []"
    then have "hd (cycles r) \<in> set (cycles r)" by (rule hd_in_set)
    with assms(1) have "isCycle g (hd (cycles r))" "set (hd (cycles r)) \<subseteq> set included"
      unfolding resultOk_def by blast+
    from isCycle_trancl [OF this] assms(2) show False unfolding acyclic_def by blast
  qed
  show "safe r" "orderedFrom g included {} (chunks r)"
    using assms(1) unfolding resultOk_def c by simp_all
qed

lemma orderedFrom_split:
  "orderedFrom g inc before (as @ c # bs) \<Longrightarrow> n \<in> set c \<Longrightarrow> d \<in> set (edgesOf g n) \<Longrightarrow>
   d \<in> set inc \<Longrightarrow> d \<in> before \<union> set (concat as)"
  by (induction as arbitrary: before) fastforce+

section \<open>Properties of graphSequencer\<close>

text \<open>C21. On a graph whose included nodes and edge targets are its keys, graphSequencer returns (its
  main loop ends and nothing is thrown), and the chunks together hold every included node exactly
  once, whatever cycles the graph has.\<close>

theorem graphSequencer_partition:
  assumes "closedGraph g included"
  shows "\<exists>r. graphSequencer g included = Some (Inr r) \<and> distinct (concat (chunks r)) \<and>
    set (concat (chunks r)) = set included"
  using graphSequencer_ok [OF assms] by (auto simp: resultOk_def)

theorem graphSequencer_partition_witness:
  "closedGraph [(1 :: nat, [2]), (2, [1, 3]), (3, [])] [1, 2] \<and>
   (\<exists>r. graphSequencer [(1 :: nat, [2]), (2, [1, 3]), (3, [])] [1, 2] = Some (Inr r) \<and>
     distinct (concat (chunks r)) \<and> set (concat (chunks r)) = {1, 2})"
proof -
  have "closedGraph [(1 :: nat, [2]), (2, [1, 3]), (3, [])] [1, 2]"
    by (simp add: closedGraph_def targets_def)
  with graphSequencer_partition [OF this] show ?thesis by simp
qed

text \<open>Every cycle that graphSequencer reports is a cycle of the included graph (distinct nodes,
  each with an edge to the next, the last with an edge to the first), and the result is marked safe
  exactly when no reported cycle has more than one node.\<close>

theorem graphSequencer_cycles:
  assumes "closedGraph g included" "graphSequencer g included = Some (Inr r)"
  shows "(\<forall>c \<in> set (cycles r). isCycle g c \<and> set c \<subseteq> set included) \<and>
    (safe r \<longleftrightarrow> (\<forall>c \<in> set (cycles r). length c \<le> 1))"
  using graphSequencer_resultOk [OF assms] unfolding resultOk_def by simp

theorem graphSequencer_cycles_witness:
  "isCycle [(1 :: nat, [2]), (2, [1, 3]), (3, [])] [1, 2] \<and>
   graphSequencer [(1 :: nat, [2]), (2, [1, 3]), (3, [])] [1, 2] =
     Some (Inr \<lparr>safe = False, chunks = [[1, 2]], cycles = [[1, 2]]\<rparr>)"
proof -
  have c: "closedGraph [(1 :: nat, [2]), (2, [1, 3]), (3, [])] [1, 2]"
    by (simp add: closedGraph_def targets_def)
  have r: "graphSequencer [(1 :: nat, [2]), (2, [1, 3]), (3, [])] [1, 2] =
     Some (Inr \<lparr>safe = False, chunks = [[1, 2]], cycles = [[1, 2]]\<rparr>)"
    by (simp add: graphSequencer_def mainLoop.simps initState_def addNode_def addEdge_def uniq_def
        sadd_def changeOutDegree_def iteration_def minDegree_def zeroDegreeNodes_def findCycle_def
        removeNode_def Let_def MAX_SAFE_INTEGER_def)
  from graphSequencer_cycles [OF c r] r show ?thesis by simp
qed

text \<open>C5. On an acyclic graph graphSequencer reports no cycle and orders the nodes: every included
  dependency of a node is in an earlier chunk than the node itself.\<close>

theorem graphSequencer_topological:
  assumes "closedGraph g included"
    and "acyclic {(a, b). a \<in> set included \<and> b \<in> set included \<and> b \<in> set (edgesOf g a)}"
  shows "\<exists>r. graphSequencer g included = Some (Inr r) \<and> safe r \<and> cycles r = [] \<and>
    orderedFrom g included {} (chunks r)"
proof -
  obtain r where r: "graphSequencer g included = Some (Inr r)" "resultOk g included r"
    using graphSequencer_ok [OF assms(1)] by blast
  with acyclic_resultOk [OF r(2) assms(2)] show ?thesis by simp
qed

theorem graphSequencer_topological_witness:
  "\<exists>r. graphSequencer [(1 :: nat, [2, 3]), (2, [3]), (3, [])] [1, 2, 3] = Some (Inr r) \<and> safe r \<and>
     cycles r = [] \<and> orderedFrom [(1, [2, 3]), (2, [3]), (3, [])] [1, 2, 3] {} (chunks r)"
proof (rule graphSequencer_topological)
  let ?g = "[(1 :: nat, [2, 3]), (2, [3]), (3, [])]"
  let ?R = "{(a, b). a \<in> set [1, 2, 3] \<and> b \<in> set [1, 2, 3] \<and> b \<in> set (edgesOf ?g a)}"
  have "?R \<subseteq> less_than" by (auto simp: edgesOf_def split: if_splits)
  then have "?R\<^sup>+ \<subseteq> less_than\<^sup>+" using trancl_mono by blast
  then have "(x, x) \<notin> ?R\<^sup>+" for x by (auto dest!: subsetD)
  then show "acyclic ?R" by (simp add: acyclic_def)
qed (simp add: closedGraph_def targets_def)

section \<open>Sorting the projects of a workspace\<close>

text \<open>workspace/sort-packages/src/index.ts. Of a project's node only \<open>dependencies\<close> is read. An
  edge to the project itself or out of the selected graph is dropped before sequencing.\<close>

definition sequenceGraph :: "(str \<times> str list) list \<Rightarrow> (js_error + str gsResult) option" where
  "sequenceGraph pkgGraph =
     (let ks = keys pkgGraph;
          graph = map (\<lambda>(pkgPath, deps). (pkgPath, filter (\<lambda>d. d \<noteq> pkgPath \<and> d \<in> set ks) deps)) pkgGraph
      in graphSequencer graph ks)"

definition sortPackages :: "(str \<times> str list) list \<Rightarrow> (js_error + str list list) option" where
  "sortPackages pkgGraph = map_option (\<lambda>r. sbind r (\<lambda>r. Inr (chunks r))) (sequenceGraph pkgGraph)"

lemma edgesOf_selected:
  "edgesOf (map (\<lambda>(k, ds). (k, filter (P k) ds)) g) n = filter (P n) (edgesOf g n)"
  by (cases "map_of g n") (simp_all add: edgesOf_def map_of_map_keyed)

text \<open>C23. sortPackages never fails, whatever the workspace: it returns chunks that hold each project
  of the graph once. When the projects do not depend on each other in a circle (a project that lists
  itself does not count), each project comes in a later chunk than every project it depends on.\<close>

theorem sortPackages_order:
  assumes "distinct (keys pkgGraph)"
  shows "\<exists>cs. sortPackages pkgGraph = Some (Inr cs) \<and> distinct (concat cs) \<and>
    set (concat cs) = set (keys pkgGraph) \<and>
    (acyclic {(a, b). a \<in> set (keys pkgGraph) \<and> b \<in> set (keys pkgGraph) \<and> a \<noteq> b \<and>
        b \<in> set (edgesOf pkgGraph a)} \<longrightarrow>
     (\<forall>as c bs. cs = as @ c # bs \<longrightarrow>
        (\<forall>p \<in> set c. \<forall>d \<in> set (edgesOf pkgGraph p). d \<in> set (keys pkgGraph) \<and> d \<noteq> p \<longrightarrow>
           d \<in> set (concat as))))"
proof -
  let ?ks = "keys pkgGraph"
  let ?g = "map (\<lambda>(p, ds). (p, filter (\<lambda>d. d \<noteq> p \<and> d \<in> set ?ks) ds)) pkgGraph"
  have k: "keys ?g = ?ks" by (simp add: case_prod_unfold o_def)
  have e: "edgesOf ?g n = filter (\<lambda>d. d \<noteq> n \<and> d \<in> set ?ks) (edgesOf pkgGraph n)" for n
    by (rule edgesOf_selected)
  have closed: "closedGraph ?g ?ks"
    unfolding closedGraph_def k using assms by (auto simp: targets_def)
  obtain r where r: "graphSequencer ?g ?ks = Some (Inr r)" "resultOk ?g ?ks r"
    using graphSequencer_ok [OF closed] by blast
  have R: "{(a, b). a \<in> set ?ks \<and> b \<in> set ?ks \<and> b \<in> set (edgesOf ?g a)} =
      {(a, b). a \<in> set ?ks \<and> b \<in> set ?ks \<and> a \<noteq> b \<and> b \<in> set (edgesOf pkgGraph a)}"
    unfolding e by auto
  have "d \<in> set (concat as)"
    if "acyclic {(a, b). a \<in> set ?ks \<and> b \<in> set ?ks \<and> a \<noteq> b \<and> b \<in> set (edgesOf pkgGraph a)}"
      "chunks r = as @ c # bs" "p \<in> set c" "d \<in> set (edgesOf pkgGraph p)" "d \<in> set ?ks" "d \<noteq> p"
    for as c bs p d
  proof -
    have o: "orderedFrom ?g ?ks {} (as @ c # bs)"
      using acyclic_resultOk(3) [OF r(2), unfolded R] that(1,2) by simp
    have "d \<in> set (edgesOf ?g p)" unfolding e using that(4-6) by simp
    from orderedFrom_split [OF o that(3) this that(5)] show ?thesis by simp
  qed
  moreover have "sortPackages pkgGraph = Some (Inr (chunks r))"
    using r(1) by (simp add: sortPackages_def sequenceGraph_def Let_def)
  moreover have "distinct (concat (chunks r))" "set (concat (chunks r)) = set ?ks"
    using r(2) unfolding resultOk_def by blast+
  ultimately show ?thesis by blast
qed

theorem sortPackages_order_witness:
  "\<exists>cs. sortPackages [(''/a'', [''/b'', ''/a'']), (''/b'', [''/x''])] = Some (Inr cs) \<and>
     set (concat cs) = {''/a'', ''/b''}"
  using sortPackages_order [of "[(''/a'', [''/b'', ''/a'']), (''/b'', [''/x''])]"] by auto

end
