(* ===== verification/DependencyPath.thy ===== *)
theory DependencyPath
  imports Prelude
begin

text \<open>
  Dependency paths, the keys of the \<open>packages\<close> map of a lockfile: packages/dependency-path/src/index.ts
  and the hash it uses, crypto/hash/src/index.ts.

  A dependency path is \<open>name@version(patch_hash=...)(peer@version)...\<close>. The suffix in parentheses is
  found by a scan from the end of the string (\<open>indexOfPeersSuffix\<close>); the other functions cut the path
  there. \<open>semver.valid\<close> and the SHA-256 of Node's crypto module are parameters.
\<close>

section \<open>Operations\<close>

definition isAbsolute :: "str \<Rightarrow> bool" where
  "isAbsolute dependencyPath = (case dependencyPath of [] \<Rightarrow> True | c # _ \<Rightarrow> c \<noteq> CHR ''/'')"

record suffixIndices =
  peersIndex :: int
  patchHashIndex :: int

text \<open>The loop of \<open>indexOfPeersSuffix\<close>. The first argument is the part of the string not yet
  scanned, reversed, so that its head is the character at \<open>i\<close> and \<open>i\<close> is the length of its tail.
  The result is the \<open>i\<close> at which the loop returns, or \<open>-1\<close> when it runs to the start.\<close>

fun peersScan :: "str \<Rightarrow> int \<Rightarrow> int" where
  "peersScan [] opn = - 1"
| "peersScan (c # rs) opn =
     (if c = CHR ''('' then peersScan rs (opn - 1)
      else if c = CHR '')'' then peersScan rs (opn + 1)
      else if opn = 0 then int (length rs)
      else peersScan rs opn)"

definition indexOfPeersSuffix :: "str \<Rightarrow> suffixIndices" where
  "indexOfPeersSuffix depPath =
     (if \<not> endsWith depPath '')'' then \<lparr>peersIndex = - 1, patchHashIndex = - 1\<rparr>
      else let i = peersScan (rev (butlast depPath)) 1 in
        if i = - 1 then \<lparr>peersIndex = - 1, patchHashIndex = - 1\<rparr>
        else if startsWith (substr depPath (i + 1)) ''(patch_hash=''
        then \<lparr>peersIndex = indexOfFrom depPath CHR ''('' (nat (i + 2)), patchHashIndex = i + 1\<rparr>
        else \<lparr>peersIndex = i + 1, patchHashIndex = - 1\<rparr>)"

record parsedDepPath =
  pdpId :: str
  pdpPeersSuffix :: str

definition parseDepPath :: "str \<Rightarrow> parsedDepPath" where
  "parseDepPath relDepPath =
     (let i = peersIndex (indexOfPeersSuffix relDepPath) in
      if i \<noteq> - 1
      then \<lparr>pdpId = substring relDepPath 0 i, pdpPeersSuffix = substr relDepPath i\<rparr>
      else \<lparr>pdpId = relDepPath, pdpPeersSuffix = ''''\<rparr>)"

definition removeSuffix :: "str \<Rightarrow> str" where
  "removeSuffix relDepPath =
     (let ix = indexOfPeersSuffix relDepPath in
      if patchHashIndex ix \<noteq> - 1 then substring relDepPath 0 (patchHashIndex ix)
      else if peersIndex ix \<noteq> - 1 then substring relDepPath 0 (peersIndex ix)
      else relDepPath)"

text \<open>Both id functions drop the name in front of the first \<open>@\<close> (not at the start) when the id
  holds a colon, as the id of a package that is not in a registry does.\<close>

definition stripNameOfUrl :: "str \<Rightarrow> str" where
  "stripNameOfUrl pkgId =
     (if CHR '':'' \<in> set pkgId then substr pkgId (indexOfFrom pkgId CHR ''@'' 1 + 1) else pkgId)"

definition getPkgIdWithPatchHash :: "str \<Rightarrow> str" where
  "getPkgIdWithPatchHash depPath =
     (let sepIndex = peersIndex (indexOfPeersSuffix depPath);
          pkgId = (if sepIndex \<noteq> - 1 then substring depPath 0 sepIndex else depPath)
      in stripNameOfUrl pkgId)"

definition tryGetPackageId :: "str \<Rightarrow> str" where
  "tryGetPackageId relDepPath =
     (let ix = indexOfPeersSuffix relDepPath;
          sepIndex = (if patchHashIndex ix = - 1 then peersIndex ix else patchHashIndex ix);
          pkgId = (if sepIndex \<noteq> - 1 then substring relDepPath 0 sepIndex else relDepPath)
      in stripNameOfUrl pkgId)"

text \<open>\<open>Registries\<close>: the default registry and those of scopes.\<close>

record registries =
  regDefault :: str
  regScopes :: "str obj"

definition getRegistryByPackageName :: "registries \<Rightarrow> str \<Rightarrow> str" where
  "getRegistryByPackageName regs packageName =
     (if \<not> startsWith packageName ''@'' then regDefault regs
      else let scope = substring packageName 0 (indexOf packageName CHR ''/'') in
        case map_of (regScopes regs) scope of
          None \<Rightarrow> regDefault regs
        | Some r \<Rightarrow> if r = [] then regDefault regs else r)"

definition refToRelative :: "str \<Rightarrow> str \<Rightarrow> str option" where
  "refToRelative reference pkgName =
     (if startsWith reference ''link:'' then None
      else if startsWith reference ''@'' then Some reference
      else let atIndex = indexOf reference CHR ''@'' in
        if atIndex = - 1 then Some (pkgName @ ''@'' @ reference)
        else let colonIndex = indexOf reference CHR '':'';
                 bracketIndex = indexOf reference CHR ''('' in
          if (colonIndex = - 1 \<or> atIndex < colonIndex) \<and> (bracketIndex = - 1 \<or> atIndex < bracketIndex)
          then Some reference
          else Some (pkgName @ ''@'' @ reference))"

record dependencyPath =
  dpName :: "str option"
  dpPeersSuffix :: "str option"
  dpVersion :: "str option"
  dpNonSemverVersion :: "str option"
  dpPatchHash :: "str option"

definition emptyDependencyPath :: dependencyPath where
  "emptyDependencyPath =
     \<lparr>dpName = None, dpPeersSuffix = None, dpVersion = None, dpNonSemverVersion = None,
      dpPatchHash = None\<rparr>"

text \<open>\<open>parse\<close>. Its \<open>TypeError\<close> is thrown for an argument that is not a string, which the type of the
  model excludes. The three branches on the indices give the version, the peers suffix and the
  patch hash.\<close>

definition splitVersion :: "str \<Rightarrow> str \<times> str option \<times> str option" where
  "splitVersion version =
     (let ix = indexOfPeersSuffix version; pe = peersIndex ix; pa = patchHashIndex ix in
      if pe \<noteq> - 1 \<or> pa \<noteq> - 1 then
        if pe = - 1 then (substring version 0 pa, None, Some (substr version pa))
        else if pa = - 1 then (substring version 0 pe, Some (substr version pe), None)
        else (substring version 0 pa, Some (substr version pe), Some (substring version pa pe))
      else (version, None, None))"

definition parse :: "(str \<Rightarrow> bool) \<Rightarrow> str \<Rightarrow> dependencyPath" where
  "parse semver_valid dp =
     (let sepIndex = indexOfFrom dp CHR ''@'' 1 in
      if sepIndex = - 1 then emptyDependencyPath
      else let name = substring dp 0 sepIndex; version = substr dp (sepIndex + 1) in
        if version \<noteq> [] then
          (case splitVersion version of (v, peers, patch) \<Rightarrow>
             if semver_valid v
             then emptyDependencyPath
               \<lparr>dpName := Some name, dpPeersSuffix := peers, dpVersion := Some v, dpPatchHash := patch\<rparr>
             else emptyDependencyPath
               \<lparr>dpName := Some name, dpNonSemverVersion := Some v, dpPeersSuffix := peers,
                dpPatchHash := patch\<rparr>)
        else emptyDependencyPath)"

subsection \<open>File names\<close>

definition createShortHash :: "(str \<Rightarrow> str) \<Rightarrow> str \<Rightarrow> str" where
  "createShortHash createHexHash input = substring (createHexHash input) 0 32"

definition specialFilenameChar :: "char \<Rightarrow> bool" where
  "specialFilenameChar c \<longleftrightarrow> c = CHR 0x5C \<or> c = CHR 0x22 \<or> c \<in> set ''/:*?<>|#''"

definition depPathToFilenameUnescaped :: "str \<Rightarrow> str" where
  "depPathToFilenameUnescaped depPath =
     (if \<not> startsWith depPath ''file:'' then
        let p = (if startsWith depPath ''/'' then substr depPath 1 else depPath);
            index = indexOfFrom p CHR ''@'' 1
        in if index = - 1 then p else substring p 0 index @ ''@'' @ substr p (index + 1)
      else (let i = indexOf depPath CHR '':'' in
        substring depPath 0 i @ ''+'' @ substr depPath (i + 1)))"

text \<open>The replacement of a final closing parenthesis by nothing, and that of a closing followed by
  an opening one, or of a single parenthesis, by an underscore.\<close>

definition dropFinalParen :: "str \<Rightarrow> str" where
  "dropFinalParen s = (if endsWith s '')'' then butlast s else s)"

fun parensToUnderscore :: "str \<Rightarrow> str" where
  "parensToUnderscore [] = []"
| "parensToUnderscore [c] = (if c = CHR ''('' \<or> c = CHR '')'' then ''_'' else [c])"
| "parensToUnderscore (c # d # s) =
     (if c = CHR '')'' \<and> d = CHR ''('' then CHR ''_'' # parensToUnderscore s
      else if c = CHR ''('' \<or> c = CHR '')'' then CHR ''_'' # parensToUnderscore (d # s)
      else c # parensToUnderscore (d # s))"

definition replaceSpecial :: "char \<Rightarrow> char" where
  "replaceSpecial c = (if specialFilenameChar c then CHR ''+'' else c)"

definition escapeFilename :: "str \<Rightarrow> str" where
  "escapeFilename depPath =
     (let filename = map replaceSpecial (depPathToFilenameUnescaped depPath) in
       if CHR ''('' \<in> set filename then parensToUnderscore (dropFinalParen filename) else filename)"

definition depPathToFilename :: "(str \<Rightarrow> str) \<Rightarrow> str \<Rightarrow> nat \<Rightarrow> str" where
  "depPathToFilename createHexHash depPath maxLengthWithoutHash =
     (let filename = escapeFilename depPath in
      if length filename > maxLengthWithoutHash \<or>
         (filename \<noteq> toLowerCase filename \<and> \<not> startsWith filename ''file+'')
      then substring filename 0 (int maxLengthWithoutHash - 33) @ ''_'' @
           createShortHash createHexHash filename
      else filename)"

subsection \<open>The suffix made of peer dependencies\<close>

datatype peerId = PeerPkg str str | PeerDep str

fun peerIdName :: "peerId \<Rightarrow> str" where
  "peerIdName (PeerPkg name version) = name @ ''@'' @ version"
| "peerIdName (PeerDep p) = (if startsWith p ''/'' then substr p 1 else p)"

definition createPeersDirSuffix :: "(str \<Rightarrow> str) \<Rightarrow> peerId list \<Rightarrow> nat \<Rightarrow> str" where
  "createPeersDirSuffix createHexHash peerIds maxLength =
     (let dirName = joinWith '')('' (sort (map peerIdName peerIds));
          dirName' = (if length dirName > maxLength then createShortHash createHexHash dirName
                      else dirName)
      in ''('' @ dirName' @ '')'')"

section \<open>The scan for the suffix\<close>

text \<open>\<open>bal n s\<close>: the parentheses of \<open>s\<close> match, after \<open>n\<close> that are open already.\<close>

fun bal :: "nat \<Rightarrow> str \<Rightarrow> bool" where
  "bal n [] \<longleftrightarrow> n = 0"
| "bal n (c # s) \<longleftrightarrow>
     (if c = CHR ''('' then bal (Suc n) s
      else if c = CHR '')'' then 0 < n \<and> bal (n - 1) s
      else bal n s)"

definition plainEnd :: "str \<Rightarrow> bool" where
  "plainEnd s \<longleftrightarrow> s \<noteq> [] \<and> last s \<noteq> CHR ''('' \<and> last s \<noteq> CHR '')''"

definition grp :: "str \<Rightarrow> str" where
  "grp w = ''('' @ w @ '')''"

lemma bal_no_parens: "CHR ''('' \<notin> set s \<Longrightarrow> CHR '')'' \<notin> set s \<Longrightarrow> bal n s \<longleftrightarrow> n = 0"
  by (induction s) auto

lemma bal_append: "bal 0 w \<Longrightarrow> bal n s \<Longrightarrow> bal n (w @ s)"
proof -
  have "bal k w \<Longrightarrow> bal n s \<Longrightarrow> bal (n + k) (w @ s)" for k
  proof (induction w arbitrary: k)
    case (Cons c w)
    show ?case
      using Cons.IH [of k] Cons.IH [of "Suc k"] Cons.IH [of "k - 1"] Cons.prems by (cases k) auto
  qed simp
  from this [of 0] show "bal 0 w \<Longrightarrow> bal n s \<Longrightarrow> bal n (w @ s)" by simp
qed

lemma peersScan_bal:
  "bal n s \<Longrightarrow> 1 \<le> k \<Longrightarrow> peersScan (rev s @ rs) k = peersScan rs (k + int n)"
proof (induction s arbitrary: n rs)
  case (Cons c s)
  consider "c = CHR ''(''" | "c = CHR '')''" | "c \<noteq> CHR ''(''" "c \<noteq> CHR '')''" by blast
  then show ?case
  proof cases
    case 1
    with Cons show ?thesis by simp
  next
    case 2
    with Cons.prems obtain m where "n = Suc m" "bal m s" by (cases n) auto
    with Cons 2 show ?thesis by (simp add: add_ac)
  next
    case 3
    with Cons show ?thesis by simp
  qed
qed simp

lemma peersScan_grp: "bal 0 w \<Longrightarrow> peersScan (rev (grp w) @ rs) 0 = peersScan rs 0"
  using peersScan_bal [of 0 w 1 "CHR ''('' # rs"] by (simp add: grp_def)

lemma peersScan_grps:
  "\<forall>w \<in> set ws. bal 0 w \<Longrightarrow> peersScan (rev (concat (map grp ws)) @ rs) 0 = peersScan rs 0"
proof (induction ws arbitrary: rs)
  case (Cons w ws)
  then show ?case using peersScan_grp [of w rs] by simp
qed simp

lemma peersScan_plainEnd: "plainEnd b \<Longrightarrow> peersScan (rev b) 0 = int (length b) - 1"
  by (cases b rule: rev_cases) (auto simp: plainEnd_def)

lemma peersScan_range:
  "peersScan rs k = - 1 \<or>
   (0 \<le> peersScan rs k \<and> peersScan rs k < int (length rs) \<and>
    rev rs ! nat (peersScan rs k) \<noteq> CHR ''('' \<and> rev rs ! nat (peersScan rs k) \<noteq> CHR '')'')"
proof (induction rs arbitrary: k)
  case (Cons c rs)
  let ?k = "if c = CHR ''('' then k - 1 else if c = CHR '')'' then k + 1 else k"
  show ?case
  proof (cases "c \<noteq> CHR ''('' \<and> c \<noteq> CHR '')'' \<and> k = 0")
    case True
    then show ?thesis by (auto simp: nth_append)
  next
    case False
    then have "peersScan (c # rs) k = peersScan rs ?k" by auto
    with Cons.IH [of ?k] show ?thesis by (auto simp: nth_append)
  qed
qed simp

text \<open>The two shapes of a path with a suffix, and what the scan answers on them.\<close>

lemma scan_after_base:
  assumes "plainEnd b" "ws \<noteq> []" "\<forall>w \<in> set ws. bal 0 w"
  shows "endsWith (b @ concat (map grp ws)) '')''"
    and "peersScan (rev (butlast (b @ concat (map grp ws)))) 1 = int (length b) - 1"
proof -
  obtain vs v where ws: "ws = vs @ [v]" using assms(2) by (cases ws rule: rev_cases) auto
  then show "endsWith (b @ concat (map grp ws)) '')''"
    by (simp add: endsWith_iff grp_def)
  let ?r = "rev (butlast (b @ concat (map grp ws)))"
  have "peersScan (rev (b @ concat (map grp ws))) 0 = int (length b) - 1"
    using peersScan_grps [of ws "rev b"] peersScan_plainEnd [of b] assms by simp
  moreover have "rev (b @ concat (map grp ws)) = CHR '')'' # ?r"
    by (simp add: ws grp_def butlast_append)
  ultimately show "peersScan ?r 1 = int (length b) - 1" by simp
qed

lemma indexOfPeersSuffix_peers:
  assumes "plainEnd b" "ws \<noteq> []" "\<forall>w \<in> set ws. bal 0 w"
    and "\<not> startsWith (hd ws) ''patch_hash=''"
  shows "indexOfPeersSuffix (b @ concat (map grp ws)) =
     \<lparr>peersIndex = int (length b), patchHashIndex = - 1\<rparr>"
proof -
  obtain v vs where ws: "ws = v # vs" using assms(2) by (cases ws) auto
  have "b \<noteq> []" using assms(1) by (simp add: plainEnd_def)
  have "\<not> startsWith (v @ CHR '')'' # s) ''patch_hash=''" for s
    using assms(4) by (simp add: ws startsWith_append_cut)
  then have "\<not> startsWith (concat (map grp ws)) ''(patch_hash=''"
    by (simp add: ws grp_def)
  with scan_after_base [OF assms(1-3)] \<open>b \<noteq> []\<close> show ?thesis
    by (simp add: indexOfPeersSuffix_def substr_def Let_def)
qed

lemma indexOfPeersSuffix_patch:
  assumes "plainEnd b" "\<forall>w \<in> set ws. bal 0 w" "CHR ''('' \<notin> set h" "CHR '')'' \<notin> set h"
  shows "indexOfPeersSuffix (b @ grp (''patch_hash='' @ h) @ concat (map grp ws)) =
     \<lparr>peersIndex = (if ws = [] then - 1 else int (length b + length (grp (''patch_hash='' @ h)))),
      patchHashIndex = int (length b)\<rparr>"
proof -
  let ?p = "''patch_hash='' @ h" and ?g = "concat (map grp ws)"
  have b: "b \<noteq> []" using assms(1) by (simp add: plainEnd_def)
  have "bal 0 ?p" using assms(3,4) by (subst bal_no_parens) auto
  with assms have *: "\<forall>w \<in> set (?p # ws). bal 0 w" by simp
  have path: "b @ grp ?p @ ?g = b @ concat (map grp (?p # ws))" by simp
  have "indexOfFrom (b @ grp ?p @ ?g) CHR ''('' (Suc (length b)) =
      (if ws = [] then - 1 else int (length b + length (grp ?p)))"
  proof (cases ws)
    case Nil
    with assms show ?thesis by (simp add: indexOfFrom_def grp_def Let_def indexOf_def)
  next
    case (Cons w vs)
    have "indexOf ((?p @ '')'') @ CHR ''('' # w @ CHR '')'' # concat (map grp vs)) CHR ''('' =
        int (length (?p @ '')''))"
      by (rule indexOf_split) (use assms(3) in auto)
    with Cons show ?thesis by (simp add: indexOfFrom_def grp_def Let_def)
  qed
  with scan_after_base [OF assms(1) _ *] b show ?thesis
    unfolding path indexOfPeersSuffix_def
    by (simp add: substr_def Let_def grp_def nat_add_distrib)
qed

lemma indexOfPeersSuffix_plainEnd:
  "plainEnd b \<Longrightarrow> indexOfPeersSuffix b = \<lparr>peersIndex = - 1, patchHashIndex = - 1\<rparr>"
  by (simp add: indexOfPeersSuffix_def endsWith_single plainEnd_def)

section \<open>Cutting a path\<close>

definition hexDigit :: "char \<Rightarrow> bool" where
  "hexDigit c \<longleftrightarrow> c \<in> set ''0123456789abcdef''"

text \<open>The groups in parentheses of a peers suffix.\<close>

definition suffixGroups :: "(str \<Rightarrow> str) \<Rightarrow> peerId list \<Rightarrow> nat \<Rightarrow> str list" where
  "suffixGroups H ids m =
     (let ws = sort (map peerIdName ids); d = joinWith '')('' ws in
      if length d > m then [createShortHash H d] else if ws = [] then [[]] else ws)"

lemma joinWith_grps: "ws \<noteq> [] \<Longrightarrow> ''('' @ joinWith '')('' ws @ '')'' = concat (map grp ws)"
proof (induction "'')(''" ws rule: joinWith.induct)
  case (3 w v ws)
  then show ?case by (simp add: grp_def)
qed (simp_all add: grp_def)

lemma createPeersDirSuffix_groups:
  "createPeersDirSuffix H ids m = concat (map grp (suffixGroups H ids m))"
  using joinWith_grps [of "sort (map peerIdName ids)"]
  by (auto simp: createPeersDirSuffix_def suffixGroups_def Let_def grp_def)

lemma hexDigit_excludes:
  "\<not> hexDigit (CHR ''('')" "\<not> hexDigit (CHR '')'')" "\<not> hexDigit (CHR ''p'')"
  by (simp_all add: hexDigit_def)

lemma hex_hash_plain:
  assumes "\<forall>s. \<forall>c \<in> set (H s). hexDigit c"
  shows "bal 0 (createShortHash H s)" "\<not> startsWith (createShortHash H s) ''patch_hash=''"
proof -
  have c: "\<forall>c \<in> set (createShortHash H s). hexDigit c"
    using assms by (auto simp: createShortHash_def substring_def dest: in_set_takeD in_set_dropD)
  then have "CHR ''('' \<notin> set (createShortHash H s)" "CHR '')'' \<notin> set (createShortHash H s)"
    using hexDigit_excludes by blast+
  then show "bal 0 (createShortHash H s)" by (simp add: bal_no_parens)
  show "\<not> startsWith (createShortHash H s) ''patch_hash=''"
    using c hexDigit_excludes(3) by (cases "createShortHash H s") auto
qed

lemma suffixGroups_ok:
  assumes "\<forall>p \<in> set ids. bal 0 (peerIdName p) \<and> \<not> startsWith (peerIdName p) ''patch_hash=''"
    and "\<forall>s. \<forall>c \<in> set (H s). hexDigit c"
  shows "suffixGroups H ids m \<noteq> []" "\<forall>w \<in> set (suffixGroups H ids m). bal 0 w"
    "\<not> startsWith (hd (suffixGroups H ids m)) ''patch_hash=''"
proof -
  show "suffixGroups H ids m \<noteq> []" "\<forall>w \<in> set (suffixGroups H ids m). bal 0 w"
    using assms hex_hash_plain [of H] by (auto simp: suffixGroups_def Let_def)
  have "ws \<noteq> [] \<Longrightarrow> set ws \<subseteq> peerIdName ` set ids \<Longrightarrow> \<not> startsWith (hd ws) ''patch_hash=''" for ws
    using assms(1) by (cases ws) auto
  from this [of "sort (map peerIdName ids)"]
  show "\<not> startsWith (hd (suffixGroups H ids m)) ''patch_hash=''"
    using hex_hash_plain [OF assms(2)] by (auto simp: suffixGroups_def Let_def)
qed

lemma cut_peers:
  assumes "plainEnd b" "ws \<noteq> []" "\<forall>w \<in> set ws. bal 0 w" "\<not> startsWith (hd ws) ''patch_hash=''"
  defines "path \<equiv> b @ concat (map grp ws)"
  shows "parseDepPath path = \<lparr>pdpId = b, pdpPeersSuffix = concat (map grp ws)\<rparr>"
    and "removeSuffix path = b"
    and "splitVersion path = (b, Some (concat (map grp ws)), None)"
  using indexOfPeersSuffix_peers [OF assms(1-4)]
  by (simp_all add: path_def parseDepPath_def removeSuffix_def splitVersion_def substring_0 Let_def)

lemma cut_patch:
  assumes "plainEnd b" "\<forall>w \<in> set ws. bal 0 w" "CHR ''('' \<notin> set h" "CHR '')'' \<notin> set h"
  defines "p \<equiv> grp (''patch_hash='' @ h)"
  defines "path \<equiv> b @ p @ concat (map grp ws)"
  shows "removeSuffix path = b"
    and "ws \<noteq> [] \<Longrightarrow>
      parseDepPath path = \<lparr>pdpId = b @ p, pdpPeersSuffix = concat (map grp ws)\<rparr>"
    and "splitVersion path =
      (b, if ws = [] then None else Some (concat (map grp ws)), Some p)"
  using indexOfPeersSuffix_patch [OF assms(1-4)]
  by (simp_all add: path_def p_def parseDepPath_def removeSuffix_def splitVersion_def substring_0
      substring_def substr_def nat_add_distrib Let_def)

text \<open>C35. Appending the suffix that createPeersDirSuffix builds from any set of peers to a package id
  and cutting the path again gives back the id and the suffix, whether the suffix lists the peers or
  is replaced by their hash because it is longer than the limit; removeSuffix gives the id too. The
  peers may themselves carry nested suffixes, as long as their parentheses match.\<close>

theorem peers_suffix_roundtrip:
  assumes "plainEnd b"
    and "\<forall>p \<in> set ids. bal 0 (peerIdName p) \<and> \<not> startsWith (peerIdName p) ''patch_hash=''"
    and "\<forall>s. \<forall>c \<in> set (H s). hexDigit c"
  shows "parseDepPath (b @ createPeersDirSuffix H ids m) =
      \<lparr>pdpId = b, pdpPeersSuffix = createPeersDirSuffix H ids m\<rparr> \<and>
    removeSuffix (b @ createPeersDirSuffix H ids m) = b"
  using cut_peers [OF assms(1) suffixGroups_ok [OF assms(2,3)]]
  by (simp_all add: createPeersDirSuffix_groups)

theorem peers_suffix_roundtrip_witness:
  "parseDepPath (''foo@1.0.0'' @ createPeersDirSuffix (\<lambda>_. ''ab'')
      [PeerPkg ''react'' ''16.0.0'', PeerDep ''/bar@2.0.0(baz@1.0.0)''] 1000) =
    \<lparr>pdpId = ''foo@1.0.0'', pdpPeersSuffix = ''(bar@2.0.0(baz@1.0.0))(react@16.0.0)''\<rparr>"
proof -
  let ?ids = "[PeerPkg ''react'' ''16.0.0'', PeerDep ''/bar@2.0.0(baz@1.0.0)'']"
  have s: "createPeersDirSuffix (\<lambda>_. ''ab'') ?ids 1000 = ''(bar@2.0.0(baz@1.0.0))(react@16.0.0)''"
    by (simp add: createPeersDirSuffix_def insort_key.simps Let_def substr_def)
  show ?thesis
    using peers_suffix_roundtrip [of "''foo@1.0.0''" ?ids "\<lambda>_. ''ab''" 1000]
    unfolding s by (simp add: plainEnd_def hexDigit_def substr_def)
qed

section \<open>References of dependencies\<close>

text \<open>A version as it stands in a reference to a registry package: none of the characters that the
  code gives a meaning to.\<close>

definition plainVersion :: "str \<Rightarrow> bool" where
  "plainVersion v \<longleftrightarrow> v \<noteq> [] \<and> (\<forall>c \<in> set v. c \<notin> set ''@():'')"

lemma plainVersion_plainEnd: "plainVersion v \<Longrightarrow> plainEnd v"
  unfolding plainVersion_def plainEnd_def by (metis last_in_set list.set_intros)

lemma refToRelative_version:
  assumes "plainVersion v"
  shows "refToRelative (v @ concat (map grp ws)) name = Some (name @ ''@'' @ v @ concat (map grp ws))"
proof -
  let ?r = "v @ concat (map grp ws)"
  obtain c cs where v: "v = c # cs" using assms by (cases v) (auto simp: plainVersion_def)
  have notin: "d \<in> set ''@():'' \<Longrightarrow> d \<notin> set v" for d using assms by (auto simp: plainVersion_def)
  have "\<not> startsWith ?r ''link:''"
  proof (cases ws)
    case Nil
    then show ?thesis using notin [of "CHR '':''"] by (auto simp: startsWith_iff)
  next
    case (Cons w ws')
    have "\<not> startsWith v ''link:''" using notin [of "CHR '':''"] by (auto simp: startsWith_iff)
    with Cons show ?thesis by (simp add: grp_def startsWith_append_cut)
  qed
  moreover have "\<not> startsWith ?r ''@''" using notin [of "CHR ''@''"] by (auto simp: v)
  moreover have "indexOf ?r CHR ''@'' = - 1 \<or>
      (indexOf ?r CHR ''('' \<noteq> - 1 \<and> \<not> indexOf ?r CHR ''@'' < indexOf ?r CHR ''('')"
  proof (cases ws)
    case Nil
    then show ?thesis using notin by auto
  next
    case (Cons w ws')
    let ?s = "w @ CHR '')'' # concat (map grp ws')"
    have r: "?r = v @ CHR ''('' # ?s" using Cons by (simp add: grp_def)
    have "indexOf ?r CHR ''('' = int (length v)"
      unfolding r by (rule indexOf_split) (rule notin, simp)
    moreover have "CHR ''@'' \<in> set ?r \<Longrightarrow>
        indexOf ?r CHR ''@'' = int (length v) + indexOf (CHR ''('' # ?s) CHR ''@''"
      unfolding r using notin [of "CHR ''@''"] by (intro indexOf_append_right) auto
    moreover have "CHR ''@'' \<in> set ?r \<Longrightarrow> 0 \<le> indexOf (CHR ''('' # ?s) CHR ''@''"
      unfolding r using notin [of "CHR ''@''"] by (intro indexOf_nonneg) auto
    ultimately show ?thesis by (cases "CHR ''@'' \<in> set ?r") auto
  qed
  ultimately show ?thesis by (auto simp: refToRelative_def Let_def)
qed

lemma indexOfFrom_name:
  assumes "name \<noteq> []" "CHR ''@'' \<notin> set (tl name)"
  shows "indexOfFrom (name @ CHR ''@'' # s) CHR ''@'' 1 = int (length name)"
proof -
  obtain c cs where n: "name = c # cs" using assms(1) by (cases name) auto
  have "indexOf (cs @ CHR ''@'' # s) CHR ''@'' = int (length cs)"
    by (rule indexOf_split) (use assms(2) n in simp)
  then show ?thesis by (simp add: indexOfFrom_def n Let_def)
qed

lemma parse_name_version:
  assumes "name \<noteq> []" "CHR ''@'' \<notin> set (tl name)" "version \<noteq> []"
  shows "parse sv (name @ ''@'' @ version) =
     (case splitVersion version of (v, peers, patch) \<Rightarrow>
        if sv v
        then \<lparr>dpName = Some name, dpPeersSuffix = peers, dpVersion = Some v,
              dpNonSemverVersion = None, dpPatchHash = patch\<rparr>
        else \<lparr>dpName = Some name, dpPeersSuffix = peers, dpVersion = None,
              dpNonSemverVersion = Some v, dpPatchHash = patch\<rparr>)"
  using indexOfFrom_name [OF assms(1,2), of version] assms(3)
  by (simp add: parse_def emptyDependencyPath_def substring_0 substr_def nat_add_distrib Let_def
      split: prod.splits)

text \<open>A reference \<open>version(patch_hash=...)(peers)\<close> of a lockfile, made absolute with refToRelative
  under any alias (scoped or not) and read back with parse, gives exactly that alias, that version,
  that patch hash and those peers, even though the peers contain further \<open>@\<close> signs.\<close>

theorem ref_parse_roundtrip:
  assumes "name \<noteq> []" "CHR ''@'' \<notin> set (tl name)"
    and "plainVersion v" "semver_valid v"
    and "\<forall>w \<in> set ws. bal 0 w"
    and "\<forall>h \<in> set_option patch. CHR ''('' \<notin> set h \<and> CHR '')'' \<notin> set h"
    and "ws \<noteq> [] \<longrightarrow> \<not> startsWith (hd ws) ''patch_hash=''"
  defines "patchText \<equiv> (case patch of None \<Rightarrow> '''' | Some h \<Rightarrow> grp (''patch_hash='' @ h))"
  shows "map_option (parse semver_valid) (refToRelative (v @ patchText @ concat (map grp ws)) name) =
    Some \<lparr>dpName = Some name, dpPeersSuffix = (if ws = [] then None else Some (concat (map grp ws))),
          dpVersion = Some v, dpNonSemverVersion = None, dpPatchHash = map_option (\<lambda>_. patchText) patch\<rparr>"
proof -
  let ?r = "v @ patchText @ concat (map grp ws)"
  have "refToRelative ?r name = Some (name @ ''@'' @ ?r)"
    using refToRelative_version [OF assms(3), of ws name]
      refToRelative_version [OF assms(3), of "(''patch_hash='' @ the patch) # ws" name]
    by (cases patch) (auto simp: patchText_def)
  moreover have "?r \<noteq> []" using assms(3) by (simp add: plainVersion_def)
  moreover have "splitVersion ?r =
      (v, if ws = [] then None else Some (concat (map grp ws)), map_option (\<lambda>_. patchText) patch)"
  proof (cases patch)
    case None
    show ?thesis
    proof (cases "ws = []")
      case True
      with None indexOfPeersSuffix_plainEnd [OF plainVersion_plainEnd [OF assms(3)]] show ?thesis
        by (simp add: patchText_def splitVersion_def)
    next
      case False
      with None cut_peers(3) [OF plainVersion_plainEnd [OF assms(3)] False assms(5)] assms(7)
      show ?thesis by (simp add: patchText_def)
    qed
  next
    case (Some h)
    with cut_patch(3) [OF plainVersion_plainEnd [OF assms(3)] assms(5), of h] assms(6)
    show ?thesis by (simp add: patchText_def)
  qed
  ultimately show ?thesis
    using parse_name_version [OF assms(1,2), of ?r semver_valid] assms(4) by simp
qed

theorem ref_parse_roundtrip_witness:
  "map_option (parse (\<lambda>v. v = ''1.2.3''))
     (refToRelative ''1.2.3(patch_hash=ab)(@s/a@2.0.0(b@1.0.0))'' ''@x/y'') =
    Some \<lparr>dpName = Some ''@x/y'', dpPeersSuffix = Some ''(@s/a@2.0.0(b@1.0.0))'',
          dpVersion = Some ''1.2.3'', dpNonSemverVersion = None,
          dpPatchHash = Some ''(patch_hash=ab)''\<rparr>"
  using ref_parse_roundtrip [of "''@x/y''" "''1.2.3''" "\<lambda>v. v = ''1.2.3''"
      "[''@s/a@2.0.0(b@1.0.0)'']" "Some ''ab''"]
  by (simp add: plainVersion_def grp_def)

section \<open>File names in the virtual store\<close>

lemma plain_chars [simp]:
  "\<not> specialFilenameChar CHR ''_''" "\<not> specialFilenameChar CHR ''+''"
  by (simp_all add: specialFilenameChar_def)

lemma special_parensToUnderscore:
  "\<forall>c \<in> set s. \<not> specialFilenameChar c \<Longrightarrow> \<forall>c \<in> set (parensToUnderscore s). \<not> specialFilenameChar c"
  by (induction s rule: parensToUnderscore.induct) auto

lemma special_dropFinalParen:
  "\<forall>c \<in> set s. \<not> specialFilenameChar c \<Longrightarrow> \<forall>c \<in> set (dropFinalParen s). \<not> specialFilenameChar c"
  by (auto simp add: dropFinalParen_def dest: in_set_butlastD)

lemma special_map: "\<forall>c \<in> set (map replaceSpecial s). \<not> specialFilenameChar c"
  by (auto simp: replaceSpecial_def)

lemma special_escapeFilename: "\<forall>c \<in> set (escapeFilename p). \<not> specialFilenameChar c"
  using special_map special_parensToUnderscore [OF special_dropFinalParen [OF special_map]]
  by (simp add: escapeFilename_def Let_def)

lemma hex_not_special: "hexDigit c \<Longrightarrow> \<not> specialFilenameChar c"
  by (auto simp: hexDigit_def specialFilenameChar_def)

lemma hex_lower: "hexDigit c \<Longrightarrow> lowerC c = c"
  by (auto simp: hexDigit_def lowerC_def)



text \<open>On a file system that ignores case, two dependency paths whose escaped names differ in case
  only get different file names, because a name with capitals gets a hash of its exact text. This
  needs a hash that tells the two names apart and names short enough to leave room for it; names
  of local directories (\<open>file+\<close>) are exempt.\<close>

theorem filename_case_safe:
  assumes hex: "\<forall>s. length (H s) = 64 \<and> (\<forall>c \<in> set (H s). hexDigit c)"
    and neq: "escapeFilename p \<noteq> escapeFilename q"
    and same: "toLowerCase (escapeFilename p) = toLowerCase (escapeFilename q)"
    and inj: "createShortHash H (escapeFilename p) \<noteq> createShortHash H (escapeFilename q)"
    and nofile: "\<not> startsWith (escapeFilename p) ''file+''" "\<not> startsWith (escapeFilename q) ''file+''"
    and room: "length (escapeFilename p) + 33 \<le> m" "length (escapeFilename q) + 33 \<le> m"
  shows "toLowerCase (depPathToFilename H p m) \<noteq> toLowerCase (depPathToFilename H q m)"
proof
  assume eq: "toLowerCase (depPathToFilename H p m) = toLowerCase (depPathToFilename H q m)"
  let ?n = "\<lambda>x. escapeFilename x" and ?h = "\<lambda>x. createShortHash H (escapeFilename x)"
  have len: "length (createShortHash H s) = 32" for s
    using hex by (simp add: createShortHash_def substring_def)
  have low: "toLowerCase (?h x) = ?h x" for x
    using hex hex_lower
    by (auto simp: createShortHash_def substring_def toLowerCase_def intro!: map_idI
        dest: in_set_takeD)
  have f: "depPathToFilename H x m =
      (if ?n x = toLowerCase (?n x) then ?n x else ?n x @ ''_'' @ ?h x)"
    if "\<not> startsWith (?n x) ''file+''" "length (?n x) + 33 \<le> m" for x
    using that by (auto simp: depPathToFilename_def Let_def substring_def)

  have l: "length (toLowerCase (depPathToFilename H p m)) = length (toLowerCase (depPathToFilename H q m))"
    using eq by simp
  have n: "length (?n p) = length (?n q)" using same by (metis length_toLowerCase)
  show False
  proof (cases "?n p = toLowerCase (?n p) \<longleftrightarrow> ?n q = toLowerCase (?n q)")
    case False
    with f [OF nofile(1) room(1)] f [OF nofile(2) room(2)] l n len show False by auto
  next
    case True
    show False
    proof (cases "?n p = toLowerCase (?n p)")
      case True
      with \<open>?n p = toLowerCase (?n p) \<longleftrightarrow> ?n q = toLowerCase (?n q)\<close> same neq show False by simp
    next
      case False
      with True f [OF nofile(1) room(1)] f [OF nofile(2) room(2)] eq same
      have "?h p = ?h q" by (simp add: low)
      with inj show False ..
    qed
  qed
qed

theorem filename_case_safe_witness:
  "toLowerCase (depPathToFilename (\<lambda>s. replicate 64 (if CHR ''J'' \<in> set s then CHR ''a'' else CHR ''b''))
       ''JSONStream@1.0.0'' 120) \<noteq>
   toLowerCase (depPathToFilename (\<lambda>s. replicate 64 (if CHR ''J'' \<in> set s then CHR ''a'' else CHR ''b''))
       ''jsonstream@1.0.0'' 120)"
proof -
  let ?H = "\<lambda>s. replicate 64 (if CHR ''J'' \<in> set s then CHR ''a'' else CHR ''b'')"
  have e: "escapeFilename ''JSONStream@1.0.0'' = ''JSONStream@1.0.0''"
    "escapeFilename ''jsonstream@1.0.0'' = ''jsonstream@1.0.0''" by code_simp+
  have l: "toLowerCase ''JSONStream@1.0.0'' = ''jsonstream@1.0.0''"
    "toLowerCase ''jsonstream@1.0.0'' = ''jsonstream@1.0.0''" by code_simp+
  have "\<forall>s. length (?H s) = 64 \<and> (\<forall>c \<in> set (?H s). hexDigit c)"
    by (auto simp: hexDigit_def)
  then show ?thesis
    by (rule filename_case_safe) (simp_all only: e l, simp_all add: createShortHash_def substring_def)
qed

end
