(* ===== verification/LockfileTypes.thy ===== *)
theory LockfileTypes
  imports DependencyPath
begin

text \<open>
  The data model of lockfiles and manifests: lockfile/types/src/index.ts and lockfileFileTypes.ts,
  packages/types/src/misc.ts and package.ts (the fields the modelled code reads).

  A field that may be absent is an \<open>option\<close>; \<open>true\<close>-only flags such as \<open>optional?: true\<close> are
  \<open>bool option\<close>. A package entry is one flat record with every field optional, because the code
  builds partial entries with \<open>pick\<close> and merges them with \<open>Object.assign\<close>.
\<close>

type_synonym depPath = str
type_synonym projectId = str
type_synonym deps = "str obj"

datatype depField = OptionalDependencies | Dependencies | DevDependencies

text \<open>The order of the source array, which the code says is important.\<close>

definition DEPENDENCIES_FIELDS :: "depField list" where
  "DEPENDENCIES_FIELDS = [OptionalDependencies, Dependencies, DevDependencies]"

lemma set_DEPENDENCIES_FIELDS [simp]: "set DEPENDENCIES_FIELDS = UNIV"
  by (auto simp: DEPENDENCIES_FIELDS_def) (metis depField.exhaust)

definition LOCKFILE_VERSION :: str where
  "LOCKFILE_VERSION = ''9.0''"

datatype resolution =
    TarballResolution (tarballUrl: str) (integrityOf: "str option") (pathOf: "str option")
  | DirectoryResolution (directory: str)
  | GitRepositoryResolution (repo: str) (commit: str) (gitPathOf: "str option")
  | IntegrityResolution (integrityHash: str)

record packageSnapshot =
  optional :: "bool option"
  dependencies :: "deps option"
  optionalDependencies :: "deps option"
  transitivePeerDependencies :: "str list option"
  pkgId :: "str option"
  patched :: "bool option"
  hasBin :: "bool option"
  pkgName :: "str option"
  pkgVersion :: "str option"
  pkgResolution :: "resolution option"
  peerDependencies :: "deps option"
  peerDependenciesMeta :: "bool obj option"
  bundledDependencies :: "(str list + bool) option"
  engines :: "str obj option"
  os :: "str list option"
  cpu :: "str list option"
  libc :: "str list option"
  deprecated :: "str option"

definition emptyPackage :: packageSnapshot where
  "emptyPackage = \<lparr>optional = None, dependencies = None, optionalDependencies = None,
     transitivePeerDependencies = None, pkgId = None, patched = None, hasBin = None, pkgName = None,
     pkgVersion = None, pkgResolution = None, peerDependencies = None, peerDependenciesMeta = None,
     bundledDependencies = None, engines = None, os = None, cpu = None, libc = None,
     deprecated = None\<rparr>"

text \<open>\<open>{...a, ...b}\<close> and \<open>Object.assign({}, a, b)\<close> on package entries.\<close>

definition orElse :: "'a option \<Rightarrow> 'a option \<Rightarrow> 'a option" where
  "orElse b a = (case b of None \<Rightarrow> a | Some _ \<Rightarrow> b)"

lemma orElse_simps [simp]: "orElse None a = a" "orElse (Some x) a = Some x" "orElse b None = b" "orElse a a = a"
  by (simp_all add: orElse_def split: option.splits)

definition spreadPackage :: "packageSnapshot \<Rightarrow> packageSnapshot \<Rightarrow> packageSnapshot" where
  "spreadPackage a b = \<lparr>
     optional = orElse (optional b) (optional a),
     dependencies = orElse (dependencies b) (dependencies a),
     optionalDependencies = orElse (optionalDependencies b) (optionalDependencies a),
     transitivePeerDependencies = orElse (transitivePeerDependencies b) (transitivePeerDependencies a),
     pkgId = orElse (pkgId b) (pkgId a),
     patched = orElse (patched b) (patched a),
     hasBin = orElse (hasBin b) (hasBin a),
     pkgName = orElse (pkgName b) (pkgName a),
     pkgVersion = orElse (pkgVersion b) (pkgVersion a),
     pkgResolution = orElse (pkgResolution b) (pkgResolution a),
     peerDependencies = orElse (peerDependencies b) (peerDependencies a),
     peerDependenciesMeta = orElse (peerDependenciesMeta b) (peerDependenciesMeta a),
     bundledDependencies = orElse (bundledDependencies b) (bundledDependencies a),
     engines = orElse (engines b) (engines a),
     os = orElse (os b) (os a),
     cpu = orElse (cpu b) (cpu a),
     libc = orElse (libc b) (libc a),
     deprecated = orElse (deprecated b) (deprecated a)\<rparr>"

lemma spreadPackage_empty [simp]: "spreadPackage emptyPackage p = p" "spreadPackage p emptyPackage = p"
  by (simp_all add: spreadPackage_def emptyPackage_def)

lemma spreadPackage_self [simp]: "spreadPackage p p = p"
  by (simp add: spreadPackage_def)

type_synonym packageSnapshots = "packageSnapshot obj"

record dependencyMeta =
  injected :: "bool option"
  metaNode :: "str option"
  metaPatch :: "str option"

record projectSnapshot =
  specifiers :: deps
  prodDeps :: "deps option"
  optDeps :: "deps option"
  devDeps :: "deps option"
  dependenciesMeta :: "dependencyMeta obj option"
  publishDirectory :: "str option"

definition emptyProject :: projectSnapshot where
  "emptyProject = \<lparr>specifiers = [], prodDeps = None, optDeps = None, devDeps = None,
     dependenciesMeta = None, publishDirectory = None\<rparr>"

fun projectField :: "depField \<Rightarrow> projectSnapshot \<Rightarrow> deps option" where
  "projectField OptionalDependencies p = optDeps p"
| "projectField Dependencies p = prodDeps p"
| "projectField DevDependencies p = devDeps p"

record lockfileSettings =
  autoInstallPeers :: "bool option"
  excludeLinksFromLockfile :: "bool option"
  peersSuffixMaxLength :: "nat option"
  injectWorkspacePackages :: "bool option"

record catalogEntry =
  ceSpecifier :: str
  ceVersion :: str

record patchFile =
  patchPath :: str
  patchHash :: str

record lockfileBase =
  catalogs :: "catalogEntry obj obj option"
  ignoredOptionalDependencies :: "str list option"
  lockfileVersion :: str
  overrides :: "str obj option"
  packageExtensionsChecksum :: "str option"
  patchedDependencies :: "patchFile obj option"
  pnpmfileChecksum :: "str option"
  settings :: "lockfileSettings option"
  lockfileTime :: "str obj option"

record lockfileObject = lockfileBase +
  importers :: "projectSnapshot obj"
  packages :: "packageSnapshots option"

record specifierAndResolution =
  inlineSpecifier :: "str option"
  inlineVersion :: str

record lockfileFileProject =
  fileProdDeps :: "specifierAndResolution obj option"
  fileOptDeps :: "specifierAndResolution obj option"
  fileDevDeps :: "specifierAndResolution obj option"
  fileDependenciesMeta :: "dependencyMeta obj option"
  filePublishDirectory :: "str option"

record lockfileFile = lockfileBase +
  fileImporters :: "lockfileFileProject obj option"
  filePackages :: "packageSnapshot obj option"
  fileSnapshots :: "packageSnapshot obj option"

definition emptyLockfile :: lockfileObject where
  "emptyLockfile = \<lparr>catalogs = None, ignoredOptionalDependencies = None,
     lockfileVersion = LOCKFILE_VERSION, overrides = None, packageExtensionsChecksum = None,
     patchedDependencies = None, pnpmfileChecksum = None, settings = None, lockfileTime = None,
     importers = [], packages = None\<rparr>"

text \<open>The dependency fields of a manifest, and the other fields of it that the lockfile is checked
  against.\<close>

record manifest =
  mName :: "str option"
  mVersion :: "str option"
  mDependencies :: "deps option"
  mDevDependencies :: "deps option"
  mOptionalDependencies :: "deps option"
  mPeerDependencies :: "deps option"
  mDependenciesMeta :: "dependencyMeta obj option"
  mPublishDirectory :: "str option"

definition emptyManifest :: manifest where
  "emptyManifest = \<lparr>mName = None, mVersion = None, mDependencies = None, mDevDependencies = None,
     mOptionalDependencies = None, mPeerDependencies = None, mDependenciesMeta = None,
     mPublishDirectory = None\<rparr>"

fun manifestField :: "depField \<Rightarrow> manifest \<Rightarrow> deps option" where
  "manifestField OptionalDependencies m = mOptionalDependencies m"
| "manifestField Dependencies m = mDependencies m"
| "manifestField DevDependencies m = mDevDependencies m"

text \<open>\<open>include: { [dependenciesField in DependenciesField]: boolean }\<close>.\<close>

record includeDeps =
  incDependencies :: bool
  incDevDependencies :: bool
  incOptionalDependencies :: bool

text \<open>The references of a dependency block as dependency paths; \<open>link:\<close> references have none.\<close>

definition resolvedDepsToDepPaths :: "deps \<Rightarrow> depPath list" where
  "resolvedDepsToDepPaths ds = List.map_filter (\<lambda>(alias, ref). refToRelative ref alias) ds"

lemma set_resolvedDepsToDepPaths:
  "set (resolvedDepsToDepPaths ds) = {p. \<exists>(alias, ref) \<in> set ds. refToRelative ref alias = Some p}"
  by (force simp: resolvedDepsToDepPaths_def map_filter_def)

text \<open>The edges of the graph of packages: the dependencies and the optional dependencies of an
  entry. A dependency path without an entry has none.\<close>

definition newDependencies :: "packageSnapshots \<Rightarrow> depPath \<Rightarrow> depPath list" where
  "newDependencies pkgs depPath =
     (case map_of pkgs depPath of None \<Rightarrow> []
      | Some p \<Rightarrow> resolvedDepsToDepPaths (orEmpty (dependencies p)))"

definition newOptionalDependencies :: "packageSnapshots \<Rightarrow> depPath \<Rightarrow> depPath list" where
  "newOptionalDependencies pkgs depPath =
     (case map_of pkgs depPath of None \<Rightarrow> []
      | Some p \<Rightarrow> resolvedDepsToDepPaths (orEmpty (optionalDependencies p)))"

lemma newDependencies_missing [simp]:
  "map_of pkgs d = None \<Longrightarrow> newDependencies pkgs d = []"
  "map_of pkgs d = None \<Longrightarrow> newOptionalDependencies pkgs d = []"
  by (simp_all add: newDependencies_def newOptionalDependencies_def)

definition allEdges :: "packageSnapshots \<Rightarrow> depPath \<Rightarrow> depPath list" where
  "allEdges pkgs d = newDependencies pkgs d @ newOptionalDependencies pkgs d"

text \<open>The dependency paths that a block of the importers refers to.\<close>

definition importersDepPaths :: "depField \<Rightarrow> lockfileObject \<Rightarrow> depPath list" where
  "importersDepPaths f lockfile =
     concat (map (\<lambda>p. resolvedDepsToDepPaths (orEmpty (projectField f p))) (vals (importers lockfile)))"

lemma UN_depField: "(\<Union>f. A f) = A OptionalDependencies \<union> A Dependencies \<union> A DevDependencies"
  by (auto) (metis depField.exhaust)

text \<open>Well-formedness of a lockfile: every dictionary has each key once, as a JavaScript object has.\<close>

definition wfDeps :: "deps option \<Rightarrow> bool" where
  "wfDeps d \<longleftrightarrow> distinct (keys (orEmpty d))"

definition wfPackage :: "packageSnapshot \<Rightarrow> bool" where
  "wfPackage p \<longleftrightarrow> wfDeps (dependencies p) \<and> wfDeps (optionalDependencies p)"

definition wfProject :: "projectSnapshot \<Rightarrow> bool" where
  "wfProject p \<longleftrightarrow> distinct (keys (specifiers p)) \<and> wfDeps (prodDeps p) \<and> wfDeps (optDeps p) \<and>
     wfDeps (devDeps p)"

definition wfLockfile :: "lockfileObject \<Rightarrow> bool" where
  "wfLockfile l \<longleftrightarrow> distinct (keys (importers l)) \<and> distinct (keys (orEmpty (packages l))) \<and>
     list_all (\<lambda>(_, p). wfProject p) (importers l) \<and>
     list_all (\<lambda>(_, p). wfPackage p) (orEmpty (packages l))"

end
