(* ===== verification/GraphWalk.thy ===== *)
theory GraphWalk
  imports Prelude
begin

text \<open>
  The contract of the recursive graph walks of the repository. A walk carries a state that records
  the nodes it has seen; a node that is seen is skipped, and a new one is visited (a local change of
  the state that at least marks it) before the walk goes on to its successors and then to the rest
  of the list. \<open>seen_walk\<close> states this contract; inside it the walk is shown to reach exactly the
  nodes that edges lead to, and a rule lifts an invariant of one visit to the whole walk. The pruner,
  the detection of dependency types and the selection of workspace projects are interpretations.
  \<open>batch_walk\<close> is the same for the lockfile walker, which marks a whole list of nodes before it
  expands the first of them.
\<close>

definition reach :: "('n \<Rightarrow> 'n list) \<Rightarrow> 'n set \<Rightarrow> 'n set" where
  "reach step R = {(n, m). m \<in> set (step n)}\<^sup>* `` R"

lemma reach_base: "R \<subseteq> reach step R"
  by (auto simp: reach_def)

lemma reach_step: "n \<in> reach step R \<Longrightarrow> m \<in> set (step n) \<Longrightarrow> m \<in> reach step R"
  by (auto simp: reach_def intro: rtrancl_into_rtrancl)

lemma reach_least:
  assumes "R \<subseteq> C" "\<And>n m. n \<in> C \<Longrightarrow> m \<in> set (step n) \<Longrightarrow> m \<in> C"
  shows "reach step R \<subseteq> C"
proof
  fix x assume "x \<in> reach step R"
  then obtain r where "r \<in> R" "(r, x) \<in> {(n, m). m \<in> set (step n)}\<^sup>*" by (auto simp: reach_def)
  from this(2,1) show "x \<in> C" by (induction rule: rtrancl_induct) (use assms in auto)
qed

lemma reach_mono: "R \<subseteq> S \<Longrightarrow> reach step R \<subseteq> reach step S"
  by (auto simp: reach_def)

lemma reach_Un: "reach step (R \<union> S) = reach step R \<union> reach step S"
  by (auto simp: reach_def)

lemma reach_idem: "reach step (reach step R) = reach step R"
  by (intro equalityI reach_least reach_base) (auto intro: reach_step)

lemma reach_empty [simp]: "reach step {} = {}"
  by (simp add: reach_def)

lemma in_reach_base: "n \<in> R \<Longrightarrow> n \<in> reach step R"
  by (rule subsetD [OF reach_base])

lemma reach_unfold: "reach step R = R \<union> reach step (\<Union>n \<in> R. set (step n))"
proof (rule equalityI)
  let ?N = "\<Union>n \<in> R. set (step n)"
  show "reach step R \<subseteq> R \<union> reach step ?N"
  proof (rule reach_least)
    fix n m assume n: "n \<in> R \<union> reach step ?N" and m: "m \<in> set (step n)"
    have "m \<in> reach step ?N"
    proof (cases "n \<in> R")
      case True
      with m show ?thesis by (intro in_reach_base UN_I)
    next
      case False
      with n have "n \<in> reach step ?N" by simp
      then show ?thesis using m by (rule reach_step)
    qed
    then show "m \<in> R \<union> reach step ?N" by simp
  qed simp
  have "reach step ?N \<subseteq> reach step R"
  proof (rule reach_least)
    show "?N \<subseteq> reach step R" by (auto intro: reach_step [OF in_reach_base])
  qed (rule reach_step)
  then show "R \<union> reach step ?N \<subseteq> reach step R" by (simp add: reach_base)
qed

lemma reach_cong:
  assumes eq: "\<And>n. n \<in> reach step R \<Longrightarrow> step' n = step n"
  shows "reach step' R = reach step R"
proof (rule equalityI)
  show "reach step' R \<subseteq> reach step R"
  proof (rule reach_least [OF reach_base])
    fix n m assume n: "n \<in> reach step R" and m: "m \<in> set (step' n)"
    from m have "m \<in> set (step n)" by (simp only: eq [OF n])
    with n show "m \<in> reach step R" by (rule reach_step)
  qed
  have "reach step R \<subseteq> reach step R \<inter> reach step' R"
  proof (rule reach_least)
    fix n m assume n: "n \<in> reach step R \<inter> reach step' R" and m: "m \<in> set (step n)"
    then have "n \<in> reach step R" "n \<in> reach step' R" by simp_all
    note reach_step [OF this(1) m] reach_step [OF this(2), unfolded eq [OF this(1)], OF m]
    then show "m \<in> reach step R \<inter> reach step' R" by simp
  qed (simp add: reach_base)
  then show "reach step R \<subseteq> reach step' R" by simp
qed

text \<open>The measure of the walks: what is left of the universe shrinks with each node marked in it.\<close>

lemma unseen_less:
  "finite A \<Longrightarrow> n \<in> A \<Longrightarrow> n \<notin> S \<Longrightarrow> insert n S \<subseteq> T \<Longrightarrow> card (A - T) < card (A - S)"
  by (intro psubset_card_mono) auto

lemma unseen_le: "finite A \<Longrightarrow> S \<subseteq> T \<Longrightarrow> card (A - T) \<le> card (A - S)"
  by (intro card_mono) auto

section \<open>Depth-first walks\<close>

locale seen_walk =
  fixes step :: "'n \<Rightarrow> 'n list"
    and univ :: "'n set"
    and seen :: "'s \<Rightarrow> 'n set"
    and visit :: "'n \<Rightarrow> 's \<Rightarrow> 's"
    and run :: "'n list \<Rightarrow> 's \<Rightarrow> 's"
  assumes finite_univ: "finite univ"
    and step_outside: "n \<notin> univ \<Longrightarrow> step n = []"
    and seen_visit: "seen (visit n s) = insert n (seen s)"
    and run_Nil: "run [] s = s"
    and run_seen: "n \<in> seen s \<Longrightarrow> run (n # ns) s = run ns s"
    and run_new: "n \<notin> seen s \<Longrightarrow> run (n # ns) s = run ns (run (step n) (visit n s))"
begin

text \<open>The induction that follows the walk: each new node leaves fewer nodes of the universe unseen.\<close>

lemma walk_induct:
  assumes Nil: "\<And>s. P [] s"
    and old: "\<And>n ns s. n \<in> seen s \<Longrightarrow> P ns s \<Longrightarrow> P (n # ns) s"
    and new: "\<And>n ns s. n \<notin> seen s \<Longrightarrow> P (step n) (visit n s) \<Longrightarrow>
        seen s \<subseteq> seen (run (step n) (visit n s)) \<Longrightarrow> P ns (run (step n) (visit n s)) \<Longrightarrow>
        P (n # ns) s"
  shows "P ns s"
proof -
  have "P ns s \<and> seen s \<subseteq> seen (run ns s)"
  proof (induction "(ns, s)" arbitrary: ns s
      rule: wf_induct [OF wf_inv_image [OF wf_lex_prod [OF wf_less_than wf_less_than],
        where f = "\<lambda>(ns, s). (card (univ - seen s), length ns)"]])
    case 1
    then have IH: "P ms t \<and> seen t \<subseteq> seen (run ms t)"
      if "card (univ - seen t) < card (univ - seen s) \<or>
          card (univ - seen t) = card (univ - seen s) \<and> length ms < length ns" for ms t
      using that by auto
    show ?case
    proof (cases ns)
      case Nil
      then show ?thesis using assms(1) by (simp add: run_Nil)
    next
      case (Cons n ms)
      show ?thesis
      proof (cases "n \<in> seen s")
        case True
        then show ?thesis using IH [of s ms] old [of n s ms] Cons by (simp add: run_seen)
      next
        case False
        let ?s = "visit n s" and ?t = "run (step n) (visit n s)"
        have P1: "P (step n) ?s \<and> seen ?s \<subseteq> seen ?t"
        proof (cases "n \<in> univ")
          case True
          then have "card (univ - seen ?s) < card (univ - seen s)"
            using False finite_univ by (intro psubset_card_mono) (auto simp: seen_visit)
          then show ?thesis using IH by blast
        next
          case False
          then show ?thesis using assms(1) by (simp add: step_outside run_Nil)
        qed
        then have sub: "seen s \<subseteq> seen ?t" by (auto simp: seen_visit)
        then have "card (univ - seen ?t) \<le> card (univ - seen s)"
          using finite_univ by (intro card_mono) auto
        then have "P ms ?t \<and> seen ?t \<subseteq> seen (run ms ?t)"
          using IH [of ?t ms] Cons by (auto simp: le_less)
        then show ?thesis using new [of n s ms] P1 sub False Cons by (auto simp: run_new)
      qed
    qed
  qed
  then show ?thesis ..
qed

lemma run_mono: "seen s \<subseteq> seen (run ns s)"
  by (induction ns s rule: walk_induct) (auto simp: run_Nil run_seen run_new seen_visit)

lemma run_roots: "set ns \<subseteq> seen (run ns s)"
proof (induction ns s rule: walk_induct)
  case (2 n ns s)
  then show ?case using run_mono [of s ns] by (auto simp: run_seen)
next
  case (3 n ns s)
  then have "seen s \<subseteq> seen (run (step n) (visit n s))"
    using run_mono [of "visit n s" "step n"] by (auto simp: seen_visit)
  then show ?case
    using 3 run_mono [of "visit n s" "step n"] run_mono [of "run (step n) (visit n s)" ns]
    by (auto simp: run_new seen_visit)
qed (simp add: run_Nil)

lemma run_closed: "x \<in> seen (run ns s) \<Longrightarrow> x \<notin> seen s \<Longrightarrow> set (step x) \<subseteq> seen (run ns s)"
proof (induction ns s rule: walk_induct)
  case (1 s)
  then show ?case by (simp add: run_Nil)
next
  case (2 n ns s)
  then show ?case by (simp add: run_seen)
next
  case (3 n ns s)
  note new = this
  let ?t = "run (step n) (visit n s)"
  have m: "seen ?t \<subseteq> seen (run ns ?t)" "seen s \<subseteq> seen ?t"
    using run_mono [of ?t ns] run_mono [of "visit n s" "step n"] by (auto simp: seen_visit)
  consider "x = n" | "x \<in> seen ?t" "x \<noteq> n" | "x \<notin> seen ?t" by blast
  then show ?case
  proof cases
    case 1
    then show ?thesis using run_roots [of "step n" "visit n s"] m new by (auto simp: run_new)
  next
    case 2
    then have "set (step x) \<subseteq> seen ?t" using new by (auto simp: seen_visit)
    then show ?thesis using m new by (auto simp: run_new)
  next
    case 3
    then show ?thesis using new m by (auto simp: run_new)
  qed
qed

lemma run_sound: "seen (run ns s) \<subseteq> seen s \<union> reach step (set ns)"
proof (induction ns s rule: walk_induct)
  case (1 s)
  then show ?case by (simp add: run_Nil)
next
  case (2 n ns s)
  then show ?case using reach_mono [of "set ns" "set (n # ns)" step] by (auto simp: run_seen)
next
  case (3 n ns s)
  have "reach step (set (step n)) \<subseteq> reach step (set (n # ns))"
    by (intro reach_least) (auto intro: reach_step reach_base [THEN subsetD])
  moreover have "reach step (set ns) \<subseteq> reach step (set (n # ns))" by (rule reach_mono) auto
  moreover have "n \<in> reach step (set (n # ns))" using reach_base by fastforce
  moreover have "seen s \<subseteq> seen (run (step n) (visit n s))"
    using run_mono [of "visit n s" "step n"] by (auto simp: seen_visit)
  moreover have "seen (run (n # ns) s) \<subseteq> seen s \<union> {n} \<union> reach step (set (step n)) \<union> reach step (set ns)"
    using 3 by (auto simp: run_new seen_visit)
  ultimately show ?case by blast
qed

text \<open>A walk that starts from a closed set of nodes ends with that set and all that is reachable.\<close>

lemma run_complete:
  assumes "\<And>x m. x \<in> seen s \<Longrightarrow> m \<in> set (step x) \<Longrightarrow> m \<in> seen s"
  shows "seen (run ns s) = seen s \<union> reach step (set ns)"
proof (rule equalityI [OF run_sound])
  have "reach step (set ns) \<subseteq> seen (run ns s)"
    by (intro reach_least run_roots)
      (metis assms run_closed run_mono subsetD)
  then show "seen s \<union> reach step (set ns) \<subseteq> seen (run ns s)" using run_mono by blast
qed

lemma run_complete_empty: "seen s = {} \<Longrightarrow> seen (run ns s) = reach step (set ns)"
  by (subst run_complete) auto

lemma run_result_closed:
  assumes "\<And>x m. x \<in> seen s \<Longrightarrow> m \<in> set (step x) \<Longrightarrow> m \<in> seen s"
    and "x \<in> seen (run ns s)" "m \<in> set (step x)"
  shows "m \<in> seen (run ns s)"
  using assms run_closed [of x ns s] run_mono [of s ns] by blast

text \<open>An invariant of a visit is an invariant of the walk.\<close>

lemma run_invariant:
  assumes "I s" "\<And>n s. I s \<Longrightarrow> n \<notin> seen s \<Longrightarrow> I (visit n s)"
  shows "I (run ns s)"
  using assms(1)
  by (induction ns s rule: walk_induct) (auto simp: run_Nil run_seen run_new assms(2))

lemma run_append: "run (ms @ ns) s = run ns (run ms s)"
  by (induction ms s rule: walk_induct) (auto simp: run_Nil run_seen run_new)

end

section \<open>Walks that mark a batch at a time\<close>

text \<open>\<open>mark ns s\<close> marks all of \<open>ns\<close> and gives the newly marked nodes that can be expanded;
  \<open>expand\<close> takes such nodes one after another, visits each (which leaves the marks alone), and marks
  and expands its successors. The marks a walk starts with are obstacles: the walk reaches what edges
  lead to around them.\<close>

definition around :: "('n \<Rightarrow> 'n list) \<Rightarrow> 'n set \<Rightarrow> 'n \<Rightarrow> 'n list" where
  "around step S n = filter (\<lambda>m. m \<notin> S) (step n)"

lemma around_empty [simp]: "around step {} = step"
  by (simp add: around_def fun_eq_iff)

lemma set_around [simp]: "set (around step S n) = set (step n) - S"
  by (auto simp: around_def)

locale batch_walk =
  fixes step :: "'n \<Rightarrow> 'n list"
    and univ :: "'n set"
    and seen :: "'s \<Rightarrow> 'n set"
    and visited :: "'s \<Rightarrow> 'n set"
    and visit :: "'n \<Rightarrow> 's \<Rightarrow> 's"
    and mark :: "'n list \<Rightarrow> 's \<Rightarrow> 'n list \<times> 's"
    and expand :: "'n list \<Rightarrow> 's \<Rightarrow> 's"
  assumes finite_univ: "finite univ"
    and step_outside: "n \<notin> univ \<Longrightarrow> step n = []"
    and seen_visit: "seen (visit n s) = seen s"
    and visited_visit: "visited (visit n s) = insert n (visited s)"
    and set_mark: "set (fst (mark ns s)) = (set ns - seen s) \<inter> univ"
    and seen_mark: "seen (snd (mark ns s)) = seen s \<union> set ns"
    and visited_mark: "visited (snd (mark ns s)) = visited s"
    and expand_Nil: "expand [] s = s"
    and expand_Cons: "expand (n # ns) s =
      expand ns (expand (fst (mark (step n) (visit n s))) (snd (mark (step n) (visit n s))))"
begin

abbreviation "batch n s \<equiv> fst (mark (step n) (visit n s))"
abbreviation "after n s \<equiv> snd (mark (step n) (visit n s))"

lemma expand_induct_mono:
  assumes Nil: "\<And>s. P [] s"
    and Cons: "\<And>n ns s. P (batch n s) (after n s) \<Longrightarrow>
        seen (after n s) \<subseteq> seen (expand (batch n s) (after n s)) \<Longrightarrow>
        P ns (expand (batch n s) (after n s)) \<Longrightarrow>
        seen (expand (batch n s) (after n s)) \<subseteq> seen (expand (n # ns) s) \<Longrightarrow> P (n # ns) s"
  shows "P ns s \<and> seen s \<subseteq> seen (expand ns s)"
proof (induction "(ns, s)" arbitrary: ns s
    rule: wf_induct [OF wf_inv_image [OF wf_lex_prod [OF wf_less_than wf_less_than],
      where f = "\<lambda>(ns, s). (card (univ - seen s), length ns)"]])
  case 1
  then have IH: "P ms t \<and> seen t \<subseteq> seen (expand ms t)"
    if "card (univ - seen t) < card (univ - seen s) \<or>
        card (univ - seen t) = card (univ - seen s) \<and> length ms < length ns" for ms t
    using that by auto
  show ?case
  proof (cases ns)
    case Nil
    then show ?thesis using assms(1) by (simp add: expand_Nil)
  next
    case (Cons n ms)
    let ?b = "batch n s" and ?s = "after n s"
    let ?t = "expand ?b ?s"
    have P1: "P ?b ?s \<and> seen ?s \<subseteq> seen ?t"
    proof (cases "?b = []")
      case True
      then show ?thesis using assms(1) by (simp add: expand_Nil)
    next
      case False
      then have "hd ?b \<in> set ?b" by (rule hd_in_set)
      then obtain b where "b \<in> set ?b" ..
      then have "b \<in> univ" "b \<notin> seen s" "insert b (seen s) \<subseteq> seen ?s"
        by (auto simp: set_mark seen_mark seen_visit)
      then show ?thesis using IH unseen_less [OF finite_univ] by blast
    qed
    then have sub: "seen s \<subseteq> seen ?t" by (auto simp: seen_mark seen_visit)
    then have "card (univ - seen ?t) \<le> card (univ - seen s)" by (rule unseen_le [OF finite_univ])
    then have P2: "P ms ?t \<and> seen ?t \<subseteq> seen (expand ms ?t)"
      using IH [of ?t ms] Cons by (auto simp: le_less)
    have e: "expand ns s = expand ms ?t" using Cons by (simp add: expand_Cons)
    have "P (n # ms) s" using assms(2) [of n s ms] P1 P2 by (simp add: expand_Cons)
    then show ?thesis using P2 sub Cons e by auto
  qed
qed

lemma expand_mono: "seen s \<subseteq> seen (expand ns s)"
  using expand_induct_mono [of "\<lambda>_ _. True"] by simp

lemmas expand_induct = expand_induct_mono [THEN conjunct1, case_names Nil Cons]

lemma expand_closed:
  "x \<in> seen (expand ns s) \<Longrightarrow> x \<notin> seen s \<or> x \<in> set ns \<Longrightarrow> set (step x) \<subseteq> seen (expand ns s)"
proof (induction ns s rule: expand_induct)
  case (Nil s)
  then show ?case by (simp add: expand_Nil)
next
  case (Cons n ns s)
  let ?t = "expand (batch n s) (after n s)"
  consider "x \<notin> seen ?t \<or> x \<in> set ns" | "x = n" | "x \<in> seen ?t" "x \<noteq> n" "x \<notin> set ns" by blast
  then show ?case
  proof cases
    case 1
    then show ?thesis using Cons by (simp add: expand_Cons)
  next
    case 2
    then have "set (step x) \<subseteq> seen (after n s)" by (auto simp: seen_mark)
    then show ?thesis using Cons by blast
  next
    case 3
    then have new: "x \<notin> seen s" using Cons by auto
    have "set (step x) \<subseteq> seen ?t"
    proof (cases "x \<in> univ")
      case True
      have "x \<notin> seen (after n s) \<or> x \<in> set (batch n s)"
        using True new by (auto simp: seen_mark set_mark seen_visit)
      with 3(1) Cons(1) show ?thesis by blast
    next
      case False
      then show ?thesis by (simp add: step_outside)
    qed
    then show ?thesis using Cons by blast
  qed
qed

lemma expand_sound:
  "S \<subseteq> seen s \<Longrightarrow>
   seen (expand ns s) \<subseteq> seen s \<union> reach (around step S) (\<Union>n \<in> set ns. set (step n) - S)"
proof (induction ns s rule: expand_induct)
  case (Nil s)
  then show ?case by (simp add: expand_Nil)
next
  case (Cons n ns s)
  let ?t = "expand (batch n s) (after n s)" and ?g = "around step S"
  let ?R = "reach ?g (set (step n) - S)"
  have "(\<Union>m \<in> set (batch n s). set (step m) - S) \<subseteq> (\<Union>m \<in> set (step n) - S. set (?g m))"
    using Cons.prems by (auto simp: set_mark seen_visit)
  then have "reach ?g (\<Union>m \<in> set (batch n s). set (step m) - S) \<subseteq> ?R"
    using reach_unfold [of ?g "set (step n) - S"] reach_mono by blast
  moreover have "S \<subseteq> seen (after n s)" using Cons.prems by (auto simp: seen_mark seen_visit)
  ultimately have t: "seen ?t \<subseteq> seen (after n s) \<union> ?R" and S: "S \<subseteq> seen ?t"
    using Cons.IH(1) Cons.hyps(1) by blast+
  have "seen (after n s) \<subseteq> seen s \<union> ?R"
    using reach_base [of "set (step n) - S" ?g] Cons.prems by (auto simp: seen_mark seen_visit)
  with t have "seen ?t \<subseteq> seen s \<union> ?R" by blast
  moreover from S Cons.IH(2) have "seen (expand (n # ns) s) \<subseteq>
      seen ?t \<union> reach ?g (\<Union>m \<in> set ns. set (step m) - S)"
    by (simp add: expand_Cons)
  moreover have "reach ?g (\<Union>m \<in> set (n # ns). set (step m) - S) =
      ?R \<union> reach ?g (\<Union>m \<in> set ns. set (step m) - S)"
    by (simp add: reach_Un)
  ultimately show ?case by blast
qed

definition start :: "'n list \<Rightarrow> 's \<Rightarrow> 's" where
  "start ns s = expand (fst (mark ns s)) (snd (mark ns s))"

lemma start_seen:
  "seen (start ns s) = seen s \<union> reach (around step (seen s)) (set ns - seen s)"
proof (rule equalityI)
  let ?b = "fst (mark ns s)" and ?s = "snd (mark ns s)" and ?g = "around step (seen s)"
  let ?R = "reach ?g (set ns - seen s)"
  have "(\<Union>m \<in> set ?b. set (step m) - seen s) \<subseteq> (\<Union>m \<in> set ns - seen s. set (?g m))"
    by (auto simp: set_mark)
  then have "reach ?g (\<Union>m \<in> set ?b. set (step m) - seen s) \<subseteq> ?R"
    using reach_unfold [of ?g "set ns - seen s"] reach_mono by blast
  moreover have "seen s \<subseteq> seen ?s" by (auto simp: seen_mark)
  ultimately have "seen (start ns s) \<subseteq> seen ?s \<union> ?R"
    using expand_sound [of "seen s" ?s ?b] unfolding start_def by blast
  moreover have "seen ?s \<subseteq> seen s \<union> ?R"
    using reach_base [of "set ns - seen s" ?g] by (auto simp: seen_mark)
  ultimately show "seen (start ns s) \<subseteq> seen s \<union> ?R" by blast
  have m: "seen s \<union> set ns \<subseteq> seen (start ns s)"
    using expand_mono [of ?s ?b] by (auto simp: start_def seen_mark)
  have "?R \<subseteq> seen (start ns s) - seen s"
  proof (rule reach_least)
    show "set ns - seen s \<subseteq> seen (start ns s) - seen s" using m by blast
    fix x y assume x: "x \<in> seen (start ns s) - seen s" and y: "y \<in> set (?g x)"
    then have "step x \<noteq> []" by auto
    then have "x \<in> univ" using step_outside by blast
    with x have "x \<notin> seen ?s \<or> x \<in> set ?b" by (auto simp: seen_mark set_mark)
    with expand_closed [of x ?b ?s] x y show "y \<in> seen (start ns s) - seen s"
      by (auto simp: start_def)
  qed
  with m show "seen s \<union> ?R \<subseteq> seen (start ns s)" by blast
qed

text \<open>Every node that is marked in the universe is visited once its batch is expanded.\<close>

lemma expand_visited:
  "visited (expand ns s) = visited s \<union> set ns \<union> ((seen (expand ns s) - seen s) \<inter> univ)"
proof (induction ns s rule: expand_induct)
  case (Nil s)
  then show ?case by (simp add: expand_Nil)
next
  case (Cons n ns s)
  let ?t = "expand (batch n s) (after n s)"
  have sub: "seen s \<union> set (step n) \<subseteq> seen ?t" using Cons.hyps(1) by (simp add: seen_mark seen_visit)
  have "visited ?t = visited s \<union> {n} \<union> ((set (step n) - seen s) \<inter> univ) \<union>
      ((seen ?t - (seen s \<union> set (step n))) \<inter> univ)"
    using Cons.IH(1) by (simp add: visited_mark visited_visit set_mark seen_mark seen_visit)
  with sub have "visited ?t = visited s \<union> {n} \<union> ((seen ?t - seen s) \<inter> univ)" by blast
  moreover have "seen s \<subseteq> seen ?t" using sub by blast
  moreover have "visited (expand (n # ns) s) =
      visited ?t \<union> set ns \<union> ((seen (expand (n # ns) s) - seen ?t) \<inter> univ)"
    using Cons.IH(2) by (simp add: expand_Cons)
  ultimately show ?case using Cons.hyps(2) by auto
qed

lemma start_visited:
  "visited (start ns s) = visited s \<union> (reach (around step (seen s)) (set ns - seen s) - seen s) \<inter> univ"
proof -
  have "visited (start ns s) = visited s \<union> (seen (start ns s) - seen s) \<inter> univ"
    using expand_visited [of "fst (mark ns s)" "snd (mark ns s)"]
      expand_mono [of "snd (mark ns s)" "fst (mark ns s)"]
    by (auto simp: start_def set_mark seen_mark visited_mark)
  then show ?thesis unfolding start_seen by auto
qed

lemma expand_invariant:
  assumes "I s" "\<And>ms s. I s \<Longrightarrow> I (snd (mark ms s))" "\<And>n s. I s \<Longrightarrow> I (visit n s)"
  shows "I (expand ns s)"
  using assms(1) by (induction ns s rule: expand_induct) (auto simp: expand_Nil expand_Cons assms(2,3))

end

end
