(* ===== verification/LockfilePruner.thy ===== *)
theory LockfilePruner
  imports LockfileTypes GraphWalk
begin

text \<open>
  lockfile/pruner/src/index.ts: the packages of a lockfile that its importers no longer need are
  dropped, and the \<open>optional\<close> flag of those that stay is computed again.

  The code shares each package object between \<open>originalPackages\<close> and \<open>copiedSnapshots\<close> and writes
  its \<open>optional\<close> field in place. Each copy overwrites that field and nothing else of the object is
  written, so the model keeps the original packages fixed and writes the field in the copy. A
  \<open>walked\<close> key \<open>depPath:true\<close> is a pair. \<open>dependenciesGraph\<close> is the dictionary of the nodes' \<open>optional\<close>
  fields.

  The specification is stated with \<open>reach\<close>: a package stays exactly when some importer reaches it,
  and its flag is set exactly when no path of non-optional edges from a non-optional direct
  dependency reaches it.
\<close>

section \<open>copyDependencySubGraph\<close>

record prunerCtx =
  copiedSnapshots :: packageSnapshots
  nonOptional :: "depPath list"
  pWalked :: "(depPath \<times> bool) list"
  pWarnings :: "str list"
  dependenciesGraph :: "bool option obj option"

text \<open>The writes of one visit. \<open>jset\<close> on the graph is guarded, as in the code, by the presence of
  the node.\<close>

definition setGraphOptional :: "depPath \<Rightarrow> bool \<Rightarrow> bool option obj option \<Rightarrow> bool option obj option" where
  "setGraphOptional depPath b g =
     (case g of None \<Rightarrow> None
      | Some m \<Rightarrow> (case map_of m depPath of None \<Rightarrow> Some m | Some _ \<Rightarrow> Some (jset depPath (Some b) m)))"

definition copyPackage :: "packageSnapshot \<Rightarrow> depPath \<Rightarrow> bool \<Rightarrow> prunerCtx \<Rightarrow> prunerCtx" where
  "copyPackage depLockfile depPath optionalFlag ctx =
     (if optionalFlag \<and> depPath \<notin> set (nonOptional ctx)
      then ctx\<lparr>copiedSnapshots := jset depPath (depLockfile\<lparr>optional := Some True\<rparr>) (copiedSnapshots ctx),
               dependenciesGraph := setGraphOptional depPath True (dependenciesGraph ctx)\<rparr>
      else ctx\<lparr>copiedSnapshots := jset depPath (depLockfile\<lparr>optional := None\<rparr>) (copiedSnapshots ctx),
               nonOptional := sadd depPath (nonOptional ctx),
               dependenciesGraph := setGraphOptional depPath False (dependenciesGraph ctx)\<rparr>)"

definition warnMissing :: "depPath \<Rightarrow> prunerCtx \<Rightarrow> prunerCtx" where
  "warnMissing depPath ctx =
     (if startsWith depPath ''link:'' \<or> startsWith depPath ''file:'' \<and> \<not> endsWith depPath ''.tar.gz''
      then ctx
      else ctx\<lparr>pWarnings := pWarnings ctx @ [''Cannot find resolution of '' @ depPath @ '' in lockfile'']\<rparr>)"

text \<open>What happens when a key is met for the first time, apart from the recursive calls.\<close>

definition visitPackage :: "packageSnapshots \<Rightarrow> depPath \<times> bool \<Rightarrow> prunerCtx \<Rightarrow> prunerCtx" where
  "visitPackage originalPackages key ctx =
     (let ctx' = ctx\<lparr>pWalked := sadd key (pWalked ctx)\<rparr> in
      case map_of originalPackages (fst key) of
        None \<Rightarrow> warnMissing (fst key) ctx'
      | Some depLockfile \<Rightarrow> copyPackage depLockfile (fst key) (snd key) ctx')"

lemma pWalked_visitPackage [simp]:
  "set (pWalked (visitPackage pkgs key ctx)) = insert key (set (pWalked ctx))"
  by (auto simp: visitPackage_def warnMissing_def copyPackage_def Let_def split: option.splits)

function copyDependencySubGraph ::
    "packageSnapshots \<Rightarrow> depPath list \<Rightarrow> bool \<Rightarrow> prunerCtx \<Rightarrow> prunerCtx" where
  "copyDependencySubGraph originalPackages [] optionalFlag ctx = ctx"
| "copyDependencySubGraph originalPackages (depPath # depPaths) optionalFlag ctx =
     (if (depPath, optionalFlag) \<in> set (pWalked ctx)
      then copyDependencySubGraph originalPackages depPaths optionalFlag ctx
      else let ctx1 = visitPackage originalPackages (depPath, optionalFlag) ctx in
        if map_of originalPackages depPath = None
        then copyDependencySubGraph originalPackages depPaths optionalFlag ctx1
        else let ctx2 = copyDependencySubGraph originalPackages
                          (newDependencies originalPackages depPath) optionalFlag ctx1;
                 ctx3 = copyDependencySubGraph originalPackages
                          (newOptionalDependencies originalPackages depPath) True ctx2
             in copyDependencySubGraph originalPackages depPaths optionalFlag ctx3)"
  by pat_completeness auto

lemma copyDependencySubGraph_walked_dom:
  "copyDependencySubGraph_dom (pkgs, ds, b, ctx) \<Longrightarrow>
     set (pWalked ctx) \<subseteq> set (pWalked (copyDependencySubGraph pkgs ds b ctx))"
proof (induction rule: copyDependencySubGraph.pinduct)
  case (1 pkgs b ctx)
  then show ?case by (simp add: copyDependencySubGraph.psimps)
next
  case (2 pkgs d ds b ctx)
  show ?case
  proof (cases "(d, b) \<in> set (pWalked ctx)")
    case True
    then show ?thesis using 2 by (simp add: copyDependencySubGraph.psimps)
  next
    case False
    show ?thesis
    proof (cases "map_of pkgs d = None")
      case True
      then show ?thesis using 2 False by (simp add: copyDependencySubGraph.psimps)
    next
      case p: False
      have "set (pWalked ctx) \<subseteq> set (pWalked (visitPackage pkgs (d, b) ctx))" by auto
      also note 2(4) [OF False refl p]
      also note 2(5) [OF False refl p refl]
      also note 2(6) [OF False refl p refl refl]
      finally show ?thesis using 2(1) False by (simp only: copyDependencySubGraph.psimps p if_False Let_def)
    qed
  qed
qed

definition keyUniverse :: "packageSnapshots \<Rightarrow> (depPath \<times> bool) set" where
  "keyUniverse pkgs = set (keys pkgs) \<times> UNIV"

lemma finite_keyUniverse [simp]: "finite (keyUniverse pkgs)"
  by (simp add: keyUniverse_def)

termination copyDependencySubGraph
proof (relation "inv_image (less_than <*lex*> less_than)
    (\<lambda>(pkgs, ds, b, ctx). (card (keyUniverse pkgs - set (pWalked ctx)), length ds))", goal_cases)
  case 1
  show ?case by (simp add: wf_lex_prod)
next
  case (2 pkgs d ds b ctx)
  then show ?case by simp
next
  case (3 pkgs d ds b ctx ctx1)
  then have "card (keyUniverse pkgs - set (pWalked ctx1)) \<le> card (keyUniverse pkgs - set (pWalked ctx))"
    by (intro unseen_le) auto
  then show ?case by auto
next
  case (4 pkgs d ds b ctx ctx1)
  then have "card (keyUniverse pkgs - set (pWalked ctx1)) < card (keyUniverse pkgs - set (pWalked ctx))"
    by (intro unseen_less [of _ "(d, b)"]) (auto simp: keyUniverse_def in_keys_iff simp del: set_map)
  then show ?case by simp
next
  case (5 pkgs d ds b ctx ctx1 ctx2)
  then have "set (pWalked ctx1) \<subseteq> set (pWalked ctx2)"
    using copyDependencySubGraph_walked_dom by blast
  with 5 have "card (keyUniverse pkgs - set (pWalked ctx2)) < card (keyUniverse pkgs - set (pWalked ctx))"
    by (intro unseen_less [of _ "(d, b)"]) (auto simp: keyUniverse_def in_keys_iff simp del: set_map)
  then show ?case by simp
next
  case (6 pkgs d ds b ctx ctx1 ctx2 ctx3)
  then have "set (pWalked ctx1) \<subseteq> set (pWalked ctx2)" "set (pWalked ctx2) \<subseteq> set (pWalked ctx3)"
    using copyDependencySubGraph_walked_dom by blast+
  with 6 have "card (keyUniverse pkgs - set (pWalked ctx3)) < card (keyUniverse pkgs - set (pWalked ctx))"
    by (intro unseen_less [of _ "(d, b)"]) (auto simp: keyUniverse_def in_keys_iff simp del: set_map)
  then show ?case by simp
qed

section \<open>The walk\<close>

lemma copyDependencySubGraph_append:
  "copyDependencySubGraph pkgs (ds @ es) b ctx =
     copyDependencySubGraph pkgs es b (copyDependencySubGraph pkgs ds b ctx)"
proof (induction ds arbitrary: ctx)
  case (Cons d ds)
  then show ?case by (simp add: Let_def)
qed simp

definition nodeStep :: "packageSnapshots \<Rightarrow> depPath \<times> bool \<Rightarrow> (depPath \<times> bool) list" where
  "nodeStep pkgs n =
     map (\<lambda>d. (d, snd n)) (newDependencies pkgs (fst n)) @
     map (\<lambda>d. (d, True)) (newOptionalDependencies pkgs (fst n))"

definition runNodes :: "packageSnapshots \<Rightarrow> (depPath \<times> bool) list \<Rightarrow> prunerCtx \<Rightarrow> prunerCtx" where
  "runNodes pkgs ns = fold (\<lambda>n. copyDependencySubGraph pkgs [fst n] (snd n)) ns"

lemma runNodes_eq: "runNodes pkgs (map (\<lambda>d. (d, b)) ds) ctx = copyDependencySubGraph pkgs ds b ctx"
proof (induction ds arbitrary: ctx)
  case (Cons d ds)
  then show ?case
    using copyDependencySubGraph_append [of pkgs "[d]" ds b ctx] by (simp add: runNodes_def)
qed (simp add: runNodes_def)

lemma runNodes_append: "runNodes pkgs (ms @ ns) ctx = runNodes pkgs ns (runNodes pkgs ms ctx)"
  by (simp add: runNodes_def)

lemma copyDependencySubGraph_new:
  assumes "(d, b) \<notin> set (pWalked ctx)"
  shows "copyDependencySubGraph pkgs [d] b ctx =
     runNodes pkgs (nodeStep pkgs (d, b)) (visitPackage pkgs (d, b) ctx)"
  using assms
  by (cases "map_of pkgs d")
    (simp_all add: nodeStep_def runNodes_append runNodes_eq Let_def, simp add: runNodes_def)

interpretation pruneWalk: seen_walk "nodeStep pkgs" "keyUniverse pkgs" "\<lambda>ctx. set (pWalked ctx)"
  "visitPackage pkgs" "runNodes pkgs" for pkgs
proof (unfold_locales, goal_cases)
  case 1
  show ?case by simp
next
  case (2 n)
  then have "map_of pkgs (fst n) = None"
    by (cases n) (auto simp: keyUniverse_def map_of_eq_None_iff)
  then show ?case by (simp add: nodeStep_def)
next
  case 3
  show ?case by simp
next
  case 4
  show ?case by (simp add: runNodes_def)
next
  case (5 n s ns)
  then have "copyDependencySubGraph pkgs [fst n] (snd n) s = s" by (simp del: set_map)
  then show ?case by (simp add: runNodes_def)
next
  case (6 n s ns)
  have "runNodes pkgs (n # ns) s = runNodes pkgs ns (copyDependencySubGraph pkgs [fst n] (snd n) s)"
    by (simp add: runNodes_def)
  with 6 show ?case using copyDependencySubGraph_new [of "fst n" "snd n" s pkgs] by simp
qed

section \<open>What a walk leaves in its context\<close>

definition copiedSpec :: "packageSnapshots \<Rightarrow> (depPath \<times> bool) set \<Rightarrow> depPath \<Rightarrow> packageSnapshot option" where
  "copiedSpec pkgs W k =
     (if (k, False) \<in> W then map_option (\<lambda>p. p\<lparr>optional := None\<rparr>) (map_of pkgs k)
      else if (k, True) \<in> W then map_option (\<lambda>p. p\<lparr>optional := Some True\<rparr>) (map_of pkgs k)
      else None)"

definition graphSpec ::
    "packageSnapshots \<Rightarrow> (depPath \<times> bool) set \<Rightarrow> bool option obj \<Rightarrow> depPath \<Rightarrow> bool option option" where
  "graphSpec pkgs W g k =
     (if map_of pkgs k = None \<or> (k, False) \<notin> W \<and> (k, True) \<notin> W then map_of g k
      else map_option (\<lambda>_. Some ((k, False) \<notin> W)) (map_of g k))"

definition prunerInv :: "packageSnapshots \<Rightarrow> bool option obj option \<Rightarrow> prunerCtx \<Rightarrow> bool" where
  "prunerInv pkgs g ctx \<longleftrightarrow>
     (\<forall>k. map_of (copiedSnapshots ctx) k = copiedSpec pkgs (set (pWalked ctx)) k) \<and>
     distinct (keys (copiedSnapshots ctx)) \<and>
     set (nonOptional ctx) = {k. (k, False) \<in> set (pWalked ctx) \<and> map_of pkgs k \<noteq> None} \<and>
     (dependenciesGraph ctx = None \<longleftrightarrow> g = None) \<and>
     (\<forall>k. map_of (orEmpty (dependenciesGraph ctx)) k = graphSpec pkgs (set (pWalked ctx)) (orEmpty g) k)"

lemma map_of_setGraphOptional:
  "map_of (orEmpty (setGraphOptional d b g)) k =
     (if k = d then map_option (\<lambda>_. Some b) (map_of (orEmpty g) k) else map_of (orEmpty g) k)"
  by (cases g) (auto simp: setGraphOptional_def alist.get_put split: option.splits)

lemma setGraphOptional_None [simp]: "setGraphOptional d b g = None \<longleftrightarrow> g = None"
  by (auto simp: setGraphOptional_def split: option.splits)

lemma map_option_const: "map_option (\<lambda>_. a) (map_option f x) = map_option (\<lambda>_. a) x"
  by (cases x) simp_all

lemma prunerInv_visit:
  assumes "prunerInv pkgs g ctx" "n \<notin> set (pWalked ctx)"
  shows "prunerInv pkgs g (visitPackage pkgs n ctx)"
proof (cases "map_of pkgs (fst n)")
  case None
  then have "copiedSpec pkgs (insert n W) k = copiedSpec pkgs W k"
    "graphSpec pkgs (insert n W) h k = graphSpec pkgs W h k" for W k h
    by (auto simp: copiedSpec_def graphSpec_def)
  moreover have "{k. (k, False) \<in> insert n W \<and> map_of pkgs k \<noteq> None} =
      {k. (k, False) \<in> W \<and> map_of pkgs k \<noteq> None}" for W
    using None by auto
  ultimately show ?thesis
    using assms None by (simp add: prunerInv_def visitPackage_def warnMissing_def Let_def)
next
  case (Some p)
  obtain d b where n: "n = (d, b)" by (cases n)
  show ?thesis
  proof (cases "b \<and> d \<notin> set (nonOptional ctx)")
    case True
    then have "(d, False) \<notin> set (pWalked ctx)"
      using assms(1) Some n by (auto simp: prunerInv_def)
    with True Some n assms show ?thesis
      by (simp add: prunerInv_def visitPackage_def copyPackage_def Let_def alist.get_put
          map_of_setGraphOptional distinct_keys_update del: set_map)
        (auto simp: copiedSpec_def graphSpec_def map_option_const)
  next
    case False
    then have "(d, False) \<in> insert n (set (pWalked ctx))"
      using assms(1) Some n by (auto simp: prunerInv_def)
    with False Some n assms show ?thesis
      by (simp add: prunerInv_def visitPackage_def copyPackage_def Let_def alist.get_put
          map_of_setGraphOptional distinct_keys_update del: set_map)
        (auto simp: copiedSpec_def graphSpec_def map_option_const)
  qed
qed

section \<open>copyPackageSnapshots and pruneSharedLockfile\<close>

definition initCtx :: "bool option obj option \<Rightarrow> prunerCtx" where
  "initCtx g = \<lparr>copiedSnapshots = [], nonOptional = [], pWalked = [], pWarnings = [],
     dependenciesGraph = g\<rparr>"

definition copyPackageSnapshots ::
    "packageSnapshots \<Rightarrow> depPath list \<Rightarrow> depPath list \<Rightarrow> depPath list \<Rightarrow> bool option obj option \<Rightarrow>
     prunerCtx" where
  "copyPackageSnapshots originalPackages devDepPaths optionalDepPaths prodDepPaths graph =
     copyDependencySubGraph originalPackages prodDepPaths False
       (copyDependencySubGraph originalPackages optionalDepPaths True
         (copyDependencySubGraph originalPackages devDepPaths False (initCtx graph)))"

text \<open>The result: the lockfile, and what was written to the graph and sent to \<open>warn\<close>.\<close>

definition pruneSharedLockfile ::
    "lockfileObject \<Rightarrow> bool option obj option \<Rightarrow> lockfileObject \<times> prunerCtx" where
  "pruneSharedLockfile lockfile graph =
     (let ctx = (case packages lockfile of None \<Rightarrow> initCtx graph
                 | Some pkgs \<Rightarrow> copyPackageSnapshots pkgs (importersDepPaths DevDependencies lockfile)
                     (importersDepPaths OptionalDependencies lockfile)
                     (importersDepPaths Dependencies lockfile) graph);
          copied = copiedSnapshots ctx
      in (lockfile\<lparr>packages := (if copied = [] then None else Some copied)\<rparr>, ctx))"

section \<open>Specification\<close>

text \<open>The packages the importers reach, and those they reach without an optional edge.\<close>

definition needed :: "lockfileObject \<Rightarrow> depPath set" where
  "needed l = reach (allEdges (orEmpty (packages l))) (\<Union>f. set (importersDepPaths f l))"

definition required :: "lockfileObject \<Rightarrow> depPath set" where
  "required l = reach (newDependencies (orEmpty (packages l)))
     (set (importersDepPaths Dependencies l) \<union> set (importersDepPaths DevDependencies l))"

definition pruneRoots :: "lockfileObject \<Rightarrow> (depPath \<times> bool) list" where
  "pruneRoots l = map (\<lambda>d. (d, False)) (importersDepPaths DevDependencies l) @
     map (\<lambda>d. (d, True)) (importersDepPaths OptionalDependencies l) @
     map (\<lambda>d. (d, False)) (importersDepPaths Dependencies l)"

lemma reach_required:
  "(k, False) \<in> reach (nodeStep (orEmpty (packages l))) (set (pruneRoots l)) \<longleftrightarrow> k \<in> required l"
proof -
  let ?p = "orEmpty (packages l)" and ?N = "reach (nodeStep (orEmpty (packages l))) (set (pruneRoots l))"
  have "?N \<subseteq> {n. snd n = False \<longrightarrow> fst n \<in> required l}"
  proof (rule reach_least)
    fix n m assume "n \<in> {n. snd n = False \<longrightarrow> fst n \<in> required l}" "m \<in> set (nodeStep ?p n)"
    then show "m \<in> {n. snd n = False \<longrightarrow> fst n \<in> required l}"
      by (auto simp: nodeStep_def required_def intro: reach_step)
  qed (auto simp: pruneRoots_def required_def intro: in_reach_base)
  moreover have "required l \<subseteq> {k. (k, False) \<in> ?N}"
    unfolding required_def
  proof (rule reach_least)
    fix n m assume n: "n \<in> {k. (k, False) \<in> ?N}" and m: "m \<in> set (newDependencies ?p n)"
    from m have "(m, False) \<in> set (nodeStep ?p (n, False))" by (simp add: nodeStep_def)
    with n show "m \<in> {k. (k, False) \<in> ?N}" by (auto intro: reach_step)
  qed (auto simp: pruneRoots_def intro: in_reach_base)
  ultimately show ?thesis by auto
qed

lemma reach_needed:
  "(\<exists>b. (k, b) \<in> reach (nodeStep (orEmpty (packages l))) (set (pruneRoots l))) \<longleftrightarrow> k \<in> needed l"
proof -
  let ?p = "orEmpty (packages l)" and ?N = "reach (nodeStep (orEmpty (packages l))) (set (pruneRoots l))"
  have "?N \<subseteq> {n. fst n \<in> needed l}"
  proof (rule reach_least)
    fix n m assume "n \<in> {n. fst n \<in> needed l}" "m \<in> set (nodeStep ?p n)"
    then show "m \<in> {n. fst n \<in> needed l}"
      by (auto simp: nodeStep_def needed_def allEdges_def intro: reach_step)
  next
    show "set (pruneRoots l) \<subseteq> {n. fst n \<in> needed l}"
      by (auto simp: pruneRoots_def needed_def intro!: in_reach_base)
  qed
  moreover have "needed l \<subseteq> {k. \<exists>b. (k, b) \<in> ?N}"
    unfolding needed_def
  proof (rule reach_least)
    fix n m assume "n \<in> {k. \<exists>b. (k, b) \<in> ?N}" and m: "m \<in> set (allEdges ?p n)"
    then obtain b where n: "(n, b) \<in> ?N" by auto
    from m obtain c where "(m, c) \<in> set (nodeStep ?p (n, b))" by (auto simp: nodeStep_def allEdges_def)
    with n have "(m, c) \<in> ?N" by (rule reach_step)
    then show "m \<in> {k. \<exists>b. (k, b) \<in> ?N}" by auto
  next
    have "(\<Union>f. set (importersDepPaths f l)) \<subseteq> {k. \<exists>b. (k, b) \<in> set (pruneRoots l)}"
      unfolding UN_depField by (auto simp: pruneRoots_def)
    then show "(\<Union>f. set (importersDepPaths f l)) \<subseteq> {k. \<exists>b. (k, b) \<in> ?N}"
      using reach_base [of "set (pruneRoots l)" "nodeStep ?p"] by blast
  qed
  ultimately show ?thesis by auto
qed

lemma copyPackageSnapshots_run:
  "copyPackageSnapshots pkgs (importersDepPaths DevDependencies l)
     (importersDepPaths OptionalDependencies l) (importersDepPaths Dependencies l) g =
   runNodes pkgs (pruneRoots l) (initCtx g)"
  by (simp add: copyPackageSnapshots_def pruneRoots_def runNodes_append runNodes_eq)

lemma prunerInv_result:
  "prunerInv (orEmpty (packages l)) g (snd (pruneSharedLockfile l g))"
proof -
  have init: "prunerInv pkgs g (initCtx g)" for pkgs
    by (simp add: prunerInv_def initCtx_def copiedSpec_def graphSpec_def)
  show ?thesis
  proof (cases "packages l")
    case None
    then show ?thesis using init by (simp add: pruneSharedLockfile_def Let_def)
  next
    case (Some pkgs)
    have "prunerInv pkgs g (runNodes pkgs (pruneRoots l) (initCtx g))"
      by (rule pruneWalk.run_invariant [where I = "prunerInv pkgs g"]) (rule init, rule prunerInv_visit)
    then show ?thesis using Some by (simp add: pruneSharedLockfile_def copyPackageSnapshots_run Let_def)
  qed
qed

lemma pruned_walked:
  assumes "packages l = Some pkgs"
  shows "set (pWalked (snd (pruneSharedLockfile l g))) = reach (nodeStep pkgs) (set (pruneRoots l))"
  using assms pruneWalk.run_complete_empty [of "initCtx g" pkgs "pruneRoots l"]
  by (simp add: pruneSharedLockfile_def copyPackageSnapshots_run Let_def initCtx_def)

lemma pruned_packages:
  "map_of (orEmpty (packages (fst (pruneSharedLockfile l g)))) k =
     (if k \<in> needed l
      then map_option (\<lambda>p. p\<lparr>optional := (if k \<in> required l then None else Some True)\<rparr>)
             (map_of (orEmpty (packages l)) k)
      else None)"
proof (cases "packages l")
  case None
  then show ?thesis by (simp add: pruneSharedLockfile_def initCtx_def)
next
  case (Some pkgs)
  let ?c = "snd (pruneSharedLockfile l g)"
  have "map_of (orEmpty (packages (fst (pruneSharedLockfile l g)))) k = map_of (copiedSnapshots ?c) k"
    by (simp add: pruneSharedLockfile_def Let_def)
  also have "\<dots> = copiedSpec pkgs (reach (nodeStep pkgs) (set (pruneRoots l))) k"
    using prunerInv_result [of l g] pruned_walked [OF Some] Some by (simp add: prunerInv_def)
  finally show ?thesis
    using reach_needed [of k l] reach_required [of k l] Some
    by (auto simp: copiedSpec_def) (metis (full_types))+
qed

lemma required_needed: "required l \<subseteq> needed l"
  unfolding required_def
proof (rule reach_least)
  show "set (importersDepPaths Dependencies l) \<union> set (importersDepPaths DevDependencies l) \<subseteq> needed l"
    by (auto simp: needed_def intro!: in_reach_base)
next
  fix n m assume "n \<in> needed l" "m \<in> set (newDependencies (orEmpty (packages l)) n)"
  then show "m \<in> needed l" by (auto simp: needed_def allEdges_def intro: reach_step)
qed

lemma needed_step:
  "d \<in> needed l \<Longrightarrow> e \<in> set (allEdges (orEmpty (packages l)) d) \<Longrightarrow> e \<in> needed l"
  by (auto simp: needed_def intro: reach_step)

lemma pruned_unchanged:
  "fst (pruneSharedLockfile l g) = l\<lparr>packages := packages (fst (pruneSharedLockfile l g))\<rparr>"
  by (simp add: pruneSharedLockfile_def Let_def)

lemma pruned_importersDepPaths: "importersDepPaths f (fst (pruneSharedLockfile l g)) = importersDepPaths f l"
  by (simp add: importersDepPaths_def pruneSharedLockfile_def Let_def)

lemma pruned_edges:
  assumes "d \<in> needed l"
  shows "newDependencies (orEmpty (packages (fst (pruneSharedLockfile l g)))) d =
      newDependencies (orEmpty (packages l)) d"
    and "newOptionalDependencies (orEmpty (packages (fst (pruneSharedLockfile l g)))) d =
      newOptionalDependencies (orEmpty (packages l)) d"
  using pruned_packages [of l g d] assms
  by (cases "map_of (orEmpty (packages l)) d";
      simp add: newDependencies_def newOptionalDependencies_def)+

lemma pruned_needed: "needed (fst (pruneSharedLockfile l g)) = needed l"
  unfolding needed_def pruned_importersDepPaths
  by (rule reach_cong) (simp add: allEdges_def pruned_edges needed_def [symmetric])

lemma pruned_required: "required (fst (pruneSharedLockfile l g)) = required l"
  unfolding required_def pruned_importersDepPaths
proof (rule reach_cong)
  fix n assume "n \<in> reach (newDependencies (orEmpty (packages l)))
    (set (importersDepPaths Dependencies l) \<union> set (importersDepPaths DevDependencies l))"
  then have "n \<in> needed l" using required_needed [of l] by (auto simp: required_def)
  then show "newDependencies (orEmpty (packages (fst (pruneSharedLockfile l g)))) n =
      newDependencies (orEmpty (packages l)) n"
    by (rule pruned_edges)
qed

section \<open>Properties of the pruner\<close>

text \<open>C1. pruneSharedLockfile keeps exactly the packages that some importer reaches, marks as
  optional exactly those that are reached only through an optional dependency of an importer or of a
  package, and changes nothing else of the packages or of the lockfile.\<close>

theorem pruneSharedLockfile_exact:
  "let r = fst (pruneSharedLockfile l g) in
     r\<lparr>packages := packages l\<rparr> = l \<and>
     (\<forall>k. map_of (orEmpty (packages r)) k =
        (if k \<in> needed l
         then map_option (\<lambda>p. p\<lparr>optional := (if k \<in> required l then None else Some True)\<rparr>)
                (map_of (orEmpty (packages l)) k)
         else None))"
proof -
  have "(fst (pruneSharedLockfile l g))\<lparr>packages := packages l\<rparr> = l"
    by (subst pruned_unchanged) simp
  then show ?thesis by (simp add: pruned_packages)
qed

text \<open>Pruning leaves no dangling reference behind: when every dependency path that the importers
  reach has an entry, the same holds of the pruned lockfile. A second pruning changes no package
  entry.\<close>

theorem pruneSharedLockfile_idem:
  "let r = fst (pruneSharedLockfile l g) in
     (needed l \<subseteq> set (keys (orEmpty (packages l))) \<longrightarrow> needed r = set (keys (orEmpty (packages r)))) \<and>
     map_of (orEmpty (packages (fst (pruneSharedLockfile r h)))) = map_of (orEmpty (packages r))"
proof -
  let ?r = "fst (pruneSharedLockfile l g)"
  have "needed ?r = set (keys (orEmpty (packages ?r)))"
    if "needed l \<subseteq> set (keys (orEmpty (packages l)))"
    using that unfolding pruned_needed
    by (auto simp: in_keys_iff pruned_packages simp del: set_map split: if_splits)
  moreover have "map_of (orEmpty (packages (fst (pruneSharedLockfile ?r h)))) k =
      map_of (orEmpty (packages ?r)) k" for k
    unfolding pruned_packages [of ?r h k] pruned_packages [of l g k] pruned_needed pruned_required
    by (cases "map_of (orEmpty (packages l)) k") simp_all
  ultimately show ?thesis by (auto simp: Let_def)
qed

theorem pruneSharedLockfile_idem_witness:
  "let l = emptyLockfile\<lparr>importers := [(''.'', emptyProject\<lparr>prodDeps := Some [(''a'', ''1'')]\<rparr>)],
       packages := Some [(''a@1'', emptyPackage), (''b@1'', emptyPackage)]\<rparr>;
       r = fst (pruneSharedLockfile l None)
   in needed r = set (keys (orEmpty (packages r)))"
proof -
  let ?l = "emptyLockfile\<lparr>importers := [(''.'', emptyProject\<lparr>prodDeps := Some [(''a'', ''1'')]\<rparr>)],
       packages := Some [(''a@1'', emptyPackage), (''b@1'', emptyPackage)]\<rparr>"
  have roots: "(\<Union>f. set (importersDepPaths f ?l)) = {''a@1''}"
    unfolding UN_depField
    by (simp add: importersDepPaths_def emptyProject_def resolvedDepsToDepPaths_def map_filter_simps
        refToRelative_def startsWith_def indexOf_def)
  have "needed ?l \<subseteq> {''a@1''}"
    unfolding needed_def roots
    by (rule reach_least)
      (auto simp: allEdges_def newDependencies_def newOptionalDependencies_def emptyPackage_def
        resolvedDepsToDepPaths_def map_filter_simps)
  then have "needed ?l \<subseteq> set (keys (orEmpty (packages ?l)))" by auto
  with pruneSharedLockfile_idem [of ?l None None] show ?thesis by (simp add: Let_def)
qed

text \<open>The dependencies graph that the resolver passes in is updated consistently: of a node whose
  package has an entry and is reached, \<open>optional\<close> is set to whether the package is optional; no node
  is added or dropped, and the other nodes are left as they are.\<close>

theorem pruneSharedLockfile_graph:
  assumes "packages l = Some pkgs"
  shows "map_of (orEmpty (dependenciesGraph (snd (pruneSharedLockfile l (Some g))))) k =
    (if map_of pkgs k \<noteq> None \<and> k \<in> needed l then map_option (\<lambda>_. Some (k \<notin> required l)) (map_of g k)
     else map_of g k)"
proof -
  let ?W = "reach (nodeStep pkgs) (set (pruneRoots l))"
  have "map_of (orEmpty (dependenciesGraph (snd (pruneSharedLockfile l (Some g))))) k = graphSpec pkgs ?W g k"
    using prunerInv_result [of l "Some g"] pruned_walked [OF assms] assms by (simp add: prunerInv_def)
  moreover have "k \<in> needed l \<longleftrightarrow> (k, False) \<in> ?W \<or> (k, True) \<in> ?W"
    using reach_needed [of k l] assms by (metis (full_types) orEmpty_simps(2))
  ultimately show ?thesis
    using reach_required [of k l] assms by (simp add: graphSpec_def)
qed

theorem pruneSharedLockfile_graph_witness:
  "let l = emptyLockfile\<lparr>importers := [(''.'', emptyProject\<lparr>optDeps := Some [(''a'', ''1'')]\<rparr>)],
       packages := Some [(''a@1'', emptyPackage)]\<rparr>
   in map_of (orEmpty (dependenciesGraph (snd (pruneSharedLockfile l (Some [(''b@1'', None)]))))) ''b@1'' =
     Some None"
  unfolding Let_def
  by (subst pruneSharedLockfile_graph [where pkgs = "[(''a@1'', emptyPackage)]"]) simp_all

section \<open>pruneLockfile\<close>

text \<open>The entries of one importer are first reduced to what its manifest still lists, then the
  packages are pruned. The manifest's own names decide: \<open>allDeps\<close> is a set, so how the code splits
  the names over the three lists before joining them (\<open>difference\<close>) leaves no trace in the result.\<close>

definition manifestDeps :: "manifest \<Rightarrow> str list" where
  "manifestDeps pkg =
     (let optionals = keys (orEmpty (mOptionalDependencies pkg));
          prods = filter (\<lambda>d. d \<notin> set optionals) (keys (orEmpty (mDependencies pkg)));
          devs = filter (\<lambda>d. d \<notin> set prods)
                   (filter (\<lambda>d. d \<notin> set optionals) (keys (orEmpty (mDevDependencies pkg))))
      in uniq (optionals @ devs @ prods))"

record importerParts =
  partSpecifiers :: deps
  partProd :: deps
  partOpt :: deps
  partDev :: deps

definition truthyAt :: "deps option \<Rightarrow> str \<Rightarrow> bool" where
  "truthyAt ds k \<longleftrightarrow> truthy (map_of (orEmpty ds) k)"

text \<open>One turn of \<open>for (const depName in lockfileSpecs)\<close>.\<close>

definition pruneSpecifier :: "projectSnapshot \<Rightarrow> str list \<Rightarrow> str \<times> str \<Rightarrow> importerParts \<Rightarrow> importerParts" where
  "pruneSpecifier importer allDeps spec acc =
     (case spec of (depName, pref) \<Rightarrow>
        if depName \<notin> set allDeps then acc
        else let acc = acc\<lparr>partSpecifiers := jset depName pref (partSpecifiers acc)\<rparr> in
          if truthyAt (prodDeps importer) depName
          then acc\<lparr>partProd := jset depName (the (map_of (orEmpty (prodDeps importer)) depName)) (partProd acc)\<rparr>
          else if truthyAt (optDeps importer) depName
          then acc\<lparr>partOpt := jset depName (the (map_of (orEmpty (optDeps importer)) depName)) (partOpt acc)\<rparr>
          else if truthyAt (devDeps importer) depName
          then acc\<lparr>partDev := jset depName (the (map_of (orEmpty (devDeps importer)) depName)) (partDev acc)\<rparr>
          else acc)"

text \<open>One turn of the loop over \<open>importer.dependencies\<close>, which keeps linked dependencies.\<close>

definition keepLink :: "deps \<Rightarrow> str list \<Rightarrow> str \<times> str \<Rightarrow> importerParts \<Rightarrow> importerParts" where
  "keepLink lockfileSpecs allDeps entry acc =
     (case entry of (alias, dep) \<Rightarrow>
        if \<not> truthy (map_of (partProd acc) alias) \<and> startsWith dep ''link:'' \<and>
           \<not> (truthy (map_of lockfileSpecs alias) \<and> alias \<notin> set allDeps)
        then acc\<lparr>partProd := jset alias dep (partProd acc)\<rparr>
        else acc)"

definition pruneImporter :: "projectSnapshot \<Rightarrow> manifest \<Rightarrow> importerParts" where
  "pruneImporter importer pkg =
     (let allDeps = manifestDeps pkg;
          lockfileSpecs = specifiers importer
      in fold (keepLink lockfileSpecs allDeps) (orEmpty (prodDeps importer))
           (fold (pruneSpecifier importer allDeps) lockfileSpecs
             \<lparr>partSpecifiers = [], partProd = [], partOpt = [], partDev = []\<rparr>))"

definition someNonEmpty :: "('k \<times> 'v) list \<Rightarrow> ('k \<times> 'v) list option" where
  "someNonEmpty m = (if m = [] then None else Some m)"

definition pruneLockfile ::
    "lockfileObject \<Rightarrow> manifest \<Rightarrow> projectId \<Rightarrow> bool option obj option \<Rightarrow>
     js_error + lockfileObject \<times> prunerCtx" where
  "pruneLockfile lockfile pkg importerId graph =
     (case map_of (importers lockfile) importerId of
        None \<Rightarrow> Inl (TypeError ''importer.specifiers'')
      | Some importer \<Rightarrow>
          let parts = pruneImporter importer pkg;
              updatedImporter = emptyProject\<lparr>specifiers := partSpecifiers parts,
                prodDeps := someNonEmpty (partProd parts), optDeps := someNonEmpty (partOpt parts),
                devDeps := someNonEmpty (partDev parts)\<rparr>;
              prunedLockfile = emptyLockfile\<lparr>
                importers := jset importerId updatedImporter (importers lockfile),
                lockfileVersion := (if lockfileVersion lockfile \<noteq> [] then lockfileVersion lockfile
                                    else LOCKFILE_VERSION),
                packages := packages lockfile,
                pnpmfileChecksum := (if truthy (pnpmfileChecksum lockfile) then pnpmfileChecksum lockfile else None),
                ignoredOptionalDependencies :=
                  (case ignoredOptionalDependencies lockfile of
                     None \<Rightarrow> None | Some ds \<Rightarrow> if ds = [] then None else Some ds)\<rparr>
          in Inr (pruneSharedLockfile prunedLockfile graph))"

lemma set_manifestDeps:
  "set (manifestDeps pkg) = set (keys (orEmpty (mOptionalDependencies pkg))) \<union>
     set (keys (orEmpty (mDevDependencies pkg))) \<union> set (keys (orEmpty (mDependencies pkg)))"
  by (auto simp: manifestDeps_def Let_def simp del: set_map)

definition importerPartsOk :: "projectSnapshot \<Rightarrow> str list \<Rightarrow> deps \<Rightarrow> importerParts \<Rightarrow> bool" where
  "importerPartsOk importer allDeps dn acc \<longleftrightarrow>
     (\<forall>k. map_of (partSpecifiers acc) k = (if k \<in> set allDeps then map_of dn k else None)) \<and>
     (\<forall>k. map_of (partProd acc) k = (if k \<in> set allDeps \<and> k \<in> set (keys dn) \<and>
        truthyAt (prodDeps importer) k then map_of (orEmpty (prodDeps importer)) k else None)) \<and>
     (\<forall>k. map_of (partOpt acc) k = (if k \<in> set allDeps \<and> k \<in> set (keys dn) \<and>
        \<not> truthyAt (prodDeps importer) k \<and> truthyAt (optDeps importer) k
        then map_of (orEmpty (optDeps importer)) k else None)) \<and>
     (\<forall>k. map_of (partDev acc) k = (if k \<in> set allDeps \<and> k \<in> set (keys dn) \<and>
        \<not> truthyAt (prodDeps importer) k \<and> \<not> truthyAt (optDeps importer) k \<and>
        truthyAt (devDeps importer) k then map_of (orEmpty (devDeps importer)) k else None))"

lemma truthyAt_some: "truthyAt ds k \<Longrightarrow> map_of (orEmpty ds) k = Some (the (map_of (orEmpty ds) k))"
  by (cases "map_of (orEmpty ds) k") (simp_all add: truthyAt_def)

lemma pruneSpecifier_step:
  assumes "importerPartsOk importer allDeps dn acc" "d \<notin> set (keys dn)"
  shows "importerPartsOk importer allDeps ((d, v) # dn) (pruneSpecifier importer allDeps (d, v) acc)"
proof -
  have none: "map_of dn d = None" using assms(2) by (simp add: map_of_eq_None_iff)
  show ?thesis
  proof (cases "d \<in> set allDeps")
    case False
    then show ?thesis using assms(1) by (auto simp: importerPartsOk_def pruneSpecifier_def)
  next
    case True
    then show ?thesis
      using assms none
      by (simp add: importerPartsOk_def pruneSpecifier_def Let_def alist.get_put del: set_map)
        (auto simp: truthyAt_some [symmetric])
  qed
qed

lemma importerPartsOk_cong:
  "map_of dn = map_of dn' \<Longrightarrow> importerPartsOk i a dn acc = importerPartsOk i a dn' acc"
  by (simp add: importerPartsOk_def in_keys_iff del: set_map)

lemma pruneSpecifier_fold:
  "distinct (keys (dn @ specs)) \<Longrightarrow> importerPartsOk importer allDeps dn acc \<Longrightarrow>
   importerPartsOk importer allDeps (dn @ specs) (fold (pruneSpecifier importer allDeps) specs acc)"
proof (induction specs arbitrary: dn acc)
  case (Cons s specs)
  obtain d v where s: "s = (d, v)" by (cases s)
  have d: "d \<notin> set (keys dn)" using Cons.prems(1) s by (auto simp del: set_map)
  have "map_of ((d, v) # dn) = map_of (dn @ [(d, v)])"
    using d by (auto simp: fun_eq_iff map_add_def in_keys_iff simp del: set_map split: option.splits)
  then have "importerPartsOk importer allDeps (dn @ [s]) (pruneSpecifier importer allDeps s acc)"
    using pruneSpecifier_step [OF Cons.prems(2) d, of v] importerPartsOk_cong s by blast
  from Cons.IH [OF _ this] Cons.prems(1) show ?case by simp
qed simp

lemma keepLink_fold:
  "map_of (partProd (fold (keepLink specs allDeps) es acc)) k =
     (if truthy (map_of (partProd acc) k) then map_of (partProd acc) k
      else if \<exists>v. (k, v) \<in> set es \<and> startsWith v ''link:'' \<and> \<not> (truthy (map_of specs k) \<and> k \<notin> set allDeps)
      then map_of (filter (\<lambda>(k, v). startsWith v ''link:'') es) k
      else map_of (partProd acc) k) \<and>
   partSpecifiers (fold (keepLink specs allDeps) es acc) = partSpecifiers acc \<and>
   partOpt (fold (keepLink specs allDeps) es acc) = partOpt acc \<and>
   partDev (fold (keepLink specs allDeps) es acc) = partDev acc"
proof (induction es arbitrary: acc)
  case (Cons e es)
  obtain a v where e: "e = (a, v)" by (cases e)
  have "startsWith v ''link:'' \<Longrightarrow> v \<noteq> []" by auto
  with Cons.IH [of "keepLink specs allDeps e acc"] show ?case
    by (auto simp: e keepLink_def alist.get_put)
qed simp

lemma orEmpty_someNonEmpty [simp]: "orEmpty (someNonEmpty m) = m"
  by (simp add: someNonEmpty_def)

lemma map_of_filter_distinct:
  "distinct (keys m) \<Longrightarrow> map_of (filter (\<lambda>(k, v). P v) m) k =
     (case map_of m k of None \<Rightarrow> None | Some v \<Rightarrow> if P v then Some v else None)"
  by (induction m) (auto simp: map_of_eq_None_iff image_iff split: option.splits)

text \<open>A production dependency stays when the manifest lists it, or when it is a link that the
  manifest did not drop.\<close>

definition keepsProd :: "projectSnapshot \<Rightarrow> str list \<Rightarrow> str \<Rightarrow> str \<Rightarrow> bool" where
  "keepsProd importer allDeps k v \<longleftrightarrow> v \<noteq> [] \<and>
     (k \<in> set allDeps \<and> k \<in> set (keys (specifiers importer)) \<or>
      startsWith v ''link:'' \<and> \<not> (truthy (map_of (specifiers importer) k) \<and> k \<notin> set allDeps))"

lemma pruneImporter_parts:
  assumes "distinct (keys (specifiers importer))"
  shows "\<exists>f. importerPartsOk importer (manifestDeps pkg) (specifiers importer) f \<and>
    pruneImporter importer pkg =
      fold (keepLink (specifiers importer) (manifestDeps pkg)) (orEmpty (prodDeps importer)) f"
proof -
  let ?e = "\<lparr>partSpecifiers = [], partProd = [], partOpt = [], partDev = []\<rparr>"
  let ?f = "fold (pruneSpecifier importer (manifestDeps pkg)) (specifiers importer) ?e"
  have "importerPartsOk importer (manifestDeps pkg) ([] @ specifiers importer) ?f"
    by (rule pruneSpecifier_fold) (use assms in \<open>simp_all add: importerPartsOk_def\<close>)
  then show ?thesis by (intro exI [of _ ?f]) (simp add: pruneImporter_def Let_def)
qed

lemma keepLink_prod:
  assumes "importerPartsOk importer all (specifiers importer) f" "distinct (keys (orEmpty (prodDeps importer)))"
  shows "map_of (partProd (fold (keepLink (specifiers importer) all) (orEmpty (prodDeps importer)) f)) k =
    (case map_of (orEmpty (prodDeps importer)) k of None \<Rightarrow> None
      | Some v \<Rightarrow> if keepsProd importer all k v then Some v else None)"
proof -
  let ?ds = "orEmpty (prodDeps importer)"
  have f: "map_of (partProd f) k = (if k \<in> set all \<and> k \<in> set (keys (specifiers importer)) \<and>
      truthyAt (prodDeps importer) k then map_of ?ds k else None)"
    using assms(1) unfolding importerPartsOk_def by (rule conjE) simp
  have m: "(k, v) \<in> set ?ds \<longleftrightarrow> map_of ?ds k = Some v" for v using assms(2) by simp
  show ?thesis
    unfolding keepLink_fold [THEN conjunct1] map_of_filter_distinct [OF assms(2)] m
  proof (cases "map_of ?ds k")
    case None
    then show "(if truthy (map_of (partProd f) k) then map_of (partProd f) k
        else if \<exists>v. map_of ?ds k = Some v \<and> startsWith v ''link:'' \<and>
          \<not> (truthy (map_of (specifiers importer) k) \<and> k \<notin> set all)
        then case map_of ?ds k of None \<Rightarrow> None | Some v \<Rightarrow> if startsWith v ''link:'' then Some v else None
        else map_of (partProd f) k) =
      (case map_of ?ds k of None \<Rightarrow> None | Some v \<Rightarrow> if keepsProd importer all k v then Some v else None)"
      by (simp add: f)
  next
    case (Some v)
    have "truthyAt (prodDeps importer) k \<longleftrightarrow> v \<noteq> []" using Some by (simp add: truthyAt_def)
    then show "(if truthy (map_of (partProd f) k) then map_of (partProd f) k
        else if \<exists>v. map_of ?ds k = Some v \<and> startsWith v ''link:'' \<and>
          \<not> (truthy (map_of (specifiers importer) k) \<and> k \<notin> set all)
        then case map_of ?ds k of None \<Rightarrow> None | Some v \<Rightarrow> if startsWith v ''link:'' then Some v else None
        else map_of (partProd f) k) =
      (case map_of ?ds k of None \<Rightarrow> None | Some v \<Rightarrow> if keepsProd importer all k v then Some v else None)"
      unfolding f Some by (cases "v = []") (simp_all add: keepsProd_def del: set_map)
  qed
qed

lemma pruneImporter_spec:
  assumes "distinct (keys (specifiers importer))" "distinct (keys (orEmpty (prodDeps importer)))"
  and all: "all = manifestDeps pkg" and res: "r = pruneImporter importer pkg"
  shows "map_of (partSpecifiers r) k = (if k \<in> set all then map_of (specifiers importer) k else None)"
    and "map_of (partProd r) k = (case map_of (orEmpty (prodDeps importer)) k of None \<Rightarrow> None
      | Some v \<Rightarrow> if keepsProd importer all k v then Some v else None)"
    and "map_of (partOpt r) k = (if k \<in> set all \<and> k \<in> set (keys (specifiers importer)) \<and>
      \<not> truthyAt (prodDeps importer) k \<and> truthyAt (optDeps importer) k
      then map_of (orEmpty (optDeps importer)) k else None)"
    and "map_of (partDev r) k = (if k \<in> set all \<and> k \<in> set (keys (specifiers importer)) \<and>
      \<not> truthyAt (prodDeps importer) k \<and> \<not> truthyAt (optDeps importer) k \<and>
      truthyAt (devDeps importer) k then map_of (orEmpty (devDeps importer)) k else None)"
proof -
  obtain f where f: "importerPartsOk importer all (specifiers importer) f"
    and r: "r = fold (keepLink (specifiers importer) all) (orEmpty (prodDeps importer)) f"
    using pruneImporter_parts [OF assms(1)] unfolding all res by blast
  note k = keepLink_fold [of "specifiers importer" all "orEmpty (prodDeps importer)" f k, folded r, THEN conjunct2]
  note ok = f [unfolded importerPartsOk_def]
  show "map_of (partSpecifiers r) k = (if k \<in> set all then map_of (specifiers importer) k else None)"
    unfolding k [THEN conjunct1] by (rule spec [OF conjunct1 [OF ok]])
  show "map_of (partOpt r) k = (if k \<in> set all \<and> k \<in> set (keys (specifiers importer)) \<and>
      \<not> truthyAt (prodDeps importer) k \<and> truthyAt (optDeps importer) k
      then map_of (orEmpty (optDeps importer)) k else None)"
    unfolding k [THEN conjunct2, THEN conjunct1] by (rule spec [OF conjunct1 [OF conjunct2 [OF conjunct2 [OF ok]]]])
  show "map_of (partDev r) k = (if k \<in> set all \<and> k \<in> set (keys (specifiers importer)) \<and>
      \<not> truthyAt (prodDeps importer) k \<and> \<not> truthyAt (optDeps importer) k \<and>
      truthyAt (devDeps importer) k then map_of (orEmpty (devDeps importer)) k else None)"
    unfolding k [THEN conjunct2, THEN conjunct2] by (rule spec [OF conjunct2 [OF conjunct2 [OF conjunct2 [OF ok]]]])
  show "map_of (partProd r) k = (case map_of (orEmpty (prodDeps importer)) k of None \<Rightarrow> None
      | Some v \<Rightarrow> if keepsProd importer all k v then Some v else None)"
    unfolding r by (rule keepLink_prod [OF f assms(2)])
qed

lemma pruneLockfile_importers:
  assumes "map_of (importers l) i = Some importer"
    and parts_def: "parts = pruneImporter importer pkg"
  shows "\<exists>r ctx. pruneLockfile l pkg i g = Inr (r, ctx) \<and>
    importers r = jset i (emptyProject\<lparr>specifiers := partSpecifiers parts,
      prodDeps := someNonEmpty (partProd parts), optDeps := someNonEmpty (partOpt parts),
      devDeps := someNonEmpty (partDev parts)\<rparr>) (importers l)"
  using assms(1) by (simp add: pruneLockfile_def Let_def pruneSharedLockfile_def parts_def)

lemma pruneImporter_optdev:
  assumes "distinct (keys (specifiers importer))" "distinct (keys (orEmpty (prodDeps importer)))"
    and "k \<in> set (keys (partOpt (pruneImporter importer pkg))) \<or>
      k \<in> set (keys (partDev (pruneImporter importer pkg)))"
  shows "k \<in> set (manifestDeps pkg) \<and> k \<in> set (keys (partSpecifiers (pruneImporter importer pkg))) \<and>
    \<not> truthyAt (prodDeps importer) k"
proof -
  note spec = pruneImporter_spec [OF assms(1,2) refl refl, of pkg k]
  have "k \<in> set (manifestDeps pkg) \<and> k \<in> set (keys (specifiers importer)) \<and> \<not> truthyAt (prodDeps importer) k"
    using assms(3) spec(3,4) unfolding in_keys_iff by (metis (full_types))
  then show ?thesis using spec(1) unfolding in_keys_iff by simp
qed



end
