(* ===== verification/DetectDepTypes.thy ===== *)
theory DetectDepTypes
  imports LockfileTypes GraphWalk
begin

text \<open>
  lockfile/detect-dep-types/src/index.ts: which packages of a lockfile are needed in production,
  which only in development. The packages are walked twice, from the development dependencies of
  all importers and then from the others; a \<open>walked\<close> key \<open>depPath:true\<close> is a pair. Each of the two
  walks is an instance of \<open>seen_walk\<close>, and the classification is proved against reachability.
\<close>

datatype depType = DevOnly | DevAndProd | ProdOnly

record detectCtx =
  notProdOnly :: "depPath list"
  dWalked :: "(depPath \<times> bool) list"
  devTypes :: "depType obj"

definition classify :: "depPath \<Rightarrow> bool \<Rightarrow> detectCtx \<Rightarrow> detectCtx" where
  "classify depPath dev ctx =
     (if dev then ctx\<lparr>notProdOnly := sadd depPath (notProdOnly ctx),
                      devTypes := jset depPath DevOnly (devTypes ctx)\<rparr>
      else if map_of (devTypes ctx) depPath = Some DevOnly
      then ctx\<lparr>devTypes := jset depPath DevAndProd (devTypes ctx)\<rparr>
      else if map_of (devTypes ctx) depPath = None \<and> depPath \<notin> set (notProdOnly ctx)
      then ctx\<lparr>devTypes := jset depPath ProdOnly (devTypes ctx)\<rparr>
      else ctx)"

text \<open>A key met for the first time, apart from the recursive calls.\<close>

definition visitDep :: "packageSnapshots \<Rightarrow> bool \<Rightarrow> depPath \<Rightarrow> detectCtx \<Rightarrow> detectCtx" where
  "visitDep pkgs dev depPath ctx =
     (let ctx' = ctx\<lparr>dWalked := sadd (depPath, dev) (dWalked ctx)\<rparr>
      in if map_of pkgs depPath = None then ctx' else classify depPath dev ctx')"

lemma dWalked_classify [simp]: "dWalked (classify d b ctx) = dWalked ctx"
  by (simp add: classify_def)

lemma dWalked_visitDep [simp]: "set (dWalked (visitDep pkgs b d ctx)) = insert (d, b) (set (dWalked ctx))"
  by (simp add: visitDep_def Let_def)

function detectDepTypesInSubGraph ::
    "packageSnapshots \<Rightarrow> depPath list \<Rightarrow> bool \<Rightarrow> detectCtx \<Rightarrow> detectCtx" where
  "detectDepTypesInSubGraph pkgs [] dev ctx = ctx"
| "detectDepTypesInSubGraph pkgs (depPath # depPaths) dev ctx =
     (if (depPath, dev) \<in> set (dWalked ctx)
      then detectDepTypesInSubGraph pkgs depPaths dev ctx
      else let ctx1 = visitDep pkgs dev depPath ctx in
        if map_of pkgs depPath = None
        then detectDepTypesInSubGraph pkgs depPaths dev ctx1
        else let ctx2 = detectDepTypesInSubGraph pkgs (newDependencies pkgs depPath) dev ctx1;
                 ctx3 = detectDepTypesInSubGraph pkgs (newOptionalDependencies pkgs depPath) dev ctx2
             in detectDepTypesInSubGraph pkgs depPaths dev ctx3)"
  by pat_completeness auto

lemma detectDepTypesInSubGraph_walked_dom:
  "detectDepTypesInSubGraph_dom (pkgs, ds, b, ctx) \<Longrightarrow>
     set (dWalked ctx) \<subseteq> set (dWalked (detectDepTypesInSubGraph pkgs ds b ctx))"
proof (induction rule: detectDepTypesInSubGraph.pinduct)
  case (1 pkgs b ctx)
  then show ?case by (simp add: detectDepTypesInSubGraph.psimps)
next
  case (2 pkgs d ds b ctx)
  show ?case
  proof (cases "(d, b) \<in> set (dWalked ctx)")
    case True
    then show ?thesis using 2 by (simp add: detectDepTypesInSubGraph.psimps)
  next
    case False
    show ?thesis
    proof (cases "map_of pkgs d = None")
      case True
      then show ?thesis using 2 False by (simp add: detectDepTypesInSubGraph.psimps)
    next
      case p: False
      have "set (dWalked ctx) \<subseteq> set (dWalked (visitDep pkgs b d ctx))" by auto
      also note 2(4) [OF False refl p]
      also note 2(5) [OF False refl p refl]
      also note 2(6) [OF False refl p refl refl]
      finally show ?thesis
        using 2(1) False by (simp only: detectDepTypesInSubGraph.psimps p if_False Let_def)
    qed
  qed
qed

definition unseenKeys :: "packageSnapshots \<Rightarrow> detectCtx \<Rightarrow> nat" where
  "unseenKeys pkgs ctx = card (set (keys pkgs) \<times> UNIV - set (dWalked ctx))"

lemma unseenKeys_le: "set (dWalked c) \<subseteq> set (dWalked d) \<Longrightarrow> unseenKeys pkgs d \<le> unseenKeys pkgs c"
  unfolding unseenKeys_def by (rule unseen_le) simp_all

lemma unseenKeys_less:
  assumes "map_of pkgs p \<noteq> None" "(p, b) \<notin> set (dWalked c)"
    and "insert (p, b) (set (dWalked c)) \<subseteq> set (dWalked d)"
  shows "unseenKeys pkgs d < unseenKeys pkgs c"
  unfolding unseenKeys_def
  by (rule unseen_less [of _ "(p, b)"]) (use assms in \<open>auto simp: in_keys_iff simp del: set_map\<close>)

termination detectDepTypesInSubGraph
proof (relation "inv_image (less_than <*lex*> less_than)
    (\<lambda>(pkgs, ds, b, ctx). (unseenKeys pkgs ctx, length ds))", goal_cases)
  case 1
  show ?case by (simp add: wf_lex_prod)
next
  case (2 pkgs d ds b ctx)
  then show ?case by simp
next
  case (3 pkgs d ds b ctx ctx1)
  then have "unseenKeys pkgs ctx1 \<le> unseenKeys pkgs ctx" by (intro unseenKeys_le) auto
  then show ?case by auto
next
  case (4 pkgs d ds b ctx ctx1)
  then have "unseenKeys pkgs ctx1 < unseenKeys pkgs ctx" by (intro unseenKeys_less) auto
  then show ?case by simp
next
  case (5 pkgs d ds b ctx ctx1 ctx2)
  then have "set (dWalked ctx1) \<subseteq> set (dWalked ctx2)"
    using detectDepTypesInSubGraph_walked_dom by blast
  with 5 have "unseenKeys pkgs ctx2 < unseenKeys pkgs ctx" by (intro unseenKeys_less) auto
  then show ?case by simp
next
  case (6 pkgs d ds b ctx ctx1 ctx2 ctx3)
  then have "set (dWalked ctx1) \<subseteq> set (dWalked ctx2)" "set (dWalked ctx2) \<subseteq> set (dWalked ctx3)"
    using detectDepTypesInSubGraph_walked_dom by blast+
  with 6 have "unseenKeys pkgs ctx3 < unseenKeys pkgs ctx" by (intro unseenKeys_less) auto
  then show ?case by simp
qed

definition detectDepTypes :: "lockfileObject \<Rightarrow> depType obj" where
  "detectDepTypes lockfile =
     (let pkgs = orEmpty (packages lockfile);
          ctx0 = \<lparr>notProdOnly = [], dWalked = [], devTypes = []\<rparr>;
          ctx1 = detectDepTypesInSubGraph pkgs (importersDepPaths DevDependencies lockfile) True ctx0;
          ctx2 = detectDepTypesInSubGraph pkgs (importersDepPaths OptionalDependencies lockfile) False ctx1;
          ctx3 = detectDepTypesInSubGraph pkgs (importersDepPaths Dependencies lockfile) False ctx2
      in devTypes ctx3)"

section \<open>The walk\<close>

lemma detectDepTypesInSubGraph_append:
  "detectDepTypesInSubGraph pkgs (ds @ es) b ctx =
     detectDepTypesInSubGraph pkgs es b (detectDepTypesInSubGraph pkgs ds b ctx)"
proof (induction ds arbitrary: ctx)
  case (Cons d ds)
  then show ?case by (simp add: Let_def)
qed simp

interpretation detectWalk: seen_walk "allEdges pkgs" "set (keys pkgs)"
  "\<lambda>ctx. {d. (d, b) \<in> set (dWalked ctx)}" "visitDep pkgs b"
  "\<lambda>ds. detectDepTypesInSubGraph pkgs ds b" for pkgs b
proof (unfold_locales, goal_cases)
  case (2 n)
  then have "map_of pkgs n = None" by (simp add: in_keys_iff del: set_map)
  then show ?case by (simp add: allEdges_def)
next
  case (3 n s)
  show ?case by auto
next
  case (6 n s ns)
  then show ?case
    by (cases "map_of pkgs n") (simp_all add: allEdges_def Let_def detectDepTypesInSubGraph_append)
qed simp_all

definition detectInv :: "packageSnapshots \<Rightarrow> depPath set \<Rightarrow> detectCtx \<Rightarrow> bool" where
  "detectInv pkgs D ctx \<longleftrightarrow>
     {d. (d, True) \<in> set (dWalked ctx)} = D \<and> set (notProdOnly ctx) = D \<inter> set (keys pkgs) \<and>
     (\<forall>k. map_of (devTypes ctx) k =
        (if k \<notin> set (keys pkgs) then None
         else if k \<in> D then Some (if (k, False) \<in> set (dWalked ctx) then DevAndProd else DevOnly)
         else if (k, False) \<in> set (dWalked ctx) then Some ProdOnly else None))"

lemma detectInv_dev:
  assumes "detectInv pkgs D ctx" "\<forall>d. (d, False) \<notin> set (dWalked ctx)"
  shows "detectInv pkgs (insert d D) (visitDep pkgs True d ctx) \<and>
    (\<forall>d'. (d', False) \<notin> set (dWalked (visitDep pkgs True d ctx)))"
proof (cases "map_of pkgs d = None")
  case True
  then have "d \<notin> set (keys pkgs)" by (simp add: in_keys_iff del: set_map)
  with assms True show ?thesis
    by (auto simp: detectInv_def visitDep_def Let_def simp del: set_map)
next
  case False
  then have "d \<in> set (keys pkgs)" by (simp add: in_keys_iff del: set_map)
  with assms False show ?thesis
    by (auto simp: detectInv_def visitDep_def classify_def Let_def alist.get_put simp del: set_map)
qed

lemma detectInv_prod:
  assumes "detectInv pkgs D ctx" "(d, False) \<notin> set (dWalked ctx)"
  shows "detectInv pkgs D (visitDep pkgs False d ctx)"
proof (cases "map_of pkgs d = None")
  case True
  then have "d \<notin> set (keys pkgs)" by (simp add: in_keys_iff del: set_map)
  with assms True show ?thesis
    by (auto simp: detectInv_def visitDep_def Let_def simp del: set_map)
next
  case False
  then have "d \<in> set (keys pkgs)" by (simp add: in_keys_iff del: set_map)
  with assms False show ?thesis
    by (auto simp: detectInv_def visitDep_def classify_def Let_def alist.get_put simp del: set_map)
qed

text \<open>The packages reached from development dependencies, and those reached from the others.\<close>

definition devReach :: "lockfileObject \<Rightarrow> depPath set" where
  "devReach l = reach (allEdges (orEmpty (packages l))) (set (importersDepPaths DevDependencies l))"

definition prodReach :: "lockfileObject \<Rightarrow> depPath set" where
  "prodReach l = reach (allEdges (orEmpty (packages l)))
     (set (importersDepPaths OptionalDependencies l) \<union> set (importersDepPaths Dependencies l))"

lemma detectDepTypes_spec:
  "map_of (detectDepTypes l) k =
    (if k \<notin> set (keys (orEmpty (packages l))) then None
     else if k \<in> devReach l then Some (if k \<in> prodReach l then DevAndProd else DevOnly)
     else if k \<in> prodReach l then Some ProdOnly else None)"
proof -
  let ?p = "orEmpty (packages l)"
  define ctx1 where "ctx1 = detectDepTypesInSubGraph ?p (importersDepPaths DevDependencies l) True
    \<lparr>notProdOnly = [], dWalked = [], devTypes = []\<rparr>"
  define ctx3 where "ctx3 = detectDepTypesInSubGraph ?p
    (importersDepPaths OptionalDependencies l @ importersDepPaths Dependencies l) False ctx1"
  let ?I = "\<lambda>ctx. detectInv ?p {d. (d, True) \<in> set (dWalked ctx)} ctx \<and>
      (\<forall>d. (d, False) \<notin> set (dWalked ctx))"
  have "?I ctx1"
    unfolding ctx1_def
  proof (rule detectWalk.run_invariant [where I = ?I])
    fix n s assume "?I s"
    moreover have "{d. (d, True) \<in> set (dWalked (visitDep ?p True n s))} =
        insert n {d. (d, True) \<in> set (dWalked s)}" by auto
    ultimately show "?I (visitDep ?p True n s)"
      using detectInv_dev [of ?p "{d. (d, True) \<in> set (dWalked s)}" s n] by simp
  qed (auto simp: detectInv_def)
  moreover have d1: "{d. (d, True) \<in> set (dWalked ctx1)} = devReach l"
    unfolding ctx1_def devReach_def by (rule detectWalk.run_complete_empty) simp
  ultimately have I1: "detectInv ?p (devReach l) ctx1" "\<forall>d. (d, False) \<notin> set (dWalked ctx1)" by auto
  have "detectInv ?p (devReach l) ctx3"
    unfolding ctx3_def
    by (rule detectWalk.run_invariant [where I = "detectInv ?p (devReach l)"])
      (use I1 detectInv_prod in auto)
  moreover have "{d. (d, False) \<in> set (dWalked ctx3)} = prodReach l"
    unfolding ctx3_def prodReach_def set_append [symmetric]
    by (rule detectWalk.run_complete_empty) (use I1 in simp)
  moreover have "detectDepTypes l = devTypes ctx3"
    by (simp add: detectDepTypes_def ctx1_def ctx3_def Let_def detectDepTypesInSubGraph_append)
  ultimately show ?thesis by (auto simp: detectInv_def set_eq_iff simp del: set_map)
qed

text \<open>C13. detectDepTypes classifies each package of the lockfile by the importers' blocks that reach
  it over dependencies and optional dependencies: \<open>DevOnly\<close> when only development dependencies do,
  \<open>ProdOnly\<close> when only the others do, \<open>DevAndProd\<close> when both do, and no entry when none does.\<close>

theorem detectDepTypes_exact:
  "map_of (detectDepTypes l) k = Some t \<longleftrightarrow>
    k \<in> set (keys (orEmpty (packages l))) \<and>
    t = (if k \<in> devReach l then if k \<in> prodReach l then DevAndProd else DevOnly else ProdOnly) \<and>
    k \<in> devReach l \<union> prodReach l"
  unfolding detectDepTypes_spec by auto

end
