(* ===== verification/LockfileWalker.thy ===== *)
theory LockfileWalker
  imports LockfileTypes GraphWalk
begin

text \<open>
  lockfile/walker/src/index.ts. A step of the walker marks a list of dependency paths and sorts the
  new ones into packages, links and missing entries. The closure \<open>next\<close> of a package is called by the
  client of the walker, when it chooses to; the model keeps the package's snapshot in its place and
  \<open>nextStep\<close> is what calling the closure does. The set \<open>walked\<close> is shared by all the closures of one
  walker, so it is threaded through the calls in the order in which the client makes them.
\<close>

record lockedDependency =
  ldDepPath :: depPath
  ldSnapshot :: packageSnapshot

record walkerStep =
  stepDependencies :: "lockedDependency list"
  stepLinks :: "str list"
  stepMissing :: "str list"

definition emptyStep :: walkerStep where
  "emptyStep = \<lparr>stepDependencies = [], stepLinks = [], stepMissing = []\<rparr>"

text \<open>The loop of \<open>step\<close>; \<open>pkgs\<close> is \<open>ctx.lockfile.packages\<close>, empty when the lockfile has none.\<close>

fun walkStepLoop ::
    "packageSnapshots \<Rightarrow> depPath list \<Rightarrow> walkerStep \<Rightarrow> depPath list \<Rightarrow> walkerStep \<times> depPath list" where
  "walkStepLoop pkgs [] result walked = (result, walked)"
| "walkStepLoop pkgs (depPath # nextDepPaths) result walked =
     (if depPath \<in> set walked then walkStepLoop pkgs nextDepPaths result walked
      else let walked' = sadd depPath walked in
        case map_of pkgs depPath of
          None \<Rightarrow>
            if startsWith depPath ''link:''
            then walkStepLoop pkgs nextDepPaths (result\<lparr>stepLinks := stepLinks result @ [depPath]\<rparr>) walked'
            else walkStepLoop pkgs nextDepPaths (result\<lparr>stepMissing := stepMissing result @ [depPath]\<rparr>) walked'
        | Some pkgSnapshot \<Rightarrow>
            walkStepLoop pkgs nextDepPaths
              (result\<lparr>stepDependencies := stepDependencies result @
                 [\<lparr>ldDepPath = depPath, ldSnapshot = pkgSnapshot\<rparr>]\<rparr>) walked')"

definition walkStep :: "packageSnapshots \<Rightarrow> depPath list \<Rightarrow> depPath list \<Rightarrow> walkerStep \<times> depPath list" where
  "walkStep pkgs nextDepPaths walked = walkStepLoop pkgs nextDepPaths emptyStep walked"

text \<open>The function \<open>next\<close>, and the closure of a locked dependency.\<close>

definition nextDepPaths :: "bool \<Rightarrow> packageSnapshot \<Rightarrow> depPath list" where
  "nextDepPaths includeOptionalDependencies nextPkg =
     resolvedDepsToDepPaths
       (spread (orEmpty (dependencies nextPkg))
         (if includeOptionalDependencies then orEmpty (optionalDependencies nextPkg) else []))"

definition nextStep ::
    "packageSnapshots \<Rightarrow> bool \<Rightarrow> lockedDependency \<Rightarrow> depPath list \<Rightarrow> walkerStep \<times> depPath list" where
  "nextStep pkgs includeOptionalDependencies dep walked =
     walkStep pkgs (nextDepPaths includeOptionalDependencies (ldSnapshot dep)) walked"

text \<open>\<open>opts?.include?.x === false ? {} : projectSnapshot.x\<close>, where an excluded block is not read; an
  importer that the lockfile does not have makes the first block that is read throw.\<close>

definition included :: "(includeDeps \<Rightarrow> bool) \<Rightarrow> includeDeps option \<Rightarrow> bool" where
  "included f include = (case include of None \<Rightarrow> True | Some i \<Rightarrow> f i)"

definition projectEntries :: "includeDeps option \<Rightarrow> projectSnapshot \<Rightarrow> deps" where
  "projectEntries include projectSnapshot =
     spread (spread (if included incDevDependencies include then orEmpty (devDeps projectSnapshot) else [])
       (if included incDependencies include then orEmpty (prodDeps projectSnapshot) else []))
       (if included incOptionalDependencies include then orEmpty (optDeps projectSnapshot) else [])"

definition importerEntries :: "includeDeps option \<Rightarrow> projectSnapshot option \<Rightarrow> js_error + deps" where
  "importerEntries include importer =
     (case importer of
        None \<Rightarrow>
          if included incDevDependencies include \<or> included incDependencies include \<or>
             included incOptionalDependencies include
          then Inl (TypeError ''projectSnapshot'') else Inr []
      | Some projectSnapshot \<Rightarrow> Inr (projectEntries include projectSnapshot))"

definition directDepsOf :: "deps \<Rightarrow> (str \<times> depPath) list" where
  "directDepsOf entries =
     List.map_filter (\<lambda>(pkgName, reference).
       map_option (Pair pkgName) (refToRelative reference pkgName)) entries"

record lockfileWalkerResult =
  directDeps :: "(str \<times> depPath) list"
  walkerFirstStep :: walkerStep
  walkedAfter :: "depPath list"

definition lockfileWalker ::
    "lockfileObject \<Rightarrow> projectId list \<Rightarrow> includeDeps option \<Rightarrow> depPath list \<Rightarrow>
     js_error + lockfileWalkerResult" where
  "lockfileWalker lockfile importerIds include skipped =
     sbind (smap (\<lambda>importerId. importerEntries include (map_of (importers lockfile) importerId)) importerIds)
       (\<lambda>entries.
          let direct = concat (map directDepsOf entries);
              (st, walked) = walkStep (orEmpty (packages lockfile)) (map snd direct) skipped
          in Inr \<lparr>directDeps = direct, walkerFirstStep = st, walkedAfter = walked\<rparr>)"

fun groupSteps ::
    "lockfileObject \<Rightarrow> includeDeps option \<Rightarrow> projectId list \<Rightarrow> depPath list \<Rightarrow>
     js_error + (projectId \<times> walkerStep) list \<times> depPath list" where
  "groupSteps lockfile include [] walked = Inr ([], walked)"
| "groupSteps lockfile include (importerId # importerIds) walked =
     sbind (importerEntries include (map_of (importers lockfile) importerId)) (\<lambda>entries.
       let (st, walked') = walkStep (orEmpty (packages lockfile)) (resolvedDepsToDepPaths entries) walked
       in sbind (groupSteps lockfile include importerIds walked') (\<lambda>(rest, walked'').
            Inr ((importerId, st) # rest, walked'')))"

definition lockfileWalkerGroupImporterSteps ::
    "lockfileObject \<Rightarrow> projectId list \<Rightarrow> includeDeps option \<Rightarrow> depPath list \<Rightarrow>
     js_error + (projectId \<times> walkerStep) list \<times> depPath list" where
  "lockfileWalkerGroupImporterSteps lockfile importerIds include skipped =
     groupSteps lockfile include importerIds skipped"

section \<open>One step\<close>

text \<open>What the loop adds: the new paths, each once, in order of first occurrence, split by what they
  are in the lockfile.\<close>

definition stepSpec :: "packageSnapshots \<Rightarrow> depPath list \<Rightarrow> walkerStep" where
  "stepSpec pkgs new = \<lparr>
     stepDependencies = List.map_filter (\<lambda>n. map_option (\<lambda>p. \<lparr>ldDepPath = n, ldSnapshot = p\<rparr>) (map_of pkgs n)) new,
     stepLinks = filter (\<lambda>n. map_of pkgs n = None \<and> startsWith n ''link:'') new,
     stepMissing = filter (\<lambda>n. map_of pkgs n = None \<and> \<not> startsWith n ''link:'') new\<rparr>"

definition appendStep :: "walkerStep \<Rightarrow> walkerStep \<Rightarrow> walkerStep" where
  "appendStep a b = \<lparr>stepDependencies = stepDependencies a @ stepDependencies b,
     stepLinks = stepLinks a @ stepLinks b, stepMissing = stepMissing a @ stepMissing b\<rparr>"

fun freshPaths :: "depPath list \<Rightarrow> depPath list \<Rightarrow> depPath list" where
  "freshPaths [] walked = []"
| "freshPaths (n # ns) walked =
     (if n \<in> set walked then freshPaths ns walked else n # freshPaths ns (walked @ [n]))"

lemma set_freshPaths: "set (freshPaths ns walked) = set ns - set walked"
  by (induction ns walked rule: freshPaths.induct) auto

lemma distinct_freshPaths: "distinct (freshPaths ns walked)"
  by (induction ns walked rule: freshPaths.induct) (auto simp: set_freshPaths)

lemma walkStepLoop_spec:
  "walkStepLoop pkgs ns result walked =
     (appendStep result (stepSpec pkgs (freshPaths ns walked)), walked @ freshPaths ns walked)"
proof (induction ns arbitrary: result walked)
  case Nil
  then show ?case by (simp add: appendStep_def stepSpec_def map_filter_simps)
next
  case (Cons n ns)
  then show ?case
    by (cases "map_of pkgs n")
      (auto simp: Let_def sadd_def appendStep_def stepSpec_def map_filter_simps)
qed

lemma walkStep_spec:
  "walkStep pkgs ns walked = (stepSpec pkgs (freshPaths ns walked), walked @ freshPaths ns walked)"
  by (simp add: walkStep_def walkStepLoop_spec appendStep_def emptyStep_def stepSpec_def)

lemma stepDependencies_spec:
  "map ldDepPath (stepDependencies (stepSpec pkgs ns)) = filter (\<lambda>n. map_of pkgs n \<noteq> None) ns"
  by (induction ns) (auto simp: stepSpec_def map_filter_simps split: option.splits)

lemma stepDependencies_snapshot:
  "d \<in> set (stepDependencies (stepSpec pkgs ns)) \<Longrightarrow> map_of pkgs (ldDepPath d) = Some (ldSnapshot d)"
  by (auto simp: stepSpec_def map_filter_def)

text \<open>A step of the walker visits each dependency path at most once: the paths it reports are the
  ones not yet walked, none of them twice, each in exactly one of the three lists (a package with the
  snapshot of the lockfile, a link, or a missing entry), and afterwards all of the paths are walked.\<close>

theorem walkStep_partition:
  "let (st, walked') = walkStep pkgs ns walked in
     set (map ldDepPath (stepDependencies st)) \<union> set (stepLinks st) \<union> set (stepMissing st) = set ns - set walked \<and>
     distinct (map ldDepPath (stepDependencies st) @ stepLinks st @ stepMissing st) \<and>
     (\<forall>d \<in> set (stepDependencies st). map_of pkgs (ldDepPath d) = Some (ldSnapshot d)) \<and>
     (\<forall>n \<in> set (stepLinks st). startsWith n ''link:'' \<and> map_of pkgs n = None) \<and>
     (\<forall>n \<in> set (stepMissing st). \<not> startsWith n ''link:'' \<and> map_of pkgs n = None) \<and>
     set walked' = set walked \<union> set ns"
proof -
  let ?new = "freshPaths ns walked"
  let ?st = "stepSpec pkgs ?new"
  have l: "stepLinks ?st = filter (\<lambda>n. map_of pkgs n = None \<and> startsWith n ''link:'') ?new"
    and m: "stepMissing ?st = filter (\<lambda>n. map_of pkgs n = None \<and> \<not> startsWith n ''link:'') ?new"
    by (simp_all add: stepSpec_def)
  have "set (map ldDepPath (stepDependencies ?st)) \<union> set (stepLinks ?st) \<union> set (stepMissing ?st) =
      set ns - set walked"
    unfolding stepDependencies_spec l m set_freshPaths [symmetric] by auto
  moreover have "distinct (map ldDepPath (stepDependencies ?st) @ stepLinks ?st @ stepMissing ?st)"
    unfolding stepDependencies_spec l m using distinct_freshPaths [of ns walked] by auto
  moreover have "\<forall>n \<in> set (stepLinks ?st). startsWith n ''link:'' \<and> map_of pkgs n = None"
    "\<forall>n \<in> set (stepMissing ?st). \<not> startsWith n ''link:'' \<and> map_of pkgs n = None"
    unfolding l m by auto
  moreover have "\<forall>d \<in> set (stepDependencies ?st). map_of pkgs (ldDepPath d) = Some (ldSnapshot d)"
    using stepDependencies_snapshot by blast
  ultimately show ?thesis
    unfolding walkStep_spec Let_def case_prod_conv by (simp add: set_freshPaths del: set_map)
qed

theorem walkStep_partition_witness:
  "walkStep [(''a@1'', emptyPackage)] [''a@1'', ''b@1'', ''a@1''] [] =
     (\<lparr>stepDependencies = [\<lparr>ldDepPath = ''a@1'', ldSnapshot = emptyPackage\<rparr>], stepLinks = [],
       stepMissing = [''b@1'']\<rparr>, [''a@1'', ''b@1'']) \<and>
   distinct [''a@1'', ''b@1'']"
  using walkStep_partition [of "[(''a@1'', emptyPackage)]" "[''a@1'', ''b@1'', ''a@1'']" "[]"]
  by (simp add: walkStep_def emptyStep_def sadd_def Let_def)

end
