(* ===== verification/LockfileFiltering.thy ===== *)
theory LockfileFiltering
  imports LockfileWalker
begin

text \<open>
  lockfile/filtering/src: the part of a lockfile that some importers need, with chosen groups of
  dependencies (filterLockfileByImporters.ts, filterImporter.ts, filterLockfile.ts). The walk is the
  client of the lockfile walker: it takes the packages of a step one after another, picks each, and
  descends into the step that the package's closure returns; after the packages of a step come its
  missing entries, the first of which is an error when \<open>failOnMissingDependencies\<close> is set.
\<close>

definition WANTED_LOCKFILE :: str where
  "WANTED_LOCKFILE = ''pnpm-lock.yaml''"

definition lockfileMissingDependencyError :: "depPath \<Rightarrow> js_error" where
  "lockfileMissingDependencyError d =
     pnpmError ''LOCKFILE_MISSING_DEPENDENCY''
       (''Broken lockfile: no entry for '' @ quoted d @ '' in '' @ WANTED_LOCKFILE)"

definition filterImporter :: "projectSnapshot \<Rightarrow> includeDeps \<Rightarrow> projectSnapshot" where
  "filterImporter importer include = emptyProject\<lparr>
     prodDeps := Some (if \<not> incDependencies include then [] else orEmpty (prodDeps importer)),
     devDeps := Some (if \<not> incDevDependencies include then [] else orEmpty (devDeps importer)),
     optDeps := Some (if \<not> incOptionalDependencies include then [] else orEmpty (optDeps importer)),
     specifiers := specifiers importer\<rparr>"

record pickState =
  pickWalked :: "depPath list"
  pickedPackages :: packageSnapshots

definition pick :: "lockedDependency \<Rightarrow> pickState \<Rightarrow> pickState" where
  "pick dep s = s\<lparr>pickedPackages := jset (ldDepPath dep) (ldSnapshot dep) (pickedPackages s)\<rparr>"

text \<open>Calling the closure \<open>next\<close> of a package: the step it gives, and the state with its marks.\<close>

definition descend :: "packageSnapshots \<Rightarrow> bool \<Rightarrow> lockedDependency \<Rightarrow> pickState \<Rightarrow> walkerStep \<times> pickState" where
  "descend pkgs incOptional dep s =
     (let (st, walked) = nextStep pkgs incOptional dep (pickWalked s) in (st, s\<lparr>pickWalked := walked\<rparr>))"

function pkgAllDeps ::
    "packageSnapshots \<Rightarrow> bool \<Rightarrow> bool \<Rightarrow> lockedDependency list \<Rightarrow> str list \<Rightarrow> pickState \<Rightarrow>
     js_error + pickState" where
  "pkgAllDeps pkgs incOptional failOnMissing [] missing s =
     (if failOnMissing \<and> missing \<noteq> [] then Inl (lockfileMissingDependencyError (hd missing)) else Inr s)"
| "pkgAllDeps pkgs incOptional failOnMissing (dep # deps) missing s =
     (let (st, s1) = descend pkgs incOptional dep (pick dep s) in
      sbind (pkgAllDeps pkgs incOptional failOnMissing (stepDependencies st) (stepMissing st) s1)
        (\<lambda>s2. pkgAllDeps pkgs incOptional failOnMissing deps missing s2))"
  by pat_completeness auto

lemma descend_simps:
  "descend pkgs inc dep s =
    (stepSpec pkgs (freshPaths (nextDepPaths inc (ldSnapshot dep)) (pickWalked s)),
     s\<lparr>pickWalked := pickWalked s @ freshPaths (nextDepPaths inc (ldSnapshot dep)) (pickWalked s)\<rparr>)"
  by (simp add: descend_def nextStep_def walkStep_spec)

lemma pickWalked_pick [simp]: "pickWalked (pick dep s) = pickWalked s"
  by (simp add: pick_def)

lemma pkgAllDeps_walked_dom:
  "pkgAllDeps_dom (pkgs, inc, fail, deps, missing, s) \<Longrightarrow>
     pkgAllDeps pkgs inc fail deps missing s = Inr s' \<Longrightarrow> set (pickWalked s) \<subseteq> set (pickWalked s')"
proof (induction arbitrary: s' rule: pkgAllDeps.pinduct)
  case (1 pkgs inc fail missing s)
  then show ?case by (simp add: pkgAllDeps.psimps split: if_splits)
next
  case (2 pkgs inc fail dep deps missing s)
  obtain st s1 where d: "descend pkgs inc dep (pick dep s) = (st, s1)" by (metis prod.exhaust)
  then have "set (pickWalked s) \<subseteq> set (pickWalked s1)" by (auto simp: descend_simps)
  moreover obtain s2 where
    "pkgAllDeps pkgs inc fail (stepDependencies st) (stepMissing st) s1 = Inr s2"
    "pkgAllDeps pkgs inc fail deps missing s2 = Inr s'"
    using 2(4) 2(1) d by (auto simp: pkgAllDeps.psimps sbind_Inr_iff)
  ultimately show ?case using 2(2) [OF d [symmetric] refl] 2(3) [OF d [symmetric] refl] by blast
qed

definition unwalked :: "packageSnapshots \<Rightarrow> pickState \<Rightarrow> nat" where
  "unwalked pkgs s = card (set (keys pkgs) - set (pickWalked s))"

lemma unwalked_le: "set (pickWalked s) \<subseteq> set (pickWalked t) \<Longrightarrow> unwalked pkgs t \<le> unwalked pkgs s"
  unfolding unwalked_def by (rule unseen_le) simp_all

text \<open>A step that finds packages leaves fewer of them unwalked.\<close>

lemma descend_unwalked:
  assumes "descend pkgs inc dep (pick dep s) = (st, s1)"
  shows "unwalked pkgs s1 < unwalked pkgs s \<or> unwalked pkgs s1 = unwalked pkgs s \<and> stepDependencies st = []"
proof (cases "stepDependencies st = []")
  case True
  have "unwalked pkgs s1 \<le> unwalked pkgs s" using assms by (intro unwalked_le) (auto simp: descend_simps)
  with True show ?thesis by auto
next
  case False
  then obtain d where d: "d \<in> set (stepDependencies st)" by (meson last_in_set)
  let ?f = "freshPaths (nextDepPaths inc (ldSnapshot dep)) (pickWalked s)"
  have st: "st = stepSpec pkgs ?f" "s1 = (pick dep s)\<lparr>pickWalked := pickWalked s @ ?f\<rparr>"
    using assms by (simp_all add: descend_simps)
  have "ldDepPath d \<in> set (map ldDepPath (stepDependencies (stepSpec pkgs ?f)))" using d st by simp
  then have n: "ldDepPath d \<in> set ?f" "map_of pkgs (ldDepPath d) \<noteq> None"
    unfolding stepDependencies_spec by auto
  then have "unwalked pkgs s1 < unwalked pkgs s"
    unfolding unwalked_def
    by (intro unseen_less [of _ "ldDepPath d"])
      (auto simp: st set_freshPaths in_keys_iff simp del: set_map)
  then show ?thesis by simp
qed

termination pkgAllDeps
proof (relation "inv_image (less_than <*lex*> less_than)
    (\<lambda>(pkgs, inc, fail, deps, missing, s). (unwalked pkgs s, length deps))", goal_cases)
  case 1
  show ?case by (simp add: wf_lex_prod)
next
  case (2 pkgs inc fail dep deps missing s x st s1)
  then show ?case using descend_unwalked [of pkgs inc dep s st s1] by auto
next
  case (3 pkgs inc fail dep deps missing s x st s1 s2)
  then have "set (pickWalked s1) \<subseteq> set (pickWalked s2)" using pkgAllDeps_walked_dom by blast
  then have "unwalked pkgs s2 \<le> unwalked pkgs s1" by (rule unwalked_le)
  moreover have "unwalked pkgs s1 \<le> unwalked pkgs s"
    using 3 descend_unwalked [of pkgs inc dep s st s1] by auto
  ultimately show ?case by auto
qed

definition filterLockfileByImporters ::
    "lockfileObject \<Rightarrow> projectId list \<Rightarrow> includeDeps \<Rightarrow> depPath list \<Rightarrow> bool \<Rightarrow> js_error + lockfileObject" where
  "filterLockfileByImporters lockfile importerIds include skipped failOnMissing =
     sbind (case packages lockfile of
         None \<Rightarrow> Inr []
       | Some pkgs \<Rightarrow>
           sbind (lockfileWalker lockfile importerIds (Some include) skipped) (\<lambda>w.
           sbind (pkgAllDeps pkgs (incOptionalDependencies include) failOnMissing
                   (stepDependencies (walkerFirstStep w)) (stepMissing (walkerFirstStep w))
                   \<lparr>pickWalked = walkedAfter w, pickedPackages = []\<rparr>)
             (\<lambda>s. Inr (pickedPackages s))))
       (\<lambda>pkgs. sbind (sfold (\<lambda>importerId imps.
             case map_of (importers lockfile) importerId of
               None \<Rightarrow> Inl (TypeError ''importer.dependencies'')
             | Some importer \<Rightarrow> Inr (jset importerId (filterImporter importer include) imps))
           importerIds (importers lockfile))
         (\<lambda>imps. Inr (lockfile\<lparr>importers := imps, packages := Some pkgs\<rparr>)))"

definition filterLockfile :: "lockfileObject \<Rightarrow> includeDeps \<Rightarrow> depPath list \<Rightarrow> js_error + lockfileObject" where
  "filterLockfile lockfile include skipped =
     filterLockfileByImporters lockfile (keys (importers lockfile)) include skipped False"

section \<open>The walk as an instance of the batch walk\<close>

lemma pkgAllDeps_lenient:
  "\<not> fail \<Longrightarrow> \<exists>s'. pkgAllDeps pkgs inc fail deps missing s = Inr s' \<and> set (pickWalked s) \<subseteq> set (pickWalked s')"
proof (induction pkgs inc fail deps missing s rule: pkgAllDeps.induct)
  case (2 pkgs inc fail dep deps missing s)
  obtain st s1 where d: "descend pkgs inc dep (pick dep s) = (st, s1)" by (metis prod.exhaust)
  have "set (pickWalked s) \<subseteq> set (pickWalked s1)" using d by (auto simp: descend_simps)
  moreover obtain s2 where "pkgAllDeps pkgs inc fail (stepDependencies st) (stepMissing st) s1 = Inr s2"
    "set (pickWalked s1) \<subseteq> set (pickWalked s2)"
    using 2(1) [OF d [symmetric] refl 2(3)] by blast
  moreover from this obtain s3 where "pkgAllDeps pkgs inc fail deps missing s2 = Inr s3"
    "set (pickWalked s2) \<subseteq> set (pickWalked s3)"
    using 2(2) [OF d [symmetric] refl _ 2(3)] by blast
  ultimately show ?case using d by auto
qed simp

lemma pkgAllDeps_missing_irrelevant:
  "pkgAllDeps pkgs inc False deps missing s = pkgAllDeps pkgs inc False deps [] s"
proof (induction deps arbitrary: s)
  case (Cons dep deps)
  have "pkgAllDeps pkgs inc False deps missing = pkgAllDeps pkgs inc False deps []"
    using Cons by (rule ext)
  then show ?case by simp
qed simp

definition pickAll :: "packageSnapshots \<Rightarrow> bool \<Rightarrow> lockedDependency list \<Rightarrow> pickState \<Rightarrow> pickState" where
  "pickAll pkgs inc deps s = projr (pkgAllDeps pkgs inc False deps [] s)"

lemma pkgAllDeps_pickAll: "pkgAllDeps pkgs inc False deps missing s = Inr (pickAll pkgs inc deps s)"
  using pkgAllDeps_lenient [of False pkgs inc deps missing s]
  by (auto simp: pickAll_def pkgAllDeps_missing_irrelevant [of pkgs inc deps missing])

lemma pickAll_mono: "set (pickWalked s) \<subseteq> set (pickWalked (pickAll pkgs inc deps s))"
  using pkgAllDeps_lenient [of False pkgs inc deps "[]" s] by (auto simp: pickAll_def)

lemma pickAll_Nil: "pickAll pkgs inc [] s = s"
  by (simp add: pickAll_def)

lemma pickAll_Cons:
  assumes "descend pkgs inc dep (pick dep s) = (st, s1)"
  shows "pickAll pkgs inc (dep # deps) s = pickAll pkgs inc deps (pickAll pkgs inc (stepDependencies st) s1)"
  using pkgAllDeps_pickAll [of pkgs inc "dep # deps" "[]" s]
  by (simp add: assms pkgAllDeps_pickAll)

text \<open>The successors of a package, and the locked dependency that a step makes of a path.\<close>

definition pkgNext :: "packageSnapshots \<Rightarrow> bool \<Rightarrow> depPath \<Rightarrow> depPath list" where
  "pkgNext pkgs inc n = (case map_of pkgs n of None \<Rightarrow> [] | Some p \<Rightarrow> nextDepPaths inc p)"

definition lockedDep :: "packageSnapshots \<Rightarrow> depPath \<Rightarrow> lockedDependency" where
  "lockedDep pkgs n = \<lparr>ldDepPath = n,
     ldSnapshot = (case map_of pkgs n of None \<Rightarrow> emptyPackage | Some p \<Rightarrow> p)\<rparr>"

lemma ldDepPath_lockedDep [simp]: "ldDepPath (lockedDep pkgs n) = n"
  by (simp add: lockedDep_def)

lemma nextDepPaths_lockedDep: "nextDepPaths inc (ldSnapshot (lockedDep pkgs n)) = pkgNext pkgs inc n"
  by (simp add: lockedDep_def pkgNext_def nextDepPaths_def emptyPackage_def resolvedDepsToDepPaths_def
      map_filter_simps split: option.splits)

lemma stepDependencies_lockedDep:
  "stepDependencies (stepSpec pkgs ns) = map (lockedDep pkgs) (filter (\<lambda>n. map_of pkgs n \<noteq> None) ns)"
  by (induction ns) (auto simp: stepSpec_def map_filter_simps lockedDep_def)

definition markPaths :: "packageSnapshots \<Rightarrow> depPath list \<Rightarrow> pickState \<Rightarrow> depPath list \<times> pickState" where
  "markPaths pkgs ns s =
     (let f = freshPaths ns (pickWalked s)
      in (filter (\<lambda>n. map_of pkgs n \<noteq> None) f, s\<lparr>pickWalked := pickWalked s @ f\<rparr>))"

interpretation pickWalk: batch_walk "pkgNext pkgs inc" "set (keys pkgs)" "\<lambda>s. set (pickWalked s)"
  "\<lambda>s. set (keys (pickedPackages s))" "\<lambda>n. pick (lockedDep pkgs n)" "markPaths pkgs"
  "\<lambda>ns. pickAll pkgs inc (map (lockedDep pkgs) ns)" for pkgs inc
proof (unfold_locales, goal_cases)
  case 1
  show ?case by simp
next
  case (2 n)
  then show ?case by (simp add: pkgNext_def in_keys_iff del: set_map)
next
  case (4 n s)
  show ?case by (simp add: pick_def dom_update)
next
  case (5 ns s)
  show ?case
    by (auto simp: markPaths_def Let_def set_freshPaths in_keys_iff simp del: set_map)
next
  case (6 ns s)
  show ?case by (auto simp: markPaths_def Let_def set_freshPaths)
next
  case (9 n ns s)
  let ?f = "freshPaths (pkgNext pkgs inc n) (pickWalked s)"
  have "descend pkgs inc (lockedDep pkgs n) (pick (lockedDep pkgs n) s) =
      (stepSpec pkgs ?f, (pick (lockedDep pkgs n) s)\<lparr>pickWalked := pickWalked s @ ?f\<rparr>)"
    by (simp add: descend_simps nextDepPaths_lockedDep)
  from pickAll_Cons [OF this] show ?case
    by (simp add: markPaths_def Let_def stepDependencies_lockedDep)
qed (simp_all add: markPaths_def Let_def pickAll_Nil)

lemma pickAll_values:
  assumes "\<forall>k v. map_of (pickedPackages s) k = Some v \<longrightarrow> v = ldSnapshot (lockedDep pkgs k)"
    and "map_of (pickedPackages (pickAll pkgs inc (map (lockedDep pkgs) ns) s)) k = Some v"
  shows "v = ldSnapshot (lockedDep pkgs k)"
proof -
  let ?I = "\<lambda>s. \<forall>k v. map_of (pickedPackages s) k = Some v \<longrightarrow> v = ldSnapshot (lockedDep pkgs k)"
  have "?I (pickAll pkgs inc (map (lockedDep pkgs) ns) s)"
    by (rule pickWalk.expand_invariant [where I = ?I])
      (use assms(1) in \<open>simp_all add: markPaths_def Let_def pick_def alist.get_put\<close>)
  with assms(2) show ?thesis by blast
qed

section \<open>Missing entries\<close>

definition allThere :: "packageSnapshots \<Rightarrow> depPath set \<Rightarrow> bool" where
  "allThere pkgs N \<longleftrightarrow> (\<forall>n \<in> N. map_of pkgs n \<noteq> None \<or> startsWith n ''link:'')"

lemma allThere_Un: "allThere pkgs (M \<union> N) \<longleftrightarrow> allThere pkgs M \<and> allThere pkgs N"
  by (auto simp: allThere_def)

lemma allThere_stepMissing: "allThere pkgs (set ns) \<longleftrightarrow> stepMissing (stepSpec pkgs ns) = []"
  by (auto simp: allThere_def stepSpec_def filter_empty_conv)

text \<open>With \<open>failOnMissing\<close> the walk returns what the lenient walk returns when nothing it meets is
  missing, and otherwise throws an error that names a missing path that it met.\<close>

lemma pkgAllDeps_strict:
  "let r = pkgAllDeps pkgs inc True deps missing s; s' = pickAll pkgs inc deps s;
       met = set (pickWalked s') - set (pickWalked s)
   in (missing = [] \<and> allThere pkgs met \<longrightarrow> r = Inr s') \<and>
      (\<not> (missing = [] \<and> allThere pkgs met) \<longrightarrow> (\<exists>d \<in> set missing \<union> met.
         (d \<in> set missing \<or> \<not> allThere pkgs {d}) \<and> r = Inl (lockfileMissingDependencyError d)))"
proof (induction pkgs inc True deps missing s rule: pkgAllDeps.induct)
  case (1 pkgs inc missing s)
  then show ?case by (cases missing) (simp_all add: pickAll_Nil allThere_def)
next
  case (2 pkgs inc dep deps missing s)
  let ?f = "freshPaths (nextDepPaths inc (ldSnapshot dep)) (pickWalked s)"
  let ?st = "stepSpec pkgs ?f" and ?s1 = "(pick dep s)\<lparr>pickWalked := pickWalked s @ ?f\<rparr>"
  let ?s2 = "pickAll pkgs inc (stepDependencies ?st) ?s1"
  let ?s3 = "pickAll pkgs inc deps ?s2"
  have d: "descend pkgs inc dep (pick dep s) = (?st, ?s1)" by (simp add: descend_simps)
  have s3: "pickAll pkgs inc (dep # deps) s = ?s3" by (rule pickAll_Cons [OF d])
  note IH1 = 2(1) [OF d [symmetric] refl, unfolded Let_def]
  note IH2 = 2(2) [OF d [symmetric] refl, unfolded Let_def]
  have m: "set (pickWalked ?s1) \<subseteq> set (pickWalked ?s2)" "set (pickWalked ?s2) \<subseteq> set (pickWalked ?s3)"
    by (rule pickAll_mono)+
  let ?met = "set (pickWalked ?s3) - set (pickWalked s)"
  let ?met1 = "set (pickWalked ?s2) - set (pickWalked ?s1)"
  let ?met2 = "set (pickWalked ?s3) - set (pickWalked ?s2)"
  have f: "set ?f \<inter> set (pickWalked s) = {}" by (auto simp: set_freshPaths)
  have met: "?met = (set ?f \<union> ?met1) \<union> ?met2" using m f by auto
  have sm: "set (stepMissing ?st) \<subseteq> set ?f" "\<forall>x \<in> set (stepMissing ?st). \<not> allThere pkgs {x}"
    by (auto simp: stepSpec_def allThere_def)
  let ?r = "pkgAllDeps pkgs inc True (dep # deps) missing s"
  have r: "?r = sbind (pkgAllDeps pkgs inc True (stepDependencies ?st) (stepMissing ?st) ?s1)
      (\<lambda>s2. pkgAllDeps pkgs inc True deps missing s2)" by (simp add: d)
  show ?case
  proof (cases "stepMissing ?st = [] \<and> allThere pkgs ?met1")
    case True
    then have r1: "pkgAllDeps pkgs inc True (stepDependencies ?st) (stepMissing ?st) ?s1 = Inr ?s2"
      using IH1 by blast
    have "allThere pkgs (set ?f \<union> ?met1)" using True by (simp add: allThere_Un allThere_stepMissing)
    then have "allThere pkgs ?met \<longleftrightarrow> allThere pkgs ?met2" unfolding met by (simp add: allThere_Un)
    moreover have "?r = pkgAllDeps pkgs inc True deps missing ?s2" using r r1 by simp
    ultimately show ?thesis unfolding Let_def s3 using IH2 [OF r1] met by auto
  next
    case False
    from mp [OF conjunct2 [OF IH1] False] obtain x where x: "x \<in> set (stepMissing ?st) \<union> ?met1"
      "x \<in> set (stepMissing ?st) \<or> \<not> allThere pkgs {x}"
      "pkgAllDeps pkgs inc True (stepDependencies ?st) (stepMissing ?st) ?s1 =
        Inl (lockfileMissingDependencyError x)" by blast
    then have x3: "?r = Inl (lockfileMissingDependencyError x)" unfolding r by simp
    from x(1,2) have "x \<in> ?met" "\<not> allThere pkgs {x}" using sm met by blast+
    moreover from this have "\<not> allThere pkgs ?met" by (auto simp: allThere_def)
    ultimately show ?thesis unfolding Let_def s3 using x3 by blast
  qed
qed

section \<open>Properties of filterLockfileByImporters\<close>

definition filterRoots :: "lockfileObject \<Rightarrow> projectId list \<Rightarrow> includeDeps \<Rightarrow> depPath list" where
  "filterRoots l ids include = concat (map (\<lambda>i. case map_of (importers l) i of None \<Rightarrow> []
     | Some p \<Rightarrow> resolvedDepsToDepPaths (projectEntries (Some include) p)) ids)"

text \<open>What the importers reach around the skipped packages.\<close>

definition filterReach ::
    "lockfileObject \<Rightarrow> projectId list \<Rightarrow> includeDeps \<Rightarrow> depPath list \<Rightarrow> depPath set" where
  "filterReach l ids include skipped =
     reach (around (pkgNext (orEmpty (packages l)) (incOptionalDependencies include)) (set skipped))
       (set (filterRoots l ids include) - set skipped)"

lemma map_snd_directDepsOf: "map snd (directDepsOf ds) = resolvedDepsToDepPaths ds"
proof (induction ds)
  case (Cons d ds)
  then show ?case
    by (cases d) (auto simp: directDepsOf_def resolvedDepsToDepPaths_def map_filter_simps
        split: option.splits)
qed (simp add: directDepsOf_def resolvedDepsToDepPaths_def map_filter_simps)

lemma lockfileWalker_result:
  assumes "set ids \<subseteq> set (keys (importers l))"
  shows "\<exists>w. lockfileWalker l ids (Some include) skipped = Inr w \<and>
    walkerFirstStep w = stepSpec (orEmpty (packages l)) (freshPaths (filterRoots l ids include) skipped) \<and>
    walkedAfter w = skipped @ freshPaths (filterRoots l ids include) skipped"
proof -
  have present: "map_of (importers l) i \<noteq> None" if "i \<in> set ids" for i
    using assms that by (auto simp: in_keys_iff simp del: set_map)
  have "smap (\<lambda>i. importerEntries (Some include) (map_of (importers l) i)) ids =
      Inr (map (\<lambda>i. projectEntries (Some include) (the (map_of (importers l) i))) ids)"
    by (rule smap_total) (drule present, auto simp: importerEntries_def)
  moreover have "map snd (concat (map directDepsOf
      (map (\<lambda>i. projectEntries (Some include) (the (map_of (importers l) i))) ids))) =
      filterRoots l ids include"
    unfolding filterRoots_def map_concat
    by (rule arg_cong [of _ _ concat]) (auto simp: map_snd_directDepsOf dest!: present)
  ultimately show ?thesis
    by (simp add: lockfileWalker_def walkStep_spec Let_def)
qed

lemma filterImporters_fold:
  assumes "set ids \<subseteq> set (keys imps)"
  shows "\<exists>r. sfold (\<lambda>i m. case map_of imps i of None \<Rightarrow> Inl (e :: js_error)
       | Some p \<Rightarrow> Inr (jset i (f p) m)) ids m0 = Inr r \<and>
     (\<forall>i. map_of r i = (if i \<in> set ids then map_option f (map_of imps i) else map_of m0 i))"
proof -
  let ?g = "\<lambda>i. jset i (f (the (map_of imps i)))"
  have present: "map_of imps i \<noteq> None" if "i \<in> set ids" for i
    using assms that by (auto simp: in_keys_iff simp del: set_map)
  have "sfold (\<lambda>i m. case map_of imps i of None \<Rightarrow> Inl (e :: js_error)
       | Some p \<Rightarrow> Inr (jset i (f p) m)) ids m0 = Inr (fold ?g ids m0)"
    by (rule sfold_total) (drule present, auto)
  moreover have "map_of (fold ?g ids m0) i = (if i \<in> set ids then map_option f (map_of imps i) else map_of m0 i)" for i
    using alist.get_fold_put_keyed [of "\<lambda>i. f (the (map_of imps i))" ids m0 i] present [of i] by auto
  ultimately show ?thesis by blast
qed

lemma filter_walk:
  fixes l :: lockfileObject
  assumes "packages l = Some pkgs"
    and f_def: "f = freshPaths (filterRoots l ids include) skipped"
    and s0_def: "s0 = \<lparr>pickWalked = skipped @ f, pickedPackages = []\<rparr>"
    and deps_def: "deps = stepDependencies (stepSpec pkgs f)"
  shows "set (pickWalked (pickAll pkgs (incOptionalDependencies include) deps s0)) =
      set skipped \<union> filterReach l ids include skipped" (is ?walked)
    and "map_of (pickedPackages (pickAll pkgs (incOptionalDependencies include) deps s0)) k =
      (if k \<in> filterReach l ids include skipped then map_of pkgs k else None)" (is ?picked)
proof -
  let ?inc = "incOptionalDependencies include"
  let ?e = "\<lparr>pickWalked = skipped, pickedPackages = []\<rparr>"
  let ?r = "pickAll pkgs ?inc deps s0"
  let ?R = "filterReach l ids include skipped"
  have start: "?r = pickWalk.start pkgs ?inc (filterRoots l ids include) ?e"
    by (simp add: pickWalk.start_def markPaths_def Let_def s0_def deps_def f_def stepDependencies_lockedDep)
  have R: "reach (around (pkgNext pkgs ?inc) (set (pickWalked ?e)))
      (set (filterRoots l ids include) - set (pickWalked ?e)) = ?R"
    by (simp add: filterReach_def assms(1))
  show ?walked unfolding start pickWalk.start_seen R by simp
  have out: "?R \<inter> set skipped = {}"
  proof -
    have "?R \<subseteq> - set skipped"
      unfolding filterReach_def by (rule reach_least) auto
    then show ?thesis by auto
  qed
  have vis: "set (keys (pickedPackages ?r)) = ?R \<inter> set (keys pkgs)"
    unfolding start pickWalk.start_visited R using out by auto
  have val: "v = ldSnapshot (lockedDep pkgs k)" if "map_of (pickedPackages ?r) k = Some v" for v
    using pickAll_values [of s0 pkgs ?inc "filter (\<lambda>n. map_of pkgs n \<noteq> None) f" k v] that
    by (simp add: s0_def deps_def stepDependencies_lockedDep)
  show ?picked
  proof (cases "map_of (pickedPackages ?r) k")
    case None
    then have "k \<notin> set (keys (pickedPackages ?r))" unfolding in_keys_iff by simp
    then have "k \<notin> ?R \<or> map_of pkgs k = None" unfolding vis Int_iff in_keys_iff by blast
    then show ?thesis using None by simp
  next
    case (Some v)
    then have "k \<in> set (keys (pickedPackages ?r))" unfolding in_keys_iff by simp
    then have "k \<in> ?R" "map_of pkgs k \<noteq> None" unfolding vis Int_iff in_keys_iff by blast+
    then show ?thesis using val [OF Some] Some by (auto simp: lockedDep_def)
  qed
qed

definition filteredOk ::
    "lockfileObject \<Rightarrow> projectId list \<Rightarrow> includeDeps \<Rightarrow> depPath set \<Rightarrow> lockfileObject \<Rightarrow> bool" where
  "filteredOk l ids include R r \<longleftrightarrow>
     r\<lparr>importers := importers l, packages := packages l\<rparr> = l \<and>
     (\<forall>i. map_of (importers r) i = map_option (\<lambda>p. if i \<in> set ids then filterImporter p include else p)
        (map_of (importers l) i)) \<and>
     (\<exists>pkgs. packages r = Some pkgs \<and>
        (\<forall>k. map_of pkgs k = (if k \<in> R then map_of (orEmpty (packages l)) k else None)))"

lemma filterLockfileByImporters_cases:
  assumes "packages l = Some pkgs" "set ids \<subseteq> set (keys (importers l))"
    and R_def: "R = filterReach l ids include skipped"
  shows "(\<not> fail \<or> allThere pkgs R \<longrightarrow>
       (\<exists>r. filterLockfileByImporters l ids include skipped fail = Inr r \<and> filteredOk l ids include R r)) \<and>
     (fail \<and> \<not> allThere pkgs R \<longrightarrow> (\<exists>d \<in> R. \<not> allThere pkgs {d} \<and>
       filterLockfileByImporters l ids include skipped fail = Inl (lockfileMissingDependencyError d)))"
proof -
  let ?inc = "incOptionalDependencies include"
  let ?f = "freshPaths (filterRoots l ids include) skipped"
  let ?st = "stepSpec pkgs ?f"
  let ?ini = "\<lparr>pickWalked = skipped @ ?f, pickedPackages = []\<rparr>"
  let ?s = "pickAll pkgs ?inc (stepDependencies ?st) ?ini"
  obtain w where w: "lockfileWalker l ids (Some include) skipped = Inr w"
    "walkerFirstStep w = ?st" "walkedAfter w = skipped @ ?f"
    using lockfileWalker_result [OF assms(2), of "include" skipped] assms(1) by auto
  obtain imps where imps:
    "sfold (\<lambda>importerId imps. case map_of (importers l) importerId of
        None \<Rightarrow> Inl (TypeError ''importer.dependencies'')
      | Some importer \<Rightarrow> Inr (jset importerId (filterImporter importer include) imps)) ids (importers l) = Inr imps"
    "\<forall>i. map_of imps i = (if i \<in> set ids then map_option (\<lambda>p. filterImporter p include) (map_of (importers l) i)
       else map_of (importers l) i)"
    using filterImporters_fold [OF assms(2), of "TypeError ''importer.dependencies''"
      "\<lambda>p. filterImporter p include" "importers l"] by blast
  let ?r = "l\<lparr>importers := imps, packages := Some (pickedPackages ?s)\<rparr>"
  have ok: "filteredOk l ids include R ?r"
    using imps(2) filter_walk(2) [OF assms(1) refl refl refl, of "include" ids skipped] assms(1)
    by (auto simp: filteredOk_def R_def option.map_id0 [unfolded id_def])
  have run: "filterLockfileByImporters l ids include skipped fail =
      sbind (pkgAllDeps pkgs ?inc fail (stepDependencies ?st) (stepMissing ?st) ?ini)
        (\<lambda>s. Inr (l\<lparr>importers := imps, packages := Some (pickedPackages s)\<rparr>))"
    by (cases "pkgAllDeps pkgs ?inc fail (stepDependencies ?st) (stepMissing ?st) ?ini")
      (simp_all add: filterLockfileByImporters_def assms(1) w imps(1))
  show ?thesis
  proof (cases fail)
    case False
    then show ?thesis using run ok by (simp add: pkgAllDeps_pickAll)
  next
    case True
    have walked: "set (pickWalked ?s) = set skipped \<union> R"
      unfolding R_def by (rule filter_walk(1) [OF assms(1) refl refl refl])
    have out: "R \<inter> set skipped = {}"
    proof -
      have "R \<subseteq> - set skipped" unfolding R_def filterReach_def by (rule reach_least) auto
      then show ?thesis by auto
    qed
    have "set ?f \<subseteq> R" by (auto simp: set_freshPaths R_def filterReach_def intro: in_reach_base)
    then have R: "R = set ?f \<union> (set (pickWalked ?s) - set (pickWalked ?ini))"
      using walked out by auto
    have sm: "set (stepMissing ?st) \<subseteq> set ?f" "\<forall>x \<in> set (stepMissing ?st). \<not> allThere pkgs {x}"
      by (auto simp: stepSpec_def allThere_def)
    have "allThere pkgs R \<longleftrightarrow> stepMissing ?st = [] \<and> allThere pkgs (set (pickWalked ?s) - set (pickWalked ?ini))"
      by (subst R) (simp add: allThere_Un allThere_stepMissing)
    note strict = pkgAllDeps_strict [of pkgs ?inc "stepDependencies ?st" "stepMissing ?st" ?ini, unfolded Let_def]
    show ?thesis
    proof (cases "allThere pkgs R")
      case there: True
      then have "pkgAllDeps pkgs ?inc True (stepDependencies ?st) (stepMissing ?st) ?ini = Inr ?s"
        using strict \<open>allThere pkgs R \<longleftrightarrow> _\<close> by blast
      then show ?thesis using run ok True there by simp
    next
      case missing: False
      then obtain d where d: "d \<in> set (stepMissing ?st) \<union> (set (pickWalked ?s) - set (pickWalked ?ini))"
        "d \<in> set (stepMissing ?st) \<or> \<not> allThere pkgs {d}"
        "pkgAllDeps pkgs ?inc True (stepDependencies ?st) (stepMissing ?st) ?ini =
          Inl (lockfileMissingDependencyError d)"
        using strict \<open>allThere pkgs R \<longleftrightarrow> _\<close> by blast
      have "d \<in> R" "\<not> allThere pkgs {d}" using d(1,2) sm R by blast+
      moreover have "filterLockfileByImporters l ids include skipped fail = Inl (lockfileMissingDependencyError d)"
        using run d(3) True by simp
      ultimately show ?thesis using True missing by blast
    qed
  qed
qed



text \<open>C39. With \<open>failOnMissingDependencies\<close>, filterLockfileByImporters throws the missing-dependency error
  exactly when a path that the importers reach has no entry (and is not a link), and the path it names
  is such a path.\<close>

theorem filterLockfileByImporters_missing:
  assumes "packages l = Some pkgs" "set ids \<subseteq> set (keys (importers l))"
  shows "case filterLockfileByImporters l ids include skipped True of
      Inr r \<Rightarrow> allThere pkgs (filterReach l ids include skipped)
    | Inl e \<Rightarrow> (\<exists>d \<in> filterReach l ids include skipped. map_of pkgs d = None \<and> \<not> startsWith d ''link:'' \<and>
        e = lockfileMissingDependencyError d)"
  using filterLockfileByImporters_cases [OF assms refl, of True "include" skipped]
  by (auto simp: allThere_def split: sum.splits)

theorem filterLockfileByImporters_missing_witness:
  "\<exists>e. filterLockfileByImporters (emptyLockfile\<lparr>
      importers := [(''.'', emptyProject\<lparr>prodDeps := Some [(''a'', ''1'')]\<rparr>)], packages := Some []\<rparr>)
      [''.''] \<lparr>incDependencies = True, incDevDependencies = False, incOptionalDependencies = True\<rparr> [] True = Inl e"
proof -
  let ?l = "emptyLockfile\<lparr>importers := [(''.'', emptyProject\<lparr>prodDeps := Some [(''a'', ''1'')]\<rparr>)],
    packages := Some []\<rparr>"
  let ?i = "\<lparr>incDependencies = True, incDevDependencies = False, incOptionalDependencies = True\<rparr>"
  have "''a@1'' \<in> set (filterRoots ?l [''.''] ?i)"
    by (simp add: filterRoots_def projectEntries_def included_def emptyProject_def
        resolvedDepsToDepPaths_def map_filter_simps refToRelative_def startsWith_def indexOf_def)
  then have "''a@1'' \<in> filterReach ?l [''.''] ?i []" by (auto simp: filterReach_def intro: in_reach_base)
  then have "\<not> allThere [] (filterReach ?l [''.''] ?i [])"
    unfolding allThere_def by (intro notI) (drule (1) bspec, simp)
  with filterLockfileByImporters_missing [of ?l "[]" "[''.'']" ?i "[]"] show ?thesis
    by (auto split: sum.splits)
qed

end
