(* ===== verification/LockfileUtils.thy ===== *)
theory LockfileUtils
  imports LockfileTypes
begin

text \<open>
  lockfile/utils/src: reading a package entry together with its dependency path. \<open>semver.valid\<close>, the
  tarball URL of the npm registry (get-npm-tarball-url), URL resolution (Node's \<open>url\<close>),
  \<open>isGitHostedPkgUrl\<close> (pick-fetcher, a regular expression) and the file name hash are parameters.
\<close>

record nameVer =
  nvName :: "str option"
  nvPeersSuffix :: "str option"
  nvVersion :: "str option"
  nvNonSemverVersion :: "str option"

definition nameVerFromPkgSnapshot :: "(str \<Rightarrow> bool) \<Rightarrow> depPath \<Rightarrow> packageSnapshot \<Rightarrow> nameVer" where
  "nameVerFromPkgSnapshot semver_valid depPath pkgSnapshot =
     (let pkgInfo = parse semver_valid depPath in
      \<lparr>nvName = dpName pkgInfo, nvPeersSuffix = dpPeersSuffix pkgInfo,
       nvVersion = orElse (pkgVersion pkgSnapshot) (dpVersion pkgInfo),
       nvNonSemverVersion = dpNonSemverVersion pkgInfo\<rparr>)"

definition packageIdFromSnapshot :: "depPath \<Rightarrow> packageSnapshot \<Rightarrow> str" where
  "packageIdFromSnapshot depPath pkgSnapshot =
     (if truthy (pkgId pkgSnapshot) then the (pkgId pkgSnapshot) else tryGetPackageId depPath)"

definition packageIsIndependent :: "packageSnapshot \<Rightarrow> bool" where
  "packageIsIndependent pkg \<longleftrightarrow> dependencies pkg = None \<and> optionalDependencies pkg = None"

text \<open>\<open>resolution.type\<close>, and \<open>resolution.tarball\<close> (absent in the other kinds of resolution).\<close>

fun resolutionType :: "resolution \<Rightarrow> str option" where
  "resolutionType (DirectoryResolution _) = Some ''directory''"
| "resolutionType (GitRepositoryResolution _ _ _) = Some ''git''"
| "resolutionType _ = None"

fun tarballOf :: "resolution \<Rightarrow> str option" where
  "tarballOf (TarballResolution t _ _) = Some t"
| "tarballOf _ = None"

text \<open>\<open>{...resolution, tarball}\<close> for a resolution without a type.\<close>

fun withTarball :: "str \<Rightarrow> resolution \<Rightarrow> resolution" where
  "withTarball t (TarballResolution _ i p) = TarballResolution t i p"
| "withTarball t (IntegrityResolution i) = TarballResolution t (Some i) None"
| "withTarball t r = r"

definition registryOf :: "registries \<Rightarrow> str option \<Rightarrow> str" where
  "registryOf regs name =
     (let scoped = (case name of
            Some n \<Rightarrow> if startsWith n ''@'' then map_of (regScopes regs) (hd (splitOn CHR ''/'' n)) else None
          | None \<Rightarrow> None)
      in if truthy scoped then the scoped else regDefault regs)"

definition getTarball ::
    "(str \<Rightarrow> bool) \<Rightarrow> (str \<Rightarrow> str \<Rightarrow> str \<Rightarrow> str) \<Rightarrow> depPath \<Rightarrow> str \<Rightarrow> js_error + str" where
  "getTarball semver_valid getNpmTarballUrl depPath registry =
     (let p = parse semver_valid depPath in
      if truthy (dpName p) \<and> truthy (dpVersion p)
      then Inr (getNpmTarballUrl (the (dpName p)) (the (dpVersion p)) registry)
      else Inl (PlainError (''Couldn'' @ [CHR 0x27] @ ''t get tarball URL from dependency path '' @ depPath)))"

definition pkgSnapshotToResolution ::
    "(str \<Rightarrow> bool) \<Rightarrow> (str \<Rightarrow> str \<Rightarrow> str \<Rightarrow> str) \<Rightarrow> (str \<Rightarrow> str \<Rightarrow> str) \<Rightarrow> (str \<Rightarrow> bool) \<Rightarrow>
     depPath \<Rightarrow> packageSnapshot \<Rightarrow> registries \<Rightarrow> js_error + resolution" where
  "pkgSnapshotToResolution semver_valid getNpmTarballUrl resolveUrl isGitHostedPkgUrl depPath pkgSnapshot regs =
     (case pkgResolution pkgSnapshot of
        None \<Rightarrow> Inl (TypeError ''resolution.type'')
      | Some resolution \<Rightarrow>
          if resolutionType resolution \<noteq> None \<or>
             (case tarballOf resolution of None \<Rightarrow> False | Some t \<Rightarrow> startsWith t ''file:'') \<or>
             isGitHostedPkgUrl (case tarballOf resolution of None \<Rightarrow> '''' | Some t \<Rightarrow> t)
          then Inr resolution
          else
            let name = nvName (nameVerFromPkgSnapshot semver_valid depPath pkgSnapshot);
                registry = registryOf regs name
            in if truthy (tarballOf resolution)
               then Inr (withTarball (resolveUrl (the (tarballOf resolution))
                      (if endsWith registry ''/'' then registry else registry @ ''/'')) resolution)
               else sbind (getTarball semver_valid getNpmTarballUrl depPath registry)
                      (\<lambda>tarball. Inr (withTarball tarball resolution)))"

definition refIsLocalTarball :: "str \<Rightarrow> bool" where
  "refIsLocalTarball ref \<longleftrightarrow>
     startsWith ref ''file:'' \<and> (endsWith ref ''.tgz'' \<or> endsWith ref ''.tar.gz'' \<or> endsWith ref ''.tar'')"

definition refIsLocalDirectory :: "str \<Rightarrow> bool" where
  "refIsLocalDirectory ref \<longleftrightarrow> startsWith ref ''file:'' \<and> \<not> refIsLocalTarball ref"

section \<open>extendProjectsWithTargetDirs\<close>

record extendedProject =
  epId :: projectId
  epStages :: "str list option"
  epTargetDirs :: "str list"

definition PROJECT_STAGES :: "str list" where
  "PROJECT_STAGES = [''preinstall'', ''install'', ''postinstall'', ''prepare'', ''prepublishOnly'']"

definition dropFilePrefix :: "str \<Rightarrow> str" where
  "dropFilePrefix s = (if startsWith s ''file:'' then drop 5 s else s)"

text \<open>\<open>getLocalLocations\<close> is one of the two closures the code makes; \<open>None\<close> is \<open>undefined\<close>.\<close>

definition defaultLocalLocations ::
    "(str list \<Rightarrow> str) \<Rightarrow> (str \<Rightarrow> str) \<Rightarrow> str \<Rightarrow> nat \<Rightarrow> depPath \<Rightarrow> str \<Rightarrow> str list option" where
  "defaultLocalLocations path_join createHexHash virtualStoreDir maxLength depPath name =
     Some [path_join [virtualStoreDir, depPathToFilename createHexHash depPath maxLength, ''node_modules'', name]]"

definition addTargetDirs ::
    "(str \<Rightarrow> bool) \<Rightarrow> (depPath \<Rightarrow> str \<Rightarrow> str list option) \<Rightarrow> depPath \<times> packageSnapshot \<Rightarrow>
     extendedProject obj \<Rightarrow> extendedProject obj" where
  "addTargetDirs semver_valid getLocalLocations entry projectsById =
     (case entry of (depPath, pkg) \<Rightarrow>
        if (case pkgResolution pkg of None \<Rightarrow> None | Some r \<Rightarrow> resolutionType r) \<noteq> Some ''directory''
        then projectsById
        else let name = (case nvName (nameVerFromPkgSnapshot semver_valid depPath pkg) of None \<Rightarrow> '''' | Some n \<Rightarrow> n);
                 importerId = dropFilePrefix (packageIdFromSnapshot depPath pkg)
             in case map_of projectsById importerId of
                  None \<Rightarrow> projectsById
                | Some p \<Rightarrow>
                    (case getLocalLocations depPath name of
                       None \<Rightarrow> projectsById
                     | Some locs \<Rightarrow> jset importerId
                         (p\<lparr>epTargetDirs := epTargetDirs p @ locs, epStages := Some PROJECT_STAGES\<rparr>) projectsById))"

definition extendProjectsWithTargetDirs ::
    "(str \<Rightarrow> bool) \<Rightarrow> (depPath \<Rightarrow> str \<Rightarrow> str list option) \<Rightarrow> projectId list \<Rightarrow> lockfileObject \<Rightarrow>
     extendedProject list" where
  "extendProjectsWithTargetDirs semver_valid getLocalLocations projects lockfile =
     vals (fold (addTargetDirs semver_valid getLocalLocations) (orEmpty (packages lockfile))
       (fold (\<lambda>i. jset i \<lparr>epId = i, epStages = None, epTargetDirs = []\<rparr>) projects []))"

lemma refIsLocal_partition:
  "startsWith ref ''file:'' \<longleftrightarrow> refIsLocalTarball ref \<or> refIsLocalDirectory ref"
  "\<not> (refIsLocalTarball ref \<and> refIsLocalDirectory ref)"
  by (auto simp: refIsLocalTarball_def refIsLocalDirectory_def)

section \<open>Writing and reading a resolution\<close>

text \<open>The writers: \<open>depPathToRef\<close> and \<open>toLockfileResolution\<close> of pkg-manager/resolve-dependencies/src
  (depPathToRef.ts, updateLockfile.ts).\<close>

definition depPathToRef :: "depPath \<Rightarrow> str \<Rightarrow> str \<Rightarrow> str" where
  "depPathToRef depPath alias realName =
     (if alias = realName \<and> startsWith depPath (realName @ ''@'')
      then substr depPath (int (length realName) + 1)
      else depPath)"

text \<open>The rest of a string after the first occurrence of \<open>sep\<close>, and the part before it.\<close>

fun afterStr :: "str \<Rightarrow> str \<Rightarrow> str option" where
  "afterStr sep [] = (if sep = [] then Some [] else None)"
| "afterStr sep (c # s) = (if startsWith (c # s) sep then Some (drop (length sep) (c # s)) else afterStr sep s)"

fun beforeStr :: "str \<Rightarrow> str \<Rightarrow> str" where
  "beforeStr sep [] = []"
| "beforeStr sep (c # s) = (if startsWith (c # s) sep then [] else c # beforeStr sep s)"

text \<open>\<open>url.split('://')[1]\<close>\<close>

definition removeProtocol :: "str \<Rightarrow> str option" where
  "removeProtocol url = map_option (beforeStr ''://'') (afterStr ''://'' url)"

text \<open>\<open>s.replace(a, b)\<close> on strings: the first occurrence only.\<close>

definition replaceFirst :: "str \<Rightarrow> str \<Rightarrow> str \<Rightarrow> str" where
  "replaceFirst a b s = (case afterStr a s of None \<Rightarrow> s | Some t \<Rightarrow> beforeStr a s @ b @ t)"

fun integrityOpt :: "resolution \<Rightarrow> str option" where
  "integrityOpt (TarballResolution _ i _) = i"
| "integrityOpt (IntegrityResolution i) = Some i"
| "integrityOpt _ = None"

definition toLockfileResolution ::
    "(str \<Rightarrow> str \<Rightarrow> str \<Rightarrow> str) \<Rightarrow> str \<Rightarrow> str \<Rightarrow> resolution \<Rightarrow> str \<Rightarrow> bool \<Rightarrow> js_error + resolution" where
  "toLockfileResolution getNpmTarballUrl name version resolution registry lockfileIncludeTarballUrl =
     (if resolutionType resolution \<noteq> None \<or> \<not> truthy (integrityOpt resolution) then Inr resolution
      else let integrity = the (integrityOpt resolution) in
        case tarballOf resolution of
          None \<Rightarrow> if lockfileIncludeTarballUrl then Inr (IntegrityResolution integrity)
                  else Inl (TypeError ''resolution.tarball.replace'')
        | Some tarball \<Rightarrow>
            if lockfileIncludeTarballUrl then Inr (TarballResolution tarball (Some integrity) None)
            else let expectedTarball = getNpmTarballUrl name version registry;
                     actualTarball = replaceFirst ''%2f'' ''/'' tarball
                 in if removeProtocol expectedTarball \<noteq> removeProtocol actualTarball
                    then Inr (TarballResolution tarball (Some integrity) None)
                    else Inr (IntegrityResolution integrity))"

lemma parse_plain:
  assumes "name \<noteq> []" "CHR ''@'' \<notin> set (tl name)" "plainVersion version" "semver_valid version"
  shows "parse semver_valid (name @ ''@'' @ version) =
    emptyDependencyPath\<lparr>dpName := Some name, dpVersion := Some version\<rparr>"
proof -
  have "splitVersion version = (version, None, None)"
    using indexOfPeersSuffix_plainEnd [OF plainVersion_plainEnd [OF assms(3)]]
    by (simp add: splitVersion_def)
  moreover have "version \<noteq> []" using assms(3) by (simp add: plainVersion_def)
  ultimately show ?thesis
    using parse_name_version [OF assms(1,2), of version semver_valid] assms(4)
    by (simp add: emptyDependencyPath_def)
qed

lemma registryOf_name:
  assumes "startsWith name ''@'' \<longrightarrow> CHR ''/'' \<in> set name"
  shows "getRegistryByPackageName regs name = registryOf regs (Some name)"
proof (cases "startsWith name ''@''")
  case True
  with assms have "CHR ''/'' \<in> set name" by simp
  then have "substring name 0 (indexOf name CHR ''/'') = takeWhile (\<lambda>d. d \<noteq> CHR ''/'') name"
    by (simp add: indexOf_def substring_0 takeWhile_eq_take [symmetric])
  then show ?thesis
    using True by (auto simp: getRegistryByPackageName_def registryOf_def hd_splitOn Let_def split: option.splits)
next
  case False
  then show ?thesis by (simp add: getRegistryByPackageName_def registryOf_def)
qed

text \<open>C34. The tarball of a registry package survives the lockfile: \<open>toLockfileResolution\<close> leaves the URL
  out when the npm registry's naming scheme predicts it (up to the protocol and an encoded slash), and
  \<open>pkgSnapshotToResolution\<close> computes it again from the dependency path with the same registry; any other
  URL is written and read back as it is. The integrity is kept in every case.\<close>

theorem resolution_roundtrip:
  assumes "name \<noteq> []" "CHR ''@'' \<notin> set (tl name)" "startsWith name ''@'' \<longrightarrow> CHR ''/'' \<in> set name"
    and "plainVersion version" "semver_valid version"
    and "t \<noteq> []" "integrity \<noteq> []" "\<not> startsWith t ''file:''" "\<not> isGit t" "\<not> isGit []"
    and "\<forall>r. resolveUrl t r = t"
  shows "\<exists>w t'. toLockfileResolution url name version (TarballResolution t (Some integrity) None)
        (getRegistryByPackageName regs name) includeUrl = Inr w \<and>
      pkgSnapshotToResolution semver_valid url resolveUrl isGit (name @ ''@'' @ version)
        (p\<lparr>pkgResolution := Some w\<rparr>) regs = Inr (TarballResolution t' (Some integrity) None) \<and>
      (t' = t \<or> \<not> includeUrl \<and> t' = url name version (getRegistryByPackageName regs name) \<and>
         removeProtocol t' = removeProtocol (replaceFirst ''%2f'' ''/'' t))"
proof -
  let ?reg = "registryOf regs (Some name)" and ?dp = "name @ ''@'' @ version"
  note reg = registryOf_name [OF assms(3), of regs]
  have parsed: "parse semver_valid (name @ CHR ''@'' # version) =
      emptyDependencyPath\<lparr>dpName := Some name, dpVersion := Some version\<rparr>"
    using parse_plain [where semver_valid = semver_valid, OF assms(1,2,4,5)] by simp
  have tarball: "getTarball semver_valid url ?dp ?reg = Inr (url name version ?reg)"
    using assms(1,4) by (simp add: getTarball_def parsed plainVersion_def Let_def)
  have nv: "nvName (nameVerFromPkgSnapshot semver_valid ?dp q) = Some name" for q
    by (simp add: nameVerFromPkgSnapshot_def parsed)
  have kept: "pkgSnapshotToResolution semver_valid url resolveUrl isGit ?dp
      (p\<lparr>pkgResolution := Some (TarballResolution t (Some integrity) None)\<rparr>) regs =
      Inr (TarballResolution t (Some integrity) None)"
    using assms by (simp add: pkgSnapshotToResolution_def Let_def)
  have computed: "pkgSnapshotToResolution semver_valid url resolveUrl isGit ?dp
      (p\<lparr>pkgResolution := Some (IntegrityResolution integrity)\<rparr>) regs =
      Inr (TarballResolution (url name version ?reg) (Some integrity) None)"
    using assms(10) tarball nv [of "p\<lparr>pkgResolution := Some (IntegrityResolution integrity)\<rparr>"]
    by (simp add: pkgSnapshotToResolution_def Let_def)
  show ?thesis
  proof (cases "includeUrl \<or> removeProtocol (url name version ?reg) \<noteq> removeProtocol (replaceFirst ''%2f'' ''/'' t)")
    case True
    then have "toLockfileResolution url name version (TarballResolution t (Some integrity) None) ?reg includeUrl =
        Inr (TarballResolution t (Some integrity) None)"
      using assms(7) by (auto simp: toLockfileResolution_def Let_def)
    with kept show ?thesis unfolding reg by blast
  next
    case False
    then have "toLockfileResolution url name version (TarballResolution t (Some integrity) None) ?reg includeUrl =
        Inr (IntegrityResolution integrity)"
      using assms(7) by (auto simp: toLockfileResolution_def Let_def)
    with computed False show ?thesis unfolding reg by blast
  qed
qed

theorem resolution_roundtrip_witness:
  "\<exists>w t'. toLockfileResolution (\<lambda>n v r. r @ n @ ''/-/'' @ v) ''a'' ''1.0.0''
      (TarballResolution ''https://r/a/-/1.0.0'' (Some ''sha512-x'') None)
      (getRegistryByPackageName \<lparr>regDefault = ''https://r/'', regScopes = []\<rparr> ''a'') False = Inr w \<and>
    pkgSnapshotToResolution (\<lambda>v. v = ''1.0.0'') (\<lambda>n v r. r @ n @ ''/-/'' @ v) (\<lambda>t r. t) (\<lambda>_. False)
      (''a'' @ ''@'' @ ''1.0.0'') (emptyPackage\<lparr>pkgResolution := Some w\<rparr>) \<lparr>regDefault = ''https://r/'', regScopes = []\<rparr> =
    Inr (TarballResolution t' (Some ''sha512-x'') None)"
proof -
  have "plainVersion ''1.0.0''" by (simp add: plainVersion_def)
  with resolution_roundtrip [of "''a''" "''1.0.0''" "\<lambda>v. v = ''1.0.0''" "''https://r/a/-/1.0.0''"
      "''sha512-x''" "\<lambda>_. False" "\<lambda>t r. t" "\<lambda>n v r. r @ n @ ''/-/'' @ v"
      "\<lparr>regDefault = ''https://r/'', regScopes = []\<rparr>" False emptyPackage]
  show ?thesis by fastforce
qed

text \<open>The reference that a lockfile stores for a dependency points back to the dependency path it
  was made from: whatever alias the dependency has, \<open>refToRelative\<close> inverts \<open>depPathToRef\<close> on the paths of
  registry packages, with their patch hash and peers.\<close>

theorem depPathToRef_roundtrip:
  assumes "name \<noteq> []" "CHR ''@'' \<notin> set (tl name)" "CHR '':'' \<notin> set name" "CHR ''('' \<notin> set name"
    and "plainVersion v"
  shows "refToRelative (depPathToRef (name @ ''@'' @ v @ concat (map grp ws)) alias name) alias =
    Some (name @ ''@'' @ v @ concat (map grp ws))"
proof (cases "alias = name")
  case True
  then have "depPathToRef (name @ ''@'' @ v @ concat (map grp ws)) alias name = v @ concat (map grp ws)"
    by (simp add: depPathToRef_def startsWith_iff substr_def nat_add_distrib)
  then show ?thesis using refToRelative_version [OF assms(5), of ws name] True by simp
next
  case False
  let ?d = "name @ ''@'' @ v @ concat (map grp ws)"
  have d: "depPathToRef ?d alias name = ?d" using False by (simp add: depPathToRef_def)
  show ?thesis
  proof (cases "startsWith ?d ''@''")
    case True
    moreover have "\<not> startsWith ?d ''link:''" using True by (cases ?d) auto
    ultimately show ?thesis unfolding d by (simp add: refToRelative_def)
  next
    case no_scope: False
    then have at: "CHR ''@'' \<notin> set name" using assms(1,2) by (cases name) auto
    have "\<not> startsWith name ''link:''" using assms(3) by (auto simp: startsWith_iff)
    then have "\<not> startsWith ?d ''link:''"
      using startsWith_append_cut [of "CHR ''@''" "''link:''" name "v @ concat (map grp ws)"] by simp
    moreover have ix: "indexOf ?d CHR ''@'' = int (length name)"
      using indexOf_split [OF at] by simp
    moreover have c: "indexOf ?d c = - 1 \<or> int (length name) < indexOf ?d c" if "c \<in> set '':(''" for c
    proof (cases "c \<in> set (v @ concat (map grp ws))")
      case True
      then have "indexOf ?d c = int (length name) + indexOf (CHR ''@'' # v @ concat (map grp ws)) c"
        using that assms(3,4) indexOf_append_right [of c name "CHR ''@'' # v @ concat (map grp ws)"] by auto
      moreover have "0 < indexOf (CHR ''@'' # v @ concat (map grp ws)) c"
        using True that by (auto simp: indexOf_def)
      ultimately show ?thesis by simp
    next
      case False
      then have "c \<notin> set ?d" using that assms(3,4) by auto
      then show ?thesis by (simp only: indexOf_minus_one) simp
    qed
    have "indexOf ?d CHR '':'' = - 1 \<or> indexOf ?d CHR ''@'' < indexOf ?d CHR '':''"
      "indexOf ?d CHR ''('' = - 1 \<or> indexOf ?d CHR ''@'' < indexOf ?d CHR ''(''"
      unfolding ix by (rule c, simp)+
    then show ?thesis
      unfolding d refToRelative_def Let_def using no_scope calculation(1) ix by simp
  qed
qed

theorem depPathToRef_roundtrip_witness:
  "refToRelative (depPathToRef ''@s/foo@1.0.0(bar@2.0.0)'' ''alias'' ''@s/foo'') ''alias'' =
    Some ''@s/foo@1.0.0(bar@2.0.0)''"
  using depPathToRef_roundtrip [of "''@s/foo''" "''1.0.0''" "[''bar@2.0.0'']" "''alias''"]
  by (simp add: plainVersion_def grp_def)

end
