(* ===== verification/LockfileConverters.thy ===== *)
theory LockfileConverters
  imports LockfileTypes
begin

text \<open>
  lockfile/fs/src/lockfileFormatConverters.ts: between the lockfile in memory and the one that is
  written to the disk. The file stores each package twice over: under \<open>snapshots\<close>, by full dependency
  path, what depends on the peers, and under \<open>packages\<close>, by the path without its suffix, what does not;
  and it stores the specifier of a direct dependency beside its version.

  Both halves of a package are \<open>packageSnapshot\<close> records whose other fields are absent, as \<open>pick\<close> gives
  them. \<open>delete newLockfile.settings.injectWorkspacePackages\<close> also writes to the settings of the
  argument when the code has not copied them; the model returns the result and leaves the argument.
\<close>

section \<open>To the file\<close>

definition pickSnapshot :: "packageSnapshot \<Rightarrow> packageSnapshot" where
  "pickSnapshot pkg = emptyPackage\<lparr>
     dependencies := dependencies pkg,
     optionalDependencies := optionalDependencies pkg,
     transitivePeerDependencies := transitivePeerDependencies pkg,
     optional := optional pkg,
     pkgId := pkgId pkg\<rparr>"

definition pickInfo :: "packageSnapshot \<Rightarrow> packageSnapshot" where
  "pickInfo pkg = emptyPackage\<lparr>
     bundledDependencies := bundledDependencies pkg,
     cpu := cpu pkg,
     deprecated := deprecated pkg,
     engines := engines pkg,
     hasBin := hasBin pkg,
     libc := libc pkg,
     pkgName := pkgName pkg,
     os := os pkg,
     peerDependencies := peerDependencies pkg,
     peerDependenciesMeta := peerDependenciesMeta pkg,
     pkgResolution := pkgResolution pkg,
     pkgVersion := pkgVersion pkg\<rparr>"

definition splitPackage ::
    "depPath \<times> packageSnapshot \<Rightarrow> packageSnapshot obj \<times> packageSnapshot obj \<Rightarrow>
     packageSnapshot obj \<times> packageSnapshot obj" where
  "splitPackage entry acc =
     (case (entry, acc) of ((depPath, pkg), (pkgs, snaps)) \<Rightarrow>
        let snaps' = jset depPath (pickSnapshot pkg) snaps; key = removeSuffix depPath in
        (if map_of pkgs key = None then jset key (pickInfo pkg) pkgs else pkgs, snaps'))"

definition convertResolvedDependencies :: "deps \<Rightarrow> deps \<Rightarrow> specifierAndResolution obj" where
  "convertResolvedDependencies resolvedDependencies specs =
     map (\<lambda>(depName, version).
       (depName, \<lparr>inlineSpecifier = map_of specs depName, inlineVersion = version\<rparr>)) resolvedDependencies"

definition convertProjectSnapshot :: "projectSnapshot \<Rightarrow> lockfileFileProject" where
  "convertProjectSnapshot p = \<lparr>
     fileProdDeps = Some (convertResolvedDependencies (orEmpty (prodDeps p)) (specifiers p)),
     fileOptDeps = Some (convertResolvedDependencies (orEmpty (optDeps p)) (specifiers p)),
     fileDevDeps = Some (convertResolvedDependencies (orEmpty (devDeps p)) (specifiers p)),
     fileDependenciesMeta = dependenciesMeta p,
     filePublishDirectory = publishDirectory p\<rparr>"

text \<open>\<open>nonEmpty\<close> is the deletion of a field that is absent or empty.\<close>

definition nonEmpty :: "'a list option \<Rightarrow> 'a list option" where
  "nonEmpty m = (case m of Some (x # xs) \<Rightarrow> Some (x # xs) | _ \<Rightarrow> None)"

definition convertSettings :: "lockfileSettings option \<Rightarrow> lockfileSettings option" where
  "convertSettings s = map_option (\<lambda>s.
     let s1 = (if peersSuffixMaxLength s = Some 1000 then s\<lparr>peersSuffixMaxLength := None\<rparr> else s)
     in if injectWorkspacePackages s1 = Some False then s1\<lparr>injectWorkspacePackages := None\<rparr> else s1) s"

definition normalizeImporter :: "lockfileFileProject \<Rightarrow> lockfileFileProject" where
  "normalizeImporter importer = \<lparr>
     fileProdDeps = nonEmpty (fileProdDeps importer),
     fileOptDeps = nonEmpty (fileOptDeps importer),
     fileDevDeps = nonEmpty (fileDevDeps importer),
     fileDependenciesMeta = nonEmpty (fileDependenciesMeta importer),
     filePublishDirectory = nonEmpty (filePublishDirectory importer)\<rparr>"

text \<open>The groups that \<open>/(?:\([^)]+\))+$/\<close> matches: state 0 expects a group, 1 its first character,
  2 the rest of it.\<close>

fun groupsOnly :: "nat \<Rightarrow> str \<Rightarrow> bool" where
  "groupsOnly st [] \<longleftrightarrow> st = 0"
| "groupsOnly st (c # s) \<longleftrightarrow>
     (if st = 0 then c = CHR ''('' \<and> groupsOnly 1 s
      else if st = 1 then c \<noteq> CHR '')'' \<and> groupsOnly 2 s
      else if c = CHR '')'' then groupsOnly 0 s else groupsOnly 2 s)"

fun stripGroups :: "str \<Rightarrow> str" where
  "stripGroups [] = []"
| "stripGroups (c # s) = (if groupsOnly 0 (c # s) then [] else c # stripGroups s)"

text \<open>The local function \<open>refToRelative\<close> of the file.\<close>

definition timeRefToRelative :: "str \<Rightarrow> str \<Rightarrow> str option" where
  "timeRefToRelative reference name =
     (if startsWith reference ''link:'' then None
      else if startsWith reference ''file:'' then Some reference
      else if CHR ''/'' \<notin> set reference \<or> CHR ''/'' \<notin> set (stripGroups reference)
      then Some (''/'' @ name @ ''@'' @ reference)
      else Some reference)"

fun fileField :: "depField \<Rightarrow> lockfileFileProject \<Rightarrow> specifierAndResolution obj option" where
  "fileField OptionalDependencies p = fileOptDeps p"
| "fileField Dependencies p = fileProdDeps p"
| "fileField DevDependencies p = fileDevDeps p"

definition refWithoutPeerSuffix :: "str \<Rightarrow> str" where
  "refWithoutPeerSuffix version =
     (let suffixStart = indexOf version CHR ''(''
      in if suffixStart = - 1 then version else slice version 0 suffixStart)"

definition rootDepPaths :: "lockfileFileProject obj \<Rightarrow> str list" where
  "rootDepPaths imps = uniq (concat (map (\<lambda>importer.
     concat (map (\<lambda>depType. List.map_filter (\<lambda>(depName, ref).
         case timeRefToRelative (refWithoutPeerSuffix (inlineVersion ref)) depName of
           None \<Rightarrow> None | Some depPath \<Rightarrow> if depPath = [] then None else Some depPath)
       (orEmpty (fileField depType importer))) DEPENDENCIES_FIELDS)) (vals imps)))"

definition pruneTimeInLockfile :: "str obj \<Rightarrow> lockfileFileProject obj \<Rightarrow> str obj" where
  "pruneTimeInLockfile time imps = filter (\<lambda>(depPath, _). depPath \<in> set (rootDepPaths imps)) time"

definition normalizeLockfile :: "lockfileFile \<Rightarrow> lockfileFile" where
  "normalizeLockfile lockfile = lockfile\<lparr>
     fileImporters := Some (map (\<lambda>(i, importer). (i, normalizeImporter importer)) (orEmpty (fileImporters lockfile))),
     filePackages := nonEmpty (filePackages lockfile),
     fileSnapshots := nonEmpty (fileSnapshots lockfile),
     lockfileTime := map_option (\<lambda>time. pruneTimeInLockfile time (orEmpty (fileImporters lockfile)))
       (lockfileTime lockfile),
     catalogs := nonEmpty (catalogs lockfile),
     overrides := nonEmpty (overrides lockfile),
     patchedDependencies := nonEmpty (patchedDependencies lockfile),
     packageExtensionsChecksum := nonEmpty (packageExtensionsChecksum lockfile),
     ignoredOptionalDependencies := nonEmpty (ignoredOptionalDependencies lockfile),
     pnpmfileChecksum := nonEmpty (pnpmfileChecksum lockfile)\<rparr>"

definition convertToLockfileFile :: "lockfileObject \<Rightarrow> lockfileFile" where
  "convertToLockfileFile lockfile =
     (let (pkgs, snaps) = fold splitPackage (orEmpty (packages lockfile)) ([], [])
      in normalizeLockfile \<lparr>
           catalogs = catalogs lockfile,
           ignoredOptionalDependencies = ignoredOptionalDependencies lockfile,
           lockfileVersion = LOCKFILE_VERSION,
           overrides = overrides lockfile,
           packageExtensionsChecksum = packageExtensionsChecksum lockfile,
           patchedDependencies = patchedDependencies lockfile,
           pnpmfileChecksum = pnpmfileChecksum lockfile,
           settings = convertSettings (settings lockfile),
           lockfileTime = lockfileTime lockfile,
           fileImporters = Some (map (\<lambda>(i, p). (i, convertProjectSnapshot p)) (importers lockfile)),
           filePackages = Some pkgs,
           fileSnapshots = Some snaps\<rparr>)"

section \<open>From the file\<close>

definition conflictError :: "str \<Rightarrow> js_error" where
  "conflictError depName = PlainError
     (''Project snapshot lists the same dependency more than once with conflicting versions: '' @ depName)"

text \<open>\<open>moveSpecifiers\<close>: it returns the versions and adds to the specifiers. Writing an \<open>undefined\<close>
  specifier where there is none leaves nothing to read, so it is no write.\<close>

fun moveSpecifiers :: "specifierAndResolution obj \<Rightarrow> deps \<Rightarrow> deps \<Rightarrow> js_error + deps \<times> deps" where
  "moveSpecifiers [] resolved specs = Inr (resolved, specs)"
| "moveSpecifiers ((depName, sr) # from) resolved specs =
     (if map_of specs depName \<noteq> None \<and> map_of specs depName \<noteq> inlineSpecifier sr
      then Inl (conflictError depName)
      else moveSpecifiers from (jset depName (inlineVersion sr) resolved)
             (case inlineSpecifier sr of None \<Rightarrow> specs | Some s \<Rightarrow> jset depName s specs))"

definition moveBlock :: "specifierAndResolution obj option \<Rightarrow> deps \<Rightarrow> js_error + deps option \<times> deps" where
  "moveBlock block specs =
     (case block of None \<Rightarrow> Inr (None, specs)
      | Some b \<Rightarrow> sbind (moveSpecifiers b [] specs) (\<lambda>(resolved, specs'). Inr (Some resolved, specs')))"

definition revertProjectSnapshot :: "lockfileFileProject \<Rightarrow> js_error + projectSnapshot" where
  "revertProjectSnapshot from =
     sbind (moveBlock (fileProdDeps from) []) (\<lambda>(prod, s1).
     sbind (moveBlock (fileDevDeps from) s1) (\<lambda>(dev, s2).
     sbind (moveBlock (fileOptDeps from) s2) (\<lambda>(opt, s3).
     Inr \<lparr>specifiers = s3, prodDeps = prod, optDeps = opt, devDeps = dev,
          dependenciesMeta = fileDependenciesMeta from,
          publishDirectory = filePublishDirectory from\<rparr>)))"

definition joinPackage :: "packageSnapshot obj \<Rightarrow> depPath \<times> packageSnapshot \<Rightarrow> depPath \<times> packageSnapshot" where
  "joinPackage pkgs entry =
     (case entry of (depPath, snap) \<Rightarrow>
        (depPath, case map_of pkgs (removeSuffix depPath) of None \<Rightarrow> snap | Some info \<Rightarrow> spreadPackage snap info))"

definition convertToLockfileObject :: "lockfileFile \<Rightarrow> js_error + lockfileObject" where
  "convertToLockfileObject lockfile =
     sbind (smap (\<lambda>(i, p). sbind (revertProjectSnapshot p) (\<lambda>q. Inr (i, q))) (orEmpty (fileImporters lockfile)))
       (\<lambda>imps. Inr \<lparr>
          catalogs = catalogs lockfile,
          ignoredOptionalDependencies = ignoredOptionalDependencies lockfile,
          lockfileVersion = lockfileVersion lockfile,
          overrides = overrides lockfile,
          packageExtensionsChecksum = packageExtensionsChecksum lockfile,
          patchedDependencies = patchedDependencies lockfile,
          pnpmfileChecksum = pnpmfileChecksum lockfile,
          settings = settings lockfile,
          lockfileTime = lockfileTime lockfile,
          importers = imps,
          packages = Some (map (joinPackage (orEmpty (filePackages lockfile))) (orEmpty (fileSnapshots lockfile)))\<rparr>)"

section \<open>Packages\<close>

definition infoAgrees :: "packageSnapshots \<Rightarrow> bool" where
  "infoAgrees ps \<longleftrightarrow> (\<forall>(k, p) \<in> set ps. \<forall>(k', p') \<in> set ps.
     removeSuffix k = removeSuffix k' \<longrightarrow> pickInfo p = pickInfo p')"

lemma spread_pick: "spreadPackage (pickSnapshot p) (pickInfo p) = p\<lparr>patched := None\<rparr>"
  by (simp add: spreadPackage_def pickSnapshot_def pickInfo_def emptyPackage_def)

lemma splitPackage_fold:
  assumes "distinct (keys (pre @ ps))" "infoAgrees (pre @ ps)"
    and "snaps = map (\<lambda>(k, p). (k, pickSnapshot p)) pre"
    and "\<forall>(k, p) \<in> set pre. map_of pkgs (removeSuffix k) = Some (pickInfo p)"
    and "\<forall>key i. map_of pkgs key = Some i \<longrightarrow> (\<exists>(k, p) \<in> set pre. removeSuffix k = key)"
  shows "\<exists>pkgs'. fold splitPackage ps (pkgs, snaps) = (pkgs', map (\<lambda>(k, p). (k, pickSnapshot p)) (pre @ ps)) \<and>
    (\<forall>(k, p) \<in> set (pre @ ps). map_of pkgs' (removeSuffix k) = Some (pickInfo p))"
  using assms
proof (induction ps arbitrary: pre pkgs snaps)
  case Nil
  then show ?case by simp
next
  case (Cons e ps)
  obtain k p where e: "e = (k, p)" by (cases e)
  let ?pkgs = "if map_of pkgs (removeSuffix k) = None then jset (removeSuffix k) (pickInfo p) pkgs else pkgs"
  let ?snaps = "map (\<lambda>(k, p). (k, pickSnapshot p)) (pre @ [e])"
  have "k \<notin> set (keys snaps)" using Cons.prems(1,3) e by (auto simp: image_iff)
  then have split: "splitPackage e (pkgs, snaps) = (?pkgs, ?snaps)"
    using Cons.prems(3) by (simp add: splitPackage_def e jset_new Let_def)
  have all: "\<forall>(k', p') \<in> set (pre @ [e]). map_of ?pkgs (removeSuffix k') = Some (pickInfo p')"
  proof (clarify)
    fix k' p' assume "(k', p') \<in> set (pre @ [e])"
    then consider "(k', p') \<in> set pre" | "k' = k" "p' = p" using e by auto
    then show "map_of ?pkgs (removeSuffix k') = Some (pickInfo p')"
    proof cases
      case 1
      then have "map_of pkgs (removeSuffix k') = Some (pickInfo p')" using Cons.prems(4) by auto
      then show ?thesis by (auto simp: alist.get_put)
    next
      case 2
      show ?thesis
      proof (cases "map_of pkgs (removeSuffix k)")
        case None
        then show ?thesis using 2 by (simp add: alist.get_put)
      next
        case (Some i)
        then obtain k2 p2 where k2: "(k2, p2) \<in> set pre" "removeSuffix k2 = removeSuffix k"
          using Cons.prems(5) by blast
        then have "pickInfo p2 = pickInfo p"
          using Cons.prems(2) e unfolding infoAgrees_def by (auto split: prod.splits)
        moreover have "map_of pkgs (removeSuffix k2) = Some (pickInfo p2)" using Cons.prems(4) k2 by auto
        ultimately show ?thesis using Some 2 k2 by simp
      qed
    qed
  qed
  have src: "\<forall>key i. map_of ?pkgs key = Some i \<longrightarrow> (\<exists>(k, p) \<in> set (pre @ [e]). removeSuffix k = key)"
    using Cons.prems(5) e by (auto simp: alist.get_put split: if_splits)
  from Cons.IH [of "pre @ [e]" ?snaps ?pkgs, OF _ _ refl all src] Cons.prems(1,2)
  show ?case by (simp add: split)
qed

lemma joinPackage_split:
  assumes "distinct (keys ps)" "infoAgrees ps" "fold splitPackage ps ([], []) = (pkgs, snaps)"
  shows "map (joinPackage (orEmpty (nonEmpty (Some pkgs)))) (orEmpty (nonEmpty (Some snaps))) =
    map (\<lambda>(k, p). (k, p\<lparr>patched := None\<rparr>)) ps"
proof -
  have ne: "orEmpty (nonEmpty m) = orEmpty m" for m :: "packageSnapshot obj option"
    by (auto simp: nonEmpty_def split: option.splits list.splits)
  have "snaps = map (\<lambda>(k, p). (k, pickSnapshot p)) ps \<and>
      (\<forall>(k, p) \<in> set ps. map_of pkgs (removeSuffix k) = Some (pickInfo p))"
    using splitPackage_fold [of "[]" ps "[]" "[]"] assms by auto
  then show ?thesis by (auto simp: ne joinPackage_def spread_pick)
qed

section \<open>Importers\<close>

lemma moveSpecifiers_convert:
  assumes "distinct (keys ds)" "set (keys ds) \<inter> set (keys resolved) = {}"
    and "\<forall>k v. map_of s k = Some v \<longrightarrow> map_of specs k = Some v"
  shows "\<exists>s'. moveSpecifiers (convertResolvedDependencies ds specs) resolved s = Inr (resolved @ ds, s') \<and>
    (\<forall>k. map_of s' k = (if k \<in> set (keys ds) then map_of specs k else map_of s k))"
  using assms
proof (induction ds arbitrary: resolved s)
  case Nil
  then show ?case by (simp add: convertResolvedDependencies_def)
next
  case (Cons d ds)
  obtain n v where d: "d = (n, v)" by (cases d)
  let ?s = "case map_of specs n of None \<Rightarrow> s | Some x \<Rightarrow> jset n x s"
  have "n \<notin> set (keys resolved)" using Cons.prems(2) d by auto
  then have r: "jset n v resolved = resolved @ [d]" by (simp add: jset_new d)
  have get: "map_of ?s k = (if k = n then map_of specs n else map_of s k)" for k
    using Cons.prems(3) by (cases "map_of specs n"; cases "map_of s n") (auto simp: alist.get_put)
  then have sub: "\<forall>k w. map_of ?s k = Some w \<longrightarrow> map_of specs k = Some w"
    using Cons.prems(3) by auto
  have dist: "distinct (keys ds)" "set (keys ds) \<inter> set (keys (resolved @ [d])) = {}"
    using Cons.prems(1,2) d by auto
  obtain s' where s': "moveSpecifiers (convertResolvedDependencies ds specs) (resolved @ [d]) ?s =
      Inr ((resolved @ [d]) @ ds, s')"
    "\<forall>k. map_of s' k = (if k \<in> set (keys ds) then map_of specs k else map_of ?s k)"
    using Cons.IH [OF dist sub] by blast
  have "map_of s n = None \<or> map_of s n = map_of specs n"
    using Cons.prems(3) by (cases "map_of s n") auto
  then have "moveSpecifiers (convertResolvedDependencies (d # ds) specs) resolved s = Inr (resolved @ d # ds, s')"
    using s'(1) by (auto simp: d convertResolvedDependencies_def r [unfolded d])
  moreover have "\<forall>k. map_of s' k = (if k \<in> set (keys (d # ds)) then map_of specs k else map_of s k)"
  proof
    fix k
    show "map_of s' k = (if k \<in> set (keys (d # ds)) then map_of specs k else map_of s k)"
      unfolding s'(2) [rule_format, of k] get [of k] by (simp add: d)
  qed
  ultimately show ?case by blast
qed

lemma moveBlock_convert:
  assumes "wfDeps ds" "\<forall>k v. map_of s k = Some v \<longrightarrow> map_of specs k = Some v"
  shows "\<exists>s' b. moveBlock (nonEmpty (Some (convertResolvedDependencies (orEmpty ds) specs))) s = Inr (b, s') \<and>
    b = nonEmpty ds \<and>
    (\<forall>k. map_of s' k = (if k \<in> set (keys (orEmpty ds)) then map_of specs k else map_of s k)) \<and>
    (\<forall>k v. map_of s' k = Some v \<longrightarrow> map_of specs k = Some v)"
proof (cases "orEmpty ds = []")
  case True
  then have "nonEmpty ds = None" by (cases ds) (simp_all add: nonEmpty_def)
  with True assms(2) show ?thesis
    by (simp add: moveBlock_def nonEmpty_def convertResolvedDependencies_def)
next
  case False
  then obtain d es where ds: "ds = Some (d # es)" by (cases ds) (auto simp: neq_Nil_conv)
  obtain s' where s': "moveSpecifiers (convertResolvedDependencies (d # es) specs) [] s = Inr (d # es, s')"
    "\<forall>k. map_of s' k = (if k \<in> set (keys (d # es)) then map_of specs k else map_of s k)"
    using moveSpecifiers_convert [of "d # es" "[]" s specs] assms ds by (auto simp: wfDeps_def)
  have "nonEmpty (Some (convertResolvedDependencies (d # es) specs)) =
      Some (convertResolvedDependencies (d # es) specs)"
    by (simp add: nonEmpty_def convertResolvedDependencies_def)
  then have "moveBlock (nonEmpty (Some (convertResolvedDependencies (orEmpty ds) specs))) s = Inr (nonEmpty ds, s')"
    using s'(1) by (simp add: moveBlock_def ds) (simp add: nonEmpty_def)
  then show ?thesis using s'(2) assms(2) ds by auto
qed

definition usedNames :: "projectSnapshot \<Rightarrow> str set" where
  "usedNames p = set (keys (orEmpty (prodDeps p))) \<union> set (keys (orEmpty (devDeps p))) \<union>
     set (keys (orEmpty (optDeps p)))"

definition importerRestored :: "projectSnapshot \<Rightarrow> projectSnapshot \<Rightarrow> bool" where
  "importerRestored p q \<longleftrightarrow>
     prodDeps q = nonEmpty (prodDeps p) \<and> devDeps q = nonEmpty (devDeps p) \<and>
     optDeps q = nonEmpty (optDeps p) \<and>
     dependenciesMeta q = nonEmpty (dependenciesMeta p) \<and>
     publishDirectory q = nonEmpty (publishDirectory p) \<and>
     (\<forall>k. map_of (specifiers q) k = (if k \<in> usedNames p then map_of (specifiers p) k else None))"

lemma revert_convert:
  assumes "wfProject p"
  shows "\<exists>q. revertProjectSnapshot (normalizeImporter (convertProjectSnapshot p)) = Inr q \<and> importerRestored p q"
proof -
  have wf: "wfDeps (prodDeps p)" "wfDeps (devDeps p)" "wfDeps (optDeps p)"
    using assms by (simp_all add: wfProject_def)
  let ?c = "\<lambda>ds. nonEmpty (Some (convertResolvedDependencies (orEmpty ds) (specifiers p)))"
  obtain s1 where s1: "moveBlock (?c (prodDeps p)) [] = Inr (nonEmpty (prodDeps p), s1)"
    "\<forall>k. map_of s1 k = (if k \<in> set (keys (orEmpty (prodDeps p))) then map_of (specifiers p) k else None)"
    "\<forall>k v. map_of s1 k = Some v \<longrightarrow> map_of (specifiers p) k = Some v"
    using moveBlock_convert [OF wf(1), of "[]" "specifiers p"] by auto
  obtain s2 where s2: "moveBlock (?c (devDeps p)) s1 = Inr (nonEmpty (devDeps p), s2)"
    "\<forall>k. map_of s2 k = (if k \<in> set (keys (orEmpty (devDeps p))) then map_of (specifiers p) k else map_of s1 k)"
    "\<forall>k v. map_of s2 k = Some v \<longrightarrow> map_of (specifiers p) k = Some v"
    using moveBlock_convert [OF wf(2) s1(3)] by blast
  obtain s3 where s3: "moveBlock (?c (optDeps p)) s2 = Inr (nonEmpty (optDeps p), s3)"
    "\<forall>k. map_of s3 k = (if k \<in> set (keys (orEmpty (optDeps p))) then map_of (specifiers p) k else map_of s2 k)"
    using moveBlock_convert [OF wf(3) s2(3)] by blast
  have "map_of s3 k = (if k \<in> usedNames p then map_of (specifiers p) k else None)" for k
    unfolding s3(2)[rule_format] s2(2)[rule_format] s1(2)[rule_format] usedNames_def by auto
  then show ?thesis
    using s1(1) s2(1) s3(1)
    by (simp add: revertProjectSnapshot_def normalizeImporter_def convertProjectSnapshot_def importerRestored_def)
qed

section \<open>Properties of the converters\<close>

lemma convertToLockfileFile_fields:
  assumes "fold splitPackage (orEmpty (packages l)) ([], []) = (pkgs, snaps)"
  shows "fileImporters (convertToLockfileFile l) =
      Some (map (\<lambda>(i, p). (i, normalizeImporter (convertProjectSnapshot p))) (importers l))"
    and "filePackages (convertToLockfileFile l) = nonEmpty (Some pkgs)"
    and "fileSnapshots (convertToLockfileFile l) = nonEmpty (Some snaps)"
  using assms by (auto simp: convertToLockfileFile_def normalizeLockfile_def)

text \<open>C2. Writing a lockfile and reading it back gives the same packages and importers: each package
  keeps its dependency path and every field except \<open>patched\<close>, and each importer keeps its dependency
  blocks, its metadata and the specifiers of the dependencies it has; reading never reports conflicting
  specifiers. The one condition on the packages is that those that differ only in their peers agree on
  the fields that are stored once for all of them.\<close>

theorem converters_roundtrip:
  assumes "wfLockfile l" "infoAgrees (orEmpty (packages l))"
  shows "\<exists>r. convertToLockfileObject (convertToLockfileFile l) = Inr r \<and>
    packages r = Some (map (\<lambda>(k, p). (k, p\<lparr>patched := None\<rparr>)) (orEmpty (packages l))) \<and>
    list_all2 (\<lambda>(i, p) (j, q). i = j \<and> importerRestored p q) (importers l) (importers r)"
proof -
  obtain pkgs snaps where f: "fold splitPackage (orEmpty (packages l)) ([], []) = (pkgs, snaps)"
    by (metis prod.exhaust)
  note fields = convertToLockfileFile_fields [OF f]
  have "distinct (keys (orEmpty (packages l)))" "\<forall>(i, p) \<in> set (importers l). wfProject p"
    using assms(1) by (auto simp: wfLockfile_def list_all_iff)
  note pk = joinPackage_split [OF this(1) assms(2) f]
  let ?rev = "\<lambda>(i, p). sbind (revertProjectSnapshot p) (\<lambda>q. Inr (i, q))"
  have "\<exists>qs. smap ?rev (map (\<lambda>(i, p). (i, normalizeImporter (convertProjectSnapshot p))) imps) = Inr qs \<and>
      list_all2 (\<lambda>(i, p) (j, q). i = j \<and> importerRestored p q) imps qs"
    if "\<forall>(i, p) \<in> set imps. wfProject p" for imps :: "projectSnapshot obj"
    using that
  proof (induction imps)
    case (Cons e imps)
    obtain i p where e: "e = (i, p)" by (cases e)
    obtain q where "revertProjectSnapshot (normalizeImporter (convertProjectSnapshot p)) = Inr q"
      "importerRestored p q" using revert_convert [of p] Cons.prems e by auto
    moreover obtain qs where "smap ?rev (map (\<lambda>(i, p). (i, normalizeImporter (convertProjectSnapshot p))) imps) = Inr qs"
      "list_all2 (\<lambda>(i, p) (j, q). i = j \<and> importerRestored p q) imps qs"
      using Cons.IH Cons.prems by auto
    ultimately show ?case by (auto simp: e)
  qed simp
  from this [OF \<open>\<forall>(i, p) \<in> set (importers l). wfProject p\<close>] obtain qs where
    "smap ?rev (map (\<lambda>(i, p). (i, normalizeImporter (convertProjectSnapshot p))) (importers l)) = Inr qs"
    "list_all2 (\<lambda>(i, p) (j, q). i = j \<and> importerRestored p q) (importers l) qs" by blast
  then show ?thesis
    by (simp add: convertToLockfileObject_def fields pk)
qed

theorem converters_roundtrip_witness:
  "\<exists>r. convertToLockfileObject (convertToLockfileFile (emptyLockfile\<lparr>
      importers := [(''.'', emptyProject\<lparr>specifiers := [(''a'', ''^1'')], prodDeps := Some [(''a'', ''1.0.0'')]\<rparr>)],
      packages := Some [(''a@1.0.0'', emptyPackage\<lparr>hasBin := Some True\<rparr>)]\<rparr>)) = Inr r \<and>
    packages r = Some [(''a@1.0.0'', emptyPackage\<lparr>hasBin := Some True\<rparr>)]"
  using converters_roundtrip [of "emptyLockfile\<lparr>
      importers := [(''.'', emptyProject\<lparr>specifiers := [(''a'', ''^1'')], prodDeps := Some [(''a'', ''1.0.0'')]\<rparr>)],
      packages := Some [(''a@1.0.0'', emptyPackage\<lparr>hasBin := Some True\<rparr>)]\<rparr>"]
  by (auto simp: wfLockfile_def wfProject_def wfPackage_def wfDeps_def emptyProject_def emptyPackage_def
      infoAgrees_def)

text \<open>The publication times are pruned by keys in the format of earlier lockfile versions.\<close>

lemma timeRefToRelative_slash:
  "timeRefToRelative ref name = Some k \<Longrightarrow> startsWith k ''/'' \<or> startsWith k ''file:'' \<or> CHR ''/'' \<in> set k"
  by (auto simp: timeRefToRelative_def split: if_splits)

text \<open>The publication times that are kept when the lockfile is written are those of the importers'
  direct dependencies, under keys as the local \<open>refToRelative\<close> builds them: \<open>/name@version\<close> for a package
  of the registry. A time stored under the id of an unscoped registry package, \<open>name@version\<close> without
  a slash, which is how the resolver stores it, is always dropped.\<close>

theorem time_kept_keys:
  assumes "lockfileTime l = Some time"
  shows "\<exists>kept. lockfileTime (convertToLockfileFile l) = Some kept \<and> set kept \<subseteq> set time \<and>
    (\<forall>k \<in> set (keys kept). \<exists>(i, p) \<in> set (importers l). \<exists>f. \<exists>(name, version) \<in> set (orEmpty (projectField f p)).
       timeRefToRelative (takeWhile (\<lambda>c. c \<noteq> CHR ''('') version) name = Some k) \<and>
    (\<forall>k \<in> set (keys kept). CHR ''/'' \<notin> set k \<longrightarrow> startsWith k ''file:'')"
proof -
  let ?imps = "map (\<lambda>(i, p). (i, convertProjectSnapshot p)) (importers l)"
  let ?kept = "pruneTimeInLockfile time ?imps"
  have kept: "lockfileTime (convertToLockfileFile l) = Some ?kept"
    using assms by (auto simp: convertToLockfileFile_def normalizeLockfile_def split: prod.splits)
  have cut: "refWithoutPeerSuffix v = takeWhile (\<lambda>c. c \<noteq> CHR ''('') v" for v
  proof (cases "CHR ''('' \<in> set v")
    case True
    then have "indexOf v CHR ''('' = int (length (takeWhile (\<lambda>c. c \<noteq> CHR ''('') v))" by (simp add: indexOf_def)
    then show ?thesis
      using True by (simp add: refWithoutPeerSuffix_def slice_def takeWhile_eq_take [symmetric])
  next
    case False
    then have "\<forall>x \<in> set v. x \<noteq> CHR ''(''" by auto
    then have "takeWhile (\<lambda>c. c \<noteq> CHR ''('') v = v" by (rule takeWhile_eq_all_conv [THEN iffD2])
    then show ?thesis using False unfolding refWithoutPeerSuffix_def Let_def indexOf_minus_one by (metis (mono_tags))
  qed
  have field: "orEmpty (fileField f (convertProjectSnapshot p)) =
      convertResolvedDependencies (orEmpty (projectField f p)) (specifiers p)" for f p
    by (cases f) (simp_all add: convertProjectSnapshot_def)
  have root: "\<exists>(i, p) \<in> set (importers l). \<exists>f. \<exists>(name, version) \<in> set (orEmpty (projectField f p)).
       timeRefToRelative (takeWhile (\<lambda>c. c \<noteq> CHR ''('') version) name = Some k"
    if "k \<in> set (rootDepPaths ?imps)" for k
  proof -
    from that obtain i p f name sr where p: "(i, p) \<in> set (importers l)"
      "(name, sr) \<in> set (orEmpty (fileField f (convertProjectSnapshot p)))"
      "timeRefToRelative (takeWhile (\<lambda>c. c \<noteq> CHR ''('') (inlineVersion sr)) name = Some k"
      by (auto simp: rootDepPaths_def map_filter_def cut split: option.splits if_splits)
    then have "(name, inlineVersion sr) \<in> set (orEmpty (projectField f p))"
      unfolding field by (auto simp: convertResolvedDependencies_def)
    with p show ?thesis by blast
  qed
  have sub: "set (keys ?kept) \<subseteq> set (rootDepPaths ?imps)" "set ?kept \<subseteq> set time"
    by (auto simp: pruneTimeInLockfile_def)
  have slash: "startsWith k ''file:''" if "k \<in> set (keys ?kept)" "CHR ''/'' \<notin> set k" for k
  proof -
    have "k \<in> set (rootDepPaths ?imps)" using that(1) sub(1) by blast
    from root [OF this] obtain ref name where "timeRefToRelative ref name = Some k" by blast
    from timeRefToRelative_slash [OF this] that(2) show ?thesis by (auto simp: startsWith_iff)
  qed
  show ?thesis
    by (intro exI [of _ ?kept] conjI ballI impI kept sub(2) slash root) (use sub(1) in blast)+
qed

theorem time_kept_keys_witness:
  "\<exists>kept. lockfileTime (convertToLockfileFile (emptyLockfile\<lparr>
      importers := [(''.'', emptyProject\<lparr>specifiers := [(''foo'', ''1.0.0'')], prodDeps := Some [(''foo'', ''1.0.0'')]\<rparr>)],
      lockfileTime := Some [(''foo@1.0.0'', ''2021-02-11'')]\<rparr>)) = Some kept \<and>
    ''foo@1.0.0'' \<notin> set (keys kept)"
proof -
  let ?l = "emptyLockfile\<lparr>
      importers := [(''.'', emptyProject\<lparr>specifiers := [(''foo'', ''1.0.0'')], prodDeps := Some [(''foo'', ''1.0.0'')]\<rparr>)],
      lockfileTime := Some [(''foo@1.0.0'', ''2021-02-11'')]\<rparr>"
  have "lockfileTime ?l = Some [(''foo@1.0.0'', ''2021-02-11'')]" by simp
  from time_kept_keys [OF this] obtain kept where
    k: "lockfileTime (convertToLockfileFile ?l) = Some kept"
      "\<forall>k \<in> set (keys kept). CHR ''/'' \<notin> set k \<longrightarrow> startsWith k ''file:''" by blast
  have "CHR ''/'' \<notin> set ''foo@1.0.0''" "\<not> startsWith ''foo@1.0.0'' ''file:''" by simp_all
  with k(2) have "''foo@1.0.0'' \<notin> set (keys kept)" by blast
  with k(1) show ?thesis by blast
qed

end
