(* ===== verification/LockfileMerger.thy ===== *)
theory LockfileMerger
  imports LockfileTypes
begin

text \<open>
  lockfile/merger/src/index.ts: the lockfile that resolves a merge conflict between two. \<open>semver.gt\<close>
  and \<open>comverToSemver\<close> are parameters; the comparison may throw, as semver does on a string that is not
  a version, so it returns a sum, and every step of the merge that compares versions may fail with it.
\<close>

type_synonym valueMerger = "str option \<Rightarrow> str option \<Rightarrow> js_error + str option"

definition mergeKey :: "valueMerger \<Rightarrow> deps \<Rightarrow> deps \<Rightarrow> str \<Rightarrow> deps \<Rightarrow> js_error + deps" where
  "mergeKey valueMerger ourDict theirDict key newDict =
     sbind (valueMerger (map_of ourDict key) (map_of theirDict key)) (\<lambda>changedValue.
       Inr (if truthy changedValue then jset key (the changedValue) newDict else newDict))"

definition mergeDict :: "deps \<Rightarrow> deps \<Rightarrow> valueMerger \<Rightarrow> js_error + deps" where
  "mergeDict ourDict theirDict valueMerger =
     sfold (mergeKey valueMerger ourDict theirDict) (keys ourDict @ keys theirDict) []"

definition takeChangedValue :: valueMerger where
  "takeChangedValue ourValue theirValue =
     Inr (if ourValue = theirValue \<or> theirValue = None then ourValue else theirValue)"

definition mergeVersions :: "(str \<Rightarrow> str \<Rightarrow> js_error + bool) \<Rightarrow> valueMerger" where
  "mergeVersions semver_gt ourValue theirValue =
     (if ourValue = theirValue \<or> \<not> truthy theirValue then Inr ourValue
      else if \<not> truthy ourValue then Inr theirValue
      else sbind (semver_gt (hd (splitOn CHR ''('' (the ourValue))) (hd (splitOn CHR ''('' (the theirValue))))
             (\<lambda>gt. Inr (if gt then ourValue else theirValue)))"

text \<open>A merged block, deleted when it is empty.\<close>

definition mergeBlock ::
    "(str \<Rightarrow> str \<Rightarrow> js_error + bool) \<Rightarrow> deps option \<Rightarrow> deps option \<Rightarrow> js_error + deps option" where
  "mergeBlock semver_gt ourBlock theirBlock =
     sbind (mergeDict (orEmpty ourBlock) (orEmpty theirBlock) (mergeVersions semver_gt))
       (\<lambda>d. Inr (if d = [] then None else Some d))"

definition mergeImporter ::
    "(str \<Rightarrow> str \<Rightarrow> js_error + bool) \<Rightarrow> projectSnapshot option \<Rightarrow> projectSnapshot option \<Rightarrow>
     js_error + projectSnapshot" where
  "mergeImporter semver_gt our their =
     (let ours = (case our of None \<Rightarrow> emptyProject | Some p \<Rightarrow> p);
          theirs = (case their of None \<Rightarrow> emptyProject | Some p \<Rightarrow> p)
      in sbind (mergeBlock semver_gt (prodDeps ours) (prodDeps theirs)) (\<lambda>prod.
         sbind (mergeBlock semver_gt (devDeps ours) (devDeps theirs)) (\<lambda>dev.
         sbind (mergeBlock semver_gt (optDeps ours) (optDeps theirs)) (\<lambda>opt.
         sbind (mergeDict (specifiers ours) (specifiers theirs) takeChangedValue) (\<lambda>specs.
         Inr (emptyProject\<lparr>specifiers := specs, prodDeps := prod, devDeps := dev, optDeps := opt\<rparr>))))))"

definition mergePackage ::
    "(str \<Rightarrow> str \<Rightarrow> js_error + bool) \<Rightarrow> packageSnapshot option \<Rightarrow> packageSnapshot option \<Rightarrow>
     js_error + packageSnapshot" where
  "mergePackage semver_gt our their =
     (let ours = (case our of None \<Rightarrow> emptyPackage | Some p \<Rightarrow> p);
          theirs = (case their of None \<Rightarrow> emptyPackage | Some p \<Rightarrow> p);
          pkg = spreadPackage ours theirs
      in sbind (mergeBlock semver_gt (dependencies ours) (dependencies theirs)) (\<lambda>deps.
         sbind (mergeBlock semver_gt (optionalDependencies ours) (optionalDependencies theirs)) (\<lambda>opt.
         Inr (pkg\<lparr>dependencies := deps, optionalDependencies := opt\<rparr>))))"

definition mergeLockfileChanges ::
    "(str \<Rightarrow> str \<Rightarrow> js_error + bool) \<Rightarrow> (str \<Rightarrow> str) \<Rightarrow> lockfileObject \<Rightarrow> lockfileObject \<Rightarrow>
     js_error + lockfileObject" where
  "mergeLockfileChanges semver_gt comverToSemver ours theirs =
     sbind (semver_gt (comverToSemver (lockfileVersion theirs)) (comverToSemver (lockfileVersion ours)))
     (\<lambda>theirsNewer.
     let checksum = orElse (pnpmfileChecksum ours) (pnpmfileChecksum theirs);
         ignored = uniq (orEmpty (ignoredOptionalDependencies ours) @ orEmpty (ignoredOptionalDependencies theirs))
     in sbind (smap (\<lambda>importerId.
            sbind (mergeImporter semver_gt (map_of (importers ours) importerId) (map_of (importers theirs) importerId))
              (\<lambda>p. Inr (importerId, p)))
          (uniq (keys (importers ours) @ keys (importers theirs)))) (\<lambda>imps.
        sbind (smap (\<lambda>depPath.
            sbind (mergePackage semver_gt (map_of (orEmpty (packages ours)) depPath)
                     (map_of (orEmpty (packages theirs)) depPath))
              (\<lambda>p. Inr (depPath, p)))
          (uniq (keys (orEmpty (packages ours)) @ keys (orEmpty (packages theirs))))) (\<lambda>pkgs.
        Inr (emptyLockfile\<lparr>
          lockfileVersion := (if theirsNewer then lockfileVersion theirs else lockfileVersion ours),
          pnpmfileChecksum := (if truthy checksum then checksum else None),
          ignoredOptionalDependencies := (if ignored = [] then None else Some ignored),
          importers := imps,
          packages := Some pkgs\<rparr>))))"

section \<open>Merging dictionaries\<close>

text \<open>What a merged dictionary holds: each key of either side whose merged value is a non-empty
  string.\<close>

definition mergedDict :: "(str option \<Rightarrow> str option \<Rightarrow> str option) \<Rightarrow> deps \<Rightarrow> deps \<Rightarrow> str \<Rightarrow> str option" where
  "mergedDict f our their k =
     (if k \<in> set (keys our) \<union> set (keys their) \<and> truthy (f (map_of our k) (map_of their k))
      then f (map_of our k) (map_of their k) else None)"

lemma mergeKeys_Inr:
  "sfold (mergeKey m our their) ks d0 = Inr d \<Longrightarrow>
   map_of d k = (if k \<in> set ks \<and> truthy (projr (m (map_of our k) (map_of their k)))
        then projr (m (map_of our k) (map_of their k)) else map_of d0 k) \<and>
   (k \<in> set ks \<longrightarrow> (\<exists>v. m (map_of our k) (map_of their k) = Inr v))"
proof (induction ks arbitrary: d0)
  case (Cons x ks)
  from Cons.prems obtain v where v: "m (map_of our x) (map_of their x) = Inr v"
    "sfold (mergeKey m our their) ks (if truthy v then jset x (the v) d0 else d0) = Inr d"
    by (auto simp: mergeKey_def [of m our their x] sbind_Inr_iff)
  show ?case
  proof (cases "k = x")
    case True
    then show ?thesis
      using Cons.IH [OF v(2)] v(1) by (cases v) (simp_all add: alist.get_put)
  next
    case False
    then show ?thesis
      using Cons.IH [OF v(2)] by (simp add: alist.get_put)
  qed
qed simp

lemma mergeDict_Inr:
  assumes "mergeDict our their m = Inr d"
  shows "map_of d k = mergedDict (\<lambda>a b. projr (m a b)) our their k"
    and "k \<in> set (keys our) \<union> set (keys their) \<Longrightarrow> \<exists>v. m (map_of our k) (map_of their k) = Inr v"
proof -
  note s = mergeKeys_Inr [OF assms [unfolded mergeDict_def], of k]
  show "map_of d k = mergedDict (\<lambda>a b. projr (m a b)) our their k"
    unfolding conjunct1 [OF s] mergedDict_def by simp
  show "k \<in> set (keys our) \<union> set (keys their) \<Longrightarrow> \<exists>v. m (map_of our k) (map_of their k) = Inr v"
    using conjunct2 [OF s] by simp
qed

lemma mergeDict_total:
  assumes "\<And>k. \<exists>v. m (map_of our k) (map_of their k) = Inr v"
  shows "\<exists>d. mergeDict our their m = Inr d"
proof -
  have "\<exists>d. sfold (mergeKey m our their) ks d0 = Inr d" for ks d0
  proof (induction ks arbitrary: d0)
    case (Cons x ks)
    obtain v where "m (map_of our x) (map_of their x) = Inr v" using assms by blast
    then show ?case using Cons by (simp add: mergeKey_def [of m our their x])
  qed simp
  then show ?thesis by (simp add: mergeDict_def)
qed

text \<open>\<open>canCompare gt our their\<close>: the comparison does not throw on the versions of a dependency that
  the two sides have with different references.\<close>

definition canCompare :: "(str \<Rightarrow> str \<Rightarrow> js_error + bool) \<Rightarrow> deps \<Rightarrow> deps \<Rightarrow> bool" where
  "canCompare gt our their \<longleftrightarrow> (\<forall>k a b. map_of our k = Some a \<longrightarrow> map_of their k = Some b \<longrightarrow> a \<noteq> b \<longrightarrow>
     (\<exists>v. gt (takeWhile (\<lambda>c. c \<noteq> CHR ''('') a) (takeWhile (\<lambda>c. c \<noteq> CHR ''('') b) = Inr v))"

lemma mergeBlock_total:
  assumes "canCompare gt (orEmpty our) (orEmpty their)"
  shows "\<exists>d. mergeBlock gt our their = Inr d"
proof -
  have "\<exists>v. mergeVersions gt (map_of (orEmpty our) k) (map_of (orEmpty their) k) = Inr v" for k
  proof (cases "map_of (orEmpty our) k"; cases "map_of (orEmpty their) k")
    fix a b assume ab: "map_of (orEmpty our) k = Some a" "map_of (orEmpty their) k = Some b"
    then have "a = b \<or> (\<exists>v. gt (takeWhile (\<lambda>c. c \<noteq> CHR ''('') a) (takeWhile (\<lambda>c. c \<noteq> CHR ''('') b) = Inr v)"
      using assms by (auto simp: canCompare_def)
    then show ?thesis by (auto simp: ab mergeVersions_def hd_splitOn)
  qed (simp_all add: mergeVersions_def)
  then have "\<exists>d. mergeDict (orEmpty our) (orEmpty their) (mergeVersions gt) = Inr d" by (rule mergeDict_total)
  then show ?thesis by (auto simp: mergeBlock_def)
qed

section \<open>Properties of the merger\<close>

text \<open>A merged block against its two sides: a dependency is in it exactly when one of the sides has
  it, with the version of one of them; where the two differ it is ours when it is the greater one and
  theirs otherwise.\<close>

definition blockMerged :: "(str \<Rightarrow> str \<Rightarrow> js_error + bool) \<Rightarrow> deps \<Rightarrow> deps \<Rightarrow> deps \<Rightarrow> bool" where
  "blockMerged gt our their d \<longleftrightarrow>
     (\<forall>k. case (map_of our k, map_of their k) of
        (None, None) \<Rightarrow> map_of d k = None
      | (Some a, None) \<Rightarrow> map_of d k = (if a = [] then None else Some a)
      | (None, Some b) \<Rightarrow> map_of d k = (if b = [] then None else Some b)
      | (Some a, Some b) \<Rightarrow>
          map_of d k = (if a = b \<or> b = [] then (if a = [] then None else Some a)
            else if a = [] \<or> gt (takeWhile (\<lambda>c. c \<noteq> CHR ''('') a) (takeWhile (\<lambda>c. c \<noteq> CHR ''('') b) = Inr False
            then Some b else Some a))"

lemma mergeBlock_merged:
  assumes "mergeBlock gt our their = Inr d"
  shows "blockMerged gt (orEmpty our) (orEmpty their) (orEmpty d)"
  unfolding blockMerged_def
proof
  fix k
  let ?a = "map_of (orEmpty our) k" and ?b = "map_of (orEmpty their) k"
  obtain e where e: "mergeDict (orEmpty our) (orEmpty their) (mergeVersions gt) = Inr e" "orEmpty d = e"
    using assms by (auto simp: mergeBlock_def sbind_Inr_iff)
  have d: "map_of (orEmpty d) k =
      mergedDict (\<lambda>a b. projr (mergeVersions gt a b)) (orEmpty our) (orEmpty their) k"
    using mergeDict_Inr(1) [OF e(1)] e(2) by simp
  have v: "\<exists>v. mergeVersions gt ?a ?b = Inr v" if "?a \<noteq> None \<or> ?b \<noteq> None"
    using mergeDict_Inr(2) [OF e(1), of k] that by (auto simp: in_keys_iff simp del: set_map)
  show "case (?a, ?b) of
        (None, None) \<Rightarrow> map_of (orEmpty d) k = None
      | (Some a, None) \<Rightarrow> map_of (orEmpty d) k = (if a = [] then None else Some a)
      | (None, Some b) \<Rightarrow> map_of (orEmpty d) k = (if b = [] then None else Some b)
      | (Some a, Some b) \<Rightarrow>
          map_of (orEmpty d) k = (if a = b \<or> b = [] then (if a = [] then None else Some a)
            else if a = [] \<or> gt (takeWhile (\<lambda>c. c \<noteq> CHR ''('') a) (takeWhile (\<lambda>c. c \<noteq> CHR ''('') b) = Inr False
            then Some b else Some a)"
  proof (cases ?a; cases ?b)
    fix a b assume ab: "?a = Some a" "?b = Some b"
    then obtain w where "mergeVersions gt (Some a) (Some b) = Inr w" using v by auto
    then show ?thesis
      unfolding d mergedDict_def in_keys_iff Un_iff ab
      by (auto simp: mergeVersions_def hd_splitOn sbind_Inr_iff split: if_splits)
  qed (use d in \<open>auto simp: mergedDict_def in_keys_iff mergeVersions_def simp del: set_map\<close>)
qed

lemma smap_keyed:
  assumes "smap (\<lambda>i. sbind (f i) (\<lambda>p. Inr (i, p))) ks = Inr r"
  shows "keys r = ks \<and> (\<forall>k \<in> set ks. f k = Inr (the (map_of r k)))"
  using assms
proof (induction ks arbitrary: r)
  case (Cons x ks)
  then obtain p rs where "f x = Inr p" "smap (\<lambda>i. sbind (f i) (\<lambda>p. Inr (i, p))) ks = Inr rs" "r = (x, p) # rs"
    by (auto simp: sbind_Inr_iff)
  with Cons.IH [of rs] show ?case by auto
qed simp

lemma smap_keyed_total:
  "(\<And>i. i \<in> set ks \<Longrightarrow> \<exists>p. f i = Inr p) \<Longrightarrow> \<exists>r. smap (\<lambda>i. sbind (f i) (\<lambda>p. Inr (i, p))) ks = Inr r"
proof (induction ks)
  case (Cons x ks)
  then obtain p r where "f x = Inr p" "smap (\<lambda>i. sbind (f i) (\<lambda>p. Inr (i, p))) ks = Inr r"
    by (meson list.set_intros)
  then show ?case by simp
qed simp

definition importerBlock :: "depField \<Rightarrow> lockfileObject \<Rightarrow> projectId \<Rightarrow> deps" where
  "importerBlock f l i =
     orEmpty (case map_of (importers l) i of None \<Rightarrow> None | Some p \<Rightarrow> projectField f p)"

definition packageBlocks :: "lockfileObject \<Rightarrow> depPath \<Rightarrow> deps \<times> deps" where
  "packageBlocks l k = (case map_of (orEmpty (packages l)) k of None \<Rightarrow> ([], [])
     | Some p \<Rightarrow> (orEmpty (dependencies p), orEmpty (optionalDependencies p)))"

lemma mergeImporter_blocks:
  assumes "mergeImporter gt (map_of (importers ours) i) (map_of (importers theirs) i) = Inr p"
  shows "blockMerged gt (importerBlock f ours i) (importerBlock f theirs i) (orEmpty (projectField f p))"
proof -
  let ?o = "case map_of (importers ours) i of None \<Rightarrow> emptyProject | Some p \<Rightarrow> p"
  let ?t = "case map_of (importers theirs) i of None \<Rightarrow> emptyProject | Some p \<Rightarrow> p"
  have "mergeBlock gt (projectField f ?o) (projectField f ?t) = Inr (projectField f p)"
    using assms by (cases f) (auto simp: mergeImporter_def Let_def sbind_Inr_iff)
  moreover have "orEmpty (projectField f ?o) = importerBlock f ours i"
    "orEmpty (projectField f ?t) = importerBlock f theirs i"
    by (cases f; auto simp: importerBlock_def emptyProject_def split: option.splits)+
  ultimately show ?thesis using mergeBlock_merged [of gt "projectField f ?o" "projectField f ?t"] by simp
qed

lemma mergePackage_blocks:
  assumes "mergePackage gt (map_of (orEmpty (packages ours)) k) (map_of (orEmpty (packages theirs)) k) = Inr p"
  shows "blockMerged gt (fst (packageBlocks ours k)) (fst (packageBlocks theirs k)) (orEmpty (dependencies p)) \<and>
    blockMerged gt (snd (packageBlocks ours k)) (snd (packageBlocks theirs k)) (orEmpty (optionalDependencies p))"
proof -
  let ?o = "case map_of (orEmpty (packages ours)) k of None \<Rightarrow> emptyPackage | Some p \<Rightarrow> p"
  let ?t = "case map_of (orEmpty (packages theirs)) k of None \<Rightarrow> emptyPackage | Some p \<Rightarrow> p"
  have "mergeBlock gt (dependencies ?o) (dependencies ?t) = Inr (dependencies p)"
    "mergeBlock gt (optionalDependencies ?o) (optionalDependencies ?t) = Inr (optionalDependencies p)"
    using assms by (auto simp: mergePackage_def Let_def sbind_Inr_iff)
  note merged = mergeBlock_merged [OF this(1)] mergeBlock_merged [OF this(2)]
  have "orEmpty (dependencies ?o) = fst (packageBlocks ours k)" "orEmpty (dependencies ?t) = fst (packageBlocks theirs k)"
    "orEmpty (optionalDependencies ?o) = snd (packageBlocks ours k)"
    "orEmpty (optionalDependencies ?t) = snd (packageBlocks theirs k)"
    by (auto simp: packageBlocks_def emptyPackage_def split: option.splits)
  with merged show ?thesis by simp
qed

definition lockfilesMerged ::
    "(str \<Rightarrow> str \<Rightarrow> js_error + bool) \<Rightarrow> lockfileObject \<Rightarrow> lockfileObject \<Rightarrow> lockfileObject \<Rightarrow> bool" where
  "lockfilesMerged gt ours theirs r \<longleftrightarrow>
     set (keys (importers r)) = set (keys (importers ours)) \<union> set (keys (importers theirs)) \<and>
     (\<forall>i p. map_of (importers r) i = Some p \<longrightarrow>
        (\<forall>f. blockMerged gt (importerBlock f ours i) (importerBlock f theirs i) (orEmpty (projectField f p)))) \<and>
     set (keys (orEmpty (packages r))) = set (keys (orEmpty (packages ours))) \<union> set (keys (orEmpty (packages theirs))) \<and>
     (\<forall>k p. map_of (orEmpty (packages r)) k = Some p \<longrightarrow>
        blockMerged gt (fst (packageBlocks ours k)) (fst (packageBlocks theirs k)) (orEmpty (dependencies p)) \<and>
        blockMerged gt (snd (packageBlocks ours k)) (snd (packageBlocks theirs k)) (orEmpty (optionalDependencies p))) \<and>
     lockfileVersion r \<in> {lockfileVersion ours, lockfileVersion theirs}"

lemma mergeLockfileChanges_merged:
  assumes "mergeLockfileChanges gt comver ours theirs = Inr r"
  shows "lockfilesMerged gt ours theirs r"
proof -
  from assms obtain b imps pkgs where r:
    "smap (\<lambda>i. sbind (mergeImporter gt (map_of (importers ours) i) (map_of (importers theirs) i)) (\<lambda>p. Inr (i, p)))
       (uniq (keys (importers ours) @ keys (importers theirs))) = Inr imps"
    "smap (\<lambda>k. sbind (mergePackage gt (map_of (orEmpty (packages ours)) k) (map_of (orEmpty (packages theirs)) k))
         (\<lambda>p. Inr (k, p)))
       (uniq (keys (orEmpty (packages ours)) @ keys (orEmpty (packages theirs)))) = Inr pkgs"
    "importers r = imps" "packages r = Some pkgs"
    "lockfileVersion r = (if b then lockfileVersion theirs else lockfileVersion ours)"
    by (auto simp: mergeLockfileChanges_def Let_def sbind_Inr_iff)
  note i = smap_keyed [OF r(1)] and k = smap_keyed [OF r(2)]
  have "mergeImporter gt (map_of (importers ours) i) (map_of (importers theirs) i) = Inr p"
    if "map_of imps i = Some p" for i p
  proof -
    have "i \<in> set (keys imps)" using that by (simp add: in_keys_iff del: set_map)
    with i that show ?thesis by (metis option.sel)
  qed
  moreover have "mergePackage gt (map_of (orEmpty (packages ours)) x) (map_of (orEmpty (packages theirs)) x) = Inr p"
    if "map_of pkgs x = Some p" for x p
  proof -
    have "x \<in> set (keys pkgs)" using that by (simp add: in_keys_iff del: set_map)
    with k that show ?thesis by (metis option.sel)
  qed
  moreover have "set (keys imps) = set (keys (importers ours)) \<union> set (keys (importers theirs))"
    "set (keys pkgs) = set (keys (orEmpty (packages ours))) \<union> set (keys (orEmpty (packages theirs)))"
    using i k by simp_all
  ultimately show ?thesis
    unfolding lockfilesMerged_def r(3,4,5) orEmpty_simps
    using mergeImporter_blocks mergePackage_blocks by (metis (no_types, lifting) insertCI)
qed

definition comparable :: "(str \<Rightarrow> str \<Rightarrow> js_error + bool) \<Rightarrow> lockfileObject \<Rightarrow> lockfileObject \<Rightarrow> bool" where
  "comparable gt ours theirs \<longleftrightarrow>
     (\<forall>i f. canCompare gt (importerBlock f ours i) (importerBlock f theirs i)) \<and>
     (\<forall>k. canCompare gt (fst (packageBlocks ours k)) (fst (packageBlocks theirs k)) \<and>
        canCompare gt (snd (packageBlocks ours k)) (snd (packageBlocks theirs k)))"

lemma mergeImporter_total:
  assumes "comparable gt ours theirs"
  shows "\<exists>p. mergeImporter gt (map_of (importers ours) i) (map_of (importers theirs) i) = Inr p"
proof -
  let ?o = "case map_of (importers ours) i of None \<Rightarrow> emptyProject | Some p \<Rightarrow> p"
  let ?t = "case map_of (importers theirs) i of None \<Rightarrow> emptyProject | Some p \<Rightarrow> p"
  have "orEmpty (projectField f ?o) = importerBlock f ours i"
    "orEmpty (projectField f ?t) = importerBlock f theirs i" for f
    by (cases f; auto simp: importerBlock_def emptyProject_def split: option.splits)+
  then have "canCompare gt (orEmpty (projectField f ?o)) (orEmpty (projectField f ?t))" for f
    using assms by (simp add: comparable_def)
  then have b: "\<exists>d. mergeBlock gt (projectField f ?o) (projectField f ?t) = Inr d" for f
    by (rule mergeBlock_total)
  have "\<exists>d. mergeDict (specifiers ?o) (specifiers ?t) takeChangedValue = Inr d"
    by (rule mergeDict_total) (simp add: takeChangedValue_def)
  with b [of Dependencies] b [of DevDependencies] b [of OptionalDependencies] show ?thesis
    by (auto simp: mergeImporter_def Let_def)
qed

lemma mergePackage_total:
  assumes "comparable gt ours theirs"
  shows "\<exists>p. mergePackage gt (map_of (orEmpty (packages ours)) k) (map_of (orEmpty (packages theirs)) k) = Inr p"
proof -
  let ?o = "case map_of (orEmpty (packages ours)) k of None \<Rightarrow> emptyPackage | Some p \<Rightarrow> p"
  let ?t = "case map_of (orEmpty (packages theirs)) k of None \<Rightarrow> emptyPackage | Some p \<Rightarrow> p"
  have "orEmpty (dependencies ?o) = fst (packageBlocks ours k)" "orEmpty (dependencies ?t) = fst (packageBlocks theirs k)"
    "orEmpty (optionalDependencies ?o) = snd (packageBlocks ours k)"
    "orEmpty (optionalDependencies ?t) = snd (packageBlocks theirs k)"
    by (auto simp: packageBlocks_def emptyPackage_def split: option.splits)
  then have "canCompare gt (orEmpty (dependencies ?o)) (orEmpty (dependencies ?t))"
    "canCompare gt (orEmpty (optionalDependencies ?o)) (orEmpty (optionalDependencies ?t))"
    using assms by (simp_all add: comparable_def)
  from mergeBlock_total [OF this(1)] mergeBlock_total [OF this(2)] show ?thesis
    by (auto simp: mergePackage_def Let_def)
qed

lemma mergeLockfileChanges_total:
  assumes "comparable gt ours theirs"
    and "\<exists>b. gt (comver (lockfileVersion theirs)) (comver (lockfileVersion ours)) = Inr b"
  shows "\<exists>r. mergeLockfileChanges gt comver ours theirs = Inr r"
proof -
  obtain imps where "smap (\<lambda>i. sbind (mergeImporter gt (map_of (importers ours) i) (map_of (importers theirs) i))
      (\<lambda>p. Inr (i, p))) (uniq (keys (importers ours) @ keys (importers theirs))) = Inr imps"
    using smap_keyed_total [of "uniq (keys (importers ours) @ keys (importers theirs))"
      "\<lambda>i. mergeImporter gt (map_of (importers ours) i) (map_of (importers theirs) i)"]
      mergeImporter_total [OF assms(1)] by blast
  moreover obtain pkgs where "smap (\<lambda>k. sbind (mergePackage gt (map_of (orEmpty (packages ours)) k)
      (map_of (orEmpty (packages theirs)) k)) (\<lambda>p. Inr (k, p)))
      (uniq (keys (orEmpty (packages ours)) @ keys (orEmpty (packages theirs)))) = Inr pkgs"
    using smap_keyed_total [of "uniq (keys (orEmpty (packages ours)) @ keys (orEmpty (packages theirs)))"
      "\<lambda>k. mergePackage gt (map_of (orEmpty (packages ours)) k) (map_of (orEmpty (packages theirs)) k)"]
      mergePackage_total [OF assms(1)] by blast
  ultimately show ?thesis using assms(2) by (auto simp: mergeLockfileChanges_def Let_def)
qed



text \<open>Merging a lockfile with itself never compares two dependencies: it returns a lockfile with the
  same importers, packages and dependency references, even where those are not versions.\<close>

theorem mergeLockfileChanges_self:
  assumes "gt (comver (lockfileVersion l)) (comver (lockfileVersion l)) = Inr newer"
  shows "\<exists>r. mergeLockfileChanges gt comver l l = Inr r \<and> lockfileVersion r = lockfileVersion l \<and>
    set (keys (importers r)) = set (keys (importers l)) \<and>
    set (keys (orEmpty (packages r))) = set (keys (orEmpty (packages l))) \<and>
    (\<forall>i f k v. v \<noteq> [] \<longrightarrow> map_of (importerBlock f r i) k = Some v \<longleftrightarrow> map_of (importerBlock f l i) k = Some v)"
proof -
  have "comparable gt l l" by (simp add: comparable_def canCompare_def)
  then obtain r where r: "mergeLockfileChanges gt comver l l = Inr r"
    using mergeLockfileChanges_total [where comver = comver] assms by blast
  note m = mergeLockfileChanges_merged [OF r, unfolded lockfilesMerged_def]
  have "map_of (importerBlock f r i) k = Some v \<longleftrightarrow> map_of (importerBlock f l i) k = Some v"
    if "v \<noteq> []" for i f k v
  proof (cases "map_of (importers r) i")
    case None
    then have "i \<notin> set (keys (importers r))" by (simp add: in_keys_iff del: set_map)
    then have "i \<notin> set (keys (importers l))" using m by blast
    then have "map_of (importers l) i = None" by (simp add: in_keys_iff del: set_map)
    with None show ?thesis by (simp add: importerBlock_def)
  next
    case (Some p)
    then have "blockMerged gt (importerBlock f l i) (importerBlock f l i) (importerBlock f r i)"
      using m by (simp add: importerBlock_def)
    then have "map_of (importerBlock f r i) k = (case map_of (importerBlock f l i) k of None \<Rightarrow> None
        | Some a \<Rightarrow> if a = [] then None else Some a)"
      unfolding blockMerged_def by (auto dest!: spec [of _ k] split: option.splits)
    then show ?thesis using that by (auto split: option.splits)
  qed
  with r m show ?thesis by auto
qed

theorem mergeLockfileChanges_self_witness:
  "\<exists>r. mergeLockfileChanges (\<lambda>a b. if a = ''9.0'' then Inr False else Inl (TypeError ''Invalid Version'')) (\<lambda>v. v)
      (emptyLockfile\<lparr>importers := [(''.'', emptyProject\<lparr>prodDeps := Some [(''a'', ''link:../a'')]\<rparr>)]\<rparr>)
      (emptyLockfile\<lparr>importers := [(''.'', emptyProject\<lparr>prodDeps := Some [(''a'', ''link:../a'')]\<rparr>)]\<rparr>) = Inr r"
  using mergeLockfileChanges_self [where comver = "\<lambda>v. v" and newer = False
      and gt = "\<lambda>a b. if a = ''9.0'' then Inr False else Inl (TypeError ''Invalid Version'')"
      and l = "emptyLockfile\<lparr>importers := [(''.'', emptyProject\<lparr>prodDeps := Some [(''a'', ''link:../a'')]\<rparr>)]\<rparr>"]
  by (auto simp: emptyLockfile_def LOCKFILE_VERSION_def)

text \<open>A conflict between two references that semver cannot compare is not resolved but thrown: when
  the two sides list a dependency of an importer with different references, and the comparison throws on
  them, as it does on \<open>link:\<close> or \<open>file:\<close> references, the merge throws too.\<close>

theorem mergeLockfileChanges_throws:
  assumes "map_of (importerBlock f ours i) k = Some a" "map_of (importerBlock f theirs i) k = Some b"
    and "a \<noteq> b" "a \<noteq> []" "b \<noteq> []"
    and "gt (takeWhile (\<lambda>c. c \<noteq> CHR ''('') a) (takeWhile (\<lambda>c. c \<noteq> CHR ''('') b) = Inl e"
  shows "\<exists>e'. mergeLockfileChanges gt comver ours theirs = Inl e'"
proof (rule ccontr)
  assume "\<not> ?thesis"
  then obtain r where r: "mergeLockfileChanges gt comver ours theirs = Inr r"
    by (cases "mergeLockfileChanges gt comver ours theirs") auto
  from r obtain imps where imps:
    "smap (\<lambda>i. sbind (mergeImporter gt (map_of (importers ours) i) (map_of (importers theirs) i)) (\<lambda>p. Inr (i, p)))
       (uniq (keys (importers ours) @ keys (importers theirs))) = Inr imps"
    by (auto simp: mergeLockfileChanges_def Let_def sbind_Inr_iff)
  have "i \<in> set (keys (importers ours))"
    using assms(1) by (cases "map_of (importers ours) i") (auto simp: importerBlock_def in_keys_iff simp del: set_map)
  then obtain p where "mergeImporter gt (map_of (importers ours) i) (map_of (importers theirs) i) = Inr p"
    using smap_keyed [OF imps] by auto
  then obtain d where d: "mergeBlock gt (projectField f (case map_of (importers ours) i of None \<Rightarrow> emptyProject | Some p \<Rightarrow> p))
      (projectField f (case map_of (importers theirs) i of None \<Rightarrow> emptyProject | Some p \<Rightarrow> p)) = Inr d"
    by (cases f) (auto simp: mergeImporter_def Let_def sbind_Inr_iff)
  have "orEmpty (projectField f (case map_of (importers l) i of None \<Rightarrow> emptyProject | Some p \<Rightarrow> p)) =
      importerBlock f l i" for l
    by (cases f; auto simp: importerBlock_def emptyProject_def split: option.splits)
  with d obtain d' where "mergeDict (importerBlock f ours i) (importerBlock f theirs i) (mergeVersions gt) = Inr d'"
    by (auto simp: mergeBlock_def sbind_Inr_iff)
  from mergeDict_Inr(2) [OF this, of k] assms(1,2) obtain v where "mergeVersions gt (Some a) (Some b) = Inr v"
    by (auto simp: in_keys_iff simp del: set_map)
  with assms(3-6) show False by (simp add: mergeVersions_def hd_splitOn)
qed

theorem mergeLockfileChanges_throws_witness:
  "\<exists>e. mergeLockfileChanges (\<lambda>a b. if a = ''9.0'' then Inr False else Inl (TypeError ''Invalid Version'')) (\<lambda>v. v)
      (emptyLockfile\<lparr>importers := [(''.'', emptyProject\<lparr>prodDeps := Some [(''a'', ''link:../a'')]\<rparr>)]\<rparr>)
      (emptyLockfile\<lparr>importers := [(''.'', emptyProject\<lparr>prodDeps := Some [(''a'', ''link:../b'')]\<rparr>)]\<rparr>) = Inl e"
  by (rule mergeLockfileChanges_throws [where f = Dependencies and i = "''.''" and k = "''a''"
        and a = "''link:../a''" and b = "''link:../b''" and e = "TypeError ''Invalid Version''"])
    (simp_all add: importerBlock_def)

end
