(* ===== verification/Matcher.thy ===== *)
theory Matcher
  imports Prelude
begin

text \<open>
  config/matcher/src/index.ts: the patterns of \<open>hoist-pattern\<close>, \<open>--filter\<close> and the like. A pattern is a
  literal with \<open>*\<close> wildcards; one that starts with \<open>!\<close> takes names away from what the patterns before
  it matched.

  The code compiles a pattern to a regular expression, \<open>^\<close>, the pattern with every special character
  escaped (escape-string-regexp) and \<open>\*\<close> replaced by \<open>.*\<close>, \<open>$\<close>. What that expression accepts is
  \<open>globMatch\<close>: an escaped or plain character stands for itself, \<open>.*\<close> for any characters but line
  terminators. A pattern that the escaping leaves unchanged has no \<open>*\<close>, and there \<open>globMatch\<close> is the
  equality that the code uses.
\<close>



fun globMatch :: "str \<Rightarrow> str \<Rightarrow> bool" where
  "globMatch [] s \<longleftrightarrow> s = []"
| "globMatch (p # ps) [] \<longleftrightarrow> p = CHR ''*'' \<and> globMatch ps []"
| "globMatch (p # ps) (c # s) \<longleftrightarrow>
     (if p = CHR ''*'' then globMatch ps (c # s) \<or> \<not> lineTerminator c \<and> globMatch (p # ps) s
      else p = c \<and> globMatch ps s)"

definition matcherFromPattern :: "str \<Rightarrow> str \<Rightarrow> bool" where
  "matcherFromPattern pattern input \<longleftrightarrow> (if pattern = ''*'' then True else globMatch pattern input)"

definition isIgnorePattern :: "str \<Rightarrow> bool" where
  "isIgnorePattern pattern \<longleftrightarrow> startsWith pattern ''!''"

record matcherFunction =
  match :: "str \<Rightarrow> bool"
  ignore :: bool

fun matchInputWithNonIgnoreMatchers :: "matcherFunction list \<Rightarrow> int \<Rightarrow> str \<Rightarrow> int" where
  "matchInputWithNonIgnoreMatchers [] i input = - 1"
| "matchInputWithNonIgnoreMatchers (m # ms) i input =
     (if match m input then i else matchInputWithNonIgnoreMatchers ms (i + 1) input)"

definition matchInputWithoutIgnoreMatchers :: "matcherFunction list \<Rightarrow> str \<Rightarrow> int" where
  "matchInputWithoutIgnoreMatchers matchArr input = (if list_ex (\<lambda>m. match m input) matchArr then - 1 else 0)"

fun matchersLoop :: "matcherFunction list \<Rightarrow> int \<Rightarrow> int \<Rightarrow> str \<Rightarrow> int" where
  "matchersLoop [] i matchedPatternIndex input = matchedPatternIndex"
| "matchersLoop (m # ms) i matchedPatternIndex input =
     matchersLoop ms (i + 1)
       (if ignore m then if match m input then - 1 else matchedPatternIndex
        else if matchedPatternIndex = - 1 \<and> match m input then i else matchedPatternIndex) input"

definition matchInputWithMatchersArray :: "matcherFunction list \<Rightarrow> str \<Rightarrow> int" where
  "matchInputWithMatchersArray matchArr input = matchersLoop matchArr 0 (- 1) input"

definition matcherWhenOnlyOnePattern :: "str \<Rightarrow> str \<Rightarrow> bool" where
  "matcherWhenOnlyOnePattern pattern input \<longleftrightarrow>
     (if \<not> isIgnorePattern pattern then matcherFromPattern pattern input
      else \<not> matcherFromPattern (substr pattern 1) input)"

definition matcherWhenOnlyOnePatternWithIndex :: "str \<Rightarrow> str \<Rightarrow> int" where
  "matcherWhenOnlyOnePatternWithIndex pattern input = (if matcherWhenOnlyOnePattern pattern input then 0 else - 1)"

definition toMatcherFunction :: "str \<Rightarrow> matcherFunction" where
  "toMatcherFunction pattern =
     (if isIgnorePattern pattern
      then \<lparr>match = matcherFromPattern (substr pattern 1), ignore = True\<rparr>
      else \<lparr>match = matcherFromPattern pattern, ignore = False\<rparr>)"

definition createMatcherWithIndex :: "str list \<Rightarrow> str \<Rightarrow> int" where
  "createMatcherWithIndex patterns input =
     (case patterns of
        [] \<Rightarrow> - 1
      | [pattern] \<Rightarrow> matcherWhenOnlyOnePatternWithIndex pattern input
      | _ \<Rightarrow>
          let matchArr = map toMatcherFunction patterns;
              hasIgnore = list_ex isIgnorePattern patterns;
              hasInclude = list_ex (\<lambda>p. \<not> isIgnorePattern p) patterns
          in if \<not> hasIgnore then matchInputWithNonIgnoreMatchers matchArr 0 input
             else if \<not> hasInclude then matchInputWithoutIgnoreMatchers matchArr input
             else matchInputWithMatchersArray matchArr input)"

definition createMatcher :: "str list \<Rightarrow> str \<Rightarrow> bool" where
  "createMatcher patterns input \<longleftrightarrow> createMatcherWithIndex patterns input \<noteq> - 1"

section \<open>What a pattern matches\<close>

text \<open>The literal parts of a pattern with something in each gap between them.\<close>

fun weave :: "str list \<Rightarrow> str list \<Rightarrow> str" where
  "weave (w # ws) (g # gs) = w @ g @ weave ws gs"
| "weave (w # ws) [] = w"
| "weave [] gs = []"

definition fills :: "str list \<Rightarrow> str list \<Rightarrow> str \<Rightarrow> bool" where
  "fills ws gaps s \<longleftrightarrow> length ws = length gaps + 1 \<and>
     (\<forall>g \<in> set gaps. \<forall>c \<in> set g. \<not> lineTerminator c) \<and> s = weave ws gaps"

lemma fills_char: "(\<exists>gaps. fills ((p # w) # ws) gaps s) \<longleftrightarrow> (\<exists>t. s = p # t \<and> (\<exists>gaps. fills (w # ws) gaps t))"
proof
  assume "\<exists>gaps. fills ((p # w) # ws) gaps s"
  then obtain gaps where "fills ((p # w) # ws) gaps s" ..
  then have "s = p # weave (w # ws) gaps \<and> fills (w # ws) gaps (weave (w # ws) gaps)"
    by (cases gaps) (auto simp: fills_def)
  then show "\<exists>t. s = p # t \<and> (\<exists>gaps. fills (w # ws) gaps t)" by blast
next
  assume "\<exists>t. s = p # t \<and> (\<exists>gaps. fills (w # ws) gaps t)"
  then obtain t gaps where "s = p # t" "fills (w # ws) gaps t" by blast
  then have "fills ((p # w) # ws) gaps s"
    by (cases gaps) (auto simp: fills_def)
  then show "\<exists>gaps. fills ((p # w) # ws) gaps s" ..
qed

lemma fills_star:
  "(\<exists>gaps. fills ([] # ws) gaps s) \<longleftrightarrow>
     ws = [] \<and> s = [] \<or> ws \<noteq> [] \<and> (\<exists>g t. s = g @ t \<and> (\<forall>c \<in> set g. \<not> lineTerminator c) \<and> (\<exists>gaps. fills ws gaps t))"
proof
  assume "\<exists>gaps. fills ([] # ws) gaps s"
  then obtain gaps where g: "fills ([] # ws) gaps s" ..
  show "ws = [] \<and> s = [] \<or> ws \<noteq> [] \<and> (\<exists>g t. s = g @ t \<and> (\<forall>c \<in> set g. \<not> lineTerminator c) \<and> (\<exists>gaps. fills ws gaps t))"
  proof (cases gaps)
    case Nil
    then show ?thesis using g by (simp add: fills_def)
  next
    case (Cons x xs)
    then have "ws \<noteq> []" "s = x @ weave ws xs" "\<forall>c \<in> set x. \<not> lineTerminator c" "fills ws xs (weave ws xs)"
      using g by (auto simp: fills_def)
    then show ?thesis by blast
  qed
next
  assume "ws = [] \<and> s = [] \<or> ws \<noteq> [] \<and> (\<exists>g t. s = g @ t \<and> (\<forall>c \<in> set g. \<not> lineTerminator c) \<and> (\<exists>gaps. fills ws gaps t))"
  then show "\<exists>gaps. fills ([] # ws) gaps s"
  proof
    assume "ws = [] \<and> s = []"
    then have "fills ([] # ws) [] s" by (simp add: fills_def)
    then show ?thesis ..
  next
    assume "ws \<noteq> [] \<and> (\<exists>g t. s = g @ t \<and> (\<forall>c \<in> set g. \<not> lineTerminator c) \<and> (\<exists>gaps. fills ws gaps t))"
    then obtain g t gaps where "s = g @ t" "\<forall>c \<in> set g. \<not> lineTerminator c" "fills ws gaps t" by blast
    then have "fills ([] # ws) (g # gaps) s" by (auto simp: fills_def)
    then show ?thesis ..
  qed
qed

lemma globMatch_star:
  "globMatch (CHR ''*'' # ps) s \<longleftrightarrow> (\<exists>g t. s = g @ t \<and> (\<forall>c \<in> set g. \<not> lineTerminator c) \<and> globMatch ps t)"
proof (induction s)
  case Nil
  show ?case by simp
next
  case (Cons c s)
  have "(\<exists>g t. c # s = g @ t \<and> (\<forall>c \<in> set g. \<not> lineTerminator c) \<and> globMatch ps t) \<longleftrightarrow>
      globMatch ps (c # s) \<or> \<not> lineTerminator c \<and>
        (\<exists>g t. s = g @ t \<and> (\<forall>c \<in> set g. \<not> lineTerminator c) \<and> globMatch ps t)"
    by (auto simp: Cons_eq_append_conv) (metis list.set_intros set_ConsD append_Cons empty_iff list.set(1))+
  then show ?case using Cons by simp
qed

lemma globMatch_fills: "globMatch p s \<longleftrightarrow> (\<exists>gaps. fills (splitOn CHR ''*'' p) gaps s)"
proof (induction p arbitrary: s)
  case Nil
  have "(\<exists>gaps. fills [[]] gaps s) \<longleftrightarrow> s = []" by (simp add: fills_star)
  then show ?case by simp
next
  case (Cons c p)
  obtain w ws where w: "splitOn CHR ''*'' p = w # ws" by (meson neq_Nil_conv splitOn_not_Nil)
  show ?case
  proof (cases "c = CHR ''*''")
    case True
    then show ?thesis using Cons w by (simp add: globMatch_star fills_star)
  next
    case False
    then have "globMatch (c # p) s \<longleftrightarrow> (\<exists>t. s = c # t \<and> globMatch p t)" by (cases s) auto
    then show ?thesis using Cons w False by (simp add: fills_char)
  qed
qed

text \<open>A pattern other than a lone \<open>*\<close> matches exactly the inputs made of its literal parts in their
  order with anything but line breaks in the place of each \<open>*\<close>, anchored at both ends; a pattern without
  wildcards matches only itself, whatever regular-expression characters it contains.\<close>

theorem matcherFromPattern_glob:
  "matcherFromPattern pattern input \<longleftrightarrow>
     pattern = ''*'' \<or> (\<exists>gaps. fills (splitOn CHR ''*'' pattern) gaps input)"
  by (simp add: matcherFromPattern_def globMatch_fills)

section \<open>Lists of patterns\<close>

definition patternMatches :: "str \<Rightarrow> str \<Rightarrow> bool" where
  "patternMatches p input \<longleftrightarrow> matcherFromPattern (if isIgnorePattern p then substr p 1 else p) input"

lemma toMatcherFunction_simps:
  "match (toMatcherFunction p) input = patternMatches p input"
  "ignore (toMatcherFunction p) = isIgnorePattern p"
  by (simp_all add: toMatcherFunction_def patternMatches_def)

text \<open>An input is accepted when an include pattern matches it and no later ignore pattern does.\<close>

definition accepted :: "str list \<Rightarrow> str \<Rightarrow> bool" where
  "accepted ps input \<longleftrightarrow> (\<exists>i < length ps. \<not> isIgnorePattern (ps ! i) \<and> patternMatches (ps ! i) input \<and>
     (\<forall>j < length ps. i < j \<and> isIgnorePattern (ps ! j) \<longrightarrow> \<not> patternMatches (ps ! j) input))"

definition noIgnoreMatch :: "str list \<Rightarrow> str \<Rightarrow> bool" where
  "noIgnoreMatch ps input \<longleftrightarrow> (\<forall>p \<in> set ps. isIgnorePattern p \<longrightarrow> \<not> patternMatches p input)"

lemma accepted_Nil [simp]: "\<not> accepted [] input"
  by (simp add: accepted_def)

lemma accepted_Cons:
  "accepted (p # ps) input \<longleftrightarrow>
     accepted ps input \<or> \<not> isIgnorePattern p \<and> patternMatches p input \<and> noIgnoreMatch ps input"
proof -
  have "noIgnoreMatch ps input \<longleftrightarrow>
      (\<forall>j < length ps. isIgnorePattern (ps ! j) \<longrightarrow> \<not> patternMatches (ps ! j) input)"
    unfolding noIgnoreMatch_def by (metis in_set_conv_nth)
  then show ?thesis
    unfolding accepted_def by (simp add: Ex_less_Suc2 All_less_Suc2) blast
qed

lemma matchersLoop_accepted:
  "0 \<le> i \<Longrightarrow> matchersLoop (map toMatcherFunction ps) i m input \<noteq> - 1 \<longleftrightarrow>
     accepted ps input \<or> m \<noteq> - 1 \<and> noIgnoreMatch ps input"
proof (induction ps arbitrary: i m)
  case Nil
  then show ?case by (simp add: noIgnoreMatch_def)
next
  case (Cons p ps)
  have n: "noIgnoreMatch (p # ps) input \<longleftrightarrow>
      (isIgnorePattern p \<longrightarrow> \<not> patternMatches p input) \<and> noIgnoreMatch ps input"
    by (auto simp: noIgnoreMatch_def)
  show ?case
    using Cons.prems Cons.IH [of "i + 1"]
    by (auto simp: toMatcherFunction_simps accepted_Cons n)
qed

lemma nonIgnore_loop:
  "\<forall>p \<in> set ps. \<not> isIgnorePattern p \<Longrightarrow> 0 \<le> i \<Longrightarrow>
   matchInputWithNonIgnoreMatchers (map toMatcherFunction ps) i input \<noteq> - 1 \<longleftrightarrow> (\<exists>p \<in> set ps. patternMatches p input)"
  by (induction ps arbitrary: i) (auto simp: toMatcherFunction_simps)

lemma accepted_no_ignore:
  "\<forall>p \<in> set ps. \<not> isIgnorePattern p \<Longrightarrow> accepted ps input \<longleftrightarrow> (\<exists>p \<in> set ps. patternMatches p input)"
  by (induction ps) (auto simp: accepted_Cons noIgnoreMatch_def)

lemma accepted_only_ignore: "\<forall>p \<in> set ps. isIgnorePattern p \<Longrightarrow> \<not> accepted ps input"
  by (induction ps) (auto simp: accepted_Cons)

text \<open>C30. A matcher of several patterns accepts an input exactly when some include pattern matches it and
  no ignore pattern after that one does, so the order of the patterns decides; when all the patterns are
  ignore patterns it accepts what none of them matches, and an empty list accepts nothing.\<close>

theorem createMatcher_order:
  "createMatcher patterns input \<longleftrightarrow>
     (if list_all isIgnorePattern patterns then patterns \<noteq> [] \<and> noIgnoreMatch patterns input
      else accepted patterns input)"
proof -
  consider "patterns = []" | p where "patterns = [p]" | p q ps where "patterns = p # q # ps"
    by (metis list.exhaust)
  then show ?thesis
  proof cases
    case 1
    then show ?thesis by (simp add: createMatcher_def createMatcherWithIndex_def)
  next
    case 2
    then show ?thesis
      by (simp add: createMatcher_def createMatcherWithIndex_def matcherWhenOnlyOnePatternWithIndex_def
          matcherWhenOnlyOnePattern_def accepted_Cons noIgnoreMatch_def patternMatches_def)
  next
    case 3
    let ?m = "map toMatcherFunction patterns"
    have c: "createMatcherWithIndex patterns input =
        (if \<not> list_ex isIgnorePattern patterns then matchInputWithNonIgnoreMatchers ?m 0 input
         else if \<not> list_ex (\<lambda>p. \<not> isIgnorePattern p) patterns then matchInputWithoutIgnoreMatchers ?m input
         else matchInputWithMatchersArray ?m input)"
      using 3 by (simp add: createMatcherWithIndex_def Let_def)
    show ?thesis
    proof (cases "list_ex isIgnorePattern patterns")
      case False
      then have no: "\<forall>p \<in> set patterns. \<not> isIgnorePattern p" by (simp add: list_ex_iff)
      with 3 show ?thesis
        unfolding createMatcher_def c
        using nonIgnore_loop [OF no, of 0 input] accepted_no_ignore [OF no, of input] False by (simp add: list_all_iff)
    next
      case True
      show ?thesis
      proof (cases "list_ex (\<lambda>p. \<not> isIgnorePattern p) patterns")
        case False
        then have all: "\<forall>p \<in> set patterns. isIgnorePattern p" by (simp add: list_ex_iff)
        then have "list_ex (\<lambda>m. match m input) ?m \<longleftrightarrow> \<not> noIgnoreMatch patterns input"
          by (auto simp: list_ex_iff noIgnoreMatch_def toMatcherFunction_simps)
        then show ?thesis
          unfolding createMatcher_def c using True False all 3
          by (simp add: matchInputWithoutIgnoreMatchers_def list_all_iff)
      next
        case some: True
        then have "\<not> list_all isIgnorePattern patterns" by (auto simp: list_ex_iff list_all_iff)
        then show ?thesis
          unfolding createMatcher_def c using True some matchersLoop_accepted [of 0 patterns "- 1" input]
          by (simp add: matchInputWithMatchersArray_def)
      qed
    qed
  qed
qed

end
