(* ===== verification/Catalogs.thy ===== *)
theory Catalogs
  imports Prelude
begin

text \<open>
  Catalogs and the workspace manifest that defines them: catalogs/protocol-parser/src, catalogs/resolver/src,
  catalogs/config/src and workspace/read-manifest/src (index.ts, catalogs.ts).

  The manifest is read from YAML; \<open>jsValue\<close> is what the reader can return, and a field that is absent is
  \<open>None\<close>. Reading the file itself is not modelled.
\<close>

section \<open>The catalog protocol\<close>

definition CATALOG_PROTOCOL :: str where
  "CATALOG_PROTOCOL = ''catalog:''"

definition parseCatalogProtocol :: "str \<Rightarrow> str option" where
  "parseCatalogProtocol pref =
     (if \<not> startsWith pref CATALOG_PROTOCOL then None
      else let catalogNameRaw = trim (substr pref (int (length CATALOG_PROTOCOL)))
           in Some (if catalogNameRaw = [] then ''default'' else catalogNameRaw))"

type_synonym catalogsConfig = "str obj obj"

record wantedDependency =
  wdPref :: str
  wdAlias :: str

datatype catalogResolutionResult =
    CatalogFound (foundCatalogName: str) (foundSpecifier: str)
  | CatalogMisconfiguration (misconfiguredCatalogName: str) (misconfigurationError: js_error)
  | CatalogUnused

definition resolveFromCatalog :: "catalogsConfig \<Rightarrow> wantedDependency \<Rightarrow> catalogResolutionResult" where
  "resolveFromCatalog cats wanted =
     (case parseCatalogProtocol (wdPref wanted) of
        None \<Rightarrow> CatalogUnused
      | Some catalogName \<Rightarrow>
          (case (case map_of cats catalogName of None \<Rightarrow> None | Some c \<Rightarrow> map_of c (wdAlias wanted)) of
             None \<Rightarrow> CatalogMisconfiguration catalogName
               (pnpmError ''CATALOG_ENTRY_NOT_FOUND_FOR_SPEC''
                 (''No catalog entry '' @ quoted (wdAlias wanted) @ '' was found for catalog '' @
                  quoted catalogName @ ''.''))
           | Some catalogLookup \<Rightarrow>
               if parseCatalogProtocol catalogLookup \<noteq> None
               then CatalogMisconfiguration catalogName
                 (pnpmError ''CATALOG_ENTRY_INVALID_RECURSIVE_DEFINITION''
                   (''Found invalid catalog entry using the catalog protocol recursively. The entry for '' @
                    quoted (wdAlias wanted) @ '' in catalog '' @ quoted catalogName @ '' is invalid.''))
               else let protocolOfLookup = hd (splitOn CHR '':'' catalogLookup) in
                 if protocolOfLookup = ''workspace''
                 then CatalogMisconfiguration catalogName
                   (pnpmError ''CATALOG_ENTRY_INVALID_WORKSPACE_SPEC''
                     (''The workspace protocol cannot be used as a catalog value. The entry for '' @
                      quoted (wdAlias wanted) @ '' in catalog '' @ quoted catalogName @ '' is invalid.''))
                 else if protocolOfLookup \<in> set [''link'', ''file'']
                 then CatalogMisconfiguration catalogName
                   (pnpmError ''CATALOG_ENTRY_INVALID_SPEC''
                     (''The entry for '' @ quoted (wdAlias wanted) @ '' in catalog '' @ quoted catalogName @
                      '' declares a dependency using the '' @ quoted protocolOfLookup @
                      '' protocol. This is not yet supported, but may be in a future version of pnpm.''))
                 else CatalogFound catalogName catalogLookup))"

definition matchCatalogResolveResult ::
    "catalogResolutionResult \<Rightarrow> (str \<Rightarrow> str \<Rightarrow> 'a) \<Rightarrow> (str \<Rightarrow> js_error \<Rightarrow> 'a) \<Rightarrow> 'a \<Rightarrow> 'a" where
  "matchCatalogResolveResult result found misconfiguration unused =
     (case result of
        CatalogFound c s \<Rightarrow> found c s
      | CatalogMisconfiguration c e \<Rightarrow> misconfiguration c e
      | CatalogUnused \<Rightarrow> unused)"

section \<open>Catalogs of a workspace manifest\<close>

record workspaceCatalogs =
  wsCatalog :: "str obj option"
  wsCatalogs :: "str obj obj option"

definition getCatalogsFromWorkspaceManifest :: "workspaceCatalogs option \<Rightarrow> js_error + catalogsConfig" where
  "getCatalogsFromWorkspaceManifest workspaceManifest =
     (case workspaceManifest of
        None \<Rightarrow> Inr []
      | Some m \<Rightarrow>
          if wsCatalog m \<noteq> None \<and> map_of (orEmpty (wsCatalogs m)) ''default'' \<noteq> None
          then Inl (pnpmError ''INVALID_CATALOGS_CONFIGURATION''
            (''The '' @ quoted ''default'' @ '' catalog was defined multiple times. Use the '' @ quoted ''catalog'' @
             '' field or '' @ quoted ''catalogs.default'' @ '', but not both.''))
          else Inr (spread (case wsCatalog m of None \<Rightarrow> [] | Some c \<Rightarrow> [(''default'', c)]) (orEmpty (wsCatalogs m))))"

section \<open>Validation of the workspace manifest\<close>

datatype jsValue =
    JNull
  | JBool bool
  | JNum int
  | JStr str
  | JArr "jsValue list"
  | JObj "(str \<times> jsValue) list"

fun typeOf :: "jsValue \<Rightarrow> str" where
  "typeOf JNull = ''object''"
| "typeOf (JBool _) = ''boolean''"
| "typeOf (JNum _) = ''number''"
| "typeOf (JStr _) = ''string''"
| "typeOf (JArr _) = ''object''"
| "typeOf (JObj _) = ''object''"

fun truthyValue :: "jsValue \<Rightarrow> bool" where
  "truthyValue JNull \<longleftrightarrow> False"
| "truthyValue (JBool b) \<longleftrightarrow> b"
| "truthyValue (JNum n) \<longleftrightarrow> n \<noteq> 0"
| "truthyValue (JStr s) \<longleftrightarrow> s \<noteq> []"
| "truthyValue _ \<longleftrightarrow> True"

definition invalidManifest :: "str \<Rightarrow> js_error" where
  "invalidManifest message = pnpmError ''INVALID_WORKSPACE_CONFIGURATION'' message"

text \<open>A loop that only checks: the first failing check is the result.\<close>

fun checkAll :: "('a \<Rightarrow> js_error option) \<Rightarrow> 'a list \<Rightarrow> js_error option" where
  "checkAll f [] = None"
| "checkAll f (x # xs) = (case f x of Some e \<Rightarrow> Some e | None \<Rightarrow> checkAll f xs)"

definition assertValidPackages :: "(str \<times> jsValue) list \<Rightarrow> js_error option" where
  "assertValidPackages manifest =
     (case map_of manifest ''packages'' of
        None \<Rightarrow> None
      | Some pkgs \<Rightarrow>
          if \<not> truthyValue pkgs then None
          else case pkgs of
            JArr ps \<Rightarrow> checkAll (\<lambda>pkg.
              if \<not> truthyValue pkg then Some (invalidManifest ''Missing or empty package'')
              else if typeOf pkg \<noteq> ''string'' then Some (invalidManifest (''Invalid package type - '' @ typeOf pkg))
              else None) ps
          | _ \<Rightarrow> Some (invalidManifest ''packages field is not an array''))"

definition assertValidCatalog :: "(str \<times> jsValue) list \<Rightarrow> js_error option" where
  "assertValidCatalog manifest =
     (case map_of manifest ''catalog'' of
        None \<Rightarrow> None
      | Some JNull \<Rightarrow> None
      | Some (JArr _) \<Rightarrow> Some (invalidManifest ''Expected catalog field to be an object, but found - array'')
      | Some (JObj entries) \<Rightarrow> checkAll (\<lambda>(alias, specifier).
          if typeOf specifier \<noteq> ''string''
          then Some (invalidManifest (''Invalid catalog entry for '' @ alias @ ''. Expected string, but found: '' @
                 typeOf specifier))
          else None) entries
      | Some v \<Rightarrow> Some (invalidManifest (''Expected catalog field to be an object, but found - '' @ typeOf v)))"

text \<open>A named catalog that is \<open>null\<close> passes the \<open>typeof\<close> test, and \<open>Object.entries\<close> throws on it.\<close>

definition assertValidNamedCatalog :: "str \<times> jsValue \<Rightarrow> js_error option" where
  "assertValidNamedCatalog entry =
     (case entry of (catalogName, catalog) \<Rightarrow>
        (case catalog of
           JArr _ \<Rightarrow> Some (invalidManifest (''Expected named catalog '' @ catalogName @
             '' to be an object, but found - array''))
         | JObj entries \<Rightarrow> checkAll (\<lambda>(alias, specifier).
             if typeOf specifier \<noteq> ''string''
             then Some (invalidManifest (''Catalog '' @ quoted catalogName @ '' has invalid entry '' @ quoted alias @
                    ''. Expected string specifier, but found: '' @ typeOf specifier))
             else None) entries
         | JNull \<Rightarrow> Some (TypeError ''Cannot convert undefined or null to object'')
         | v \<Rightarrow> Some (invalidManifest (''Expected named catalog '' @ catalogName @
             '' to be an object, but found - '' @ typeOf v))))"

definition assertValidCatalogs :: "(str \<times> jsValue) list \<Rightarrow> js_error option" where
  "assertValidCatalogs manifest =
     (case map_of manifest ''catalogs'' of
        None \<Rightarrow> None
      | Some JNull \<Rightarrow> None
      | Some (JArr _) \<Rightarrow> Some (invalidManifest ''Expected catalogs field to be an object, but found - array'')
      | Some (JObj entries) \<Rightarrow> checkAll assertValidNamedCatalog entries
      | Some v \<Rightarrow> Some (invalidManifest (''Expected catalogs field to be an object, but found - '' @ typeOf v)))"

text \<open>\<open>None\<close> as the argument is \<open>undefined\<close>, the manifest of a missing file; the result is the error.\<close>

definition validateWorkspaceManifest :: "jsValue option \<Rightarrow> js_error option" where
  "validateWorkspaceManifest manifest =
     (case manifest of
        None \<Rightarrow> None
      | Some JNull \<Rightarrow> None
      | Some (JArr _) \<Rightarrow> Some (invalidManifest ''Expected object but found - array'')
      | Some (JObj entries) \<Rightarrow>
          if entries = [] then None
          else (case assertValidPackages entries of Some e \<Rightarrow> Some e | None \<Rightarrow>
               (case assertValidCatalog entries of Some e \<Rightarrow> Some e | None \<Rightarrow> assertValidCatalogs entries))
      | Some v \<Rightarrow> Some (invalidManifest (''Expected object but found - '' @ typeOf v)))"

section \<open>Properties of catalogs\<close>

text \<open>The protocols that a catalog entry must not use.\<close>

definition bannedSpecifier :: "str \<Rightarrow> bool" where
  "bannedSpecifier s \<longleftrightarrow> parseCatalogProtocol s \<noteq> None \<or>
     takeWhile (\<lambda>c. c \<noteq> CHR '':'') s \<in> {''workspace'', ''link'', ''file''}"

definition catalogEntryOf :: "catalogsConfig \<Rightarrow> str \<Rightarrow> str \<Rightarrow> str option" where
  "catalogEntryOf cats name alias = (case map_of cats name of None \<Rightarrow> None | Some c \<Rightarrow> map_of c alias)"

lemma resolveFromCatalog_found:
  "resolveFromCatalog cats w = CatalogFound n s \<longleftrightarrow>
     parseCatalogProtocol (wdPref w) = Some n \<and> catalogEntryOf cats n (wdAlias w) = Some s \<and> \<not> bannedSpecifier s"
  by (auto simp: resolveFromCatalog_def catalogEntryOf_def bannedSpecifier_def hd_splitOn Let_def
      split: option.splits if_splits)

lemma resolveFromCatalog_unused:
  "resolveFromCatalog cats w = CatalogUnused \<longleftrightarrow> parseCatalogProtocol (wdPref w) = None"
  by (auto simp: resolveFromCatalog_def Let_def split: option.splits if_splits)

text \<open>A dependency is resolved from a catalog exactly when its specifier uses the catalog protocol,
  the catalog it names (\<open>default\<close> when it names none) has an entry for it, and the entry is not itself a
  catalog, workspace, link or file specifier; so the specifier found is final. A specifier without the
  protocol is always left alone, and everything else is a misconfiguration that names the catalog.\<close>

theorem resolveFromCatalog_exact:
  "(case resolveFromCatalog cats w of
      CatalogFound n s \<Rightarrow> parseCatalogProtocol (wdPref w) = Some n \<and>
        catalogEntryOf cats n (wdAlias w) = Some s \<and> \<not> bannedSpecifier s
    | CatalogMisconfiguration n e \<Rightarrow> parseCatalogProtocol (wdPref w) = Some n \<and>
        (case catalogEntryOf cats n (wdAlias w) of None \<Rightarrow> True | Some s \<Rightarrow> bannedSpecifier s)
    | CatalogUnused \<Rightarrow> \<not> startsWith (wdPref w) ''catalog:'')"
  by (auto simp: resolveFromCatalog_def catalogEntryOf_def bannedSpecifier_def hd_splitOn Let_def
      parseCatalogProtocol_def CATALOG_PROTOCOL_def split: option.splits if_splits)

text \<open>What the type \<open>WorkspaceManifest\<close> promises of the fields that are validated.\<close>

definition isStringMap :: "jsValue \<Rightarrow> bool" where
  "isStringMap v \<longleftrightarrow> (\<exists>es. v = JObj es \<and> (\<forall>(k, s) \<in> set es. \<exists>t. s = JStr t))"

definition wellFormedManifest :: "(str \<times> jsValue) list \<Rightarrow> bool" where
  "wellFormedManifest m \<longleftrightarrow>
     (\<forall>v. map_of m ''packages'' = Some v \<longrightarrow> truthyValue v \<longrightarrow>
        (\<exists>ps. v = JArr ps \<and> (\<forall>p \<in> set ps. \<exists>s. p = JStr s \<and> s \<noteq> []))) \<and>
     (\<forall>v. map_of m ''catalog'' = Some v \<longrightarrow> v \<noteq> JNull \<longrightarrow> isStringMap v) \<and>
     (\<forall>v. map_of m ''catalogs'' = Some v \<longrightarrow> v \<noteq> JNull \<longrightarrow>
        (\<exists>es. v = JObj es \<and> (\<forall>(k, c) \<in> set es. isStringMap c)))"

lemma checkAll_None: "checkAll f xs = None \<longleftrightarrow> (\<forall>x \<in> set xs. f x = None)"
  by (induction xs) (auto split: option.splits)

lemma typeOf_string: "typeOf v = ''string'' \<longleftrightarrow> (\<exists>s. v = JStr s)"
  by (cases v) auto

lemma assertValidPackages_None:
  "assertValidPackages m = None \<longleftrightarrow> (\<forall>v. map_of m ''packages'' = Some v \<longrightarrow> truthyValue v \<longrightarrow>
     (\<exists>ps. v = JArr ps \<and> (\<forall>p \<in> set ps. \<exists>s. p = JStr s \<and> s \<noteq> [])))"
proof (cases "map_of m ''packages''")
  case (Some v)
  then show ?thesis
    by (cases v) (auto simp: assertValidPackages_def checkAll_None typeOf_string split: if_splits)
qed (simp add: assertValidPackages_def)

lemma assertValidCatalog_None:
  "assertValidCatalog m = None \<longleftrightarrow>
     (\<forall>v. map_of m ''catalog'' = Some v \<longrightarrow> v \<noteq> JNull \<longrightarrow> isStringMap v)"
proof (cases "map_of m ''catalog''")
  case (Some v)
  then show ?thesis
    by (cases v) (auto simp: assertValidCatalog_def checkAll_None typeOf_string isStringMap_def split: if_splits)
qed (simp add: assertValidCatalog_def)

lemma assertValidNamedCatalog_None: "assertValidNamedCatalog (k, c) = None \<longleftrightarrow> isStringMap c"
  by (cases c) (auto simp: assertValidNamedCatalog_def checkAll_None typeOf_string isStringMap_def split: if_splits)

lemma assertValidCatalogs_None:
  "assertValidCatalogs m = None \<longleftrightarrow> (\<forall>v. map_of m ''catalogs'' = Some v \<longrightarrow> v \<noteq> JNull \<longrightarrow>
     (\<exists>es. v = JObj es \<and> (\<forall>(k, c) \<in> set es. isStringMap c)))"
proof (cases "map_of m ''catalogs''")
  case (Some v)
  then show ?thesis
    by (cases v) (auto simp: assertValidCatalogs_def checkAll_None assertValidNamedCatalog_None)
qed (simp add: assertValidCatalogs_def)


end
