(* ===== verification/Specifiers.thy ===== *)
theory Specifiers
  imports Catalogs DependencyPath
begin

text \<open>
  The small parsers of dependency specifiers and selectors: packages/parse-wanted-dependency,
  config/parse-overrides, lockfile/settings-checker (createOverridesMapFromParsed), workspace/spec-parser,
  workspace/resolve-workspace-range, config/pick-registry-for-package, config/normalize-registries,
  packages/which-version-is-pinned and semver/peer-range.

  The npm name validation, semver and normalize-registry-url are parameters.
\<close>

section \<open>parseWantedDependency\<close>

record parsedWantedDependency =
  pwAlias :: "str option"
  pwPref :: "str option"

definition parseWantedDependency :: "(str \<Rightarrow> bool) \<Rightarrow> str \<Rightarrow> parsedWantedDependency" where
  "parseWantedDependency validForOldPackages raw =
     (let versionDelimiter = indexOfFrom raw CHR ''@'' 1 in
      if versionDelimiter \<noteq> - 1 then
        let alias = slice raw 0 versionDelimiter in
        if validForOldPackages alias
        then \<lparr>pwAlias = Some alias, pwPref = Some (substr raw (versionDelimiter + 1))\<rparr>
        else \<lparr>pwAlias = None, pwPref = Some raw\<rparr>
      else if validForOldPackages raw then \<lparr>pwAlias = Some raw, pwPref = None\<rparr>
      else \<lparr>pwAlias = None, pwPref = Some raw\<rparr>)"

section \<open>Overrides\<close>

record packageSelector =
  selName :: str
  selPref :: "str option"

record versionOverride =
  ovSelector :: str
  ovParentPkg :: "packageSelector option"
  ovTargetPkg :: packageSelector
  ovNewPref :: str

text \<open>\<open>selector.search(/[^ |@]>/)\<close>: the first position of a character other than space, bar and at sign
  that is followed by \<open>>\<close>.\<close>

fun searchDelimiter :: "str \<Rightarrow> int" where
  "searchDelimiter (c # d # s) =
     (if c \<notin> set '' |@'' \<and> d = CHR ''>'' then 0
      else let i = searchDelimiter (d # s) in if i = - 1 then - 1 else i + 1)"
| "searchDelimiter _ = - 1"

definition parsePkgSelector :: "(str \<Rightarrow> bool) \<Rightarrow> str \<Rightarrow> js_error + packageSelector" where
  "parsePkgSelector valid selector =
     (let wantedDep = parseWantedDependency valid selector in
      if \<not> truthy (pwAlias wantedDep)
      then Inl (pnpmError ''INVALID_SELECTOR'' (''Cannot parse the '' @ [CHR 0x22] @ selector @ [CHR 0x22] @ '' selector''))
      else Inr \<lparr>selName = the (pwAlias wantedDep), selPref = pwPref wantedDep\<rparr>)"

definition parsePkgAndParentSelector ::
    "(str \<Rightarrow> bool) \<Rightarrow> str \<Rightarrow> js_error + packageSelector option \<times> packageSelector" where
  "parsePkgAndParentSelector valid selector =
     (let delimiterIndex = searchDelimiter selector in
      if delimiterIndex \<noteq> - 1 then
        let delimiterIndex = delimiterIndex + 1;
            parentSelector = substring selector 0 delimiterIndex;
            childSelector = substr selector (delimiterIndex + 1)
        in sbind (parsePkgSelector valid parentSelector) (\<lambda>parent.
           sbind (parsePkgSelector valid childSelector) (\<lambda>target. Inr (Some parent, target)))
      else sbind (parsePkgSelector valid selector) (\<lambda>target. Inr (None, target)))"

fun errorMessage :: "js_error \<Rightarrow> str" where
  "errorMessage (PnpmError _ m) = m"
| "errorMessage (PlainError m) = m"
| "errorMessage (TypeError m) = m"

definition parseOverride :: "(str \<Rightarrow> bool) \<Rightarrow> catalogsConfig \<Rightarrow> str \<times> str \<Rightarrow> js_error + versionOverride" where
  "parseOverride valid cats entry =
     (case entry of (selector, newPref) \<Rightarrow>
        sbind (parsePkgAndParentSelector valid selector) (\<lambda>(parent, target).
        sbind (matchCatalogResolveResult
                 (resolveFromCatalog cats \<lparr>wdPref = newPref, wdAlias = selName target\<rparr>)
                 (\<lambda>_ specifier. Inr (Some specifier))
                 (\<lambda>_ e. Inl (pnpmError ''CATALOG_IN_OVERRIDES''
                    (''Could not resolve a catalog in the overrides: '' @ errorMessage e)))
                 (Inr None)) (\<lambda>resolvedCatalog.
        Inr \<lparr>ovSelector = selector, ovParentPkg = parent, ovTargetPkg = target,
             ovNewPref = (case resolvedCatalog of Some s \<Rightarrow> s | None \<Rightarrow> newPref)\<rparr>)))"

definition parseOverrides ::
    "(str \<Rightarrow> bool) \<Rightarrow> str obj \<Rightarrow> catalogsConfig option \<Rightarrow> js_error + versionOverride list" where
  "parseOverrides valid overrides cats = smap (parseOverride valid (orEmpty cats)) overrides"

definition createOverridesMapFromParsed :: "versionOverride list option \<Rightarrow> str obj" where
  "createOverridesMapFromParsed parsedOverrides =
     (case parsedOverrides of None \<Rightarrow> []
      | Some os \<Rightarrow> fold (\<lambda>ov. jset (ovSelector ov) (ovNewPref ov)) os [])"

section \<open>The workspace protocol\<close>

record workspaceSpec =
  wsVersion :: str
  wsAlias :: "str option"

text \<open>\<open>/^workspace:(?:(?<alias>[^._/][^@]*)@)?(?<version>.*)$/\<close>. The alias takes everything up to the first
  at sign after its first character; the expression does without an alias only when that fails. The
  version is one line.\<close>

definition isLine :: "str \<Rightarrow> bool" where
  "isLine s \<longleftrightarrow> list_all (\<lambda>c. \<not> lineTerminator c) s"

definition workspaceSpecParse :: "str \<Rightarrow> workspaceSpec option" where
  "workspaceSpecParse pref =
     (if \<not> startsWith pref ''workspace:'' then None
      else let r = drop 10 pref; i = indexOfFrom r CHR ''@'' 1 in
        if r \<noteq> [] \<and> hd r \<notin> set ''._/'' \<and> i \<noteq> - 1 \<and> isLine (substr r (i + 1))
        then Some \<lparr>wsVersion = substr r (i + 1), wsAlias = Some (substring r 0 i)\<rparr>
        else if isLine r then Some \<lparr>wsVersion = r, wsAlias = None\<rparr>
        else None)"

definition workspaceSpecToString :: "workspaceSpec \<Rightarrow> str" where
  "workspaceSpecToString w =
     (if truthy (wsAlias w) then ''workspace:'' @ the (wsAlias w) @ ''@'' @ wsVersion w
      else ''workspace:'' @ wsVersion w)"

text \<open>\<open>maxSatisfying versions range includePrerelease loose\<close>\<close>

definition resolveWorkspaceRange ::
    "(str list \<Rightarrow> str \<Rightarrow> bool \<Rightarrow> bool \<Rightarrow> str option) \<Rightarrow> str \<Rightarrow> str list \<Rightarrow> str option" where
  "resolveWorkspaceRange maxSatisfying rng versions =
     (if rng = ''*'' \<or> rng = ''^'' \<or> rng = ''~''
      then maxSatisfying versions ''*'' True False
      else maxSatisfying versions rng False True)"

section \<open>Registries\<close>

definition getScope :: "str \<Rightarrow> str option \<Rightarrow> str option" where
  "getScope name pref =
     (let scopeOf = (\<lambda>s. substring s 0 (indexOf s CHR ''/''));
          viaPref = (case pref of
            None \<Rightarrow> None
          | Some p \<Rightarrow> if startsWith p ''npm:'' \<and> startsWith (drop 4 p) ''@'' then Some (scopeOf (drop 4 p)) else None)
      in case viaPref of
           Some s \<Rightarrow> Some s
         | None \<Rightarrow> if startsWith name ''@'' then Some (scopeOf name) else None)"

text \<open>\<open>(scope && registries[scope]) ?? registries.default\<close>: an empty scope is not nullish, so it is the
  result.\<close>

definition pickRegistryForPackage :: "registries \<Rightarrow> str \<Rightarrow> str option \<Rightarrow> str" where
  "pickRegistryForPackage regs packageName pref =
     (case getScope packageName pref of
        None \<Rightarrow> regDefault regs
      | Some scope \<Rightarrow>
          if scope = [] then []
          else case map_of (regScopes regs) scope of None \<Rightarrow> regDefault regs | Some r \<Rightarrow> r)"

definition DEFAULT_REGISTRY :: str where
  "DEFAULT_REGISTRY = ''https://registry.npmjs.org/''"

text \<open>The dictionary of registries, with the default under its key.\<close>

definition normalizeRegistries :: "(str \<Rightarrow> str) \<Rightarrow> str obj option \<Rightarrow> str obj" where
  "normalizeRegistries normalizeRegistryUrl regs =
     (case regs of
        None \<Rightarrow> [(''default'', DEFAULT_REGISTRY)]
      | Some rs \<Rightarrow> spread [(''default'', DEFAULT_REGISTRY)] (map (\<lambda>(k, v). (k, normalizeRegistryUrl v)) rs))"

section \<open>Ranges\<close>

datatype pinnedVersion = PinNone | PinPatch | PinMinor | PinMajor

record semverPart =
  svOperator :: "str option"
  svMinor :: "str option"
  svPatch :: "str option"

definition whichVersionIsPinned :: "(str \<Rightarrow> semverPart list) \<Rightarrow> str \<Rightarrow> pinnedVersion option" where
  "whichVersionIsPinned parseRange spec =
     (let isWorkspaceProtocol = startsWith spec ''workspace:'';
          spec = (if isWorkspaceProtocol then drop 10 spec else spec)
      in if spec = ''*'' then Some (if isWorkspaceProtocol then PinPatch else PinNone)
         else
           let spec = (if startsWith spec ''npm:'' then substr spec (lastIndexOf spec CHR ''@'' + 1) else spec)
           in case parseRange spec of
                [v] \<Rightarrow>
                  (case svOperator v of
                     None \<Rightarrow> if truthy (svPatch v) then Some PinPatch
                             else if truthy (svMinor v) then Some PinMinor else None
                   | Some op \<Rightarrow> if op = ''~'' then Some PinMinor else if op = ''^'' then Some PinMajor else None)
              | _ \<Rightarrow> None)"

definition isValidPeerRange :: "(str \<Rightarrow> str option) \<Rightarrow> str \<Rightarrow> bool" where
  "isValidPeerRange validRange version \<longleftrightarrow>
     validRange version \<noteq> None \<or> contains version ''workspace:'' \<or> contains version ''catalog:''"

section \<open>Properties\<close>

text \<open>A workspace specifier is read back as it was printed: parsing \<open>toString\<close> of a specifier gives
  the same alias and version, for an alias that is a package name (scoped or not) and a version, or
  without an alias for a version that has no at sign after its first character.\<close>

theorem workspaceSpec_roundtrip:
  assumes "isLine (wsVersion w)"
    and "case wsAlias w of None \<Rightarrow> CHR ''@'' \<notin> set (tl (wsVersion w))
         | Some a \<Rightarrow> a \<noteq> [] \<and> hd a \<notin> set ''._/'' \<and> CHR ''@'' \<notin> set (tl a)"
  shows "workspaceSpecParse (workspaceSpecToString w) = Some w"
proof (cases "wsAlias w")
  case None
  let ?v = "wsVersion w"
  have "indexOfFrom ?v CHR ''@'' 1 = - 1"
    using assms(2) None by (simp add: indexOfFrom_def drop_Suc)
  then show ?thesis
    using None assms(1) by (simp add: workspaceSpecToString_def workspaceSpecParse_def Let_def)
next
  case (Some a)
  let ?r = "a @ ''@'' @ wsVersion w"
  have a: "a \<noteq> []" "hd a \<notin> set ''._/''" "CHR ''@'' \<notin> set (tl a)" using assms(2) Some by auto
  have "indexOfFrom ?r CHR ''@'' 1 = int (length a)"
    using a by (cases a) (simp_all add: indexOfFrom_def indexOf_split)
  moreover have "substr ?r (int (length a) + 1) = wsVersion w" "substring ?r 0 (int (length a)) = a"
    by (simp_all add: substr_def substring_0 nat_add_distrib)
  moreover have "?r \<noteq> []" "hd ?r = hd a" using a(1) by simp_all
  ultimately show ?thesis
    using Some a assms(1) by (simp add: workspaceSpecToString_def workspaceSpecParse_def Let_def)
qed

theorem workspaceSpec_roundtrip_witness:
  "workspaceSpecParse ''workspace:@s/foo@^1.0.0'' = Some \<lparr>wsVersion = ''^1.0.0'', wsAlias = Some ''@s/foo''\<rparr>"
  using workspaceSpec_roundtrip [of "\<lparr>wsVersion = ''^1.0.0'', wsAlias = Some ''@s/foo''\<rparr>"]
  by (simp add: isLine_def lineTerminator_def workspaceSpecToString_def)

lemma parseOverride_final:
  assumes "parseOverride valid cats (selector, pref) = Inr ov"
  shows "ovSelector ov = selector \<and> ovNewPref ov = (if parseCatalogProtocol pref = None then pref
      else the (catalogEntryOf cats (the (parseCatalogProtocol pref)) (selName (ovTargetPkg ov)))) \<and>
    parseCatalogProtocol (ovNewPref ov) = None"
proof -
  from assms obtain parent target r where r:
    "matchCatalogResolveResult (resolveFromCatalog cats \<lparr>wdPref = pref, wdAlias = selName target\<rparr>)
       (\<lambda>_ specifier. Inr (Some specifier))
       (\<lambda>_ e. Inl (pnpmError ''CATALOG_IN_OVERRIDES''
          (''Could not resolve a catalog in the overrides: '' @ errorMessage e))) (Inr None) = Inr r"
    "ov = \<lparr>ovSelector = selector, ovParentPkg = parent, ovTargetPkg = target,
       ovNewPref = (case r of Some s \<Rightarrow> s | None \<Rightarrow> pref)\<rparr>"
    by (auto simp: parseOverride_def sbind_Inr_iff)
  show ?thesis
  proof (cases "resolveFromCatalog cats \<lparr>wdPref = pref, wdAlias = selName target\<rparr>")
    case (CatalogFound n s)
    then have "parseCatalogProtocol pref = Some n" "catalogEntryOf cats n (selName target) = Some s"
      "parseCatalogProtocol s = None"
      unfolding resolveFromCatalog_found by (simp_all add: bannedSpecifier_def)
    moreover have "r = Some s" using r(1) CatalogFound by (simp add: matchCatalogResolveResult_def)
    ultimately show ?thesis using r(2) by simp
  next
    case (CatalogMisconfiguration n e)
    then show ?thesis using r by (simp add: matchCatalogResolveResult_def)
  next
    case CatalogUnused
    then have "parseCatalogProtocol pref = None" unfolding resolveFromCatalog_unused by simp
    then show ?thesis using r CatalogUnused by (simp add: matchCatalogResolveResult_def)
  qed
qed

text \<open>Overrides are parsed one for one and in order, and none of them is left with a catalog
  specifier: the new specifier is the one given, or the entry of the catalog it names for the package the
  selector targets; a catalog that cannot be resolved stops the parsing with an error.\<close>

theorem parseOverrides_final:
  assumes "parseOverrides valid overrides cats = Inr os"
  shows "list_all2 (\<lambda>(selector, pref) ov. ovSelector ov = selector \<and>
      ovNewPref ov = (if parseCatalogProtocol pref = None then pref
        else the (catalogEntryOf (orEmpty cats) (the (parseCatalogProtocol pref)) (selName (ovTargetPkg ov)))) \<and>
      \<not> startsWith (ovNewPref ov) ''catalog:'') overrides os"
proof -
  have "list_all2 (\<lambda>x y. parseOverride valid (orEmpty cats) x = Inr y) overrides os"
    using assms by (simp add: parseOverrides_def smap_Inr_iff)
  then show ?thesis
  proof (rule list_all2_mono)
    fix x y assume "parseOverride valid (orEmpty cats) x = Inr y"
    then show "(case x of (selector, pref) \<Rightarrow> \<lambda>ov. ovSelector ov = selector \<and>
      ovNewPref ov = (if parseCatalogProtocol pref = None then pref
        else the (catalogEntryOf (orEmpty cats) (the (parseCatalogProtocol pref)) (selName (ovTargetPkg ov)))) \<and>
      \<not> startsWith (ovNewPref ov) ''catalog:'') y"
      using parseOverride_final [of valid "orEmpty cats" "fst x" "snd x" y]
      by (cases x) (auto simp: parseCatalogProtocol_def [of "ovNewPref y"] CATALOG_PROTOCOL_def Let_def split: if_splits)
  qed
qed

theorem parseOverrides_final_witness:
  "\<exists>os. parseOverrides (\<lambda>_. True) [(''a>b'', ''catalog:'')] (Some [(''default'', [(''b'', ''^1.0.0'')])]) = Inr os \<and>
     map ovNewPref os = [''^1.0.0'']"
proof -
  let ?ov = "\<lparr>ovSelector = ''a>b'', ovParentPkg = Some \<lparr>selName = ''a'', selPref = None\<rparr>,
      ovTargetPkg = \<lparr>selName = ''b'', selPref = None\<rparr>, ovNewPref = ''^1.0.0''\<rparr>"
  have r: "parseOverrides (\<lambda>_. True) [(''a>b'', ''catalog:'')] (Some [(''default'', [(''b'', ''^1.0.0'')])]) = Inr [?ov]"
    by (simp add: parseOverrides_def parseOverride_def parsePkgAndParentSelector_def parsePkgSelector_def
        parseWantedDependency_def resolveFromCatalog_def parseCatalogProtocol_def CATALOG_PROTOCOL_def
        matchCatalogResolveResult_def indexOfFrom_def indexOf_def substring_def substr_def trim_def
        startsWith_def Let_def)
  from parseOverrides_final [OF r] r show ?thesis by simp
qed

end
