(* ===== verification/PackageIsInstallable.thy ===== *)
theory PackageIsInstallable
  imports Prelude
begin

text \<open>
  config/package-is-installable/src (checkEngine.ts, checkPlatform.ts, index.ts): whether a package may be
  installed on the engine and the platform at hand.

  \<open>semver.satisfies\<close> with \<open>includePrerelease\<close> and the facts about the running system (Node's version,
  \<open>process.platform\<close>, \<open>process.arch\<close>, the libc family of detect-libc) are parameters. The errors carry the
  data their messages are made of; the logging is left out.
\<close>

record engine =
  engineNode :: str
  enginePnpm :: "str option"

record wantedEngine =
  wantedNode :: "str option"
  wantedPnpm :: "str option"

record platform =
  platOs :: "str list"
  platCpu :: "str list"
  platLibc :: "str list"

datatype installError =
    UnsupportedEngineError (engineErrorPkg: str) wantedEngine engine
  | UnsupportedPlatformError (platformErrorPkg: str) platform

section \<open>Engines\<close>

definition checkEngine ::
    "(str \<Rightarrow> str \<Rightarrow> bool) \<Rightarrow> str \<Rightarrow> wantedEngine \<Rightarrow> engine \<Rightarrow> installError option" where
  "checkEngine satisfies packageId wanted current =
     (let node = (if truthy (wantedNode wanted) \<and> \<not> satisfies (engineNode current) (the (wantedNode wanted))
                  then wantedNode wanted else None);
          pnpm = (if truthy (enginePnpm current) \<and> truthy (wantedPnpm wanted) \<and>
                     \<not> satisfies (the (enginePnpm current)) (the (wantedPnpm wanted))
                  then wantedPnpm wanted else None)
      in if node \<noteq> None \<or> pnpm \<noteq> None
         then Some (UnsupportedEngineError packageId \<lparr>wantedNode = node, wantedPnpm = pnpm\<rparr> current)
         else None)"

section \<open>Platforms\<close>

text \<open>The inner loop of \<open>checkList\<close> for one value, from the current \<open>match\<close> and count of negated entries;
  \<open>None\<close> is \<open>return false\<close>.\<close>

fun checkListItem :: "str \<Rightarrow> str list \<Rightarrow> bool \<Rightarrow> nat \<Rightarrow> (bool \<times> nat) option" where
  "checkListItem value [] match blc = Some (match, blc)"
| "checkListItem value (tmp # list) match blc =
     (if startsWith tmp ''!'' then
        if substr tmp 1 = value then None else checkListItem value list match (blc + 1)
      else checkListItem value list (match \<or> tmp = value) blc)"

fun checkListLoop :: "str list \<Rightarrow> str list \<Rightarrow> bool \<Rightarrow> nat \<Rightarrow> bool" where
  "checkListLoop [] list match blc \<longleftrightarrow> match \<or> blc = length list"
| "checkListLoop (value # values) list match blc \<longleftrightarrow>
     (case checkListItem value list match blc of
        None \<Rightarrow> False
      | Some (match', blc') \<Rightarrow> checkListLoop values list match' blc')"

definition checkList :: "str list \<Rightarrow> str list \<Rightarrow> bool" where
  "checkList values list \<longleftrightarrow> (if list = [''any''] then True else checkListLoop values list False 0)"

definition dedupeCurrent :: "str \<Rightarrow> str list \<Rightarrow> str list" where
  "dedupeCurrent current supported = map (\<lambda>s. if s = ''current'' then current else s) supported"

record supportedArchitectures =
  saOs :: "str list option"
  saCpu :: "str list option"
  saLibc :: "str list option"

record system =
  sysPlatform :: str
  sysArch :: str
  sysLibc :: str
  sysNodeVersion :: str

definition supportedOr :: "(supportedArchitectures \<Rightarrow> str list option) \<Rightarrow> supportedArchitectures option \<Rightarrow> str list" where
  "supportedOr f sa = (case sa of None \<Rightarrow> [''current'']
     | Some s \<Rightarrow> (case f s of None \<Rightarrow> [''current''] | Some l \<Rightarrow> l))"

definition checkPlatform ::
    "system \<Rightarrow> str \<Rightarrow> platform \<Rightarrow> supportedArchitectures option \<Rightarrow> installError option" where
  "checkPlatform sys packageId wanted supported =
     (let osOk = checkList (dedupeCurrent (sysPlatform sys) (supportedOr saOs supported)) (platOs wanted);
          cpuOk = checkList (dedupeCurrent (sysArch sys) (supportedOr saCpu supported)) (platCpu wanted);
          libcOk = (if sysLibc sys \<noteq> ''unknown''
                    then checkList (dedupeCurrent (sysLibc sys) (supportedOr saLibc supported)) (platLibc wanted)
                    else True)
      in if \<not> osOk \<or> \<not> cpuOk \<or> \<not> libcOk then Some (UnsupportedPlatformError packageId wanted) else None)"

section \<open>packageIsInstallable\<close>

record packageRequirements =
  reqEngines :: "wantedEngine option"
  reqCpu :: "str list option"
  reqOs :: "str list option"
  reqLibc :: "str list option"

record installOptions =
  optEngineStrict :: bool
  optNodeVersion :: "str option"
  optOptional :: bool
  optPnpmVersion :: "str option"
  optSupportedArchitectures :: "supportedArchitectures option"

definition orAny :: "str list option \<Rightarrow> str list" where
  "orAny l = (case l of None \<Rightarrow> [''any''] | Some x \<Rightarrow> x)"

definition checkPackage ::
    "(str \<Rightarrow> str \<Rightarrow> bool) \<Rightarrow> system \<Rightarrow> str \<Rightarrow> packageRequirements \<Rightarrow> installOptions \<Rightarrow> installError option" where
  "checkPackage satisfies sys packageId manifest options =
     (case checkPlatform sys packageId
             \<lparr>platOs = orAny (reqOs manifest), platCpu = orAny (reqCpu manifest), platLibc = orAny (reqLibc manifest)\<rparr>
             (optSupportedArchitectures options) of
        Some e \<Rightarrow> Some e
      | None \<Rightarrow>
          (case reqEngines manifest of
             None \<Rightarrow> None
           | Some engines \<Rightarrow> checkEngine satisfies packageId engines
               \<lparr>engineNode = (case optNodeVersion options of Some v \<Rightarrow> v | None \<Rightarrow> sysNodeVersion sys),
                enginePnpm = optPnpmVersion options\<rparr>))"

text \<open>\<open>Inr None\<close> is \<open>null\<close>: not installable, but installed all the same.\<close>

definition packageIsInstallable ::
    "(str \<Rightarrow> str \<Rightarrow> bool) \<Rightarrow> system \<Rightarrow> str \<Rightarrow> packageRequirements \<Rightarrow> installOptions \<Rightarrow>
     installError + bool option" where
  "packageIsInstallable satisfies sys packageId pkg options =
     (case checkPackage satisfies sys packageId pkg options of
        None \<Rightarrow> Inr (Some True)
      | Some warn \<Rightarrow>
          if optOptional options then Inr (Some False)
          else if optEngineStrict options then Inl warn
          else Inr None)"

section \<open>Properties\<close>

definition negatedEntries :: "str list \<Rightarrow> str list" where
  "negatedEntries list = filter (\<lambda>t. startsWith t ''!'') list"

lemma checkListItem_spec:
  "checkListItem v list m b =
     (if (''!'' @ v) \<in> set list then None
      else Some (m \<or> v \<in> set list \<and> \<not> startsWith v ''!'', b + length (negatedEntries list)))"
proof (induction list arbitrary: m b)
  case (Cons t list)
  show ?case
  proof (cases "startsWith t ''!''")
    case True
    then obtain u where "t = CHR ''!'' # u" by (auto simp: startsWith_iff)
    then show ?thesis using Cons by (auto simp: negatedEntries_def substr_def)
  next
    case False
    then have "t \<noteq> CHR ''!'' # v" by (auto simp: startsWith_iff)
    then show ?thesis using Cons False by (auto simp: negatedEntries_def)
  qed
qed (simp add: negatedEntries_def)

lemma checkListLoop_spec:
  "checkListLoop vs list m b \<longleftrightarrow>
     (if list_ex (\<lambda>v. (''!'' @ v) \<in> set list) vs then False
      else m \<or> list_ex (\<lambda>v. v \<in> set list \<and> \<not> startsWith v ''!'') vs \<or>
        b + length vs * length (negatedEntries list) = length list)"
  by (induction vs arbitrary: m b) (auto simp: checkListItem_spec)

text \<open>The \<open>os\<close>, \<open>cpu\<close> and \<open>libc\<close> fields: a platform is accepted when the list is \<open>any\<close>, and otherwise when
  the list does not negate it and either names it or consists of negations only.\<close>

theorem checkList_single:
  "checkList [v] list \<longleftrightarrow>
     list = [''any''] \<or>
     (if (''!'' @ v) \<in> set list then False
      else v \<in> set list \<and> \<not> startsWith v ''!'' \<or> negatedEntries list = list)"
proof -
  have "length (negatedEntries list) = length list \<longleftrightarrow> negatedEntries list = list"
    unfolding negatedEntries_def by (metis filter_True length_filter_less linorder_neq_iff)
  then show ?thesis by (auto simp: checkList_def checkListLoop_spec)
qed

text \<open>With more than one supported platform, a list of negations alone is never accepted, even when it
  negates none of them: the loop counts the negations once for each platform and compares the count with the
  length of the list.\<close>

theorem checkList_several_negated:
  assumes "2 \<le> length vs" "list \<noteq> []" "negatedEntries list = list"
  shows "\<not> checkList vs list"
proof
  assume c: "checkList vs list"
  have neg: "\<forall>t \<in> set list. startsWith t ''!''"
    using assms(3) unfolding negatedEntries_def by (metis filter_id_conv)
  then have "list \<noteq> [''any'']" by auto
  with c have "list_ex (\<lambda>v. v \<in> set list \<and> \<not> startsWith v ''!'') vs \<or> length vs * length list = length list"
    using assms(3) by (auto simp: checkList_def checkListLoop_spec split: if_splits)
  moreover have "\<not> list_ex (\<lambda>v. v \<in> set list \<and> \<not> startsWith v ''!'') vs" using neg by (auto simp: list_ex_iff)
  moreover have "length vs * length list \<noteq> length list" using assms(1,2) by simp
  ultimately show False by simp
qed

theorem checkList_several_negated_witness:
  "\<not> checkList [''linux'', ''darwin''] [''!win32''] \<and> checkList [''linux''] [''!win32''] \<and>
   checkList [''darwin''] [''!win32'']"
proof -
  have "\<not> checkList [''linux'', ''darwin''] [''!win32'']"
    by (rule checkList_several_negated) (simp_all add: negatedEntries_def)
  then show ?thesis by (simp add: checkList_def substr_def)
qed

text \<open>packageIsInstallable tells the three kinds of incompatibility apart: a compatible package is
  installable, an incompatible optional one is to be skipped, an incompatible required one is an error under
  \<open>engineStrict\<close> and \<open>null\<close> without it; the error is the platform's when the platform does not fit.\<close>

theorem packageIsInstallable_outcome:
  "packageIsInstallable satisfies sys i pkg options =
     (let bad = checkPackage satisfies sys i pkg options in
      if bad = None then Inr (Some True)
      else if optOptional options then Inr (Some False)
      else if optEngineStrict options then Inl (the bad)
      else Inr None) \<and>
   (checkPackage satisfies sys i pkg options = None \<longleftrightarrow>
      checkList (dedupeCurrent (sysPlatform sys) (supportedOr saOs (optSupportedArchitectures options))) (orAny (reqOs pkg)) \<and>
      checkList (dedupeCurrent (sysArch sys) (supportedOr saCpu (optSupportedArchitectures options))) (orAny (reqCpu pkg)) \<and>
      (if sysLibc sys = ''unknown'' then True
       else checkList (dedupeCurrent (sysLibc sys) (supportedOr saLibc (optSupportedArchitectures options))) (orAny (reqLibc pkg))) \<and>
      (case reqEngines pkg of None \<Rightarrow> True
       | Some e \<Rightarrow> (if truthy (wantedNode e)
           then satisfies (case optNodeVersion options of Some v \<Rightarrow> v | None \<Rightarrow> sysNodeVersion sys) (the (wantedNode e))
           else True) \<and>
         (if truthy (optPnpmVersion options) \<and> truthy (wantedPnpm e)
          then satisfies (the (optPnpmVersion options)) (the (wantedPnpm e)) else True)))"
proof -
  have some: "truthy x \<Longrightarrow> x \<noteq> None" for x by (cases x) auto
  have e: "checkEngine satisfies i w c = None \<longleftrightarrow>
      (if truthy (wantedNode w) then satisfies (engineNode c) (the (wantedNode w)) else True) \<and>
      (if truthy (enginePnpm c) \<and> truthy (wantedPnpm w)
       then satisfies (the (enginePnpm c)) (the (wantedPnpm w)) else True)" for w c
    using some [of "wantedNode w"] some [of "wantedPnpm w"] by (auto simp: checkEngine_def Let_def)
  show ?thesis
    by (auto simp: packageIsInstallable_def checkPackage_def checkPlatform_def e Let_def split: option.splits)
qed

end
