(* ===== verification/ChangedPackages.thy ===== *)
theory ChangedPackages
  imports Prelude
begin

text \<open>
  workspace/filter-workspace-packages/src/getChangedPackages.ts: which projects of the workspace hold
  files that changed since a commit. Running \<open>git diff\<close>, finding the repository's root, \<open>path.join\<close>
  and the glob matching of micromatch are parameters, collected in a record; \<open>path.dirname\<close> is Node's
  for POSIX paths.
\<close>

section \<open>path.dirname\<close>

text \<open>The part of the path in front of the last slash that has a name behind it; the first character is
  never that slash.\<close>

definition parentPart :: "str \<Rightarrow> str" where
  "parentPart s = dropWhile (\<lambda>c. c \<noteq> CHR ''/'') (dropWhile (\<lambda>c. c = CHR ''/'') (rev (tl s)))"

definition dirname :: "str \<Rightarrow> str" where
  "dirname s =
     (if s = [] then ''.''
      else if parentPart s = [] then (if hd s = CHR ''/'' then ''/'' else ''.'')
      else if hd s = CHR ''/'' \<and> length (parentPart s) = 1 then ''//''
      else take (length (parentPart s)) s)"

lemma dropWhile_slash_shorter:
  assumes "dropWhile (\<lambda>c. c \<noteq> a) (dropWhile (\<lambda>c. c = a) t) \<noteq> []"
  shows "length (dropWhile (\<lambda>c. c \<noteq> a) (dropWhile (\<lambda>c. c = a) t)) < length t"
proof -
  let ?u = "dropWhile (\<lambda>c. c = a) t"
  have "?u \<noteq> []" using assms by (metis dropWhile.simps(1))
  then have "hd ?u \<noteq> a" by (rule hd_dropWhile)
  with \<open>?u \<noteq> []\<close> obtain c u where u: "?u = c # u" "c \<noteq> a" by (cases ?u) auto
  have "length (dropWhile (\<lambda>c. c \<noteq> a) ?u) < length ?u"
    using u by (simp add: le_imp_less_Suc length_dropWhile_le)
  then show ?thesis using length_dropWhile_le [of "\<lambda>c. c = a" t] by linarith
qed

lemma parentPart_shorter: "parentPart s \<noteq> [] \<Longrightarrow> length (parentPart s) < length s - 1"
  using dropWhile_slash_shorter [of "CHR ''/''" "rev (tl s)"] unfolding parentPart_def by simp

lemma dirname_shorter: "dirname s = ''.'' \<or> dirname s = ''/'' \<or> length (dirname s) < length s"
  using parentPart_shorter [of s] by (auto simp: dirname_def)

lemma dirname_nonempty: "dirname s \<noteq> []"
  by (simp add: dirname_def)

text \<open>The loop that walks up from a directory to a project, or to a directory that is its own parent.\<close>

function enclosing :: "str list \<Rightarrow> str \<Rightarrow> str" where
  "enclosing dirs dir =
     (if dir \<in> set dirs then dir
      else let nextDir = dirname dir in if nextDir = dir then dir else enclosing dirs nextDir)"
  by pat_completeness auto

termination enclosing
proof (relation "measure (\<lambda>(_, d). if d = [] then 4 else if d = ''.'' \<or> d = ''/'' then 0 else length d + 1)", goal_cases)
  case (2 dirs dir n)
  have fixed: "dirname ''/'' = ''/''" "dirname ''.'' = ''.''" by (simp_all add: dirname_def parentPart_def)
  show ?case
  proof (cases "dir = []")
    case True
    then have "n = ''.''" using 2 by (simp add: dirname_def)
    then show ?thesis using True by simp
  next
    case False
    then show ?thesis using 2 dirname_shorter [of dir] dirname_nonempty [of dir] fixed by auto
  qed
qed simp

declare enclosing.simps [simp del]

section \<open>getChangedPackages\<close>

datatype changeType = SourceChange | TestChange

record changesEnv =
  envGitDiff :: "str \<Rightarrow> str \<Rightarrow> str + str"
  envRepoRoot :: "str \<Rightarrow> str"
  envPathJoin :: "str \<Rightarrow> str \<Rightarrow> str"
  envIsMatch :: "str \<Rightarrow> str \<Rightarrow> bool"
  envMatchNot :: "str list \<Rightarrow> str list \<Rightarrow> str list"

text \<open>\<open>line.replace(/^"/, '').replace(/"$/, '')\<close>\<close>

definition unquote :: "str \<Rightarrow> str" where
  "unquote line =
     (let l = (if startsWith line [CHR 0x22] then drop 1 line else line)
      in if endsWith l [CHR 0x22] then butlast l else l)"

definition changedFilesOf :: "changesEnv \<Rightarrow> str list \<Rightarrow> str \<Rightarrow> str list" where
  "changedFilesOf env changedFilesIgnorePattern stdout =
     (let allChangedFiles = map unquote (splitOn CHR 0x0A stdout);
          patterns = filter (\<lambda>p. p \<noteq> []) changedFilesIgnorePattern
      in if patterns \<noteq> [] then envMatchNot env allChangedFiles patterns else allChangedFiles)"

definition fileChange :: "changesEnv \<Rightarrow> str list \<Rightarrow> str \<Rightarrow> changeType" where
  "fileChange env testPattern changedFile =
     (if list_ex (\<lambda>p. envIsMatch env changedFile p) testPattern then TestChange else SourceChange)"

text \<open>One changed file, and one changed directory: a source change is never overwritten.\<close>

definition addChangedDir ::
    "changesEnv \<Rightarrow> str list \<Rightarrow> str \<Rightarrow> (str \<times> changeType) list \<Rightarrow> (str \<times> changeType) list" where
  "addChangedDir env testPattern changedFile changedDirs =
     (if map_of changedDirs (dirname changedFile) = Some SourceChange then changedDirs
      else jset (dirname changedFile) (fileChange env testPattern changedFile) changedDirs)"

definition getChangedDirsSinceCommit ::
    "changesEnv \<Rightarrow> str \<Rightarrow> str \<Rightarrow> str list \<Rightarrow> str list \<Rightarrow> js_error + (str \<times> changeType) list" where
  "getChangedDirsSinceCommit env commit workingDir testPattern changedFilesIgnorePattern =
     (case envGitDiff env commit workingDir of
        Inl stderr \<Rightarrow> Inl (pnpmError ''FILTER_CHANGED'' (''Filtering by changed packages failed. '' @ stderr))
      | Inr diff \<Rightarrow>
          if diff = [] then Inr []
          else Inr (fold (addChangedDir env testPattern) (changedFilesOf env changedFilesIgnorePattern diff) []))"

definition markChanged ::
    "str \<times> changeType \<Rightarrow> (str \<times> changeType option) list \<Rightarrow> (str \<times> changeType option) list" where
  "markChanged changedDir pkgChangeTypes =
     (case changedDir of (dir, changeType) \<Rightarrow>
        let currentDir = enclosing (keys pkgChangeTypes) dir in
        if map_of pkgChangeTypes currentDir = Some (Some SourceChange) then pkgChangeTypes
        else jset currentDir (Some changeType) pkgChangeTypes)"

definition getChangedPackages ::
    "changesEnv \<Rightarrow> str list \<Rightarrow> str \<Rightarrow> str \<Rightarrow> str list option \<Rightarrow> str list option \<Rightarrow> js_error + str list \<times> str list" where
  "getChangedPackages env packageDirs commit workspaceDir testPattern changedFilesIgnorePattern =
     sbind (getChangedDirsSinceCommit env commit workspaceDir (orEmpty testPattern) (orEmpty changedFilesIgnorePattern))
       (\<lambda>dirs.
          let changedDirs = map (\<lambda>(dir, t). (envPathJoin env (envRepoRoot env workspaceDir) dir, t)) dirs;
              pkgChangeTypes = fold markChanged changedDirs (fold (\<lambda>d. jset d None) packageDirs [])
          in Inr (keys (filter (\<lambda>(_, t). t = Some SourceChange) pkgChangeTypes),
                  keys (filter (\<lambda>(_, t). t = Some TestChange) pkgChangeTypes)))"

section \<open>The nearest project\<close>

lemma enclosing_in: "dir \<in> set dirs \<Longrightarrow> enclosing dirs dir = dir"
  by (subst enclosing.simps) simp

lemma enclosing_cong: "set dirs = set dirs' \<Longrightarrow> enclosing dirs dir = enclosing dirs' dir"
proof (induction dirs dir rule: enclosing.induct)
  case (1 dirs dir)
  then show ?case
    by (subst (1 2) enclosing.simps) (auto simp: Let_def)
qed

text \<open>The directory the loop ends in is a project or its own parent; adding it to the projects changes
  no other walk.\<close>

lemma enclosing_end: "enclosing dirs dir \<in> set dirs \<or> dirname (enclosing dirs dir) = enclosing dirs dir"
proof (induction dirs dir rule: enclosing.induct)
  case (1 dirs dir)
  then show ?case by (subst (1 2 3) enclosing.simps) (auto simp: Let_def)
qed

lemma enclosing_add_fixed:
  assumes "dirname x = x"
  shows "enclosing (x # dirs) dir = enclosing dirs dir"
proof (induction dirs dir rule: enclosing.induct)
  case (1 dirs dir)
  show ?case
  proof (cases "dir \<in> set dirs \<or> dirname dir = dir")
    case True
    then show ?thesis by (subst (1 2) enclosing.simps) auto
  next
    case False
    then have "dir \<noteq> x" using assms by auto
    then show ?thesis using False 1 by (subst (1 2) enclosing.simps) (simp add: Let_def)
  qed
qed

lemma enclosing_add:
  assumes "set dirs \<subseteq> set dirs'" "\<forall>x \<in> set dirs' - set dirs. dirname x = x"
  shows "enclosing dirs' dir = enclosing dirs dir"
proof -
  have "enclosing (xs @ dirs) dir = enclosing dirs dir" if "\<forall>x \<in> set xs. dirname x = x" for xs
    using that by (induction xs) (simp_all add: enclosing_add_fixed)
  note this [of "filter (\<lambda>x. x \<notin> set dirs) dirs'"]
  moreover have "enclosing dirs' dir = enclosing (filter (\<lambda>x. x \<notin> set dirs) dirs' @ dirs) dir"
    by (rule enclosing_cong) (use assms(1) in auto)
  ultimately show ?thesis using assms(2) by auto
qed

text \<open>The type a directory ends up with: source as soon as one change of it is.\<close>

definition mergedType :: "changeType list \<Rightarrow> changeType option" where
  "mergedType ts = (if ts = [] then None else if SourceChange \<in> set ts then Some SourceChange else Some TestChange)"

lemma mergedType_snoc:
  "mergedType (ts @ [t]) = (if mergedType ts = Some SourceChange then Some SourceChange else Some t)"
  by (cases t) (auto simp: mergedType_def)

lemma addChangedDir_merged:
  "map_of (fold (addChangedDir env testPattern) files []) d =
     mergedType (map (fileChange env testPattern) (filter (\<lambda>f. dirname f = d) files))"
proof (induction files rule: rev_induct)
  case Nil
  show ?case by (simp add: mergedType_def)
next
  case (snoc f files)
  then show ?case
    by (auto simp: addChangedDir_def alist.get_put mergedType_snoc)
qed

lemma distinct_addChangedDir: "distinct (keys (fold (addChangedDir env testPattern) files []))"
proof (induction files rule: rev_induct)
  case (snoc f files)
  then show ?case by (simp add: addChangedDir_def distinct_keys_update del: distinct_map)
qed simp

definition markInv :: "str list \<Rightarrow> (str \<times> changeType) list \<Rightarrow> (str \<times> changeType option) list \<Rightarrow> bool" where
  "markInv dirs done m \<longleftrightarrow> distinct (keys m) \<and> set dirs \<subseteq> set (keys m) \<and>
     (\<forall>x \<in> set (keys m) - set dirs. dirname x = x) \<and>
     (\<forall>p \<in> set dirs. map_of m p =
        Some (mergedType (map snd (filter (\<lambda>(d, _). enclosing dirs d = p) done))))"

lemma markInv_step:
  assumes "markInv dirs cs m"
  shows "markInv dirs (cs @ [c]) (markChanged c m)"
proof -
  obtain d t where c: "c = (d, t)" by (cases c)
  let ?e = "enclosing dirs d"
  have inv: "distinct (keys m)" "set dirs \<subseteq> set (keys m)" "\<forall>x \<in> set (keys m) - set dirs. dirname x = x"
    and m: "\<And>p. p \<in> set dirs \<Longrightarrow>
      map_of m p = Some (mergedType (map snd (filter (\<lambda>(d, _). enclosing dirs d = p) cs)))"
    using assms by (auto simp: markInv_def)
  have e: "enclosing (keys m) d = ?e" by (rule enclosing_add [OF inv(2,3)])
  have step: "markChanged (d, t) m = (if map_of m ?e = Some (Some SourceChange) then m else jset ?e (Some t) m)"
    by (simp add: markChanged_def e Let_def)
  have end_: "?e \<in> set dirs \<or> dirname ?e = ?e" by (rule enclosing_end)
  have "map_of (markChanged (d, t) m) p =
      Some (mergedType (map snd (filter (\<lambda>(d, _). enclosing dirs d = p) (cs @ [(d, t)]))))"
    if p: "p \<in> set dirs" for p
    using m [OF p] by (auto simp: step c mergedType_snoc alist.get_put)
  moreover have "distinct (keys (markChanged (d, t) m))"
    using inv(1) by (simp add: step distinct_keys_update del: distinct_map)
  moreover have "set (keys (markChanged (d, t) m)) \<subseteq> insert ?e (set (keys m))"
      "set (keys m) \<subseteq> set (keys (markChanged (d, t) m))"
    by (auto simp: step dom_update)
  ultimately show ?thesis
    using inv(2,3) end_ unfolding markInv_def c by blast
qed

lemma markInv_fold: "markInv dirs (cs @ ds) (fold markChanged ds m)" if "markInv dirs cs m"
  using that
proof (induction ds arbitrary: cs m)
  case (Cons d ds)
  from Cons.IH [OF markInv_step [OF Cons.prems]] show ?case by simp
qed simp

lemma markInv_start: "markInv dirs [] (fold (\<lambda>d. jset d None) dirs [])"
proof -
  have "distinct (keys (fold (\<lambda>d. jset d (None :: changeType option)) ds m))" if "distinct (keys m)" for ds :: "str list" and m
    using that by (induction ds arbitrary: m) (simp_all add: distinct_keys_update del: distinct_map)
  moreover have "map_of (fold (\<lambda>d. jset d (None :: changeType option)) dirs []) p = (if p \<in> set dirs then Some None else None)" for p
    using alist.get_fold_put_keyed [of "\<lambda>_. None :: changeType option" dirs "[]" p] by simp
  ultimately show ?thesis
    by (auto simp: markInv_def in_keys_iff mergedType_def simp del: set_map split: if_splits)
qed

lemma keys_filter_iff:
  "distinct (keys m) \<Longrightarrow> k \<in> set (keys (filter (\<lambda>(_, t). t = v) m)) \<longleftrightarrow> map_of m k = Some v"
  by (auto simp: image_iff dest: map_of_SomeD intro!: map_of_is_SomeI)

section \<open>The changed projects\<close>

text \<open>The changed files that are looked at, and those of them below a project: its directory is the
  nearest project of the file's directory.\<close>

definition gitFiles :: "changesEnv \<Rightarrow> str \<Rightarrow> str \<Rightarrow> str list \<Rightarrow> str list" where
  "gitFiles env commit workspaceDir ignorePattern =
     (case envGitDiff env commit workspaceDir of
        Inl _ \<Rightarrow> [] | Inr diff \<Rightarrow> if diff = [] then [] else changedFilesOf env ignorePattern diff)"

definition changesOf :: "changesEnv \<Rightarrow> str list \<Rightarrow> str \<Rightarrow> str list \<Rightarrow> str \<Rightarrow> str set" where
  "changesOf env dirs workspaceDir files p =
     {f \<in> set files. enclosing dirs (envPathJoin env (envRepoRoot env workspaceDir) (dirname f)) = p}"

lemma mergedType_cases:
  "mergedType ts = Some SourceChange \<longleftrightarrow> SourceChange \<in> set ts"
  "mergedType ts = Some TestChange \<longleftrightarrow> ts \<noteq> [] \<and> SourceChange \<notin> set ts"
  "mergedType ts = None \<longleftrightarrow> ts = []"
  by (auto simp: mergedType_def)

text \<open>The directories of the diff carry the merged types of their files, so merging them again by project
  merges the types of the files by project.\<close>

lemma dirs_merged:
  fixes env files t
  assumes "dirs = fold (addChangedDir env t) files []"
  shows "SourceChange \<in> set (map snd (filter (\<lambda>(d, _). Q d) dirs)) \<longleftrightarrow>
      (\<exists>f \<in> set files. Q (dirname f) \<and> fileChange env t f = SourceChange)"
    and "filter (\<lambda>(d, _). Q d) dirs = [] \<longleftrightarrow> \<not> (\<exists>f \<in> set files. Q (dirname f))"
proof -
  have m: "map_of dirs d = mergedType (map (fileChange env t) (filter (\<lambda>f. dirname f = d) files))" for d
    unfolding assms by (rule addChangedDir_merged)
  have dist: "distinct (keys dirs)" unfolding assms by (rule distinct_addChangedDir)
  have mem: "(d, v) \<in> set dirs \<longleftrightarrow> map_of dirs d = Some v" for d v
    using dist by simp
  have "SourceChange \<in> set (map snd (filter (\<lambda>(d, _). Q d) dirs)) \<longleftrightarrow> (\<exists>d. Q d \<and> (d, SourceChange) \<in> set dirs)"
    by force
  also have "\<dots> \<longleftrightarrow> (\<exists>f \<in> set files. Q (dirname f) \<and> fileChange env t f = SourceChange)"
    unfolding mem m mergedType_cases by force
  finally show "SourceChange \<in> set (map snd (filter (\<lambda>(d, _). Q d) dirs)) \<longleftrightarrow>
      (\<exists>f \<in> set files. Q (dirname f) \<and> fileChange env t f = SourceChange)" .
  have "filter (\<lambda>(d, _). Q d) dirs = [] \<longleftrightarrow> \<not> (\<exists>d. Q d \<and> map_of dirs d \<noteq> None)"
    by (auto simp: filter_empty_conv mem [symmetric])
  also have "\<dots> \<longleftrightarrow> \<not> (\<exists>f \<in> set files. Q (dirname f))"
    unfolding m mergedType_cases by (force simp: filter_empty_conv)
  finally show "filter (\<lambda>(d, _). Q d) dirs = [] \<longleftrightarrow> \<not> (\<exists>f \<in> set files. Q (dirname f))" .
qed

lemma getChangedPackages_Inr:
  assumes "getChangedPackages env dirs commit workspaceDir (Some testPattern) (Some ignorePattern) = Inr (changed, testsOnly)"
  defines "files \<equiv> gitFiles env commit workspaceDir ignorePattern"
  defines "place \<equiv> (\<lambda>d. envPathJoin env (envRepoRoot env workspaceDir) d)"
  shows "changed = keys (filter (\<lambda>(_, t). t = Some SourceChange)
      (fold markChanged (map (\<lambda>(d, t). (place d, t)) (fold (addChangedDir env testPattern) files []))
        (fold (\<lambda>d. jset d None) dirs [])))"
    and "testsOnly = keys (filter (\<lambda>(_, t). t = Some TestChange)
      (fold markChanged (map (\<lambda>(d, t). (place d, t)) (fold (addChangedDir env testPattern) files []))
        (fold (\<lambda>d. jset d None) dirs [])))"
  using assms(1) unfolding files_def place_def
  by (auto simp: getChangedPackages_def getChangedDirsSinceCommit_def gitFiles_def sbind_Inr_iff Let_def
      split: sum.splits if_splits)


definition exampleEnv :: changesEnv where
  "exampleEnv = \<lparr>envGitDiff = (\<lambda>_ _. Inr (''a/x.ts'' @ [CHR 0x0A] @ ''a/b/y.test'')), envRepoRoot = (\<lambda>_. ''/w''),
     envPathJoin = (\<lambda>a b. a @ ''/'' @ b), envIsMatch = (\<lambda>f p. endsWith f p), envMatchNot = (\<lambda>fs _. fs)\<rparr>"

lemma example_changes:
  "getChangedPackages exampleEnv [''/w/a'', ''/w/a/b''] ''main'' ''/w'' (Some [''.test'']) (Some []) =
     Inr ([''/w/a''], [''/w/a/b''])"
  by (code_simp)


end
