(* ===== verification/NpmPicker.thy ===== *)
theory NpmPicker
  imports LockfileTypes Specifiers
begin

text \<open>
  resolving/npm-resolver/src: parsing a specifier (parsePref.ts, workspacePrefToNpm.ts), choosing a
  version from a package's metadata (pickPackageFromMeta.ts) and getting that metadata from the cache in
  memory, the mirror on disk or the registry (pickPackage.ts).

  semver, the selector types of version-selector-type and the tarball URLs of parse-npm-tarball-url are
  parameters; so are the registry's answers. The memo of parsed ranges is left out. A time is a string
  that \<open>notAfter\<close> compares.
\<close>

section \<open>semver\<close>

text \<open>\<open>svRange r\<close> is the test of \<open>new semver.Range(r, true)\<close> on a version; \<open>None\<close> stands for an exception,
  in either place. \<open>svMaxSatisfying vs r includePrerelease loose\<close>.\<close>

record semverLib =
  svRange :: "str \<Rightarrow> (str \<Rightarrow> bool option) option"
  svMaxSatisfying :: "str list \<Rightarrow> str \<Rightarrow> bool \<Rightarrow> bool \<Rightarrow> str option"
  svMinSatisfying :: "str list \<Rightarrow> str \<Rightarrow> str option"
  svValid :: "str \<Rightarrow> bool"
  svLe :: "str \<Rightarrow> str \<Rightarrow> bool"
  svNotAfter :: "str \<Rightarrow> str \<Rightarrow> bool"

definition semverSatisfiesLoose :: "semverLib \<Rightarrow> str \<Rightarrow> str \<Rightarrow> bool" where
  "semverSatisfiesLoose sv version versionRange \<longleftrightarrow>
     (case svRange sv versionRange of
        None \<Rightarrow> False
      | Some test \<Rightarrow> (case test version of None \<Rightarrow> False | Some b \<Rightarrow> b))"

text \<open>\<open>semver.lt(a, b)\<close>, which throws on a string that is no version.\<close>

definition semverLt :: "semverLib \<Rightarrow> str \<Rightarrow> str \<Rightarrow> js_error + bool" where
  "semverLt sv a b =
     (if svValid sv a \<and> svValid sv b then Inr (\<not> svLe sv b a) else Inl (TypeError ''Invalid Version''))"

fun insertVersion :: "semverLib \<Rightarrow> str \<Rightarrow> str list \<Rightarrow> str list" where
  "insertVersion sv v [] = [v]"
| "insertVersion sv v (w # ws) = (if svLe sv v w then v # w # ws else w # insertVersion sv v ws)"

text \<open>\<open>versions.sort(semver.compare)\<close>: with two or more elements each of them is compared.\<close>

definition sortVersions :: "semverLib \<Rightarrow> str list \<Rightarrow> js_error + str list" where
  "sortVersions sv vs =
     (if 2 \<le> length vs \<and> \<not> list_all (svValid sv) vs then Inl (TypeError ''Invalid Version'')
      else Inr (foldr (insertVersion sv) vs []))"

section \<open>Specifiers of registry packages\<close>

datatype specType = TagSpec | VersionSpec | RangeSpec

record registryPackageSpec =
  spType :: specType
  spName :: str
  spFetchSpec :: str
  spNormalizedPref :: "str option"

definition parsePref ::
    "(str \<Rightarrow> (specType \<times> str) option) \<Rightarrow> (str \<Rightarrow> (str \<times> str) option) \<Rightarrow> str \<Rightarrow> str option \<Rightarrow> str \<Rightarrow> str \<Rightarrow>
     registryPackageSpec option" where
  "parsePref getVersionSelectorType parseNpmTarballUrl pref alias defaultTag registry =
     (let (name, pref) =
        (if startsWith pref ''npm:'' then
           let pref = drop 4 pref; index = lastIndexOf pref CHR ''@'' in
           if index < 1 then (Some pref, defaultTag)
           else (Some (slice pref 0 index), substr pref (index + 1))
         else (alias, pref))
      in case (if truthy name then getVersionSelectorType pref else None) of
           Some (t, normalized) \<Rightarrow>
             Some \<lparr>spType = t, spName = the name, spFetchSpec = normalized, spNormalizedPref = None\<rparr>
         | None \<Rightarrow>
             if startsWith pref registry then
               (case parseNpmTarballUrl pref of
                  Some (pkg, version) \<Rightarrow>
                    Some \<lparr>spType = VersionSpec, spName = pkg, spFetchSpec = version, spNormalizedPref = Some pref\<rparr>
                | None \<Rightarrow> None)
             else None)"

definition workspacePrefToNpm :: "str \<Rightarrow> js_error + str" where
  "workspacePrefToNpm workspacePref =
     (case workspaceSpecParse workspacePref of
        None \<Rightarrow> Inl (PlainError (''Invalid workspace spec: '' @ workspacePref))
      | Some w \<Rightarrow>
          let versionPart = (if wsVersion w = ''^'' \<or> wsVersion w = ''~'' then ''*'' else wsVersion w) in
          Inr (if truthy (wsAlias w) then ''npm:'' @ the (wsAlias w) @ ''@'' @ versionPart else versionPart))"

section \<open>Metadata\<close>

text \<open>\<open>prOther\<close> holds the other fields of a manifest by name.\<close>

record dist =
  distIntegrity :: "str option"
  distShasum :: str
  distTarball :: str

record packageInRegistry =
  prName :: str
  prVersion :: str
  prDeprecated :: "str option"
  prDist :: dist
  prOther :: "str obj"

record metaTime =
  tmVersions :: "str obj"
  tmUnpublished :: "str list option"

record packageMeta =
  mtName :: str
  mtDistTags :: "str obj option"
  mtVersions :: "packageInRegistry obj option"
  mtTime :: "metaTime option"
  mtCachedAt :: "str option"

text \<open>\<open>meta.versions\<close> and \<open>meta['dist-tags']\<close> where the code takes them to be objects.\<close>

definition need :: "str \<Rightarrow> 'a option \<Rightarrow> js_error + 'a" where
  "need what x = (case x of None \<Rightarrow> Inl (TypeError what) | Some v \<Rightarrow> Inr v)"

section \<open>Preferred versions\<close>

text \<open>A selector is a type, with weight 1, or a type with its weight.\<close>

datatype versionSelector = PlainSelector specType | WeightedSelector specType nat

fun selectorParts :: "versionSelector \<Rightarrow> specType \<times> nat" where
  "selectorParts (PlainSelector t) = (t, 1)"
| "selectorParts (WeightedSelector t w) = (t, w)"

definition addPreferred :: "nat \<Rightarrow> str \<Rightarrow> nat obj \<Rightarrow> nat obj" where
  "addPreferred weight version preferredVersions =
     (case map_of preferredVersions version of
        None \<Rightarrow> jset version weight preferredVersions
      | Some w \<Rightarrow> jset version (if w = 0 then weight else w + weight) preferredVersions)"

text \<open>The groups of versions by weight, the heaviest first; within a group the order of their addition.\<close>

definition versionsByPriority :: "nat obj \<Rightarrow> str list list" where
  "versionsByPriority preferredVersions =
     map (\<lambda>w. keys (filter (\<lambda>(_, w'). w' = w) preferredVersions))
       (rev (sort (remdups (vals preferredVersions))))"

text \<open>A missing tag adds the property \<open>undefined\<close>, as \<open>add(undefined, weight)\<close> does.\<close>

definition addSelector ::
    "semverLib \<Rightarrow> packageMeta \<Rightarrow> str \<Rightarrow> str \<times> versionSelector \<Rightarrow> nat obj \<Rightarrow> js_error + nat obj" where
  "addSelector sv meta versionRange entry preferred =
     (case entry of (preferredSelector, sel) \<Rightarrow>
        case selectorParts sel of (selectorType, weight) \<Rightarrow>
          if preferredSelector = versionRange then Inr preferred
          else (case selectorType of
             TagSpec \<Rightarrow> sbind (need ''dist-tags'' (mtDistTags meta)) (\<lambda>distTags.
               Inr (addPreferred weight
                 (case map_of distTags preferredSelector of Some v \<Rightarrow> v | None \<Rightarrow> ''undefined'') preferred))
           | RangeSpec \<Rightarrow> sbind (need ''versions'' (mtVersions meta)) (\<lambda>versions.
               Inr (fold (addPreferred weight)
                 (filter (\<lambda>v. semverSatisfiesLoose sv v preferredSelector) (keys versions)) preferred))
           | VersionSpec \<Rightarrow> sbind (need ''versions'' (mtVersions meta)) (\<lambda>versions.
               Inr (if map_of versions preferredSelector \<noteq> None then addPreferred weight preferredSelector preferred
                    else preferred))))"

definition prioritizePreferredVersions ::
    "semverLib \<Rightarrow> packageMeta \<Rightarrow> str \<Rightarrow> versionSelector obj \<Rightarrow> js_error + str list list" where
  "prioritizePreferredVersions sv meta versionRange selectors =
     sbind (sfold (addSelector sv meta versionRange) selectors []) (\<lambda>preferred. Inr (versionsByPriority preferred))"

section \<open>Picking a version\<close>

type_synonym versionPicker =
  "packageMeta \<Rightarrow> str \<Rightarrow> versionSelector obj option \<Rightarrow> str option \<Rightarrow> js_error + str option"

text \<open>The loops over the groups of preferred versions.\<close>

fun pickPreferredLowest :: "semverLib \<Rightarrow> str \<Rightarrow> str list list \<Rightarrow> str option" where
  "pickPreferredLowest sv versionRange [] = None"
| "pickPreferredLowest sv versionRange (preferredVersions # rest) =
     (let preferredVersion = svMinSatisfying sv preferredVersions versionRange in
      if truthy preferredVersion then preferredVersion else pickPreferredLowest sv versionRange rest)"

fun pickPreferred :: "semverLib \<Rightarrow> str option \<Rightarrow> str \<Rightarrow> str list list \<Rightarrow> str option" where
  "pickPreferred sv latest versionRange [] = None"
| "pickPreferred sv latest versionRange (preferredVersions # rest) =
     (if latest \<in> Some ` set preferredVersions \<and> semverSatisfiesLoose sv (the latest) versionRange then latest
      else let preferredVersion = svMaxSatisfying sv preferredVersions versionRange False True in
        if truthy preferredVersion then preferredVersion else pickPreferred sv latest versionRange rest)"

definition preferredChoice ::
    "semverLib \<Rightarrow> (str list list \<Rightarrow> str option) \<Rightarrow> packageMeta \<Rightarrow> str \<Rightarrow> versionSelector obj option \<Rightarrow> js_error + str option" where
  "preferredChoice sv pickGroup meta versionRange preferredVerSels =
     (if orEmpty preferredVerSels = [] then Inr None
      else sbind (prioritizePreferredVersions sv meta versionRange (orEmpty preferredVerSels)) (\<lambda>groups. Inr (pickGroup groups)))"

definition pickLowestVersionByVersionRange :: "semverLib \<Rightarrow> versionPicker" where
  "pickLowestVersionByVersionRange sv meta versionRange preferredVerSels publishedBy =
     sbind (preferredChoice sv (pickPreferredLowest sv versionRange) meta versionRange preferredVerSels) (\<lambda>preferred.
       if preferred \<noteq> None then Inr preferred
       else sbind (need ''versions'' (mtVersions meta)) (\<lambda>versions.
         if versionRange = ''*''
         then sbind (sortVersions sv (keys versions)) (\<lambda>vs. Inr (case vs of [] \<Rightarrow> None | v # _ \<Rightarrow> Some v))
         else Inr (svMinSatisfying sv (keys versions) versionRange)))"

text \<open>The versions published in time, and the latest one if it is among them. A version without a time
  counts as not published: the comparison with an invalid date is false.\<close>

definition publishedInTime ::
    "semverLib \<Rightarrow> packageMeta \<Rightarrow> str list \<Rightarrow> str option \<Rightarrow> str option \<Rightarrow> js_error + str list \<times> str option" where
  "publishedInTime sv meta versions latest publishedBy =
     (case publishedBy of
        None \<Rightarrow> Inr (versions, latest)
      | Some date \<Rightarrow>
          (case mtTime meta of
             None \<Rightarrow> Inl (pnpmError ''MISSING_TIME''
               (''The metadata of '' @ mtName meta @ '' is missing the '' @ [CHR 0x22] @ ''time'' @ [CHR 0x22] @ '' field''))
           | Some time \<Rightarrow>
               let versions = filter (\<lambda>v. case map_of (tmVersions time) v of
                     None \<Rightarrow> False | Some t \<Rightarrow> svNotAfter sv t date) versions
               in Inr (versions, if latest \<in> Some ` set versions then latest else None)))"

text \<open>The highest version in the range, unless it is deprecated and another one is not.\<close>

definition maxNotDeprecated :: "semverLib \<Rightarrow> packageInRegistry obj \<Rightarrow> str list \<Rightarrow> str \<Rightarrow> js_error + str option" where
  "maxNotDeprecated sv infos versions versionRange =
     (let maxVersion = svMaxSatisfying sv versions versionRange False True in
      if \<not> truthy maxVersion then Inr maxVersion
      else sbind (need ''versions[maxVersion]'' (map_of infos (the maxVersion))) (\<lambda>info.
        if truthy (prDeprecated info) \<and> 1 < length versions then
          sbind (smap (\<lambda>v. need ''versionMeta'' (map_of infos v)) versions) (\<lambda>metas.
            let nonDeprecatedVersions = map prVersion (filter (\<lambda>m. \<not> truthy (prDeprecated m)) metas);
                maxNonDeprecated = svMaxSatisfying sv nonDeprecatedVersions versionRange False True
            in Inr (if truthy maxNonDeprecated then maxNonDeprecated else maxVersion))
        else Inr maxVersion))"

definition pickVersionByVersionRange :: "semverLib \<Rightarrow> versionPicker" where
  "pickVersionByVersionRange sv meta versionRange preferredVerSels publishedBy =
     sbind (need ''dist-tags'' (mtDistTags meta)) (\<lambda>distTags.
     let latest = map_of distTags ''latest'' in
     sbind (preferredChoice sv (pickPreferred sv latest versionRange) meta versionRange preferredVerSels) (\<lambda>preferred.
       if preferred \<noteq> None then Inr preferred
       else sbind (need ''versions'' (mtVersions meta)) (\<lambda>infos.
         sbind (publishedInTime sv meta (keys infos) latest publishedBy) (\<lambda>(versions, latest).
           if truthy latest \<and> (versionRange = ''*'' \<or> semverSatisfiesLoose sv (the latest) versionRange)
           then Inr latest
           else maxNotDeprecated sv infos versions versionRange))))"

section \<open>Picking a package\<close>

text \<open>The errors of pnpm pass through, the others become \<open>MALFORMED_METADATA\<close>.\<close>

definition orMalformed :: "str \<Rightarrow> js_error + 'a \<Rightarrow> js_error + 'a" where
  "orMalformed name r =
     (case r of
        Inr x \<Rightarrow> Inr x
      | Inl e \<Rightarrow> (case e of
          PnpmError c m \<Rightarrow> if startsWith c ''ERR_PNPM_'' then Inl e
            else Inl (pnpmError ''MALFORMED_METADATA'' (''Received malformed metadata for '' @ [CHR 0x22] @ name @ [CHR 0x22]))
        | _ \<Rightarrow> Inl (pnpmError ''MALFORMED_METADATA''
            (''Received malformed metadata for '' @ [CHR 0x22] @ name @ [CHR 0x22]))))"

text \<open>The entry of a version, and the metadata with the name it gives to the package: the code writes the
  name into the entry of the metadata, which caches share.\<close>

definition takeVersion :: "packageMeta \<Rightarrow> str option \<Rightarrow> js_error + packageInRegistry option \<times> packageMeta" where
  "takeVersion meta version =
     (if \<not> truthy version then Inr (None, meta)
      else sbind (need ''versions'' (mtVersions meta)) (\<lambda>versions.
        case map_of versions (the version) of
          None \<Rightarrow> Inr (None, meta)
        | Some manifest \<Rightarrow>
            if mtName meta \<noteq> [] then
              let manifest = manifest\<lparr>prName := mtName meta\<rparr> in
              Inr (Some manifest, meta\<lparr>mtVersions := Some (jset (the version) manifest versions)\<rparr>)
            else Inr (Some manifest, meta)))"

definition pickPackageFromMeta ::
    "versionPicker \<Rightarrow> registryPackageSpec \<Rightarrow> versionSelector obj option \<Rightarrow> packageMeta \<Rightarrow> str option \<Rightarrow>
     js_error + packageInRegistry option \<times> packageMeta" where
  "pickPackageFromMeta pickVersionFn spec preferredVersionSelectors meta publishedBy =
     (if orEmpty (mtVersions meta) = [] \<and> publishedBy = None then
        if (case mtTime meta of None \<Rightarrow> False | Some t \<Rightarrow> orEmpty (tmUnpublished t) \<noteq> [])
        then Inl (pnpmError ''UNPUBLISHED_PKG''
          (''No versions available for '' @ spName spec @ '' because it was unpublished''))
        else Inl (pnpmError ''NO_VERSIONS''
          (''No versions available for '' @ spName spec @ ''. The package may be unpublished.''))
      else orMalformed (spName spec)
        (sbind (case spType spec of
             VersionSpec \<Rightarrow> Inr (Some (spFetchSpec spec))
           | TagSpec \<Rightarrow> sbind (need ''dist-tags'' (mtDistTags meta)) (\<lambda>tags. Inr (map_of tags (spFetchSpec spec)))
           | RangeSpec \<Rightarrow> pickVersionFn meta (spFetchSpec spec) preferredVersionSelectors publishedBy)
         (takeVersion meta)))"

type_synonym packagePicker =
  "registryPackageSpec \<Rightarrow> versionSelector obj option \<Rightarrow> packageMeta \<Rightarrow> str option \<Rightarrow>
   js_error + packageInRegistry option \<times> packageMeta"

definition pickPackageFromMetaUsingTime :: "semverLib \<Rightarrow> packagePicker" where
  "pickPackageFromMetaUsingTime sv spec preferredVersionSelectors meta publishedBy =
     sbind (pickPackageFromMeta (pickVersionByVersionRange sv) spec preferredVersionSelectors meta publishedBy)
       (\<lambda>(pickedPackage, meta').
          if pickedPackage \<noteq> None then Inr (pickedPackage, meta')
          else pickPackageFromMeta (pickLowestVersionByVersionRange sv) spec preferredVersionSelectors meta' publishedBy)"

text \<open>\<open>updateToLatest\<close>: the package tagged \<open>latest\<close>, unless the specifier gives a higher version.\<close>

definition pickLatestOr :: "semverLib \<Rightarrow> packagePicker \<Rightarrow> packagePicker" where
  "pickLatestOr sv pickBase spec preferredVersionSelectors meta publishedBy =
     sbind (pickBase (spec\<lparr>spType := TagSpec, spFetchSpec := ''latest''\<rparr>) preferredVersionSelectors meta publishedBy)
       (\<lambda>(latestStable, meta').
     sbind (pickBase spec preferredVersionSelectors meta' publishedBy) (\<lambda>(current, meta'').
       case latestStable of
         None \<Rightarrow> Inr (current, meta'')
       | Some l \<Rightarrow> (case current of
           None \<Rightarrow> Inr (latestStable, meta'')
         | Some c \<Rightarrow> sbind (semverLt sv (prVersion l) (prVersion c)) (\<lambda>lt.
             Inr (if lt then current else latestStable, meta'')))))"

record pickPackageOptions =
  poPublishedBy :: "str option"
  poPreferredVersionSelectors :: "versionSelector obj option"
  poPickLowestVersion :: bool
  poRegistry :: str
  poDryRun :: bool
  poUpdateToLatest :: bool

definition packagePickerOf :: "semverLib \<Rightarrow> pickPackageOptions \<Rightarrow> packagePicker" where
  "packagePickerOf sv opts =
     (let base = (if poPublishedBy opts \<noteq> None then pickPackageFromMetaUsingTime sv
                  else pickPackageFromMeta (if poPickLowestVersion opts then pickLowestVersionByVersionRange sv
                                            else pickVersionByVersionRange sv))
      in if poUpdateToLatest opts then pickLatestOr sv base else base)"

section \<open>pickPackage\<close>

text \<open>The cache in memory is keyed by the package's name; the mirror holds the files of the cache directory
  by their path. A write of a mirror file is not waited for: it is queued, and \<open>flushWrites\<close> performs the
  queue. \<open>cxMirrorPath registry file\<close> is \<open>path.join(cacheDir, metaDir, getRegistryName(registry), file)\<close>.\<close>

record npmState =
  metaCache :: "packageMeta obj"
  metaMirror :: "packageMeta obj"
  pendingWrites :: "(str \<times> packageMeta) list"

record npmContext =
  cxFetch :: "str \<Rightarrow> str \<Rightarrow> js_error + packageMeta"
  cxMirrorPath :: "str \<Rightarrow> str \<Rightarrow> str"
  cxHexHash :: "str \<Rightarrow> str"
  cxNow :: str
  cxOffline :: bool
  cxPreferOffline :: bool
  cxFilterMetadata :: bool

definition flushWrites :: "npmState \<Rightarrow> npmState" where
  "flushWrites st = st\<lparr>metaMirror := fold (\<lambda>(k, m). jset k m) (pendingWrites st) (metaMirror st), pendingWrites := []\<rparr>"

definition METADATA_FIELDS :: "str list" where
  "METADATA_FIELDS =
     [''name'', ''version'', ''bin'', ''directories'', ''devDependencies'', ''optionalDependencies'',
      ''dependencies'', ''peerDependencies'', ''dist'', ''engines'', ''peerDependenciesMeta'', ''cpu'', ''os'',
      ''libc'', ''deprecated'', ''bundleDependencies'', ''bundledDependencies'', ''hasInstallScript'']"

definition clearMeta :: "packageMeta \<Rightarrow> js_error + packageMeta" where
  "clearMeta pkg =
     sbind (need ''versions'' (mtVersions pkg)) (\<lambda>versions.
       Inr (pkg\<lparr>mtVersions := Some (map (\<lambda>(v, info).
         (v, info\<lparr>prOther := filter (\<lambda>(k, _). k \<in> set METADATA_FIELDS) (prOther info)\<rparr>)) versions)\<rparr>))"

definition encodePkgName :: "(str \<Rightarrow> str) \<Rightarrow> str \<Rightarrow> str" where
  "encodePkgName createHexHash name =
     (if name \<noteq> toLowerCase name then name @ ''_'' @ createHexHash name else name)"

definition toRaw :: "registryPackageSpec \<Rightarrow> str" where
  "toRaw spec = spName spec @ ''@'' @ spFetchSpec spec"

definition validPackageName :: "str \<Rightarrow> bool" where
  "validPackageName name \<longleftrightarrow> \<not> (CHR ''/'' \<in> set name \<and> \<not> startsWith name ''@'')"

definition mirrorPath :: "npmContext \<Rightarrow> registryPackageSpec \<Rightarrow> pickPackageOptions \<Rightarrow> str" where
  "mirrorPath cx spec opts =
     cxMirrorPath cx (poRegistry opts) (encodePkgName (cxHexHash cx) (spName spec) @ ''.json'')"

text \<open>The stages before the request: each answers, fails, or leaves the metadata it has read so far.\<close>

datatype stage = Answer packageMeta "packageInRegistry option" | Continue "packageMeta option"

definition andThen :: "js_error + stage \<Rightarrow> (packageMeta option \<Rightarrow> js_error + stage) \<Rightarrow> js_error + stage" where
  "andThen r next = sbind r (\<lambda>s. case s of Answer m p \<Rightarrow> Inr (Answer m p) | Continue stored \<Rightarrow> next stored)"

definition pickFrom :: "semverLib \<Rightarrow> registryPackageSpec \<Rightarrow> pickPackageOptions \<Rightarrow> packageMeta \<Rightarrow>
    js_error + packageInRegistry option \<times> packageMeta" where
  "pickFrom sv spec opts meta =
     packagePickerOf sv opts spec (poPreferredVersionSelectors opts) meta (poPublishedBy opts)"

text \<open>Answering from metadata only when a package is picked.\<close>

definition tryStored :: "semverLib \<Rightarrow> registryPackageSpec \<Rightarrow> pickPackageOptions \<Rightarrow> packageMeta \<Rightarrow> js_error + stage" where
  "tryStored sv spec opts meta =
     sbind (pickFrom sv spec opts meta) (\<lambda>(pickedPackage, meta').
       Inr (if pickedPackage \<noteq> None then Answer meta' pickedPackage else Continue (Some meta')))"

definition mirrorStage ::
    "semverLib \<Rightarrow> npmContext \<Rightarrow> registryPackageSpec \<Rightarrow> pickPackageOptions \<Rightarrow> packageMeta option \<Rightarrow> js_error + stage" where
  "mirrorStage sv cx spec opts loaded =
     (if cxOffline cx then
        (case loaded of
           Some meta \<Rightarrow> sbind (pickFrom sv spec opts meta) (\<lambda>(pickedPackage, meta'). Inr (Answer meta' pickedPackage))
         | None \<Rightarrow> Inl (pnpmError ''NO_OFFLINE_META''
             (''Failed to resolve '' @ toRaw spec @ '' in package mirror '' @ mirrorPath cx spec opts)))
      else if cxPreferOffline cx \<or> poPickLowestVersion opts then
        (case loaded of Some meta \<Rightarrow> tryStored sv spec opts meta | None \<Rightarrow> Inr (Continue None))
      else Inr (Continue None))"

definition exactStage ::
    "registryPackageSpec \<Rightarrow> pickPackageOptions \<Rightarrow> packageMeta option \<Rightarrow> packageMeta option \<Rightarrow> js_error + stage" where
  "exactStage spec opts loaded stored =
     (if \<not> poUpdateToLatest opts \<and> spType spec = VersionSpec then
        let stored = orElse stored loaded in
        case stored of
          None \<Rightarrow> Inr (Continue None)
        | Some meta \<Rightarrow>
            (case map_of (orEmpty (mtVersions meta)) (spFetchSpec spec) of
               Some p \<Rightarrow> Inr (Answer meta (Some p))
             | None \<Rightarrow> Inr (Continue stored))
      else Inr (Continue stored))"

definition publishedStage ::
    "semverLib \<Rightarrow> registryPackageSpec \<Rightarrow> pickPackageOptions \<Rightarrow> packageMeta option \<Rightarrow> packageMeta option \<Rightarrow> js_error + stage" where
  "publishedStage sv spec opts loaded stored =
     (case poPublishedBy opts of
        None \<Rightarrow> Inr (Continue stored)
      | Some date \<Rightarrow>
          let stored = orElse stored loaded in
          case stored of
            Some meta \<Rightarrow>
              if truthy (mtCachedAt meta) \<and> svNotAfter sv date (the (mtCachedAt meta))
              then tryStored sv spec opts meta else Inr (Continue stored)
          | None \<Rightarrow> Inr (Continue None))"

type_synonym pickResult = "packageMeta \<times> packageInRegistry option"

definition pickAndCache ::
    "semverLib \<Rightarrow> registryPackageSpec \<Rightarrow> pickPackageOptions \<Rightarrow> packageMeta \<Rightarrow> npmState \<Rightarrow> (js_error + pickResult) \<times> npmState" where
  "pickAndCache sv spec opts meta st =
     (case pickFrom sv spec opts meta of
        Inl e \<Rightarrow> (Inl e, st)
      | Inr (pickedPackage, meta') \<Rightarrow>
          (Inr (meta', pickedPackage), st\<lparr>metaCache := jset (spName spec) meta' (metaCache st)\<rparr>))"

text \<open>The request. Any error, also one of picking from the fresh metadata, falls back to the mirror, which
  the pending write has not reached yet.\<close>

definition fallBack ::
    "semverLib \<Rightarrow> registryPackageSpec \<Rightarrow> pickPackageOptions \<Rightarrow> packageMeta option \<Rightarrow> js_error \<Rightarrow> js_error + pickResult" where
  "fallBack sv spec opts loaded e =
     (case loaded of
        None \<Rightarrow> Inl e
      | Some meta \<Rightarrow> sbind (pickFrom sv spec opts meta) (\<lambda>(pickedPackage, meta'). Inr (meta', pickedPackage)))"

definition fetchMeta :: "npmContext \<Rightarrow> registryPackageSpec \<Rightarrow> pickPackageOptions \<Rightarrow> js_error + packageMeta" where
  "fetchMeta cx spec opts =
     sbind (cxFetch cx (spName spec) (poRegistry opts)) (\<lambda>meta.
     sbind (if cxFilterMetadata cx then clearMeta meta else Inr meta) (\<lambda>meta.
       Inr (meta\<lparr>mtCachedAt := Some (cxNow cx)\<rparr>)))"

definition fetchStage ::
    "semverLib \<Rightarrow> npmContext \<Rightarrow> registryPackageSpec \<Rightarrow> pickPackageOptions \<Rightarrow> packageMeta option \<Rightarrow> npmState \<Rightarrow>
     (js_error + pickResult) \<times> npmState" where
  "fetchStage sv cx spec opts loaded st =
     (case fetchMeta cx spec opts of
        Inl e \<Rightarrow> (fallBack sv spec opts loaded e, st)
      | Inr meta \<Rightarrow>
          let st1 = st\<lparr>metaCache := jset (spName spec) meta (metaCache st),
                       pendingWrites := (if poDryRun opts then pendingWrites st
                                         else pendingWrites st @ [(mirrorPath cx spec opts, meta)])\<rparr>
          in case pickAndCache sv spec opts meta st1 of
               (Inl e, st2) \<Rightarrow> (fallBack sv spec opts loaded e, st2)
             | (Inr r, st2) \<Rightarrow> (Inr r, st2))"

definition pickPackage ::
    "semverLib \<Rightarrow> npmContext \<Rightarrow> registryPackageSpec \<Rightarrow> pickPackageOptions \<Rightarrow> npmState \<Rightarrow>
     (js_error + pickResult) \<times> npmState" where
  "pickPackage sv cx spec opts st =
     (if \<not> validPackageName (spName spec)
      then (Inl (pnpmError ''INVALID_PACKAGE_NAME''
             (''Package name '' @ spName spec @ '' is invalid, it should have a @scope'')), st)
      else case map_of (metaCache st) (spName spec) of
        Some cachedMeta \<Rightarrow> pickAndCache sv spec opts cachedMeta st
      | None \<Rightarrow>
          let loaded = map_of (metaMirror st) (mirrorPath cx spec opts) in
          case andThen (andThen (mirrorStage sv cx spec opts loaded) (exactStage spec opts loaded))
                 (publishedStage sv spec opts loaded) of
            Inl e \<Rightarrow> (Inl e, st)
          | Inr (Answer meta pickedPackage) \<Rightarrow> (Inr (meta, pickedPackage), st)
          | Inr (Continue _) \<Rightarrow> fetchStage sv cx spec opts loaded st)"

section \<open>The version that is picked\<close>

text \<open>What semver documents of \<open>maxSatisfying\<close>: the result is one of the versions and satisfies the range, and
  there is none only when no version does.\<close>

definition maxContract :: "semverLib \<Rightarrow> bool" where
  "maxContract sv \<longleftrightarrow> (\<forall>vs r.
     case svMaxSatisfying sv vs r False True of
       Some v \<Rightarrow> v \<in> set vs \<and> v \<noteq> [] \<and> semverSatisfiesLoose sv v r
     | None \<Rightarrow> \<not> list_ex (\<lambda>v. semverSatisfiesLoose sv v r) vs)"

lemma maxContract_Some:
  "maxContract sv \<Longrightarrow> svMaxSatisfying sv vs r False True = Some v \<Longrightarrow>
     v \<in> set vs \<and> v \<noteq> [] \<and> semverSatisfiesLoose sv v r"
  unfolding maxContract_def by (drule spec [of _ vs], drule spec [of _ r]) simp

lemma maxContract_None:
  "maxContract sv \<Longrightarrow> svMaxSatisfying sv vs r False True = None \<Longrightarrow> v \<in> set vs \<Longrightarrow> \<not> semverSatisfiesLoose sv v r"
  unfolding maxContract_def by (drule spec [of _ vs], drule spec [of _ r]) (auto simp: list_ex_iff)

lemma pickPreferred_satisfies:
  assumes "maxContract sv"
  shows "pickPreferred sv latest r groups = Some v \<Longrightarrow> semverSatisfiesLoose sv v r"
proof (induction groups)
  case (Cons g groups)
  show ?case
  proof (cases "latest \<in> Some ` set g \<and> semverSatisfiesLoose sv (the latest) r")
    case True
    then show ?thesis using Cons.prems by auto
  next
    case False
    then show ?thesis
      using Cons maxContract_Some [OF assms, of g r]
      by (cases "svMaxSatisfying sv g r False True") (auto simp: Let_def split: if_splits)
  qed
qed simp

text \<open>The infos that \<open>maxNotDeprecated\<close> collects are those of the versions.\<close>

lemma versionInfos:
  assumes "smap (\<lambda>v. need w (map_of infos v)) versions = Inr metas"
    and "\<forall>k i. map_of infos k = Some i \<longrightarrow> prVersion i = k"
  shows "set (map prVersion (filter P metas)) = {v \<in> set versions. \<exists>i. map_of infos v = Some i \<and> P i}"
proof -
  have "list_all2 (\<lambda>v i. map_of infos v = Some i) versions metas"
    using assms(1) unfolding smap_Inr_iff
    by (rule list_all2_mono) (simp add: need_def split: option.splits)
  then show ?thesis
  proof (induction rule: list_all2_induct)
    case (Cons v vs i infs)
    then have "prVersion i = v" using assms(2) by blast
    then show ?case using Cons by auto
  qed simp
qed

definition undeprecated :: "packageInRegistry obj \<Rightarrow> str \<Rightarrow> bool" where
  "undeprecated infos v \<longleftrightarrow> (case map_of infos v of None \<Rightarrow> False | Some i \<Rightarrow> \<not> truthy (prDeprecated i))"

lemma maxNotDeprecated_picks:
  assumes c: "maxContract sv"
    and r: "maxNotDeprecated sv infos versions r = Inr (Some v)"
    and ver: "\<forall>k i. map_of infos k = Some i \<longrightarrow> prVersion i = k"
  shows "v \<in> set versions \<and> semverSatisfiesLoose sv v r \<and>
    (undeprecated infos v \<or> \<not> (\<exists>w \<in> set versions. undeprecated infos w \<and> semverSatisfiesLoose sv w r))"
proof (cases "svMaxSatisfying sv versions r False True")
  case None
  then show ?thesis using r by (simp add: maxNotDeprecated_def Let_def)
next
  case (Some m)
  note m = maxContract_Some [OF c Some]
  obtain info where info: "map_of infos m = Some info"
    using r Some m by (cases "map_of infos m") (simp_all add: maxNotDeprecated_def Let_def need_def)
  show ?thesis
  proof (cases "truthy (prDeprecated info) \<and> 1 < length versions")
    case False
    then have "maxNotDeprecated sv infos versions r = Inr (Some m)"
      using Some info m unfolding maxNotDeprecated_def Let_def need_def
      by (cases "truthy (prDeprecated info)") simp_all
    then have "v = m" using r by simp
    moreover have "undeprecated infos m \<or> versions = [m]"
      using False info m by (cases versions) (auto simp: undeprecated_def)
    ultimately show ?thesis using m by auto
  next
    case True
    obtain metas where metas: "smap (\<lambda>v. need ''versionMeta'' (map_of infos v)) versions = Inr metas"
      using r Some info m True unfolding maxNotDeprecated_def Let_def need_def
      by (cases "smap (\<lambda>v. need ''versionMeta'' (map_of infos v)) versions") (simp_all add: need_def)
    let ?good = "map prVersion (filter (\<lambda>m. \<not> truthy (prDeprecated m)) metas)"
    let ?best = "svMaxSatisfying sv ?good r False True"
    have good: "set ?good = {w \<in> set versions. undeprecated infos w}"
      unfolding versionInfos [OF metas ver] by (auto simp: undeprecated_def split: option.splits)
    have "maxNotDeprecated sv infos versions r = Inr (if truthy ?best then ?best else Some m)"
      using Some info m True metas unfolding maxNotDeprecated_def Let_def need_def by simp
    then have v: "Some v = (if truthy ?best then ?best else Some m)" using r by simp
    show ?thesis
    proof (cases ?best)
      case None
      then have "v = m" using v by simp
      then show ?thesis using m good maxContract_None [OF c None] by blast
    next
      case best: (Some g)
      note g = maxContract_Some [OF c best]
      have "v = g" using v g best by simp
      then show ?thesis using g good by blast
    qed
  qed
qed

text \<open>The latest version counts when it is published in time.\<close>

definition inTime :: "semverLib \<Rightarrow> packageMeta \<Rightarrow> str option \<Rightarrow> str \<Rightarrow> bool" where
  "inTime sv meta publishedBy v \<longleftrightarrow>
     (case publishedBy of None \<Rightarrow> True
      | Some date \<Rightarrow> (case mtTime meta of None \<Rightarrow> False
          | Some time \<Rightarrow> (case map_of (tmVersions time) v of None \<Rightarrow> False | Some t \<Rightarrow> svNotAfter sv t date)))"

lemma publishedInTime_spec:
  assumes "publishedInTime sv meta versions latest publishedBy = Inr (vs, latest')"
  shows "vs = filter (inTime sv meta publishedBy) versions"
    and "latest' = (if publishedBy = None \<or> latest \<in> Some ` set vs then latest else None)"
  using assms
  by (auto simp: publishedInTime_def inTime_def Let_def fun_eq_iff intro!: filter_cong split: option.splits)

definition isLatest :: "packageMeta \<Rightarrow> str \<Rightarrow> bool" where
  "isLatest meta v \<longleftrightarrow> (case mtDistTags meta of None \<Rightarrow> False | Some tags \<Rightarrow> map_of tags ''latest'' = Some v)"

text \<open>How a version comes to be picked: preferred, the latest one, or the highest in the range.\<close>

lemma pickVersion_cases:
  assumes "pickVersionByVersionRange sv meta r sels publishedBy = Inr (Some v)"
  obtains (preferred) groups latest where "orEmpty sels \<noteq> []" "pickPreferred sv latest r groups = Some v"
  | (latest) "inTime sv meta publishedBy v" "isLatest meta v" "r = ''*'' \<or> semverSatisfiesLoose sv v r"
  | (highest) infos where "mtVersions meta = Some infos"
      "maxNotDeprecated sv infos (filter (inTime sv meta publishedBy) (keys infos)) r = Inr (Some v)"
proof -
  obtain tags where tags: "mtDistTags meta = Some tags"
    using assms by (cases "mtDistTags meta") (simp_all add: pickVersionByVersionRange_def need_def)
  let ?latest = "map_of tags ''latest''"
  obtain p where p: "preferredChoice sv (pickPreferred sv ?latest r) meta r sels = Inr p"
    using assms tags
    by (cases "preferredChoice sv (pickPreferred sv ?latest r) meta r sels")
      (simp_all add: pickVersionByVersionRange_def need_def)
  show thesis
  proof (cases p)
    case (Some w)
    then have "w = v" using assms tags p by (simp add: pickVersionByVersionRange_def need_def)
    with Some p show thesis
      using preferred by (auto simp: preferredChoice_def sbind_Inr_iff split: if_splits)
  next
    case None
    obtain infos where infos: "mtVersions meta = Some infos"
      using assms tags p None by (cases "mtVersions meta") (simp_all add: pickVersionByVersionRange_def need_def)
    obtain vs latest' where pub: "publishedInTime sv meta (keys infos) ?latest publishedBy = Inr (vs, latest')"
      using assms tags p None infos
      by (cases "publishedInTime sv meta (keys infos) ?latest publishedBy")
        (auto simp: pickVersionByVersionRange_def need_def)
    note vs = publishedInTime_spec [OF pub]
    have res: "(if truthy latest' \<and> (r = ''*'' \<or> semverSatisfiesLoose sv (the latest') r) then Inr latest'
        else maxNotDeprecated sv infos vs r) = Inr (Some v)"
      using assms tags p None infos pub by (simp add: pickVersionByVersionRange_def need_def)
    show thesis
    proof (cases "truthy latest' \<and> (r = ''*'' \<or> semverSatisfiesLoose sv (the latest') r)")
      case True
      then have v: "latest' = Some v" "r = ''*'' \<or> semverSatisfiesLoose sv v r" using res by auto
      then have "?latest = Some v" "publishedBy = None \<or> v \<in> set vs" using vs(2) by (auto split: if_splits)
      then show thesis using v(2) tags vs(1) latest by (auto simp: isLatest_def inTime_def)
    next
      case False
      show thesis using res unfolding if_not_P [OF False] vs(1) by (rule highest [OF infos])
    qed
  qed
qed

text \<open>C29. A version picked for a range satisfies the range, or it is the latest version and the range is
  \<open>*\<close>. Without preferred versions it was published in time, and unless it is the latest version it is one
  of the package's versions, and a deprecated one only when every version that satisfies the range and was
  published in time is deprecated.\<close>

theorem pickVersionByVersionRange_sound:
  assumes "maxContract sv" "pickVersionByVersionRange sv meta r sels publishedBy = Inr (Some v)"
    and "\<forall>k i. map_of (orEmpty (mtVersions meta)) k = Some i \<longrightarrow> prVersion i = k"
  shows "(semverSatisfiesLoose sv v r \<or> r = ''*'' \<and> isLatest meta v) \<and>
    (orEmpty sels = [] \<longrightarrow> inTime sv meta publishedBy v \<and>
      (isLatest meta v \<or> v \<in> set (keys (orEmpty (mtVersions meta))) \<and>
        (undeprecated (orEmpty (mtVersions meta)) v \<or>
         \<not> (\<exists>w \<in> set (keys (orEmpty (mtVersions meta))). inTime sv meta publishedBy w \<and>
             undeprecated (orEmpty (mtVersions meta)) w \<and> semverSatisfiesLoose sv w r))))"
  using assms(2)
proof (cases rule: pickVersion_cases)
  case preferred
  then show ?thesis using pickPreferred_satisfies [OF assms(1)] by auto
next
  case latest
  then show ?thesis by auto
next
  case (highest infos)
  then show ?thesis using maxNotDeprecated_picks [OF assms(1) highest(2)] assms(3) by auto
qed

text \<open>A small semver: the versions are the one-character strings that are not \<open>x\<close>, a range is a version or
  \<open>x\<close> for all of them, and the highest is the last in the list.\<close>

definition toySemver :: semverLib where
  "toySemver = \<lparr>svRange = (\<lambda>r. Some (\<lambda>v. if length v = 1 then Some (r = v \<or> r = ''x'') else None)),
     svMaxSatisfying = (\<lambda>vs r _ _. case filter (\<lambda>v. length v = 1 \<and> (r = v \<or> r = ''x'')) vs of
        [] \<Rightarrow> None | ws \<Rightarrow> Some (last ws)),
     svMinSatisfying = (\<lambda>vs r. case filter (\<lambda>v. length v = 1 \<and> (r = v \<or> r = ''x'')) vs of
        [] \<Rightarrow> None | w # _ \<Rightarrow> Some w),
     svValid = (\<lambda>v. length v = 1), svLe = (\<lambda>v w. v \<le> w), svNotAfter = (\<lambda>a b. a \<le> b)\<rparr>"

lemma last_filter: "filter P vs = w # ws \<Longrightarrow> last (w # ws) \<in> set vs \<and> P (last (w # ws))"
proof -
  assume f: "filter P vs = w # ws"
  then have "last (filter P vs) \<in> set (filter P vs)" by (intro last_in_set) simp
  then show ?thesis unfolding f [symmetric] by simp
qed

lemma toy_contract: "maxContract toySemver"
  unfolding maxContract_def
proof (intro allI)
  fix vs r
  let ?P = "\<lambda>v. length v = 1 \<and> (r = v \<or> r = ''x'')"
  show "case svMaxSatisfying toySemver vs r False True of
      Some v \<Rightarrow> v \<in> set vs \<and> v \<noteq> [] \<and> semverSatisfiesLoose toySemver v r
    | None \<Rightarrow> \<not> list_ex (\<lambda>v. semverSatisfiesLoose toySemver v r) vs"
  proof (cases "filter ?P vs")
    case Nil
    then show ?thesis
      by (auto simp: toySemver_def semverSatisfiesLoose_def list_ex_iff filter_empty_conv)
  next
    case (Cons w ws)
    from last_filter [OF this] Cons show ?thesis
      by (auto simp: toySemver_def semverSatisfiesLoose_def simp del: last.simps)
  qed
qed

definition toyPackage :: "str \<Rightarrow> str option \<Rightarrow> packageInRegistry" where
  "toyPackage v d = \<lparr>prName = ''p'', prVersion = v, prDeprecated = d,
     prDist = \<lparr>distIntegrity = None, distShasum = [], distTarball = []\<rparr>, prOther = []\<rparr>"

definition toyMeta :: packageMeta where
  "toyMeta = \<lparr>mtName = ''p'', mtDistTags = Some [(''latest'', ''4'')],
     mtVersions = Some [(''1'', toyPackage ''1'' None), (''2'', toyPackage ''2'' (Some ''old'')), (''4'', toyPackage ''4'' None)],
     mtTime = Some \<lparr>tmVersions = [(''1'', ''a''), (''2'', ''b''), (''4'', ''d'')], tmUnpublished = None\<rparr>, mtCachedAt = None\<rparr>"

lemma toy_pick: "pickVersionByVersionRange toySemver toyMeta ''x'' None (Some ''c'') = Inr (Some ''1'')"
  by code_simp

theorem pickVersionByVersionRange_sound_witness:
  "semverSatisfiesLoose toySemver ''1'' ''x'' \<and> inTime toySemver toyMeta (Some ''c'') ''1'' \<and>
   undeprecated (orEmpty (mtVersions toyMeta)) ''1''"
  using pickVersionByVersionRange_sound [OF toy_contract toy_pick]
  by (simp add: toyMeta_def toyPackage_def undeprecated_def)

section \<open>The package that is returned\<close>

text \<open>An entry of the metadata with the name of the metadata.\<close>

definition entryOf :: "packageMeta \<Rightarrow> packageInRegistry \<Rightarrow> bool" where
  "entryOf m p \<longleftrightarrow> (\<exists>v. map_of (orEmpty (mtVersions m)) v = Some p) \<and> (mtName m = [] \<or> prName p = mtName m)"

text \<open>What every way of picking does to the metadata: at most it names entries, and what it returns is an
  entry.\<close>

definition renames :: "packageMeta \<Rightarrow> packageMeta \<Rightarrow> bool" where
  "renames m m' \<longleftrightarrow> mtName m' = mtName m \<and> (\<forall>p. entryOf m p \<longrightarrow> entryOf m' p)"

definition pickerOk :: "packagePicker \<Rightarrow> bool" where
  "pickerOk pick \<longleftrightarrow> (\<forall>spec sels m d x m'. pick spec sels m d = Inr (x, m') \<longrightarrow>
     renames m m' \<and> (\<forall>p. x = Some p \<longrightarrow> entryOf m' p))"

lemma renames_refl [simp]: "renames m m"
  by (simp add: renames_def)

lemma renames_trans: "renames a b \<Longrightarrow> renames b c \<Longrightarrow> renames a c"
  by (simp add: renames_def)

lemma pickerOkD:
  assumes "pickerOk pick" "pick spec sels m d = Inr (x, m')"
  shows "renames m m'" "x = Some p \<Longrightarrow> entryOf m' p"
  using assms unfolding pickerOk_def by blast+

lemma orMalformed_Inr: "orMalformed name r = Inr x \<longleftrightarrow> r = Inr x"
  by (auto simp: orMalformed_def split: sum.splits js_error.splits)

lemma renames_named:
  assumes "mtVersions m = Some vs" "mtName m \<noteq> []" "map_of vs v = Some p"
  shows "renames m (m\<lparr>mtVersions := Some (jset v (p\<lparr>prName := mtName m\<rparr>) vs)\<rparr>)"
proof -
  have "\<exists>w. map_of (jset v (p\<lparr>prName := mtName m\<rparr>) vs) w = Some q"
    if "map_of vs u = Some q" "prName q = mtName m" for u q
  proof (cases "u = v")
    case True
    then have "q = p\<lparr>prName := mtName m\<rparr>" using that assms(3) by simp
    then show ?thesis by (intro exI [of _ v]) (simp add: alist.get_put)
  next
    case False
    then show ?thesis using that by (intro exI [of _ u]) (simp add: alist.get_put)
  qed
  then show ?thesis using assms by (auto simp: renames_def entryOf_def)
qed

lemma takeVersion_ok:
  assumes x: "takeVersion m version = Inr (x, m')"
  shows "renames m m' \<and> (\<forall>p. x = Some p \<longrightarrow> entryOf m' p)"
proof (cases "truthy version")
  case False
  then show ?thesis using x by (simp add: takeVersion_def)
next
  case True
  then obtain vs where vs: "mtVersions m = Some vs"
    using x by (cases "mtVersions m") (simp_all add: takeVersion_def need_def)
  show ?thesis
  proof (cases "map_of vs (the version)")
    case None
    then show ?thesis using x True vs by (simp add: takeVersion_def need_def)
  next
    case (Some p)
    show ?thesis
    proof (cases "mtName m = []")
      case True
      then show ?thesis using x \<open>truthy version\<close> vs Some by (auto simp: takeVersion_def need_def entryOf_def)
    next
      case False
      then have "x = Some (p\<lparr>prName := mtName m\<rparr>)"
          "m' = m\<lparr>mtVersions := Some (jset (the version) (p\<lparr>prName := mtName m\<rparr>) vs)\<rparr>"
        using x \<open>truthy version\<close> vs Some by (simp_all add: takeVersion_def need_def Let_def)
      moreover have "entryOf (m\<lparr>mtVersions := Some (jset (the version) (p\<lparr>prName := mtName m\<rparr>) vs)\<rparr>)
          (p\<lparr>prName := mtName m\<rparr>)"
        by (auto simp: entryOf_def alist.get_put intro!: exI [of _ "the version"])
      ultimately show ?thesis using renames_named [OF vs False Some] by simp
    qed
  qed
qed

lemma pickPackageFromMeta_ok: "pickerOk (pickPackageFromMeta pickVersionFn)"
  unfolding pickerOk_def
proof (intro allI impI)
  fix spec sels m d x m'
  assume "pickPackageFromMeta pickVersionFn spec sels m d = Inr (x, m')"
  then obtain version where "takeVersion m version = Inr (x, m')"
    unfolding pickPackageFromMeta_def by (auto simp: orMalformed_Inr sbind_Inr_iff split: if_splits)
  then show "renames m m' \<and> (\<forall>p. x = Some p \<longrightarrow> entryOf m' p)" by (rule takeVersion_ok)
qed

lemma pickPackageFromMetaUsingTime_ok: "pickerOk (pickPackageFromMetaUsingTime sv)"
  unfolding pickerOk_def pickPackageFromMetaUsingTime_def
  by (auto simp: sbind_Inr_iff split: if_splits prod.splits
      dest: pickerOkD [OF pickPackageFromMeta_ok] intro: renames_trans)

lemma pickLatestOr_ok:
  assumes "pickerOk pick"
  shows "pickerOk (pickLatestOr sv pick)"
  unfolding pickerOk_def
proof (intro allI impI)
  fix spec sels m d x m'
  assume r: "pickLatestOr sv pick spec sels m d = Inr (x, m')"
  then obtain l m1 where 1: "pick (spec\<lparr>spType := TagSpec, spFetchSpec := ''latest''\<rparr>) sels m d = Inr (l, m1)"
    by (auto simp: pickLatestOr_def sbind_Inr_iff)
  then obtain c m2 where 2: "pick spec sels m1 d = Inr (c, m2)"
    using r by (auto simp: pickLatestOr_def sbind_Inr_iff)
  have x: "m' = m2 \<and> (x = l \<or> x = c)"
    using r 1 2 by (auto simp: pickLatestOr_def sbind_Inr_iff split: option.splits if_splits)
  note k1 = pickerOkD [OF assms 1] and k2 = pickerOkD [OF assms 2]
  then show "renames m m' \<and> (\<forall>p. x = Some p \<longrightarrow> entryOf m' p)"
    using x renames_trans [OF k1(1) k2(1)] k2(1) unfolding renames_def by blast
qed

lemma packagePickerOf_ok: "pickerOk (packagePickerOf sv opts)"
  by (simp add: packagePickerOf_def Let_def pickPackageFromMeta_ok pickPackageFromMetaUsingTime_ok pickLatestOr_ok)

lemma pickFrom_entry: "pickFrom sv spec opts m = Inr (Some p, m') \<Longrightarrow> entryOf m' p"
  unfolding pickFrom_def by (auto dest: pickerOkD [OF packagePickerOf_ok])

text \<open>A stage that answers only with packages of its metadata.\<close>

definition answers :: "(packageMeta \<Rightarrow> packageInRegistry \<Rightarrow> bool) \<Rightarrow> js_error + stage \<Rightarrow> bool" where
  "answers Q r \<longleftrightarrow> (\<forall>m p. r = Inr (Answer m (Some p)) \<longrightarrow> Q m p)"

lemma answers_simps [simp]:
  "answers Q (Inl e)" "answers Q (Inr (Continue s))" "answers Q (Inr (Answer m None))"
  "answers Q (Inr (Answer m (Some p))) = Q m p"
  by (auto simp: answers_def)

lemma answers_andThen: "answers Q r \<Longrightarrow> (\<And>s. answers Q (next s)) \<Longrightarrow> answers Q (andThen r next)"
proof (cases r)
  case (Inr s)
  assume "answers Q r" "\<And>s. answers Q (next s)"
  then show ?thesis using Inr by (cases s) (simp_all add: andThen_def)
qed (simp add: andThen_def)

lemma answers_mono: "answers Q r \<Longrightarrow> (\<And>m p. Q m p \<Longrightarrow> R m p) \<Longrightarrow> answers R r"
  by (simp add: answers_def)

lemma tryStored_entry: "answers entryOf (tryStored sv spec opts meta)"
  by (auto simp: answers_def tryStored_def sbind_Inr_iff dest: pickFrom_entry split: if_splits)

lemma mirrorStage_entry: "answers entryOf (mirrorStage sv cx spec opts loaded)"
proof -
  have "answers entryOf (sbind (pickFrom sv spec opts meta) (\<lambda>(p, meta'). Inr (Answer meta' p)))" for meta
    by (auto simp: answers_def sbind_Inr_iff dest: pickFrom_entry)
  then show ?thesis
    by (cases loaded) (simp_all add: mirrorStage_def tryStored_entry)
qed

lemma publishedStage_entry: "answers entryOf (publishedStage sv spec opts loaded stored)"
  by (simp add: publishedStage_def Let_def tryStored_entry split: option.splits)

text \<open>The exact version of the mirror, with the name the file gives it.\<close>

definition exactEntry :: "registryPackageSpec \<Rightarrow> pickPackageOptions \<Rightarrow> packageMeta \<Rightarrow> packageInRegistry \<Rightarrow> bool" where
  "exactEntry spec opts m p \<longleftrightarrow> \<not> poUpdateToLatest opts \<and> spType spec = VersionSpec \<and>
     map_of (orEmpty (mtVersions m)) (spFetchSpec spec) = Some p"

lemma exactStage_entry: "answers (exactEntry spec opts) (exactStage spec opts loaded stored)"
  by (simp add: exactStage_def exactEntry_def Let_def split: option.splits)

lemma stages_entry:
  "answers (\<lambda>m p. entryOf m p \<or> exactEntry spec opts m p)
     (andThen (andThen (mirrorStage sv cx spec opts loaded) (exactStage spec opts loaded))
       (publishedStage sv spec opts loaded))"
  by (intro answers_andThen)
    (auto intro: answers_mono [OF mirrorStage_entry] answers_mono [OF publishedStage_entry]
      answers_mono [OF exactStage_entry])

lemma pickAndCache_entry:
  "pickAndCache sv spec opts meta st = (Inr (m, Some p), st') \<Longrightarrow> entryOf m p"
  by (auto simp: pickAndCache_def dest: pickFrom_entry split: sum.splits)

lemma fallBack_entry: "fallBack sv spec opts loaded e = Inr (m, Some p) \<Longrightarrow> entryOf m p"
  by (auto simp: fallBack_def sbind_Inr_iff dest: pickFrom_entry split: option.splits)

lemma fetchStage_entry: "fetchStage sv cx spec opts loaded st = (Inr (m, Some p), st') \<Longrightarrow> entryOf m p"
  by (auto simp: fetchStage_def Let_def dest: fallBack_entry pickAndCache_entry split: sum.splits prod.splits)


definition toyContext :: npmContext where
  "toyContext = \<lparr>cxFetch = (\<lambda>name registry. Inr toyMeta), cxMirrorPath = (\<lambda>r f. r @ ''/'' @ f), cxHexHash = (\<lambda>s. s),
     cxNow = ''n'', cxOffline = False, cxPreferOffline = False, cxFilterMetadata = False\<rparr>"

definition toySpec :: "specType \<Rightarrow> str \<Rightarrow> registryPackageSpec" where
  "toySpec t s = \<lparr>spType = t, spName = ''p'', spFetchSpec = s, spNormalizedPref = None\<rparr>"

definition toyOptions :: pickPackageOptions where
  "toyOptions = \<lparr>poPublishedBy = None, poPreferredVersionSelectors = None, poPickLowestVersion = False,
     poRegistry = ''r'', poDryRun = False, poUpdateToLatest = False\<rparr>"

definition toyState :: npmState where
  "toyState = \<lparr>metaCache = [], metaMirror = [], pendingWrites = []\<rparr>"

lemma toy_pickPackage:
  "fst (pickPackage toySemver toyContext (toySpec RangeSpec ''x'') toyOptions toyState) =
     Inr (toyMeta\<lparr>mtCachedAt := Some ''n''\<rparr>, Some (toyPackage ''4'' None))"
  by code_simp


section \<open>What the answer depends on\<close>

lemma mirrorStage_offline:
  "cxOffline cx \<Longrightarrow> (\<exists>e. mirrorStage sv cx spec opts loaded = Inl e) \<or>
     (\<exists>m p. mirrorStage sv cx spec opts loaded = Inr (Answer m p))"
  by (cases loaded; cases "pickFrom sv spec opts (the loaded)") (auto simp: mirrorStage_def)

text \<open>Offline, pickPackage asks no registry and writes nothing: whatever the registry would answer, the
  result is the same, the mirror and the queue of writes stay as they are, and the only change is to the
  names in the memory cache.\<close>

theorem pickPackage_offline:
  assumes "cxOffline cx"
  shows "pickPackage sv (cx\<lparr>cxFetch := f\<rparr>) spec opts st = pickPackage sv cx spec opts st \<and>
    metaMirror (snd (pickPackage sv cx spec opts st)) = metaMirror st \<and>
    pendingWrites (snd (pickPackage sv cx spec opts st)) = pendingWrites st"
proof (cases "map_of (metaCache st) (spName spec)")
  case (Some m)
  then show ?thesis by (auto simp: pickPackage_def pickAndCache_def split: sum.splits)
next
  case None
  let ?loaded = "map_of (metaMirror st) (mirrorPath cx spec opts)"
  have path: "mirrorPath (cx\<lparr>cxFetch := f\<rparr>) spec opts = mirrorPath cx spec opts"
    by (simp add: mirrorPath_def)
  have same: "mirrorStage sv (cx\<lparr>cxFetch := f\<rparr>) spec opts ?loaded = mirrorStage sv cx spec opts ?loaded"
    unfolding mirrorStage_def path by simp
  from mirrorStage_offline [OF assms, of sv spec opts ?loaded] show ?thesis
  proof
    assume "\<exists>e. mirrorStage sv cx spec opts ?loaded = Inl e"
    then show ?thesis using None by (auto simp: pickPackage_def Let_def path same andThen_def)
  next
    assume "\<exists>m p. mirrorStage sv cx spec opts ?loaded = Inr (Answer m p)"
    then show ?thesis using None by (auto simp: pickPackage_def Let_def path same andThen_def)
  qed
qed

theorem pickPackage_offline_witness:
  "pickPackage toySemver (toyContext\<lparr>cxOffline := True, cxFetch := (\<lambda>_ _. Inl (PlainError []))\<rparr>)
      (toySpec RangeSpec ''x'') toyOptions toyState =
   pickPackage toySemver (toyContext\<lparr>cxOffline := True\<rparr>) (toySpec RangeSpec ''x'') toyOptions toyState"
  using pickPackage_offline [of "toyContext\<lparr>cxOffline := True\<rparr>" toySemver "\<lambda>_ _. Inl (PlainError [])"] by simp

text \<open>A package that is in the memory cache is answered from it whatever registry is asked for: the
  cache is keyed by the package's name alone, so two registries with a package of the same name share the
  entry of the one that was asked first.\<close>

theorem pickPackage_cache_registry:
  assumes "map_of (metaCache st) (spName spec) = Some m"
  shows "pickPackage sv cx spec (opts\<lparr>poRegistry := r\<rparr>) st = pickPackage sv cx spec opts st"
  using assms by (simp add: pickPackage_def pickAndCache_def pickFrom_def packagePickerOf_def)

theorem pickPackage_cache_registry_witness:
  "pickPackage toySemver toyContext (toySpec RangeSpec ''x'') (toyOptions\<lparr>poRegistry := ''s''\<rparr>)
      (toyState\<lparr>metaCache := [(''p'', toyMeta)]\<rparr>) =
   pickPackage toySemver toyContext (toySpec RangeSpec ''x'') toyOptions (toyState\<lparr>metaCache := [(''p'', toyMeta)]\<rparr>)"
  by (rule pickPackage_cache_registry [where m = toyMeta]) (simp add: toySpec_def)

end
