(* ===== verification/NpmResolver.thy ===== *)
theory NpmResolver
  imports NpmPicker LockfileUtils
begin

text \<open>
  resolving/npm-resolver/src/index.ts: resolving a dependency from the workspace or from the npm registry.
  \<open>pickPackage\<close> is the one of \<open>NpmPicker\<close>, with its caches as the state. Node's \<open>path\<close>, normalize-path, the
  parsers of specifiers and ssri are parameters. The workspace is a map from names to maps from versions
  to packages.
\<close>

record workspacePackage =
  wpRootDir :: str
  wpName :: str
  wpVersion :: str
  wpPublishDirectory :: "str option"
  wpLinkDirectory :: "bool option"

type_synonym workspacePackagesByVersion = "workspacePackage obj"
type_synonym workspacePackages = "workspacePackagesByVersion obj"

record npmWantedDependency =
  nwAlias :: "str option"
  nwPref :: "str option"
  nwInjected :: bool

datatype resolvedManifest = RegistryManifest packageInRegistry | LocalManifest workspacePackage

record resolveResult =
  rrId :: str
  rrLatest :: "str option"
  rrPublishedAt :: "str option"
  rrManifest :: resolvedManifest
  rrNormalizedPref :: "str option"
  rrResolution :: LockfileTypes.resolution
  rrResolvedVia :: str

record npmEnv =
  neSemver :: semverLib
  neContext :: npmContext
  neSelectorType :: "str \<Rightarrow> (specType \<times> str) option"
  neParseTarballUrl :: "str \<Rightarrow> (str \<times> str) option"
  nePathRelative :: "str \<Rightarrow> str \<Rightarrow> str"
  nePathJoin :: "str \<Rightarrow> str \<Rightarrow> str"
  neNormalize :: "str \<Rightarrow> str"
  neCwd :: str
  neIntegrityFromHex :: "str \<Rightarrow> str option"

record resolveFromNpmOptions =
  roAlwaysTryWorkspacePackages :: "bool option"
  roDefaultTag :: "str option"
  roPublishedBy :: "str option"
  roPickLowestVersion :: bool
  roDryRun :: bool
  roLockfileDir :: "str option"
  roProjectDir :: "str option"
  roRegistry :: str
  roPreferredVersions :: "versionSelector obj obj option"
  roPreferWorkspacePackages :: bool
  roUpdateToLatest :: bool
  roInjectWorkspacePackages :: bool
  roWorkspacePackages :: "workspacePackages option"

section \<open>Local packages\<close>

definition resolveLocalPackageDir :: "npmEnv \<Rightarrow> workspacePackage \<Rightarrow> str" where
  "resolveLocalPackageDir env localPackage =
     (case wpPublishDirectory localPackage of
        None \<Rightarrow> wpRootDir localPackage
      | Some dir \<Rightarrow>
          if wpLinkDirectory localPackage = Some False then wpRootDir localPackage
          else nePathJoin env (wpRootDir localPackage) dir)"

text \<open>\<open>path.relative\<close> throws on an \<open>undefined\<close> directory.\<close>

definition resolveFromLocalPackage ::
    "npmEnv \<Rightarrow> workspacePackage \<Rightarrow> str option \<Rightarrow> bool \<Rightarrow> str \<Rightarrow> str option \<Rightarrow> js_error + resolveResult" where
  "resolveFromLocalPackage env localPackage normalizedPref hardLinkLocalPackages projectDir lockfileDir =
     (let localPackageDir = resolveLocalPackageDir env localPackage in
      sbind (if hardLinkLocalPackages then
               sbind (need ''path.relative'' lockfileDir) (\<lambda>from.
                 let directory = neNormalize env (nePathRelative env from localPackageDir)
                 in Inr (directory, ''file:'' @ directory))
             else Inr (localPackageDir,
               ''link:'' @ neNormalize env (nePathRelative env projectDir localPackageDir)))
        (\<lambda>(directory, id).
           Inr \<lparr>rrId = id, rrLatest = None, rrPublishedAt = None, rrManifest = LocalManifest localPackage,
                rrNormalizedPref = normalizedPref, rrResolution = DirectoryResolution directory,
                rrResolvedVia = ''workspace''\<rparr>))"

fun pickMatchingLocalVersionOrNull ::
    "semverLib \<Rightarrow> workspacePackagesByVersion \<Rightarrow> specType \<Rightarrow> str \<Rightarrow> str option" where
  "pickMatchingLocalVersionOrNull sv versions TagSpec fetchSpec = svMaxSatisfying sv (keys versions) ''*'' True False"
| "pickMatchingLocalVersionOrNull sv versions VersionSpec fetchSpec =
     (if map_of versions fetchSpec \<noteq> None then Some fetchSpec else None)"
| "pickMatchingLocalVersionOrNull sv versions RangeSpec fetchSpec =
     resolveWorkspaceRange (svMaxSatisfying sv) fetchSpec (keys versions)"

definition orBlank :: "str option \<Rightarrow> str" where
  "orBlank s = (case s of None \<Rightarrow> [] | Some t \<Rightarrow> t)"

definition tryResolveFromWorkspacePackages ::
    "npmEnv \<Rightarrow> workspacePackages \<Rightarrow> registryPackageSpec \<Rightarrow> npmWantedDependency \<Rightarrow> bool \<Rightarrow> str \<Rightarrow> str option \<Rightarrow>
     js_error + resolveResult" where
  "tryResolveFromWorkspacePackages env workspacePkgs spec wanted hardLink projectDir lockfileDir =
     (let here = ''In '' @ nePathRelative env (neCwd env) projectDir @ '': '' in
      case map_of workspacePkgs (spName spec) of
        None \<Rightarrow> Inl (pnpmError ''WORKSPACE_PKG_NOT_FOUND''
          (here @ [CHR 0x22] @ spName spec @ ''@'' @ orBlank (nwPref wanted) @ [CHR 0x22] @
           '' is in the dependencies but no package named '' @ [CHR 0x22] @ spName spec @ [CHR 0x22] @
           '' is present in the workspace''))
      | Some versions \<Rightarrow>
          let localVersion = pickMatchingLocalVersionOrNull (neSemver env) versions (spType spec) (spFetchSpec spec) in
          if \<not> truthy localVersion
          then Inl (pnpmError ''NO_MATCHING_VERSION_INSIDE_WORKSPACE''
            (here @ ''No matching version found for '' @ orBlank (nwAlias wanted) @ ''@'' @ orBlank (nwPref wanted) @
             '' inside the workspace''))
          else sbind (need ''workspacePkgsMatchingName.get'' (map_of versions (the localVersion))) (\<lambda>pkg.
            resolveFromLocalPackage env pkg (spNormalizedPref spec) hardLink projectDir lockfileDir))"

definition hardLinkLocal :: "resolveFromNpmOptions \<Rightarrow> npmWantedDependency \<Rightarrow> bool" where
  "hardLinkLocal opts wanted \<longleftrightarrow> roInjectWorkspacePackages opts \<or> nwInjected wanted"

definition npmParsePref :: "npmEnv \<Rightarrow> str \<Rightarrow> str option \<Rightarrow> str \<Rightarrow> str \<Rightarrow> registryPackageSpec option" where
  "npmParsePref env = parsePref (neSelectorType env) (neParseTarballUrl env)"

definition tryResolveFromWorkspace ::
    "npmEnv \<Rightarrow> npmWantedDependency \<Rightarrow> str \<Rightarrow> resolveFromNpmOptions \<Rightarrow> js_error + resolveResult option" where
  "tryResolveFromWorkspace env wanted defaultTag opts =
     (case nwPref wanted of
        None \<Rightarrow> Inr None
      | Some wantedPref \<Rightarrow>
          if \<not> startsWith wantedPref ''workspace:'' then Inr None
          else sbind (workspacePrefToNpm wantedPref) (\<lambda>pref.
            case npmParsePref env pref (nwAlias wanted) defaultTag (roRegistry opts) of
              None \<Rightarrow> Inl (PlainError (''Invalid workspace: spec ('' @ wantedPref @ '')''))
            | Some spec \<Rightarrow>
                (case roWorkspacePackages opts of
                   None \<Rightarrow> Inl (PlainError ''Cannot resolve package from workspace because opts.workspacePackages is not defined'')
                 | Some workspacePkgs \<Rightarrow>
                     if \<not> truthy (roProjectDir opts)
                     then Inl (PlainError ''Cannot resolve package from workspace because opts.projectDir is not defined'')
                     else sbind (tryResolveFromWorkspacePackages env workspacePkgs spec wanted
                         (hardLinkLocal opts wanted) (the (roProjectDir opts)) (roLockfileDir opts)) (\<lambda>r. Inr (Some r)))))"

section \<open>resolveNpm\<close>

definition defaultTagForAlias :: "str \<Rightarrow> str \<Rightarrow> registryPackageSpec" where
  "defaultTagForAlias alias defaultTag =
     \<lparr>spType = TagSpec, spName = alias, spFetchSpec = defaultTag, spNormalizedPref = None\<rparr>"

definition getIntegrity :: "npmEnv \<Rightarrow> dist \<Rightarrow> js_error + str option" where
  "getIntegrity env d =
     (if truthy (distIntegrity d) then Inr (distIntegrity d)
      else if distShasum d = [] then Inr None
      else case neIntegrityFromHex env (distShasum d) of
             None \<Rightarrow> Inl (pnpmError ''INVALID_TARBALL_INTEGRITY''
               (''Tarball '' @ [CHR 0x22] @ distTarball d @ [CHR 0x22] @
                '' has invalid shasum specified in its metadata: '' @ distShasum d))
           | Some i \<Rightarrow> Inr (Some i))"

definition noMatchingVersionError :: "npmWantedDependency \<Rightarrow> str \<Rightarrow> js_error" where
  "noMatchingVersionError wanted registry =
     pnpmError ''NO_MATCHING_VERSION''
       (''No matching version found for '' @
        (if truthy (nwAlias wanted) then the (nwAlias wanted) @ ''@'' @ orBlank (nwPref wanted) else orBlank (nwPref wanted)) @
        '' while fetching it from '' @ registry)"

text \<open>\<open>meta['dist-tags'].latest\<close>\<close>

definition latestTag :: "packageMeta \<Rightarrow> js_error + str option" where
  "latestTag meta = sbind (need ''dist-tags'' (mtDistTags meta)) (\<lambda>tags. Inr (map_of tags ''latest''))"

definition registryResult ::
    "npmEnv \<Rightarrow> registryPackageSpec \<Rightarrow> packageMeta \<Rightarrow> packageInRegistry \<Rightarrow> js_error + resolveResult" where
  "registryResult env spec meta p =
     sbind (getIntegrity env (prDist p)) (\<lambda>integrity.
     sbind (latestTag meta) (\<lambda>latest.
       Inr \<lparr>rrId = prName p @ ''@'' @ prVersion p, rrLatest = latest,
            rrPublishedAt = (case mtTime meta of None \<Rightarrow> None | Some t \<Rightarrow> map_of (tmVersions t) (prVersion p)),
            rrManifest = RegistryManifest p, rrNormalizedPref = spNormalizedPref spec,
            rrResolution = TarballResolution (distTarball (prDist p)) integrity None,
            rrResolvedVia = ''npm-registry''\<rparr>))"

text \<open>The package of the workspace that takes the place of the picked one, if any: the same version, or a
  matching one that is higher or preferred.\<close>

definition localSubstitute ::
    "npmEnv \<Rightarrow> workspacePackages option \<Rightarrow> registryPackageSpec \<Rightarrow> resolveFromNpmOptions \<Rightarrow> packageInRegistry \<Rightarrow>
     js_error + workspacePackage option" where
  "localSubstitute env workspacePkgs spec opts p =
     (case (case workspacePkgs of None \<Rightarrow> None | Some ws \<Rightarrow> map_of ws (prName p)) of
        None \<Rightarrow> Inr None
      | Some versions \<Rightarrow>
          if \<not> truthy (roProjectDir opts) then Inr None
          else (case map_of versions (prVersion p) of
            Some pkg \<Rightarrow> Inr (Some pkg)
          | None \<Rightarrow>
              let localVersion = pickMatchingLocalVersionOrNull (neSemver env) versions (spType spec) (spFetchSpec spec) in
              if \<not> truthy localVersion then Inr None
              else sbind (semverLt (neSemver env) (prVersion p) (the localVersion)) (\<lambda>higher.
                if higher \<or> roPreferWorkspacePackages opts
                then sbind (need ''workspacePkgsMatchingName.get'' (map_of versions (the localVersion))) (\<lambda>pkg. Inr (Some pkg))
                else Inr None)))"

definition withLatest :: "packageMeta \<Rightarrow> resolveResult \<Rightarrow> js_error + resolveResult" where
  "withLatest meta r = sbind (latestTag meta) (\<lambda>latest. Inr (r\<lparr>rrLatest := latest\<rparr>))"

definition fromPicked ::
    "npmEnv \<Rightarrow> workspacePackages option \<Rightarrow> registryPackageSpec \<Rightarrow> npmWantedDependency \<Rightarrow> resolveFromNpmOptions \<Rightarrow>
     packageMeta \<Rightarrow> packageInRegistry \<Rightarrow> js_error + resolveResult" where
  "fromPicked env workspacePkgs spec wanted opts meta p =
     sbind (localSubstitute env workspacePkgs spec opts p) (\<lambda>substitute.
       case substitute of
         Some pkg \<Rightarrow> sbind (resolveFromLocalPackage env pkg (spNormalizedPref spec) (hardLinkLocal opts wanted)
             (the (roProjectDir opts)) (roLockfileDir opts)) (withLatest meta)
       | None \<Rightarrow> registryResult env spec meta p)"

text \<open>The attempt to resolve from the workspace when the registry gives nothing; its own errors are ignored.\<close>

definition orWorkspace ::
    "npmEnv \<Rightarrow> workspacePackages option \<Rightarrow> registryPackageSpec \<Rightarrow> npmWantedDependency \<Rightarrow> resolveFromNpmOptions \<Rightarrow>
     js_error \<Rightarrow> js_error + resolveResult" where
  "orWorkspace env workspacePkgs spec wanted opts e =
     (case workspacePkgs of
        None \<Rightarrow> Inl e
      | Some ws \<Rightarrow>
          if \<not> truthy (roProjectDir opts) then Inl e
          else (case tryResolveFromWorkspacePackages env ws spec wanted (hardLinkLocal opts wanted)
                  (the (roProjectDir opts)) (roLockfileDir opts) of
            Inr r \<Rightarrow> Inr r
          | Inl _ \<Rightarrow> Inl e))"

definition pickOptionsOf :: "registryPackageSpec \<Rightarrow> resolveFromNpmOptions \<Rightarrow> pickPackageOptions" where
  "pickOptionsOf spec opts =
     \<lparr>poPublishedBy = roPublishedBy opts,
      poPreferredVersionSelectors = (case roPreferredVersions opts of None \<Rightarrow> None | Some pv \<Rightarrow> map_of pv (spName spec)),
      poPickLowestVersion = roPickLowestVersion opts, poRegistry = roRegistry opts, poDryRun = roDryRun opts,
      poUpdateToLatest = roUpdateToLatest opts\<rparr>"

definition resolveFromRegistry ::
    "npmEnv \<Rightarrow> registryPackageSpec \<Rightarrow> npmWantedDependency \<Rightarrow> resolveFromNpmOptions \<Rightarrow> npmState \<Rightarrow>
     (js_error + resolveResult) \<times> npmState" where
  "resolveFromRegistry env spec wanted opts st =
     (let workspacePkgs = (if roAlwaysTryWorkspacePackages opts \<noteq> Some False then roWorkspacePackages opts else None);
          (picked, st') = pickPackage (neSemver env) (neContext env) spec (pickOptionsOf spec opts) st
      in (case picked of
            Inl e \<Rightarrow> orWorkspace env workspacePkgs spec wanted opts e
          | Inr (meta, None) \<Rightarrow>
              orWorkspace env workspacePkgs spec wanted opts (noMatchingVersionError wanted (roRegistry opts))
          | Inr (meta, Some p) \<Rightarrow> fromPicked env workspacePkgs spec wanted opts meta p, st'))"

text \<open>\<open>wantedDependency.alias!\<close> is there when there is no specifier.\<close>

definition resolveNpm ::
    "npmEnv \<Rightarrow> npmWantedDependency \<Rightarrow> resolveFromNpmOptions \<Rightarrow> npmState \<Rightarrow>
     (js_error + resolveResult option) \<times> npmState" where
  "resolveNpm env wanted opts st =
     (let defaultTag = (case roDefaultTag opts of Some t \<Rightarrow> t | None \<Rightarrow> ''latest'');
          isWorkspace = startsWith (orBlank (nwPref wanted)) ''workspace:''
      in if isWorkspace \<and> startsWith (orBlank (nwPref wanted)) ''workspace:.'' then (Inr None, st)
         else case (if isWorkspace then tryResolveFromWorkspace env wanted defaultTag opts else Inr None) of
           Inl e \<Rightarrow> (Inl e, st)
         | Inr (Some r) \<Rightarrow> (Inr (Some r), st)
         | Inr None \<Rightarrow>
             (case (if truthy (nwPref wanted)
                    then npmParsePref env (the (nwPref wanted)) (nwAlias wanted) defaultTag (roRegistry opts)
                    else Some (defaultTagForAlias (orBlank (nwAlias wanted)) defaultTag)) of
                None \<Rightarrow> (Inr None, st)
              | Some spec \<Rightarrow>
                  let (r, st') = resolveFromRegistry env spec wanted opts st
                  in (sbind r (\<lambda>x. Inr (Some x)), st')))"

section \<open>Properties\<close>

text \<open>A result that links or copies a package of the workspace.\<close>

definition localResult :: "workspacePackage \<Rightarrow> resolveResult \<Rightarrow> bool" where
  "localResult pkg r \<longleftrightarrow> rrResolvedVia r = ''workspace'' \<and> rrManifest r = LocalManifest pkg \<and>
     resolutionType (rrResolution r) = Some ''directory'' \<and>
     (startsWith (rrId r) ''link:'' \<or> startsWith (rrId r) ''file:'')"

lemma resolveFromLocalPackage_local:
  "resolveFromLocalPackage env pkg normalizedPref hard projectDir lockfileDir = Inr r \<Longrightarrow> localResult pkg r"
  by (auto simp: resolveFromLocalPackage_def localResult_def Let_def sbind_Inr_iff split: if_splits)

lemma withLatest_local: "withLatest meta r = Inr r' \<Longrightarrow> localResult pkg r' = localResult pkg r"
  by (auto simp: withLatest_def sbind_Inr_iff localResult_def)

lemma need_Inr [simp]: "need what x = Inr y \<longleftrightarrow> x = Some y"
  by (auto simp: need_def split: option.splits)

lemma tryResolveFromWorkspacePackages_local:
  assumes "tryResolveFromWorkspacePackages env ws spec wanted hard projectDir lockfileDir = Inr r"
  shows "\<exists>versions v pkg. map_of ws (spName spec) = Some versions \<and> map_of versions v = Some pkg \<and> localResult pkg r"
  using assms
  by (auto simp: tryResolveFromWorkspacePackages_def Let_def sbind_Inr_iff
      split: option.splits if_splits dest: resolveFromLocalPackage_local)

lemma tryResolveFromWorkspace_local:
  assumes "nwPref wanted = Some p" "startsWith p ''workspace:''"
    and "tryResolveFromWorkspace env wanted tag opts = Inr x"
  shows "\<exists>r. x = Some r \<and> (\<exists>ws name versions v pkg. roWorkspacePackages opts = Some ws \<and>
     map_of ws name = Some versions \<and> map_of versions v = Some pkg \<and> localResult pkg r)"
proof -
  obtain pref where "workspacePrefToNpm p = Inr pref"
    using assms by (cases "workspacePrefToNpm p") (simp_all add: tryResolveFromWorkspace_def)
  moreover from this obtain spec where "npmParsePref env pref (nwAlias wanted) tag (roRegistry opts) = Some spec"
    using assms by (cases "npmParsePref env pref (nwAlias wanted) tag (roRegistry opts)")
      (simp_all add: tryResolveFromWorkspace_def)
  moreover from calculation obtain ws where ws: "roWorkspacePackages opts = Some ws"
    using assms by (cases "roWorkspacePackages opts") (simp_all add: tryResolveFromWorkspace_def)
  moreover from calculation have "truthy (roProjectDir opts)"
    using assms by (cases "truthy (roProjectDir opts)") (simp_all add: tryResolveFromWorkspace_def)
  ultimately obtain r where "tryResolveFromWorkspacePackages env ws spec wanted (hardLinkLocal opts wanted)
      (the (roProjectDir opts)) (roLockfileDir opts) = Inr r" "x = Some r"
    using assms by (auto simp: tryResolveFromWorkspace_def sbind_Inr_iff)
  then show ?thesis using tryResolveFromWorkspacePackages_local ws by blast
qed

text \<open>C28. A dependency with the workspace protocol never reaches the registry or its caches: it resolves to
  a package of the workspace, linked or copied from its directory, or it is an error. (Specifiers
  \<open>workspace:.\<close> of paths are left to the resolver of local packages.)\<close>

theorem resolveNpm_workspace:
  assumes "nwPref wanted = Some p" "startsWith p ''workspace:''" "\<not> startsWith p ''workspace:.''"
  shows "snd (resolveNpm env wanted opts st) = st \<and>
    (case fst (resolveNpm env wanted opts st) of
       Inl _ \<Rightarrow> True
     | Inr None \<Rightarrow> False
     | Inr (Some r) \<Rightarrow> (\<exists>ws name versions v pkg. roWorkspacePackages opts = Some ws \<and>
         map_of ws name = Some versions \<and> map_of versions v = Some pkg \<and> localResult pkg r))"
proof -
  let ?t = "case roDefaultTag opts of Some t \<Rightarrow> t | None \<Rightarrow> ''latest''"
  let ?r = "tryResolveFromWorkspace env wanted ?t opts"
  have fails: "resolveNpm env wanted opts st = (Inl e, st)" if "?r = Inl e" for e
    using assms that unfolding resolveNpm_def orBlank_def Let_def by simp
  have finds: "resolveNpm env wanted opts st = (Inr (Some r), st)" if "?r = Inr (Some r)" for r
    using assms that unfolding resolveNpm_def orBlank_def Let_def by simp
  show ?thesis
  proof (cases ?r)
    case (Inl e)
    then show ?thesis by (simp add: fails)
  next
    case (Inr x)
    from tryResolveFromWorkspace_local [OF assms(1,2) this] obtain r where x: "x = Some r"
      and loc: "\<exists>ws name versions v pkg. roWorkspacePackages opts = Some ws \<and>
         map_of ws name = Some versions \<and> map_of versions v = Some pkg \<and> localResult pkg r"
      by blast
    show ?thesis using loc Inr x by (simp add: finds)
  qed
qed

lemma localSubstitute_Some:
  assumes "localSubstitute env ws spec opts p = Inr (Some pkg)"
  shows "\<exists>pkgs versions v. ws = Some pkgs \<and> map_of pkgs (prName p) = Some versions \<and> map_of versions v = Some pkg \<and>
    (v = prVersion p \<or> map_of versions (prVersion p) = None \<and>
      (roPreferWorkspacePackages opts \<or> semverLt (neSemver env) (prVersion p) v = Inr True))"
proof -
  obtain pkgs where pkgs: "ws = Some pkgs" using assms by (cases ws) (auto simp: localSubstitute_def)
  obtain versions where versions: "map_of pkgs (prName p) = Some versions"
    using assms pkgs by (cases "map_of pkgs (prName p)") (auto simp: localSubstitute_def)
  show ?thesis
  proof (cases "map_of versions (prVersion p)")
    case (Some q)
    then have "q = pkg" using assms pkgs versions by (auto simp: localSubstitute_def split: if_splits)
    then show ?thesis using pkgs versions Some by blast
  next
    case None
    then show ?thesis
      using assms pkgs versions
      by (auto simp: localSubstitute_def Let_def sbind_Inr_iff split: if_splits)
  qed
qed

lemma localSubstitute_None:
  assumes "localSubstitute env (Some pkgs) spec opts p = Inr None" "truthy (roProjectDir opts)"
    and "map_of pkgs (prName p) = Some versions"
  shows "map_of versions (prVersion p) = None"
  using assms by (auto simp: localSubstitute_def split: option.splits)


definition toyEnv :: npmEnv where
  "toyEnv = \<lparr>neSemver = toySemver, neContext = toyContext, neSelectorType = (\<lambda>s. Some (RangeSpec, s)),
     neParseTarballUrl = (\<lambda>_. None), nePathRelative = (\<lambda>a b. b), nePathJoin = (\<lambda>a b. a @ ''/'' @ b),
     neNormalize = (\<lambda>s. s), neCwd = ''c'', neIntegrityFromHex = Some\<rparr>"

definition toyWorkspace :: workspacePackages where
  "toyWorkspace = [(''p'', [(''4'', \<lparr>wpRootDir = ''d'', wpName = ''p'', wpVersion = ''4'',
     wpPublishDirectory = None, wpLinkDirectory = None\<rparr>)])]"

definition toyResolveOptions :: "workspacePackages option \<Rightarrow> resolveFromNpmOptions" where
  "toyResolveOptions ws = \<lparr>roAlwaysTryWorkspacePackages = None, roDefaultTag = Some ''latest'', roPublishedBy = None,
     roPickLowestVersion = False, roDryRun = False, roLockfileDir = None, roProjectDir = Some ''pd'', roRegistry = ''r'',
     roPreferredVersions = None, roPreferWorkspacePackages = False, roUpdateToLatest = False,
     roInjectWorkspacePackages = False, roWorkspacePackages = ws\<rparr>"

definition toyWanted :: "str \<Rightarrow> npmWantedDependency" where
  "toyWanted pref = \<lparr>nwAlias = Some ''p'', nwPref = Some pref, nwInjected = False\<rparr>"

theorem resolveNpm_workspace_witness:
  "snd (resolveNpm toyEnv (toyWanted ''workspace:x'') (toyResolveOptions (Some toyWorkspace)) toyState) = toyState"
  using resolveNpm_workspace [of "toyWanted ''workspace:x''" "''workspace:x''" toyEnv
      "toyResolveOptions (Some toyWorkspace)" toyState] by (simp add: toyWanted_def)

definition toyResult :: resolveResult where
  "toyResult = projr (sbind (fst (resolveNpm toyEnv (toyWanted ''x'') (toyResolveOptions None) toyState)) (need []))"

lemma toy_resolve:
  "fst (resolveNpm toyEnv (toyWanted ''x'') (toyResolveOptions None) toyState) = Inr (Some toyResult)"
  "npmParsePref toyEnv ''x'' (Some ''p'') ''latest'' ''r'' = Some (toySpec RangeSpec ''x'')"
  "fst (pickPackage (neSemver toyEnv) (neContext toyEnv) (toySpec RangeSpec ''x'')
      (pickOptionsOf (toySpec RangeSpec ''x'') (toyResolveOptions None)) toyState) =
    Inr (toyMeta\<lparr>mtCachedAt := Some ''n''\<rparr>, Some (toyPackage ''4'' None))"
  by (code_simp)+


end
