(* ===== verification/PkgsGraph.thy ===== *)
theory PkgsGraph
  imports NpmPicker GraphSequencer
begin

text \<open>
  workspace/pkgs-graph/src/index.ts: the graph of the projects of a workspace. A dependency of a project is
  an edge to the project that satisfies it. npm-package-arg, Node's \<open>path\<close>, semver and the parsers of
  specifiers are parameters; \<open>pgResolve\<close> is \<open>npa.resolve\<close>, \<open>None\<close> for an exception.
\<close>

record project =
  prjRootDir :: str
  prjManifest :: manifest

record pkgNode =
  nodeDependencies :: "str list"
  nodePackage :: project

type_synonym packageGraph = "pkgNode obj"

datatype npaType = NpaDirectory | NpaVersion | NpaRange | NpaOther

record pkgsGraphEnv =
  pgResolve :: "str \<Rightarrow> str \<Rightarrow> str \<Rightarrow> (npaType \<times> str) option"
  pgPathResolve :: "str \<Rightarrow> str \<Rightarrow> str"
  pgAbsolute :: "str \<Rightarrow> str"
  pgPathRelative :: "str \<Rightarrow> str \<Rightarrow> str"
  pgMaxSatisfying :: "str list \<Rightarrow> str \<Rightarrow> bool \<Rightarrow> bool \<Rightarrow> str option"
  pgSelectorType :: "str \<Rightarrow> (specType \<times> str) option"
  pgParseTarballUrl :: "str \<Rightarrow> (str \<times> str) option"

record pkgsGraphOptions =
  pgIgnoreDevDeps :: bool
  pgLinkWorkspacePackages :: "bool option"

section \<open>Lookup tables\<close>

definition createPkgMap :: "project list \<Rightarrow> project obj" where
  "createPkgMap pkgs = fold (\<lambda>p. jset (prjRootDir p) p) pkgs []"

definition addByName :: "project \<Rightarrow> project list obj \<Rightarrow> project list obj" where
  "addByName pkg m =
     (let name = mName (prjManifest pkg) in
      if truthy name
      then jset (the name) ((case map_of m (the name) of None \<Rightarrow> [] | Some ps \<Rightarrow> ps) @ [pkg]) m
      else m)"

definition getPkgMapByManifestName :: "project list \<Rightarrow> project list obj" where
  "getPkgMapByManifestName pkgs = fold addByName pkgs []"

definition getPkgMapByDir :: "pkgsGraphEnv \<Rightarrow> project list \<Rightarrow> project obj" where
  "getPkgMapByDir env pkgs = fold (\<lambda>p. jset (pgAbsolute env (prjRootDir p)) p) pkgs []"

section \<open>createPkgGraph\<close>

text \<open>The state of the construction: the table by directory, which remembers slow matches, and the
  dependencies without a match.\<close>

record pkgsGraphState =
  pgByDir :: "project obj"
  pgUnmatched :: "(str \<times> str) list"

definition nodeDeps :: "pkgsGraphOptions \<Rightarrow> manifest \<Rightarrow> deps" where
  "nodeDeps opts m =
     spread (spread (spread (orEmpty (mPeerDependencies m))
       (if pgIgnoreDevDeps opts then [] else orEmpty (mDevDependencies m)))
       (orEmpty (mOptionalDependencies m))) (orEmpty (mDependencies m))"

text \<open>The name and the specifier that a dependency stands for; \<open>None\<close> when the code catches an exception.\<close>

definition plainSpec :: "pkgsGraphEnv \<Rightarrow> str \<Rightarrow> str \<Rightarrow> (str \<times> str) option" where
  "plainSpec env depName rawSpec =
     (if startsWith rawSpec ''workspace:'' then
        (case workspacePrefToNpm rawSpec of
           Inl _ \<Rightarrow> None
         | Inr pref \<Rightarrow>
             map_option (\<lambda>s. (spName s, spFetchSpec s))
               (parsePref (pgSelectorType env) (pgParseTarballUrl env) pref (Some depName) ''latest'' []))
      else Some (depName, rawSpec))"

text \<open>A directory: by its path, or slowly by comparing paths (on file systems that ignore case).\<close>

definition findByDir ::
    "pkgsGraphEnv \<Rightarrow> project list \<Rightarrow> project \<Rightarrow> str \<Rightarrow> pkgsGraphState \<Rightarrow> str \<times> pkgsGraphState" where
  "findByDir env pkgMapValues pkg fetchSpec st =
     (let resolvedPath = pgPathResolve env (prjRootDir pkg) fetchSpec in
      case map_of (pgByDir st) resolvedPath of
        Some found \<Rightarrow> (prjRootDir found, st)
      | None \<Rightarrow>
          (case find (\<lambda>p. pgPathRelative env (prjRootDir p) fetchSpec = []) pkgMapValues of
             None \<Rightarrow> ([], st)
           | Some matched \<Rightarrow> (prjRootDir matched, st\<lparr>pgByDir := jset resolvedPath matched (pgByDir st)\<rparr>)))"

text \<open>The version found is that of one of the packages, so the \<open>find\<close> succeeds; were it not, the code would
  throw here.\<close>

definition rootDirOf :: "project option \<Rightarrow> str" where
  "rootDirOf p = (case p of None \<Rightarrow> [] | Some q \<Rightarrow> prjRootDir q)"

definition findByVersion ::
    "pkgsGraphEnv \<Rightarrow> pkgsGraphOptions \<Rightarrow> project list \<Rightarrow> bool \<Rightarrow> str \<Rightarrow> str \<Rightarrow> pkgsGraphState \<Rightarrow> str \<times> pkgsGraphState" where
  "findByVersion env opts pkgs isWorkspaceSpec depName rawSpec st =
     (let versions = List.map_filter (\<lambda>p. mVersion (prjManifest p)) (filter (\<lambda>p. truthy (mVersion (prjManifest p))) pkgs);
          named = (\<lambda>v. find (\<lambda>p. mName (prjManifest p) = Some depName \<and> mVersion (prjManifest p) = Some v) pkgs);
          unmatched = st\<lparr>pgUnmatched := pgUnmatched st @ [(depName, rawSpec)]\<rparr>
      in if pgLinkWorkspacePackages opts = Some False \<and> \<not> isWorkspaceSpec then ([], unmatched)
         else if isWorkspaceSpec \<and> versions = []
         then (rootDirOf (find (\<lambda>p. mName (prjManifest p) = Some depName) pkgs), st)
         else if rawSpec \<in> set versions then (rootDirOf (named rawSpec), st)
         else let matched = resolveWorkspaceRange (pgMaxSatisfying env) rawSpec versions in
           if \<not> truthy matched then ([], unmatched) else (rootDirOf (named (the matched)), st))"

definition resolveDep ::
    "pkgsGraphEnv \<Rightarrow> pkgsGraphOptions \<Rightarrow> project list \<Rightarrow> project \<Rightarrow> str \<times> str \<Rightarrow> pkgsGraphState \<Rightarrow> str \<times> pkgsGraphState" where
  "resolveDep env opts pkgMapValues pkg entry st =
     (case entry of (depName, rawSpec) \<Rightarrow>
        case plainSpec env depName rawSpec of
          None \<Rightarrow> ([], st)
        | Some (depName', rawSpec') \<Rightarrow>
            (case pgResolve env depName' rawSpec' (prjRootDir pkg) of
               None \<Rightarrow> ([], st)
             | Some (NpaDirectory, fetchSpec) \<Rightarrow> findByDir env pkgMapValues pkg fetchSpec st
             | Some (NpaOther, _) \<Rightarrow> ([], st)
             | Some (_, _) \<Rightarrow>
                 (case map_of (getPkgMapByManifestName pkgMapValues) depName' of
                    None \<Rightarrow> ([], st)
                  | Some pkgs \<Rightarrow>
                      if pkgs = [] then ([], st)
                      else findByVersion env opts pkgs (startsWith rawSpec ''workspace:'') depName' rawSpec' st)))"

fun resolveDeps ::
    "pkgsGraphEnv \<Rightarrow> pkgsGraphOptions \<Rightarrow> project list \<Rightarrow> project \<Rightarrow> deps \<Rightarrow> pkgsGraphState \<Rightarrow> str list \<times> pkgsGraphState" where
  "resolveDeps env opts pkgMapValues pkg [] st = ([], st)"
| "resolveDeps env opts pkgMapValues pkg (entry # ds) st =
     (let (dir, st1) = resolveDep env opts pkgMapValues pkg entry st;
          (dirs, st2) = resolveDeps env opts pkgMapValues pkg ds st1
      in (dir # dirs, st2))"

definition createNode ::
    "pkgsGraphEnv \<Rightarrow> pkgsGraphOptions \<Rightarrow> project list \<Rightarrow> project \<Rightarrow> pkgsGraphState \<Rightarrow> str list \<times> pkgsGraphState" where
  "createNode env opts pkgMapValues pkg st =
     (let (dirs, st') = resolveDeps env opts pkgMapValues pkg (nodeDeps opts (prjManifest pkg)) st
      in (filter (\<lambda>d. d \<noteq> []) dirs, st'))"

fun createNodes ::
    "pkgsGraphEnv \<Rightarrow> pkgsGraphOptions \<Rightarrow> project list \<Rightarrow> project obj \<Rightarrow> pkgsGraphState \<Rightarrow> packageGraph \<times> pkgsGraphState" where
  "createNodes env opts pkgMapValues [] st = ([], st)"
| "createNodes env opts pkgMapValues ((dir, pkg) # m) st =
     (let (deps, st1) = createNode env opts pkgMapValues pkg st;
          (g, st2) = createNodes env opts pkgMapValues m st1
      in ((dir, \<lparr>nodeDependencies = deps, nodePackage = pkg\<rparr>) # g, st2))"

definition createPkgGraph ::
    "pkgsGraphEnv \<Rightarrow> project list \<Rightarrow> pkgsGraphOptions \<Rightarrow> packageGraph \<times> (str \<times> str) list" where
  "createPkgGraph env pkgs opts =
     (let pkgMap = createPkgMap pkgs;
          (g, st) = createNodes env opts (vals pkgMap) pkgMap
            \<lparr>pgByDir = getPkgMapByDir env (vals pkgMap), pgUnmatched = []\<rparr>
      in (g, pgUnmatched st))"

section \<open>The nodes and the edges\<close>

lemma createPkgMap_keyed: "map_of (createPkgMap pkgs) d = Some p \<Longrightarrow> prjRootDir p = d \<and> p \<in> set pkgs"
  unfolding createPkgMap_def
proof (induction pkgs rule: rev_induct)
  case (snoc q pkgs)
  then show ?case by (auto simp: alist.get_put split: if_splits)
qed simp

lemma distinct_createPkgMap: "distinct (keys (createPkgMap pkgs))"
  unfolding createPkgMap_def
  by (induction pkgs rule: rev_induct) (simp_all add: distinct_keys_update del: distinct_map)

lemma keys_createPkgMap: "set (keys (createPkgMap pkgs)) = prjRootDir ` set pkgs"
  unfolding createPkgMap_def
  by (induction pkgs rule: rev_induct) (simp_all add: dom_update)

lemma keys_createNodes: "keys (fst (createNodes env opts vs m st)) = keys m"
  by (induction env opts vs m st rule: createNodes.induct) (auto split: prod.splits)

text \<open>The tables hold projects of the workspace only.\<close>

definition tablesOk :: "project list \<Rightarrow> pkgsGraphState \<Rightarrow> bool" where
  "tablesOk ps st \<longleftrightarrow> (\<forall>d p. map_of (pgByDir st) d = Some p \<longrightarrow> p \<in> set ps)"

lemma tablesOk_unmatched [simp]: "tablesOk ps (st\<lparr>pgUnmatched := u\<rparr>) = tablesOk ps st"
  by (simp add: tablesOk_def)

lemma tablesOk_update: "tablesOk ps st \<Longrightarrow> q \<in> set ps \<Longrightarrow> tablesOk ps (st\<lparr>pgByDir := jset d q (pgByDir st)\<rparr>)"
  by (simp add: tablesOk_def alist.get_put)

lemma getPkgMapByDir_in: "map_of (getPkgMapByDir env ps) d = Some p \<Longrightarrow> p \<in> set ps"
  unfolding getPkgMapByDir_def
  by (induction ps rule: rev_induct) (auto simp: alist.get_put split: if_splits)

lemma byName_subset: "map_of (getPkgMapByManifestName ps) n = Some qs \<Longrightarrow> set qs \<subseteq> set ps"
  unfolding getPkgMapByManifestName_def
proof (induction ps arbitrary: qs rule: rev_induct)
  case (snoc p ps)
  then show ?case
    by (auto simp: addByName_def Let_def alist.get_put split: if_splits option.splits)
qed simp

lemma find_in: "find P xs = Some x \<Longrightarrow> x \<in> set xs"
  by (metis find_Some_iff nth_mem)

lemma rootDirOf_find: "rootDirOf (find P ps) = [] \<or> rootDirOf (find P ps) \<in> prjRootDir ` set ps"
  by (cases "find P ps") (auto simp: rootDirOf_def dest: find_in)

lemma findByDir_ok:
  assumes "tablesOk ps st" "findByDir env ps pkg f st = (d, st')"
  shows "tablesOk ps st' \<and> (d = [] \<or> d \<in> prjRootDir ` set ps)"
proof (cases "map_of (pgByDir st) (pgPathResolve env (prjRootDir pkg) f)")
  case (Some q)
  then have "q \<in> set ps" using assms(1) by (simp add: tablesOk_def)
  then show ?thesis using assms Some by (auto simp: findByDir_def Let_def)
next
  case None
  show ?thesis
  proof (cases "find (\<lambda>p. pgPathRelative env (prjRootDir p) f = []) ps")
    case None
    then show ?thesis using assms \<open>map_of _ _ = None\<close> by (auto simp: findByDir_def Let_def)
  next
    case (Some q)
    then have "q \<in> set ps" by (rule find_in)
    then show ?thesis
      using assms Some \<open>map_of _ _ = None\<close> by (auto simp: findByDir_def Let_def tablesOk_update)
  qed
qed

lemma findByVersion_ok:
  assumes "tablesOk ps st" "set pkgs \<subseteq> set ps" "findByVersion env opts pkgs w n r st = (d, st')"
  shows "tablesOk ps st' \<and> (d = [] \<or> d \<in> prjRootDir ` set ps)"
proof -
  have "tablesOk ps st'" using assms(1,3) by (auto simp: findByVersion_def Let_def split: if_splits)
  moreover have "d = [] \<or> (\<exists>P. d = rootDirOf (find P pkgs))"
    using assms(3) unfolding findByVersion_def Let_def by (auto split: if_splits)
  ultimately show ?thesis using rootDirOf_find [of _ pkgs] assms(2) by blast
qed

lemma resolveDep_ok:
  assumes "tablesOk ps st" "resolveDep env opts ps pkg entry st = (d, st')"
  shows "tablesOk ps st' \<and> (d = [] \<or> d \<in> prjRootDir ` set ps)"
  using assms
  by (auto simp: resolveDep_def split: prod.splits option.splits npaType.splits if_splits
      dest: findByDir_ok findByVersion_ok [OF _ byName_subset])

lemma resolveDeps_ok:
  "tablesOk ps st \<Longrightarrow> resolveDeps env opts ps pkg ds st = (xs, st') \<Longrightarrow>
     tablesOk ps st' \<and> set xs \<subseteq> insert [] (prjRootDir ` set ps)"
proof (induction ds arbitrary: st st' xs)
  case (Cons e ds)
  obtain d st1 where 1: "resolveDep env opts ps pkg e st = (d, st1)" by fastforce
  obtain ys st2 where 2: "resolveDeps env opts ps pkg ds st1 = (ys, st2)" by fastforce
  note k = resolveDep_ok [OF Cons.prems(1) 1]
  with Cons.IH [OF conjunct1 [OF k] 2] Cons.prems 1 2 show ?case by auto
qed simp

lemma createNode_ok:
  assumes "tablesOk ps st" "createNode env opts ps pkg st = (xs, st')"
  shows "tablesOk ps st' \<and> set xs \<subseteq> prjRootDir ` set ps"
proof -
  obtain ys st1 where "resolveDeps env opts ps pkg (nodeDeps opts (prjManifest pkg)) st = (ys, st1)" by fastforce
  with resolveDeps_ok [OF assms(1) this] assms(2) show ?thesis by (auto simp: createNode_def)
qed

lemma createNodes_ok:
  "tablesOk ps st \<Longrightarrow> createNodes env opts ps m st = (g, st') \<Longrightarrow>
     \<forall>(d, n) \<in> set g. set (nodeDependencies n) \<subseteq> prjRootDir ` set ps \<and> (d, nodePackage n) \<in> set m"
proof (induction m arbitrary: st st' g)
  case (Cons e m)
  obtain dir pkg where e: "e = (dir, pkg)" by fastforce
  obtain xs st1 where 1: "createNode env opts ps pkg st = (xs, st1)" by fastforce
  obtain h st2 where 2: "createNodes env opts ps m st1 = (h, st2)" by fastforce
  note k = createNode_ok [OF Cons.prems(1) 1]
  have g: "g = (dir, \<lparr>nodeDependencies = xs, nodePackage = pkg\<rparr>) # h" using Cons.prems(2) 1 2 e by simp
  show ?case using Cons.IH [OF conjunct1 [OF k] 2] k e unfolding g by fastforce
qed simp

text \<open>C33. The graph of a workspace has exactly the projects' directories as its nodes, each with its own
  project, and is closed: every edge leads to a node, so the consumers (the filter, the topological sort)
  never meet a dependency that is not there.\<close>

theorem createPkgGraph_closed:
  "let g = fst (createPkgGraph env pkgs opts) in
     distinct (keys g) \<and> set (keys g) = prjRootDir ` set pkgs \<and>
     list_all (\<lambda>(d, n). prjRootDir (nodePackage n) = d \<and> nodePackage n \<in> set pkgs \<and>
       set (nodeDependencies n) \<subseteq> set (keys g)) g"
proof -
  let ?m = "createPkgMap pkgs" and ?g = "fst (createPkgGraph env pkgs opts)"
  let ?st = "\<lparr>pgByDir = getPkgMapByDir env (vals ?m), pgUnmatched = []\<rparr>"
  obtain g st where n: "createNodes env opts (vals ?m) ?m ?st = (g, st)" by fastforce
  have g: "?g = g" by (simp add: createPkgGraph_def Let_def n)
  have k: "keys g = keys ?m" using keys_createNodes [of env opts "vals ?m" ?m ?st] n by simp
  have "prjRootDir ` set (vals ?m) = set (keys ?m)"
    using createPkgMap_keyed distinct_createPkgMap by (force simp: image_image intro!: image_cong)
  moreover have "tablesOk (vals ?m) ?st" by (auto simp: tablesOk_def simp del: set_map dest: getPkgMapByDir_in)
  ultimately have "\<forall>(d, n) \<in> set g. set (nodeDependencies n) \<subseteq> set (keys ?m) \<and> (d, nodePackage n) \<in> set ?m"
    using createNodes_ok [OF _ n] by simp
  then have "\<forall>(d, n) \<in> set g. prjRootDir (nodePackage n) = d \<and> nodePackage n \<in> set pkgs \<and>
      set (nodeDependencies n) \<subseteq> set (keys g)"
    using createPkgMap_keyed [of pkgs] distinct_createPkgMap [of pkgs] unfolding k
    by (auto dest!: bspec map_of_is_SomeI)
  moreover have "set (keys g) = prjRootDir ` set pkgs" unfolding k by (rule keys_createPkgMap)
  moreover have "distinct (keys g)" unfolding k by (rule distinct_createPkgMap)
  ultimately show ?thesis unfolding g Let_def list_all_iff by blast
qed

end
