(* ===== verification/FilterWorkspace.thy ===== *)
theory FilterWorkspace
  imports PkgsGraph ChangedPackages Matcher GraphWalk
begin

text \<open>
  workspace/filter-workspace-packages/src (index.ts, parsePackageSelector.ts): selecting projects of a
  workspace by the selectors of \<open>--filter\<close>.

  \<open>is-subdir\<close> and micromatch are parameters, besides those of \<open>ChangedPackages\<close> and \<open>PkgsGraph\<close>. The
  functions are asynchronous only to wait for git, one selector after another, so they are plain functions
  here. The reversed graph, which the code computes when it is first needed, is a function of the graph.
\<close>

section \<open>Selectors\<close>

record projectSelector =
  psDiff :: "str option"
  psExclude :: bool
  psExcludeSelf :: bool
  psIncludeDependencies :: bool
  psIncludeDependents :: bool
  psNamePattern :: "str option"
  psParentDir :: "str option"
  psFollowProdDepsOnly :: bool

definition emptySelector :: projectSelector where
  "emptySelector = \<lparr>psDiff = None, psExclude = False, psExcludeSelf = False, psIncludeDependencies = False,
     psIncludeDependents = False, psNamePattern = None, psParentDir = None, psFollowProdDepsOnly = False\<rparr>"

definition isSelectorByLocation :: "str \<Rightarrow> bool" where
  "isSelectorByLocation raw \<longleftrightarrow>
     (if \<not> startsWith raw ''.'' then False
      else if length raw = 1 \<or> raw ! 1 = CHR ''/'' \<or> raw ! 1 = CHR 0x5C then True
      else if raw ! 1 \<noteq> CHR ''.'' then False
      else length raw = 2 \<or> raw ! 2 = CHR ''/'' \<or> raw ! 2 = CHR 0x5C)"

text \<open>\<open>/^([^.][^{}[\]]*)?(\{[^}]+\})?(\[[^\]]+\])?$/\<close>. A group in brackets takes everything up to the first closing
  bracket. The first group, when it matches, must run up to a bracket or the end, because no group goes on
  from inside it; the expression does without it only when the rest does not match behind it.\<close>

definition bracketed :: "char \<Rightarrow> char \<Rightarrow> str \<Rightarrow> (str \<times> str) option" where
  "bracketed a b s =
     (case s of
        [] \<Rightarrow> None
      | c # r \<Rightarrow>
          let content = takeWhile (\<lambda>d. d \<noteq> b) r in
          if c = a \<and> content \<noteq> [] \<and> b \<in> set r then Some (content, drop (length content + 1) r) else None)"

definition optionalGroup :: "char \<Rightarrow> char \<Rightarrow> str \<Rightarrow> str option \<times> str" where
  "optionalGroup a b s = (case bracketed a b s of Some (content, r) \<Rightarrow> (Some content, r) | None \<Rightarrow> (None, s))"

definition matchGroups :: "str \<Rightarrow> (str option \<times> str option) option" where
  "matchGroups s =
     (let (dir, r) = optionalGroup CHR ''{'' CHR ''}'' s;
          (diff, r') = optionalGroup CHR ''['' CHR '']'' r
      in if r' = [] then Some (dir, diff) else None)"

definition plainSelectorChar :: "char \<Rightarrow> bool" where
  "plainSelectorChar c \<longleftrightarrow> c \<notin> set ''{}[]''"

definition matchSelector :: "str \<Rightarrow> (str option \<times> str option \<times> str option) option" where
  "matchSelector s =
     (case (case s of
              [] \<Rightarrow> None
            | c # r \<Rightarrow>
                if c = CHR ''.'' then None
                else map_option (\<lambda>(dir, diff). (Some (c # takeWhile plainSelectorChar r), dir, diff))
                       (matchGroups (dropWhile plainSelectorChar r))) of
        Some m \<Rightarrow> Some m
      | None \<Rightarrow> map_option (\<lambda>(dir, diff). (None, dir, diff)) (matchGroups s))"

definition stripDependencies :: "str \<Rightarrow> bool \<times> bool \<times> str" where
  "stripDependencies s =
     (if endsWith s ''...'' then
        let s = take (length s - 3) s in
        if endsWith s ''^'' then (True, True, butlast s) else (True, False, s)
      else (False, False, s))"

definition stripDependents :: "str \<Rightarrow> bool \<times> bool \<times> str" where
  "stripDependents s =
     (if startsWith s ''...'' then
        let s = drop 3 s in if startsWith s ''^'' then (True, True, drop 1 s) else (True, False, s)
      else (False, False, s))"

definition parsePackageSelector :: "(str \<Rightarrow> str \<Rightarrow> str) \<Rightarrow> str \<Rightarrow> str \<Rightarrow> projectSelector" where
  "parsePackageSelector pathJoin raw dirPrefix =
     (let (exclude, raw) = (if startsWith raw ''!'' then (True, drop 1 raw) else (False, raw));
          (includeDependencies, self1, raw) = stripDependencies raw;
          (includeDependents, self2, raw) = stripDependents raw
      in case matchSelector raw of
           None \<Rightarrow>
             if isSelectorByLocation raw
             then emptySelector\<lparr>psExclude := exclude, psParentDir := Some (pathJoin dirPrefix raw)\<rparr>
             else emptySelector\<lparr>psNamePattern := Some raw\<rparr>
         | Some (name, dir, diff) \<Rightarrow>
             emptySelector\<lparr>psDiff := diff, psExclude := exclude, psExcludeSelf := self1 \<or> self2,
               psIncludeDependencies := includeDependencies, psIncludeDependents := includeDependents,
               psNamePattern := name, psParentDir := map_option (pathJoin dirPrefix) dir\<rparr>)"

section \<open>Walking the graph\<close>

type_synonym dirGraph = "str list obj"

definition pkgGraphToGraph :: "packageGraph \<Rightarrow> dirGraph" where
  "pkgGraphToGraph pkgGraph = map (\<lambda>(d, n). (d, nodeDependencies n)) pkgGraph"

definition addReversed :: "str \<Rightarrow> str \<Rightarrow> dirGraph \<Rightarrow> dirGraph" where
  "addReversed dependent dependency g =
     (case map_of g dependency of
        None \<Rightarrow> jset dependency [dependent] g
      | Some ds \<Rightarrow> jset dependency (ds @ [dependent]) g)"

definition reverseGraph :: "dirGraph \<Rightarrow> dirGraph" where
  "reverseGraph graph = fold (\<lambda>(d, deps). fold (addReversed d) deps) graph []"

definition dirEdges :: "dirGraph \<Rightarrow> str \<Rightarrow> str list" where
  "dirEdges graph d = orEmpty (map_of graph d)"

function pickSubgraph :: "dirGraph \<Rightarrow> str list \<Rightarrow> str list \<Rightarrow> bool \<Rightarrow> str list" where
  "pickSubgraph graph [] walked includeRoot = walked"
| "pickSubgraph graph (nextNodeId # nextNodeIds) walked includeRoot =
     (if nextNodeId \<in> set walked then pickSubgraph graph nextNodeIds walked includeRoot
      else let walked1 = (if includeRoot then sadd nextNodeId walked else walked);
               walked2 = (case map_of graph nextNodeId of
                 None \<Rightarrow> walked1 | Some deps \<Rightarrow> pickSubgraph graph deps walked1 True)
           in pickSubgraph graph nextNodeIds walked2 includeRoot)"
  by pat_completeness auto

lemma pickSubgraph_mono_dom:
  "pickSubgraph_dom (graph, ns, walked, b) \<Longrightarrow> set walked \<subseteq> set (pickSubgraph graph ns walked b)"
proof (induction rule: pickSubgraph.pinduct)
  case (1 graph walked b)
  then show ?case by (simp add: pickSubgraph.psimps)
next
  case (2 graph n ns walked b)
  show ?case
  proof (cases "n \<in> set walked")
    case True
    then show ?thesis using 2 by (simp add: pickSubgraph.psimps)
  next
    case False
    let ?w = "if b then sadd n walked else walked"
    have "set walked \<subseteq> set ?w" by auto
    also have "\<dots> \<subseteq> set (case map_of graph n of None \<Rightarrow> ?w | Some deps \<Rightarrow> pickSubgraph graph deps ?w True)"
      using 2(3) [OF False refl] by (auto split: option.split)
    also note 2(4) [OF False refl refl]
    finally show ?thesis using 2(1) False by (simp add: pickSubgraph.psimps Let_def)
  qed
qed

termination pickSubgraph
proof (relation "inv_image (less_than <*lex*> less_than <*lex*> less_than)
    (\<lambda>(graph, ns, walked, b). (if b then 0 else 1 :: nat, card (set (keys graph) - set walked), length ns))", goal_cases)
  case 1
  show ?case by (simp add: wf_lex_prod)
next
  case (2 graph n ns walked b)
  then show ?case by simp
next
  case (3 graph n ns walked b w1 deps)
  show ?case
  proof (cases b)
    case True
    have "n \<in> set (keys graph)" using 3 by (simp add: in_keys_iff del: set_map)
    then have "card (set (keys graph) - set w1) < card (set (keys graph) - set walked)"
      using 3 True by (intro unseen_less) auto
    then show ?thesis using True by simp
  next
    case False
    then show ?thesis by simp
  qed
next
  case (4 graph n ns walked b w1 w2)
  have "set walked \<subseteq> set w2"
  proof (cases "map_of graph n")
    case None
    then show ?thesis using 4 by auto
  next
    case (Some deps)
    then have "set w1 \<subseteq> set w2" using 4 pickSubgraph_mono_dom by simp
    then show ?thesis using 4 by auto
  qed
  then have "card (set (keys graph) - set w2) \<le> card (set (keys graph) - set walked)"
    by (intro unseen_le) auto
  then show ?case by auto
qed

interpretation dirWalk: seen_walk "dirEdges graph" "set (keys graph)" set sadd
  "\<lambda>ns walked. pickSubgraph graph ns walked True" for graph
proof (unfold_locales, goal_cases)
  case (2 n)
  then have "map_of graph n = None" by (simp add: in_keys_iff del: set_map)
  then show ?case by (simp add: dirEdges_def)
next
  case (6 n s ns)
  then show ?case by (cases "map_of graph n") (simp_all add: dirEdges_def)
qed simp_all

section \<open>Matching projects\<close>

record filterEnv = changesEnv +
  feIsSubdir :: "str \<Rightarrow> str \<Rightarrow> bool"
  feGlobMatch :: "str \<Rightarrow> str \<Rightarrow> bool"
  feGraphEnv :: pkgsGraphEnv

record filterOptions =
  foWorkspaceDir :: str
  foTestPattern :: "str list option"
  foChangedFilesIgnorePattern :: "str list option"
  foUseGlobDirFiltering :: bool

text \<open>The projects whose name matches; a pattern without a scope may match one scoped name.\<close>

definition namesMatching :: "packageGraph \<Rightarrow> str \<Rightarrow> str list" where
  "namesMatching graph pattern =
     keys (filter (\<lambda>(_, n). let name = mName (prjManifest (nodePackage n)) in
       truthy name \<and> createMatcher [pattern] (the name)) graph)"

function matchPackages :: "packageGraph \<Rightarrow> str \<Rightarrow> str list" where
  "matchPackages graph pattern =
     (let matches = namesMatching graph pattern in
      if matches = [] \<and> \<not> startsWith pattern ''@'' \<and> CHR ''/'' \<notin> set pattern then
        let scopedMatches = matchPackages graph (''@*/'' @ pattern)
        in if length scopedMatches \<noteq> 1 then [] else scopedMatches
      else matches)"
  by pat_completeness auto

termination matchPackages
  by (relation "measure (\<lambda>(_, p). if startsWith p ''@'' then 0 else 1)") auto

declare matchPackages.simps [simp del]

definition matchPackagesByExactPath :: "filterEnv \<Rightarrow> packageGraph \<Rightarrow> str \<Rightarrow> str list" where
  "matchPackagesByExactPath env graph pathStartsWith = filter (feIsSubdir env pathStartsWith) (keys graph)"

definition dropFinalSlash :: "str \<Rightarrow> str" where
  "dropFinalSlash s = (if endsWith s ''/'' then butlast s else s)"

text \<open>\<open>feGlobMatch dir pattern\<close> is \<open>micromatch.isMatch(dir, pattern, {format})\<close>.\<close>

definition matchPackagesByGlob :: "filterEnv \<Rightarrow> packageGraph \<Rightarrow> str \<Rightarrow> str list" where
  "matchPackagesByGlob env graph pathStartsWith =
     (let formattedFilter = dropFinalSlash (map (\<lambda>c. if c = CHR 0x5C then CHR ''/'' else c) pathStartsWith)
      in filter (\<lambda>d. feGlobMatch env d formattedFilter) (keys graph))"

text \<open>ramda's \<open>pick\<close> and \<open>difference\<close>.\<close>

definition pickKeys :: "str list \<Rightarrow> 'v obj \<Rightarrow> 'v obj" where
  "pickKeys names g = fold (\<lambda>n m. case map_of g n of None \<Rightarrow> m | Some v \<Rightarrow> jset n v m) names []"

definition listDifference :: "'a list \<Rightarrow> 'a list \<Rightarrow> 'a list" where
  "listDifference xs ys = filter (\<lambda>x. x \<notin> set ys) (uniq xs)"

section \<open>filterWorkspacePackages\<close>

record selectionState =
  cherryPicked :: "str list"
  walkedDependencies :: "str list"
  walkedDependents :: "str list"
  walkedDependentsDependencies :: "str list"

definition selectEntries :: "dirGraph \<Rightarrow> projectSelector \<Rightarrow> str list \<Rightarrow> selectionState \<Rightarrow> selectionState" where
  "selectEntries graph selector entryPackages st =
     (let deps = psIncludeDependencies selector; dependents = psIncludeDependents selector;
          includeRoot = (\<not> psExcludeSelf selector);
          st1 = (if deps
                 then st\<lparr>walkedDependencies := pickSubgraph graph entryPackages (walkedDependencies st) includeRoot\<rparr>
                 else st);
          st2 = (if dependents
                 then st1\<lparr>walkedDependents :=
                   pickSubgraph (reverseGraph graph) entryPackages (walkedDependents st1) includeRoot\<rparr>
                 else st1);
          st3 = (if deps \<and> dependents
                 then st2\<lparr>walkedDependentsDependencies :=
                   pickSubgraph graph (walkedDependents st2) (walkedDependentsDependencies st2) False\<rparr>
                 else st2)
      in if \<not> deps \<and> \<not> dependents then st3\<lparr>cherryPicked := cherryPicked st3 @ entryPackages\<rparr> else st3)"

text \<open>The projects of a selector: those that changed (and those with changes in their tests only), those
  below a directory, narrowed by name. \<open>None\<close> when the selector names nothing.\<close>

definition selectorEntries ::
    "filterEnv \<Rightarrow> packageGraph \<Rightarrow> filterOptions \<Rightarrow> projectSelector \<Rightarrow> js_error + str list \<times> str list option" where
  "selectorEntries env pkgGraph opts selector =
     sbind (if truthy (psDiff selector) then
              sbind (getChangedPackages (changesEnv.truncate env) (keys pkgGraph) (the (psDiff selector))
                  (case psParentDir selector of Some d \<Rightarrow> d | None \<Rightarrow> foWorkspaceDir opts)
                  (foTestPattern opts) (foChangedFilesIgnorePattern opts))
                (\<lambda>(changed, testsOnly). Inr (testsOnly, Some changed))
            else if truthy (psParentDir selector) then
              Inr ([], Some ((if foUseGlobDirFiltering opts then matchPackagesByGlob else matchPackagesByExactPath)
                env pkgGraph (the (psParentDir selector))))
            else Inr ([], None))
       (\<lambda>(ignoreDependentForPkgs, entryPackages).
          Inr (ignoreDependentForPkgs,
            if truthy (psNamePattern selector)
            then Some (matchPackages (case entryPackages of None \<Rightarrow> pkgGraph | Some es \<Rightarrow> pickKeys es pkgGraph)
                   (the (psNamePattern selector)))
            else entryPackages))"

definition unmatchedOf :: "projectSelector \<Rightarrow> str list \<Rightarrow> str list" where
  "unmatchedOf selector entryPackages =
     (if entryPackages \<noteq> [] then []
      else (if truthy (psNamePattern selector) then [the (psNamePattern selector)] else []) @
           (if truthy (psParentDir selector) then [the (psParentDir selector)] else []))"

text \<open>One selector. When git reports changes, the projects that changed in their tests only are selected
  without their dependents; a failing selector stops the filter.\<close>

definition applySelector ::
    "filterEnv \<Rightarrow> packageGraph \<Rightarrow> filterOptions \<Rightarrow> projectSelector \<Rightarrow> selectionState \<times> str list \<Rightarrow>
     js_error + selectionState \<times> str list" where
  "applySelector env pkgGraph opts selector acc =
     sbind (selectorEntries env pkgGraph opts selector) (\<lambda>(ignoreDependentForPkgs, entryPackages).
       case entryPackages of
         None \<Rightarrow> Inl (PlainError ''Unsupported package selector'')
       | Some es \<Rightarrow>
           let graph = pkgGraphToGraph pkgGraph;
               st1 = (if truthy (psDiff selector)
                      then selectEntries graph (selector\<lparr>psIncludeDependents := False\<rparr>) ignoreDependentForPkgs (fst acc)
                      else fst acc)
           in Inr (selectEntries graph selector es st1, snd acc @ unmatchedOf selector es))"

definition emptySelection :: selectionState where
  "emptySelection = \<lparr>cherryPicked = [], walkedDependencies = [], walkedDependents = [],
     walkedDependentsDependencies = []\<rparr>"

definition selectedOf :: "selectionState \<Rightarrow> str list" where
  "selectedOf st = uniq (walkedDependencies st @ walkedDependents st @ walkedDependentsDependencies st @ cherryPicked st)"

definition filterGraph ::
    "filterEnv \<Rightarrow> packageGraph \<Rightarrow> filterOptions \<Rightarrow> projectSelector list \<Rightarrow> js_error + str list \<times> str list" where
  "filterGraph env pkgGraph opts packageSelectors =
     sbind (sfold (applySelector env pkgGraph opts) packageSelectors (emptySelection, []))
       (\<lambda>(st, unmatchedFilters). Inr (selectedOf st, unmatchedFilters))"

definition filterWorkspacePackages ::
    "filterEnv \<Rightarrow> packageGraph \<Rightarrow> filterOptions \<Rightarrow> projectSelector list \<Rightarrow> js_error + packageGraph \<times> str list" where
  "filterWorkspacePackages env pkgGraph opts packageSelectors =
     (let (excludeSelectors, includeSelectors) = partition psExclude packageSelectors in
      sbind (if includeSelectors = [] then Inr (keys pkgGraph, []) else filterGraph env pkgGraph opts includeSelectors)
        (\<lambda>(included, unmatched1).
      sbind (filterGraph env pkgGraph opts excludeSelectors) (\<lambda>(excluded, unmatched2).
        Inr (pickKeys (listDifference included excluded) pkgGraph, unmatched1 @ unmatched2))))"

record filterResult =
  allProjectsGraph :: packageGraph
  selectedProjectsGraph :: packageGraph
  unmatchedFilters :: "str list"

definition filterPkgsBySelectorObjects ::
    "filterEnv \<Rightarrow> project list \<Rightarrow> filterOptions \<Rightarrow> bool option \<Rightarrow> projectSelector list \<Rightarrow> js_error + filterResult" where
  "filterPkgsBySelectorObjects env pkgs opts linkWorkspacePackages packageSelectors =
     (let (prodSelectors, allSelectors) = partition psFollowProdDepsOnly packageSelectors;
          graphOf = (\<lambda>ignoreDev. fst (createPkgGraph (feGraphEnv env) pkgs
            \<lparr>pgIgnoreDevDeps = ignoreDev, pgLinkWorkspacePackages = linkWorkspacePackages\<rparr>));
          graph = graphOf False
      in if allSelectors = [] \<and> prodSelectors = []
         then Inr \<lparr>allProjectsGraph = graph, selectedProjectsGraph = graph, unmatchedFilters = []\<rparr>
         else sbind (if allSelectors = [] then Inr ([], []) else filterWorkspacePackages env graph opts allSelectors)
             (\<lambda>(allGraph, allUnmatched).
           sbind (if prodSelectors = [] then Inr ([], [])
                  else filterWorkspacePackages env (graphOf True) opts prodSelectors)
             (\<lambda>(prodGraph, prodUnmatched).
             Inr \<lparr>allProjectsGraph = graph, selectedProjectsGraph = spread prodGraph allGraph,
                  unmatchedFilters = prodUnmatched @ allUnmatched\<rparr>)))"

text \<open>\<open>filterPackages\<close>: the selectors as text, each with its flag.\<close>

definition filterPackages ::
    "filterEnv \<Rightarrow> project list \<Rightarrow> filterOptions \<Rightarrow> bool option \<Rightarrow> str \<Rightarrow> (str \<times> bool) list \<Rightarrow> js_error + filterResult" where
  "filterPackages env pkgs opts linkWorkspacePackages dirPrefix filters =
     filterPkgsBySelectorObjects env pkgs opts linkWorkspacePackages
       (map (\<lambda>(f, prodOnly). (parsePackageSelector (envPathJoin env) f dirPrefix)\<lparr>psFollowProdDepsOnly := prodOnly\<rparr>) filters)"

section \<open>What the walks collect\<close>

text \<open>What is below (or, on the reversed edges, above) the entries, with or without the entries.\<close>

definition walkFrom :: "(str \<Rightarrow> str list) \<Rightarrow> bool \<Rightarrow> str set \<Rightarrow> str set" where
  "walkFrom step withEntries es = (if withEntries then reach step es else reach step (\<Union>e \<in> es. set (step e)))"

definition closedUnder :: "(str \<Rightarrow> str list) \<Rightarrow> str set \<Rightarrow> bool" where
  "closedUnder step S \<longleftrightarrow> (\<forall>x \<in> S. set (step x) \<subseteq> S)"

lemma closedUnder_empty [simp]: "closedUnder step {}"
  by (simp add: closedUnder_def)

lemma closedUnder_reach: "closedUnder step (reach step S)"
  by (auto simp: closedUnder_def intro: reach_step)

lemma closedUnder_Un: "closedUnder step A \<Longrightarrow> closedUnder step B \<Longrightarrow> closedUnder step (A \<union> B)"
  by (auto simp: closedUnder_def)

lemma closedUnder_walkFrom: "closedUnder step (walkFrom step b es)"
  by (simp add: walkFrom_def closedUnder_reach)

lemma reach_closed: "closedUnder step S \<Longrightarrow> R \<subseteq> S \<Longrightarrow> reach step R \<subseteq> S"
  unfolding closedUnder_def by (rule reach_least) auto

lemma pickSubgraph_withRoot:
  assumes "closedUnder (dirEdges graph) (set walked)"
  shows "set (pickSubgraph graph ns walked True) = set walked \<union> reach (dirEdges graph) (set ns)"
  by (rule dirWalk.run_complete) (use assms in \<open>auto simp: closedUnder_def\<close>)

lemma pickSubgraph_withoutRoot:
  "closedUnder (dirEdges graph) (set walked) \<Longrightarrow>
   set (pickSubgraph graph ns walked False) =
     set walked \<union> reach (dirEdges graph) (\<Union>n \<in> set ns. set (dirEdges graph n))"
proof (induction ns arbitrary: walked)
  case (Cons n ns)
  let ?step = "dirEdges graph"
  show ?case
  proof (cases "n \<in> set walked")
    case True
    then have "set (?step n) \<subseteq> set walked" using Cons.prems by (auto simp: closedUnder_def)
    then have "reach ?step (set (?step n)) \<subseteq> set walked" by (rule reach_closed [OF Cons.prems])
    then show ?thesis using Cons True by (auto simp: reach_Un)
  next
    case False
    let ?w = "case map_of graph n of None \<Rightarrow> walked | Some deps \<Rightarrow> pickSubgraph graph deps walked True"
    have w: "set ?w = set walked \<union> reach ?step (set (?step n))"
      using pickSubgraph_withRoot [OF Cons.prems] by (cases "map_of graph n") (simp_all add: dirEdges_def)
    then have "closedUnder ?step (set ?w)" using Cons.prems by (simp add: closedUnder_Un closedUnder_reach)
    from Cons.IH [OF this] show ?thesis using False by (simp add: w reach_Un Un_assoc)
  qed
qed simp

lemma pickSubgraph_walkFrom:
  assumes "closedUnder (dirEdges graph) (set walked)"
  shows "set (pickSubgraph graph ns walked b) = set walked \<union> walkFrom (dirEdges graph) b (set ns)"
  using pickSubgraph_withRoot [OF assms] pickSubgraph_withoutRoot [OF assms]
  by (cases b) (simp_all add: walkFrom_def)

text \<open>The reversed graph has the reversed edges.\<close>

lemma addReversed_edges:
  "set (dirEdges (addReversed d x g) n) = set (dirEdges g n) \<union> (if n = x then {d} else {})"
  by (auto simp: addReversed_def dirEdges_def alist.get_put split: option.splits if_splits)

lemma fold_addReversed:
  "set (dirEdges (fold (addReversed d) deps g) n) = set (dirEdges g n) \<union> (if n \<in> set deps then {d} else {})"
  by (induction deps arbitrary: g) (auto simp: addReversed_edges)

lemma reverseGraph_edges: "set (dirEdges (reverseGraph graph) n) = {d. \<exists>deps. (d, deps) \<in> set graph \<and> n \<in> set deps}"
proof -
  have "set (dirEdges (fold (\<lambda>(d, deps). fold (addReversed d) deps) graph g) n) =
      set (dirEdges g n) \<union> {d. \<exists>deps. (d, deps) \<in> set graph \<and> n \<in> set deps}" for g
    by (induction graph arbitrary: g) (auto simp: fold_addReversed split: if_splits)
  then show ?thesis by (simp add: reverseGraph_def dirEdges_def)
qed

section \<open>What the selectors select\<close>

text \<open>The projects that a sequence of selectors with their entries selects. \<open>D\<close> holds the dependents walked
  so far: a selector with both directions adds the dependencies of all of them.\<close>

type_synonym selectorCall = "projectSelector \<times> str list"

definition above :: "dirGraph \<Rightarrow> selectorCall \<Rightarrow> str set" where
  "above graph c = (case c of (s, es) \<Rightarrow>
     if psIncludeDependents s then walkFrom (dirEdges (reverseGraph graph)) (\<not> psExcludeSelf s) (set es) else {})"

definition below :: "dirGraph \<Rightarrow> selectorCall \<Rightarrow> str set" where
  "below graph c = (case c of (s, es) \<Rightarrow>
     if psIncludeDependencies s then walkFrom (dirEdges graph) (\<not> psExcludeSelf s) (set es) else {})"

definition alone :: "selectorCall \<Rightarrow> str set" where
  "alone c = (case c of (s, es) \<Rightarrow>
     if \<not> psIncludeDependencies s \<and> \<not> psIncludeDependents s then set es else {})"

fun selection :: "dirGraph \<Rightarrow> str set \<Rightarrow> selectorCall list \<Rightarrow> str set" where
  "selection graph D [] = {}"
| "selection graph D (c # cs) =
     (let D' = D \<union> above graph c in
      below graph c \<union> above graph c \<union> alone c \<union>
      (if psIncludeDependencies (fst c) \<and> psIncludeDependents (fst c)
       then walkFrom (dirEdges graph) False D' else {}) \<union>
      selection graph D' cs)"

definition stateSet :: "selectionState \<Rightarrow> str set" where
  "stateSet st = set (walkedDependencies st) \<union> set (walkedDependents st) \<union>
     set (walkedDependentsDependencies st) \<union> set (cherryPicked st)"

definition stateClosed :: "dirGraph \<Rightarrow> selectionState \<Rightarrow> bool" where
  "stateClosed graph st \<longleftrightarrow> closedUnder (dirEdges graph) (set (walkedDependencies st)) \<and>
     closedUnder (dirEdges (reverseGraph graph)) (set (walkedDependents st)) \<and>
     closedUnder (dirEdges graph) (set (walkedDependentsDependencies st))"

lemma set_selectedOf: "set (selectedOf st) = stateSet st"
  by (auto simp: selectedOf_def stateSet_def)

lemma selectEntries_step:
  assumes "stateClosed graph st" and st'_def: "st' = selectEntries graph s es st"
    and D'_def: "D' = set (walkedDependents st) \<union> above graph (s, es)"
  shows "stateClosed graph st' \<and> set (walkedDependents st') = D' \<and>
    stateSet st' = stateSet st \<union> below graph (s, es) \<union> above graph (s, es) \<union> alone (s, es) \<union>
      (if psIncludeDependencies s \<and> psIncludeDependents s then walkFrom (dirEdges graph) False D' else {})"
proof -
  note c = assms(1) [unfolded stateClosed_def]
  note walks = pickSubgraph_walkFrom [OF conjunct1 [OF c]]
    pickSubgraph_walkFrom [OF conjunct1 [OF conjunct2 [OF c]]]
    pickSubgraph_walkFrom [OF conjunct2 [OF conjunct2 [OF c]]]
  have "set (walkedDependencies st') = set (walkedDependencies st) \<union> below graph (s, es)"
    by (simp add: st'_def selectEntries_def Let_def below_def walks)
  moreover have d: "set (walkedDependents st') = D'"
    by (simp add: st'_def D'_def selectEntries_def Let_def above_def walks)
  moreover have "set (walkedDependentsDependencies st') = set (walkedDependentsDependencies st) \<union>
      (if psIncludeDependencies s \<and> psIncludeDependents s then walkFrom (dirEdges graph) False D' else {})"
    by (simp add: st'_def D'_def selectEntries_def Let_def above_def walks)
  moreover have "set (cherryPicked st') = set (cherryPicked st) \<union> alone (s, es)"
    by (simp add: st'_def selectEntries_def Let_def alone_def)
  moreover have "closedUnder (dirEdges graph) (below graph (s, es))"
      "closedUnder (dirEdges (reverseGraph graph)) (above graph (s, es))"
    by (simp_all add: below_def above_def closedUnder_walkFrom)
  ultimately show ?thesis
    using c by (auto simp: stateClosed_def stateSet_def D'_def closedUnder_Un closedUnder_walkFrom)
qed

lemma selectEntries_fold:
  "stateClosed graph st \<Longrightarrow>
   stateSet (fold (\<lambda>(s, es). selectEntries graph s es) cs st) =
     stateSet st \<union> selection graph (set (walkedDependents st)) cs"
proof (induction cs arbitrary: st)
  case (Cons c cs)
  obtain s es where c: "c = (s, es)" by fastforce
  note k = selectEntries_step [OF Cons.prems refl refl, of s es]
  with Cons.IH [OF conjunct1 [OF k]] show ?case by (simp add: c Let_def Un_ac)
qed simp

section \<open>The selected projects\<close>

text \<open>What a selector asks for, once its entries are known: with a \<open>diff\<close>, first the projects whose tests
  changed, without their dependents.\<close>

type_synonym entries = "str list \<times> str list"

definition selectorCalls :: "projectSelector \<Rightarrow> entries \<Rightarrow> selectorCall list" where
  "selectorCalls s r =
     (if truthy (psDiff s) then [(s\<lparr>psIncludeDependents := False\<rparr>, fst r)] else []) @ [(s, snd r)]"

definition selectorAnswers :: "filterEnv \<Rightarrow> packageGraph \<Rightarrow> filterOptions \<Rightarrow> projectSelector \<Rightarrow> entries \<Rightarrow> bool" where
  "selectorAnswers env g opts s r \<longleftrightarrow> selectorEntries env g opts s = Inr (fst r, Some (snd r))"

definition callsOf :: "projectSelector list \<Rightarrow> entries list \<Rightarrow> selectorCall list" where
  "callsOf ss rs = concat (map2 selectorCalls ss rs)"

definition unmatchedAll :: "projectSelector list \<Rightarrow> entries list \<Rightarrow> str list" where
  "unmatchedAll ss rs = concat (map2 (\<lambda>s r. unmatchedOf s (snd r)) ss rs)"

lemma applySelector_Inr:
  "applySelector env g opts s acc = Inr acc' \<longleftrightarrow>
     (\<exists>r. selectorAnswers env g opts s r \<and>
       acc' = (fold (\<lambda>(s, es). selectEntries (pkgGraphToGraph g) s es) (selectorCalls s r) (fst acc),
               snd acc @ unmatchedOf s (snd r)))"
proof -
  consider (error) e where "selectorEntries env g opts s = Inl e"
    | (nothing) t where "selectorEntries env g opts s = Inr (t, None)"
    | (entries) t es where "selectorEntries env g opts s = Inr (t, Some es)"
    by (metis obj_sumE option.exhaust surj_pair)
  then show ?thesis
    by cases (auto simp: applySelector_def selectorAnswers_def selectorCalls_def Let_def)
qed

lemma sfold_applySelector:
  "sfold (applySelector env g opts) ss acc = Inr acc' \<Longrightarrow>
   \<exists>rs. list_all2 (selectorAnswers env g opts) ss rs \<and>
     acc' = (fold (\<lambda>(s, es). selectEntries (pkgGraphToGraph g) s es) (callsOf ss rs) (fst acc),
             snd acc @ unmatchedAll ss rs)"
proof (induction ss arbitrary: acc)
  case Nil
  then show ?case by (auto simp: callsOf_def unmatchedAll_def)
next
  case (Cons s ss)
  then obtain r acc1 where r: "selectorAnswers env g opts s r"
    and acc1: "acc1 = (fold (\<lambda>(s, es). selectEntries (pkgGraphToGraph g) s es) (selectorCalls s r) (fst acc),
               snd acc @ unmatchedOf s (snd r))"
    and rest: "sfold (applySelector env g opts) ss acc1 = Inr acc'"
    by (auto simp: sbind_Inr_iff applySelector_Inr)
  from Cons.IH [OF rest] obtain rs where "list_all2 (selectorAnswers env g opts) ss rs"
    "acc' = (fold (\<lambda>(s, es). selectEntries (pkgGraphToGraph g) s es) (callsOf ss rs) (fst acc1),
             snd acc1 @ unmatchedAll ss rs)" by blast
  with r show ?case by (intro exI [of _ "r # rs"]) (simp add: acc1 callsOf_def unmatchedAll_def)
qed

lemma filterWorkspacePackages_Inr:
  assumes "filterWorkspacePackages env g opts ss = Inr (selected, unmatched)"
  obtains included excluded u1 u2 where
    "(if [s \<leftarrow> ss. \<not> psExclude s] = [] then Inr (keys g, [])
      else filterGraph env g opts [s \<leftarrow> ss. \<not> psExclude s]) = Inr (included, u1)"
    "filterGraph env g opts [s \<leftarrow> ss. psExclude s] = Inr (excluded, u2)"
    "selected = pickKeys (listDifference included excluded) g" "unmatched = u1 @ u2"
proof -
  let ?i = "if [s \<leftarrow> ss. \<not> psExclude s] = [] then Inr (keys g, [])
      else filterGraph env g opts [s \<leftarrow> ss. \<not> psExclude s]"
  have "sbind ?i (\<lambda>(included, u1). sbind (filterGraph env g opts [s \<leftarrow> ss. psExclude s]) (\<lambda>(excluded, u2).
      Inr (pickKeys (listDifference included excluded) g, u1 @ u2))) = Inr (selected, unmatched)"
    using assms unfolding filterWorkspacePackages_def partition_filter_conv Let_def prod.case o_def .
  then obtain included u1 where i: "?i = Inr (included, u1)" and
    "sbind (filterGraph env g opts [s \<leftarrow> ss. psExclude s]) (\<lambda>(excluded, u2).
      Inr (pickKeys (listDifference included excluded) g, u1 @ u2)) = Inr (selected, unmatched)"
    unfolding sbind_Inr_iff [of ?i] split_paired_Ex prod.case by blast
  then show ?thesis
    using that [OF i] unfolding sbind_Inr_iff split_paired_Ex prod.case by blast
qed

lemma filterGraph_selection:
  assumes "filterGraph env g opts ss = Inr (selected, unmatched)"
  shows "\<exists>rs. list_all2 (selectorAnswers env g opts) ss rs \<and>
    set selected = selection (pkgGraphToGraph g) {} (callsOf ss rs) \<and> unmatched = unmatchedAll ss rs"
proof -
  obtain st where st: "sfold (applySelector env g opts) ss (emptySelection, []) = Inr (st, unmatched)"
    and sel: "selected = selectedOf st"
    using assms by (auto simp: filterGraph_def sbind_Inr_iff)
  from sfold_applySelector [OF st] obtain rs where rs: "list_all2 (selectorAnswers env g opts) ss rs"
    and st: "st = fold (\<lambda>(s, es). selectEntries (pkgGraphToGraph g) s es) (callsOf ss rs) emptySelection"
    and un: "unmatched = unmatchedAll ss rs" by auto
  have "stateClosed (pkgGraphToGraph g) emptySelection" by (simp add: stateClosed_def emptySelection_def)
  from selectEntries_fold [OF this, of "callsOf ss rs"] rs un show ?thesis
    by (auto simp: sel st set_selectedOf stateSet_def emptySelection_def)
qed

lemma map_of_pickKeys: "map_of (pickKeys ns g) d = (if d \<in> set ns then map_of g d else None)"
proof -
  have "map_of (fold (\<lambda>n m. case map_of g n of None \<Rightarrow> m | Some v \<Rightarrow> jset n v m) ns m) d =
      (if d \<in> set ns \<and> map_of g d \<noteq> None then map_of g d else map_of m d)" for m
    by (induction ns arbitrary: m) (auto simp: alist.get_put split: option.splits)
  then show ?thesis by (simp add: pickKeys_def)
qed

lemma set_listDifference: "set (listDifference xs ys) = set xs - set ys"
  by (auto simp: listDifference_def)

lemma filter_combine:
  assumes "(if ins = [] then Inr (keys g, []) else filterGraph env g opts ins) = Inr (included, u1)"
    "filterGraph env g opts exs = Inr (excluded, u2)"
  shows "\<exists>inc exc. list_all2 (selectorAnswers env g opts) ins inc \<and> list_all2 (selectorAnswers env g opts) exs exc \<and>
    map_of (pickKeys (listDifference included excluded) g) = (\<lambda>d.
      if (inc = [] \<or> d \<in> selection (pkgGraphToGraph g) {} (callsOf ins inc)) \<and>
         d \<notin> selection (pkgGraphToGraph g) {} (callsOf exs exc)
      then map_of g d else None) \<and>
    u1 @ u2 = unmatchedAll ins inc @ unmatchedAll exs exc"
proof -
  let ?G = "pkgGraphToGraph g"
  obtain ers where e: "list_all2 (selectorAnswers env g opts) exs ers" "set excluded = selection ?G {} (callsOf exs ers)"
    "u2 = unmatchedAll exs ers" using filterGraph_selection [OF assms(2)] by blast
  have m: "map_of (pickKeys (listDifference included excluded) g) =
      (\<lambda>d. if d \<in> set included \<and> d \<notin> set excluded then map_of g d else None)"
    by (simp add: map_of_pickKeys set_listDifference fun_eq_iff)
  show ?thesis
  proof (cases "ins = []")
    case True
    then have "included = keys g" "u1 = []" using assms(1) by simp_all
    moreover have "(\<lambda>d. if d \<in> set (keys g) \<and> d \<notin> X then map_of g d else None) =
        (\<lambda>d. if d \<notin> X then map_of g d else None)" for X
      by (simp add: fun_eq_iff in_keys_iff del: set_map)
    ultimately show ?thesis
      unfolding m e(2) using True e(1,3) by (intro exI [of _ "[]"] exI [of _ ers]) (simp add: unmatchedAll_def)
  next
    case False
    then obtain irs where i: "list_all2 (selectorAnswers env g opts) ins irs"
      "set included = selection ?G {} (callsOf ins irs)" "u1 = unmatchedAll ins irs"
      using filterGraph_selection [of env g opts ins] assms(1) by auto
    have "irs \<noteq> []" using False i(1) by auto
    then show ?thesis
      unfolding m e(2) i(2) using i(1,3) e(1,3) by (intro exI [of _ irs] exI [of _ ers]) simp
  qed
qed

text \<open>C22. When no selector fails, the filter selects exactly the projects that the including selectors ask for
  (all projects when there is none) and that no excluding selector asks for, each with its node of the graph. A
  selector asks for its entries; with the suffix for dependencies, for everything they reach along the
  edges, with the prefix for dependents, for everything that reaches them, with both also for what the dependents
  met so far depend on; the entries themselves are left out when \<open>^\<close> excludes them. The selectors without entries
  are reported.\<close>

theorem filterWorkspacePackages_selection:
  assumes "filterWorkspacePackages env g opts ss = Inr (selected, unmatched)"
  shows "\<exists>inc exc. list_all2 (selectorAnswers env g opts) [s \<leftarrow> ss. \<not> psExclude s] inc \<and>
    list_all2 (selectorAnswers env g opts) [s \<leftarrow> ss. psExclude s] exc \<and>
    map_of selected = (\<lambda>d.
      if (inc = [] \<or> d \<in> selection (pkgGraphToGraph g) {} (callsOf [s \<leftarrow> ss. \<not> psExclude s] inc)) \<and>
         d \<notin> selection (pkgGraphToGraph g) {} (callsOf [s \<leftarrow> ss. psExclude s] exc)
      then map_of g d else None) \<and>
    unmatched = unmatchedAll [s \<leftarrow> ss. \<not> psExclude s] inc @ unmatchedAll [s \<leftarrow> ss. psExclude s] exc"
proof -
  obtain included excluded u1 u2 where
    inc: "(if [s \<leftarrow> ss. \<not> psExclude s] = [] then Inr (keys g, [])
      else filterGraph env g opts [s \<leftarrow> ss. \<not> psExclude s]) = Inr (included, u1)"
    and exc: "filterGraph env g opts [s \<leftarrow> ss. psExclude s] = Inr (excluded, u2)"
    and sel: "selected = pickKeys (listDifference included excluded) g" "unmatched = u1 @ u2"
    by (rule filterWorkspacePackages_Inr [OF assms])
  show ?thesis unfolding sel by (rule filter_combine [OF inc exc])
qed

definition exampleProject :: "str \<Rightarrow> str list \<Rightarrow> str \<times> pkgNode" where
  "exampleProject n ds = (''/w/'' @ n, \<lparr>nodeDependencies = ds,
     nodePackage = \<lparr>prjRootDir = ''/w/'' @ n, prjManifest = emptyManifest\<lparr>mName := Some n\<rparr>\<rparr>\<rparr>)"

definition exampleGraph :: packageGraph where
  "exampleGraph = [exampleProject ''a'' [''/w/b''], exampleProject ''b'' [''/w/c''], exampleProject ''c'' []]"

definition exampleFilterEnv :: filterEnv where
  "exampleFilterEnv = changesEnv.extend exampleEnv \<lparr>feIsSubdir = startsWith, feGlobMatch = (\<lambda>d p. d = p),
     feGraphEnv = \<lparr>pgResolve = (\<lambda>_ _ _. None), pgPathResolve = (\<lambda>a b. b), pgAbsolute = id,
       pgPathRelative = (\<lambda>a b. b), pgMaxSatisfying = (\<lambda>_ _ _ _. None), pgSelectorType = (\<lambda>_. None),
       pgParseTarballUrl = (\<lambda>_. None)\<rparr>\<rparr>"

definition exampleFilterOptions :: filterOptions where
  "exampleFilterOptions = \<lparr>foWorkspaceDir = ''/w'', foTestPattern = None, foChangedFilesIgnorePattern = None,
     foUseGlobDirFiltering = False\<rparr>"

lemma example_filter:
  "filterWorkspacePackages exampleFilterEnv exampleGraph exampleFilterOptions
     [parsePackageSelector (\<lambda>a b. a @ ''/'' @ b) ''...b'' ''/w'', parsePackageSelector (\<lambda>a b. a @ ''/'' @ b) ''!b'' ''/w''] =
   Inr ([exampleProject ''a'' [''/w/b'']], [])"
  by code_simp

theorem filterWorkspacePackages_selection_witness:
  "\<exists>inc. list_all2 (selectorAnswers exampleFilterEnv exampleGraph exampleFilterOptions)
     [parsePackageSelector (\<lambda>a b. a @ ''/'' @ b) ''...b'' ''/w''] inc \<and>
     ''/w/a'' \<in> selection (pkgGraphToGraph exampleGraph) {}
       (callsOf [parsePackageSelector (\<lambda>a b. a @ ''/'' @ b) ''...b'' ''/w''] inc)"
proof -
  let ?s = "parsePackageSelector (\<lambda>a b. a @ ''/'' @ b)"
  let ?ss = "[?s ''...b'' ''/w'', ?s ''!b'' ''/w'']" and ?a = "exampleProject ''a'' [''/w/b'']"
  have p: "[s \<leftarrow> ?ss. \<not> psExclude s] = [?s ''...b'' ''/w'']" by code_simp
  obtain inc exc where
    i: "list_all2 (selectorAnswers exampleFilterEnv exampleGraph exampleFilterOptions) [s \<leftarrow> ?ss. \<not> psExclude s] inc"
    and m: "map_of [?a] = (\<lambda>d.
      if (inc = [] \<or> d \<in> selection (pkgGraphToGraph exampleGraph) {} (callsOf [s \<leftarrow> ?ss. \<not> psExclude s] inc)) \<and>
         d \<notin> selection (pkgGraphToGraph exampleGraph) {} (callsOf [s \<leftarrow> ?ss. psExclude s] exc)
      then map_of exampleGraph d else None)"
    using filterWorkspacePackages_selection [OF example_filter] by blast
  have "map_of [?a] ''/w/a'' \<noteq> None" by (simp add: exampleProject_def)
  then have "inc = [] \<or> ''/w/a'' \<in> selection (pkgGraphToGraph exampleGraph) {} (callsOf [s \<leftarrow> ?ss. \<not> psExclude s] inc)"
    unfolding m by (simp only: split: if_splits) simp_all
  then show ?thesis using i unfolding p by (intro exI [of _ inc]) auto
qed

section \<open>The syntax of selectors\<close>

definition inBrackets :: "char \<Rightarrow> char \<Rightarrow> str option \<Rightarrow> str" where
  "inBrackets a b s = (case s of None \<Rightarrow> [] | Some t \<Rightarrow> a # t @ [b])"

definition markBefore :: "bool \<Rightarrow> bool \<Rightarrow> str" where
  "markBefore on self = (if on then ''...'' @ (if self then ''^'' else []) else [])"

definition markAfter :: "bool \<Rightarrow> bool \<Rightarrow> str" where
  "markAfter on self = (if on then (if self then ''^'' else []) @ ''...'' else [])"

text \<open>A selector as it is written: \<open>!...^name{dir}[diff]^...\<close>.\<close>

definition selectorText :: "projectSelector \<Rightarrow> str" where
  "selectorText s = (if psExclude s then ''!'' else []) @ markBefore (psIncludeDependents s) (psExcludeSelf s) @
     orEmpty (psNamePattern s) @ inBrackets CHR ''{'' CHR ''}'' (psParentDir s) @
     inBrackets CHR ''['' CHR '']'' (psDiff s) @ markAfter (psIncludeDependencies s) (psExcludeSelf s)"

text \<open>A name pattern that has no brackets and neither begins nor ends with one of the marks.\<close>

definition plainPattern :: "str \<Rightarrow> bool" where
  "plainPattern n \<longleftrightarrow> n \<noteq> [] \<and> hd n \<notin> set ''!.^'' \<and> last n \<notin> set ''.^'' \<and> list_all plainSelectorChar n"

definition bracketable :: "char \<Rightarrow> str option \<Rightarrow> bool" where
  "bracketable b s \<longleftrightarrow> (case s of None \<Rightarrow> True | Some t \<Rightarrow> t \<noteq> [] \<and> b \<notin> set t)"

lemma optionalGroup_text:
  assumes "bracketable b s" "r = [] \<or> hd r \<noteq> a"
  shows "optionalGroup a b (inBrackets a b s @ r) = (s, r)"
proof (cases s)
  case None
  then show ?thesis
    using assms(2) by (cases r) (simp_all add: optionalGroup_def inBrackets_def bracketed_def Let_def)
next
  case (Some t)
  then have "t \<noteq> []" "b \<notin> set t" using assms(1) by (simp_all add: bracketable_def)
  then show ?thesis
    by (simp add: Some optionalGroup_def inBrackets_def bracketed_def Let_def takeWhile_append_notin)
qed

lemma matchGroups_text:
  assumes "bracketable CHR ''}'' dir" "bracketable CHR '']'' diff"
  shows "matchGroups (inBrackets CHR ''{'' CHR ''}'' dir @ inBrackets CHR ''['' CHR '']'' diff) = Some (dir, diff)"
proof -
  let ?d = "inBrackets CHR ''['' CHR '']'' diff"
  have "?d = [] \<or> hd ?d \<noteq> CHR ''{''" by (simp add: inBrackets_def split: option.split)
  from optionalGroup_text [OF assms(1) this] optionalGroup_text [OF assms(2), of "[]"]
  show ?thesis by (simp add: matchGroups_def)
qed

lemma matchSelector_text:
  assumes "plainPattern n" "bracketable CHR ''}'' dir" "bracketable CHR '']'' diff"
  shows "matchSelector (n @ inBrackets CHR ''{'' CHR ''}'' dir @ inBrackets CHR ''['' CHR '']'' diff) =
    Some (Some n, dir, diff)"
proof -
  let ?g = "inBrackets CHR ''{'' CHR ''}'' dir @ inBrackets CHR ''['' CHR '']'' diff"
  obtain c r where n: "n = c # r" and c: "c \<noteq> CHR ''.''" and r: "list_all plainSelectorChar r"
    using assms(1) by (cases n) (auto simp: plainPattern_def)
  have "?g = [] \<or> \<not> plainSelectorChar (hd ?g)"
    by (simp add: inBrackets_def plainSelectorChar_def split: option.split)
  then have "takeWhile plainSelectorChar (r @ ?g) = r" "dropWhile plainSelectorChar (r @ ?g) = ?g"
    using r by (cases ?g; simp add: list_all_iff takeWhile_append2 dropWhile_append2)+
  then show ?thesis using c matchGroups_text [OF assms(2,3)] by (simp add: n matchSelector_def)
qed

lemma stripDependencies_text:
  assumes "s \<noteq> []" "last s \<notin> set ''.^''"
  shows "stripDependencies (s @ markAfter on self) = (on, on \<and> self, s)"
proof -
  have "\<not> endsWith s ''...''" using assms by (auto simp: endsWith_iff)
  moreover have "\<not> endsWith s ''^''" using assms by (auto simp: endsWith_single)
  moreover have "endsWith (s @ t) t" for t by (auto simp: endsWith_iff)
  moreover have "endsWith (s @ ''^...'') ''...''" by (simp add: endsWith_def)
  moreover have "endsWith (s @ ''^'') ''^''" by (simp add: endsWith_single)
  ultimately show ?thesis by (simp add: stripDependencies_def markAfter_def butlast_append)
qed

lemma stripDependents_text:
  assumes "s \<noteq> []" "hd s \<notin> set ''.^''"
  shows "stripDependents (markBefore on self @ s) = (on, on \<and> self, s)"
  using assms by (cases s) (simp_all add: stripDependents_def markBefore_def)



end
