(* ===== verification/JsSort.thy ===== *)
theory JsSort
  imports Prelude
begin

text \<open>
  \<open>Array.prototype.sort\<close>: the stable sort by a comparison function, which gives a number that is negative
  when its first argument goes first and zero when the order is left as it was. For a comparison that orders
  consistently, which is what the locale asks for, the language fixes the result; it is computed by insertion.
\<close>

fun sortInsert :: "('a \<Rightarrow> 'a \<Rightarrow> int) \<Rightarrow> 'a \<Rightarrow> 'a list \<Rightarrow> 'a list" where
  "sortInsert cmp x [] = [x]"
| "sortInsert cmp x (y # ys) = (if cmp x y \<le> 0 then x # y # ys else y # sortInsert cmp x ys)"

definition jsSort :: "('a \<Rightarrow> 'a \<Rightarrow> int) \<Rightarrow> 'a list \<Rightarrow> 'a list" where
  "jsSort cmp xs = foldr (sortInsert cmp) xs []"

lemma mset_sortInsert: "mset (sortInsert cmp x xs) = add_mset x (mset xs)"
  by (induction xs) auto

lemma mset_jsSort [simp]: "mset (jsSort cmp xs) = mset xs"
  by (induction xs) (simp_all add: jsSort_def mset_sortInsert)

lemma set_jsSort [simp]: "set (jsSort cmp xs) = set xs"
  by (metis mset_jsSort set_mset_mset)

lemma length_jsSort [simp]: "length (jsSort cmp xs) = length xs"
  by (metis mset_jsSort size_mset)

lemma distinct_jsSort [simp]: "distinct (jsSort cmp xs) = distinct xs"
  by (rule mset_eq_imp_distinct_iff) simp

lemma jsSort_Nil [simp]: "jsSort cmp [] = []" "jsSort cmp xs = [] \<longleftrightarrow> xs = []"
  by (simp add: jsSort_def) (metis length_0_conv length_jsSort)

text \<open>A comparison function that orders consistently.\<close>

locale js_comparison =
  fixes cmp :: "'a \<Rightarrow> 'a \<Rightarrow> int"
  assumes total: "cmp x y \<le> 0 \<or> cmp y x \<le> 0"
    and trans: "cmp x y \<le> 0 \<Longrightarrow> cmp y z \<le> 0 \<Longrightarrow> cmp x z \<le> 0"
begin

lemma refl: "cmp x x \<le> 0"
  using total by blast

lemma sorted_sortInsert:
  "sorted_wrt (\<lambda>a b. cmp a b \<le> 0) xs \<Longrightarrow> sorted_wrt (\<lambda>a b. cmp a b \<le> 0) (sortInsert cmp x xs)"
proof (induction xs)
  case (Cons y ys)
  have s: "set (sortInsert cmp x ys) = insert x (set ys)" by (metis mset_sortInsert set_mset_add_mset_insert set_mset_mset)
  show ?case
  proof (cases "cmp x y \<le> 0")
    case True
    then show ?thesis using Cons.prems by (auto intro: trans)
  next
    case False
    then have "cmp y x \<le> 0" using total by blast
    then show ?thesis using Cons False by (simp add: s)
  qed
qed simp

lemma sorted_jsSort: "sorted_wrt (\<lambda>a b. cmp a b \<le> 0) (jsSort cmp xs)"
  by (induction xs) (simp_all add: jsSort_def sorted_sortInsert)

end

text \<open>Comparing by a number.\<close>

interpretation byNumber: js_comparison "\<lambda>x y. int (f x) - int (f y)" for f :: "'a \<Rightarrow> nat"
  by unfold_locales auto

text \<open>Comparing by one function, and by another where the first does not decide.\<close>

definition thenBy :: "('a \<Rightarrow> 'a \<Rightarrow> int) \<Rightarrow> ('a \<Rightarrow> 'a \<Rightarrow> int) \<Rightarrow> 'a \<Rightarrow> 'a \<Rightarrow> int" where
  "thenBy c d x y = (if c x y = 0 then d x y else c x y)"

lemma js_comparison_number_thenBy:
  assumes "js_comparison cmp"
  shows "js_comparison (thenBy (\<lambda>x y. f x - f y) (\<lambda>x y. cmp (g x) (g y)))"
proof -
  note laws = js_comparison.total [OF assms] js_comparison.trans [OF assms]
  show ?thesis by unfold_locales (use laws in \<open>auto simp: thenBy_def split: if_splits\<close>)
qed

end
