(* ===== verification/Hoist.thy ===== *)
theory Hoist
  imports LockfileFiltering LockfileUtils Matcher JsSort
begin

text \<open>
  pkg-manager/hoist/src/index.ts: which dependencies are linked into the hoisted modules directories, and the
  links. The comparison of strings (\<open>lexCompare\<close>), the joining of paths and the file system are parameters. The
  code waits for all links at once; each has a destination of its own, and the model makes them one after
  another. Linking of bins is not modelled.
\<close>

section \<open>The dependencies in the order of the walk\<close>

datatype hoistType = PrivateHoist | PublicHoist

record hoistDependency =
  hdChildren :: "str obj"
  hdDepPath :: str
  hdDepth :: int

text \<open>A child whose reference has no dependency path (a link) has the value \<open>null\<close>, which is only used as a
  key and then reads \<open>'null'\<close>.\<close>

definition propertyKey :: "str option \<Rightarrow> str" where
  "propertyKey p = (case p of None \<Rightarrow> ''null'' | Some s \<Rightarrow> s)"

definition snapshotChildren :: "packageSnapshot \<Rightarrow> str obj" where
  "snapshotChildren p =
     map (\<lambda>(alias, ref). (alias, propertyKey (refToRelative ref alias)))
       (spread (orEmpty (dependencies p)) (orEmpty (optionalDependencies p)))"

definition dependencyOf :: "int \<Rightarrow> lockedDependency \<Rightarrow> hoistDependency" where
  "dependencyOf depth d =
     \<lparr>hdChildren = snapshotChildren (ldSnapshot d), hdDepPath = ldDepPath d, hdDepth = depth\<rparr>"

text \<open>The calls of \<open>next\<close> for the packages of one step, in order.\<close>

fun nextSteps :: "packageSnapshots \<Rightarrow> lockedDependency list \<Rightarrow> depPath list \<Rightarrow> walkerStep list \<times> depPath list" where
  "nextSteps pkgs [] walked = ([], walked)"
| "nextSteps pkgs (d # ds) walked =
     (let (st, walked1) = nextStep pkgs True d walked;
          (sts, walked2) = nextSteps pkgs ds walked1
      in (st # sts, walked2))"

text \<open>\<open>getDependencies\<close> for a list of steps of one depth: \<open>flatMap\<close> takes them one after another, and all
  share the marks of the walker.\<close>

function getDependencies ::
    "packageSnapshots \<Rightarrow> int \<Rightarrow> walkerStep list \<Rightarrow> depPath list \<Rightarrow> hoistDependency list \<times> depPath list" where
  "getDependencies pkgs depth [] walked = ([], walked)"
| "getDependencies pkgs depth (st # sts) walked =
     (let (nexts, walked1) = nextSteps pkgs (stepDependencies st) walked;
          (below, walked2) = getDependencies pkgs (depth + 1) nexts walked1;
          (rest, walked3) = getDependencies pkgs depth sts walked2
      in (map (dependencyOf depth) (stepDependencies st) @ below @ rest, walked3))"
  by pat_completeness auto

definition pendingDeps :: "walkerStep list \<Rightarrow> nat" where
  "pendingDeps sts = length (concat (map stepDependencies sts))"

lemma nextStep_spec:
  "nextStep pkgs True d walked =
     (let f = freshPaths (nextDepPaths True (ldSnapshot d)) walked in (stepSpec pkgs f, walked @ f))"
  by (simp add: nextStep_def walkStep_spec Let_def)

lemma length_stepSpec:
  "length (stepDependencies (stepSpec pkgs ns)) = length (filter (\<lambda>n. map_of pkgs n \<noteq> None) ns)"
  by (metis length_map stepDependencies_spec)

text \<open>What is marked for the first time leaves the universe by as many packages as the steps hold.\<close>

lemma unseen_append:
  assumes "finite A" "distinct f" "set f \<inter> set w = {}"
  shows "card (A - set (w @ f)) + card (A \<inter> set f) = card (A - set w)"
proof -
  have "A - set w = (A - set (w @ f)) \<union> (A \<inter> set f)" using assms(3) by auto
  moreover have "(A - set (w @ f)) \<inter> (A \<inter> set f) = {}" by auto
  ultimately show ?thesis using card_Un_disjoint assms(1) by (metis finite_Diff finite_Int)
qed

lemma nextSteps_pending:
  "nextSteps pkgs ds walked = (sts, walked') \<Longrightarrow>
     set walked \<subseteq> set walked' \<and>
     card (set (keys pkgs) - set walked') + pendingDeps sts = card (set (keys pkgs) - set walked) \<and>
     length sts = length ds"
proof (induction pkgs ds walked arbitrary: sts walked' rule: nextSteps.induct)
  case (1 pkgs walked)
  then show ?case by (simp add: pendingDeps_def)
next
  case (2 pkgs d ds walked)
  let ?f = "freshPaths (nextDepPaths True (ldSnapshot d)) walked"
  have n: "nextStep pkgs True d walked = (stepSpec pkgs ?f, walked @ ?f)" by (simp add: nextStep_spec Let_def)
  obtain sts1 w1 where r: "nextSteps pkgs ds (walked @ ?f) = (sts1, w1)" by fastforce
  have s: "sts = stepSpec pkgs ?f # sts1" "walked' = w1" using 2(2) n r by simp_all
  have "length (filter (\<lambda>n. map_of pkgs n \<noteq> None) ?f) = card (set (filter (\<lambda>n. map_of pkgs n \<noteq> None) ?f))"
    by (rule distinct_card [symmetric]) (simp add: distinct_freshPaths)
  also have "set (filter (\<lambda>n. map_of pkgs n \<noteq> None) ?f) = set (keys pkgs) \<inter> set ?f"
    by (auto simp: in_keys_iff simp del: set_map)
  finally have "length (stepDependencies (stepSpec pkgs ?f)) = card (set (keys pkgs) \<inter> set ?f)"
    by (simp add: length_stepSpec)
  moreover have "card (set (keys pkgs) - set (walked @ ?f)) + card (set (keys pkgs) \<inter> set ?f) =
      card (set (keys pkgs) - set walked)"
    by (rule unseen_append) (auto simp: distinct_freshPaths set_freshPaths)
  ultimately show ?case
    using 2(1) [OF n [symmetric] refl r] by (auto simp: s pendingDeps_def)
qed

lemma getDependencies_mono_dom:
  "getDependencies_dom (pkgs, depth, sts, walked) \<Longrightarrow>
   set walked \<subseteq> set (snd (getDependencies pkgs depth sts walked))"
proof (induction rule: getDependencies.pinduct)
  case (1 pkgs depth walked)
  then show ?case by (simp add: getDependencies.psimps)
next
  case (2 pkgs depth st sts walked)
  obtain nexts w1 where n: "nextSteps pkgs (stepDependencies st) walked = (nexts, w1)" by fastforce
  obtain below w2 where b: "getDependencies pkgs (depth + 1) nexts w1 = (below, w2)" by fastforce
  obtain rest w3 where r: "getDependencies pkgs depth sts w2 = (rest, w3)" by fastforce
  have "set walked \<subseteq> set w1" using nextSteps_pending [OF n] by simp
  also have "\<dots> \<subseteq> set w2" using 2(2) [OF n [symmetric] refl] b by simp
  also have "\<dots> \<subseteq> set w3" using 2(3) [OF n [symmetric] refl b [symmetric] refl] r by simp
  finally show ?case using 2(1) n b r by (simp add: getDependencies.psimps)
qed

termination getDependencies
proof (relation "inv_image (less_than <*lex*> less_than)
    (\<lambda>(pkgs, depth, sts, walked). (card (set (keys pkgs) - set walked) + pendingDeps sts, length sts))", goal_cases)
  case 1
  show ?case by (simp add: wf_lex_prod)
next
  case (2 pkgs depth st sts walked x nexts w1)
  then have n: "nextSteps pkgs (stepDependencies st) walked = (nexts, w1)" by simp
  have "stepDependencies st = [] \<Longrightarrow> nexts = []" using nextSteps_pending [OF n] by simp
  then have "card (set (keys pkgs) - set w1) + pendingDeps nexts \<le>
      card (set (keys pkgs) - set walked) + pendingDeps (st # sts) \<and>
      (stepDependencies st \<noteq> [] \<longrightarrow> card (set (keys pkgs) - set w1) + pendingDeps nexts <
        card (set (keys pkgs) - set walked) + pendingDeps (st # sts))"
    using nextSteps_pending [OF n] by (auto simp: pendingDeps_def simp del: set_map)
  moreover have "x = (nexts, w1)" using 2 by simp
  ultimately show ?case
    using \<open>stepDependencies st = [] \<Longrightarrow> nexts = []\<close> by (cases "stepDependencies st = []") (auto simp del: set_map)
next
  case (3 pkgs depth st sts walked x nexts w1 y below w2)
  have "set w1 \<subseteq> set w2" using getDependencies_mono_dom [OF 3(5)] 3(3,4) by (metis snd_conv)
  then have "card (set (keys pkgs) - set w2) \<le> card (set (keys pkgs) - set w1)" by (intro unseen_le) simp_all
  moreover from nextSteps_pending [of pkgs "stepDependencies st" walked nexts w1] 3(1,2)
  have "card (set (keys pkgs) - set w1) \<le> card (set (keys pkgs) - set walked)" by (intro unseen_le) auto
  ultimately show ?case by (auto simp: pendingDeps_def)
qed

section \<open>hoistGraph\<close>

type_synonym hoistedDependencies = "hoistType obj obj"

definition getAliasHoistType :: "str list \<Rightarrow> str list \<Rightarrow> str \<Rightarrow> hoistType option" where
  "getAliasHoistType publicHoistPattern privateHoistPattern alias =
     (if createMatcher publicHoistPattern alias then Some PublicHoist
      else if createMatcher privateHoistPattern alias then Some PrivateHoist
      else None)"

record hoistState =
  hoistedAliases :: "str list"
  hoistedDeps :: hoistedDependencies
  hoistedAliasesWithBins :: "str list"

definition hasBinAt :: "packageSnapshots \<Rightarrow> str \<Rightarrow> bool" where
  "hasBinAt pkgs path = (case map_of pkgs path of None \<Rightarrow> False | Some p \<Rightarrow> hasBin p = Some True)"

definition hoistChild ::
    "(str \<Rightarrow> hoistType option) \<Rightarrow> packageSnapshots \<Rightarrow> str \<times> str \<Rightarrow> hoistState \<Rightarrow> hoistState" where
  "hoistChild aliasType pkgs child st =
     (case child of (childAlias, childPath) \<Rightarrow>
        case aliasType childAlias of
          None \<Rightarrow> st
        | Some hoist \<Rightarrow>
            if toLowerCase childAlias \<in> set (hoistedAliases st) then st
            else \<lparr>hoistedAliases = sadd (toLowerCase childAlias) (hoistedAliases st),
                  hoistedDeps = jset childPath
                    (jset childAlias hoist (orEmpty (map_of (hoistedDeps st) childPath))) (hoistedDeps st),
                  hoistedAliasesWithBins =
                    (if hasBinAt pkgs childPath then sadd childAlias (hoistedAliasesWithBins st)
                     else hoistedAliasesWithBins st)\<rparr>)"

definition nodeOrder :: "(str \<Rightarrow> str \<Rightarrow> int) \<Rightarrow> hoistDependency \<Rightarrow> hoistDependency \<Rightarrow> int" where
  "nodeOrder lexCompare = thenBy (\<lambda>a b. hdDepth a - hdDepth b) (\<lambda>a b. lexCompare (hdDepPath a) (hdDepPath b))"

definition hoistGraph ::
    "(str \<Rightarrow> str \<Rightarrow> int) \<Rightarrow> hoistDependency list \<Rightarrow> str obj \<Rightarrow> (str \<Rightarrow> hoistType option) \<Rightarrow> packageSnapshots \<Rightarrow>
     hoistState" where
  "hoistGraph lexCompare depNodes currentSpecifiers aliasType pkgs =
     fold (\<lambda>node. fold (hoistChild aliasType pkgs) (hdChildren node)) (jsSort (nodeOrder lexCompare) depNodes)
       \<lparr>hoistedAliases = uniq (keys currentSpecifiers), hoistedDeps = [], hoistedAliasesWithBins = []\<rparr>"

record hoistedWorkspaceProject =
  hwName :: str
  hwDir :: str

record hoistOpts =
  hoLockfile :: lockfileObject
  hoImporterIds :: "projectId list option"
  hoPrivateHoistPattern :: "str list"
  hoPrivateHoistedModulesDir :: str
  hoPublicHoistPattern :: "str list"
  hoPublicHoistedModulesDir :: str
  hoHoistedWorkspacePackages :: "hoistedWorkspaceProject obj option"
  hoVirtualStoreDir :: str
  hoVirtualStoreDirMaxLength :: nat

text \<open>The children of the root: the workspace packages, then the direct dependencies, the first one of each
  alias.\<close>

definition rootChildren :: "hoistOpts \<Rightarrow> (str \<times> depPath) list \<Rightarrow> str obj" where
  "rootChildren opts direct =
     spread (fold (\<lambda>(projectId, p). jset (hwName p) projectId) (orEmpty (hoHoistedWorkspacePackages opts)) [])
       (fold (\<lambda>(alias, depPath) acc. if truthy (map_of acc alias) then acc else jset alias depPath acc) direct [])"

definition getHoistedDependencies :: "(str \<Rightarrow> str \<Rightarrow> int) \<Rightarrow> hoistOpts \<Rightarrow> js_error + hoistState option" where
  "getHoistedDependencies lexCompare opts =
     (case packages (hoLockfile opts) of
        None \<Rightarrow> Inr None
      | Some pkgs \<Rightarrow>
          sbind (lockfileWalker (hoLockfile opts)
              (case hoImporterIds opts of Some ids \<Rightarrow> ids | None \<Rightarrow> keys (importers (hoLockfile opts))) None [])
            (\<lambda>w.
              let deps = \<lparr>hdChildren = rootChildren opts (directDeps w), hdDepPath = [], hdDepth = - 1\<rparr> #
                    fst (getDependencies pkgs 0 [walkerFirstStep w] (walkedAfter w))
              in Inr (Some (hoistGraph lexCompare deps
                (case map_of (importers (hoLockfile opts)) ''.'' of None \<Rightarrow> [] | Some p \<Rightarrow> specifiers p)
                (getAliasHoistType (hoPublicHoistPattern opts) (hoPrivateHoistPattern opts)) pkgs))))"

section \<open>The links\<close>

text \<open>What the code does to the file system, each operation on a state of its own. An operation that fails gives
  the code of its error; \<open>None\<close> for a target that cannot be resolved.\<close>

record 's hoistFs =
  fsSymlinkDir :: "str \<Rightarrow> str \<Rightarrow> bool \<Rightarrow> 's \<Rightarrow> str option \<times> 's"
  fsResolveLinkTarget :: "str \<Rightarrow> 's \<Rightarrow> str option"
  fsUnlink :: "str \<Rightarrow> 's \<Rightarrow> str option \<times> 's"
  fsIsSubdir :: "str \<Rightarrow> str \<Rightarrow> bool"

definition thrown :: "str option \<times> 's \<Rightarrow> (js_error + unit) \<times> 's" where
  "thrown r = (case fst r of None \<Rightarrow> Inr () | Some code \<Rightarrow> Inl (PlainError code), snd r)"

definition symlinkHoistedDependency ::
    "'s hoistFs \<Rightarrow> str \<Rightarrow> str \<Rightarrow> str \<Rightarrow> 's \<Rightarrow> (js_error + unit) \<times> 's" where
  "symlinkHoistedDependency fs virtualStoreDir depLocation dest s =
     (case fsSymlinkDir fs depLocation dest False s of
        (None, s1) \<Rightarrow> (Inr (), s1)
      | (Some code, s1) \<Rightarrow>
          if code \<noteq> ''EEXIST'' \<and> code \<noteq> ''EISDIR'' then (Inl (PlainError code), s1)
          else (case fsResolveLinkTarget fs dest s1 of
            None \<Rightarrow> (Inr (), s1)
          | Some existingSymlink \<Rightarrow>
              if \<not> fsIsSubdir fs virtualStoreDir existingSymlink then (Inr (), s1)
              else (case fsUnlink fs dest s1 of
                (Some code, s2) \<Rightarrow> (Inl (PlainError code), s2)
              | (None, s2) \<Rightarrow> thrown (fsSymlinkDir fs depLocation dest True s2))))"

record hoistEnv =
  heJoin :: "str list \<Rightarrow> str"
  heSemverValid :: "str \<Rightarrow> bool"
  heHexHash :: "str \<Rightarrow> str"

text \<open>Where a hoisted dependency is: a package in the virtual store, a workspace package in its directory, and
  nowhere when it is neither (a skipped optional dependency). A table of workspace packages that lacks an
  importer makes the code throw.\<close>

definition hoistLocation :: "hoistEnv \<Rightarrow> hoistOpts \<Rightarrow> str \<Rightarrow> js_error + str option" where
  "hoistLocation env opts hoistedDepId =
     (case map_of (orEmpty (packages (hoLockfile opts))) hoistedDepId of
        Some pkgSnapshot \<Rightarrow>
          (case nvName (nameVerFromPkgSnapshot (heSemverValid env) hoistedDepId pkgSnapshot) of
             None \<Rightarrow> Inl (TypeError ''path'')
           | Some name \<Rightarrow> Inr (Some (heJoin env
               [heJoin env [hoVirtualStoreDir opts,
                  depPathToFilename (heHexHash env) hoistedDepId (hoVirtualStoreDirMaxLength opts), ''node_modules''],
                name])))
      | None \<Rightarrow>
          if map_of (importers (hoLockfile opts)) hoistedDepId = None then Inr None
          else (case map_of (orEmpty (hoHoistedWorkspacePackages opts)) hoistedDepId of
            None \<Rightarrow> Inl (TypeError ''dir'')
          | Some p \<Rightarrow> Inr (Some (hwDir p))))"

definition hoistDestination :: "hoistEnv \<Rightarrow> hoistOpts \<Rightarrow> str \<times> hoistType \<Rightarrow> str" where
  "hoistDestination env opts entry =
     (case entry of (pkgAlias, hoist) \<Rightarrow>
        heJoin env [if hoist = PublicHoist then hoPublicHoistedModulesDir opts else hoPrivateHoistedModulesDir opts, pkgAlias])"

definition hoistLinks :: "hoistEnv \<Rightarrow> hoistOpts \<Rightarrow> str \<times> hoistType obj \<Rightarrow> js_error + (str \<times> str) list" where
  "hoistLinks env opts entry =
     (case entry of (hoistedDepId, pkgAliases) \<Rightarrow>
        sbind (hoistLocation env opts hoistedDepId) (\<lambda>location.
          Inr (case location of None \<Rightarrow> [] | Some l \<Rightarrow> map (\<lambda>a. (l, hoistDestination env opts a)) pkgAliases)))"

fun makeLinks :: "'s hoistFs \<Rightarrow> str \<Rightarrow> (str \<times> str) list \<Rightarrow> 's \<Rightarrow> (js_error + unit) \<times> 's" where
  "makeLinks fs virtualStoreDir [] s = (Inr (), s)"
| "makeLinks fs virtualStoreDir ((location, dest) # links) s =
     (case symlinkHoistedDependency fs virtualStoreDir location dest s of
        (Inl e, s1) \<Rightarrow> (Inl e, s1)
      | (Inr _, s1) \<Rightarrow> makeLinks fs virtualStoreDir links s1)"

definition symlinkHoistedDependencies ::
    "'s hoistFs \<Rightarrow> hoistEnv \<Rightarrow> hoistOpts \<Rightarrow> hoistedDependencies \<Rightarrow> 's \<Rightarrow> (js_error + unit) \<times> 's" where
  "symlinkHoistedDependencies fs env opts deps s =
     (case smap (hoistLinks env opts) deps of
        Inl e \<Rightarrow> (Inl e, s)
      | Inr links \<Rightarrow> makeLinks fs (hoVirtualStoreDir opts) (concat links) s)"

definition hoist ::
    "'s hoistFs \<Rightarrow> hoistEnv \<Rightarrow> (str \<Rightarrow> str \<Rightarrow> int) \<Rightarrow> hoistOpts \<Rightarrow> 's \<Rightarrow> (js_error + hoistedDependencies) \<times> 's" where
  "hoist fs env lexCompare opts s =
     (case getHoistedDependencies lexCompare opts of
        Inl e \<Rightarrow> (Inl e, s)
      | Inr None \<Rightarrow> (Inr [], s)
      | Inr (Some result) \<Rightarrow>
          (case symlinkHoistedDependencies fs env opts (hoistedDeps result) s of
             (Inl e, s1) \<Rightarrow> (Inl e, s1)
           | (Inr _, s1) \<Rightarrow> (Inr (hoistedDeps result), s1)))"

section \<open>What hoistGraph hoists\<close>

text \<open>The type under which a dependency is hoisted with an alias.\<close>

definition hoistedAs :: "hoistedDependencies \<Rightarrow> str \<Rightarrow> str \<Rightarrow> hoistType option" where
  "hoistedAs h path alias = (case map_of h path of None \<Rightarrow> None | Some m \<Rightarrow> map_of m alias)"

lemma hoistedAs_update:
  "hoistedAs (jset p (jset a t (orEmpty (map_of h p))) h) p' a' = (if p' = p \<and> a' = a then Some t else hoistedAs h p' a')"
  by (cases "map_of h p") (auto simp: hoistedAs_def alist.get_put)

text \<open>Of each alias, in any case of letters, that is not one of the specifiers \<open>S\<close>, exactly one is hoisted.\<close>

definition hoistOk :: "str set \<Rightarrow> str set \<Rightarrow> (str \<Rightarrow> str \<Rightarrow> hoistType option) \<Rightarrow> bool" where
  "hoistOk S A h \<longleftrightarrow> S \<subseteq> A \<and>
     (\<forall>p a. h p a \<noteq> None \<longrightarrow> toLowerCase a \<in> A - S) \<and>
     (\<forall>l \<in> A - S. \<exists>p a. h p a \<noteq> None \<and> toLowerCase a = l) \<and>
     (\<forall>p a p' a'. h p a \<noteq> None \<and> h p' a' \<noteq> None \<and> toLowerCase a = toLowerCase a' \<longrightarrow> p = p' \<and> a = a')"

lemma hoistOkD:
  assumes "hoistOk S A h"
  shows "S \<subseteq> A" "h p a \<noteq> None \<Longrightarrow> toLowerCase a \<in> A - S"
    "l \<in> A - S \<Longrightarrow> \<exists>p a. h p a \<noteq> None \<and> toLowerCase a = l"
    "h p a \<noteq> None \<Longrightarrow> h p' a' \<noteq> None \<Longrightarrow> toLowerCase a = toLowerCase a' \<Longrightarrow> p = p' \<and> a = a'"
  using assms unfolding hoistOk_def by blast+

lemma hoistOk_unique:
  assumes "hoistOk S A h" "l \<in> A - S"
  shows "\<exists>!(p, a). h p a \<noteq> None \<and> toLowerCase a = l"
proof -
  obtain p a where pa: "h p a \<noteq> None" "toLowerCase a = l" using hoistOkD(3) [OF assms] by blast
  have "p' = p \<and> a' = a" if "h p' a' \<noteq> None" "toLowerCase a' = l" for p' a'
    using hoistOkD(4) [OF assms(1) that(1) pa(1)] that(2) pa(2) by simp
  note one = this
  show ?thesis
  proof (rule ex1I [of _ "(p, a)"])
    fix x assume x: "case x of (p, a) \<Rightarrow> h p a \<noteq> None \<and> toLowerCase a = l"
    obtain p' a' where e: "x = (p', a')" by (cases x)
    show "x = (p, a)" unfolding e using x [unfolded e prod.case] one by blast
  qed (use pa in simp)
qed

lemma hoistOk_add:
  assumes ok: "hoistOk S A h" and new: "toLowerCase a \<notin> A"
    and h': "\<And>p' a'. h' p' a' = (if p' = p \<and> a' = a then Some t else h p' a')"
  shows "hoistOk S (insert (toLowerCase a) A) h'"
proof -
  note ok = hoistOkD [OF ok]
  have other: "toLowerCase a' \<noteq> toLowerCase a" if "h p' a' \<noteq> None" for p' a' using ok(2) [OF that] new by auto
  have S: "toLowerCase a \<notin> S" using ok(1) new by blast
  have 1: "toLowerCase a' \<in> insert (toLowerCase a) A - S" if "h' p' a' \<noteq> None" for p' a'
    using that ok(2) [of p' a'] S by (auto simp: h' split: if_splits)
  have 2: "\<exists>p' a'. h' p' a' \<noteq> None \<and> toLowerCase a' = l" if l: "l \<in> insert (toLowerCase a) A - S" for l
  proof (cases "l = toLowerCase a")
    case True
    then show ?thesis by (intro exI [of _ p] exI [of _ a]) (simp add: h')
  next
    case False
    then obtain p' a' where "h p' a' \<noteq> None" "toLowerCase a' = l" using ok(3) [of l] l by blast
    then show ?thesis by (intro exI [of _ p'] exI [of _ a']) (simp add: h')
  qed
  have 3: "p1 = p2 \<and> a1 = a2" if "h' p1 a1 \<noteq> None" "h' p2 a2 \<noteq> None" "toLowerCase a1 = toLowerCase a2" for p1 a1 p2 a2
    using that other [of p1 a1] other [of p2 a2] ok(4) [of p1 a1 p2 a2] by (simp add: h' split: if_splits)
  show ?thesis unfolding hoistOk_def using ok(1) 1 2 3 by blast
qed

abbreviation "stateOk S st \<equiv> hoistOk S (set (hoistedAliases st)) (hoistedAs (hoistedDeps st))"

lemma hoistChild_cases:
  obtains (skip) "hoistChild ty pkgs (a, p) st = st" "ty a = None \<or> toLowerCase a \<in> set (hoistedAliases st)"
  | (take) t where "ty a = Some t" "toLowerCase a \<notin> set (hoistedAliases st)"
      "set (hoistedAliases (hoistChild ty pkgs (a, p) st)) = insert (toLowerCase a) (set (hoistedAliases st))"
      "\<And>p' a'. hoistedAs (hoistedDeps (hoistChild ty pkgs (a, p) st)) p' a' =
         (if p' = p \<and> a' = a then Some t else hoistedAs (hoistedDeps st) p' a')"
proof (cases "ty a = None \<or> toLowerCase a \<in> set (hoistedAliases st)")
  case True
  then have "hoistChild ty pkgs (a, p) st = st" by (auto simp: hoistChild_def split: option.split)
  with True show ?thesis by (rule skip [rotated])
next
  case False
  then obtain t where "ty a = Some t" by auto
  with False show ?thesis by (intro take [of t]) (simp_all add: hoistChild_def hoistedAs_update)
qed

lemma hoistChild_ok: "stateOk S st \<Longrightarrow> stateOk S (hoistChild ty pkgs (a, p) st)"
proof (cases rule: hoistChild_cases [of ty pkgs a p st])
  case (take t)
  assume "stateOk S st"
  from hoistOk_add [OF this take(2,4)] show ?thesis unfolding take(3) .
qed simp

text \<open>The children with their nodes, in the order in which they are taken.\<close>

definition nodeChildren :: "hoistDependency list \<Rightarrow> (hoistDependency \<times> str \<times> str) list" where
  "nodeChildren nodes = concat (map (\<lambda>n. map (Pair n) (hdChildren n)) nodes)"

lemma fold_nodeChildren:
  "fold (\<lambda>node. fold f (hdChildren node)) nodes st = fold (\<lambda>(_, c). f c) (nodeChildren nodes) st"
  by (induction nodes arbitrary: st) (simp_all add: nodeChildren_def fold_map o_def)

lemma set_nodeChildren: "(n, c) \<in> set (nodeChildren nodes) \<longleftrightarrow> n \<in> set nodes \<and> c \<in> set (hdChildren n)"
  by (auto simp: nodeChildren_def)

lemma sorted_nodeChildren:
  assumes "\<And>n. le n n" "sorted_wrt le nodes"
  shows "sorted_wrt (\<lambda>x y. le (fst x) (fst y)) (nodeChildren nodes)"
  using assms(2)
proof (induction nodes)
  case (Cons n nodes)
  have "sorted_wrt (\<lambda>x y. le (fst x) (fst y)) (map (Pair n) cs)" for cs :: "(str \<times> str) list"
    using assms(1) by (induction cs) auto
  with Cons show ?case by (auto simp: nodeChildren_def sorted_wrt_append)
qed (simp add: nodeChildren_def)

text \<open>A child is a first one of its alias when no child with this alias comes from a smaller node.\<close>

definition firstOf :: "(str \<Rightarrow> hoistType option) \<Rightarrow> (hoistDependency \<Rightarrow> hoistDependency \<Rightarrow> bool) \<Rightarrow>
    (hoistDependency \<times> str \<times> str) set \<Rightarrow> str \<Rightarrow> str \<Rightarrow> bool" where
  "firstOf ty le L p a \<longleftrightarrow> (\<exists>n. (n, a, p) \<in> L \<and>
     (\<forall>(n', a', p') \<in> L. ty a' \<noteq> None \<and> toLowerCase a' = toLowerCase a \<longrightarrow> le n n'))"

lemma firstOf_keep:
  assumes "firstOf ty le L p a" "\<And>y. y \<in> L \<Longrightarrow> le (fst y) (fst x)"
  shows "firstOf ty le (insert x L) p a"
proof -
  obtain n where n: "(n, a, p) \<in> L"
    "\<forall>(n', a', p') \<in> L. ty a' \<noteq> None \<and> toLowerCase a' = toLowerCase a \<longrightarrow> le n n'"
    using assms(1) unfolding firstOf_def by blast
  have "le n (fst x)" using assms(2) [OF n(1)] by simp
  then show ?thesis unfolding firstOf_def using n by (intro exI [of _ n]) (auto split: prod.splits)
qed

lemma firstOf_new:
  assumes "\<And>n. le n n" "\<And>n' a' p'. (n', a', p') \<in> L \<Longrightarrow> ty a' \<noteq> None \<Longrightarrow> toLowerCase a' \<noteq> toLowerCase a"
  shows "firstOf ty le (insert (n, a, p) L) p a"
  unfolding firstOf_def using assms by (intro exI [of _ n]) auto

definition takenAliases :: "(str \<Rightarrow> hoistType option) \<Rightarrow> (hoistDependency \<times> str \<times> str) set \<Rightarrow> str set" where
  "takenAliases ty L = {toLowerCase a |n a p. (n, a, p) \<in> L \<and> ty a \<noteq> None}"

lemma takenAliasesI: "(n, a, p) \<in> L \<Longrightarrow> ty a \<noteq> None \<Longrightarrow> toLowerCase a \<in> takenAliases ty L"
  unfolding takenAliases_def by blast

lemma takenAliases_insert:
  "takenAliases ty (insert (n, a, p) L) =
     (if ty a = None then takenAliases ty L else insert (toLowerCase a) (takenAliases ty L))"
  by (auto simp: takenAliases_def)

lemma hoistFold:
  assumes "stateOk S st0" "set (hoistedAliases st0) = S" "\<And>n. le n n"
    and "sorted_wrt (\<lambda>x y. le (fst x) (fst y)) L" "st = fold (\<lambda>(_, c). hoistChild ty pkgs c) L st0"
  shows "stateOk S st \<and> set (hoistedAliases st) = S \<union> takenAliases ty (set L) \<and>
      (\<forall>p a t. hoistedAs (hoistedDeps st) p a = Some t \<longrightarrow> ty a = Some t \<and> firstOf ty le (set L) p a)"
  using assms(4,5)
proof (induction L arbitrary: st rule: rev_induct)
  case Nil
  have "hoistedAs (hoistedDeps st0) p a = None" for p a
    using hoistOkD(2) [OF assms(1), of p a] assms(2) by (cases "hoistedAs (hoistedDeps st0) p a") auto
  moreover have st: "st = st0" using Nil by simp
  ultimately show ?case
    unfolding st by (intro conjI allI impI) (rule assms(1), simp_all add: takenAliases_def assms(2))
next
  case (snoc x L)
  obtain n a p where x: "x = (n, a, p)" by (cases x)
  let ?st = "fold (\<lambda>(_, c). hoistChild ty pkgs c) L st0"
  have st: "st = hoistChild ty pkgs (a, p) ?st" using snoc.prems by (simp add: x)
  have "sorted_wrt (\<lambda>x y. le (fst x) (fst y)) L" using snoc.prems by (simp add: sorted_wrt_append)
  note IH = snoc.IH [OF this refl]
  have L: "set (L @ [x]) = insert (n, a, p) (set L)" by (simp add: x)
  have keep: "firstOf ty le (set L) p' a' \<Longrightarrow> firstOf ty le (insert (n, a, p) (set L)) p' a'" for p' a'
    by (rule firstOf_keep) (use snoc.prems in \<open>auto simp: x sorted_wrt_append\<close>)
  show ?case
  proof (cases rule: hoistChild_cases [of ty pkgs a p ?st])
    case skip
    then show ?thesis using IH keep unfolding L st takenAliases_insert by auto
  next
    case (take t)
    have "toLowerCase a \<notin> takenAliases ty (set L)" using take(2) IH by blast
    then have "firstOf ty le (insert (n, a, p) (set L)) p a"
      by (intro firstOf_new assms(3)) (metis takenAliasesI)
    moreover have "set (hoistedAliases st) = S \<union> takenAliases ty (insert (n, a, p) (set L))"
      unfolding st take(3) takenAliases_insert using take(1) IH by simp
    moreover have "stateOk S st" unfolding st by (rule hoistChild_ok [OF conjunct1 [OF IH]])
    ultimately show ?thesis using IH keep take(1) unfolding L st take(4) by (auto split: if_splits)
  qed
qed

lemma nodeOrder_refl:
  assumes "js_comparison cmp"
  shows "nodeOrder cmp n n \<le> 0"
  using js_comparison.refl [OF assms] by (simp add: nodeOrder_def thenBy_def)

lemma hoistGraph_first_nodes:
  assumes "js_comparison cmp" "h = hoistedDeps (hoistGraph cmp nodes specs ty pkgs)"
  shows "(\<forall>p a t. hoistedAs h p a = Some t \<longrightarrow> ty a = Some t \<and> toLowerCase a \<notin> set (keys specs) \<and>
      (\<exists>n \<in> set nodes. (a, p) \<in> set (hdChildren n) \<and>
        (\<forall>n' \<in> set nodes. \<forall>(a', p') \<in> set (hdChildren n').
           ty a' \<noteq> None \<and> toLowerCase a' = toLowerCase a \<longrightarrow> nodeOrder cmp n n' \<le> 0))) \<and>
    (\<forall>n \<in> set nodes. \<forall>(a, p) \<in> set (hdChildren n). ty a \<noteq> None \<and> toLowerCase a \<notin> set (keys specs) \<longrightarrow>
      (\<exists>!(p', a'). hoistedAs h p' a' \<noteq> None \<and> toLowerCase a' = toLowerCase a))"
proof -
  let ?le = "\<lambda>a b. nodeOrder cmp a b \<le> 0" and ?S = "set (keys specs)"
  let ?nodes = "jsSort (nodeOrder cmp) nodes" and ?L = "nodeChildren (jsSort (nodeOrder cmp) nodes)"
  let ?st0 = "\<lparr>hoistedAliases = uniq (keys specs), hoistedDeps = [], hoistedAliasesWithBins = []\<rparr>"
  define st where "st = hoistGraph cmp nodes specs ty pkgs"
  have st: "st = fold (\<lambda>(_, c). hoistChild ty pkgs c) ?L ?st0"
    unfolding st_def hoistGraph_def fold_nodeChildren ..
  have ok0: "stateOk ?S ?st0" by (auto simp: hoistOk_def hoistedAs_def)
  have c: "js_comparison (nodeOrder cmp)"
    unfolding nodeOrder_def by (rule js_comparison_number_thenBy [OF assms(1)])
  have s: "sorted_wrt (\<lambda>x y. ?le (fst x) (fst y)) ?L"
    by (intro sorted_nodeChildren js_comparison.sorted_jsSort [OF c] nodeOrder_refl [OF assms(1)])
  have L: "(n, a, p) \<in> set ?L \<longleftrightarrow> n \<in> set nodes \<and> (a, p) \<in> set (hdChildren n)" for n a p
    by (simp add: set_nodeChildren)
  have "set (hoistedAliases ?st0) = ?S" by simp
  note res = hoistFold [OF ok0 this nodeOrder_refl [OF assms(1)] s st]
  have h: "hoistedDeps st = h" by (simp add: assms(2) st_def)
  have ok: "hoistOk ?S (?S \<union> takenAliases ty (set ?L)) (hoistedAs h)" using res unfolding h by metis
  have first: "ty a = Some t \<and> firstOf ty ?le (set ?L) p a" if "hoistedAs h p a = Some t" for p a t
    using res that unfolding h by blast
  have 1: "ty a = Some t \<and> toLowerCase a \<notin> ?S \<and> (\<exists>n \<in> set nodes. (a, p) \<in> set (hdChildren n) \<and>
        (\<forall>n' \<in> set nodes. \<forall>(a', p') \<in> set (hdChildren n').
           ty a' \<noteq> None \<and> toLowerCase a' = toLowerCase a \<longrightarrow> nodeOrder cmp n n' \<le> 0))"
    if "hoistedAs h p a = Some t" for p a t
  proof -
    note f = first [OF that]
    then obtain n where "(n, a, p) \<in> set ?L" and "\<forall>(n', a', p') \<in> set ?L.
        ty a' \<noteq> None \<and> toLowerCase a' = toLowerCase a \<longrightarrow> nodeOrder cmp n n' \<le> 0"
      unfolding firstOf_def by blast
    then have "\<exists>n \<in> set nodes. (a, p) \<in> set (hdChildren n) \<and>
        (\<forall>n' \<in> set nodes. \<forall>(a', p') \<in> set (hdChildren n').
           ty a' \<noteq> None \<and> toLowerCase a' = toLowerCase a \<longrightarrow> nodeOrder cmp n n' \<le> 0)"
      using L by blast
    moreover have "toLowerCase a \<notin> ?S" using hoistOkD(2) [OF ok, of p a] that by simp
    ultimately show ?thesis using f by blast
  qed
  have 2: "\<exists>!(p', a'). hoistedAs h p' a' \<noteq> None \<and> toLowerCase a' = toLowerCase a"
    if "n \<in> set nodes" "(a, p) \<in> set (hdChildren n)" "ty a \<noteq> None" "toLowerCase a \<notin> ?S" for n a p
    by (rule hoistOk_unique [OF ok]) (use that L takenAliasesI in blast)
  show ?thesis
    by (intro conjI allI impI ballI) (use 1 2 in \<open>blast+\<close>)
qed

text \<open>Of every alias, in any case of letters, that matches a hoist pattern and is not a specifier of the root,
  exactly one dependency is hoisted: one of a node that comes first (least depth, then least dependency path) among
  the nodes with a child of that alias. Nothing else is hoisted.\<close>

theorem hoistGraph_first:
  assumes "js_comparison cmp" "h = hoistedDeps (hoistGraph cmp nodes specs ty pkgs)"
  shows "(\<forall>p a t. hoistedAs h p a = Some t \<longrightarrow> ty a = Some t \<and> toLowerCase a \<notin> set (keys specs) \<and>
      (\<exists>n \<in> set nodes. (a, p) \<in> set (hdChildren n) \<and>
        (\<forall>n' \<in> set nodes. \<forall>(a', p') \<in> set (hdChildren n').
           ty a' \<noteq> None \<and> toLowerCase a' = toLowerCase a \<longrightarrow> nodeOrder cmp n n' \<le> 0))) \<and>
    (\<forall>n \<in> set nodes. \<forall>(a, p) \<in> set (hdChildren n). ty a \<noteq> None \<and> toLowerCase a \<notin> set (keys specs) \<longrightarrow>
      (\<exists>!(p', a'). hoistedAs h p' a' \<noteq> None \<and> toLowerCase a' = toLowerCase a))"
  by (rule hoistGraph_first_nodes [OF assms])

section \<open>What the walk finds\<close>

text \<open>The packages of some steps, each with its entry of the lockfile.\<close>

definition stepPaths :: "walkerStep list \<Rightarrow> depPath set" where
  "stepPaths sts = ldDepPath ` (\<Union>st \<in> set sts. set (stepDependencies st))"

definition validSteps :: "packageSnapshots \<Rightarrow> walkerStep list \<Rightarrow> bool" where
  "validSteps pkgs sts \<longleftrightarrow>
     (\<forall>st \<in> set sts. \<forall>d \<in> set (stepDependencies st). map_of pkgs (ldDepPath d) = Some (ldSnapshot d))"

lemma stepPaths_Cons [simp]:
  "stepPaths [] = {}" "stepPaths (st # sts) = ldDepPath ` set (stepDependencies st) \<union> stepPaths sts"
  by (auto simp: stepPaths_def)

lemma validSteps_Cons [simp]:
  "validSteps pkgs []" "validSteps pkgs (st # sts) \<longleftrightarrow>
     (\<forall>d \<in> set (stepDependencies st). map_of pkgs (ldDepPath d) = Some (ldSnapshot d)) \<and> validSteps pkgs sts"
  by (auto simp: validSteps_def)

lemma stepSpec_paths: "ldDepPath ` set (stepDependencies (stepSpec pkgs ns)) = set ns \<inter> set (keys pkgs)"
proof -
  have "ldDepPath ` set (stepDependencies (stepSpec pkgs ns)) = set (map ldDepPath (stepDependencies (stepSpec pkgs ns)))"
    by simp
  then show ?thesis unfolding stepDependencies_spec by (auto simp: in_keys_iff simp del: set_map)
qed

abbreviation "hoistNext pkgs \<equiv> pkgNext pkgs True"

lemma pkgNext_snapshot: "map_of pkgs n = Some p \<Longrightarrow> hoistNext pkgs n = nextDepPaths True p"
  by (simp add: pkgNext_def)

lemma nextSteps_paths:
  "nextSteps pkgs ds walked = (sts, walked') \<Longrightarrow>
   \<forall>d \<in> set ds. map_of pkgs (ldDepPath d) = Some (ldSnapshot d) \<Longrightarrow>
     set walked' = set walked \<union> (\<Union>n \<in> ldDepPath ` set ds. set (hoistNext pkgs n)) \<and>
     stepPaths sts = (set walked' - set walked) \<inter> set (keys pkgs) \<and> validSteps pkgs sts"
proof (induction pkgs ds walked arbitrary: sts walked' rule: nextSteps.induct)
  case (2 pkgs d ds walked)
  let ?f = "freshPaths (nextDepPaths True (ldSnapshot d)) walked"
  have n: "nextStep pkgs True d walked = (stepSpec pkgs ?f, walked @ ?f)" by (simp add: nextStep_spec Let_def)
  obtain sts1 w1 where r: "nextSteps pkgs ds (walked @ ?f) = (sts1, w1)" by fastforce
  have s: "sts = stepSpec pkgs ?f # sts1" "walked' = w1" using 2(2) n r by simp_all
  have d: "hoistNext pkgs (ldDepPath d) = nextDepPaths True (ldSnapshot d)"
    using 2(3) by (simp add: pkgNext_snapshot)
  note IH = 2(1) [OF n [symmetric] refl r]
  have f: "set ?f = set (hoistNext pkgs (ldDepPath d)) - set walked" by (simp add: d set_freshPaths)
  have valid: "\<forall>x \<in> set (stepDependencies (stepSpec pkgs ?f)). map_of pkgs (ldDepPath x) = Some (ldSnapshot x)"
    using stepDependencies_snapshot by blast
  have w: "set walked' = set walked \<union> (\<Union>n \<in> ldDepPath ` set (d # ds). set (hoistNext pkgs n))"
    using IH 2(3) f by (auto simp: s(2))
  have "stepPaths sts = (set walked' - set walked) \<inter> set (keys pkgs)"
    unfolding s stepPaths_Cons stepSpec_paths using IH 2(3) f by (auto simp del: set_map)
  with w IH valid 2(3) show ?case by (simp add: s)
qed simp

lemma walk_paths:
  assumes "A \<subseteq> B" "B \<subseteq> C" "C \<subseteq> D" "X = P \<union> ((B - A) \<inter> K \<union> (C - B) \<inter> K \<union> (S \<union> (D - C) \<inter> K))"
  shows "X = P \<union> S \<union> (D - A) \<inter> K"
  using assms by blast

lemma walk_bound: "Y \<subseteq> Z \<Longrightarrow> N \<subseteq> Z \<Longrightarrow> W \<subseteq> A \<union> N \<union> Y \<Longrightarrow> W \<subseteq> A \<union> Z"
  by blast

lemma getDependencies_paths:
  "getDependencies pkgs depth sts walked = (ds, walked') \<Longrightarrow> validSteps pkgs sts \<Longrightarrow>
     set walked \<subseteq> set walked' \<and>
     hdDepPath ` set ds = stepPaths sts \<union> (set walked' - set walked) \<inter> set (keys pkgs) \<and>
     (\<forall>d \<in> set ds. set (hoistNext pkgs (hdDepPath d)) \<subseteq> set walked') \<and>
     set walked' \<subseteq> set walked \<union> reach (hoistNext pkgs) (\<Union>n \<in> stepPaths sts. set (hoistNext pkgs n))"
proof (induction pkgs depth sts walked arbitrary: ds walked' rule: getDependencies.induct)
  case (2 pkgs depth st sts walked)
  let ?next = "hoistNext pkgs"
  obtain nexts w1 where n: "nextSteps pkgs (stepDependencies st) walked = (nexts, w1)" by fastforce
  obtain below w2 where b: "getDependencies pkgs (depth + 1) nexts w1 = (below, w2)" by fastforce
  obtain rest w3 where r: "getDependencies pkgs depth sts w2 = (rest, w3)" by fastforce
  have e: "ds = map (dependencyOf depth) (stepDependencies st) @ below @ rest" "walked' = w3"
    using 2(3) n b r by simp_all
  have valid: "\<forall>d \<in> set (stepDependencies st). map_of pkgs (ldDepPath d) = Some (ldSnapshot d)" "validSteps pkgs sts"
    using 2(4) by simp_all
  note N = nextSteps_paths [OF n valid(1)]
  note B = 2(1) [OF n [symmetric] refl b conjunct2 [OF conjunct2 [OF N]]]
  note R = 2(2) [OF n [symmetric] refl b [symmetric] refl r valid(2)]
  let ?P = "ldDepPath ` set (stepDependencies st)"
  note N1 = conjunct1 [OF N] and N2 = conjunct1 [OF conjunct2 [OF N]]
  note B1 = conjunct1 [OF B] and B2 = conjunct1 [OF conjunct2 [OF B]]
    and B3 = conjunct1 [OF conjunct2 [OF conjunct2 [OF B]]] and B4 = conjunct2 [OF conjunct2 [OF conjunct2 [OF B]]]
  note R1 = conjunct1 [OF R] and R2 = conjunct1 [OF conjunct2 [OF R]]
    and R3 = conjunct1 [OF conjunct2 [OF conjunct2 [OF R]]] and R4 = conjunct2 [OF conjunct2 [OF conjunct2 [OF R]]]
  have M1: "set walked \<subseteq> set w1" unfolding N1 by (rule Un_upper1)
  have p: "hdDepPath ` set (map (dependencyOf depth) (stepDependencies st)) = ?P"
    by (simp add: image_image dependencyOf_def)
  have "hdDepPath ` set ds = ?P \<union> (hdDepPath ` set below \<union> hdDepPath ` set rest)"
    unfolding e set_append image_Un p ..
  then have paths: "hdDepPath ` set ds = stepPaths (st # sts) \<union> (set w3 - set walked) \<inter> set (keys pkgs)"
    unfolding B2 N2 R2 stepPaths_Cons by (rule walk_paths [OF M1 B1 R1])
  have closed: "\<forall>d \<in> set ds. set (?next (hdDepPath d)) \<subseteq> set w3"
  proof
    fix d assume "d \<in> set ds"
    then consider x where "x \<in> set (stepDependencies st)" "d = dependencyOf depth x" | "d \<in> set below" | "d \<in> set rest"
      unfolding e by auto
    then show "set (?next (hdDepPath d)) \<subseteq> set w3"
    proof cases
      case 1
      then have "hdDepPath d \<in> ?P" by (simp add: dependencyOf_def)
      then have "set (?next (hdDepPath d)) \<subseteq> set w1" unfolding N1 by (rule le_supI2 [OF UN_upper])
      also note B1
      also note R1
      finally show ?thesis .
    next
      case 2
      with B3 have "set (?next (hdDepPath d)) \<subseteq> set w2" ..
      also note R1
      finally show ?thesis .
    next
      case 3
      with R3 show ?thesis ..
    qed
  qed
  let ?N = "\<Union>n \<in> ?P. set (?next n)"
  have "stepPaths nexts \<subseteq> ?N" unfolding N2 N1 by (rule le_infI1) (simp add: Diff_subset_conv)
  then have "(\<Union>n \<in> stepPaths nexts. set (?next n)) \<subseteq> reach ?next ?N"
    by (intro UN_least subsetI) (rule reach_step [OF in_reach_base], blast)
  then have "reach ?next (\<Union>n \<in> stepPaths nexts. set (?next n)) \<subseteq> reach ?next ?N"
    using reach_mono reach_idem by metis
  with B4 have "set w2 \<subseteq> set walked \<union> reach ?next ?N"
    using reach_base [of ?N ?next] unfolding N1 by (rule walk_bound [rotated 2])
  then have bound: "set w3 \<subseteq> set walked \<union> reach ?next (\<Union>n \<in> stepPaths (st # sts). set (?next n))"
    unfolding stepPaths_Cons UN_Un reach_Un Un_assoc [symmetric] by (rule order_trans [OF R4 Un_mono [OF _ order_refl]])
  have "set walked \<subseteq> set w3" using M1 B1 R1 by (rule order_trans [OF order_trans])
  then show ?case unfolding e(2) by (rule conjI [OF _ conjI [OF paths conjI [OF closed bound]]])
qed simp

lemma getDependencies_children:
  "getDependencies pkgs depth sts walked = (ds, walked') \<Longrightarrow> validSteps pkgs sts \<Longrightarrow> d \<in> set ds \<Longrightarrow>
     \<exists>p. map_of pkgs (hdDepPath d) = Some p \<and> hdChildren d = snapshotChildren p \<and> depth \<le> hdDepth d"
proof (induction pkgs depth sts walked arbitrary: ds walked' rule: getDependencies.induct)
  case (2 pkgs depth st sts walked)
  obtain nexts w1 where n: "nextSteps pkgs (stepDependencies st) walked = (nexts, w1)" by fastforce
  obtain below w2 where b: "getDependencies pkgs (depth + 1) nexts w1 = (below, w2)" by fastforce
  obtain rest w3 where r: "getDependencies pkgs depth sts w2 = (rest, w3)" by fastforce
  have valid: "\<forall>d \<in> set (stepDependencies st). map_of pkgs (ldDepPath d) = Some (ldSnapshot d)" "validSteps pkgs sts"
    using 2(4) by simp_all
  have "validSteps pkgs nexts" using nextSteps_paths [OF n valid(1)] by simp
  note B = 2(1) [OF n [symmetric] refl b this] and R = 2(2) [OF n [symmetric] refl b [symmetric] refl r valid(2)]
  have "ds = map (dependencyOf depth) (stepDependencies st) @ below @ rest" using 2(3) n b r by simp
  then consider x where "x \<in> set (stepDependencies st)" "d = dependencyOf depth x" | "d \<in> set below" | "d \<in> set rest"
    using 2(5) by auto
  then show ?case
  proof cases
    case 1
    then show ?thesis using valid(1) by (simp add: dependencyOf_def)
  next
    case 2
    then show ?thesis using B by fastforce
  qed (rule R)
qed simp

text \<open>The dependencies that the whole walk gives are the packages that can be reached from the direct
  dependencies.\<close>

lemma walk_reaches:
  assumes "lockfileWalker l ids None [] = Inr w" "packages l = Some pkgs"
    and "getDependencies pkgs 0 [walkerFirstStep w] (walkedAfter w) = (ds, walked')"
  shows "hdDepPath ` set ds = reach (hoistNext pkgs) (snd ` set (directDeps w)) \<inter> set (keys pkgs) \<and>
    validSteps pkgs [walkerFirstStep w]"
proof -
  let ?next = "hoistNext pkgs" and ?R = "snd ` set (directDeps w)"
  obtain direct where w: "w = \<lparr>directDeps = direct, walkerFirstStep = stepSpec pkgs (freshPaths (map snd direct) []),
      walkedAfter = freshPaths (map snd direct) []\<rparr>"
    using assms(1,2) by (auto simp: lockfileWalker_def sbind_Inr_iff Let_def walkStep_spec)
  have W: "set (walkedAfter w) = ?R" by (simp add: w set_freshPaths)
  have P: "stepPaths [walkerFirstStep w] = ?R \<inter> set (keys pkgs)"
    by (simp add: w stepSpec_paths set_freshPaths del: set_map) simp
  have valid: "validSteps pkgs [walkerFirstStep w]" using stepDependencies_snapshot by (auto simp: w)
  note G = getDependencies_paths [OF assms(3) valid, unfolded W P]
  have out: "?next n = []" if "n \<notin> set (keys pkgs)" for n
    using that by (simp add: pkgNext_def in_keys_iff del: set_map)
  have "?R \<subseteq> set walked'" using G by blast
  moreover have "set (?next n) \<subseteq> set walked'" if "n \<in> set walked'" for n
  proof (cases "n \<in> set (keys pkgs)")
    case True
    have "hdDepPath ` set ds = ?R \<inter> set (keys pkgs) \<union> (set walked' - ?R) \<inter> set (keys pkgs)" using G by blast
    then have "n \<in> hdDepPath ` set ds" using that True by blast
    then show ?thesis using G by blast
  qed (simp add: out)
  ultimately have "reach ?next ?R \<subseteq> set walked'" by (intro reach_least) auto
  moreover have "set walked' \<subseteq> reach ?next ?R"
  proof -
    have "(\<Union>n \<in> ?R \<inter> set (keys pkgs). set (?next n)) \<subseteq> (\<Union>n \<in> ?R. set (?next n))" by blast
    then have "reach ?next (\<Union>n \<in> ?R \<inter> set (keys pkgs). set (?next n)) \<subseteq> reach ?next (\<Union>n \<in> ?R. set (?next n))"
      by (rule reach_mono)
    then show ?thesis using G reach_unfold [of ?next ?R] by blast
  qed
  ultimately have "set walked' = reach ?next ?R" by blast
  moreover have "hdDepPath ` set ds = set walked' \<inter> set (keys pkgs)"
    using G \<open>?R \<subseteq> set walked'\<close> by blast
  ultimately show ?thesis using valid by simp
qed

lemma children_of_paths:
  assumes "\<And>d. d \<in> set ds \<Longrightarrow>
    \<exists>p. map_of pkgs (hdDepPath d) = Some p \<and> hdChildren d = snapshotChildren p \<and> depth \<le> hdDepth d"
  shows "(\<exists>n \<in> set ds. c \<in> set (hdChildren n)) \<longleftrightarrow>
    (\<exists>n s. n \<in> hdDepPath ` set ds \<and> map_of pkgs n = Some s \<and> c \<in> set (snapshotChildren s))"
proof
  assume "\<exists>n \<in> set ds. c \<in> set (hdChildren n)"
  then obtain d where "d \<in> set ds" "c \<in> set (hdChildren d)" ..
  moreover from assms [OF this(1)] obtain p where "map_of pkgs (hdDepPath d) = Some p" "hdChildren d = snapshotChildren p"
    by blast
  ultimately show "\<exists>n s. n \<in> hdDepPath ` set ds \<and> map_of pkgs n = Some s \<and> c \<in> set (snapshotChildren s)"
    by (intro exI [of _ "hdDepPath d"] exI [of _ p]) simp
next
  assume "\<exists>n s. n \<in> hdDepPath ` set ds \<and> map_of pkgs n = Some s \<and> c \<in> set (snapshotChildren s)"
  then obtain d s where "d \<in> set ds" "map_of pkgs (hdDepPath d) = Some s" "c \<in> set (snapshotChildren s)" by blast
  with assms [OF this(1)] have "c \<in> set (hdChildren d)" by auto
  with \<open>d \<in> set ds\<close> show "\<exists>n \<in> set ds. c \<in> set (hdChildren n)" ..
qed

text \<open>What is offered for hoisting: the children of the root, and those of every package that is reached.\<close>

definition offered :: "hoistOpts \<Rightarrow> packageSnapshots \<Rightarrow> (str \<times> depPath) list \<Rightarrow> str \<Rightarrow> str \<Rightarrow> bool" where
  "offered opts pkgs direct a p \<longleftrightarrow> (a, p) \<in> set (rootChildren opts direct) \<or>
     (\<exists>n s. n \<in> reach (hoistNext pkgs) (snd ` set direct) \<and> map_of pkgs n = Some s \<and> (a, p) \<in> set (snapshotChildren s))"

definition hoistable :: "hoistOpts \<Rightarrow> str \<Rightarrow> bool" where
  "hoistable opts a \<longleftrightarrow>
     (createMatcher (hoPublicHoistPattern opts) a \<or> createMatcher (hoPrivateHoistPattern opts) a) \<and>
     toLowerCase a \<notin> set (keys (case map_of (importers (hoLockfile opts)) ''.'' of None \<Rightarrow> [] | Some p \<Rightarrow> specifiers p))"


section \<open>The links are safe\<close>

text \<open>What the operations on a state of the file system promise: \<open>entry s d\<close> is what is at a path. A call of
  \<open>symlinkDir\<close> that may not overwrite changes nothing when it fails; \<open>resolve-link-target\<close> resolves links only.\<close>

definition fsLaws :: "'s hoistFs \<Rightarrow> ('s \<Rightarrow> str \<Rightarrow> 'e option) \<Rightarrow> ('e \<Rightarrow> str option) \<Rightarrow> bool" where
  "fsLaws fs entry target \<longleftrightarrow>
     (\<forall>l d s. fst (fsSymlinkDir fs l d False s) \<noteq> None \<longrightarrow> entry (snd (fsSymlinkDir fs l d False s)) = entry s) \<and>
     (\<forall>l d s. fst (fsSymlinkDir fs l d False s) = None \<longrightarrow>
        entry s d = None \<or> entry (snd (fsSymlinkDir fs l d False s)) d = entry s d) \<and>
     (\<forall>d s. fsResolveLinkTarget fs d s = Option.bind (entry s d) target)"

text \<open>C25. Linking a hoisted dependency never destroys what pnpm did not put there: when something is at the
  destination that is not a link into the virtual store (a directory, a file, a link to elsewhere), it is still
  there afterwards.\<close>

theorem symlinkHoistedDependency_safe:
  assumes "fsLaws fs entry target" "entry s dest = Some e"
    and "target e = None \<or> \<not> fsIsSubdir fs store (the (target e))"
  shows "entry (snd (symlinkHoistedDependency fs store location dest s)) dest = Some e"
proof -
  obtain r s1 where r: "fsSymlinkDir fs location dest False s = (r, s1)" by fastforce
  have law: "r \<noteq> None \<Longrightarrow> entry s1 = entry s" "r = None \<Longrightarrow> entry s1 dest = entry s dest"
    using assms(1,2) r unfolding fsLaws_def by (metis fst_conv snd_conv option.distinct(1))+
  have t: "fsResolveLinkTarget fs dest s1 = Option.bind (entry s1 dest) target"
    using assms(1) by (simp add: fsLaws_def)
  show ?thesis
  proof (cases r)
    case None
    then show ?thesis using r law assms(2) by (simp add: symlinkHoistedDependency_def)
  next
    case (Some code)
    then have e: "entry s1 dest = Some e" using law assms(2) by simp
    then have "fsResolveLinkTarget fs dest s1 = target e" using t by simp
    then show ?thesis
      using assms(3) e r Some by (cases "target e") (simp_all add: symlinkHoistedDependency_def)
  qed
qed

section \<open>Examples\<close>

definition exampleCompare :: "str \<Rightarrow> str \<Rightarrow> int" where
  "exampleCompare a b = (if a = b then 0 else if a < b then - 1 else 1)"

lemma exampleCompare_ok: "js_comparison exampleCompare"
  by unfold_locales (auto simp: exampleCompare_def split: if_splits)

definition exampleNodes :: "hoistDependency list" where
  "exampleNodes = [\<lparr>hdChildren = [(''foo'', ''foo@2'')], hdDepPath = ''b@1'', hdDepth = 1\<rparr>,
     \<lparr>hdChildren = [(''Foo'', ''foo@1'')], hdDepPath = ''a@1'', hdDepth = 0\<rparr>]"

theorem hoistGraph_first_witness:
  "\<exists>!(p, a). hoistedAs (hoistedDeps (hoistGraph exampleCompare exampleNodes [] (\<lambda>_. Some PrivateHoist) [])) p a \<noteq> None \<and>
     toLowerCase a = toLowerCase ''foo''"
proof -
  let ?n = "\<lparr>hdChildren = [(''foo'', ''foo@2'')], hdDepPath = ''b@1'', hdDepth = 1\<rparr>"
  have "?n \<in> set exampleNodes" "(''foo'', ''foo@2'') \<in> set (hdChildren ?n)" by (simp_all add: exampleNodes_def)
  from bspec [OF bspec [OF conjunct2 [OF hoistGraph_first [OF exampleCompare_ok refl]] this(1)] this(2),
    of "\<lambda>_. Some PrivateHoist" "[]" "[]"]
  show ?thesis by simp
qed

definition exampleLockfile :: lockfileObject where
  "exampleLockfile = emptyLockfile\<lparr>
     importers := [(''.'', emptyProject\<lparr>prodDeps := Some [(''a'', ''1.0.0'')], specifiers := [(''a'', ''1'')]\<rparr>)],
     packages := Some [(''a@1.0.0'', emptyPackage\<lparr>dependencies := Some [(''B'', ''2.0.0'')]\<rparr>),
       (''B@2.0.0'', emptyPackage)]\<rparr>"

definition exampleOpts :: hoistOpts where
  "exampleOpts = \<lparr>hoLockfile = exampleLockfile, hoImporterIds = None, hoPrivateHoistPattern = [''*''],
     hoPrivateHoistedModulesDir = ''/w/node_modules/.pnpm/node_modules'', hoPublicHoistPattern = [''*eslint*''],
     hoPublicHoistedModulesDir = ''/w/node_modules'', hoHoistedWorkspacePackages = None,
     hoVirtualStoreDir = ''/w/node_modules/.pnpm'', hoVirtualStoreDirMaxLength = 120\<rparr>"

definition exampleWalk :: lockfileWalkerResult where
  "exampleWalk = projr (lockfileWalker exampleLockfile [''.''] None [])"

lemma example_walk:
  "lockfileWalker (hoLockfile exampleOpts) (case hoImporterIds exampleOpts of Some ids \<Rightarrow> ids
      | None \<Rightarrow> keys (importers (hoLockfile exampleOpts))) None [] = Inr exampleWalk"
  by code_simp

lemma example_hoisted:
  "getHoistedDependencies exampleCompare exampleOpts =
     Inr (Some \<lparr>hoistedAliases = [''a'', ''b''], hoistedDeps = [(''B@2.0.0'', [(''B'', PrivateHoist)])],
       hoistedAliasesWithBins = []\<rparr>)"
  by code_simp


definition exampleFs :: "(str \<times> str option) list hoistFs" where
  "exampleFs = \<lparr>fsSymlinkDir = (\<lambda>l d overwrite s.
       if \<not> overwrite \<and> map_of s d \<noteq> None then (Some ''EEXIST'', s) else (None, jset d (Some l) s)),
     fsResolveLinkTarget = (\<lambda>d s. Option.bind (map_of s d) id), fsUnlink = (\<lambda>d s. (None, jdel d s)),
     fsIsSubdir = (\<lambda>dir f. startsWith f dir)\<rparr>"

theorem symlinkHoistedDependency_safe_witness:
  "map_of (snd (symlinkHoistedDependency exampleFs ''/w/node_modules/.pnpm'' ''/w/node_modules/.pnpm/a@1/node_modules/a''
     ''/w/node_modules/a'' [(''/w/node_modules/a'', Some ''/src/a'')])) ''/w/node_modules/a'' = Some (Some ''/src/a'')"
  by (rule symlinkHoistedDependency_safe [where entry = map_of and target = id])
    (simp_all add: fsLaws_def exampleFs_def startsWith_def)

end
