(* ===== verification/UpdateLockfile.thy ===== *)
theory UpdateLockfile
  imports LockfileUtils LockfilePruner
begin

text \<open>
  pkg-manager/resolve-dependencies/src/updateLockfile.ts: writing the resolved graph of dependencies into the
  lockfile, and the records of the graph (resolveDependencies.ts, resolvePeers.ts). A \<open>Set\<close> is a distinct list.
  Of a patch only its presence is kept; \<open>get-npm-tarball-url\<close> is a parameter. The pruner at the end is
  \<open>LockfilePruner\<close>.
\<close>

section \<open>The graph of dependencies\<close>

record peerDependency =
  pdVersion :: str
  pdOptional :: "bool option"

record resolvedPackage =
  rpId :: str
  rpPkgIdWithPatchHash :: str
  rpName :: str
  rpVersion :: str
  rpResolution :: resolution
  rpPeerDependencies :: "peerDependency obj"
  rpOptionalDependencies :: "str list"
  rpOptional :: bool
  rpHasBin :: bool
  rpPatched :: bool
  rpEngines :: "str obj option"
  rpCpu :: "str list option"
  rpOs :: "str list option"
  rpLibc :: "str list option"
  rpBundledDependencies :: "(str list + bool) option"
  rpBundleDependencies :: "(str list + bool) option"
  rpDeprecated :: "str option"

record graphNode = resolvedPackage +
  gnChildren :: "depPath obj"
  gnTransitivePeerDependencies :: "str list"
  gnResolvedPeerNames :: "str list"
  gnDepth :: int

type_synonym dependenciesGraph = "graphNode obj"

section \<open>updateLockfile\<close>

definition updateResolvedDep :: "dependenciesGraph \<Rightarrow> str \<times> depPath \<Rightarrow> js_error + str \<times> str" where
  "updateResolvedDep graph child =
     (case child of (alias, depPath) \<Rightarrow>
        if startsWith depPath ''link:'' then Inr (alias, depPath)
        else (case map_of graph depPath of
          None \<Rightarrow> Inl (TypeError ''depNode.name'')
        | Some depNode \<Rightarrow> Inr (alias, depPathToRef depPath alias (rpName depNode))))"

definition updateResolvedDeps :: "dependenciesGraph \<Rightarrow> depPath obj \<Rightarrow> js_error + deps" where
  "updateResolvedDeps graph updatedDeps =
     sbind (smap (updateResolvedDep graph) updatedDeps) (\<lambda>ds. Inr (fold (\<lambda>(a, r). jset a r) ds []))"

definition nonEmpty :: "'a list \<Rightarrow> 'a list option" where
  "nonEmpty xs = (if xs = [] then None else Some xs)"

text \<open>\<open>Array.isArray(x) || x === true\<close>\<close>

definition bundlesOf :: "(str list + bool) option \<Rightarrow> (str list + bool) option" where
  "bundlesOf b = (case b of Some (Inl xs) \<Rightarrow> Some (Inl xs) | Some (Inr True) \<Rightarrow> Some (Inr True) | _ \<Rightarrow> None)"

definition optionalPeer :: "graphNode \<Rightarrow> str \<Rightarrow> bool" where
  "optionalPeer n alias = (case map_of (rpPeerDependencies n) alias of None \<Rightarrow> False | Some p \<Rightarrow> pdOptional p = Some True)"

definition toLockfileDependency ::
    "(str \<Rightarrow> str \<Rightarrow> str \<Rightarrow> str) \<Rightarrow> dependenciesGraph \<Rightarrow> depPath \<Rightarrow> graphNode \<Rightarrow> str \<Rightarrow> bool \<Rightarrow>
     depPath obj \<Rightarrow> depPath obj \<Rightarrow> js_error + packageSnapshot" where
  "toLockfileDependency getNpmTarballUrl graph depPath pkg registry includeTarballUrl updatedDeps updatedOptionalDeps =
     sbind (toLockfileResolution getNpmTarballUrl (rpName pkg) (rpVersion pkg) (rpResolution pkg) registry includeTarballUrl)
       (\<lambda>lockfileResolution.
     sbind (updateResolvedDeps graph updatedDeps) (\<lambda>newResolvedDeps.
     sbind (updateResolvedDeps graph updatedOptionalDeps) (\<lambda>newResolvedOptionalDeps.
       Inr (emptyPackage\<lparr>
         pkgResolution := Some lockfileResolution,
         pkgVersion := (if CHR '':'' \<in> set depPath \<and> rpVersion pkg \<noteq> [] \<and>
             resolutionType lockfileResolution \<noteq> Some ''directory'' then Some (rpVersion pkg) else None),
         dependencies := nonEmpty newResolvedDeps,
         optionalDependencies := nonEmpty newResolvedOptionalDeps,
         optional := (if rpOptional pkg then Some True else None),
         transitivePeerDependencies := nonEmpty (sort (gnTransitivePeerDependencies pkg)),
         peerDependencies := nonEmpty (map (\<lambda>(peer, p). (peer, pdVersion p)) (rpPeerDependencies pkg)),
         peerDependenciesMeta := nonEmpty (List.map_filter
             (\<lambda>(peer, p). if pdOptional p = Some True then Some (peer, True) else None) (rpPeerDependencies pkg)),
         engines := nonEmpty (filter (\<lambda>(_, version). version \<noteq> ''*'') (orEmpty (rpEngines pkg))),
         cpu := rpCpu pkg, os := rpOs pkg, libc := rpLibc pkg,
         bundledDependencies := orElse (bundlesOf (rpBundledDependencies pkg)) (bundlesOf (rpBundleDependencies pkg)),
         deprecated := (if truthy (rpDeprecated pkg) then rpDeprecated pkg else None),
         hasBin := (if rpHasBin pkg then Some True else None),
         patched := (if rpPatched pkg then Some True else None)\<rparr>))))"

text \<open>One node: its children are split into optional ones and the others, and its entry is written.\<close>

definition updateEntry ::
    "(str \<Rightarrow> str \<Rightarrow> str \<Rightarrow> str) \<Rightarrow> registries \<Rightarrow> bool \<Rightarrow> dependenciesGraph \<Rightarrow> depPath \<times> graphNode \<Rightarrow>
     packageSnapshots \<Rightarrow> js_error + packageSnapshots" where
  "updateEntry getNpmTarballUrl regs includeTarballUrl graph entry pkgs =
     (case entry of (depPath, depNode) \<Rightarrow>
        let (updatedOptionalDeps, updatedDeps) =
          partition (\<lambda>(alias, _). alias \<in> set (rpOptionalDependencies depNode) \<or> optionalPeer depNode alias) (gnChildren depNode)
        in sbind (toLockfileDependency getNpmTarballUrl graph depPath depNode
              (getRegistryByPackageName regs (rpName depNode)) includeTarballUrl updatedDeps updatedOptionalDeps)
            (\<lambda>snapshot. Inr (jset depPath snapshot pkgs)))"

definition updateLockfile ::
    "(str \<Rightarrow> str \<Rightarrow> str \<Rightarrow> str) \<Rightarrow> registries \<Rightarrow> bool \<Rightarrow> dependenciesGraph \<Rightarrow> lockfileObject \<Rightarrow>
     js_error + lockfileObject \<times> prunerCtx" where
  "updateLockfile getNpmTarballUrl regs includeTarballUrl graph lockfile =
     sbind (sfold (updateEntry getNpmTarballUrl regs includeTarballUrl graph) graph (orEmpty (packages lockfile)))
       (\<lambda>pkgs. Inr (pruneSharedLockfile (lockfile\<lparr>packages := Some pkgs\<rparr>)
          (Some (map (\<lambda>(d, n). (d, Some (rpOptional n))) graph))))"

section \<open>The edges that are written\<close>

text \<open>The references of a node are readable when reading them back gives the dependency paths of the children.\<close>

definition childPaths :: "graphNode \<Rightarrow> depPath list" where
  "childPaths n = filter (\<lambda>d. \<not> startsWith d ''link:'') (vals (gnChildren n))"

definition readableRefs :: "dependenciesGraph \<Rightarrow> graphNode \<Rightarrow> bool" where
  "readableRefs graph n \<longleftrightarrow> distinct (keys (gnChildren n)) \<and>
     list_all (\<lambda>(alias, d). startsWith d ''link:'' \<or>
       (case map_of graph d of None \<Rightarrow> False
        | Some m \<Rightarrow> refToRelative (depPathToRef d alias (rpName m)) alias = Some d)) (gnChildren n)"

lemma updateResolvedDep_path:
  assumes "updateResolvedDep graph (alias, d) = Inr (alias', ref)"
    and "startsWith d ''link:'' \<or>
       (case map_of graph d of None \<Rightarrow> False
        | Some m \<Rightarrow> refToRelative (depPathToRef d alias (rpName m)) alias = Some d)"
  shows "alias' = alias \<and> refToRelative ref alias = (if startsWith d ''link:'' then None else Some d)"
  using assms by (auto simp: updateResolvedDep_def refToRelative_def split: if_splits option.splits)

lemma updateResolvedDeps_paths:
  assumes "updateResolvedDeps graph children = Inr ds" "distinct (keys children)"
    and "list_all (\<lambda>(alias, d). startsWith d ''link:'' \<or>
       (case map_of graph d of None \<Rightarrow> False
        | Some m \<Rightarrow> refToRelative (depPathToRef d alias (rpName m)) alias = Some d)) children"
  shows "set (resolvedDepsToDepPaths ds) = {d \<in> set (vals children). \<not> startsWith d ''link:''}"
proof -
  obtain rs where rs: "list_all2 (\<lambda>c r. updateResolvedDep graph c = Inr r) children rs"
    and ds: "ds = fold (\<lambda>(a, r). jset a r) rs []"
    using assms(1) by (auto simp: updateResolvedDeps_def sbind_Inr_iff smap_Inr_iff)
  have "list_all2 (\<lambda>(alias, d) (alias', ref). alias' = alias \<and>
      refToRelative ref alias = (if startsWith d ''link:'' then None else Some d)) children rs"
    using rs assms(3)
  proof (induction rule: list_all2_induct)
    case (Cons c cs r rs)
    then show ?case using updateResolvedDep_path by (cases c; cases r) auto
  qed simp
  then have "keys rs = keys children \<and>
      (\<forall>d. (\<exists>(a, ref) \<in> set rs. refToRelative ref a = Some d) \<longleftrightarrow> d \<in> set (vals children) \<and> \<not> startsWith d ''link:'')"
    by (induction rule: list_all2_induct) (auto split: if_splits)
  moreover have "ds = rs" if "distinct (keys rs)" unfolding ds using fold_jset_distinct that by blast
  ultimately show ?thesis using assms(2) by (simp add: set_resolvedDepsToDepPaths)
qed

text \<open>The edges of an entry that has just been written are the children of the node.\<close>

definition writtenEdges :: "packageSnapshot \<Rightarrow> depPath set" where
  "writtenEdges p = set (resolvedDepsToDepPaths (orEmpty (dependencies p))) \<union>
     set (resolvedDepsToDepPaths (orEmpty (optionalDependencies p)))"

lemma orEmpty_nonEmpty [simp]: "orEmpty (nonEmpty xs) = xs"
  by (simp add: nonEmpty_def)

lemma toLockfileDependency_edges:
  assumes "toLockfileDependency url graph d n reg inc rest opt = Inr p"
    and "readableRefs graph n" "(opt, rest) = partition P (gnChildren n)"
  shows "writtenEdges p = set (childPaths n)"
proof -
  obtain ds os where ds: "updateResolvedDeps graph rest = Inr ds" and os: "updateResolvedDeps graph opt = Inr os"
    and p: "dependencies p = nonEmpty ds" "optionalDependencies p = nonEmpty os"
    using assms(1) by (auto simp: toLockfileDependency_def sbind_Inr_iff)
  have parts: "opt = filter P (gnChildren n)" "rest = filter (Not \<circ> P) (gnChildren n)" using assms(3) by simp_all
  have dist: "distinct (keys (gnChildren n))" using assms(2) by (simp add: readableRefs_def)
  note read = updateResolvedDeps_paths
  have "set (resolvedDepsToDepPaths ds) = {d \<in> set (vals rest). \<not> startsWith d ''link:''}"
    by (rule read [OF ds]) (use assms(2) dist in \<open>auto simp: parts readableRefs_def list_all_iff distinct_keys_filter\<close>)
  moreover have "set (resolvedDepsToDepPaths os) = {d \<in> set (vals opt). \<not> startsWith d ''link:''}"
    by (rule read [OF os]) (use assms(2) dist in \<open>auto simp: parts readableRefs_def list_all_iff distinct_keys_filter\<close>)
  moreover have "set (vals (gnChildren n)) = set (vals opt) \<union> set (vals rest)"
    unfolding parts by auto
  ultimately show ?thesis unfolding writtenEdges_def p orEmpty_nonEmpty childPaths_def by auto
qed

definition entryWritten :: "graphNode \<Rightarrow> packageSnapshot \<Rightarrow> bool" where
  "entryWritten n p \<longleftrightarrow> writtenEdges p = set (childPaths n) \<and>
     optional p = (if rpOptional n then Some True else None)"

lemma updateEntry_written:
  assumes "updateEntry url regs inc graph (d, n) pkgs = Inr pkgs'" "readableRefs graph n"
  shows "\<exists>p. pkgs' = jset d p pkgs \<and> entryWritten n p"
proof -
  let ?P = "\<lambda>(alias, _). alias \<in> set (rpOptionalDependencies n) \<or> optionalPeer n alias"
  obtain opt rest where part: "partition ?P (gnChildren n) = (opt, rest)" by (rule prod.exhaust)
  obtain p where p: "toLockfileDependency url graph d n (getRegistryByPackageName regs (rpName n)) inc rest opt = Inr p"
    and pkgs': "pkgs' = jset d p pkgs"
    using assms(1) unfolding updateEntry_def prod.case part Let_def by (auto simp: sbind_Inr_iff)
  have "writtenEdges p = set (childPaths n)"
    by (rule toLockfileDependency_edges [OF p assms(2) part [symmetric]])
  moreover have "optional p = (if rpOptional n then Some True else None)"
    using p by (auto simp: toLockfileDependency_def sbind_Inr_iff)
  ultimately show ?thesis using pkgs' by (auto simp: entryWritten_def)
qed

lemma updateEntries_written:
  "sfold (updateEntry url regs inc graph) es pkgs = Inr pkgs' \<Longrightarrow> distinct (keys es) \<Longrightarrow>
   \<forall>(d, n) \<in> set es. readableRefs graph n \<Longrightarrow>
     (\<forall>d. case map_of es d of
        None \<Rightarrow> map_of pkgs' d = map_of pkgs d
      | Some n \<Rightarrow> \<exists>p. map_of pkgs' d = Some p \<and> entryWritten n p)"
proof (induction es arbitrary: pkgs)
  case (Cons e es)
  obtain d n where e: "e = (d, n)" by (cases e)
  obtain pkgs1 where 1: "updateEntry url regs inc graph (d, n) pkgs = Inr pkgs1"
    and 2: "sfold (updateEntry url regs inc graph) es pkgs1 = Inr pkgs'"
    using Cons.prems(1) by (auto simp: e sbind_Inr_iff)
  obtain p where p: "pkgs1 = jset d p pkgs" "entryWritten n p"
    using updateEntry_written [OF 1] Cons.prems(3) by (auto simp: e)
  have IH: "\<forall>d. case map_of es d of None \<Rightarrow> map_of pkgs' d = map_of pkgs1 d
      | Some n \<Rightarrow> \<exists>p. map_of pkgs' d = Some p \<and> entryWritten n p"
    by (rule Cons.IH [OF 2]) (use Cons.prems(2,3) in auto)
  have "map_of es d = None" using Cons.prems(2) by (simp add: e map_of_eq_None_iff)
  show ?case
  proof
    fix x
    show "case map_of (e # es) x of None \<Rightarrow> map_of pkgs' x = map_of pkgs x
        | Some n \<Rightarrow> \<exists>p. map_of pkgs' x = Some p \<and> entryWritten n p"
      using spec [OF IH, of x] p(2) \<open>map_of es d = None\<close>
      by (cases "x = d"; cases "map_of es x") (simp_all add: e p(1) alist.get_put)
  qed
qed simp

text \<open>The edges that the new lockfile should have: of a node its children, of any other package what it had.\<close>

definition newEdges :: "dependenciesGraph \<Rightarrow> packageSnapshots \<Rightarrow> depPath \<Rightarrow> depPath list" where
  "newEdges graph pkgs d = (case map_of graph d of Some n \<Rightarrow> childPaths n | None \<Rightarrow> allEdges pkgs d)"

lemma allEdges_written: "map_of pkgs d = Some p \<Longrightarrow> set (allEdges pkgs d) = writtenEdges p"
  by (simp add: allEdges_def newDependencies_def newOptionalDependencies_def writtenEdges_def)

lemma reach_set_cong: "(\<And>n. set (step n) = set (step' n)) \<Longrightarrow> reach step R = reach step' R"
  by (simp add: reach_def)


section \<open>An example\<close>

definition exampleNode :: "str \<Rightarrow> depPath obj \<Rightarrow> graphNode" where
  "exampleNode name children = \<lparr>rpId = name @ ''@1.0.0'', rpPkgIdWithPatchHash = name @ ''@1.0.0'', rpName = name,
     rpVersion = ''1.0.0'', rpResolution = DirectoryResolution name, rpPeerDependencies = [],
     rpOptionalDependencies = [], rpOptional = False, rpHasBin = False, rpPatched = False, rpEngines = None,
     rpCpu = None, rpOs = None, rpLibc = None, rpBundledDependencies = None, rpBundleDependencies = None,
     rpDeprecated = None, gnChildren = children, gnTransitivePeerDependencies = [], gnResolvedPeerNames = [],
     gnDepth = 0\<rparr>"

definition exampleGraph :: dependenciesGraph where
  "exampleGraph = [(''a@1.0.0'', exampleNode ''a'' [(''b'', ''b@1.0.0''), (''c'', ''link:../c'')]),
     (''b@1.0.0'', exampleNode ''b'' [])]"

definition exampleLockfile :: lockfileObject where
  "exampleLockfile = emptyLockfile\<lparr>importers := [(''.'', emptyProject\<lparr>prodDeps := Some [(''a'', ''1.0.0'')]\<rparr>)],
     packages := Some [(''old@1.0.0'', emptyPackage)]\<rparr>"

definition exampleUpdate :: "lockfileObject \<times> prunerCtx" where
  "exampleUpdate = projr (updateLockfile (\<lambda>n v r. r @ n @ v) \<lparr>regDefault = ''https://r/'', regScopes = []\<rparr> False
     exampleGraph exampleLockfile)"

lemma example_update:
  "updateLockfile (\<lambda>n v r. r @ n @ v) \<lparr>regDefault = ''https://r/'', regScopes = []\<rparr> False exampleGraph exampleLockfile =
     Inr (fst exampleUpdate, snd exampleUpdate)"
  by code_simp


end
