(* ===== verification/PeerDedupe.thy ===== *)
theory PeerDedupe
  imports UpdateLockfile JsSort
begin

text \<open>
  pkg-manager/resolve-dependencies/src: the pass over the graph after its peers are resolved. A package that was
  resolved with several sets of peers has several dependency paths; \<open>deduplicateAll\<close> (resolvePeers.ts) replaces a
  path by another one of the same package that has at least its dependencies and its peers. The graph is
  changed in place by the code; the model returns it.
\<close>

section \<open>One set of duplicates\<close>

definition nodeDepsCount :: "graphNode \<Rightarrow> nat" where
  "nodeDepsCount node = length (gnChildren node) + length (gnResolvedPeerNames node)"

definition isCompatibleAndHasMoreDeps :: "graphNode \<Rightarrow> graphNode \<Rightarrow> bool" where
  "isCompatibleAndHasMoreDeps node1 node2 \<longleftrightarrow>
     nodeDepsCount node2 \<le> nodeDepsCount node1 \<and>
     list_all (\<lambda>d. d \<in> set (vals (gnChildren node1))) (vals (gnChildren node2)) \<and>
     list_all (\<lambda>p. p \<in> set (gnResolvedPeerNames node1)) (gnResolvedPeerNames node2)"

type_synonym pathNode = "depPath \<times> graphNode"

definition depCountSorter :: "pathNode \<Rightarrow> pathNode \<Rightarrow> int" where
  "depCountSorter a b = int (nodeDepsCount (snd a)) - int (nodeDepsCount (snd b))"

record dedupeState =
  dsMap :: "depPath obj"
  dsUnresolved :: "depPath list"
  dsNext :: "pathNode list"

text \<open>The inner loop compares the last path with each of the others, from the last to the first.\<close>

definition compareWith :: "pathNode \<Rightarrow> pathNode \<Rightarrow> dedupeState \<Rightarrow> dedupeState" where
  "compareWith one two st =
     (if isCompatibleAndHasMoreDeps (snd one) (snd two)
      then st\<lparr>dsMap := jset (fst two) (fst one) (dsMap st),
              dsUnresolved := filter (\<lambda>d. d \<noteq> fst one \<and> d \<noteq> fst two) (dsUnresolved st)\<rparr>
      else st\<lparr>dsNext := dsNext st @ [two]\<rparr>)"

lemma dsNext_compareWith: "length (dsNext (fold (compareWith one) xs st)) \<le> length (dsNext st) + length xs"
proof (induction xs arbitrary: st)
  case (Cons x xs)
  have "length (dsNext (compareWith one x st)) \<le> length (dsNext st) + 1" by (simp add: compareWith_def)
  with Cons [of "compareWith one x st"] show ?case by simp
qed simp

function dedupeLoop :: "pathNode list \<Rightarrow> depPath obj \<Rightarrow> depPath list \<Rightarrow> depPath obj \<times> depPath list" where
  "dedupeLoop currentDepPaths depPathsMap unresolved =
     (if currentDepPaths = [] then (depPathsMap, unresolved)
      else let st = fold (compareWith (last currentDepPaths)) (rev (butlast currentDepPaths))
                 \<lparr>dsMap = depPathsMap, dsUnresolved = unresolved, dsNext = []\<rparr>
           in dedupeLoop (jsSort depCountSorter (dsNext st)) (dsMap st) (dsUnresolved st))"
  by pat_completeness auto

termination dedupeLoop
proof (relation "measure (\<lambda>(cur, _, _). length cur)", goal_cases)
  case (2 cur m u st)
  have "length (dsNext st) \<le> length (butlast cur)"
    unfolding 2(2) by (rule order_trans [OF dsNext_compareWith]) simp
  with 2(1) show ?case by (simp add: Suc_le_eq) (metis One_nat_def diff_less length_greater_0_conv less_le_trans not_le zero_less_one)
qed simp

declare dedupeLoop.simps [simp del]

section \<open>deduplicateAll\<close>

text \<open>A dependency path without a node makes the comparison of the sort throw.\<close>

definition nodesOf :: "dependenciesGraph \<Rightarrow> depPath list \<Rightarrow> js_error + pathNode list" where
  "nodesOf depGraph depPaths =
     smap (\<lambda>d. case map_of depGraph d of None \<Rightarrow> Inl (TypeError ''node.children'') | Some n \<Rightarrow> Inr (d, n)) depPaths"

definition deduplicateSet ::
    "dependenciesGraph \<Rightarrow> depPath list \<Rightarrow> depPath obj \<times> depPath list list \<Rightarrow> js_error + depPath obj \<times> depPath list list" where
  "deduplicateSet depGraph depPaths acc =
     sbind (nodesOf depGraph depPaths) (\<lambda>nodes.
       let (depPathsMap, unresolved) = dedupeLoop (jsSort depCountSorter nodes) (fst acc) depPaths
       in Inr (depPathsMap, if unresolved = [] then snd acc else snd acc @ [unresolved]))"

definition deduplicateDepPaths ::
    "depPath list list \<Rightarrow> dependenciesGraph \<Rightarrow> js_error + depPath obj \<times> depPath list list" where
  "deduplicateDepPaths duplicates depGraph = sfold (deduplicateSet depGraph) duplicates ([], [])"

definition replaceChildren :: "depPath obj \<Rightarrow> graphNode \<Rightarrow> graphNode" where
  "replaceChildren depPathsMap node = node\<lparr>gnChildren :=
     map (\<lambda>(alias, d). (alias, if truthy (map_of depPathsMap d) then the (map_of depPathsMap d) else d)) (gnChildren node)\<rparr>"

lemma deduplicateSet_length:
  "deduplicateSet g s acc = Inr acc' \<Longrightarrow> length (snd acc') \<le> length (snd acc) + 1"
  by (auto simp: deduplicateSet_def sbind_Inr_iff Let_def case_prod_unfold split: if_splits)

lemma deduplicateDepPaths_length:
  assumes "deduplicateDepPaths duplicates g = Inr (m, remaining)"
  shows "length remaining \<le> length duplicates"
proof -
  have "sfold (deduplicateSet g) ds acc = Inr acc' \<Longrightarrow> length (snd acc') \<le> length (snd acc) + length ds" for ds acc acc'
  proof (induction ds arbitrary: acc)
    case (Cons s ds)
    then obtain acc1 where "deduplicateSet g s acc = Inr acc1" "sfold (deduplicateSet g) ds acc1 = Inr acc'"
      by (auto simp: sbind_Inr_iff)
    from deduplicateSet_length [OF this(1)] Cons.IH [OF this(2)] show ?case by simp
  qed simp
  from this [of duplicates "([], [])" "(m, remaining)"] assms show ?thesis by (simp add: deduplicateDepPaths_def)
qed

function deduplicateAll ::
    "dependenciesGraph \<Rightarrow> depPath list list \<Rightarrow> js_error + depPath obj \<times> dependenciesGraph" where
  "deduplicateAll depGraph duplicates =
     sbind (deduplicateDepPaths duplicates depGraph) (\<lambda>(depPathsMap, remaining).
       if length remaining = length duplicates then Inr (depPathsMap, depGraph)
       else let depGraph' = map (\<lambda>(d, n). (d, replaceChildren depPathsMap n)) depGraph in
         if depPathsMap \<noteq> []
         then sbind (deduplicateAll depGraph' remaining) (\<lambda>(rest, depGraph''). Inr (spread depPathsMap rest, depGraph''))
         else Inr (depPathsMap, depGraph'))"
  by pat_completeness auto

termination deduplicateAll
proof (relation "measure (\<lambda>(_, ds). length ds)", goal_cases)
  case (2 g duplicates x m remaining)
  then show ?case using deduplicateDepPaths_length [of duplicates g m remaining] by simp
qed simp

declare deduplicateAll.simps [simp del]

section \<open>What is replaced\<close>

text \<open>The dependency paths that a map replaces or replaces others by.\<close>

definition touched :: "depPath obj \<Rightarrow> depPath set" where
  "touched m = {x. map_of m x \<noteq> None \<or> (\<exists>d. map_of m d = Some x)}"

lemma touchedI: "map_of m d = Some e \<Longrightarrow> d \<in> touched m \<and> e \<in> touched m"
  by (auto simp: touched_def)

lemma touched_if:
  assumes "\<And>d. map_of m' d = (if C d then Some e else map_of m d)"
    and "\<And>d. C d \<Longrightarrow> map_of m d = None"
  shows "touched m' = touched m \<union> (if \<exists>d. C d then insert e {d. C d} else {})"
proof -
  have "(\<exists>d. map_of m' d = Some x) \<longleftrightarrow> (\<exists>d. map_of m d = Some x) \<or> (x = e \<and> (\<exists>d. C d))" for x
    using assms by (metis option.distinct(1) option.inject)
  moreover have "map_of m' x \<noteq> None \<longleftrightarrow> map_of m x \<noteq> None \<or> C x" for x
    using assms(1) by simp
  ultimately show ?thesis by (auto simp: touched_def)
qed

text \<open>The paths of \<open>xs\<close> that \<open>one\<close> replaces.\<close>

definition replacedBy :: "pathNode \<Rightarrow> pathNode list \<Rightarrow> depPath \<Rightarrow> bool" where
  "replacedBy one xs d \<longleftrightarrow> (\<exists>n. (d, n) \<in> set xs \<and> isCompatibleAndHasMoreDeps (snd one) n)"

lemma replacedBy_simps [simp]:
  "replacedBy one [] d = False"
  "replacedBy one (x # xs) d \<longleftrightarrow> d = fst x \<and> isCompatibleAndHasMoreDeps (snd one) (snd x) \<or> replacedBy one xs d"
  by (cases x; auto simp: replacedBy_def)+

lemma replacedBy_in: "replacedBy one xs d \<Longrightarrow> d \<in> fst ` set xs"
  by (force simp: replacedBy_def)

definition settled :: "pathNode \<Rightarrow> pathNode list \<Rightarrow> depPath set" where
  "settled one xs = (if \<exists>d. replacedBy one xs d then insert (fst one) {d. replacedBy one xs d} else {})"

lemma settled_Cons: "settled one (x # xs) =
  (if isCompatibleAndHasMoreDeps (snd one) (snd x) then {fst one, fst x} else {}) \<union> settled one xs"
  by (auto simp: settled_def)

lemma settled_in: "settled one xs \<subseteq> insert (fst one) (fst ` set xs)"
  by (auto simp: settled_def dest: replacedBy_in)

lemma compareWith_fold:
  "map_of (dsMap (fold (compareWith one) xs st)) d =
     (if replacedBy one xs d then Some (fst one) else map_of (dsMap st) d)"
  "dsNext (fold (compareWith one) xs st) =
     dsNext st @ filter (\<lambda>x. \<not> isCompatibleAndHasMoreDeps (snd one) (snd x)) xs"
  "set (dsUnresolved (fold (compareWith one) xs st)) = set (dsUnresolved st) - settled one xs"
proof (induction xs arbitrary: st)
  case Nil
  { case 3 then show ?case by (simp add: settled_def) }
next
  case (Cons x xs)
  { case 1 show ?case unfolding fold_simps comp_apply Cons(1) by (simp add: compareWith_def alist.get_put) }
  { case 2 show ?case unfolding fold_simps comp_apply Cons(2) by (simp add: compareWith_def) }
  { case 3 show ?case unfolding fold_simps comp_apply Cons(3) settled_Cons by (auto simp: compareWith_def) }
qed simp_all

text \<open>What one set of duplicates adds to the map: pairs of its paths, where the second stays and has all that
  the first has.\<close>

definition addsPairs :: "pathNode set \<Rightarrow> depPath obj \<Rightarrow> depPath obj \<Rightarrow> bool" where
  "addsPairs cur m m' \<longleftrightarrow> (\<forall>d e. map_of m d = Some e \<longrightarrow> map_of m' d = Some e) \<and>
     (\<forall>d e. map_of m' d = Some e \<and> map_of m d = None \<longrightarrow> d \<noteq> e \<and> map_of m' e = None \<and>
        (\<exists>n1 n2. (e, n1) \<in> cur \<and> (d, n2) \<in> cur \<and> isCompatibleAndHasMoreDeps n1 n2))"

lemma addsPairs_old: "addsPairs cur m m' \<Longrightarrow> map_of m d = Some e \<Longrightarrow> map_of m' d = Some e"
  by (simp add: addsPairs_def)

lemma addsPairs_new:
  "addsPairs cur m m' \<Longrightarrow> map_of m' d = Some e \<Longrightarrow> map_of m d = None \<Longrightarrow> d \<noteq> e \<and> map_of m' e = None \<and>
     (\<exists>n1 n2. (e, n1) \<in> cur \<and> (d, n2) \<in> cur \<and> isCompatibleAndHasMoreDeps n1 n2)"
  by (simp add: addsPairs_def)

lemma addsPairsI:
  assumes "\<And>d e. map_of m d = Some e \<Longrightarrow> map_of m' d = Some e"
    and "\<And>d e. map_of m' d = Some e \<Longrightarrow> map_of m d = None \<Longrightarrow> d \<noteq> e \<and> map_of m' e = None \<and>
      (\<exists>n1 n2. (e, n1) \<in> cur \<and> (d, n2) \<in> cur \<and> isCompatibleAndHasMoreDeps n1 n2)"
  shows "addsPairs cur m m'"
  unfolding addsPairs_def using assms by blast

lemma addsPairs_touched: "addsPairs cur m m' \<Longrightarrow> touched m \<subseteq> touched m'"
  unfolding touched_def using addsPairs_old by fastforce

lemma addsPairs_step:
  assumes fresh: "fst one \<notin> fst ` set xs" "insert (fst one) (fst ` set xs) \<inter> touched m = {}"
    and m1: "\<And>d. map_of m1 d = (if replacedBy one xs d then Some (fst one) else map_of m d)"
    and rest: "rest \<subseteq> set xs" "fst ` rest \<inter> touched m1 = {}" and IH: "addsPairs rest m1 m'"
  shows "addsPairs (insert one (set xs)) m m'"
proof (rule addsPairsI)
  fix d e assume de: "map_of m d = Some e"
  then have "d \<notin> fst ` set xs" using fresh(2) touchedI by blast
  then have "map_of m1 d = Some e" using m1 [of d] replacedBy_in [of one xs d] de by metis
  then show "map_of m' d = Some e" by (rule addsPairs_old [OF IH])
next
  fix d e assume de: "map_of m' d = Some e" "map_of m d = None"
  show "d \<noteq> e \<and> map_of m' e = None \<and>
      (\<exists>n1 n2. (e, n1) \<in> insert one (set xs) \<and> (d, n2) \<in> insert one (set xs) \<and> isCompatibleAndHasMoreDeps n1 n2)"
  proof (cases "replacedBy one xs d")
    case True
    then have "map_of m1 d = Some (fst one)" using m1 by simp
    then have e: "e = fst one" and one: "fst one \<in> touched m1"
      using addsPairs_old [OF IH] de(1) touchedI by fastforce+
    obtain n where n: "(d, n) \<in> set xs" "isCompatibleAndHasMoreDeps (snd one) n"
      using True by (auto simp: replacedBy_def)
    have "map_of m (fst one) = None" using fresh(2) by (auto simp: touched_def)
    then have "map_of m1 (fst one) = None" using m1 [of "fst one"] replacedBy_in [of one xs "fst one"] fresh(1) by metis
    then have "map_of m' e = None"
      using addsPairs_new [OF IH, of e] one rest(2) unfolding e by (cases "map_of m' (fst one)") force+
    moreover have "d \<noteq> e" using replacedBy_in [OF True] fresh(1) unfolding e by metis
    ultimately show ?thesis using n e by (metis insertI1 insertI2 prod.collapse)
  next
    case False
    then have "map_of m1 d = None" using m1 de(2) by simp
    from addsPairs_new [OF IH de(1) this] rest(1) show ?thesis by blast
  qed
qed

lemma dedupeLoop_spec:
  "dedupeLoop cur m u = (m', u') \<Longrightarrow> distinct (map fst cur) \<Longrightarrow> fst ` set cur \<inter> touched m = {} \<Longrightarrow>
     addsPairs (set cur) m m' \<and> set u' = set u - (touched m' - touched m) \<and> touched m' \<subseteq> touched m \<union> fst ` set cur"
proof (induction cur m u arbitrary: m' u' rule: dedupeLoop.induct)
  case (1 cur m u)
  show ?case
  proof (cases "cur = []")
    case True
    then show ?thesis using 1(2) by (simp add: dedupeLoop.simps addsPairs_def)
  next
    case False
    define one xs where one: "one = last cur" and xs: "xs = rev (butlast cur)"
    define st where st: "st = fold (compareWith one) xs \<lparr>dsMap = m, dsUnresolved = u, dsNext = []\<rparr>"
    define rest where rest: "rest = filter (\<lambda>x. \<not> isCompatibleAndHasMoreDeps (snd one) (snd x)) xs"
    have res: "dedupeLoop (jsSort depCountSorter (dsNext st)) (dsMap st) (dsUnresolved st) = (m', u')"
      using 1(2) False by (subst (asm) dedupeLoop.simps) (simp add: st one xs Let_def)
    have "cur = butlast cur @ [one]" using False by (simp add: one)
    then have cur: "cur = rev xs @ [one]" by (simp add: xs)
    then have cur': "set cur = insert one (set xs)" by simp
    have dist: "distinct (map fst xs)" "fst one \<notin> fst ` set xs" using 1(3) by (simp_all add: cur rev_map [symmetric])
    have fresh: "insert (fst one) (fst ` set xs) \<inter> touched m = {}" using 1(4) unfolding cur' by simp
    have m1: "map_of (dsMap st) d = (if replacedBy one xs d then Some (fst one) else map_of m d)" for d
      unfolding st compareWith_fold(1) by simp
    have next1: "dsNext st = rest" unfolding st compareWith_fold(2) by (simp add: rest)
    have u1: "set (dsUnresolved st) = set u - settled one xs" unfolding st compareWith_fold(3) by simp
    have none: "map_of m d = None" if "replacedBy one xs d" for d
      using replacedBy_in [OF that] fresh touchedI [of m d] by (cases "map_of m d") blast+
    have t1: "touched (dsMap st) = touched m \<union> settled one xs" unfolding settled_def
      by (rule touched_if [OF m1 none])
    have restf: "fst ` set rest \<inter> settled one xs = {}"
    proof -
      have "d \<notin> settled one xs" if d: "(d, n) \<in> set rest" for d n
      proof
        have dn: "(d, n) \<in> set xs" "\<not> isCompatibleAndHasMoreDeps (snd one) n" using d by (simp_all add: rest)
        have "d \<in> fst ` set xs" using dn(1) by (rule image_eqI [rotated]) simp
        then have "d \<noteq> fst one" using dist(2) by metis
        moreover assume "d \<in> settled one xs"
        ultimately have "replacedBy one xs d" by (simp add: settled_def split: if_splits)
        then obtain n' where n': "(d, n') \<in> set xs" "isCompatibleAndHasMoreDeps (snd one) n'"
          unfolding replacedBy_def by blast
        from eq_key_imp_eq_value [OF dist(1) n'(1) dn(1)] n'(2) dn(2) show False by simp
      qed
      then show ?thesis by fastforce
    qed
    have sub: "set rest \<subseteq> set xs" by (auto simp: rest)
    have disj: "fst ` set rest \<inter> touched (dsMap st) = {}" unfolding t1 using restf fresh sub by blast
    have "mset (map fst (jsSort depCountSorter rest)) = mset (map fst rest)" by simp
    then have "distinct (map fst (jsSort depCountSorter rest))"
      using distinct_map_filter [OF dist(1)] mset_eq_imp_distinct_iff unfolding rest by blast
    from 1(1) [OF False, folded one xs, OF st, unfolded next1, OF res [unfolded next1] this] disj
    have IH: "addsPairs (set rest) (dsMap st) m'" "set u' = set (dsUnresolved st) - (touched m' - touched (dsMap st))"
      "touched m' \<subseteq> touched (dsMap st) \<union> fst ` set rest" by simp_all
    have "addsPairs (set cur) m m'"
      unfolding cur' by (rule addsPairs_step [OF dist(2) fresh m1 sub disj IH(1)])
    moreover have "touched m' \<subseteq> touched m \<union> fst ` set cur"
      using IH(3) settled_in [of one xs] sub unfolding t1 cur' by blast
    moreover have "set u' = set u - (touched m' - touched m)"
    proof -
      have "settled one xs \<inter> touched m = {}" using settled_in [of one xs] fresh by blast
      then show ?thesis using IH(2) addsPairs_touched [OF IH(1)] unfolding u1 t1 by blast
    qed
    ultimately show ?thesis by blast
  qed
qed

lemma distinct_dsUnresolved:
  "distinct (dsUnresolved st) \<Longrightarrow> distinct (dsUnresolved (fold (compareWith one) xs st))"
  by (induction xs arbitrary: st) (simp_all add: compareWith_def)

lemma distinct_dedupeLoop: "distinct u \<Longrightarrow> distinct (snd (dedupeLoop cur m u))"
proof (induction cur m u rule: dedupeLoop.induct)
  case (1 cur m u)
  show ?case
  proof (cases "cur = []")
    case False
    show ?thesis by (subst dedupeLoop.simps) (simp add: False Let_def 1 distinct_dsUnresolved)
  qed (simp add: dedupeLoop.simps 1)
qed

section \<open>All sets of duplicates\<close>

lemma nodesOf_total:
  "\<forall>d \<in> set ds. map_of g d \<noteq> None \<Longrightarrow> nodesOf g ds = Inr (map (\<lambda>d. (d, the (map_of g d))) ds)"
  by (induction ds) (auto simp: nodesOf_def)

text \<open>What a pass adds to the map: pairs of one set, where the second stays and has all that the first has.\<close>

definition dedupePairs :: "dependenciesGraph \<Rightarrow> depPath list list \<Rightarrow> depPath obj \<Rightarrow> depPath obj \<Rightarrow> bool" where
  "dedupePairs g dups m m' \<longleftrightarrow> (\<forall>d e. map_of m d = Some e \<longrightarrow> map_of m' d = Some e) \<and>
     (\<forall>d e. map_of m' d = Some e \<and> map_of m d = None \<longrightarrow> d \<noteq> e \<and> map_of m' e = None \<and>
        (\<exists>S \<in> set dups. d \<in> set S \<and> e \<in> set S) \<and>
        isCompatibleAndHasMoreDeps (the (map_of g e)) (the (map_of g d)))"

text \<open>What is left for the next pass: parts of the sets that the pass did not touch.\<close>

definition dedupeRest :: "depPath list list \<Rightarrow> depPath obj \<Rightarrow> depPath list list \<Rightarrow> bool" where
  "dedupeRest dups m rest \<longleftrightarrow> distinct (concat rest) \<and> set (concat rest) \<subseteq> set (concat dups) - touched m \<and>
     (\<forall>S \<in> set rest. \<exists>T \<in> set dups. set S \<subseteq> set T)"

lemma deduplicateSet_spec:
  assumes "distinct ds" "\<forall>d \<in> set ds. map_of g d \<noteq> None" "set ds \<inter> touched (fst acc) = {}"
  shows "\<exists>m rest. deduplicateSet g ds acc = Inr (m, snd acc @ rest) \<and> dedupePairs g [ds] (fst acc) m \<and>
    touched m \<subseteq> touched (fst acc) \<union> set ds \<and> dedupeRest [ds] m rest"
proof -
  let ?nodes = "map (\<lambda>d. (d, the (map_of g d))) ds"
  obtain m u where mu: "dedupeLoop (jsSort depCountSorter ?nodes) (fst acc) ds = (m, u)" by (rule prod.exhaust)
  have ids: "map fst ?nodes = ds" by (simp add: comp_def)
  have "mset (map fst (jsSort depCountSorter ?nodes)) = mset ds" unfolding mset_map mset_jsSort by (metis ids mset_map)
  then have dist: "distinct (map fst (jsSort depCountSorter ?nodes))"
    using assms(1) mset_eq_imp_distinct_iff by blast
  have fsts: "fst ` set (jsSort depCountSorter ?nodes) = set ds"
    unfolding set_jsSort by (metis ids set_map)
  have s: "addsPairs (set ?nodes) (fst acc) m \<and> set u = set ds - (touched m - touched (fst acc)) \<and>
      touched m \<subseteq> touched (fst acc) \<union> set ds"
    using dedupeLoop_spec [OF mu dist, unfolded fsts, OF assms(3)] unfolding set_jsSort .
  have "distinct u" using distinct_dedupeLoop [OF assms(1)] mu by (metis snd_conv)
  have res: "deduplicateSet g ds acc = Inr (m, snd acc @ (if u = [] then [] else [u]))"
    by (simp add: deduplicateSet_def nodesOf_total [OF assms(2)] mu)
  have "dedupePairs g [ds] (fst acc) m"
    unfolding dedupePairs_def
  proof (intro conjI allI impI; (elim conjE)?)
    fix d e assume "map_of (fst acc) d = Some e"
    then show "map_of m d = Some e" by (rule addsPairs_old [OF s [THEN conjunct1]])
  next
    fix d e assume "map_of m d = Some e" "map_of (fst acc) d = None"
    from addsPairs_new [OF s [THEN conjunct1] this]
    obtain n1 n2 where de: "d \<noteq> e" "map_of m e = None" "(e, n1) \<in> set ?nodes" "(d, n2) \<in> set ?nodes"
      "isCompatibleAndHasMoreDeps n1 n2" by blast
    then show "d \<noteq> e" "map_of m e = None" by simp_all
    have "e \<in> set ds" "n1 = the (map_of g e)" "d \<in> set ds" "n2 = the (map_of g d)" using de(3,4) by auto
    then show "\<exists>S \<in> set [ds]. d \<in> set S \<and> e \<in> set S"
      "isCompatibleAndHasMoreDeps (the (map_of g e)) (the (map_of g d))" using de(5) by simp_all
  qed
  moreover have "dedupeRest [ds] m (if u = [] then [] else [u])"
    using s [THEN conjunct2, THEN conjunct1] assms(3) \<open>distinct u\<close> by (auto simp: dedupeRest_def)
  moreover note res s [THEN conjunct2, THEN conjunct2]
  ultimately show ?thesis by (intro exI conjI)
qed

lemma dedupePairs_touched: "dedupePairs g dups m m' \<Longrightarrow> touched m \<subseteq> touched m'"
  unfolding dedupePairs_def touched_def by fastforce

lemma dedupePairs_new:
  assumes "dedupePairs g dups m m'" "map_of m' d = Some e" "map_of m d = None"
  shows "d \<noteq> e" "map_of m' e = None" "\<exists>S \<in> set dups. d \<in> set S \<and> e \<in> set S"
    "isCompatibleAndHasMoreDeps (the (map_of g e)) (the (map_of g d))"
  using assms unfolding dedupePairs_def by blast+

lemma dedupePairs_trans:
  assumes 1: "dedupePairs g [ds] m m1" and 2: "dedupePairs g dups m1 m2"
    and t: "touched m1 \<inter> set (concat dups) = {}"
  shows "dedupePairs g (ds # dups) m m2"
  unfolding dedupePairs_def
proof (intro conjI allI impI; (elim conjE)?)
  fix d e assume "map_of m d = Some e"
  then show "map_of m2 d = Some e" using 1 2 unfolding dedupePairs_def by blast
next
  fix d e assume m2: "map_of m2 d = Some e" and m: "map_of m d = None"
  have "d \<noteq> e \<and> map_of m2 e = None \<and> (\<exists>S \<in> set (ds # dups). d \<in> set S \<and> e \<in> set S) \<and>
      isCompatibleAndHasMoreDeps (the (map_of g e)) (the (map_of g d))"
  proof (cases "map_of m1 d")
    case None
    then show ?thesis using dedupePairs_new [OF 2 m2 None] by auto
  next
    case (Some e')
    then have e': "e' = e" using 2 m2 unfolding dedupePairs_def by fastforce
    note n = dedupePairs_new [OF 1 Some m, unfolded e']
    have "e \<in> touched m1" using Some e' by (auto simp: touched_def)
    then have "e \<notin> set (concat dups)" using t by blast
    then have "map_of m2 e = None" using dedupePairs_new(3) [OF 2, of e] n(2) by (cases "map_of m2 e") auto
    then show ?thesis using n by auto
  qed
  then show "d \<noteq> e" "map_of m2 e = None" "\<exists>S \<in> set (ds # dups). d \<in> set S \<and> e \<in> set S"
    "isCompatibleAndHasMoreDeps (the (map_of g e)) (the (map_of g d))" by blast+
qed

lemma dedupeRest_append:
  assumes 1: "dedupeRest [ds] m1 r1" and 2: "dedupeRest dups m2 r2" and "set (concat r1) \<inter> touched m2 = {}"
    and "set ds \<inter> set (concat dups) = {}"
  shows "dedupeRest (ds # dups) m2 (r1 @ r2)"
proof -
  have a: "distinct (concat r1)" "set (concat r1) \<subseteq> set ds" "\<forall>S \<in> set r1. set S \<subseteq> set ds"
    using 1 by (auto simp: dedupeRest_def simp del: set_concat)
  have b: "distinct (concat r2)" "set (concat r2) \<subseteq> set (concat dups) - touched m2"
    "\<forall>S \<in> set r2. \<exists>T \<in> set dups. set S \<subseteq> set T"
    using 2 unfolding dedupeRest_def by blast+
  have "distinct (concat (r1 @ r2))"
    unfolding concat_append distinct_append using a(1,2) b(1,2) assms(4) by blast
  moreover have "set (concat (r1 @ r2)) \<subseteq> set (concat (ds # dups)) - touched m2"
    unfolding concat_append concat.simps set_append using a(2) b(2) assms(3) by blast
  moreover have "\<exists>T \<in> set (ds # dups). set S \<subseteq> set T" if "S \<in> set (r1 @ r2)" for S
  proof (cases "S \<in> set r1")
    case True
    then show ?thesis using a(3) by (intro bexI [of _ ds]) simp_all
  next
    case False
    then have "S \<in> set r2" using that by simp
    then show ?thesis using b(3) by (metis list.set_intros(2))
  qed
  ultimately show ?thesis unfolding dedupeRest_def by blast
qed

lemma deduplicateSets_spec:
  "distinct (concat dups) \<Longrightarrow> \<forall>d \<in> set (concat dups). map_of g d \<noteq> None \<Longrightarrow>
   set (concat dups) \<inter> touched (fst acc) = {} \<Longrightarrow>
     \<exists>m rest. sfold (deduplicateSet g) dups acc = Inr (m, snd acc @ rest) \<and> dedupePairs g dups (fst acc) m \<and>
       touched m \<subseteq> touched (fst acc) \<union> set (concat dups) \<and> dedupeRest dups m rest"
proof (induction dups arbitrary: acc)
  case Nil
  then show ?case by (cases acc) (auto simp: dedupePairs_def dedupeRest_def)
next
  case (Cons ds dups)
  have ds: "distinct ds" "\<forall>d \<in> set ds. map_of g d \<noteq> None" "set ds \<inter> touched (fst acc) = {}"
    and dups: "distinct (concat dups)" "\<forall>d \<in> set (concat dups). map_of g d \<noteq> None" "set (concat dups) \<inter> touched (fst acc) = {}"
    and dj: "set ds \<inter> set (concat dups) = {}" using Cons.prems by auto
  obtain m1 r1 where 1: "deduplicateSet g ds acc = Inr (m1, snd acc @ r1)" "dedupePairs g [ds] (fst acc) m1"
    "touched m1 \<subseteq> touched (fst acc) \<union> set ds" "dedupeRest [ds] m1 r1"
    using deduplicateSet_spec [OF ds] by blast
  have t: "set (concat dups) \<inter> touched m1 = {}" using 1(3) dups(3) dj by blast
  obtain m2 r2 where 2: "sfold (deduplicateSet g) dups (m1, snd acc @ r1) = Inr (m2, (snd acc @ r1) @ r2)"
    "dedupePairs g dups m1 m2" "touched m2 \<subseteq> touched m1 \<union> set (concat dups)" "dedupeRest dups m2 r2"
    using Cons.IH [OF dups(1,2), of "(m1, snd acc @ r1)"] t by auto
  have "sfold (deduplicateSet g) (ds # dups) acc = Inr (m2, snd acc @ (r1 @ r2))" by (simp add: 1(1) 2(1))
  moreover have "dedupePairs g (ds # dups) (fst acc) m2"
    by (rule dedupePairs_trans [OF 1(2) 2(2)]) (use t in blast)
  moreover have "touched m2 \<subseteq> touched (fst acc) \<union> set (concat (ds # dups))"
    using 1(3) 2(3) unfolding concat.simps set_append by blast
  moreover have "dedupeRest (ds # dups) m2 (r1 @ r2)"
  proof (rule dedupeRest_append [OF 1(4) 2(4) _ dj])
    have "set (concat r1) \<subseteq> set ds - touched m1" using 1(4) by (simp add: dedupeRest_def)
    then show "set (concat r1) \<inter> touched m2 = {}" using 2(3) dj by blast
  qed
  ultimately show ?case by (intro exI conjI)
qed

section \<open>The passes together\<close>

text \<open>A graph whose children are redirected, everywhere in the same way.\<close>

definition redirect :: "(depPath \<Rightarrow> depPath) \<Rightarrow> dependenciesGraph \<Rightarrow> dependenciesGraph" where
  "redirect f g = map (\<lambda>(d, n). (d, n\<lparr>gnChildren := map (\<lambda>(a, c). (a, f c)) (gnChildren n)\<rparr>)) g"

lemma redirect_id: "redirect (\<lambda>c. c) g = g"
  by (simp add: redirect_def case_prod_unfold)

lemma redirect_redirect: "redirect f (redirect h g) = redirect (f \<circ> h) g"
  by (simp add: redirect_def case_prod_unfold comp_def)

lemma replaceChildren_redirect:
  "map (\<lambda>(d, n). (d, replaceChildren m n)) g = redirect (\<lambda>c. if truthy (map_of m c) then the (map_of m c) else c) g"
  by (simp add: redirect_def replaceChildren_def)

lemma map_of_redirect: "map_of (redirect f g) d =
  map_option (\<lambda>n. n\<lparr>gnChildren := map (\<lambda>(a, c). (a, f c)) (gnChildren n)\<rparr>) (map_of g d)"
  by (induction g) (auto simp: redirect_def)

lemma isCompatible_redirect:
  assumes "map_of g d \<noteq> None" "map_of g e \<noteq> None" "isCompatibleAndHasMoreDeps (the (map_of g e)) (the (map_of g d))"
  shows "isCompatibleAndHasMoreDeps (the (map_of (redirect f g) e)) (the (map_of (redirect f g) d))"
proof -
  obtain n m where nm: "map_of g d = Some n" "map_of g e = Some m" using assms(1,2) by auto
  have v: "vals (map (\<lambda>(a, c). (a, f c)) cs) = map f (vals cs)" for cs :: "depPath obj" by (induction cs) auto
  show ?thesis using assms(3)
    unfolding nm map_of_redirect option.map option.sel isCompatibleAndHasMoreDeps_def nodeDepsCount_def
    by (simp add: v list_all_iff del: map_map)
qed

text \<open>A map of replacements is sound for sets of duplicates when every path that is replaced is replaced by
  another of its set, which is not replaced itself and has its dependencies and peers.\<close>

definition soundReplacements :: "dependenciesGraph \<Rightarrow> depPath list list \<Rightarrow> depPath obj \<Rightarrow> bool" where
  "soundReplacements g dups m \<longleftrightarrow> (\<forall>d e. map_of m d = Some e \<longrightarrow> d \<noteq> e \<and> map_of m e = None \<and>
     (\<exists>S \<in> set dups. d \<in> set S \<and> e \<in> set S) \<and>
     isCompatibleAndHasMoreDeps (the (map_of g e)) (the (map_of g d)))"

lemma soundReplacements_touched: "soundReplacements g dups m \<Longrightarrow> touched m \<subseteq> set (concat dups)"
  unfolding soundReplacements_def touched_def by fastforce

lemma soundReplacements_spread:
  assumes 1: "soundReplacements g dups m1" and 2: "soundReplacements (redirect f g) rest m2" and r: "dedupeRest dups m1 rest"
    and g: "\<forall>d \<in> set (concat dups). map_of g d \<noteq> None"
  shows "soundReplacements (redirect f g) dups (spread m1 m2)"
  unfolding soundReplacements_def
proof (intro allI impI)
  fix d e assume de: "map_of (spread m1 m2) d = Some e"
  have t: "touched m2 \<inter> touched m1 = {}" "\<forall>S \<in> set rest. \<exists>T \<in> set dups. set S \<subseteq> set T"
    using soundReplacements_touched [OF 2] r unfolding dedupeRest_def by blast+
  show "d \<noteq> e \<and> map_of (spread m1 m2) e = None \<and> (\<exists>S \<in> set dups. d \<in> set S \<and> e \<in> set S) \<and>
      isCompatibleAndHasMoreDeps (the (map_of (redirect f g) e)) (the (map_of (redirect f g) d))"
  proof (cases "map_of m2 d")
    case None
    then have m1: "map_of m1 d = Some e" using de by (simp add: map_add_def)
    note s = 1 [unfolded soundReplacements_def, rule_format, OF m1]
    have "e \<notin> touched m2" using t(1) touchedI [OF m1] by blast
    then have "map_of (spread m1 m2) e = None" using s by (simp add: map_add_def touched_def)
    moreover have "d \<in> set (concat dups)" "e \<in> set (concat dups)" using s by auto
    ultimately show ?thesis using s isCompatible_redirect g by blast
  next
    case (Some e')
    then have m2: "map_of m2 d = Some e" using de by (simp add: map_add_def)
    note s = 2 [unfolded soundReplacements_def, rule_format, OF m2]
    have "e \<notin> touched m1" using t(1) touchedI [OF m2] by blast
    then have "map_of (spread m1 m2) e = None" using s by (simp add: map_add_def touched_def)
    then show ?thesis using s t(2) by blast
  qed
qed

lemma deduplicateDepPaths_spec:
  assumes "distinct (concat dups)" "\<forall>d \<in> set (concat dups). map_of g d \<noteq> None"
  shows "\<exists>m rest. deduplicateDepPaths dups g = Inr (m, rest) \<and> soundReplacements g dups m \<and> dedupeRest dups m rest"
proof -
  obtain m rest where "sfold (deduplicateSet g) dups ([], []) = Inr (m, [] @ rest)" "dedupePairs g dups [] m"
    "dedupeRest dups m rest"
    using deduplicateSets_spec [OF assms, of "([], [])"] by (auto simp: touched_def)
  then show ?thesis by (auto simp: deduplicateDepPaths_def dedupePairs_def soundReplacements_def)
qed


section \<open>An example\<close>

definition dedupeGraph :: dependenciesGraph where
  "dedupeGraph = [(''a@1.0.0(b@1.0.0)'', exampleNode ''a'' [(''b'', ''b@1.0.0'')]),
     (''a@1.0.0'', exampleNode ''a'' []), (''a@1.0.0(c@1.0.0)'', exampleNode ''a'' [(''c'', ''c@1.0.0'')]),
     (''x@1.0.0'', exampleNode ''x'' [(''a'', ''a@1.0.0'')])]"


text \<open>The pass that does not shorten the list of sets returns before the children are redirected, though its map may
  not be empty: the path of \<open>a\<close> without peers is replaced, and the child of \<open>x\<close> still points at it.\<close>

lemma deduplicateAll_stale_child:
  "(case deduplicateAll dedupeGraph [[''a@1.0.0(b@1.0.0)'', ''a@1.0.0'', ''a@1.0.0(c@1.0.0)'']] of Inl e \<Rightarrow> False
    | Inr (m, g) \<Rightarrow> map_of m ''a@1.0.0'' \<noteq> None \<and>
        gnChildren (the (map_of g ''x@1.0.0'')) = [(''a'', ''a@1.0.0'')])"
  by code_simp

end
