(* ===== verification/EngineFiltering.thy ===== *)
theory EngineFiltering
  imports LockfileFiltering LockfileUtils PackageIsInstallable
begin

text \<open>
  lockfile/filtering/src/filterLockfileByImportersAndEngine.ts: the part of a lockfile that some importers need and
  the importers that they link to, with the packages that cannot be installed on this engine or platform recorded in
  \<open>skipped\<close>. The sets of the code are distinct lists. The logging is left out, and with it the names of packages and
  \<open>lockfileDir\<close>, which are only logged.
\<close>

section \<open>The definitions\<close>

datatype filterError = FilterError js_error | InstallError installError

record engineOptions =
  eoNodeVersion :: "str option"
  eoEngineStrict :: bool
  eoInclude :: includeDeps
  eoIncludeIncompatiblePackages :: bool
  eoFailOnMissingDependencies :: bool
  eoSupportedArchitectures :: "supportedArchitectures option"

definition parseDepRef ::
    "projectSnapshot obj \<Rightarrow> str \<times> str \<Rightarrow> depPath list \<times> projectId list \<Rightarrow> depPath list \<times> projectId list" where
  "parseDepRef imps entry acc =
     (case entry of (depName, ref) \<Rightarrow>
        if startsWith ref ''link:'' then
          (if map_of imps (substr ref 5) \<noteq> None then (fst acc, snd acc @ [substr ref 5]) else acc)
        else (case refToRelative ref depName of None \<Rightarrow> acc | Some d \<Rightarrow> (fst acc @ [d], snd acc)))"

definition parseDepRefs :: "(str \<times> str) list \<Rightarrow> projectSnapshot obj \<Rightarrow> depPath list \<times> projectId list" where
  "parseDepRefs refsByPkgNames imps = fold (parseDepRef imps) refsByPkgNames ([], [])"

definition includedDeps :: "includeDeps \<Rightarrow> projectSnapshot \<Rightarrow> deps" where
  "includedDeps include importer =
     spread (spread (if incDependencies include then orEmpty (prodDeps importer) else [])
       (if incDevDependencies include then orEmpty (devDeps importer) else []))
       (if incOptionalDependencies include then orEmpty (optDeps importer) else [])"

definition importerRefs ::
    "projectSnapshot obj \<Rightarrow> includeDeps \<Rightarrow> projectId \<Rightarrow> filterError + (str \<times> str) list" where
  "importerRefs imps include importerId =
     (case map_of imps importerId of
        None \<Rightarrow> Inl (FilterError (TypeError ''importer.dependencies''))
      | Some importer \<Rightarrow> Inr (includedDeps include importer))"

text \<open>The dependency paths of importers and of the importers they link to that are not in the set yet, which are
  added to it.\<close>

function toImporterDepPaths ::
    "projectSnapshot obj \<Rightarrow> includeDeps \<Rightarrow> projectId list \<Rightarrow> projectId list \<Rightarrow>
     filterError + depPath list \<times> projectId list" where
  "toImporterDepPaths imps include importerIds importerIdSet =
     sbind (smap (importerRefs imps include) importerIds) (\<lambda>importerDeps.
       let (depPaths, nextImporterIds) = parseDepRefs (concat importerDeps) imps in
       if nextImporterIds = [] then Inr (depPaths, importerIdSet)
       else let new = filter (\<lambda>i. i \<notin> set importerIdSet) nextImporterIds in
         sbind (toImporterDepPaths imps include new (fold sadd new importerIdSet))
           (\<lambda>(depPaths', importerIdSet'). Inr (depPaths @ depPaths', importerIdSet')))"
  by pat_completeness auto

record engineState =
  esPicked :: packageSnapshots
  esImporters :: "projectId list"
  esSkipped :: "depPath list"

definition requirementsOf :: "packageSnapshot \<Rightarrow> packageRequirements" where
  "requirementsOf p = \<lparr>reqEngines = map_option (\<lambda>e. \<lparr>wantedNode = map_of e ''node'', wantedPnpm = map_of e ''pnpm''\<rparr>) (engines p),
     reqCpu = cpu p, reqOs = os p, reqLibc = libc p\<rparr>"

definition installableOf ::
    "(str \<Rightarrow> str \<Rightarrow> bool) \<Rightarrow> system \<Rightarrow> engineOptions \<Rightarrow> depPath \<Rightarrow> packageSnapshot \<Rightarrow> filterError + bool" where
  "installableOf satisfies sys opts depPath p =
     (if eoIncludeIncompatiblePackages opts then Inr True
      else case packageIsInstallable satisfies sys (case pkgId p of Some i \<Rightarrow> i | None \<Rightarrow> depPath) (requirementsOf p)
             \<lparr>optEngineStrict = eoEngineStrict opts, optNodeVersion = eoNodeVersion opts,
              optOptional = (optional p = Some True), optPnpmVersion = None,
              optSupportedArchitectures = eoSupportedArchitectures opts\<rparr> of
          Inl e \<Rightarrow> Inl (InstallError e)
        | Inr r \<Rightarrow> Inr (r \<noteq> Some False))"

definition markSkipped :: "depPath \<Rightarrow> packageSnapshot \<Rightarrow> engineState \<Rightarrow> engineState" where
  "markSkipped depPath p st =
     (if optional p = Some True then st\<lparr>esSkipped := sadd depPath (esSkipped st)\<rparr> else st)"

definition checkInstallable ::
    "(str \<Rightarrow> str \<Rightarrow> bool) \<Rightarrow> system \<Rightarrow> engineOptions \<Rightarrow> bool \<Rightarrow> depPath \<Rightarrow> packageSnapshot \<Rightarrow> engineState \<Rightarrow>
     filterError + bool \<times> engineState" where
  "checkInstallable satisfies sys opts parentIsInstallable depPath p st =
     (if \<not> parentIsInstallable then Inr (False, markSkipped depPath p st)
      else sbind (installableOf satisfies sys opts depPath p) (\<lambda>installable.
        Inr (installable, if installable then st\<lparr>esSkipped := removeAll depPath (esSkipped st)\<rparr> else markSkipped depPath p st)))"

text \<open>Picking a package: the paths that come next are those of its references and of the importers it links to.\<close>

definition packageEntries :: "includeDeps \<Rightarrow> packageSnapshot \<Rightarrow> deps" where
  "packageEntries include p = spread (orEmpty (dependencies p))
     (if incOptionalDependencies include then orEmpty (optionalDependencies p) else [])"

definition takeSnapshot ::
    "(str \<Rightarrow> str \<Rightarrow> bool) \<Rightarrow> system \<Rightarrow> engineOptions \<Rightarrow> projectSnapshot obj \<Rightarrow> bool \<Rightarrow> depPath \<Rightarrow> packageSnapshot \<Rightarrow>
     engineState \<Rightarrow> filterError + depPath list \<times> bool \<times> engineState" where
  "takeSnapshot satisfies sys opts imps parentIsInstallable depPath p st =
     sbind (checkInstallable satisfies sys opts parentIsInstallable depPath p st) (\<lambda>(installable, st1).
       let (nextRelDepPaths, additionalImporterIds) = parseDepRefs (packageEntries (eoInclude opts) p) imps in
       sbind (toImporterDepPaths imps (eoInclude opts) additionalImporterIds
           (fold sadd additionalImporterIds (esImporters st1)))
         (\<lambda>(more, importerIdSet). Inr (nextRelDepPaths @ more, installable,
            st1\<lparr>esPicked := jset depPath p (esPicked st1), esImporters := importerIdSet\<rparr>)))"

function pickPkgAllDeps ::
    "(str \<Rightarrow> str \<Rightarrow> bool) \<Rightarrow> system \<Rightarrow> engineOptions \<Rightarrow> lockfileObject \<Rightarrow> depPath list \<Rightarrow> bool \<Rightarrow> engineState \<Rightarrow>
     filterError + engineState" where
  "pickPkgAllDeps satisfies sys opts l [] parentIsInstallable st = Inr st"
| "pickPkgAllDeps satisfies sys opts l (depPath # depPaths) parentIsInstallable st =
     (if depPath \<in> set (keys (esPicked st)) then pickPkgAllDeps satisfies sys opts l depPaths parentIsInstallable st
      else case map_of (orEmpty (packages l)) depPath of
        None \<Rightarrow>
          if startsWith depPath ''link:'' then Inl (FilterError (TypeError ''pkgSnapshot.optional''))
          else if eoFailOnMissingDependencies opts then Inl (FilterError (lockfileMissingDependencyError depPath))
          else pickPkgAllDeps satisfies sys opts l depPaths parentIsInstallable st
      | Some p \<Rightarrow>
          sbind (takeSnapshot satisfies sys opts (importers l) parentIsInstallable depPath p st)
            (\<lambda>(next, installable, st1).
          sbind (pickPkgAllDeps satisfies sys opts l next installable st1) (\<lambda>st2.
          pickPkgAllDeps satisfies sys opts l depPaths parentIsInstallable st2)))"
  by pat_completeness auto

definition filterEngineImporter :: "includeDeps \<Rightarrow> packageSnapshots \<Rightarrow> projectSnapshot \<Rightarrow> projectSnapshot" where
  "filterEngineImporter include pkgs importer =
     (let newImporter = filterImporter importer include in
      newImporter\<lparr>optDeps := map_option (filter (\<lambda>(depName, ref).
          case refToRelative ref depName of None \<Rightarrow> True | Some d \<Rightarrow> d = [] \<or> map_of pkgs d \<noteq> None)) (optDeps newImporter)\<rparr>)"

text \<open>The result: the lockfile, the selected importers, and the set \<open>skipped\<close> after the walk.\<close>

definition filterLockfileByImportersAndEngine ::
    "(str \<Rightarrow> str \<Rightarrow> bool) \<Rightarrow> system \<Rightarrow> lockfileObject \<Rightarrow> projectId list \<Rightarrow> engineOptions \<Rightarrow> depPath list \<Rightarrow>
     filterError + lockfileObject \<times> projectId list \<times> depPath list" where
  "filterLockfileByImportersAndEngine satisfies sys lockfile importerIds opts skipped =
     sbind (toImporterDepPaths (importers lockfile) (eoInclude opts) importerIds (uniq importerIds))
       (\<lambda>(directDepPaths, importerIdSet).
     sbind (if packages lockfile = None then Inr \<lparr>esPicked = [], esImporters = importerIdSet, esSkipped = skipped\<rparr>
            else pickPkgAllDeps satisfies sys opts lockfile directDepPaths True
              \<lparr>esPicked = [], esImporters = importerIdSet, esSkipped = skipped\<rparr>)
       (\<lambda>st. Inr (lockfile\<lparr>
           importers := map (\<lambda>(i, importer). (i, filterEngineImporter (eoInclude opts) (esPicked st) importer)) (importers lockfile),
           packages := Some (esPicked st)\<rparr>, esImporters st, esSkipped st)))"

definition filterLockfileByEngine ::
    "(str \<Rightarrow> str \<Rightarrow> bool) \<Rightarrow> system \<Rightarrow> lockfileObject \<Rightarrow> engineOptions \<Rightarrow> depPath list \<Rightarrow>
     filterError + lockfileObject \<times> projectId list \<times> depPath list" where
  "filterLockfileByEngine satisfies sys lockfile opts skipped =
     filterLockfileByImportersAndEngine satisfies sys lockfile (keys (importers lockfile)) opts skipped"

section \<open>Termination\<close>

text \<open>What one reference leads to: a package or an importer.\<close>

definition refPath :: "str \<times> str \<Rightarrow> depPath option" where
  "refPath = (\<lambda>(depName, ref). if startsWith ref ''link:'' then None else refToRelative ref depName)"

definition refImporter :: "projectSnapshot obj \<Rightarrow> str \<times> str \<Rightarrow> projectId option" where
  "refImporter imps = (\<lambda>(depName, ref). if startsWith ref ''link:'' \<and> map_of imps (substr ref 5) \<noteq> None
     then Some (substr ref 5) else None)"

lemma parseDepRefs_fold: "fold (parseDepRef imps) es (ds, ids) =
   (ds @ List.map_filter refPath es, ids @ List.map_filter (refImporter imps) es)"
proof (induction es arbitrary: ds ids)
  case (Cons e es)
  have "parseDepRef imps e (ds, ids) = (ds @ List.map_filter refPath [e], ids @ List.map_filter (refImporter imps) [e])"
    by (cases e) (auto simp: parseDepRef_def map_filter_simps refPath_def refImporter_def split: option.splits)
  then show ?case by (simp add: Cons map_filter_simps split: option.splits)
qed (simp add: map_filter_simps)

lemma parseDepRefs_spec: "parseDepRefs es imps = (List.map_filter refPath es, List.map_filter (refImporter imps) es)"
  by (simp add: parseDepRefs_def parseDepRefs_fold)

lemma set_map_filter: "set (List.map_filter f xs) = {y. \<exists>x \<in> set xs. f x = Some y}"
  by (force simp: map_filter_def)

lemma set_fold_sadd [simp]: "set (fold sadd xs S) = set S \<union> set xs"
  by (induction xs arbitrary: S) auto

lemma parseDepRefs_ids: "parseDepRefs es imps = (ds, ids) \<Longrightarrow> set ids \<subseteq> set (keys imps)"
  by (auto simp: parseDepRefs_spec set_map_filter refImporter_def in_keys_iff simp del: set_map split: if_splits)

lemma smap_concat_Nil: "smap f [] = Inr xss \<Longrightarrow> xss = []" by simp

termination toImporterDepPaths
proof (relation "inv_image (less_than <*lex*> less_than)
    (\<lambda>(imps, inc, ids, S). (card (set (keys imps) - set S), length ids))", goal_cases)
  case 1
  show ?case by (simp add: wf_lex_prod)
next
  case (2 imps inc ids S deps x ds nxt new)
  have p: "parseDepRefs (concat deps) imps = (ds, nxt)" using 2(2,3) by simp
  show ?case
  proof (cases "new = []")
    case True
    have "ids \<noteq> []" using 2(1,4) p by (auto simp: parseDepRefs_spec map_filter_simps)
    then show ?thesis by (simp add: True)
  next
    case False
    then obtain i where "i \<in> set new" by (meson last_in_set)
    then have "i \<in> set (keys imps)" "i \<notin> set S" "i \<in> set new"
      using parseDepRefs_ids [OF p] 2(5) by auto
    then have "card (set (keys imps) - set (fold sadd new S)) < card (set (keys imps) - set S)"
      by (intro unseen_less [of _ i]) auto
    then show ?thesis by simp
  qed
qed

declare toImporterDepPaths.simps [simp del]

lemma esSkipped_simps [simp]:
  "esPicked (markSkipped d p st) = esPicked st" "esImporters (markSkipped d p st) = esImporters st"
  by (simp_all add: markSkipped_def)

lemma checkInstallable_state:
  "checkInstallable sat sys opts par d p st = Inr (b, st1) \<Longrightarrow>
     esPicked st1 = esPicked st \<and> esImporters st1 = esImporters st"
  by (auto simp: checkInstallable_def sbind_Inr_iff split: if_splits)

lemma takeSnapshot_picked:
  "takeSnapshot sat sys opts imps par d p st = Inr (next, b, st1) \<Longrightarrow> esPicked st1 = jset d p (esPicked st)"
  by (auto simp: takeSnapshot_def sbind_Inr_iff Let_def case_prod_unfold dest!: checkInstallable_state)

lemma keys_jset [simp]: "set (keys (jset k v m)) = insert k (set (keys m))"
  by (auto simp: in_keys_iff alist.get_put simp del: set_map split: if_splits)

lemma pickPkgAllDeps_mono_dom:
  "pickPkgAllDeps_dom (sat, sys, opts, l, ds, par, st) \<Longrightarrow> pickPkgAllDeps sat sys opts l ds par st = Inr st' \<Longrightarrow>
     set (keys (esPicked st)) \<subseteq> set (keys (esPicked st'))"
proof (induction arbitrary: st' rule: pickPkgAllDeps.pinduct)
  case (1 sat sys opts l par st)
  then show ?case by (simp add: pickPkgAllDeps.psimps)
next
  case (2 sat sys opts l d ds par st)
  note simps = 2(6) [unfolded pickPkgAllDeps.psimps(2) [OF 2(1)]]
  show ?case
  proof (cases "d \<in> set (keys (esPicked st))")
    case True
    then show ?thesis using simps 2(2) by (simp del: set_map)
  next
    case new: False
    show ?thesis
    proof (cases "map_of (orEmpty (packages l)) d")
      case None
      then show ?thesis using simps new 2(3) [OF new None] by (simp split: if_splits del: set_map)
    next
      case (Some p)
      from simps new Some obtain nxt b st1 st2 where
        1: "takeSnapshot sat sys opts (importers l) par d p st = Inr (nxt, b, st1)" and
        2: "pickPkgAllDeps sat sys opts l nxt b st1 = Inr st2" "pickPkgAllDeps sat sys opts l ds par st2 = Inr st'"
        by (auto simp: sbind_Inr_iff simp del: set_map)
      have "set (keys (esPicked st)) \<subseteq> set (keys (esPicked st1))"
        unfolding takeSnapshot_picked [OF 1] keys_jset by blast
      also have "\<dots> \<subseteq> set (keys (esPicked st2))"
        by (rule "2.IH"(3) [OF new Some 1 refl refl 2(1)])
      also have "\<dots> \<subseteq> set (keys (esPicked st'))"
        by (rule "2.IH"(4) [OF new Some 1 refl refl 2(1,2)])
      finally show ?thesis .
    qed
  qed
qed


termination pickPkgAllDeps
proof (relation "inv_image (less_than <*lex*> less_than)
    (\<lambda>(sat, sys, opts, l, ds, par, st). (card (set (keys (orEmpty (packages l))) - set (keys (esPicked st))), length ds))",
    goal_cases)
  case 1
  show ?case by (simp add: wf_lex_prod)
next
  case (2 sat sys opts l d ds par st)
  then show ?case by simp
next
  case (3 sat sys opts l d ds par st)
  then show ?case by simp
next
  case (4 sat sys opts l d ds par st p x nxt y b st1)
  have d: "d \<in> set (keys (orEmpty (packages l)))" unfolding in_keys_iff using 4(2) by simp
  have "takeSnapshot sat sys opts (importers l) par d p st = Inr (nxt, b, st1)" using 4(3) unfolding 4(4,5) .
  note pick = takeSnapshot_picked [OF this]
  have "insert d (set (keys (esPicked st))) \<subseteq> set (keys (esPicked st1))" unfolding pick keys_jset by (rule subset_refl)
  then have "card (set (keys (orEmpty (packages l))) - set (keys (esPicked st1))) <
      card (set (keys (orEmpty (packages l))) - set (keys (esPicked st)))"
    by (rule unseen_less [OF finite_set d 4(1)])
  then show ?case by (simp del: set_map)
next
  case (5 sat sys opts l d ds par st p x nxt y b st1 st2)
  have "takeSnapshot sat sys opts (importers l) par d p st = Inr (nxt, b, st1)" using 5(3) unfolding 5(4,5) .
  note pick = takeSnapshot_picked [OF this]
  have "set (keys (esPicked st)) \<subseteq> set (keys (esPicked st1))" unfolding pick keys_jset by (rule subset_insertI)
  also have "\<dots> \<subseteq> set (keys (esPicked st2))" by (rule pickPkgAllDeps_mono_dom [OF 5(7,6)])
  finally have "card (set (keys (orEmpty (packages l))) - set (keys (esPicked st2))) \<le>
      card (set (keys (orEmpty (packages l))) - set (keys (esPicked st)))" by (rule unseen_le [OF finite_set])
  then show ?case by (auto simp del: set_map)
qed

declare pickPkgAllDeps.simps [simp del]

section \<open>The graph that is walked\<close>

datatype lockNode = ImporterNode projectId | PackageNode depPath

definition refNodes :: "projectSnapshot obj \<Rightarrow> (str \<times> str) list \<Rightarrow> lockNode list" where
  "refNodes imps es = map PackageNode (List.map_filter refPath es) @ map ImporterNode (List.map_filter (refImporter imps) es)"

fun nextNodes :: "includeDeps \<Rightarrow> lockfileObject \<Rightarrow> lockNode \<Rightarrow> lockNode list" where
  "nextNodes inc l (ImporterNode i) = (case map_of (importers l) i of None \<Rightarrow> []
     | Some importer \<Rightarrow> refNodes (importers l) (includedDeps inc importer))"
| "nextNodes inc l (PackageNode d) = (case map_of (orEmpty (packages l)) d of None \<Rightarrow> []
     | Some p \<Rightarrow> refNodes (importers l) (packageEntries inc p))"

lemma set_refNodes: "set (refNodes imps es) = PackageNode ` set (fst (parseDepRefs es imps)) \<union>
   ImporterNode ` set (snd (parseDepRefs es imps))"
  by (simp add: refNodes_def parseDepRefs_spec)

lemma refNodes_concat: "set (refNodes imps (concat ess)) = (\<Union>es \<in> set ess. set (refNodes imps es))"
proof (induction ess)
  case (Cons es ess)
  have "set (refNodes imps (es @ concat ess)) = set (refNodes imps es) \<union> set (refNodes imps (concat ess))"
    by (simp add: refNodes_def set_map_filter bex_Un Collect_disj_eq image_Un Un_ac)
  then show ?case using Cons by simp
qed (simp add: refNodes_def map_filter_simps)

lemma reach_step_set: "n \<in> reach step R \<Longrightarrow> set (step n) \<subseteq> reach step R"
  using reach_step by fast

lemma reach_subI: "A \<subseteq> reach step R \<Longrightarrow> reach step A \<subseteq> reach step R"
  using reach_mono [of A "reach step R" step] by (simp add: reach_idem)

text \<open>What the importers bring in: their packages and linked importers, and those of the importers that are new.\<close>

definition importersOk ::
    "includeDeps \<Rightarrow> lockfileObject \<Rightarrow> projectId list \<Rightarrow> projectId list \<Rightarrow> depPath list \<Rightarrow> projectId list \<Rightarrow> bool" where
  "importersOk inc l ids S ds S' \<longleftrightarrow> set S \<subseteq> set S' \<and>
     (\<forall>i \<in> set ids \<union> (set S' - set S). set (nextNodes inc l (ImporterNode i)) \<subseteq>
        PackageNode ` set ds \<union> ImporterNode ` set S') \<and>
     PackageNode ` set ds \<union> ImporterNode ` (set S' - set S) \<subseteq> reach (nextNodes inc l) (ImporterNode ` set ids)"

lemma smap_importerRefs:
  assumes "smap (importerRefs (importers l) inc) ids = Inr deps"
  shows "set (refNodes (importers l) (concat deps)) = (\<Union>i \<in> set ids. set (nextNodes inc l (ImporterNode i)))"
proof -
  have "list_all2 (\<lambda>i es. importerRefs (importers l) inc i = Inr es) ids deps" using assms by (simp add: smap_Inr_iff)
  then have "(\<Union>es \<in> set deps. set (refNodes (importers l) es)) = (\<Union>i \<in> set ids. set (nextNodes inc l (ImporterNode i)))"
    by (induction rule: list_all2_induct) (auto simp: importerRefs_def split: option.splits)
  then show ?thesis by (simp add: refNodes_concat)
qed

lemma toImporterDepPaths_ok:
  "toImporterDepPaths imps inc ids S = Inr (ds, S') \<Longrightarrow> imps = importers l \<Longrightarrow> importersOk inc l ids S ds S'"
proof (induction imps inc ids S arbitrary: ds S' rule: toImporterDepPaths.induct)
  case (1 imps inc ids S)
  let ?N = "nextNodes inc l"
  obtain deps where deps: "smap (importerRefs imps inc) ids = Inr deps"
    using 1(2) by (subst (asm) toImporterDepPaths.simps) (auto simp: sbind_Inr_iff)
  note unf = 1(2) [unfolded toImporterDepPaths.simps [of imps inc ids S] deps sbind_simps]
  obtain ds0 nxt where p: "parseDepRefs (concat deps) imps = (ds0, nxt)" by (rule prod.exhaust)
  have N: "(\<Union>i \<in> set ids. set (?N (ImporterNode i))) = PackageNode ` set ds0 \<union> ImporterNode ` set nxt"
    using smap_importerRefs [of l inc ids deps] deps p by (simp add: set_refNodes 1(3))
  have r: "PackageNode ` set ds0 \<union> ImporterNode ` set nxt \<subseteq> reach ?N (ImporterNode ` set ids)"
    unfolding N [symmetric]
  proof (rule UN_least)
    fix i assume "i \<in> set ids"
    then have "ImporterNode i \<in> reach ?N (ImporterNode ` set ids)" by (intro in_reach_base imageI)
    then show "set (?N (ImporterNode i)) \<subseteq> reach ?N (ImporterNode ` set ids)" by (rule reach_step_set)
  qed
  show ?case
  proof (cases "nxt = []")
    case True
    then have "ds = ds0" "S' = S"
      using unf by (simp_all add: p True)
    moreover have "\<forall>i \<in> set ids. set (?N (ImporterNode i)) \<subseteq> PackageNode ` set ds0 \<union> ImporterNode ` set S"
    proof
      fix i assume "i \<in> set ids"
      then have "set (?N (ImporterNode i)) \<subseteq> PackageNode ` set ds0" using N unfolding True by auto
      then show "set (?N (ImporterNode i)) \<subseteq> PackageNode ` set ds0 \<union> ImporterNode ` set S" by (rule le_supI1)
    qed
    moreover have "PackageNode ` set ds0 \<subseteq> reach ?N (ImporterNode ` set ids)" using r by blast
    ultimately show ?thesis by (simp add: importersOk_def)
  next
    case False
    let ?new = "filter (\<lambda>i. i \<notin> set S) nxt"
    obtain ds1 where rec: "toImporterDepPaths imps inc ?new (fold sadd ?new S) = Inr (ds1, S')" and ds: "ds = ds0 @ ds1"
      using unf False by (auto simp: p sbind_Inr_iff Let_def)
    have IH: "importersOk inc l ?new (fold sadd ?new S) ds1 S'"
      by (rule 1(1) [OF deps p [symmetric] refl False refl rec 1(3)])
    note sub = IH [unfolded importersOk_def, THEN conjunct1]
      and closed = IH [unfolded importersOk_def, THEN conjunct2, THEN conjunct1]
      and sound = IH [unfolded importersOk_def, THEN conjunct2, THEN conjunct2]
    have nxt: "set nxt \<subseteq> set S'" "set S \<subseteq> set S'" "set S' - set S \<subseteq> set ?new \<union> (set S' - set (fold sadd ?new S))"
      using sub unfolding set_fold_sadd set_filter by blast+
    have "reach ?N (ImporterNode ` set ?new) \<subseteq> reach ?N (ImporterNode ` set ids)"
      by (rule reach_subI) (use r in \<open>unfold set_filter, blast\<close>)
    then have "PackageNode ` set ds1 \<union> ImporterNode ` (set S' - set (fold sadd ?new S)) \<subseteq> reach ?N (ImporterNode ` set ids)"
      using sound by blast
    then have sn: "PackageNode ` set ds \<union> ImporterNode ` (set S' - set S) \<subseteq> reach ?N (ImporterNode ` set ids)"
      using r nxt(3) unfolding ds set_append set_filter by blast
    have cl: "set (?N (ImporterNode i)) \<subseteq> PackageNode ` set ds \<union> ImporterNode ` set S'"
      if "i \<in> set ids \<union> (set S' - set S)" for i
    proof (cases "i \<in> set ids")
      case True
      then have "set (?N (ImporterNode i)) \<subseteq> PackageNode ` set ds0 \<union> ImporterNode ` set nxt" using N by blast
      then show ?thesis using nxt(1) unfolding ds set_append by blast
    next
      case False
      then have "i \<in> set ?new \<union> (set S' - set (fold sadd ?new S))" using that nxt(3) by blast
      then have "set (?N (ImporterNode i)) \<subseteq> PackageNode ` set ds1 \<union> ImporterNode ` set S'" by (rule bspec [OF closed])
      then show ?thesis unfolding ds set_append by blast
    qed
    show ?thesis unfolding importersOk_def by (rule conjI [OF nxt(2) conjI [OF ballI [OF cl] sn]])
  qed
qed

section \<open>What the walk picks\<close>

definition stateNodes :: "engineState \<Rightarrow> lockNode set" where
  "stateNodes st = PackageNode ` set (keys (esPicked st)) \<union> ImporterNode ` set (esImporters st)"

definition missingNodes :: "lockfileObject \<Rightarrow> lockNode set" where
  "missingNodes l = PackageNode ` {d. map_of (orEmpty (packages l)) d = None}"

text \<open>The change of the state by a walk from some nodes: it only adds nodes that they reach, the successors of
  which are there as well, and the packages are those of the lockfile.\<close>

definition walkOk :: "includeDeps \<Rightarrow> lockfileObject \<Rightarrow> lockNode set \<Rightarrow> engineState \<Rightarrow> engineState \<Rightarrow> bool" where
  "walkOk inc l R st st' \<longleftrightarrow> stateNodes st \<subseteq> stateNodes st' \<and>
     stateNodes st' - stateNodes st \<subseteq> reach (nextNodes inc l) R \<and>
     (\<forall>n \<in> stateNodes st' - stateNodes st. set (nextNodes inc l n) \<subseteq> stateNodes st' \<union> missingNodes l) \<and>
     (\<forall>d. map_of (esPicked st') d = (if PackageNode d \<in> stateNodes st' - stateNodes st
        then map_of (orEmpty (packages l)) d else map_of (esPicked st) d))"

lemma walkOkD:
  assumes "walkOk inc l R st st'"
  shows "stateNodes st \<subseteq> stateNodes st'" "stateNodes st' - stateNodes st \<subseteq> reach (nextNodes inc l) R"
    "\<And>n. n \<in> stateNodes st' - stateNodes st \<Longrightarrow> set (nextNodes inc l n) \<subseteq> stateNodes st' \<union> missingNodes l"
    "\<And>d. map_of (esPicked st') d = (if PackageNode d \<in> stateNodes st' - stateNodes st
        then map_of (orEmpty (packages l)) d else map_of (esPicked st) d)"
  using assms unfolding walkOk_def by blast+

lemma walkOk_refl: "walkOk inc l R st st"
  by (simp add: walkOk_def)

lemma PackageNode_stateNodes: "PackageNode d \<in> stateNodes st \<longleftrightarrow> d \<in> set (keys (esPicked st))"
  unfolding stateNodes_def by blast

lemma ImporterNode_stateNodes: "ImporterNode i \<in> stateNodes st \<longleftrightarrow> i \<in> set (esImporters st)"
  unfolding stateNodes_def by blast

lemma walkOk_trans:
  assumes 1: "walkOk inc l A st st1" and 2: "walkOk inc l B st1 st2"
    and "A \<subseteq> reach (nextNodes inc l) R" "B \<subseteq> reach (nextNodes inc l) R"
  shows "walkOk inc l R st st2"
proof -
  note a = walkOkD [OF 1] and b = walkOkD [OF 2]
  have ra: "reach (nextNodes inc l) A \<subseteq> reach (nextNodes inc l) R" and rb: "reach (nextNodes inc l) B \<subseteq> reach (nextNodes inc l) R"
    using assms(3,4) by (auto intro: reach_subI [THEN subsetD])
  have d: "stateNodes st2 - stateNodes st \<subseteq> (stateNodes st1 - stateNodes st) \<union> (stateNodes st2 - stateNodes st1)" by blast
  have "set (nextNodes inc l n) \<subseteq> stateNodes st2 \<union> missingNodes l" if n: "n \<in> stateNodes st2 - stateNodes st" for n
  proof (cases "n \<in> stateNodes st1")
    case True
    then have "set (nextNodes inc l n) \<subseteq> stateNodes st1 \<union> missingNodes l" using n a(3) by blast
    then show ?thesis using b(1) by blast
  next
    case False
    then show ?thesis using n b(3) by blast
  qed
  moreover have "map_of (esPicked st2) d = (if PackageNode d \<in> stateNodes st2 - stateNodes st
        then map_of (orEmpty (packages l)) d else map_of (esPicked st) d)" for d
    unfolding b(4) [of d] a(4) [of d] using a(1) b(1) by auto
  moreover have "stateNodes st \<subseteq> stateNodes st2" using a(1) b(1) by blast
  moreover have "stateNodes st2 - stateNodes st \<subseteq> reach (nextNodes inc l) R" using d a(2) b(2) ra rb by blast
  ultimately show ?thesis unfolding walkOk_def by simp
qed

text \<open>Picking one package and walking on from it.\<close>

lemma takeSnapshot_ok:
  assumes r: "takeSnapshot sat sys opts (importers l) par d p st = Inr (nxt, b, st1)"
    and p: "map_of (orEmpty (packages l)) d = Some p"
  shows "stateNodes st1 = insert (PackageNode d) (stateNodes st) \<union> ImporterNode ` set (esImporters st1)"
    "set (nextNodes (eoInclude opts) l (PackageNode d)) \<subseteq> PackageNode ` set nxt \<union> ImporterNode ` set (esImporters st1)"
    "\<And>i. i \<in> set (esImporters st1) - set (esImporters st) \<Longrightarrow>
       set (nextNodes (eoInclude opts) l (ImporterNode i)) \<subseteq> PackageNode ` set nxt \<union> ImporterNode ` set (esImporters st1)"
    "PackageNode ` set nxt \<union> ImporterNode ` (set (esImporters st1) - set (esImporters st)) \<subseteq>
       reach (nextNodes (eoInclude opts) l) {PackageNode d}"
    "set (esImporters st) \<subseteq> set (esImporters st1)"
proof -
  let ?inc = "eoInclude opts" let ?N = "nextNodes ?inc l"
  obtain ds0 ids where pr: "parseDepRefs (packageEntries ?inc p) (importers l) = (ds0, ids)" by (rule prod.exhaust)
  obtain st0 more S' where c: "checkInstallable sat sys opts par d p st = Inr (b, st0)"
    and t: "toImporterDepPaths (importers l) ?inc ids (fold sadd ids (esImporters st0)) = Inr (more, S')"
    and nxt: "nxt = ds0 @ more" and st1: "st1 = st0\<lparr>esPicked := jset d p (esPicked st0), esImporters := S'\<rparr>"
    using r by (auto simp: takeSnapshot_def sbind_Inr_iff pr)
  have st0: "esPicked st0 = esPicked st" "esImporters st0 = esImporters st" using checkInstallable_state [OF c] by simp_all
  have N: "set (?N (PackageNode d)) = PackageNode ` set ds0 \<union> ImporterNode ` set ids" by (simp add: p set_refNodes pr)
  have r0: "set (?N (PackageNode d)) \<subseteq> reach ?N {PackageNode d}" by (intro reach_step_set in_reach_base) simp
  note ok = toImporterDepPaths_ok [OF t refl, unfolded importersOk_def set_fold_sadd]
  have S': "set (esImporters st) \<union> set ids \<subseteq> set S'" using ok [THEN conjunct1] st0(2) by simp
  have imps: "esImporters st1 = S'" by (simp add: st1)
  show "set (esImporters st) \<subseteq> set (esImporters st1)" using S' imps by simp
  have "stateNodes st1 = PackageNode ` insert d (set (keys (esPicked st))) \<union> ImporterNode ` set S'"
    unfolding stateNodes_def imps by (simp add: st1 st0 del: set_map)
  then show "stateNodes st1 = insert (PackageNode d) (stateNodes st) \<union> ImporterNode ` set (esImporters st1)"
    unfolding stateNodes_def imps using S' by blast
  show "set (?N (PackageNode d)) \<subseteq> PackageNode ` set nxt \<union> ImporterNode ` set (esImporters st1)"
    unfolding N imps nxt set_append using S' by blast
  show "set (?N (ImporterNode i)) \<subseteq> PackageNode ` set nxt \<union> ImporterNode ` set (esImporters st1)"
    if "i \<in> set (esImporters st1) - set (esImporters st)" for i
  proof -
    have "i \<in> set ids \<union> (set S' - (set (esImporters st0) \<union> set ids))" using that unfolding imps st0(2) by blast
    from bspec [OF ok [THEN conjunct2, THEN conjunct1] this] show ?thesis unfolding imps nxt set_append by blast
  qed
  have "ImporterNode ` set ids \<subseteq> reach ?N {PackageNode d}" using r0 N by blast
  then have "reach ?N (ImporterNode ` set ids) \<subseteq> reach ?N {PackageNode d}" by (rule reach_subI)
  then have "PackageNode ` set more \<union> ImporterNode ` (set S' - (set (esImporters st) \<union> set ids)) \<subseteq> reach ?N {PackageNode d}"
    using ok [THEN conjunct2, THEN conjunct2] st0(2) by auto
  then show "PackageNode ` set nxt \<union> ImporterNode ` (set (esImporters st1) - set (esImporters st)) \<subseteq>
       reach ?N {PackageNode d}"
    unfolding imps nxt set_append using r0 N by blast
qed

lemma takeSnapshot_walk:
  assumes r: "takeSnapshot sat sys opts (importers l) par d p st = Inr (nxt, b, st1)"
    and p: "map_of (orEmpty (packages l)) d = Some p" and new: "d \<notin> set (keys (esPicked st))"
    and w: "walkOk (eoInclude opts) l (PackageNode ` set nxt) st1 st2"
    and nxt: "PackageNode ` set nxt \<subseteq> stateNodes st2 \<union> missingNodes l"
  shows "walkOk (eoInclude opts) l {PackageNode d} st st2" "PackageNode d \<in> stateNodes st2"
proof -
  let ?N = "nextNodes (eoInclude opts) l"
  note k = takeSnapshot_ok [OF r p] and a = walkOkD [OF w]
  have imps: "ImporterNode ` set (esImporters st1) \<subseteq> stateNodes st1" unfolding stateNodes_def by blast
  have s1: "stateNodes st1 - stateNodes st \<subseteq> insert (PackageNode d) (ImporterNode ` (set (esImporters st1) - set (esImporters st)))"
  proof
    fix n assume "n \<in> stateNodes st1 - stateNodes st"
    then have "n = PackageNode d \<or> n \<in> ImporterNode ` set (esImporters st1)" "n \<notin> stateNodes st" using k(1) by blast+
    then show "n \<in> insert (PackageNode d) (ImporterNode ` (set (esImporters st1) - set (esImporters st)))"
      unfolding stateNodes_def by blast
  qed
  have sub1: "stateNodes st \<subseteq> stateNodes st1" unfolding k(1) by blast
  have d: "PackageNode d \<in> reach ?N {PackageNode d}" by (rule in_reach_base) simp
  have "stateNodes st1 - stateNodes st \<subseteq> reach ?N {PackageNode d}" using s1 k(4) d by blast
  moreover have "reach ?N (PackageNode ` set nxt) \<subseteq> reach ?N {PackageNode d}" by (rule reach_subI) (use k(4) in blast)
  ultimately have sound: "stateNodes st2 - stateNodes st \<subseteq> reach ?N {PackageNode d}" using a(2) by blast
  have closed: "set (?N n) \<subseteq> stateNodes st2 \<union> missingNodes l" if n: "n \<in> stateNodes st2 - stateNodes st" for n
  proof (cases "n \<in> stateNodes st1")
    case False
    then show ?thesis using n a(3) by blast
  next
    case True
    then have "n \<in> insert (PackageNode d) (ImporterNode ` (set (esImporters st1) - set (esImporters st)))" using n s1 by blast
    then have "set (?N n) \<subseteq> PackageNode ` set nxt \<union> ImporterNode ` set (esImporters st1)" using k(2,3) by blast
    then show ?thesis using nxt imps a(1) by blast
  qed
  have pick: "esPicked st1 = jset d p (esPicked st)" by (rule takeSnapshot_picked [OF r])
  have "map_of (esPicked st2) x = (if PackageNode x \<in> stateNodes st2 - stateNodes st
      then map_of (orEmpty (packages l)) x else map_of (esPicked st) x)" for x
  proof (cases "x = d")
    case True
    have "PackageNode d \<in> stateNodes st1" "PackageNode d \<notin> stateNodes st"
      using k(1) new by (auto simp: PackageNode_stateNodes simp del: set_map)
    then show ?thesis using a(1) a(4) [of d] p by (auto simp: True pick alist.get_put)
  next
    case False
    have "PackageNode x \<in> stateNodes st1 \<longleftrightarrow> PackageNode x \<in> stateNodes st" using False unfolding k(1) by blast
    then show ?thesis unfolding a(4) [of x] pick using False sub1 by (simp add: alist.get_put)
  qed
  then show "walkOk (eoInclude opts) l {PackageNode d} st st2"
    unfolding walkOk_def using sub1 a(1) sound closed by (intro conjI ballI allI) (blast+)
  show "PackageNode d \<in> stateNodes st2" using k(1) a(1) by blast
qed

lemma pickPkgAllDeps_ok:
  "pickPkgAllDeps sat sys opts l ds par st = Inr st' \<Longrightarrow>
     walkOk (eoInclude opts) l (PackageNode ` set ds) st st' \<and> PackageNode ` set ds \<subseteq> stateNodes st' \<union> missingNodes l"
proof (induction sat sys opts l ds par st arbitrary: st' rule: pickPkgAllDeps.induct)
  case (1 sat sys opts l par st)
  then show ?case by (simp add: pickPkgAllDeps.simps walkOk_refl)
next
  case (2 sat sys opts l d ds par st)
  let ?N = "nextNodes (eoInclude opts) l"
  let ?R = "PackageNode ` set (d # ds)"
  note simps = 2(5) [unfolded pickPkgAllDeps.simps(2)]
  have sub: "PackageNode ` set ds \<subseteq> reach ?N ?R" "{PackageNode d} \<subseteq> reach ?N ?R" by (intro subsetI in_reach_base; simp)+
  show ?case
  proof (cases "d \<in> set (keys (esPicked st))")
    case True
    then have IH: "walkOk (eoInclude opts) l (PackageNode ` set ds) st st'" "PackageNode ` set ds \<subseteq> stateNodes st' \<union> missingNodes l"
      using simps 2(1) by (simp_all del: set_map)
    moreover have "PackageNode d \<in> stateNodes st'" using True walkOkD(1) [OF IH(1)] PackageNode_stateNodes by blast
    ultimately show ?thesis using walkOk_trans [OF walkOk_refl IH(1) empty_subsetI sub(1)] by simp
  next
    case new: False
    show ?thesis
    proof (cases "map_of (orEmpty (packages l)) d")
      case None
      then have IH: "walkOk (eoInclude opts) l (PackageNode ` set ds) st st'" "PackageNode ` set ds \<subseteq> stateNodes st' \<union> missingNodes l"
        using simps new 2(2) [OF new None] by (simp_all split: if_splits del: set_map)
      moreover have "PackageNode d \<in> missingNodes l" using None by (simp add: missingNodes_def)
      ultimately show ?thesis using walkOk_trans [OF walkOk_refl IH(1) empty_subsetI sub(1)] by simp
    next
      case (Some p)
      from simps new Some obtain nxt b st1 st2 where
        p: "takeSnapshot sat sys opts (importers l) par d p st = Inr (nxt, b, st1)" and
        1: "pickPkgAllDeps sat sys opts l nxt b st1 = Inr st2" and 2: "pickPkgAllDeps sat sys opts l ds par st2 = Inr st'"
        by (auto simp: sbind_Inr_iff simp del: set_map)
      note IH1 = "2.IH"(3) [OF new Some p refl refl 1] and IH2 = "2.IH"(4) [OF new Some p refl refl 1 2]
      note w = takeSnapshot_walk [OF p Some new IH1 [THEN conjunct1] IH1 [THEN conjunct2]]
      have "walkOk (eoInclude opts) l ?R st st'" by (rule walkOk_trans [OF w(1) IH2 [THEN conjunct1] sub(2,1)])
      moreover have "PackageNode d \<in> stateNodes st'" using w(2) walkOkD(1) [OF IH2 [THEN conjunct1]] by blast
      ultimately show ?thesis using IH2 [THEN conjunct2] by simp
    qed
  qed
qed

text \<open>The set \<open>skipped\<close> changes only for packages that are picked, and takes in only optional ones.\<close>

definition skipOk :: "engineOptions \<Rightarrow> lockfileObject \<Rightarrow> bool \<Rightarrow> engineState \<Rightarrow> engineState \<Rightarrow> bool" where
  "skipOk opts l par st st' \<longleftrightarrow> set (keys (esPicked st)) \<subseteq> set (keys (esPicked st')) \<and>
     (\<forall>d. d \<in> set (esSkipped st') \<longrightarrow> d \<in> set (esSkipped st) \<or>
        (d \<in> set (keys (esPicked st')) - set (keys (esPicked st)) \<and> \<not> (par \<and> eoIncludeIncompatiblePackages opts) \<and>
          map_option optional (map_of (orEmpty (packages l)) d) = Some (Some True))) \<and>
     (\<forall>d. d \<in> set (esSkipped st) \<longrightarrow> d \<in> set (esSkipped st') \<or>
        d \<in> set (keys (esPicked st')) - set (keys (esPicked st))) \<and>
     (par \<and> eoIncludeIncompatiblePackages opts \<longrightarrow>
        (\<forall>d \<in> set (keys (esPicked st')) - set (keys (esPicked st)). d \<notin> set (esSkipped st')))"

lemma skipOk_refl: "skipOk opts l par st st"
  by (simp add: skipOk_def)

lemma skipOk_trans:
  assumes 1: "skipOk opts l par st st1" and 2: "skipOk opts l par' st1 st2"
    and "par \<and> eoIncludeIncompatiblePackages opts \<longrightarrow> par'" "par' \<longrightarrow> par"
  shows "skipOk opts l par st st2"
proof -
  note a = 1 [unfolded skipOk_def] and b = 2 [unfolded skipOk_def]
  show ?thesis
    unfolding skipOk_def
  proof (intro conjI allI impI ballI)
    show "set (keys (esPicked st)) \<subseteq> set (keys (esPicked st2))" using a b by blast
    fix d
    show "d \<in> set (esSkipped st) \<or> (d \<in> set (keys (esPicked st2)) - set (keys (esPicked st)) \<and>
        \<not> (par \<and> eoIncludeIncompatiblePackages opts) \<and> map_option optional (map_of (orEmpty (packages l)) d) = Some (Some True))"
      if "d \<in> set (esSkipped st2)"
    proof -
      from b that have "d \<in> set (esSkipped st1) \<or> (d \<in> set (keys (esPicked st2)) - set (keys (esPicked st1)) \<and>
        \<not> (par' \<and> eoIncludeIncompatiblePackages opts) \<and> map_option optional (map_of (orEmpty (packages l)) d) = Some (Some True))"
        by blast
      then show ?thesis using a b assms(3) by blast
    qed
    show "d \<in> set (esSkipped st2) \<or> d \<in> set (keys (esPicked st2)) - set (keys (esPicked st))" if "d \<in> set (esSkipped st)"
      using a b that by blast
    show "d \<notin> set (esSkipped st2)" if par: "par \<and> eoIncludeIncompatiblePackages opts"
      and d: "d \<in> set (keys (esPicked st2)) - set (keys (esPicked st))"
    proof (cases "d \<in> set (keys (esPicked st1))")
      case True
      then have "d \<notin> set (esSkipped st1)" using a par d by blast
      then show ?thesis using b par assms(3) by blast
    next
      case False
      then show ?thesis using b par assms(3) d by blast
    qed
  qed
qed

lemma checkInstallable_skip:
  assumes "checkInstallable sat sys opts par d p st = Inr (b, st1)"
  shows "set (esSkipped st1) = set (esSkipped st) - {d} \<and> b \<and> par \<or>
    (esSkipped st1 = esSkipped st \<or> optional p = Some True \<and> set (esSkipped st1) = insert d (set (esSkipped st))) \<and>
    \<not> b \<and> \<not> (par \<and> eoIncludeIncompatiblePackages opts)"
  using assms by (auto simp: checkInstallable_def markSkipped_def installableOf_def sbind_Inr_iff split: if_splits)

lemma takeSnapshot_skip:
  assumes r: "takeSnapshot sat sys opts (importers l) par d p st = Inr (nxt, b, st1)"
    and p: "map_of (orEmpty (packages l)) d = Some p" and new: "d \<notin> set (keys (esPicked st))"
  shows "skipOk opts l par st st1" "b \<longrightarrow> par" "par \<and> eoIncludeIncompatiblePackages opts \<longrightarrow> b"
proof -
  obtain st0 where c: "checkInstallable sat sys opts par d p st = Inr (b, st0)" and "esSkipped st1 = esSkipped st0"
    using r by (auto simp: takeSnapshot_def sbind_Inr_iff Let_def case_prod_unfold)
  then have s: "set (esSkipped st1) = set (esSkipped st) - {d} \<and> b \<and> par \<or>
    (esSkipped st1 = esSkipped st \<or> optional p = Some True \<and> set (esSkipped st1) = insert d (set (esSkipped st))) \<and>
    \<not> b \<and> \<not> (par \<and> eoIncludeIncompatiblePackages opts)" using checkInstallable_skip [OF c] by simp
  have k: "set (keys (esPicked st1)) = insert d (set (keys (esPicked st)))"
    unfolding takeSnapshot_picked [OF r] by (rule keys_jset)
  show "skipOk opts l par st st1" unfolding skipOk_def k using s p new by auto
  show "b \<longrightarrow> par" "par \<and> eoIncludeIncompatiblePackages opts \<longrightarrow> b" using s by blast+
qed

lemma skipOk_weaken: "skipOk opts l b st st' \<Longrightarrow> b \<longrightarrow> par \<Longrightarrow> par \<and> eoIncludeIncompatiblePackages opts \<longrightarrow> b \<Longrightarrow>
  skipOk opts l par st st'"
  using skipOk_trans [OF skipOk_refl] by blast

lemma pickPkgAllDeps_skip:
  "pickPkgAllDeps sat sys opts l ds par st = Inr st' \<Longrightarrow> skipOk opts l par st st'"
proof (induction sat sys opts l ds par st arbitrary: st' rule: pickPkgAllDeps.induct)
  case (1 sat sys opts l par st)
  then show ?case by (simp add: pickPkgAllDeps.simps skipOk_refl)
next
  case (2 sat sys opts l d ds par st)
  note simps = 2(5) [unfolded pickPkgAllDeps.simps(2)]
  show ?case
  proof (cases "d \<in> set (keys (esPicked st))")
    case True
    then show ?thesis using simps 2(1) by (simp del: set_map)
  next
    case new: False
    show ?thesis
    proof (cases "map_of (orEmpty (packages l)) d")
      case None
      then show ?thesis using simps new 2(2) [OF new None] by (simp split: if_splits del: set_map)
    next
      case (Some p)
      from simps new Some obtain nxt b st1 st2 where
        p: "takeSnapshot sat sys opts (importers l) par d p st = Inr (nxt, b, st1)" and
        1: "pickPkgAllDeps sat sys opts l nxt b st1 = Inr st2" and 2: "pickPkgAllDeps sat sys opts l ds par st2 = Inr st'"
        by (auto simp: sbind_Inr_iff simp del: set_map)
      note s = takeSnapshot_skip [OF p Some new]
      have "skipOk opts l par st st2"
        by (rule skipOk_trans [OF s(1) "2.IH"(3) [OF new Some p refl refl 1] s(3,2)])
      then show ?thesis by (rule skipOk_trans [OF _ "2.IH"(4) [OF new Some p refl refl 1 2]]) simp_all
    qed
  qed
qed

section \<open>The filtered lockfile\<close>

lemma filter_result:
  assumes "filterLockfileByImportersAndEngine sat sys l ids opts skipped = Inr (l', selected, skipped')"
    and "packages l \<noteq> None"
  shows "\<exists>ds S st. toImporterDepPaths (importers l) (eoInclude opts) ids (uniq ids) = Inr (ds, S) \<and>
    pickPkgAllDeps sat sys opts l ds True \<lparr>esPicked = [], esImporters = S, esSkipped = skipped\<rparr> = Inr st \<and>
    packages l' = Some (esPicked st) \<and> selected = esImporters st \<and> skipped' = esSkipped st \<and>
    importers l' = map (\<lambda>(i, importer). (i, filterEngineImporter (eoInclude opts) (esPicked st) importer)) (importers l)"
  using assms by (auto simp: filterLockfileByImportersAndEngine_def sbind_Inr_iff)

lemma walked_nodes:
  assumes t: "toImporterDepPaths (importers l) (eoInclude opts) ids (uniq ids) = Inr (ds, S)"
    and w: "pickPkgAllDeps sat sys opts l ds True \<lparr>esPicked = [], esImporters = S, esSkipped = skipped\<rparr> = Inr st"
  shows "stateNodes st \<subseteq> reach (nextNodes (eoInclude opts) l) (ImporterNode ` set ids)"
    "reach (nextNodes (eoInclude opts) l) (ImporterNode ` set ids) \<subseteq> stateNodes st \<union> missingNodes l"
    "map_of (esPicked st) d = (if PackageNode d \<in> stateNodes st then map_of (orEmpty (packages l)) d else None)"
proof -
  let ?N = "nextNodes (eoInclude opts) l" and ?R = "ImporterNode ` set ids"
  let ?st0 = "\<lparr>esPicked = [], esImporters = S, esSkipped = skipped\<rparr>"
  note i = toImporterDepPaths_ok [OF t refl, unfolded importersOk_def set_uniq]
  note ok = pickPkgAllDeps_ok [OF w]
  note a = walkOkD [OF ok [THEN conjunct1]]
  have st0: "stateNodes ?st0 = ImporterNode ` set S" by (simp add: stateNodes_def)
  have S: "set ids \<subseteq> set S" "set S \<subseteq> set ids \<union> (set S - set ids)" using i by blast+
  have base: "?R \<subseteq> reach ?N ?R" by (rule reach_base)
  have "ImporterNode ` set S \<subseteq> reach ?N ?R" using S(2) base i by blast
  moreover have "reach ?N (PackageNode ` set ds) \<subseteq> reach ?N ?R" by (rule reach_subI) (use i in blast)
  ultimately show sound: "stateNodes st \<subseteq> reach ?N ?R" using a(2) st0 by blast
  have "set (?N n) \<subseteq> stateNodes st \<union> missingNodes l" if n: "n \<in> stateNodes st \<union> missingNodes l" for n
  proof (cases "n \<in> missingNodes l")
    case True
    then show ?thesis by (auto simp: missingNodes_def)
  next
    case nm: False
    show ?thesis
    proof (cases "n \<in> stateNodes ?st0")
      case False
      then show ?thesis using n nm a(3) by blast
    next
      case True
      then obtain j where j: "n = ImporterNode j" "j \<in> set S" unfolding st0 by blast
      then have "j \<in> set ids \<union> (set S - set ids)" by blast
      from bspec [OF i [THEN conjunct2, THEN conjunct1] this]
      have "set (?N n) \<subseteq> PackageNode ` set ds \<union> ImporterNode ` set S" unfolding j(1) .
      then show ?thesis using ok [THEN conjunct2] a(1) st0 by blast
    qed
  qed
  then show "reach ?N ?R \<subseteq> stateNodes st \<union> missingNodes l"
    by (intro reach_least) (use S(1) a(1) st0 in blast)+
  show "map_of (esPicked st) d = (if PackageNode d \<in> stateNodes st then map_of (orEmpty (packages l)) d else None)"
    unfolding a(4) [of d] st0 by auto
qed

text \<open>C9. Filtering a lockfile by importers and engine: the selected importers and the packages that are kept are
  exactly those that the given importers reach along the included references, following links to other importers and
  from there their dependencies; every package that is kept is the one of the lockfile. No optional dependency of an
  importer is left that has no package. A package is recorded as skipped only when it is kept, is optional, and
  incompatible packages are not included; nothing else is taken out of the set of skipped packages than what is kept.\<close>

theorem filterLockfileByImportersAndEngine_keeps:
  assumes "filterLockfileByImportersAndEngine sat sys l ids opts skipped = Inr (l', selected, skipped')"
    and "packages l \<noteq> None"
  shows "let kept = reach (nextNodes (eoInclude opts) l) (ImporterNode ` set ids) in
    (\<forall>i. i \<in> set selected \<longleftrightarrow> ImporterNode i \<in> kept) \<and>
    (\<forall>d. map_of (orEmpty (packages l')) d = (if PackageNode d \<in> kept then map_of (orEmpty (packages l)) d else None)) \<and>
    (\<forall>(i, importer) \<in> set (importers l'). \<forall>(alias, ref) \<in> set (orEmpty (optDeps importer)).
       \<forall>d. refToRelative ref alias = Some d \<and> d \<noteq> [] \<longrightarrow> map_of (orEmpty (packages l')) d \<noteq> None) \<and>
    (\<forall>d \<in> set skipped'. d \<in> set skipped \<or> (PackageNode d \<in> kept \<and> \<not> eoIncludeIncompatiblePackages opts \<and>
       map_option optional (map_of (orEmpty (packages l)) d) = Some (Some True))) \<and>
    (\<forall>d \<in> set skipped. d \<in> set skipped' \<or> PackageNode d \<in> kept)"
proof -
  let ?K = "reach (nextNodes (eoInclude opts) l) (ImporterNode ` set ids)"
  obtain ds S st where t: "toImporterDepPaths (importers l) (eoInclude opts) ids (uniq ids) = Inr (ds, S)"
    and w: "pickPkgAllDeps sat sys opts l ds True \<lparr>esPicked = [], esImporters = S, esSkipped = skipped\<rparr> = Inr st"
    and res: "packages l' = Some (esPicked st)" "selected = esImporters st" "skipped' = esSkipped st"
      "importers l' = map (\<lambda>(i, importer). (i, filterEngineImporter (eoInclude opts) (esPicked st) importer)) (importers l)"
    using filter_result [OF assms] by blast
  note n = walked_nodes [OF t w]
  have imp: "ImporterNode i \<in> ?K \<longleftrightarrow> i \<in> set selected" for i
    using n(1,2) unfolding res(2) ImporterNode_stateNodes [symmetric] missingNodes_def by blast
  have pkg: "map_of (orEmpty (packages l')) d = (if PackageNode d \<in> ?K then map_of (orEmpty (packages l)) d else None)" for d
    using n(1,2) unfolding res(1) orEmpty_simps n(3) [of d] missingNodes_def by auto
  have opt: "\<forall>(i, importer) \<in> set (importers l'). \<forall>(alias, ref) \<in> set (orEmpty (optDeps importer)).
       \<forall>d. refToRelative ref alias = Some d \<and> d \<noteq> [] \<longrightarrow> map_of (orEmpty (packages l')) d \<noteq> None"
    unfolding res(1,4) by (auto simp: filterEngineImporter_def Let_def filterImporter_def)
  note sk = pickPkgAllDeps_skip [OF w, unfolded skipOk_def]
  have in_K: "d \<in> set (keys (esPicked st)) \<Longrightarrow> PackageNode d \<in> ?K" for d
    using n(1) PackageNode_stateNodes by blast
  have "d \<in> set skipped \<or> (PackageNode d \<in> ?K \<and> \<not> eoIncludeIncompatiblePackages opts \<and>
       map_option optional (map_of (orEmpty (packages l)) d) = Some (Some True))" if "d \<in> set skipped'" for d
    using sk [THEN conjunct2, THEN conjunct1, THEN spec, of d] that in_K [of d] unfolding res(3) by auto
  moreover have "d \<in> set skipped' \<or> PackageNode d \<in> ?K" if "d \<in> set skipped" for d
    using sk [THEN conjunct2, THEN conjunct2, THEN conjunct1, THEN spec, of d] that in_K [of d] unfolding res(3) by auto
  ultimately show ?thesis unfolding Let_def using imp pkg opt by blast
qed

section \<open>An example\<close>

definition plainSystem :: system where
  "plainSystem = \<lparr>sysPlatform = ''linux'', sysArch = ''x64'', sysLibc = ''glibc'', sysNodeVersion = ''20.0.0''\<rparr>"

definition plainOptions :: engineOptions where
  "plainOptions = \<lparr>eoNodeVersion = None, eoEngineStrict = False,
     eoInclude = \<lparr>incDependencies = True, incDevDependencies = True, incOptionalDependencies = True\<rparr>,
     eoIncludeIncompatiblePackages = False, eoFailOnMissingDependencies = True, eoSupportedArchitectures = None\<rparr>"

text \<open>Two optional dependencies share an optional dependency; the first of them cannot be installed here.\<close>

definition optionalPackage :: "str list option \<Rightarrow> deps option \<Rightarrow> packageSnapshot" where
  "optionalPackage oses ds = emptyPackage\<lparr>optional := Some True, os := oses, dependencies := ds\<rparr>"

definition optionalLockfile :: lockfileObject where
  "optionalLockfile = emptyLockfile\<lparr>
     importers := [(''.'', emptyProject\<lparr>optDeps := Some [(''mac'', ''1.0.0''), (''any'', ''1.0.0''), (''lib'', ''link:lib'')]\<rparr>),
       (''lib'', emptyProject\<lparr>prodDeps := Some [(''c'', ''1.0.0'')]\<rparr>), (''other'', emptyProject)],
     packages := Some [(''mac@1.0.0'', optionalPackage (Some [''darwin'']) (Some [(''shared'', ''1.0.0'')])),
       (''any@1.0.0'', optionalPackage None (Some [(''shared'', ''1.0.0'')])),
       (''shared@1.0.0'', optionalPackage None None), (''c@1.0.0'', emptyPackage), (''unused@1.0.0'', emptyPackage)]\<rparr>"

definition optionalResult :: "lockfileObject \<times> projectId list \<times> depPath list" where
  "optionalResult = projr (filterLockfileByImportersAndEngine (\<lambda>v r. True) plainSystem optionalLockfile [''.''] plainOptions [])"

lemma optional_result:
  "filterLockfileByImportersAndEngine (\<lambda>v r. True) plainSystem optionalLockfile [''.''] plainOptions [] =
     Inr (fst optionalResult, fst (snd optionalResult), snd (snd optionalResult))"
  by code_simp

theorem filterLockfileByImportersAndEngine_keeps_witness:
  "map_of (orEmpty (packages (fst optionalResult))) ''c@1.0.0'' = Some emptyPackage \<and> ''lib'' \<in> set (fst (snd optionalResult))"
proof -
  let ?N = "nextNodes (eoInclude plainOptions) optionalLockfile"
  let ?K = "reach ?N (ImporterNode ` set [''.''])"
  have p: "packages optionalLockfile \<noteq> None" by (simp add: optionalLockfile_def)
  have "ImporterNode ''.'' \<in> ?K" by (rule in_reach_base) simp
  moreover have "ImporterNode ''lib'' \<in> set (?N (ImporterNode ''.''))" by code_simp
  ultimately have lib: "ImporterNode ''lib'' \<in> ?K" by (rule reach_step)
  moreover have "PackageNode ''c@1.0.0'' \<in> set (?N (ImporterNode ''lib''))" by code_simp
  ultimately have c: "PackageNode ''c@1.0.0'' \<in> ?K" by (rule reach_step)
  note r = filterLockfileByImportersAndEngine_keeps [OF optional_result p, unfolded Let_def]
  have "map_of (orEmpty (packages optionalLockfile)) ''c@1.0.0'' = Some emptyPackage" by code_simp
  then show ?thesis using r [THEN conjunct1] r [THEN conjunct2, THEN conjunct1] lib c by simp
qed

text \<open>The shared package is recorded as skipped although \<open>any\<close>, which can be installed, depends on it: the walk
  looks at a package once, under the first of its parents.\<close>

lemma shared_is_skipped:
  "snd (snd optionalResult) = [''mac@1.0.0'', ''shared@1.0.0'']"
  by code_simp

end
