(* ===== verification/Tarball.thy ===== *)
theory Tarball
  imports Prelude "HOL-Library.Word"
begin

unbundle bit_operations_syntax

text \<open>
  store/cafs/src/parseTarball.ts: the index of the files of an uncompressed tar archive. A \<open>Buffer\<close> is a list of
  bytes, an index of it an integer; reading outside of the buffer gives \<open>undefined\<close>, which is \<open>None\<close>. A number that
  may be \<open>NaN\<close> is an \<open>int option\<close> with \<open>NaN\<close> as \<open>None\<close>; sizes are exact integers, as JavaScript's numbers are below
  2 to the 53rd. The bit operations of JavaScript work on 32 bits. Decoding UTF-8 (\<open>buffer.toString\<close>) is a parameter.
  The loop over the headers and the one over the records of a pax header may run forever; they are partial functions
  whose \<open>None\<close> is not returning.
\<close>

type_synonym byte = "8 word"
type_synonym jsnum = "int option"

section \<open>Buffers and numbers\<close>

definition bufAt :: "byte list \<Rightarrow> int \<Rightarrow> byte option" where
  "bufAt buf i = (if 0 \<le> i \<and> i < int (length buf) then Some (buf ! nat i) else None)"

text \<open>\<open>buffer.subarray(a, b)\<close>: negative indices count from the end.\<close>

definition subarray :: "byte list \<Rightarrow> int \<Rightarrow> int \<Rightarrow> byte list" where
  "subarray buf a b =
     (let n = int (length buf);
          i = nat (if a < 0 then max 0 (n + a) else a);
          j = nat (if b < 0 then max 0 (n + b) else b)
      in take (j - i) (drop i buf))"

text \<open>The bytes that \<open>buffer.toString('utf8', a, b)\<close> decodes: negative indices count as 0.\<close>

definition bytesOf :: "byte list \<Rightarrow> int \<Rightarrow> int \<Rightarrow> byte list" where
  "bytesOf buf a b = take (nat b - nat a) (drop (nat a) buf)"

text \<open>\<open>parseInt(s, radix)\<close> for a radix up to 10: white space, a sign, and the longest run of digits.\<close>

definition digitOf :: "nat \<Rightarrow> char \<Rightarrow> bool" where
  "digitOf radix c \<longleftrightarrow> 48 \<le> (of_char c :: nat) \<and> of_char c < 48 + radix"

definition digitsValue :: "nat \<Rightarrow> str \<Rightarrow> int" where
  "digitsValue radix ds = foldl (\<lambda>n c. n * int radix + (of_char c - 48)) 0 ds"

definition parseDigits :: "nat \<Rightarrow> str \<Rightarrow> jsnum" where
  "parseDigits radix s =
     (let ds = takeWhile (digitOf radix) s in if ds = [] then None else Some (digitsValue radix ds))"

definition parseInt :: "str \<Rightarrow> nat \<Rightarrow> jsnum" where
  "parseInt s radix =
     (case dropWhile jsSpace s of
        [] \<Rightarrow> None
      | c # cs \<Rightarrow> if c = CHR ''-'' then map_option uminus (parseDigits radix cs)
          else if c = CHR ''+'' then parseDigits radix cs else parseDigits radix (c # cs))"

text \<open>The conversion of a number to 32 bits for the bit operations, and \<open>isNaN(n) || n === 0\<close>.\<close>

definition toInt32 :: "jsnum \<Rightarrow> 32 word" where
  "toInt32 n = (case n of None \<Rightarrow> 0 | Some k \<Rightarrow> word_of_int k)"

section \<open>Names\<close>

text \<open>\<open>path.posix.join('/', name).slice(1)\<close>\<close>

definition normalizeSegment :: "str \<Rightarrow> str list \<Rightarrow> str list" where
  "normalizeSegment seg segs =
     (if seg = [] \<or> seg = ''.'' then segs else if seg = ''..'' then butlast segs else segs @ [seg])"

definition posixJoinRoot :: "str \<Rightarrow> str" where
  "posixJoinRoot name =
     (let segs = fold normalizeSegment (splitOn (CHR ''/'') name) [] in
      if segs = [] then [] else joinWith ''/'' segs @ (if endsWith name ''/'' then ''/'' else []))"

text \<open>\<open>name.replaceAll('//', '/')\<close>\<close>

fun replaceDoubleSlash :: "str \<Rightarrow> str" where
  "replaceDoubleSlash (a # b # s) =
     (if a = CHR ''/'' \<and> b = CHR ''/'' then CHR ''/'' # replaceDoubleSlash s else a # replaceDoubleSlash (b # s))"
| "replaceDoubleSlash s = s"

text \<open>\<open>path.replace(/\0.*/, '')\<close>: a dot does not match a line terminator.\<close>

definition cutAtNul :: "str \<Rightarrow> str" where
  "cutAtNul s = takeWhile (\<lambda>c. c \<noteq> CHR 0x00) s @
     dropWhile (\<lambda>c. \<not> lineTerminator c) (dropWhile (\<lambda>c. c \<noteq> CHR 0x00) s)"

definition afterFirstSlash :: "str \<Rightarrow> str" where
  "afterFirstSlash s = (if 0 \<le> indexOf s (CHR ''/'') then substr s (indexOf s (CHR ''/'') + 1) else s)"

section \<open>Headers\<close>

definition MODE_OFFSET :: int where "MODE_OFFSET = 100"
definition FILE_SIZE_OFFSET :: int where "FILE_SIZE_OFFSET = 124"
definition CHECKSUM_OFFSET :: int where "CHECKSUM_OFFSET = 148"
definition FILE_TYPE_OFFSET :: int where "FILE_TYPE_OFFSET = 156"
definition PREFIX_OFFSET :: int where "PREFIX_OFFSET = 345"

datatype tarError =
    InvalidChecksum int (expectedCheckSum: jsnum) (actualCheckSum: jsnum)
  | UnsupportedFileType "byte option" str
  | InvalidPaxLength str
  | UnexpectedGlobalPath str
  | InvalidPaxSize str
  | UnexpectedGlobalSize str

record tarFile =
  tfOffset :: int
  tfMode :: jsnum
  tfSize :: jsnum

record tarState =
  tsFiles :: "tarFile obj"
  tsLongLinkPath :: str
  tsPaxHeaderPath :: str
  tsPaxHeaderFileSize :: jsnum

definition parseOctal :: "(byte list \<Rightarrow> str) \<Rightarrow> byte list \<Rightarrow> int \<Rightarrow> int \<Rightarrow> jsnum" where
  "parseOctal utf8 buf offset len =
     (let val = subarray buf offset (offset + len);
          digits = dropWhile (\<lambda>b. b = 0) (takeWhile (\<lambda>b. b \<noteq> 32) (dropWhile (\<lambda>b. b = 32) val))
      in if digits = [] then Some 0 else parseInt (utf8 digits) 8)"

text \<open>Adding \<open>undefined\<close> to the sum makes it \<open>NaN\<close>.\<close>

definition addByte :: "byte list \<Rightarrow> int \<Rightarrow> jsnum \<Rightarrow> jsnum" where
  "addByte buf i acc = (case (acc, bufAt buf i) of (Some s, Some b) \<Rightarrow> Some (s + uint b) | _ \<Rightarrow> None)"

definition checkSum :: "byte list \<Rightarrow> int \<Rightarrow> jsnum" where
  "checkSum buf offset = fold (addByte buf) [offset + 156 .. offset + 511] (fold (addByte buf) [offset .. offset + 147] (Some 256))"

text \<open>\<open>parseString\<close> reads a header whose checksum is right, so all of its bytes are there. It gives the
  string and the new value of \<open>pathTrimmed\<close>.\<close>

definition isSlash :: "byte \<Rightarrow> bool" where
  "isSlash b \<longleftrightarrow> b = 47 \<or> b = 92"

definition parseString :: "byte list \<Rightarrow> int \<Rightarrow> int \<Rightarrow> bool \<Rightarrow> byte list \<times> bool" where
  "parseString buf offset len pathTrimmed =
     (let s = takeWhile (\<lambda>b. b \<noteq> 0) (bytesOf buf offset (offset + len)) in
      if \<not> pathTrimmed \<and> list_ex isSlash s then (drop 1 (dropWhile (\<lambda>b. \<not> isSlash b) s), True) else (s, pathTrimmed))"

text \<open>The name in the header: the prefix and the name, less their first segment.\<close>

definition headerName :: "(byte list \<Rightarrow> str) \<Rightarrow> byte list \<Rightarrow> int \<Rightarrow> str" where
  "headerName utf8 buf blockStart =
     (let (prefixBytes, trimmed) = parseString buf (blockStart + PREFIX_OFFSET) 155 False;
          prefix = utf8 prefixBytes;
          (prefix', trimmed') = (if prefix \<noteq> [] \<and> \<not> trimmed then ([], True) else (prefix, trimmed));
          (nameBytes, _) = parseString buf blockStart MODE_OFFSET trimmed'
      in if prefix' \<noteq> [] then prefix' @ ''/'' @ utf8 nameBytes else utf8 nameBytes)"

text \<open>The name of an entry: a long link or a pax path overrides the one of the header, once.\<close>

definition entryName :: "(byte list \<Rightarrow> str) \<Rightarrow> byte list \<Rightarrow> int \<Rightarrow> tarState \<Rightarrow> str \<times> tarState" where
  "entryName utf8 buf blockStart st =
     (let (name, st') =
        (if tsLongLinkPath st \<noteq> [] then (tsLongLinkPath st, st\<lparr>tsLongLinkPath := []\<rparr>)
         else if tsPaxHeaderPath st \<noteq> [] then (tsPaxHeaderPath st, st\<lparr>tsPaxHeaderPath := []\<rparr>)
         else (headerName utf8 buf blockStart, st))
      in (if contains name ''./'' then posixJoinRoot name else name, st'))"

definition blockBytesOf :: "jsnum \<Rightarrow> int" where
  "blockBytesOf fileSize = sint (toInt32 fileSize AND NOT 0x1ff) + (if toInt32 fileSize AND 0x1ff \<noteq> 0 then 1024 else 512)"

definition entrySize :: "(byte list \<Rightarrow> str) \<Rightarrow> byte list \<Rightarrow> int \<Rightarrow> tarState \<Rightarrow> jsnum" where
  "entrySize utf8 buf blockStart st =
     (if tsPaxHeaderFileSize st \<noteq> None then tsPaxHeaderFileSize st else parseOctal utf8 buf (blockStart + FILE_SIZE_OFFSET) 12)"

section \<open>Pax headers\<close>

function scanSpace :: "byte list \<Rightarrow> int \<Rightarrow> int \<Rightarrow> int" where
  "scanSpace buf i end' = (if i < end' \<and> bufAt buf i \<noteq> Some 32 then scanSpace buf (i + 1) end' else i)"
  by pat_completeness auto

termination scanSpace
  by (relation "measure (\<lambda>(buf, i, end'). nat (end' - i))") auto

declare scanSpace.simps [simp del]

text \<open>One record, with its text: the path and the size are taken, other keywords are not relevant.\<close>

definition paxRecord :: "bool \<Rightarrow> str \<Rightarrow> tarState \<Rightarrow> tarError + tarState" where
  "paxRecord global rec st =
     (let equalSign = indexOf rec (CHR ''='');
          keyword = Prelude.slice rec 0 equalSign
      in if keyword = ''path'' then
           (let slashIndex = indexOfFrom rec (CHR ''/'') (nat (equalSign + 1)) in
            if global then Inl (UnexpectedGlobalPath rec)
            else Inr (st\<lparr>tsPaxHeaderPath := substr rec (if 0 \<le> slashIndex then slashIndex + 1 else equalSign + 1)\<rparr>))
         else if keyword = ''size'' then
           (let size = parseInt (substr rec (equalSign + 1)) 10 in
            if size = None \<or> the size < 0 then Inl (InvalidPaxSize rec)
            else if global then Inl (UnexpectedGlobalSize rec)
            else Inr (st\<lparr>tsPaxHeaderFileSize := size\<rparr>))
         else Inr st)"

partial_function (option) parsePaxRecords ::
    "(byte list \<Rightarrow> str) \<Rightarrow> byte list \<Rightarrow> bool \<Rightarrow> int \<Rightarrow> int \<Rightarrow> tarState \<Rightarrow> (tarError + tarState) option" where
  "parsePaxRecords utf8 buf global end' lineStart st =
     (if \<not> lineStart < end' then Some (Inr st)
      else let i = scanSpace buf lineStart end';
               strLen = utf8 (bytesOf buf lineStart i) in
        (case parseInt strLen 10 of
           None \<Rightarrow> Some (Inl (InvalidPaxLength strLen))
         | Some len \<Rightarrow>
             if len = 0 then Some (Inl (InvalidPaxLength strLen))
             else (case paxRecord global (utf8 (bytesOf buf (i + 1) (lineStart + len - 1))) st of
                     Inl e \<Rightarrow> Some (Inl e)
                   | Inr st' \<Rightarrow> parsePaxRecords utf8 buf global end' (lineStart + len) st')))"

text \<open>A length that is \<open>NaN\<close> ends the loop at once.\<close>

definition parsePaxHeader ::
    "(byte list \<Rightarrow> str) \<Rightarrow> byte list \<Rightarrow> int \<Rightarrow> jsnum \<Rightarrow> bool \<Rightarrow> tarState \<Rightarrow> (tarError + tarState) option" where
  "parsePaxHeader utf8 buf offset len global st =
     (case len of None \<Rightarrow> Some (Inr st) | Some n \<Rightarrow> parsePaxRecords utf8 buf global (offset + n) offset st)"

section \<open>parseTarball\<close>

definition longLink :: "(byte list \<Rightarrow> str) \<Rightarrow> byte list \<Rightarrow> int \<Rightarrow> jsnum \<Rightarrow> str" where
  "longLink utf8 buf blockStart fileSize =
     afterFirstSlash (cutAtNul (utf8 (bytesOf buf (blockStart + 512)
       (case fileSize of None \<Rightarrow> 0 | Some n \<Rightarrow> blockStart + 512 + n))))"

text \<open>The switch over the type of an entry.\<close>

definition addEntry ::
    "(byte list \<Rightarrow> str) \<Rightarrow> byte list \<Rightarrow> int \<Rightarrow> jsnum \<Rightarrow> str \<Rightarrow> tarState \<Rightarrow> (tarError + tarState) option" where
  "addEntry utf8 buf blockStart fileSize fileName st =
     (let fileType = bufAt buf (blockStart + FILE_TYPE_OFFSET) in
      if fileType = Some 0 \<or> fileType = Some 48 \<or> fileType = Some 49 then
        Some (Inr (st\<lparr>tsFiles := jset (replaceDoubleSlash fileName)
          \<lparr>tfOffset = blockStart + 512, tfMode = parseOctal utf8 buf (blockStart + MODE_OFFSET) 8, tfSize = fileSize\<rparr>
          (tsFiles st)\<rparr>))
      else if fileType = Some 53 \<or> fileType = Some 50 then Some (Inr st)
      else if fileType = Some 120 then parsePaxHeader utf8 buf (blockStart + 512) fileSize False st
      else if fileType = Some 103 then parsePaxHeader utf8 buf (blockStart + 512) fileSize True st
      else if fileType = Some 76 then Some (Inr (st\<lparr>tsLongLinkPath := longLink utf8 buf blockStart fileSize\<rparr>))
      else Some (Inl (UnsupportedFileType fileType fileName)))"

text \<open>One round of the loop: the start of the next header and the state there.\<close>

definition parseHeader ::
    "(byte list \<Rightarrow> str) \<Rightarrow> byte list \<Rightarrow> int \<Rightarrow> tarState \<Rightarrow> (tarError + int \<times> tarState) option" where
  "parseHeader utf8 buf blockStart st =
     (let fileSize = entrySize utf8 buf blockStart st;
          expected = parseOctal utf8 buf (blockStart + CHECKSUM_OFFSET) 8;
          actual = checkSum buf blockStart in
      if expected = None \<or> expected \<noteq> actual then Some (Inl (InvalidChecksum blockStart expected actual))
      else let (fileName, st') = entryName utf8 buf blockStart (st\<lparr>tsPaxHeaderFileSize := None\<rparr>) in
        map_option (map_sum id (\<lambda>st''. (blockStart + blockBytesOf fileSize, st'')))
          (addEntry utf8 buf blockStart fileSize fileName st'))"

partial_function (option) parseHeaders ::
    "(byte list \<Rightarrow> str) \<Rightarrow> byte list \<Rightarrow> int \<Rightarrow> tarState \<Rightarrow> (tarError + tarState) option" where
  "parseHeaders utf8 buf blockStart st =
     (if bufAt buf blockStart = Some 0 then Some (Inr st)
      else (case parseHeader utf8 buf blockStart st of
              None \<Rightarrow> None
            | Some (Inl e) \<Rightarrow> Some (Inl e)
            | Some (Inr (next', st')) \<Rightarrow> parseHeaders utf8 buf next' st'))"

definition emptyTarState :: tarState where
  "emptyTarState = \<lparr>tsFiles = [], tsLongLinkPath = [], tsPaxHeaderPath = [], tsPaxHeaderFileSize = None\<rparr>"

definition parseTarball :: "(byte list \<Rightarrow> str) \<Rightarrow> byte list \<Rightarrow> (tarError + tarFile obj) option" where
  "parseTarball utf8 buf = map_option (map_sum id tsFiles) (parseHeaders utf8 buf 0 emptyTarState)"

section \<open>Names\<close>

text \<open>A name that does not climb: no segment but the last is a dot or two.\<close>

definition safeName :: "str \<Rightarrow> bool" where
  "safeName name \<longleftrightarrow> list_all (\<lambda>seg. seg \<noteq> ''.'' \<and> seg \<noteq> ''..'') (butlast (splitOn (CHR ''/'') name))"

lemma splitOn_append: "CHR ''/'' \<notin> set w \<Longrightarrow> splitOn (CHR ''/'') (w @ CHR ''/'' # s) = w # splitOn (CHR ''/'') s"
  by (induction w) auto

lemma splitOn_plain: "CHR ''/'' \<notin> set w \<Longrightarrow> splitOn (CHR ''/'') w = [w]"
  by (induction w) auto

lemma splitOn_segment: "seg \<in> set (splitOn (CHR ''/'') s) \<Longrightarrow> CHR ''/'' \<notin> set seg"
  by (induction s arbitrary: seg) (auto split: if_splits list.splits)

lemma butlast_splitOn_contains:
  "seg \<in> set (butlast (splitOn (CHR ''/'') s)) \<Longrightarrow> contains s (seg @ ''/'')"
proof (induction "length s" arbitrary: s rule: less_induct)
  case less
  show ?case
  proof (cases "CHR ''/'' \<in> set s")
    case False
    then show ?thesis using less.prems by (simp add: splitOn_plain)
  next
    case True
    then obtain w t where s: "s = w @ CHR ''/'' # t" "CHR ''/'' \<notin> set w" by (meson split_list_first)
    then have "seg = w \<or> seg \<in> set (butlast (splitOn (CHR ''/'') t))" using less.prems by (simp add: splitOn_append)
    then show ?thesis
    proof
      assume "seg = w"
      then show ?thesis unfolding includes_iff using s by (intro exI [of _ "[]"] exI [of _ t]) simp
    next
      assume "seg \<in> set (butlast (splitOn (CHR ''/'') t))"
      then obtain u v where "t = u @ (seg @ ''/'') @ v" using less.hyps [of t] s unfolding includes_iff by auto
      then show ?thesis unfolding includes_iff s by (intro exI [of _ "w @ ''/'' @ u"] exI [of _ v]) simp
    qed
  qed
qed

lemma safeName_plain:
  assumes "\<not> contains s ''./''"
  shows "safeName s"
proof -
  have "contains s ''./''" if "contains s (''..'' @ ''/'')"
  proof -
    from that obtain u v where "s = u @ (''..'' @ ''/'') @ v" unfolding includes_iff by blast
    then show ?thesis unfolding includes_iff by (intro exI [of _ "u @ ''.''"] exI [of _ v]) simp
  qed
  then show ?thesis
    unfolding safeName_def list_all_iff using butlast_splitOn_contains [of _ s] assms by fastforce
qed

lemma splitOn_joinWith:
  "segs \<noteq> [] \<Longrightarrow> list_all (\<lambda>seg. CHR ''/'' \<notin> set seg) segs \<Longrightarrow>
     splitOn (CHR ''/'') (joinWith ''/'' segs @ t) = butlast segs @ splitOn (CHR ''/'') (last segs @ t)"
proof (induction segs)
  case (Cons w segs)
  then show ?case by (cases segs) (simp_all add: splitOn_append)
qed simp

lemma normalizeSegments:
  assumes "list_all (\<lambda>seg. CHR ''/'' \<notin> set seg) segs"
  shows "list_all (\<lambda>seg. CHR ''/'' \<notin> set seg \<and> seg \<noteq> ''.'' \<and> seg \<noteq> ''..'') (fold normalizeSegment segs [])"
proof -
  let ?ok = "\<lambda>segs. list_all (\<lambda>seg. CHR ''/'' \<notin> set seg \<and> seg \<noteq> ''.'' \<and> seg \<noteq> ''..'') segs"
  have "?ok acc \<Longrightarrow> ?ok (fold normalizeSegment segs acc)" for acc
    using assms
  proof (induction segs arbitrary: acc)
    case (Cons seg segs)
    have "?ok (normalizeSegment seg acc)"
      using Cons.prems by (auto simp: normalizeSegment_def list_all_iff dest: in_set_butlastD)
    then show ?case using Cons by simp
  qed simp
  then show ?thesis by simp
qed

lemma safeName_posixJoinRoot: "safeName (posixJoinRoot name)"
proof -
  let ?segs = "fold normalizeSegment (splitOn (CHR ''/'') name) []"
  have ok: "list_all (\<lambda>seg. CHR ''/'' \<notin> set seg \<and> seg \<noteq> ''.'' \<and> seg \<noteq> ''..'') ?segs"
    by (rule normalizeSegments) (simp add: list_all_iff splitOn_segment)
  then have slash: "list_all (\<lambda>seg. CHR ''/'' \<notin> set seg) ?segs" by (auto simp: list_all_iff)
  show ?thesis
  proof (cases "?segs = []")
    case True
    then show ?thesis by (simp add: posixJoinRoot_def safeName_def)
  next
    case False
    let ?t = "if endsWith name ''/'' then ''/'' else []"
    have last: "CHR ''/'' \<notin> set (last ?segs)" using slash False by (simp add: list_all_iff)
    have "splitOn (CHR ''/'') (joinWith ''/'' ?segs @ ?t) = butlast ?segs @ splitOn (CHR ''/'') (last ?segs @ ?t)"
      by (rule splitOn_joinWith [OF False slash])
    also have "splitOn (CHR ''/'') (last ?segs @ ?t) = last ?segs # (if endsWith name ''/'' then [[]] else [])"
      using last by (simp add: splitOn_append splitOn_plain)
    finally have "set (butlast (splitOn (CHR ''/'') (joinWith ''/'' ?segs @ ?t))) \<subseteq> set ?segs"
      using False by (auto split: if_splits dest: in_set_butlastD simp: butlast_append)
    then show ?thesis using ok False by (auto simp: posixJoinRoot_def safeName_def list_all_iff)
  qed
qed

text \<open>Replacing double slashes drops empty segments only.\<close>

lemma splitOn_replaceDoubleSlash:
  "hd (splitOn (CHR ''/'') (replaceDoubleSlash s)) = hd (splitOn (CHR ''/'') s) \<and>
   (tl (splitOn (CHR ''/'') s) = [] \<longrightarrow> tl (splitOn (CHR ''/'') (replaceDoubleSlash s)) = []) \<and>
   set (butlast (tl (splitOn (CHR ''/'') (replaceDoubleSlash s)))) \<subseteq> set (butlast (tl (splitOn (CHR ''/'') s)))"
proof (induction s rule: replaceDoubleSlash.induct)
  case (1 a b s)
  show ?case
  proof (cases "a = CHR ''/'' \<and> b = CHR ''/''")
    case True
    obtain w ws where w: "splitOn (CHR ''/'') s = w # ws" by (meson neq_Nil_conv splitOn_not_Nil)
    obtain v vs where v: "splitOn (CHR ''/'') (replaceDoubleSlash s) = v # vs" by (meson neq_Nil_conv splitOn_not_Nil)
    show ?thesis using 1(1) [OF True] True by (auto simp: w v)
  next
    case False
    obtain w ws where w: "splitOn (CHR ''/'') (b # s) = w # ws" by (meson neq_Nil_conv splitOn_not_Nil)
    obtain v vs where v: "splitOn (CHR ''/'') (replaceDoubleSlash (b # s)) = v # vs" by (meson neq_Nil_conv splitOn_not_Nil)
    have IH: "v = w" "ws = [] \<longrightarrow> vs = []" "set (butlast vs) \<subseteq> set (butlast ws)"
      using 1(2) [OF False] unfolding w v by simp_all
    have s: "splitOn (CHR ''/'') (a # b # s) = (if a = CHR ''/'' then [] # w # ws else (a # w) # ws)"
      using w by (simp del: splitOn.simps(2) add: splitOn.simps(2) [of _ a])
    have r: "splitOn (CHR ''/'') (replaceDoubleSlash (a # b # s)) = (if a = CHR ''/'' then [] # v # vs else (a # v) # vs)"
    proof -
      have "replaceDoubleSlash (a # b # s) = a # replaceDoubleSlash (b # s)" using False by auto
      then show ?thesis by (simp only: splitOn.simps(2) [of _ a] v list.case)
    qed
    show ?thesis unfolding s r using IH by auto
  qed
qed simp_all

lemma safeName_replaceDoubleSlash:
  assumes "safeName s"
  shows "safeName (replaceDoubleSlash s)"
proof -
  obtain w ws where w: "splitOn (CHR ''/'') s = w # ws" by (meson neq_Nil_conv splitOn_not_Nil)
  obtain v vs where v: "splitOn (CHR ''/'') (replaceDoubleSlash s) = v # vs" by (meson neq_Nil_conv splitOn_not_Nil)
  have "v = w" "ws = [] \<longrightarrow> vs = []" "set (butlast vs) \<subseteq> set (butlast ws)"
    using splitOn_replaceDoubleSlash [of s] unfolding w v by simp_all
  then have "set (butlast (v # vs)) \<subseteq> set (butlast (w # ws))" by auto
  then show ?thesis using assms unfolding safeName_def w v list_all_iff by blast
qed

lemma paxRecord_files: "paxRecord global rec st = Inr st' \<Longrightarrow> tsFiles st' = tsFiles st"
  by (auto simp: paxRecord_def Let_def split: if_splits)

lemma parsePaxRecords_files:
  assumes "parsePaxRecords utf8 buf global e i st = Some (Inr st')"
  shows "tsFiles st' = tsFiles st"
proof -
  have "case Inr st' of Inl (x :: tarError) \<Rightarrow> True | Inr st' \<Rightarrow> tsFiles st' = tsFiles st"
  proof (rule parsePaxRecords.raw_induct [OF _ assms, where
        P = "\<lambda>utf8 buf global e i st r. case r of Inl x \<Rightarrow> True | Inr st' \<Rightarrow> tsFiles st' = tsFiles st"], goal_cases)
    case (1 pp utf8 buf global e i st r)
    note IH = 1(1) and body = 1(2)
    show ?case
    proof (cases "i < e")
      case True
      then show ?thesis
        using body by (auto simp: Let_def split: option.splits if_splits sum.splits dest!: IH paxRecord_files)
    next
      case False
      then show ?thesis using body by auto
    qed
  qed
  then show ?thesis by simp
qed

lemma addEntry_files:
  assumes "addEntry utf8 buf off len name st = Some (Inr st')"
  shows "tsFiles st' = tsFiles st \<or> (\<exists>f. tsFiles st' = jset (replaceDoubleSlash name) f (tsFiles st))"
  using assms by (auto simp: addEntry_def parsePaxHeader_def Let_def split: if_splits option.splits dest!: parsePaxRecords_files)

lemma entryName_safe: "entryName utf8 buf off st = (name, st') \<Longrightarrow> safeName name \<and> tsFiles st' = tsFiles st"
  by (auto simp: entryName_def Let_def safeName_plain safeName_posixJoinRoot split: if_splits)

lemma parseHeader_files:
  assumes "parseHeader utf8 buf off st = Some (Inr (off', st'))"
  shows "\<forall>name \<in> set (keys (tsFiles st')). safeName name \<or> name \<in> set (keys (tsFiles st))"
proof -
  let ?st = "st\<lparr>tsPaxHeaderFileSize := None\<rparr>"
  obtain name st1 where n: "entryName utf8 buf off ?st = (name, st1)" by (rule prod.exhaust)
  then have a: "addEntry utf8 buf off (entrySize utf8 buf off st) name st1 = Some (Inr st')"
    using assms by (auto simp: parseHeader_def Let_def split: if_splits) (auto simp: map_sum_def split: sum.splits)
  have "safeName (replaceDoubleSlash name)" "tsFiles st1 = tsFiles st"
    using entryName_safe [OF n] by (simp_all add: safeName_replaceDoubleSlash)
  then show ?thesis using addEntry_files [OF a] by (auto simp: dom_def in_keys_iff alist.get_put simp del: set_map split: if_splits)
qed


section \<open>Archives\<close>

text \<open>An archive as \<open>tar\<close> writes it: for each file a header and its content padded to whole blocks, and two
  blocks of zeros at the end.\<close>

record tarEntry =
  teName :: "byte list"
  teMode :: nat
  teContent :: "byte list"

definition octalDigit :: "nat \<Rightarrow> byte" where
  "octalDigit d = word_of_nat (48 + d)"

definition octalBytes :: "nat \<Rightarrow> nat \<Rightarrow> byte list" where
  "octalBytes w n = map (\<lambda>i. octalDigit (n div 8 ^ i mod 8)) (rev [0..<w])"

definition zeros :: "nat \<Rightarrow> byte list" where
  "zeros n = replicate n 0"

text \<open>The header of an entry that announces the size \<open>n\<close>.\<close>

definition headerFront :: "tarEntry \<Rightarrow> nat \<Rightarrow> byte list" where
  "headerFront e n = teName e @ zeros (100 - length (teName e)) @ octalBytes 7 (teMode e) @ zeros 17 @
     octalBytes 11 n @ zeros 13"

definition headerBack :: "byte list" where
  "headerBack = 48 # zeros 355"

definition byteSum :: "byte list \<Rightarrow> int" where
  "byteSum bs = (\<Sum>b \<leftarrow> bs. uint b)"

definition headerSum :: "tarEntry \<Rightarrow> nat \<Rightarrow> int" where
  "headerSum e n = 256 + byteSum (headerFront e n) + byteSum headerBack"

definition tarHeader :: "tarEntry \<Rightarrow> nat \<Rightarrow> byte list" where
  "tarHeader e n = headerFront e n @ octalBytes 6 (nat (headerSum e n)) @ [0, 32] @ headerBack"

definition padding :: "nat \<Rightarrow> nat" where
  "padding n = (if n mod 512 = 0 then 0 else 512 - n mod 512)"

definition tarBlock :: "tarEntry \<Rightarrow> byte list" where
  "tarBlock e = tarHeader e (length (teContent e)) @ teContent e @ zeros (padding (length (teContent e)))"

definition tarArchive :: "tarEntry list \<Rightarrow> byte list" where
  "tarArchive es = concat (map tarBlock es) @ zeros 1024"

definition validEntry :: "tarEntry \<Rightarrow> bool" where
  "validEntry e \<longleftrightarrow> teName e \<noteq> [] \<and> length (teName e) \<le> 100 \<and> list_all (\<lambda>b. 0 < b \<and> b < 128) (teName e) \<and>
     teMode e < 8 ^ 7 \<and> length (teContent e) < 2 ^ 31"

text \<open>The documented behaviour of the decoder that is used: ASCII bytes are their characters.\<close>

definition asciiDecoder :: "(byte list \<Rightarrow> str) \<Rightarrow> bool" where
  "asciiDecoder utf8 \<longleftrightarrow> (\<forall>bs. list_all (\<lambda>b. b < 128) bs \<longrightarrow> utf8 bs = map (\<lambda>b. char_of (unat b)) bs)"

subsection \<open>Octal numbers\<close>

lemma unat_octalDigit: "d < 8 \<Longrightarrow> unat (octalDigit d) = 48 + d"
  by (simp add: octalDigit_def unsigned_of_nat take_bit_nat_eq_self del: of_nat_add)

lemma length_octalBytes [simp]: "length (octalBytes w n) = w"
  by (simp add: octalBytes_def)

lemma length_zeros [simp]: "length (zeros n) = n"
  by (simp add: zeros_def)

lemma octalBytes_range: "b \<in> set (octalBytes w n) \<Longrightarrow> 48 \<le> unat b \<and> unat b < 56"
  by (auto simp: octalBytes_def unat_octalDigit)

definition octalChars :: "nat \<Rightarrow> nat \<Rightarrow> str" where
  "octalChars w n = map (\<lambda>i. char_of (48 + n div 8 ^ i mod 8)) (rev [0..<w])"

lemma digitsValue_octal: "digitsValue 8 (octalChars w n) = int (n mod 8 ^ w)"
proof -
  have "foldl (\<lambda>k c. k * 8 + (of_char c - 48)) a (octalChars w n) = a * 8 ^ w + int (n mod 8 ^ w)" for a :: int
  proof (induction w arbitrary: a)
    case (Suc w)
    have d: "n div 8 ^ w mod 8 < (8 :: nat)" by simp
    have c: "of_char (char_of (48 + n div 8 ^ w mod 8) :: char) = (48 + int (n div 8 ^ w mod 8))"
    proof -
      have "of_char (char_of (48 + n div 8 ^ w mod 8) :: char) = (of_nat ((48 + n div 8 ^ w mod 8) mod 256) :: int)"
        by (metis of_char_of of_nat_of_char)
      then show ?thesis using d by simp
    qed
    have m: "n mod 8 ^ Suc w = 8 ^ w * (n div 8 ^ w mod 8) + n mod 8 ^ w"
      by (metis mod_mult2_eq mult.commute power_Suc add.commute)
    have "octalChars (Suc w) n = char_of (48 + n div 8 ^ w mod 8) # octalChars w n" by (simp add: octalChars_def)
    then have "foldl (\<lambda>k c. k * 8 + (of_char c - 48)) a (octalChars (Suc w) n) =
        (a * 8 + int (n div 8 ^ w mod 8)) * 8 ^ w + int (n mod 8 ^ w)" by (simp add: c Suc del: of_nat_add)
    also have "\<dots> = a * 8 ^ Suc w + int (n mod 8 ^ Suc w)" unfolding m by (simp add: algebra_simps)
    finally show ?case .
  qed (simp add: octalChars_def)
  from this [of 0] show ?thesis by (simp add: digitsValue_def)
qed

lemma octal_decoded:
  assumes "asciiDecoder utf8"
  shows "utf8 (octalBytes w n @ zeros k) = octalChars w n @ replicate k (CHR 0x00)"
proof -
  have l: "b < 128" if "b \<in> set (octalBytes w n @ zeros k)" for b
    using that by (auto simp: zeros_def word_less_nat_alt dest: octalBytes_range)
  have "map (\<lambda>b. char_of (unat b)) (octalBytes w n) = octalChars w n"
    by (simp add: octalBytes_def octalChars_def unat_octalDigit)
  moreover have "utf8 (octalBytes w n @ zeros k) = map (\<lambda>b. char_of (unat b)) (octalBytes w n @ zeros k)"
    using assms l unfolding asciiDecoder_def list_all_iff by blast
  moreover have "(char_of (0 :: nat) :: char) = CHR 0x00" by (simp add: char_of_def)
  ultimately show ?thesis by (simp add: zeros_def)
qed

lemma of_char_octal: "c \<in> set (octalChars w n) \<Longrightarrow> digitOf 8 c"
proof -
  have "digitOf 8 (char_of (48 + d))" if "d < 8" for d :: nat
    using that by (auto simp: digitOf_def of_char_of)
  then show "c \<in> set (octalChars w n) \<Longrightarrow> digitOf 8 c" by (auto simp: octalChars_def)
qed

lemma parseInt_octal:
  assumes "0 < w" "n < 8 ^ w"
  shows "parseInt (octalChars w n @ replicate k (CHR 0x00)) 8 = Some (int n)"
proof -
  obtain c cs where c: "octalChars w n = c # cs" using assms(1) by (cases "octalChars w n") (auto simp: octalChars_def)
  have d: "digitOf 8 c" by (rule of_char_octal [of _ w n]) (simp add: c)
  then have "\<not> jsSpace c" "c \<noteq> CHR ''-''" "c \<noteq> CHR ''+''" by (auto simp: digitOf_def jsSpace_def)
  moreover have "takeWhile (digitOf 8) (octalChars w n @ replicate k (CHR 0x00)) = octalChars w n"
    using of_char_octal [of _ w n] by (subst takeWhile_append2) (auto simp: digitOf_def takeWhile_replicate)
  ultimately have "parseInt (octalChars w n @ replicate k (CHR 0x00)) 8 = Some (digitsValue 8 (octalChars w n))"
    by (simp add: parseInt_def parseDigits_def Let_def c)
  then show ?thesis using assms(2) by (simp add: digitsValue_octal)
qed

subsection \<open>Fields of a header in the buffer\<close>

lemma subarray_at: "subarray (pre @ s) (int (length pre) + int a) (int (length pre) + int a + int k) = take k (drop a s)"
  by (simp add: subarray_def nat_add_distrib)

lemma bytesOf_at: "bytesOf (pre @ s) (int (length pre) + int a) (int (length pre) + int a + int k) = take k (drop a s)"
  by (simp add: bytesOf_def nat_add_distrib)

lemma bufAt_at: "a < length s \<Longrightarrow> bufAt (pre @ s) (int (length pre) + int a) = Some (s ! a)"
  by (simp add: bufAt_def nat_add_distrib nth_append)

lemma field_octal:
  assumes utf8: "asciiDecoder utf8" and w: "0 < w" "n < 8 ^ w"
    and f: "take k (drop a s) = octalBytes w n @ zeros j @ (if sp then [32] else [])"
  shows "parseOctal utf8 (pre @ s) (int (length pre) + int a) (int k) = Some (int n)"
proof -
  let ?f = "octalBytes w n @ zeros j @ (if sp then [32] else [])"
  obtain b bs where b: "octalBytes w n = b # bs" using w(1) by (cases "octalBytes w n") (auto simp: octalBytes_def)
  have "48 \<le> unat b" using octalBytes_range [of b w n] b by simp
  then have b0: "b \<noteq> 32" "b \<noteq> 0" by auto
  have n32: "x \<noteq> 32" if "x \<in> set (octalBytes w n @ zeros j)" for x
    using that by (auto simp: zeros_def dest: octalBytes_range)
  have "dropWhile (\<lambda>b. b = 32) ?f = ?f" using b b0 by simp
  moreover have "takeWhile (\<lambda>b. b \<noteq> 32) ?f = octalBytes w n @ zeros j"
  proof -
    have "takeWhile (\<lambda>b. b \<noteq> 32) ((octalBytes w n @ zeros j) @ (if sp then [32] else [])) = octalBytes w n @ zeros j"
      using n32 by (subst takeWhile_append2) auto
    then show ?thesis by simp
  qed
  moreover have "dropWhile (\<lambda>b. b = 0) (octalBytes w n @ zeros j) = octalBytes w n @ zeros j" using b b0 by simp
  moreover have "octalBytes w n \<noteq> []" using b by simp
  moreover have "parseInt (utf8 (octalBytes w n @ zeros j)) 8 = Some (int n)"
    by (simp add: octal_decoded [OF utf8] parseInt_octal [OF w])
  ultimately show ?thesis unfolding parseOctal_def subarray_at f Let_def by simp
qed

lemma addBytes_range:
  "0 \<le> a \<Longrightarrow> a + int k \<le> int (length buf) \<Longrightarrow>
     fold (addByte buf) [a .. a + int k - 1] (Some s) = Some (s + byteSum (take k (drop (nat a) buf)))"
proof (induction k arbitrary: a s)
  case 0
  then show ?case by (simp add: byteSum_def)
next
  case (Suc k)
  have a: "[a .. a + int (Suc k) - 1] = a # [a + 1 .. a + int (Suc k) - 1]" by (rule upto_rec1) simp
  have n: "nat a < length buf" using Suc.prems by linarith
  have b: "addByte buf a (Some s) = Some (s + uint (buf ! nat a))" using Suc.prems n by (simp add: addByte_def bufAt_def)
  have "a + int (Suc k) - 1 = (a + 1) + int k - 1" by simp
  then have "fold (addByte buf) [a .. a + int (Suc k) - 1] (Some s) =
      fold (addByte buf) [a + 1 .. (a + 1) + int k - 1] (Some (s + uint (buf ! nat a)))" unfolding a by (simp add: b)
  also have "\<dots> = Some (s + uint (buf ! nat a) + byteSum (take k (drop (nat (a + 1)) buf)))"
    by (rule Suc.IH) (use Suc.prems in simp_all)
  also have "take (Suc k) (drop (nat a) buf) = buf ! nat a # take k (drop (nat (a + 1)) buf)"
    using n Suc.prems(1) by (simp add: take_Suc_conv_app_nth Cons_nth_drop_Suc [symmetric] nat_add_distrib)
  then have "s + uint (buf ! nat a) + byteSum (take k (drop (nat (a + 1)) buf)) = s + byteSum (take (Suc k) (drop (nat a) buf))"
    by (simp add: byteSum_def)
  finally show ?case .
qed

lemma checkSum_at:
  assumes "512 \<le> length s"
  shows "checkSum (pre @ s) (int (length pre)) = Some (256 + byteSum (take 148 s) + byteSum (take 356 (drop 156 s)))"
proof -
  let ?n = "int (length pre)"
  have "fold (addByte (pre @ s)) [?n .. ?n + int 148 - 1] (Some 256) = Some (256 + byteSum (take 148 s))"
    using assms by (subst addBytes_range) (simp_all del: of_nat_numeral)
  moreover have "fold (addByte (pre @ s)) [?n + 156 .. ?n + 156 + int 356 - 1] (Some k) = Some (k + byteSum (take 356 (drop 156 s)))" for k
    using assms by (subst addBytes_range) (simp_all add: nat_add_distrib del: of_nat_numeral)
  moreover have "?n + int 148 - 1 = ?n + 147" "?n + 156 + int 356 - 1 = ?n + 511" by simp_all
  ultimately show ?thesis unfolding checkSum_def by metis
qed

lemma length_headerFront: "validEntry e \<Longrightarrow> length (headerFront e n) = 148"
  by (simp add: headerFront_def validEntry_def)

lemma length_headerBack: "length headerBack = 356"
  by (simp add: headerBack_def)

lemma byteSum_bound: "0 \<le> byteSum bs \<and> byteSum bs \<le> 255 * int (length bs)"
proof (induction bs)
  case (Cons b bs)
  have "uint b < 2 ^ 8" using uint_lt2p [of b] by simp
  moreover have "0 \<le> uint b" by simp
  ultimately show ?case using Cons by (simp add: byteSum_def)
qed (simp add: byteSum_def)

lemma headerSum_bound: "validEntry e \<Longrightarrow> 0 \<le> headerSum e n \<and> nat (headerSum e n) < 8 ^ 6"
  using byteSum_bound [of "headerFront e n"] byteSum_bound [of headerBack]
  by (simp add: headerSum_def length_headerFront length_headerBack nat_less_iff)

lemma length_tarHeader: "validEntry e \<Longrightarrow> length (tarHeader e n) = 512"
  by (simp add: tarHeader_def length_headerFront headerBack_def)

subsection \<open>Parsing one header\<close>

text \<open>The fields of a header, wherever it is in the buffer.\<close>

lemma header_fields:
  assumes e: "validEntry e" and n: "n < 8 ^ 11" and utf8: "asciiDecoder utf8" and s: "s = tarHeader e n @ t"
  shows "parseOctal utf8 (pre @ s) (int (length pre) + MODE_OFFSET) 8 = Some (int (teMode e))"
    "parseOctal utf8 (pre @ s) (int (length pre) + FILE_SIZE_OFFSET) 12 = Some (int n)"
    "parseOctal utf8 (pre @ s) (int (length pre) + CHECKSUM_OFFSET) 8 = Some (headerSum e n)"
    "checkSum (pre @ s) (int (length pre)) = Some (headerSum e n)"
    "bufAt (pre @ s) (int (length pre) + FILE_TYPE_OFFSET) = Some 48"
proof -
  have v: "length (teName e) \<le> 100" "teMode e < 8 ^ 7" using e by (auto simp: validEntry_def)
  have "take 8 (drop 100 s) = octalBytes 7 (teMode e) @ zeros 1 @ (if False then [32] else [])"
    using v(1) by (simp add: s tarHeader_def headerFront_def zeros_def)
  from field_octal [OF utf8 _ v(2) this] show "parseOctal utf8 (pre @ s) (int (length pre) + MODE_OFFSET) 8 = Some (int (teMode e))"
    by (simp add: MODE_OFFSET_def)
  have "take 12 (drop 124 s) = octalBytes 11 n @ zeros 1 @ (if False then [32] else [])"
    using v(1) by (simp add: s tarHeader_def headerFront_def zeros_def)
  from field_octal [OF utf8 _ n this]
  show "parseOctal utf8 (pre @ s) (int (length pre) + FILE_SIZE_OFFSET) 12 = Some (int n)"
    by (simp add: FILE_SIZE_OFFSET_def)
  have "take 8 (drop 148 s) = octalBytes 6 (nat (headerSum e n)) @ zeros 1 @ (if True then [32] else [])"
    using length_headerFront [OF e] by (simp add: s tarHeader_def zeros_def)
  from field_octal [OF utf8 _ conjunct2 [OF headerSum_bound [OF e]] this] headerSum_bound [OF e]
  show "parseOctal utf8 (pre @ s) (int (length pre) + CHECKSUM_OFFSET) 8 = Some (headerSum e n)"
    by (simp add: CHECKSUM_OFFSET_def)
  have "take 148 s = headerFront e n" "take 356 (drop 156 s) = headerBack"
    using length_headerFront [OF e] by (simp_all add: s tarHeader_def length_headerBack)
  then show "checkSum (pre @ s) (int (length pre)) = Some (headerSum e n)"
    using length_tarHeader [OF e] by (subst checkSum_at) (simp_all add: s headerSum_def length_headerBack)
  have "s ! 156 = 48" using length_headerFront [OF e] by (simp add: s tarHeader_def headerBack_def nth_append)
  moreover have "bufAt (pre @ s) (int (length pre) + int 156) = Some (s ! 156)"
    by (rule bufAt_at) (simp add: s length_tarHeader [OF e])
  ultimately show "bufAt (pre @ s) (int (length pre) + FILE_TYPE_OFFSET) = Some 48" by (simp add: FILE_TYPE_OFFSET_def)
qed

text \<open>The name under which an entry is found: its name without the first segment.\<close>

definition trimmedName :: "byte list \<Rightarrow> byte list" where
  "trimmedName name = (if list_ex isSlash name then drop 1 (dropWhile (\<lambda>b. \<not> isSlash b) name) else name)"

definition entryKey :: "tarEntry \<Rightarrow> str" where
  "entryKey e =
     (let name = map (\<lambda>b. char_of (unat b)) (trimmedName (teName e)) in
      replaceDoubleSlash (if contains name ''./'' then posixJoinRoot name else name))"

lemma takeWhile_name:
  assumes "list_all (\<lambda>b. 0 < b \<and> b < 128) name" "length name \<le> 100"
  shows "takeWhile (\<lambda>b. b \<noteq> 0) (take 100 (name @ zeros (100 - length name) @ t)) = (name :: byte list)"
proof -
  have "take 100 (name @ zeros (100 - length name) @ t) = name @ zeros (100 - length name)"
    using assms(2) by (simp add: zeros_def)
  moreover have "takeWhile (\<lambda>b. b \<noteq> 0) (zeros k) = []" for k by (cases k) (simp_all add: zeros_def)
  moreover have "takeWhile (\<lambda>b. b \<noteq> 0) (name @ zeros k) = name @ takeWhile (\<lambda>b. b \<noteq> 0) (zeros k)" for k
    by (rule takeWhile_append2) (use assms(1) in \<open>auto simp: list_all_iff\<close>)
  ultimately show ?thesis by simp
qed

lemma headerName_at:
  assumes e: "validEntry e" and utf8: "asciiDecoder utf8"
  shows "headerName utf8 (pre @ tarHeader e n @ t) (int (length pre)) = map (\<lambda>b. char_of (unat b)) (trimmedName (teName e))"
proof -
  let ?buf = "pre @ tarHeader e n @ t"
  have v: "length (teName e) \<le> 100" "list_all (\<lambda>b. 0 < b \<and> b < 128) (teName e)" using e by (auto simp: validEntry_def)
  have "take 155 (drop 345 (tarHeader e n @ t)) = zeros 155"
    using length_headerFront [OF e] by (simp add: tarHeader_def headerBack_def zeros_def)
  then have "bytesOf ?buf (int (length pre) + PREFIX_OFFSET) (int (length pre) + PREFIX_OFFSET + 155) = zeros 155"
    using bytesOf_at [of pre "tarHeader e n @ t" 345 155] by (simp add: PREFIX_OFFSET_def)
  moreover have "takeWhile (\<lambda>b. b \<noteq> 0) (zeros 155) = []" by (simp add: zeros_def)
  ultimately have 1: "parseString ?buf (int (length pre) + PREFIX_OFFSET) 155 False = ([], False)"
    by (simp add: parseString_def)
  have "tarHeader e n @ t = teName e @ zeros (100 - length (teName e)) @ drop 100 (tarHeader e n @ t)"
    using v(1) by (simp add: tarHeader_def headerFront_def)
  then have "takeWhile (\<lambda>b. b \<noteq> 0) (take 100 (tarHeader e n @ t)) = teName e" using takeWhile_name [OF v(2,1)] by metis
  then have "parseString ?buf (int (length pre)) MODE_OFFSET False = (trimmedName (teName e), list_ex isSlash (teName e))"
    using bytesOf_at [of pre "tarHeader e n @ t" 0 100] by (auto simp: parseString_def MODE_OFFSET_def trimmedName_def)
  moreover have "list_all (\<lambda>b. b < 128) (trimmedName (teName e))"
    using v(2) by (auto simp: trimmedName_def list_all_iff dest!: in_set_dropD set_dropWhileD)
  ultimately show ?thesis
    using utf8 by (simp add: headerName_def 1 asciiDecoder_def)
qed

subsection \<open>Block sizes\<close>

text \<open>Below 2 to the 31st the bit operations on 32 bits round up to whole blocks, with one for the header.\<close>

lemma blockBytes_small:
  assumes "0 \<le> n" "n < 2 ^ 31"
  shows "blockBytesOf (Some n) = n div 512 * 512 + (if n mod 512 \<noteq> 0 then 1024 else 512)"
proof -
  let ?w = "word_of_int n :: 32 word"
  have m: "(0x1ff :: 32 word) = mask 9" by (simp add: mask_eq_exp_minus_1)
  have u: "uint ?w = n" using assms by (simp add: unsigned_of_int take_bit_int_eq_self)
  have "?w AND NOT 0x1ff = push_bit 9 (drop_bit 9 ?w)"
    unfolding m by (rule bit_word_eqI) (auto simp: bit_simps)
  moreover have "uint (push_bit 9 (drop_bit 9 ?w)) = n div 512 * 512"
  proof -
    have "uint (push_bit 9 (drop_bit 9 ?w)) = take_bit 32 (push_bit 9 (drop_bit 9 n))"
      using assms by (simp add: unsigned_push_bit_eq unsigned_drop_bit_eq u take_bit_int_eq_self)
    also have "push_bit 9 (drop_bit 9 n) = n div 512 * 512" by (simp add: push_bit_eq_mult drop_bit_eq_div)
    also have "take_bit 32 (n div 512 * 512) = n div 512 * 512"
      by (rule take_bit_int_eq_self) (use assms in simp_all)
    finally show ?thesis .
  qed
  ultimately have "uint (?w AND NOT 0x1ff) = n div 512 * 512" by simp
  then have "sint (?w AND NOT 0x1ff) = n div 512 * 512"
    using assms by (simp add: sint_uint signed_take_bit_int_eq_self)
  moreover have "?w AND 0x1ff = 0 \<longleftrightarrow> n mod 512 = 0"
  proof -
    have "?w AND 0x1ff = take_bit 9 ?w" unfolding m by (simp add: take_bit_eq_mask)
    moreover have "uint (take_bit 9 ?w) = n mod 512" unfolding unsigned_take_bit_eq u by (simp add: take_bit_eq_mod)
    ultimately show ?thesis by (metis unsigned_0 uint_0_iff)
  qed
  ultimately show ?thesis by (simp add: blockBytesOf_def toInt32_def)
qed

lemma blockBytes_block:
  assumes "validEntry e"
  shows "blockBytesOf (Some (int (length (teContent e)))) = int (length (tarBlock e))"
proof -
  let ?n = "length (teContent e)"
  have n: "int ?n < 2 ^ 31" using assms by (simp add: validEntry_def)
  have "int (?n div 512 * 512 + ?n mod 512) = int ?n" by simp
  then have "int ?n div 512 * 512 + int ?n mod 512 = int ?n" by presburger
  moreover have "int ?n mod 512 = int (?n mod 512)" "?n mod 512 < 512" by (simp_all add: of_nat_mod)
  ultimately show ?thesis unfolding blockBytes_small [OF of_nat_0_le_iff n]
    by (auto simp: tarBlock_def length_tarHeader [OF assms] padding_def of_nat_diff)
qed

text \<open>The state after a header of an archive.\<close>

definition addFile :: "nat \<Rightarrow> tarEntry \<Rightarrow> tarFile obj \<Rightarrow> tarFile obj" where
  "addFile off e = jset (entryKey e)
     \<lparr>tfOffset = int off + 512, tfMode = Some (int (teMode e)), tfSize = Some (int (length (teContent e)))\<rparr>"

lemma parseHeader_header:
  assumes e: "validEntry e" and n: "n < 8 ^ 11" and utf8: "asciiDecoder utf8"
  shows "parseHeader utf8 (pre @ tarHeader e n @ t) (int (length pre)) (emptyTarState\<lparr>tsFiles := files\<rparr>) =
    Some (Inr (int (length pre) + blockBytesOf (Some (int n)), emptyTarState\<lparr>tsFiles := jset (entryKey e)
      \<lparr>tfOffset = int (length pre) + 512, tfMode = Some (int (teMode e)), tfSize = Some (int n)\<rparr> files\<rparr>))"
proof -
  define s where "s = tarHeader e n @ t"
  note f = header_fields [OF e n utf8 s_def, of pre]
  have name: "headerName utf8 (pre @ s) (int (length pre)) = map (\<lambda>b. char_of (unat b)) (trimmedName (teName e))"
    unfolding s_def by (rule headerName_at [OF e utf8])
  have size: "entrySize utf8 (pre @ s) (int (length pre)) (emptyTarState\<lparr>tsFiles := files\<rparr>) = Some (int n)"
    by (simp add: entrySize_def emptyTarState_def f)
  show ?thesis
    unfolding s_def [symmetric] parseHeader_def size
    by (simp add: f entryName_def name emptyTarState_def addEntry_def entryKey_def Let_def map_sum_def)
qed

lemma parseHeader_at:
  assumes e: "validEntry e" and utf8: "asciiDecoder utf8"
  shows "parseHeader utf8 (pre @ tarBlock e @ t) (int (length pre)) (emptyTarState\<lparr>tsFiles := files\<rparr>) =
    Some (Inr (int (length (pre @ tarBlock e)), emptyTarState\<lparr>tsFiles := addFile (length pre) e files\<rparr>))"
proof -
  have "length (teContent e) < 8 ^ 11" using e by (simp add: validEntry_def)
  from parseHeader_header [OF e this utf8] show ?thesis
    by (simp add: tarBlock_def addFile_def blockBytes_block [OF e])
qed

subsection \<open>Parsing an archive\<close>

lemma tarBlock_not_end: "validEntry e \<Longrightarrow> bufAt (pre @ tarBlock e @ t) (int (length pre)) \<noteq> Some 0"
  using bufAt_at [of 0 "tarBlock e @ t" pre]
  by (cases "teName e") (auto simp: tarBlock_def tarHeader_def headerFront_def validEntry_def)

fun archiveFiles :: "nat \<Rightarrow> tarEntry list \<Rightarrow> tarFile obj \<Rightarrow> tarFile obj" where
  "archiveFiles off [] files = files"
| "archiveFiles off (e # es) files = archiveFiles (off + length (tarBlock e)) es (addFile off e files)"

lemma parseHeaders_archive:
  assumes "asciiDecoder utf8"
  shows "list_all validEntry es \<Longrightarrow>
    parseHeaders utf8 (pre @ tarArchive es) (int (length pre)) (emptyTarState\<lparr>tsFiles := files\<rparr>) =
      Some (Inr (emptyTarState\<lparr>tsFiles := archiveFiles (length pre) es files\<rparr>))"
proof (induction es arbitrary: pre files)
  case Nil
  have "bufAt (pre @ zeros 1024) (int (length pre)) = Some 0"
    using bufAt_at [of 0 "zeros 1024" pre] by (simp add: zeros_def)
  then show ?case by (subst parseHeaders.simps) (simp add: tarArchive_def)
next
  case (Cons e es)
  then have e: "validEntry e" and es: "list_all validEntry es" by simp_all
  have a: "pre @ tarArchive (e # es) = pre @ tarBlock e @ tarArchive es" by (simp add: tarArchive_def)
  have "parseHeaders utf8 (pre @ tarArchive (e # es)) (int (length pre)) (emptyTarState\<lparr>tsFiles := files\<rparr>) =
      parseHeaders utf8 ((pre @ tarBlock e) @ tarArchive es) (int (length (pre @ tarBlock e)))
        (emptyTarState\<lparr>tsFiles := addFile (length pre) e files\<rparr>)"
    unfolding a by (subst parseHeaders.simps) (simp add: tarBlock_not_end [OF e] parseHeader_at [OF e assms])
  then show ?case using Cons.IH [OF es, of "pre @ tarBlock e" "addFile (length pre) e files"] by simp
qed

text \<open>What is found under a name: the place and the size of the content of the last entry with that name.\<close>

definition fileOf :: "byte list \<Rightarrow> tarEntry \<Rightarrow> tarFile \<Rightarrow> bool" where
  "fileOf buf e f \<longleftrightarrow> tfMode f = Some (int (teMode e)) \<and> tfSize f = Some (int (length (teContent e))) \<and>
     bytesOf buf (tfOffset f) (tfOffset f + int (length (teContent e))) = teContent e"

lemma fileOf_block:
  assumes "validEntry e"
  shows "fileOf (pre @ tarBlock e @ t) e
    \<lparr>tfOffset = int (length pre) + 512, tfMode = Some (int (teMode e)), tfSize = Some (int (length (teContent e)))\<rparr>"
  using bytesOf_at [of pre "tarBlock e @ t" 512 "length (teContent e)"] length_tarHeader [OF assms]
  by (simp add: fileOf_def tarBlock_def)

lemma archiveFiles_spec:
  "list_all validEntry es \<Longrightarrow> buf = pre @ tarArchive es \<Longrightarrow>
     set (keys (archiveFiles (length pre) es files)) = entryKey ` set es \<union> set (keys files) \<and>
     (\<forall>k \<in> entryKey ` set es. \<exists>f. map_of (archiveFiles (length pre) es files) k = Some f \<and>
        fileOf buf (last (filter (\<lambda>e. entryKey e = k) es)) f) \<and>
     (\<forall>k. k \<notin> entryKey ` set es \<longrightarrow> map_of (archiveFiles (length pre) es files) k = map_of files k)"
proof (induction es arbitrary: pre files)
  case (Cons e es)
  let ?fs = "addFile (length pre) e files" and ?all = "archiveFiles (length pre) (e # es) files"
  have e: "validEntry e" and es: "list_all validEntry es" using Cons.prems(1) by simp_all
  have b: "buf = (pre @ tarBlock e) @ tarArchive es" using Cons.prems(2) by (simp add: tarArchive_def)
  have all: "?all = archiveFiles (length (pre @ tarBlock e)) es ?fs" by simp
  note IH = Cons.IH [OF es b, of ?fs, folded all]
  have k: "set (keys ?fs) = insert (entryKey e) (set (keys files))"
    by (auto simp: addFile_def in_keys_iff alist.get_put simp del: set_map split: if_splits)
  have "\<exists>f. map_of ?all k = Some f \<and> fileOf buf (last (filter (\<lambda>e. entryKey e = k) (e # es))) f"
    if "k \<in> entryKey ` set (e # es)" for k
  proof (cases "k \<in> entryKey ` set es")
    case True
    then have "filter (\<lambda>e. entryKey e = k) es \<noteq> []" by (auto simp: filter_empty_conv)
    moreover obtain f where "map_of ?all k = Some f" "fileOf buf (last (filter (\<lambda>e. entryKey e = k) es)) f"
      using IH [THEN conjunct2, THEN conjunct1] True by blast
    ultimately show ?thesis by (auto simp del: archiveFiles.simps)
  next
    case False
    then have n: "filter (\<lambda>e. entryKey e = k) es = []" unfolding filter_empty_conv by blast
    have ek: "entryKey e = k" using that False by auto
    have "map_of ?all k = map_of ?fs k" using IH [THEN conjunct2, THEN conjunct2] False by blast
    moreover have "fileOf buf e \<lparr>tfOffset = int (length pre) + 512, tfMode = Some (int (teMode e)), tfSize = Some (int (length (teContent e)))\<rparr>"
      using fileOf_block [OF e, of pre "tarArchive es"] b by simp
    ultimately show ?thesis using n ek by (auto simp: addFile_def alist.get_put simp del: archiveFiles.simps)
  qed
  moreover have "map_of ?all k = map_of files k" if "k \<notin> entryKey ` set (e # es)" for k
  proof -
    have "map_of ?all k = map_of ?fs k" using IH [THEN conjunct2, THEN conjunct2] that by (simp del: archiveFiles.simps)
    then show ?thesis using that by (simp add: addFile_def alist.get_put del: archiveFiles.simps)
  qed
  moreover have "set (keys ?all) = entryKey ` set (e # es) \<union> set (keys files)"
    unfolding IH [THEN conjunct1] k by auto
  ultimately show ?case by blast
qed simp


section \<open>Returning\<close>

text \<open>The headers that the loop comes to.\<close>

inductive reachesHeader :: "(byte list \<Rightarrow> str) \<Rightarrow> byte list \<Rightarrow> int \<Rightarrow> tarState \<Rightarrow> bool"
  for utf8 :: "byte list \<Rightarrow> str" and buf :: "byte list" where
  first: "reachesHeader utf8 buf 0 emptyTarState"
| later: "reachesHeader utf8 buf off st \<Longrightarrow> bufAt buf off \<noteq> Some 0 \<Longrightarrow>
    parseHeader utf8 buf off st = Some (Inr (off', st')) \<Longrightarrow> reachesHeader utf8 buf off' st'"

inductive_cases reachesHeaderE: "reachesHeader utf8 buf off st"

lemma blockBytes_positive: "0 \<le> n \<Longrightarrow> n < 2 ^ 31 \<Longrightarrow> 512 \<le> blockBytesOf (Some n)"
  by (simp add: blockBytes_small)

lemma blockBytes_NaN: "blockBytesOf None = 512"
  by (simp add: blockBytesOf_def toInt32_def)

lemma map_sum_Inr: "map_sum f g r = Inr b \<longleftrightarrow> (\<exists>a. r = Inr a \<and> b = g a)"
  by (cases r) auto

lemma parseHeader_next:
  assumes "parseHeader utf8 buf off st = Some (Inr (off', st'))"
  shows "off' = off + blockBytesOf (entrySize utf8 buf off st)"
  using assms by (auto simp: parseHeader_def Let_def case_prod_unfold map_sum_Inr split: if_splits)

text \<open>A header behind the end of the buffer has no checksum.\<close>

lemma addByte_None: "fold (addByte buf) is None = None"
  by (induction "is") (simp_all add: addByte_def)

lemma checkSum_outside: "int (length buf) \<le> off \<Longrightarrow> checkSum buf off = None"
proof -
  assume "int (length buf) \<le> off"
  then have "addByte buf off (Some 256) = None" by (simp add: addByte_def bufAt_def)
  moreover have "[off .. off + 147] = off # [off + 1 .. off + 147]" by (rule upto_rec1) simp
  ultimately show ?thesis by (simp add: checkSum_def addByte_None)
qed

lemma parseHeader_outside:
  assumes "int (length buf) \<le> off"
  shows "\<exists>e. parseHeader utf8 buf off st = Some (Inl e)"
  using checkSum_outside [OF assms] by (auto simp: parseHeader_def Let_def)

text \<open>The size fields are small when no header the loop comes to announces 2 GiB or more.\<close>

definition smallSizes :: "(byte list \<Rightarrow> str) \<Rightarrow> byte list \<Rightarrow> bool" where
  "smallSizes utf8 buf \<longleftrightarrow> (\<forall>off st n. reachesHeader utf8 buf off st \<longrightarrow> bufAt buf off \<noteq> Some 0 \<longrightarrow>
     entrySize utf8 buf off st = Some n \<longrightarrow> 0 \<le> n \<and> n < 2 ^ 31)"

definition finitePax :: "(byte list \<Rightarrow> str) \<Rightarrow> byte list \<Rightarrow> bool" where
  "finitePax utf8 buf \<longleftrightarrow> (\<forall>off st. reachesHeader utf8 buf off st \<longrightarrow> bufAt buf off \<noteq> Some 0 \<longrightarrow>
     parseHeader utf8 buf off st \<noteq> None)"


section \<open>An archive that is never read to its end\<close>

text \<open>A size of 2 to the 32nd less 512 is a negative number for the bit operations: the round that reads such a
  header goes back by the block of the header, to the header itself. The archive is the header of an entry without
  content, with another size.\<close>

definition hugeSize :: nat where
  "hugeSize = 4294966784"

lemma blockBytes_huge: "blockBytesOf (Some (int hugeSize)) = 0"
  by (simp add: blockBytesOf_def toInt32_def hugeSize_def)

text \<open>Any buffer in which a header announces that size and is right otherwise is never read to its end.\<close>

lemma parseHeaders_stuck:
  assumes nz: "bufAt buf off \<noteq> Some 0"
    and h: "\<And>files. \<exists>files'. parseHeader utf8 buf off (emptyTarState\<lparr>tsFiles := files\<rparr>) =
      Some (Inr (off, emptyTarState\<lparr>tsFiles := files'\<rparr>))"
  shows "parseHeaders utf8 buf off (emptyTarState\<lparr>tsFiles := files\<rparr>) = None"
proof (rule ccontr)
  assume "parseHeaders utf8 buf off (emptyTarState\<lparr>tsFiles := files\<rparr>) \<noteq> None"
  then obtain r where r: "parseHeaders utf8 buf off (emptyTarState\<lparr>tsFiles := files\<rparr>) = Some r" by blast
  have "\<not> (utf8 = utf8 \<and> buf = buf \<and> off = off \<and> (\<exists>files'. emptyTarState\<lparr>tsFiles := files\<rparr> = emptyTarState\<lparr>tsFiles := files'\<rparr>))"
  proof (rule parseHeaders.raw_induct [OF _ r, where P = "\<lambda>u b i st r.
      \<not> (u = utf8 \<and> b = buf \<and> i = off \<and> (\<exists>files'. st = emptyTarState\<lparr>tsFiles := files'\<rparr>))"], goal_cases)
    case (1 ph u b i st r)
    show ?case
    proof (rule notI, elim conjE exE)
      fix fs assume a: "u = utf8" "b = buf" "i = off" "st = emptyTarState\<lparr>tsFiles := fs\<rparr>"
      obtain fs' where "parseHeader utf8 buf off (emptyTarState\<lparr>tsFiles := fs\<rparr>) = Some (Inr (off, emptyTarState\<lparr>tsFiles := fs'\<rparr>))"
        using h by blast
      then have "ph utf8 buf off (emptyTarState\<lparr>tsFiles := fs'\<rparr>) = Some r" using 1(2) nz unfolding a by simp
      from 1(1) [OF this] show False by blast
    qed
  qed
  then show False by blast
qed

lemma tarHeader_not_end: "validEntry e \<Longrightarrow> bufAt (pre @ tarHeader e n @ t) (int (length pre)) \<noteq> Some 0"
  using bufAt_at [of 0 "tarHeader e n @ t" pre]
  by (cases "teName e") (auto simp: tarHeader_def headerFront_def validEntry_def)

lemma parseTarball_hangs:
  assumes "asciiDecoder utf8" "validEntry e"
  shows "parseTarball utf8 (tarHeader e hugeSize @ t) = None"
proof -
  have "hugeSize < 8 ^ 11" by (simp add: hugeSize_def)
  note h = parseHeader_header [OF assms(2) this assms(1), of "[]" t, unfolded blockBytes_huge, simplified]
  have "parseHeaders utf8 (tarHeader e hugeSize @ t) 0 (emptyTarState\<lparr>tsFiles := []\<rparr>) = None"
    using tarHeader_not_end [OF assms(2), of "[]"] h by (intro parseHeaders_stuck) auto
  then show ?thesis by (simp add: parseTarball_def emptyTarState_def)
qed

section \<open>Examples\<close>

definition plainDecoder :: "byte list \<Rightarrow> str" where
  "plainDecoder bs = map (\<lambda>b. char_of (unat b)) bs"

lemma plainDecoder_ascii: "asciiDecoder plainDecoder"
  by (simp add: asciiDecoder_def plainDecoder_def)

text \<open>The file \<open>p/../a/x\<close> with the content \<open>hi\<close>.\<close>

definition climbingEntry :: tarEntry where
  "climbingEntry = \<lparr>teName = [112, 47, 46, 46, 47, 97, 47, 120], teMode = 420, teContent = [104, 105]\<rparr>"

lemma climbingEntry_valid: "validEntry climbingEntry"
  by (simp add: climbingEntry_def validEntry_def)

lemma climbingEntry_key: "entryKey climbingEntry = ''a/x''"
  by code_simp


lemma parse_climbing:
  "parseTarball plainDecoder (tarArchive [climbingEntry]) = Some (Inr (archiveFiles 0 [climbingEntry] []))"
  using parseHeaders_archive [OF plainDecoder_ascii, of "[climbingEntry]" "[]" "[]"]
  by (simp add: parseTarball_def emptyTarState_def climbingEntry_valid)


lemma climbing_headers:
  assumes "reachesHeader plainDecoder (tarArchive [climbingEntry]) off st"
  shows "bufAt (tarArchive [climbingEntry]) off = Some 0 \<or> off = 0 \<and> st = emptyTarState"
  using assms
proof (induction rule: reachesHeader.induct)
  case (later off st off' st')
  then have "off = 0" "st = emptyTarState" by simp_all
  then have "off' = int (length (tarBlock climbingEntry))"
    using later.hyps(3) parseHeader_at [OF climbingEntry_valid plainDecoder_ascii, of "[]" "zeros 1024" "[]"]
    by (simp add: tarArchive_def emptyTarState_def)
  moreover have "bufAt (tarBlock climbingEntry @ zeros 1024) (int (length (tarBlock climbingEntry))) = Some 0"
    using bufAt_at [of 0 "zeros 1024" "tarBlock climbingEntry"] by (simp add: zeros_def)
  ultimately show ?case by (simp add: tarArchive_def)
qed simp


text \<open>Only the slash separates segments for the check of the names: with backslashes they are kept as they are.\<close>

lemma backslash_name:
  "entryKey \<lparr>teName = [112, 47, 46, 46, 92, 46, 46, 92, 120], teMode = 420, teContent = []\<rparr> = ''..'' @ [CHR 0x5C] @ ''..'' @ [CHR 0x5C] @ ''x''"
  by code_simp

end
