(* ===== verification/ManifestUtils.thy ===== *)
theory ManifestUtils
  imports LockfileUtils Specifiers
begin

text \<open>
  Reading and changing the dependencies of a manifest: pkg-manifest/manifest-utils/src, and its callers in
  pkg-manager/resolve-dependencies/src (getWantedDependencies.ts, updateProjectManifest.ts). The code changes the
  manifest in place; the model returns it. version-selector-type and the parts of semver that are used are parameters;
  the loggers are left out.
\<close>

section \<open>Reading\<close>

definition getAllDependenciesFromManifest :: "manifest \<Rightarrow> deps" where
  "getAllDependenciesFromManifest m =
     spread (spread (orEmpty (mDevDependencies m)) (orEmpty (mDependencies m))) (orEmpty (mOptionalDependencies m))"

definition filterDependenciesByType :: "manifest \<Rightarrow> includeDeps \<Rightarrow> deps" where
  "filterDependenciesByType m include =
     spread (spread (if incDevDependencies include then orEmpty (mDevDependencies m) else [])
       (if incDependencies include then orEmpty (mDependencies m) else []))
       (if incOptionalDependencies include then orEmpty (mOptionalDependencies m) else [])"

definition getSpecFromPackageManifest :: "manifest \<Rightarrow> str \<Rightarrow> str" where
  "getSpecFromPackageManifest m depName =
     (case orElse (map_of (orEmpty (mOptionalDependencies m)) depName)
        (orElse (map_of (orEmpty (mDependencies m)) depName)
        (orElse (map_of (orEmpty (mDevDependencies m)) depName)
          (map_of (orEmpty (mPeerDependencies m)) depName))) of
        Some spec \<Rightarrow> spec | None \<Rightarrow> [])"

text \<open>The fields of dependencies, with that of peers after the others.\<close>

datatype depOrPeerField = DepField depField | PeerDependencies

definition DEPENDENCIES_OR_PEER_FIELDS :: "depOrPeerField list" where
  "DEPENDENCIES_OR_PEER_FIELDS = map DepField DEPENDENCIES_FIELDS @ [PeerDependencies]"

fun manifestFieldOrPeer :: "depOrPeerField \<Rightarrow> manifest \<Rightarrow> deps option" where
  "manifestFieldOrPeer (DepField f) m = manifestField f m"
| "manifestFieldOrPeer PeerDependencies m = mPeerDependencies m"

definition getDependencyTypeFromManifest :: "manifest \<Rightarrow> str \<Rightarrow> depOrPeerField option" where
  "getDependencyTypeFromManifest m depName =
     (if truthy (map_of (orEmpty (mOptionalDependencies m)) depName) then Some (DepField OptionalDependencies)
      else if truthy (map_of (orEmpty (mDependencies m)) depName) then Some (DepField Dependencies)
      else if truthy (map_of (orEmpty (mDevDependencies m)) depName) then Some (DepField DevDependencies)
      else if truthy (map_of (orEmpty (mPeerDependencies m)) depName) then Some PeerDependencies
      else None)"

text \<open>The specifiers that all manifests agree on; a name that two of them give different specifiers is ignored from
  then on, as is one with a protocol.\<close>

definition addUniqueSpec :: "str \<times> str \<Rightarrow> deps \<times> str list \<Rightarrow> deps \<times> str list" where
  "addUniqueSpec entry acc =
     (case (entry, acc) of ((name, spec), (allSpecs, ignored)) \<Rightarrow>
        if name \<in> set ignored then acc
        else if (map_of allSpecs name \<noteq> None \<and> map_of allSpecs name \<noteq> Some spec) \<or> CHR '':'' \<in> set spec
        then (jdel name allSpecs, sadd name ignored)
        else (jset name spec allSpecs, ignored))"

definition getAllUniqueSpecs :: "manifest list \<Rightarrow> deps" where
  "getAllUniqueSpecs manifests =
     fst (fold (\<lambda>m. fold addUniqueSpec (getAllDependenciesFromManifest m)) manifests ([], []))"

section \<open>Specifiers of versions\<close>

definition getPrefix :: "str \<Rightarrow> str \<Rightarrow> str" where
  "getPrefix alias name = (if alias \<noteq> name then ''npm:'' @ name @ ''@'' else [])"

fun createVersionSpec :: "str option \<Rightarrow> pinnedVersion option \<Rightarrow> bool \<Rightarrow> str" where
  "createVersionSpec version (Some PinMinor) rolling =
     (if rolling then ''~'' else if \<not> truthy version then ''*'' else ''~'' @ the version)"
| "createVersionSpec version (Some PinPatch) rolling =
     (if rolling then ''*'' else if \<not> truthy version then ''*'' else the version)"
| "createVersionSpec version pinned rolling =
     (if rolling then ''^'' else if \<not> truthy version then ''*'' else ''^'' @ the version)"

definition getPref :: "str \<Rightarrow> str \<Rightarrow> str option \<Rightarrow> pinnedVersion option \<Rightarrow> str" where
  "getPref alias name version pinned = getPrefix alias name @ createVersionSpec version pinned False"

section \<open>Changing a manifest\<close>

fun setManifestField :: "depField \<Rightarrow> deps option \<Rightarrow> manifest \<Rightarrow> manifest" where
  "setManifestField OptionalDependencies ds m = m\<lparr>mOptionalDependencies := ds\<rparr>"
| "setManifestField Dependencies ds m = m\<lparr>mDependencies := ds\<rparr>"
| "setManifestField DevDependencies ds m = m\<lparr>mDevDependencies := ds\<rparr>"

record packageSpecObject =
  psAlias :: str
  psNodeExecPath :: "str option"
  psPeer :: "bool option"
  psPref :: "str option"
  psSaveType :: "depField option"

definition guessDependencyType :: "str \<Rightarrow> manifest \<Rightarrow> depOrPeerField option" where
  "guessDependencyType alias m =
     List.find (\<lambda>f. map_of (orEmpty (manifestFieldOrPeer f m)) alias \<noteq> None) DEPENDENCIES_OR_PEER_FIELDS"

definition findSpec :: "str \<Rightarrow> manifest \<Rightarrow> str option" where
  "findSpec alias m =
     (case guessDependencyType alias m of None \<Rightarrow> None
      | Some f \<Rightarrow> map_of (orEmpty (manifestFieldOrPeer f m)) alias)"

definition addSpec :: "depField \<Rightarrow> str \<Rightarrow> str \<Rightarrow> manifest \<Rightarrow> manifest" where
  "addSpec f alias spec m = setManifestField f (Some (jset alias spec (orEmpty (manifestField f m)))) m"

definition removeSpec :: "depField \<Rightarrow> str \<Rightarrow> manifest \<Rightarrow> manifest" where
  "removeSpec f alias m = setManifestField f (map_option (jdel alias) (manifestField f m)) m"

definition saveSpec :: "depField \<Rightarrow> packageSpecObject \<Rightarrow> manifest \<Rightarrow> manifest" where
  "saveSpec saveType s m =
     (let spec = orElse (psPref s) (findSpec (psAlias s) m) in
      if truthy spec then
        let m1 = fold (\<lambda>f. if f \<noteq> saveType then removeSpec f (psAlias s) else (\<lambda>m. m)) DEPENDENCIES_FIELDS
                   (addSpec saveType (psAlias s) (the spec) m)
        in if psPeer s = Some True
           then m1\<lparr>mPeerDependencies := Some (jset (psAlias s) (the spec) (orEmpty (mPeerDependencies m1)))\<rparr> else m1
      else m)"

definition updateSpecInPlace :: "packageSpecObject \<Rightarrow> manifest \<Rightarrow> manifest" where
  "updateSpecInPlace s m =
     (if truthy (psPref s) then
        (case guessDependencyType (psAlias s) m of
          Some PeerDependencies \<Rightarrow> m
        | Some (DepField f) \<Rightarrow> addSpec f (psAlias s) (the (psPref s)) m
        | None \<Rightarrow> addSpec Dependencies (psAlias s) (the (psPref s)) m)
      else m)"

definition updateOneSpec :: "packageSpecObject \<Rightarrow> manifest \<Rightarrow> manifest" where
  "updateOneSpec s m =
     (let m1 = (case psSaveType s of Some saveType \<Rightarrow> saveSpec saveType s m | None \<Rightarrow> updateSpecInPlace s m) in
      if truthy (psNodeExecPath s)
      then m1\<lparr>mDependenciesMeta := Some (jset (psAlias s)
             \<lparr>injected = None, metaNode = psNodeExecPath s, metaPatch = None\<rparr> (orEmpty (mDependenciesMeta m1)))\<rparr>
      else m1)"

definition updateProjectManifestObject :: "manifest \<Rightarrow> packageSpecObject list \<Rightarrow> manifest" where
  "updateProjectManifestObject m packageSpecs = fold updateOneSpec packageSpecs m"

section \<open>The dependencies that a manifest asks for\<close>

record wantedManifestDependency =
  wmAlias :: str
  wmPref :: str
  wmDev :: bool
  wmOptional :: bool
  wmInjected :: "bool option"
  wmRaw :: str
  wmPinnedVersion :: "pinnedVersion option"
  wmNodeExecPath :: "str option"
  wmUpdateSpec :: bool
  wmIsNew :: bool
  wmPreserveNonSemver :: bool

definition updateWorkspacePref :: "str \<Rightarrow> str" where
  "updateWorkspacePref pref =
     (case workspaceSpecParse pref of None \<Rightarrow> pref
      | Some spec \<Rightarrow> workspaceSpecToString (spec\<lparr>wsVersion := ''*''\<rparr>))"

definition wantedFrom ::
    "(str \<Rightarrow> semverPart list) \<Rightarrow> manifest \<Rightarrow> str option \<Rightarrow> (str \<Rightarrow> str) \<Rightarrow> str \<times> str \<Rightarrow> wantedManifestDependency" where
  "wantedFrom parseRange m nodeExecPath updatePref entry =
     (case entry of (alias, pref) \<Rightarrow>
        let has = (\<lambda>ds. map_of (orEmpty ds) alias \<noteq> None);
            isOptional = has (mOptionalDependencies m);
            isDev = \<not> isOptional \<and> \<not> has (mDependencies m) \<and> has (mDevDependencies m);
            meta = map_of (orEmpty (mDependenciesMeta m)) alias
        in \<lparr>wmAlias = alias, wmPref = updatePref pref, wmDev = isDev, wmOptional = isOptional,
            wmInjected = Option.bind meta injected, wmRaw = alias @ ''@'' @ pref,
            wmPinnedVersion = whichVersionIsPinned parseRange pref,
            wmNodeExecPath = orElse nodeExecPath (Option.bind meta metaNode),
            wmUpdateSpec = False, wmIsNew = False, wmPreserveNonSemver = False\<rparr>)"

text \<open>The code hands no \<open>nodeExecPath\<close> on to the inner function.\<close>

definition getWantedDependencies ::
    "(str \<Rightarrow> semverPart list) \<Rightarrow> manifest \<Rightarrow> bool \<Rightarrow> includeDeps option \<Rightarrow> bool \<Rightarrow> wantedManifestDependency list" where
  "getWantedDependencies parseRange m autoInstall includeDirect updateWorkspaceDependencies =
     (let byType = filterDependenciesByType m (case includeDirect of Some i \<Rightarrow> i
            | None \<Rightarrow> \<lparr>incDependencies = True, incDevDependencies = True, incOptionalDependencies = True\<rparr>);
          depsToInstall = (if autoInstall then spread (orEmpty (mPeerDependencies m)) byType else byType)
      in map (wantedFrom parseRange m None (if updateWorkspaceDependencies then updateWorkspacePref else (\<lambda>p. p)))
           depsToInstall)"

section \<open>updateProjectManifest\<close>

text \<open>\<open>meSelectorType\<close> gives the type of \<open>versionSelectorType\<close> (true for a version or a range); \<open>mePrerelease\<close> tells
  whether \<open>semver.parse\<close> finds a prerelease.\<close>

record manifestEnv =
  meSelectorType :: "str \<Rightarrow> bool option"
  mePrerelease :: "str \<Rightarrow> bool"

definition isGitHostedPkgUrl :: "str \<Rightarrow> bool" where
  "isGitHostedPkgUrl url \<longleftrightarrow>
     (startsWith url ''https://codeload.github.com/'' \<or> startsWith url ''https://bitbucket.org/'' \<or>
      startsWith url ''https://gitlab.com/'') \<and> contains url ''tar.gz''"

record catalogLookup =
  clCatalogName :: str
  clSpecifier :: str
  clUserSpecifiedPref :: str

record resolvedDirectDependency =
  rdAlias :: str
  rdName :: str
  rdVersion :: str
  rdPkgId :: depPath
  rdResolution :: resolution
  rdDev :: bool
  rdOptional :: bool
  rdLinked :: bool
  rdNormalizedPref :: "str option"
  rdCatalogLookup :: "catalogLookup option"

datatype saveProtocol = Rolling | SaveWorkspace bool

record importerToUpdate =
  iuManifest :: manifest
  iuOriginalManifest :: "manifest option"
  iuWanted :: "wantedManifestDependency list"
  iuPeer :: "bool option"
  iuPinnedVersion :: "pinnedVersion option"
  iuTargetField :: "depField option"
  iuUpdateManifest :: bool

definition getPrefPreferSpecifiedSpec ::
    "manifestEnv \<Rightarrow> str \<Rightarrow> str \<Rightarrow> str \<Rightarrow> str \<Rightarrow> pinnedVersion option \<Rightarrow> bool \<Rightarrow> str" where
  "getPrefPreferSpecifiedSpec env alias name version specRaw pinned rolling =
     (let prefix = getPrefix alias name;
          given = (if startsWith specRaw (alias @ ''@'' @ prefix)
            then (let range = drop (length (alias @ ''@'' @ prefix)) specRaw in
              if range \<noteq> [] \<and> meSelectorType env range = Some True then Some (drop (length alias + 1) specRaw) else None)
            else None)
      in case given of Some pref \<Rightarrow> pref
         | None \<Rightarrow> if mePrerelease env version then prefix @ version
                   else prefix @ createVersionSpec (Some version) pinned rolling)"

definition getPrefPreferSpecifiedExoticSpec ::
    "manifestEnv \<Rightarrow> str \<Rightarrow> str \<Rightarrow> str \<Rightarrow> str \<Rightarrow> pinnedVersion option \<Rightarrow> bool \<Rightarrow> bool \<Rightarrow> str" where
  "getPrefPreferSpecifiedExoticSpec env alias name version specRaw pinned rolling preserveNonSemver =
     (let prefix = getPrefix alias name;
          given = (if startsWith specRaw (alias @ ''@'' @ prefix)
            then (let spec0 = drop (length (alias @ ''@'' @ prefix)) specRaw;
                      specWithoutName = (if startsWith spec0 ''workspace:'' then drop 10 spec0 else spec0)
                  in if startsWith spec0 ''workspace:'' \<and> specWithoutName \<in> {''*'', ''^'', ''~''} then Some specWithoutName
                     else if meSelectorType env specWithoutName \<noteq> Some True \<and> preserveNonSemver
                     then Some (drop (length alias + 1) specRaw) else None)
            else None)
      in case given of Some pref \<Rightarrow> pref
         | None \<Rightarrow> if mePrerelease env version then prefix @ version
                   else prefix @ createVersionSpec (Some version) pinned rolling)"

definition computedPref ::
    "manifestEnv \<Rightarrow> bool \<Rightarrow> saveProtocol \<Rightarrow> wantedManifestDependency \<Rightarrow> pinnedVersion \<Rightarrow> resolvedDirectDependency \<Rightarrow> str" where
  "computedPref env preserveWorkspaceProtocol save wanted pinned rdd =
     (let shouldUseWorkspaceProtocol = (resolutionType (rdResolution rdd) = Some ''directory'' \<and>
            (save \<noteq> SaveWorkspace False \<or> (preserveWorkspaceProtocol \<and> contains (wmRaw wanted) ''@workspace:'')) \<and>
            pinned \<noteq> PinNone);
          rolling = (shouldUseWorkspaceProtocol \<and> save = Rolling);
          pref = (if wmIsNew wanted
            then getPrefPreferSpecifiedSpec env (rdAlias rdd) (rdName rdd) (rdVersion rdd) (wmRaw wanted) (Some pinned) rolling
            else getPrefPreferSpecifiedExoticSpec env (rdAlias rdd) (rdName rdd) (rdVersion rdd) (wmRaw wanted) (Some pinned)
              rolling (wmPreserveNonSemver wanted))
      in if shouldUseWorkspaceProtocol \<and> \<not> startsWith pref ''workspace:''
         then ''workspace:'' @ (if startsWith pref ''npm:'' then drop 4 pref else pref)
         else pref)"

definition resolvedDirectDepToSpecObject ::
    "manifestEnv \<Rightarrow> bool \<Rightarrow> saveProtocol \<Rightarrow> importerToUpdate \<Rightarrow> resolvedDirectDependency \<Rightarrow> wantedManifestDependency \<Rightarrow>
     packageSpecObject" where
  "resolvedDirectDepToSpecObject env preserveWorkspaceProtocol save importer rdd wanted =
     (let pinned = (case orElse (wmPinnedVersion wanted) (iuPinnedVersion importer) of Some p \<Rightarrow> p | None \<Rightarrow> PinMajor);
          normalizedPref = orElse (rdNormalizedPref rdd)
            (if isGitHostedPkgUrl (case tarballOf (rdResolution rdd) of Some t \<Rightarrow> t | None \<Rightarrow> []) then Some (wmPref wanted) else None)
      in \<lparr>psAlias = rdAlias rdd, psNodeExecPath = wmNodeExecPath wanted, psPeer = iuPeer importer,
          psPref = Some (case rdCatalogLookup rdd of
              Some c \<Rightarrow> clUserSpecifiedPref c
            | None \<Rightarrow> if truthy normalizedPref then the normalizedPref
                      else computedPref env preserveWorkspaceProtocol save wanted pinned rdd),
          psSaveType = iuTargetField importer\<rparr>)"

text \<open>The direct dependencies are filtered by the wanted dependency at their index, and the remaining ones take the
  wanted dependencies from the front again.\<close>

definition specsOfDirect ::
    "manifestEnv \<Rightarrow> bool \<Rightarrow> saveProtocol \<Rightarrow> importerToUpdate \<Rightarrow> resolvedDirectDependency list \<Rightarrow> packageSpecObject list" where
  "specsOfDirect env preserveWorkspaceProtocol save importer directDependencies =
     (let chosen = map fst (filter (\<lambda>(_, w). wmUpdateSpec w) (zip directDependencies (iuWanted importer)))
      in map (\<lambda>(rdd, w). resolvedDirectDepToSpecObject env preserveWorkspaceProtocol save importer rdd w)
           (zip chosen (iuWanted importer)))"

definition addMissingSpec :: "importerToUpdate \<Rightarrow> wantedManifestDependency \<Rightarrow> packageSpecObject list \<Rightarrow> packageSpecObject list" where
  "addMissingSpec importer w specs =
     (if wmUpdateSpec w \<and> wmAlias w \<noteq> [] \<and> \<not> list_ex (\<lambda>s. psAlias s = wmAlias w) specs
      then specs @ [\<lparr>psAlias = wmAlias w, psNodeExecPath = wmNodeExecPath w, psPeer = iuPeer importer, psPref = None,
             psSaveType = iuTargetField importer\<rparr>]
      else specs)"

definition specsToUpsert ::
    "manifestEnv \<Rightarrow> bool \<Rightarrow> saveProtocol \<Rightarrow> importerToUpdate \<Rightarrow> resolvedDirectDependency list \<Rightarrow> packageSpecObject list" where
  "specsToUpsert env preserveWorkspaceProtocol save importer directDependencies =
     fold (addMissingSpec importer) (iuWanted importer)
       (specsOfDirect env preserveWorkspaceProtocol save importer directDependencies)"

definition updateProjectManifest ::
    "manifestEnv \<Rightarrow> bool \<Rightarrow> saveProtocol \<Rightarrow> importerToUpdate \<Rightarrow> resolvedDirectDependency list \<Rightarrow> manifest \<times> manifest option" where
  "updateProjectManifest env preserveWorkspaceProtocol save importer directDependencies =
     (let specs = specsToUpsert env preserveWorkspaceProtocol save importer directDependencies
      in (updateProjectManifestObject (iuManifest importer) specs,
          map_option (\<lambda>m. updateProjectManifestObject m specs) (iuOriginalManifest importer)))"

section \<open>Properties\<close>

lemma manifestField_set [simp]:
  "manifestField g (setManifestField f ds m) = (if g = f then ds else manifestField g m)"
  by (cases f; cases g) simp_all

lemma manifestField_peer [simp]: "manifestField f (m\<lparr>mPeerDependencies := x\<rparr>) = manifestField f m"
  by (cases f) simp_all

text \<open>A specifier that is saved is in the field it is saved to and in no other one.\<close>

lemma saveSpec_field:
  assumes "truthy (orElse (psPref s) (findSpec (psAlias s) m))"
  shows "map_of (orEmpty (manifestField f (saveSpec saveType s m))) (psAlias s) =
    (if f = saveType then orElse (psPref s) (findSpec (psAlias s) m) else None)"
proof -
  have "map_of (orEmpty (map_option (jdel a) x)) a = None" for a and x :: "deps option"
    by (cases x) (simp_all add: delete_conv')
  then show ?thesis
    using assms by (cases saveType; cases f)
      (auto simp: saveSpec_def addSpec_def removeSpec_def DEPENDENCIES_FIELDS_def Let_def update_conv' truthy_def split: option.splits)
qed

text \<open>The direct dependencies and the wanted ones are paired by their positions. When an optional dependency that is
  added could not be resolved, the others move up: here \<open>good\<close> takes the specifier of \<open>bad\<close>, so that its range is not the
  one that was asked for, and \<open>old\<close>, which is not to be updated, is saved as an optional dependency.\<close>

lemma unresolved_optional_shifts_specs:
  defines "w \<equiv> \<lambda>alias raw update. \<lparr>wmAlias = alias, wmPref = ''~1.0.0'', wmDev = False, wmOptional = True, wmInjected = None,
      wmRaw = raw, wmPinnedVersion = None, wmNodeExecPath = None, wmUpdateSpec = update, wmIsNew = update, wmPreserveNonSemver = False\<rparr>"
    and "d \<equiv> \<lambda>alias. \<lparr>rdAlias = alias, rdName = alias, rdVersion = ''1.0.0'', rdPkgId = alias @ ''@1.0.0'',
      rdResolution = IntegrityResolution ''i'', rdDev = False, rdOptional = True, rdLinked = False, rdNormalizedPref = None,
      rdCatalogLookup = None\<rparr>"
  assumes "importer = \<lparr>iuManifest = emptyManifest\<lparr>mDependencies := Some [(''old'', ''1.0.0'')]\<rparr>, iuOriginalManifest = None,
      iuWanted = [w ''bad'' ''bad@~1.0.0'' True, w ''good'' ''good@~1.0.0'' True, w ''old'' ''old@1.0.0'' False],
      iuPeer = None, iuPinnedVersion = None, iuTargetField = Some OptionalDependencies, iuUpdateManifest = True\<rparr>"
    and "env = \<lparr>meSelectorType = (\<lambda>_. Some True), mePrerelease = (\<lambda>_. False)\<rparr>"
  shows "fst (updateProjectManifest env True (SaveWorkspace False) importer [d ''good'', d ''old'']) =
    emptyManifest\<lparr>mDependencies := Some [], mOptionalDependencies := Some [(''good'', ''^1.0.0''), (''old'', ''^1.0.0'')]\<rparr>"
  unfolding assms w_def d_def
  by (simp add: updateProjectManifest_def specsToUpsert_def specsOfDirect_def addMissingSpec_def resolvedDirectDepToSpecObject_def
      computedPref_def getPrefPreferSpecifiedSpec_def getPrefPreferSpecifiedExoticSpec_def getPrefix_def startsWith_def
      isGitHostedPkgUrl_def updateProjectManifestObject_def updateOneSpec_def saveSpec_def findSpec_def guessDependencyType_def
      addSpec_def removeSpec_def DEPENDENCIES_FIELDS_def DEPENDENCIES_OR_PEER_FIELDS_def emptyManifest_def Let_def)

end
