(* ===== verification/ImporterSnapshot.thy ===== *)
theory ImporterSnapshot
  imports ManifestUtils UpdateLockfile
begin

text \<open>
  pkg-manager/resolve-dependencies/src (index.ts, getCatalogSnapshots.ts): what the resolution of a project writes into
  the project's part of the lockfile, and lockfile/verification/src/satisfiesPackageManifest.ts and
  allCatalogsAreUpToDate.ts, which compare that part with the manifest later. The two are proved to agree. \<open>equals\<close> of
  ramda compares objects by their keys and values; \<open>JSON.stringify\<close> in the reasons is left out.
\<close>

section \<open>Writing the snapshot of a project\<close>

fun setProjectField :: "depField \<Rightarrow> deps option \<Rightarrow> projectSnapshot \<Rightarrow> projectSnapshot" where
  "setProjectField OptionalDependencies ds p = p\<lparr>optDeps := ds\<rparr>"
| "setProjectField Dependencies ds p = p\<lparr>prodDeps := ds\<rparr>"
| "setProjectField DevDependencies ds p = p\<lparr>devDeps := ds\<rparr>"

definition addRef :: "depField \<Rightarrow> str \<Rightarrow> str \<Rightarrow> projectSnapshot \<Rightarrow> projectSnapshot" where
  "addRef f alias ref p = setProjectField f (Some (jset alias ref (orEmpty (projectField f p)))) p"

definition setSpecifier :: "str \<Rightarrow> str \<Rightarrow> projectSnapshot \<Rightarrow> projectSnapshot" where
  "setSpecifier alias spec p = p\<lparr>specifiers := jset alias spec (specifiers p)\<rparr>"

definition getAliasToDependencyTypeMap :: "manifest \<Rightarrow> depField obj" where
  "getAliasToDependencyTypeMap m =
     fold (\<lambda>f. fold (\<lambda>alias types. if map_of types alias = None then jset alias f types else types)
       (keys (orEmpty (manifestField f m)))) DEPENDENCIES_FIELDS []"

text \<open>The three blocks of a new snapshot are there, so the writes of the code do not fail.\<close>

definition alignEntry :: "depField obj \<Rightarrow> depField \<Rightarrow> str \<times> str \<Rightarrow> projectSnapshot \<Rightarrow> projectSnapshot" where
  "alignEntry types depType entry p =
     (case entry of (alias, ref) \<Rightarrow>
        case map_of types alias of
          None \<Rightarrow> p
        | Some f \<Rightarrow> if f = depType then p
            else let p1 = addRef f alias ref p
                 in setProjectField depType (map_option (jdel alias) (projectField depType p1)) p1)"

definition alignField :: "depField obj \<Rightarrow> depField \<Rightarrow> projectSnapshot \<Rightarrow> projectSnapshot" where
  "alignField types depType p = fold (alignEntry types depType) (orEmpty (projectField depType p)) p"

definition alignDependencyTypes :: "manifest \<Rightarrow> projectSnapshot \<Rightarrow> projectSnapshot" where
  "alignDependencyTypes m p = fold (alignField (getAliasToDependencyTypeMap m)) DEPENDENCIES_FIELDS p"

definition keepOldDependency :: "projectSnapshot \<Rightarrow> str \<Rightarrow> projectSnapshot \<Rightarrow> projectSnapshot" where
  "keepOldDependency old alias p =
     (case map_of (specifiers old) alias of
        None \<Rightarrow> p
      | Some spec \<Rightarrow> if spec = [] then p
          else let p1 = setSpecifier alias spec p;
                   refIn = (\<lambda>f. map_of (orEmpty (projectField f old)) alias)
               in if truthy (refIn Dependencies) then addRef Dependencies alias (the (refIn Dependencies)) p1
                  else if truthy (refIn OptionalDependencies) then addRef OptionalDependencies alias (the (refIn OptionalDependencies)) p1
                  else if truthy (refIn DevDependencies) then addRef DevDependencies alias (the (refIn DevDependencies)) p1
                  else p1)"

definition fieldOfDirect :: "resolvedDirectDependency \<Rightarrow> depField" where
  "fieldOfDirect dep = (if rdDev dep then DevDependencies else if rdOptional dep then OptionalDependencies else Dependencies)"

definition isRecorded :: "manifest \<Rightarrow> bool \<Rightarrow> resolvedDirectDependency \<Rightarrow> bool" where
  "isRecorded m excludeLinks dep \<longleftrightarrow>
     \<not> excludeLinks \<or> \<not> rdLinked dep \<or> startsWith (getSpecFromPackageManifest m (rdAlias dep)) ''workspace:''"

definition addDirectDependency ::
    "manifest \<Rightarrow> bool \<Rightarrow> resolvedDirectDependency obj \<Rightarrow> projectSnapshot \<Rightarrow> str \<Rightarrow> projectSnapshot \<Rightarrow> projectSnapshot" where
  "addDirectDependency m excludeLinks directByAlias old alias p =
     (case map_of directByAlias alias of
        None \<Rightarrow> keepOldDependency old alias p
      | Some dep \<Rightarrow>
          if isRecorded m excludeLinks dep
          then setSpecifier (rdAlias dep) (getSpecFromPackageManifest m (rdAlias dep))
            (addRef (fieldOfDirect dep) (rdAlias dep) (depPathToRef (rdPkgId dep) (rdAlias dep) (rdName dep)) p)
          else keepOldDependency old alias p)"

definition newSnapshot :: "manifest \<Rightarrow> projectSnapshot" where
  "newSnapshot m = emptyProject\<lparr>prodDeps := Some [], devDeps := Some [], optDeps := Some [],
     publishDirectory := (if truthy (mPublishDirectory m) then mPublishDirectory m else None)\<rparr>"

definition addDirectDependenciesToLockfile ::
    "manifest \<Rightarrow> projectSnapshot \<Rightarrow> str list \<Rightarrow> resolvedDirectDependency list \<Rightarrow> bool \<Rightarrow> projectSnapshot" where
  "addDirectDependenciesToLockfile m old linkedAliases directDependencies excludeLinks =
     (let p0 = fold (\<lambda>alias. setSpecifier alias (getSpecFromPackageManifest m alias)) linkedAliases (newSnapshot m);
          directByAlias = fold (\<lambda>d. jset (rdAlias d) d) directDependencies []
      in alignDependencyTypes m
           (fold (addDirectDependency m excludeLinks directByAlias old)
             (uniq (keys (getAllDependenciesFromManifest m))) p0))"

section \<open>One project\<close>

text \<open>With \<open>autoInstallPeers\<close>, the peers that are no dependencies are added to the manifest.\<close>

definition addPeers :: "manifest \<Rightarrow> manifest" where
  "addPeers m =
     (let allDeps = getAllDependenciesFromManifest m in
      fold (\<lambda>(peerName, peerRange) m. if truthy (map_of allDeps peerName) then m
          else m\<lparr>mDependencies := Some (jset peerName peerRange (orEmpty (mDependencies m)))\<rparr>)
        (orEmpty (mPeerDependencies m)) m)"

text \<open>The references of the dependencies whose peers are resolved.\<close>

definition setResolvedRef ::
    "dependenciesGraph \<Rightarrow> dependencyMeta obj option \<Rightarrow> str \<times> depPath \<Rightarrow> projectSnapshot \<Rightarrow> js_error + projectSnapshot" where
  "setResolvedRef graph meta dep p =
     (case dep of (alias, depPath) \<Rightarrow>
        let p1 = (if meta \<noteq> None then p\<lparr>dependenciesMeta := meta\<rparr> else p) in
        case map_of graph depPath of
          None \<Rightarrow> Inl (TypeError ''depNode.name'')
        | Some depNode \<Rightarrow>
            let ref = depPathToRef depPath alias (rpName depNode);
                hasRef = (\<lambda>f. truthy (map_of (orEmpty (projectField f p1)) alias))
            in Inr (if hasRef Dependencies then addRef Dependencies alias ref p1
                    else if hasRef DevDependencies then addRef DevDependencies alias ref p1
                    else if hasRef OptionalDependencies then addRef OptionalDependencies alias ref p1
                    else p1))"

record importerOptions =
  ioAutoInstallPeers :: bool
  ioExcludeLinksFromLockfile :: bool

definition recordProject ::
    "dependenciesGraph \<Rightarrow> importerOptions \<Rightarrow> manifest \<Rightarrow> projectSnapshot \<Rightarrow> str list \<Rightarrow> resolvedDirectDependency list \<Rightarrow>
     depPath obj \<Rightarrow> js_error + manifest \<times> projectSnapshot" where
  "recordProject graph opts updatedManifest old linkedAliases directDependencies depPathsByAlias =
     (let m = (if ioAutoInstallPeers opts then addPeers updatedManifest else updatedManifest);
          p = addDirectDependenciesToLockfile m old linkedAliases directDependencies (ioExcludeLinksFromLockfile opts)
      in sbind (sfold (setResolvedRef graph (mDependenciesMeta m)) depPathsByAlias p) (\<lambda>p'. Inr (m, p')))"

text \<open>Dependencies of other projects that the root has at the same path are left out of what is linked.\<close>

definition dedupeDirectDeps :: "depPath obj obj \<Rightarrow> depPath obj obj" where
  "dedupeDirectDeps dependenciesByProjectId =
     (case map_of dependenciesByProjectId ''.'' of
        None \<Rightarrow> dependenciesByProjectId
      | Some rootDeps \<Rightarrow> map (\<lambda>(id', deps). (id', if id' = ''.'' then deps
          else filter (\<lambda>(alias, depPath). map_of rootDeps alias \<noteq> Some depPath) deps)) dependenciesByProjectId)"

definition addCatalogEntry :: "resolvedDirectDependency \<Rightarrow> catalogEntry obj obj \<Rightarrow> catalogEntry obj obj" where
  "addCatalogEntry dep snapshots =
     (case rdCatalogLookup dep of
        None \<Rightarrow> snapshots
      | Some c \<Rightarrow> jset (clCatalogName c) (jset (rdAlias dep) \<lparr>ceSpecifier = clSpecifier c, ceVersion = rdVersion dep\<rparr>
          (orEmpty (map_of snapshots (clCatalogName c)))) snapshots)"

definition getCatalogSnapshots :: "resolvedDirectDependency list \<Rightarrow> catalogEntry obj obj" where
  "getCatalogSnapshots resolvedDirectDeps = fold addCatalogEntry resolvedDirectDeps []"

section \<open>Comparing the snapshot with the manifest\<close>

definition sameObject :: "('k \<times> 'v) list \<Rightarrow> ('k \<times> 'v) list \<Rightarrow> bool" where
  "sameObject a b \<longleftrightarrow> length a = length b \<and> list_all (\<lambda>k. map_of b k = map_of a k) (keys a)"

datatype mismatch =
    NoImporter | SpecifiersDiffer | PublishDirectoryDiffers | DependenciesMetaDiffer
  | FieldDiffers depField | SpecifierDiffers depField str

definition pickNonLinkedDeps :: "deps \<Rightarrow> deps" where
  "pickNonLinkedDeps ds = filter (\<lambda>(_, spec). \<not> startsWith spec ''link:'') ds"

definition countOfNonLinkedDeps :: "deps \<Rightarrow> nat" where
  "countOfNonLinkedDeps lockfileDeps =
     length (filter (\<lambda>ref. \<not> contains ref ''link:'' \<and> \<not> contains ref ''file:'') (vals lockfileDeps))"

fun pkgDepNames :: "manifest \<Rightarrow> depField \<Rightarrow> deps \<Rightarrow> str list" where
  "pkgDepNames m OptionalDependencies ds = keys ds"
| "pkgDepNames m DevDependencies ds =
     filter (\<lambda>d. \<not> truthy (map_of (orEmpty (mOptionalDependencies m)) d) \<and> \<not> truthy (map_of (orEmpty (mDependencies m)) d)) (keys ds)"
| "pkgDepNames m Dependencies ds = filter (\<lambda>d. \<not> truthy (map_of (orEmpty (mOptionalDependencies m)) d)) (keys ds)"

definition fieldMismatch :: "bool \<Rightarrow> projectSnapshot \<Rightarrow> manifest \<Rightarrow> depField \<Rightarrow> mismatch option" where
  "fieldMismatch excludeLinks importer m f =
     (let importerDeps = orEmpty (projectField f importer);
          allPkgDeps = orEmpty (manifestField f m);
          pkgDeps = (if excludeLinks then pickNonLinkedDeps allPkgDeps else allPkgDeps);
          names = pkgDepNames m f pkgDeps
      in if length names \<noteq> length importerDeps \<and> length names \<noteq> countOfNonLinkedDeps importerDeps then Some (FieldDiffers f)
         else case List.find (\<lambda>d. \<not> truthy (map_of importerDeps d) \<or> map_of (specifiers importer) d \<noteq> map_of pkgDeps d) names of
             None \<Rightarrow> None
           | Some d \<Rightarrow> Some (SpecifierDiffers f d))"

definition firstMismatch :: "('a \<Rightarrow> mismatch option) \<Rightarrow> 'a list \<Rightarrow> mismatch option" where
  "firstMismatch f xs = Option.bind (List.find (\<lambda>x. f x \<noteq> None) xs) f"

text \<open>\<open>None\<close> is \<open>satisfies: true\<close>; otherwise the reason is given.\<close>

definition satisfiesPackageManifest :: "importerOptions \<Rightarrow> projectSnapshot option \<Rightarrow> manifest \<Rightarrow> mismatch option" where
  "satisfiesPackageManifest opts importer pkg =
     (case importer of None \<Rightarrow> Some NoImporter
      | Some importer \<Rightarrow>
          let existing0 = getAllDependenciesFromManifest pkg;
              pkg1 = (if ioAutoInstallPeers opts
                then pkg\<lparr>mDependencies := Some (spread
                   (filter (\<lambda>(k, _). k \<notin> set (keys existing0)) (orEmpty (mPeerDependencies pkg))) (orEmpty (mDependencies pkg)))\<rparr>
                else pkg);
              existing1 = (if ioAutoInstallPeers opts then spread (orEmpty (mPeerDependencies pkg)) existing0 else existing0);
              exclude = ioExcludeLinksFromLockfile opts;
              existing2 = (if exclude then pickNonLinkedDeps existing1 else existing1);
              specs = (if exclude then pickNonLinkedDeps (specifiers importer) else specifiers importer)
          in if \<not> sameObject existing2 specs then Some SpecifiersDiffer
             else if publishDirectory importer \<noteq> mPublishDirectory pkg then Some PublishDirectoryDiffers
             else if \<not> sameObject (orEmpty (mDependenciesMeta pkg)) (orEmpty (dependenciesMeta importer)) then Some DependenciesMetaDiffer
             else firstMismatch (fieldMismatch exclude importer pkg1) DEPENDENCIES_FIELDS)"

definition allCatalogsAreUpToDate :: "deps obj \<Rightarrow> catalogEntry obj obj option \<Rightarrow> bool" where
  "allCatalogsAreUpToDate catalogsConfig snapshot \<longleftrightarrow>
     list_all (\<lambda>(catalogName, catalog). list_all (\<lambda>(alias, entry).
       Option.bind (map_of catalogsConfig catalogName) (\<lambda>c. map_of c alias) = Some (ceSpecifier entry)) catalog) (orEmpty snapshot)"

section \<open>Where a snapshot has its references\<close>

lemma projectField_set [simp]:
  "projectField g (setProjectField f ds p) = (if g = f then ds else projectField g p)"
  by (cases f; cases g) simp_all

lemma setProjectField_other [simp]:
  "specifiers (setProjectField f ds p) = specifiers p"
  "publishDirectory (setProjectField f ds p) = publishDirectory p"
  "dependenciesMeta (setProjectField f ds p) = dependenciesMeta p"
  by (cases f; simp)+

lemma setSpecifier_simps [simp]:
  "projectField f (setSpecifier a s p) = projectField f p"
  "specifiers (setSpecifier a s p) = jset a s (specifiers p)"
  "publishDirectory (setSpecifier a s p) = publishDirectory p"
  "dependenciesMeta (setSpecifier a s p) = dependenciesMeta p"
  by (cases f; simp add: setSpecifier_def)+

lemma addRef_simps [simp]:
  "specifiers (addRef f a r p) = specifiers p"
  "publishDirectory (addRef f a r p) = publishDirectory p"
  "dependenciesMeta (addRef f a r p) = dependenciesMeta p"
  by (simp_all add: addRef_def)

definition refAt :: "projectSnapshot \<Rightarrow> depField \<Rightarrow> str \<Rightarrow> str option" where
  "refAt p f a = map_of (orEmpty (projectField f p)) a"

definition wfBlocks :: "projectSnapshot \<Rightarrow> bool" where
  "wfBlocks p \<longleftrightarrow> distinct (keys (specifiers p)) \<and> (\<forall>f. distinct (keys (orEmpty (projectField f p))))"

lemma refAt_addRef [simp]: "refAt (addRef f a r p) g b = (if g = f \<and> b = a then Some r else refAt p g b)"
  by (simp add: refAt_def addRef_def update_conv')

lemma refAt_other [simp]: "refAt (setSpecifier a s p) = refAt p" "refAt (p\<lparr>dependenciesMeta := x\<rparr>) = refAt p"
proof -
  have "projectField f (p\<lparr>dependenciesMeta := x\<rparr>) = projectField f p" for f by (cases f) simp_all
  then show "refAt (p\<lparr>dependenciesMeta := x\<rparr>) = refAt p" by (simp add: refAt_def fun_eq_iff)
qed (simp add: refAt_def fun_eq_iff)

lemma wfBlocks_addRef [intro]: "wfBlocks p \<Longrightarrow> wfBlocks (addRef f a r p)"
  by (simp add: wfBlocks_def addRef_def distinct_update)

lemma wfBlocks_setSpecifier [intro]: "wfBlocks p \<Longrightarrow> wfBlocks (setSpecifier a s p)"
  by (simp add: wfBlocks_def distinct_update)

lemma wfBlocks_meta: "wfBlocks p \<Longrightarrow> wfBlocks (p\<lparr>dependenciesMeta := x\<rparr>)"
proof -
  have "projectField f (p\<lparr>dependenciesMeta := x\<rparr>) = projectField f p" for f by (cases f) simp_all
  then show "wfBlocks p \<Longrightarrow> wfBlocks (p\<lparr>dependenciesMeta := x\<rparr>)" by (simp add: wfBlocks_def)
qed

text \<open>The blocks hold non-empty references, and each alias in the block that \<open>k\<close> says.\<close>

definition filled :: "projectSnapshot \<Rightarrow> (str \<Rightarrow> depField option) \<Rightarrow> bool" where
  "filled p k \<longleftrightarrow> (\<forall>f a. (refAt p f a \<noteq> None \<longleftrightarrow> k a = Some f) \<and> refAt p f a \<noteq> Some [])"

lemma filled_truthy: "filled p k \<Longrightarrow> truthy (refAt p f a) \<longleftrightarrow> k a = Some f"
  unfolding filled_def by (metis option.exhaust truthy_simps)

subsection \<open>Aligning\<close>

lemma orEmpty_map_option: "orEmpty (map_option (jdel a) x) = jdel a (orEmpty x)"
  by (cases x) simp_all

lemma refAt_alignEntry:
  "refAt (alignEntry types d (a, r) p) g b =
     (if b = a \<and> map_of types a \<noteq> None \<and> map_of types a \<noteq> Some d
      then (if map_of types a = Some g then Some r else if g = d then None else refAt p g b) else refAt p g b)"
  by (auto simp: alignEntry_def refAt_def addRef_def Let_def orEmpty_map_option delete_conv' update_conv'
      split: option.splits)

lemma alignEntry_other [simp]:
  "specifiers (alignEntry types d e p) = specifiers p"
  "publishDirectory (alignEntry types d e p) = publishDirectory p"
  "dependenciesMeta (alignEntry types d e p) = dependenciesMeta p"
  by (auto simp: alignEntry_def Let_def split: prod.splits option.splits)

lemma wfBlocks_alignEntry: "wfBlocks p \<Longrightarrow> wfBlocks (alignEntry types d e p)"
  by (auto simp: wfBlocks_def alignEntry_def addRef_def Let_def orEmpty_map_option distinct_update distinct_delete
      split: prod.splits option.splits)

lemma refAt_alignEntries:
  "distinct (keys xs) \<Longrightarrow> refAt (fold (alignEntry types d) xs p) g b =
     (if map_of xs b \<noteq> None \<and> map_of types b \<noteq> None \<and> map_of types b \<noteq> Some d
      then (if map_of types b = Some g then map_of xs b else if g = d then None else refAt p g b) else refAt p g b)"
proof (induction xs arbitrary: p)
  case (Cons x xs)
  obtain a r where x: "x = (a, r)" by (cases x)
  from Cons.prems have "a \<notin> set (keys xs)" "distinct (keys xs)" by (simp_all add: x)
  then have "map_of xs a = None" by (simp add: map_of_eq_None_iff)
  then show ?case
    by (auto simp: x Cons.IH [OF \<open>distinct (keys xs)\<close>] refAt_alignEntry)
qed simp

lemma fold_alignEntry:
  "specifiers (fold (alignEntry types d) xs p) = specifiers p"
  "publishDirectory (fold (alignEntry types d) xs p) = publishDirectory p"
  "dependenciesMeta (fold (alignEntry types d) xs p) = dependenciesMeta p"
  "wfBlocks p \<Longrightarrow> wfBlocks (fold (alignEntry types d) xs p)"
  by (induction xs arbitrary: p) (simp_all add: wfBlocks_alignEntry)

lemma filled_alignField:
  assumes "filled p k" "wfBlocks p"
  shows "filled (alignField types d p)
    (\<lambda>a. if k a = Some d \<and> map_of types a \<noteq> None then map_of types a else k a)"
proof -
  have d: "distinct (keys (orEmpty (projectField d p)))" using assms(2) by (simp add: wfBlocks_def)
  note r = refAt_alignEntries [OF d, of types d p, folded alignField_def refAt_def]
  show ?thesis unfolding filled_def
  proof (intro allI)
    fix f a
    have "refAt p f a \<noteq> None \<longleftrightarrow> k a = Some f" "refAt p f a \<noteq> Some []"
      "refAt p d a \<noteq> None \<longleftrightarrow> k a = Some d" "refAt p d a \<noteq> Some []"
      using assms(1) by (simp_all add: filled_def)
    then show "(refAt (alignField types d p) f a \<noteq> None \<longleftrightarrow>
        (if k a = Some d \<and> map_of types a \<noteq> None then map_of types a else k a) = Some f) \<and>
      refAt (alignField types d p) f a \<noteq> Some []"
      unfolding r [of f a] by auto
  qed
qed

lemma alignDependencyTypes_spec:
  assumes "filled p k" "wfBlocks p"
  shows "filled (alignDependencyTypes m p)
      (\<lambda>a. if k a \<noteq> None \<and> map_of (getAliasToDependencyTypeMap m) a \<noteq> None then map_of (getAliasToDependencyTypeMap m) a else k a)"
    and "wfBlocks (alignDependencyTypes m p)"
    and "specifiers (alignDependencyTypes m p) = specifiers p"
    and "publishDirectory (alignDependencyTypes m p) = publishDirectory p"
    and "dependenciesMeta (alignDependencyTypes m p) = dependenciesMeta p"
proof -
  let ?t = "getAliasToDependencyTypeMap m"
  let ?k = "\<lambda>d k a. if k a = Some d \<and> map_of ?t a \<noteq> None then map_of ?t a else k a"
  have w: "wfBlocks p \<Longrightarrow> wfBlocks (alignField ?t d p)" for d p by (simp add: alignField_def fold_alignEntry)
  let ?p1 = "alignField ?t OptionalDependencies p" and ?p2 = "alignField ?t Dependencies (alignField ?t OptionalDependencies p)"
  have e: "alignDependencyTypes m p = alignField ?t DevDependencies ?p2"
    by (simp add: alignDependencyTypes_def DEPENDENCIES_FIELDS_def)
  have "filled (alignDependencyTypes m p) (?k DevDependencies (?k Dependencies (?k OptionalDependencies k)))"
    unfolding e by (intro filled_alignField w assms)
  moreover have "?k DevDependencies (?k Dependencies (?k OptionalDependencies k)) =
      (\<lambda>a. if k a \<noteq> None \<and> map_of ?t a \<noteq> None then map_of ?t a else k a)"
  proof
    fix a show "?k DevDependencies (?k Dependencies (?k OptionalDependencies k)) a =
      (if k a \<noteq> None \<and> map_of ?t a \<noteq> None then map_of ?t a else k a)"
    proof (cases "k a")
      case (Some f)
      then show ?thesis by (cases f) auto
    qed simp
  qed
  ultimately show "filled (alignDependencyTypes m p)
      (\<lambda>a. if k a \<noteq> None \<and> map_of ?t a \<noteq> None then map_of ?t a else k a)" by simp
  show "wfBlocks (alignDependencyTypes m p)" unfolding e by (intro w assms)
qed (simp_all add: alignDependencyTypes_def DEPENDENCIES_FIELDS_def alignField_def fold_alignEntry)

lemma map_of_types_step:
  "map_of (fold (\<lambda>alias types. if map_of types alias = None then jset alias f types else types) as types) a =
     (if map_of types a = None \<and> a \<in> set as then Some f else map_of types a)"
  by (induction as arbitrary: types) (auto simp: update_conv')

lemma getAliasToDependencyTypeMap_get:
  "map_of (getAliasToDependencyTypeMap m) a =
     (if a \<in> set (keys (orEmpty (mOptionalDependencies m))) then Some OptionalDependencies
      else if a \<in> set (keys (orEmpty (mDependencies m))) then Some Dependencies
      else if a \<in> set (keys (orEmpty (mDevDependencies m))) then Some DevDependencies else None)"
  unfolding getAliasToDependencyTypeMap_def DEPENDENCIES_FIELDS_def
  by (simp add: map_of_types_step del: set_map)

lemma getAliasToDependencyTypeMap_None:
  "map_of (getAliasToDependencyTypeMap m) a = None \<longleftrightarrow> a \<notin> set (keys (getAllDependenciesFromManifest m))"
  unfolding getAliasToDependencyTypeMap_get getAllDependenciesFromManifest_def keys_spread by (simp del: set_map)

subsection \<open>Adding the direct dependencies\<close>

definition directByAlias :: "resolvedDirectDependency list \<Rightarrow> resolvedDirectDependency obj" where
  "directByAlias ds = fold (\<lambda>d. jset (rdAlias d) d) ds []"

text \<open>The block and the reference of an alias that is recorded.\<close>

definition recordedRef :: "manifest \<Rightarrow> bool \<Rightarrow> resolvedDirectDependency list \<Rightarrow> str \<Rightarrow> (depField \<times> str) option" where
  "recordedRef m excludeLinks ds alias =
     (case map_of (directByAlias ds) alias of
        None \<Rightarrow> None
      | Some dep \<Rightarrow> if isRecorded m excludeLinks dep
          then Some (fieldOfDirect dep, depPathToRef (rdPkgId dep) (rdAlias dep) (rdName dep)) else None)"

lemma directByAlias_alias: "map_of (directByAlias ds) a = Some d \<Longrightarrow> rdAlias d = a"
proof -
  have "\<forall>a d. map_of acc a = Some d \<longrightarrow> rdAlias d = a \<Longrightarrow>
    map_of (fold (\<lambda>d. jset (rdAlias d) d) ds acc) a = Some d \<Longrightarrow> rdAlias d = a" for acc
  proof (induction ds arbitrary: acc)
    case (Cons x xs)
    show ?case by (rule Cons.IH [of "jset (rdAlias x) x acc"]) (use Cons.prems in \<open>auto simp: update_conv'\<close>)
  qed simp
  from this [of "[]"] show "map_of (directByAlias ds) a = Some d \<Longrightarrow> rdAlias d = a" by (simp add: directByAlias_def)
qed

lemma addDirectDependency_recorded:
  assumes "recordedRef m e ds a = Some (f, r)"
  shows "addDirectDependency m e (directByAlias ds) old a p =
    setSpecifier a (getSpecFromPackageManifest m a) (addRef f a r p)"
proof -
  obtain d where d: "map_of (directByAlias ds) a = Some d" "isRecorded m e d" "f = fieldOfDirect d"
    "r = depPathToRef (rdPkgId d) (rdAlias d) (rdName d)"
    using assms by (auto simp: recordedRef_def split: option.splits if_splits)
  with directByAlias_alias [OF d(1)] show ?thesis by (simp add: addDirectDependency_def)
qed

lemma addDirectDependency_new:
  assumes "recordedRef m e ds a = None" "\<not> truthy (map_of (specifiers old) a)"
  shows "addDirectDependency m e (directByAlias ds) old a p = p"
  using assms by (auto simp: recordedRef_def addDirectDependency_def keepOldDependency_def split: option.splits if_splits)

lemma addDirectDependencies_spec:
  assumes "\<forall>a \<in> set as. case recordedRef m e ds a of Some (f, r) \<Rightarrow> r \<noteq> [] | None \<Rightarrow> \<not> truthy (map_of (specifiers old) a)"
    and "filled p k" "wfBlocks p" "distinct as" "\<forall>a \<in> set as. k a = None"
  defines "q \<equiv> fold (addDirectDependency m e (directByAlias ds) old) as p"
  shows "filled q (\<lambda>a. if a \<in> set as then map_option fst (recordedRef m e ds a) else k a) \<and> wfBlocks q \<and>
    publishDirectory q = publishDirectory p \<and> dependenciesMeta q = dependenciesMeta p \<and>
    (\<forall>b. map_of (specifiers q) b = (if b \<in> set as \<and> recordedRef m e ds b \<noteq> None
       then Some (getSpecFromPackageManifest m b) else map_of (specifiers p) b))"
  unfolding q_def using assms(1-5)
proof (induction as arbitrary: p k)
  case (Cons a as)
  show ?case
  proof (cases "recordedRef m e ds a")
    case None
    then have "addDirectDependency m e (directByAlias ds) old a p = p"
      using Cons.prems(1) by (intro addDirectDependency_new) auto
    then have s: "fold (addDirectDependency m e (directByAlias ds) old) (a # as) p =
        fold (addDirectDependency m e (directByAlias ds) old) as p" by simp
    have "(\<lambda>b. if b \<in> set as then map_option fst (recordedRef m e ds b) else k b) =
        (\<lambda>b. if b \<in> set (a # as) then map_option fst (recordedRef m e ds b) else k b)"
      using None Cons.prems(5) by auto
    then show ?thesis unfolding s using Cons.IH [of p k] Cons.prems None by auto
  next
    case (Some fr)
    obtain f r where fr: "fr = (f, r)" by (cases fr)
    let ?p = "setSpecifier a (getSpecFromPackageManifest m a) (addRef f a r p)"
    have s: "fold (addDirectDependency m e (directByAlias ds) old) (a # as) p =
        fold (addDirectDependency m e (directByAlias ds) old) as ?p"
      using addDirectDependency_recorded [OF Some [unfolded fr]] by simp
    have r: "r \<noteq> []" and ka: "k a = None" using Cons.prems(1,5) Some fr by auto
    have fl: "filled ?p (k(a := Some f))"
      unfolding filled_def
    proof (intro allI)
      fix g b
      have "refAt p g b \<noteq> None \<longleftrightarrow> k b = Some g" "refAt p g b \<noteq> Some []"
        using Cons.prems(2) by (simp_all add: filled_def)
      then show "(refAt ?p g b \<noteq> None \<longleftrightarrow> (k(a := Some f)) b = Some g) \<and> refAt ?p g b \<noteq> Some []"
        using r ka by auto
    qed
    have "(\<lambda>b. if b \<in> set as then map_option fst (recordedRef m e ds b) else (k(a := Some f)) b) =
        (\<lambda>b. if b \<in> set (a # as) then map_option fst (recordedRef m e ds b) else k b)"
      using Some fr Cons.prems(4) by auto
    moreover have "wfBlocks ?p" using Cons.prems(3) by blast
    moreover have "\<forall>b \<in> set as. (k(a := Some f)) b = None" using Cons.prems(4,5) by auto
    ultimately show ?thesis
      unfolding s using Cons.IH [OF _ fl] Cons.prems(1,4) Some by (auto simp: update_conv')
  qed
qed auto

lemma specifiers_linked:
  "map_of (specifiers (fold (\<lambda>a. setSpecifier a (g a)) as p)) b = (if b \<in> set as then Some (g b) else map_of (specifiers p) b)"
  "refAt (fold (\<lambda>a. setSpecifier a (g a)) as p) = refAt p"
  "publishDirectory (fold (\<lambda>a. setSpecifier a (g a)) as p) = publishDirectory p"
  "dependenciesMeta (fold (\<lambda>a. setSpecifier a (g a)) as p) = dependenciesMeta p"
  "wfBlocks p \<Longrightarrow> wfBlocks (fold (\<lambda>a. setSpecifier a (g a)) as p)"
  by (induction as arbitrary: p) (simp_all add: update_conv' wfBlocks_setSpecifier)

lemma newSnapshot_spec:
  "specifiers (newSnapshot m) = []" "refAt (newSnapshot m) f a = None" "wfBlocks (newSnapshot m)"
  "publishDirectory (newSnapshot m) = (if truthy (mPublishDirectory m) then mPublishDirectory m else None)"
  "dependenciesMeta (newSnapshot m) = None"
proof -
  have "orEmpty (projectField f (newSnapshot m)) = []" for f by (cases f) (simp_all add: newSnapshot_def emptyProject_def)
  then show "refAt (newSnapshot m) f a = None" "wfBlocks (newSnapshot m)"
    by (simp_all add: refAt_def wfBlocks_def) (simp add: newSnapshot_def emptyProject_def)
qed (simp_all add: newSnapshot_def emptyProject_def)

text \<open>An alias can be recorded when it is a direct dependency, or a link that is left out and was not in the old
  lockfile.\<close>

definition recordable ::
    "manifest \<Rightarrow> projectSnapshot \<Rightarrow> bool \<Rightarrow> str list \<Rightarrow> resolvedDirectDependency list \<Rightarrow> str \<Rightarrow> bool" where
  "recordable m old excludeLinks linkedAliases ds a \<longleftrightarrow>
     (case recordedRef m excludeLinks ds a of
        Some (_, ref) \<Rightarrow> ref \<noteq> [] \<and> (excludeLinks \<longrightarrow> \<not> startsWith (getSpecFromPackageManifest m a) ''link:'')
      | None \<Rightarrow> excludeLinks \<and> startsWith (getSpecFromPackageManifest m a) ''link:'' \<and> a \<in> set linkedAliases \<and>
          \<not> truthy (map_of (specifiers old) a))"

definition fieldIn :: "manifest \<Rightarrow> bool \<Rightarrow> str \<Rightarrow> depField option" where
  "fieldIn m excludeLinks a =
     (if excludeLinks \<and> startsWith (getSpecFromPackageManifest m a) ''link:'' then None
      else map_of (getAliasToDependencyTypeMap m) a)"

lemma filled_cong: "filled p k \<Longrightarrow> (\<And>a. k a = k' a) \<Longrightarrow> filled p k'"
  by (simp add: filled_def)

lemma recordable_recordedRef:
  assumes "recordable m old e linked ds a"
  shows "recordedRef m e ds a = None \<longleftrightarrow> e \<and> startsWith (getSpecFromPackageManifest m a) ''link:''"
    and "case recordedRef m e ds a of Some (f, r) \<Rightarrow> r \<noteq> [] | None \<Rightarrow> \<not> truthy (map_of (specifiers old) a)"
    and "recordedRef m e ds a = None \<Longrightarrow> a \<in> set linked"
  using assms unfolding recordable_def by (auto split: option.splits prod.splits)

lemma addDirectDependenciesToLockfile_spec:
  assumes "\<forall>a \<in> set (keys (getAllDependenciesFromManifest m)). recordable m old e linked ds a"
    and "set linked \<subseteq> set (keys (getAllDependenciesFromManifest m))"
  defines "p \<equiv> addDirectDependenciesToLockfile m old linked ds e"
  shows "filled p (fieldIn m e) \<and> wfBlocks p \<and> dependenciesMeta p = None \<and>
    publishDirectory p = (if truthy (mPublishDirectory m) then mPublishDirectory m else None) \<and>
    (\<forall>b. map_of (specifiers p) b = (if b \<in> set (keys (getAllDependenciesFromManifest m))
       then Some (getSpecFromPackageManifest m b) else None))"
proof -
  define all where "all = uniq (keys (getAllDependenciesFromManifest m))"
  have all: "a \<in> set all \<longleftrightarrow> map_of (getAliasToDependencyTypeMap m) a \<noteq> None"
    "a \<in> set all \<Longrightarrow> recordable m old e linked ds a" "set linked \<subseteq> set all"
    "b \<in> set (keys (getAllDependenciesFromManifest m)) \<longleftrightarrow> b \<in> set all" for a b
    using assms(1,2) getAliasToDependencyTypeMap_None [of m a] by (auto simp: all_def simp del: set_map)
  define p0 where "p0 = fold (\<lambda>a. setSpecifier a (getSpecFromPackageManifest m a)) linked (newSnapshot m)"
  define p1 where "p1 = fold (addDirectDependency m e (directByAlias ds) old) all p0"
  have p: "p = alignDependencyTypes m p1"
    by (simp add: p_def p1_def p0_def all_def addDirectDependenciesToLockfile_def directByAlias_def Let_def)
  have f0: "filled p0 (\<lambda>_. None)" "wfBlocks p0" by (simp_all add: p0_def filled_def specifiers_linked newSnapshot_spec)
  have s: "filled p1 (\<lambda>a. if a \<in> set all then map_option fst (recordedRef m e ds a) else None) \<and> wfBlocks p1 \<and>
      publishDirectory p1 = publishDirectory p0 \<and> dependenciesMeta p1 = dependenciesMeta p0 \<and>
      (\<forall>b. map_of (specifiers p1) b = (if b \<in> set all \<and> recordedRef m e ds b \<noteq> None
         then Some (getSpecFromPackageManifest m b) else map_of (specifiers p0) b))"
    unfolding p1_def
    by (rule addDirectDependencies_spec [OF ballI f0 _ ballI], rule recordable_recordedRef(2) [OF all(2)], assumption)
      (simp_all add: all_def)
  note c1 = s [THEN conjunct1] and c2 = s [THEN conjunct2, THEN conjunct1] and c3 = s [THEN conjunct2, THEN conjunct2]
  note al = alignDependencyTypes_spec [OF c1 c2, of m, folded p]
  have "filled p (fieldIn m e)"
  proof (rule filled_cong [OF al(1)])
    fix a
    show "(if (if a \<in> set all then map_option fst (recordedRef m e ds a) else None) \<noteq> None \<and>
        map_of (getAliasToDependencyTypeMap m) a \<noteq> None then map_of (getAliasToDependencyTypeMap m) a
        else (if a \<in> set all then map_option fst (recordedRef m e ds a) else None)) = fieldIn m e a"
      using all(1) [of a] recordable_recordedRef(1) [OF all(2), of a] by (cases "a \<in> set all") (auto simp: fieldIn_def)
  qed
  moreover have "map_of (specifiers p) b = (if b \<in> set all then Some (getSpecFromPackageManifest m b) else None)" for b
  proof -
    have "map_of (specifiers p0) b = (if b \<in> set linked then Some (getSpecFromPackageManifest m b) else None)"
      by (simp add: p0_def specifiers_linked newSnapshot_spec)
    then show ?thesis
      unfolding al(3) using c3 recordable_recordedRef(3) [OF all(2), of b] all(3) by (cases "recordedRef m e ds b") auto
  qed
  moreover have "publishDirectory p0 = (if truthy (mPublishDirectory m) then mPublishDirectory m else None)"
    "dependenciesMeta p0 = None" by (simp_all add: p0_def specifiers_linked newSnapshot_spec)
  ultimately show ?thesis unfolding all(4) al(4,5) using c3 al(2) by simp
qed

subsection \<open>Peers, and the references that are resolved\<close>

lemma first_of_three:
  "(if P a then f a else if P b then f b else if P c then f c else x) = x \<or>
   (\<exists>d. P d \<and> (if P a then f a else if P b then f b else if P c then f c else x) = f d)"
  by auto

lemma setResolvedRef_result:
  assumes "setResolvedRef graph meta (a, d) p = Inr q"
  defines "p1 \<equiv> if meta \<noteq> None then p\<lparr>dependenciesMeta := meta\<rparr> else p"
  shows "\<exists>n. map_of graph d = Some n \<and>
    (q = p1 \<or> (\<exists>f. truthy (refAt p1 f a) \<and> q = addRef f a (depPathToRef d a (rpName n)) p1))"
proof -
  obtain n where n: "map_of graph d = Some n" using assms(1) by (auto simp: setResolvedRef_def Let_def split: option.splits)
  let ?r = "depPathToRef d a (rpName n)"
  have "setResolvedRef graph meta (a, d) p = Inr (if truthy (refAt p1 Dependencies a) then addRef Dependencies a ?r p1
      else if truthy (refAt p1 DevDependencies a) then addRef DevDependencies a ?r p1
      else if truthy (refAt p1 OptionalDependencies a) then addRef OptionalDependencies a ?r p1 else p1)"
    by (simp only: setResolvedRef_def refAt_def Let_def prod.case option.case n p1_def)
  then have "q = (if truthy (refAt p1 Dependencies a) then addRef Dependencies a ?r p1
      else if truthy (refAt p1 DevDependencies a) then addRef DevDependencies a ?r p1
      else if truthy (refAt p1 OptionalDependencies a) then addRef OptionalDependencies a ?r p1 else p1)"
    unfolding assms(1) by (simp only: sum.inject)
  then show ?thesis
    using n first_of_three [of "\<lambda>f. truthy (refAt p1 f a)" Dependencies "\<lambda>f. addRef f a ?r p1" DevDependencies OptionalDependencies p1]
    by (simp only:) blast
qed

lemma setResolvedRef_spec:
  assumes "setResolvedRef graph meta (a, d) p = Inr q" "filled p k" "wfBlocks p"
    and "\<forall>n. map_of graph d = Some n \<longrightarrow> depPathToRef d a (rpName n) \<noteq> []"
  shows "filled q k \<and> wfBlocks q \<and> specifiers q = specifiers p \<and> publishDirectory q = publishDirectory p \<and>
    dependenciesMeta q = (if meta \<noteq> None then meta else dependenciesMeta p)"
proof -
  define p1 where "p1 = (if meta \<noteq> None then p\<lparr>dependenciesMeta := meta\<rparr> else p)"
  have p1: "filled p1 k" "wfBlocks p1" "specifiers p1 = specifiers p" "publishDirectory p1 = publishDirectory p"
    "dependenciesMeta p1 = (if meta \<noteq> None then meta else dependenciesMeta p)"
    using assms(2,3) by (simp_all add: p1_def filled_def wfBlocks_meta)
  obtain n where n: "map_of graph d = Some n"
    and q: "q = p1 \<or> (\<exists>f. truthy (refAt p1 f a) \<and> q = addRef f a (depPathToRef d a (rpName n)) p1)"
    using setResolvedRef_result [OF assms(1)] unfolding p1_def by blast
  from q show ?thesis
  proof (elim disjE exE conjE)
    fix f assume t: "truthy (refAt p1 f a)" and q: "q = addRef f a (depPathToRef d a (rpName n)) p1"
    have "k a = Some f" using t filled_truthy [OF p1(1)] by blast
    then have "filled q k" using p1(1) assms(4) n unfolding q filled_def by auto
    then show ?thesis unfolding q using p1 by auto
  qed (use p1 in simp)
qed

lemma setResolvedRefs_spec:
  assumes "sfold (setResolvedRef graph meta) ds p = Inr q" "filled p k" "wfBlocks p"
    and "\<forall>(a, d) \<in> set ds. \<forall>n. map_of graph d = Some n \<longrightarrow> depPathToRef d a (rpName n) \<noteq> []"
  shows "filled q k \<and> wfBlocks q \<and> specifiers q = specifiers p \<and> publishDirectory q = publishDirectory p \<and>
    dependenciesMeta q = (if ds \<noteq> [] \<and> meta \<noteq> None then meta else dependenciesMeta p)"
  using assms
proof (induction ds arbitrary: p)
  case (Cons x ds)
  obtain a d where x: "x = (a, d)" by (cases x)
  obtain p1 where p1: "setResolvedRef graph meta (a, d) p = Inr p1" "sfold (setResolvedRef graph meta) ds p1 = Inr q"
    using Cons.prems(1) by (auto simp: x sbind_Inr_iff)
  have "\<forall>n. map_of graph d = Some n \<longrightarrow> depPathToRef d a (rpName n) \<noteq> []" using Cons.prems(4) by (auto simp: x)
  note s1 = setResolvedRef_spec [OF p1(1) Cons.prems(2,3) this]
  have "\<forall>(a, d) \<in> set ds. \<forall>n. map_of graph d = Some n \<longrightarrow> depPathToRef d a (rpName n) \<noteq> []" using Cons.prems(4) by simp
  then show ?case using Cons.IH [OF p1(2)] s1 by auto
qed simp

text \<open>A manifest whose dictionaries have each key once and whose specifiers are not empty.\<close>

definition wfManifest :: "manifest \<Rightarrow> bool" where
  "wfManifest m \<longleftrightarrow> list_all (\<lambda>ds. distinct (keys (orEmpty ds)) \<and> [] \<notin> set (vals (orEmpty ds)))
     [mDependencies m, mDevDependencies m, mOptionalDependencies m, mPeerDependencies m] \<and>
     distinct (keys (orEmpty (mDependenciesMeta m))) \<and> mPublishDirectory m \<noteq> Some []"

lemma wfManifest_truthy:
  assumes "wfManifest m" "ds \<in> {mDependencies m, mDevDependencies m, mOptionalDependencies m, mPeerDependencies m}"
  shows "truthy (map_of (orEmpty ds) a) \<longleftrightarrow> a \<in> set (keys (orEmpty ds))" "distinct (keys (orEmpty ds))"
proof -
  have v: "[] \<notin> set (vals (orEmpty ds))" "distinct (keys (orEmpty ds))" using assms by (auto simp: wfManifest_def)
  show "truthy (map_of (orEmpty ds) a) \<longleftrightarrow> a \<in> set (keys (orEmpty ds))"
  proof (cases "map_of (orEmpty ds) a")
    case (Some s)
    then have "s \<noteq> []" using v(1) by (metis image_eqI map_of_SomeD set_map snd_conv)
    then show ?thesis using Some by (simp add: in_keys_iff del: set_map)
  qed (simp add: in_keys_iff del: set_map)
  show "distinct (keys (orEmpty ds))" by (rule v)
qed

lemma map_of_all: "map_of (getAllDependenciesFromManifest m) a =
    orElse (map_of (orEmpty (mOptionalDependencies m)) a)
      (orElse (map_of (orEmpty (mDependencies m)) a) (map_of (orEmpty (mDevDependencies m)) a))"
  by (auto simp: getAllDependenciesFromManifest_def map_add_def orElse_def split: option.splits)

lemma getSpec_all: "map_of (getAllDependenciesFromManifest m) a = Some s \<Longrightarrow> getSpecFromPackageManifest m a = s"
  by (auto simp: map_of_all getSpecFromPackageManifest_def orElse_def split: option.splits)

lemma all_truthy:
  assumes "wfManifest m"
  shows "truthy (map_of (getAllDependenciesFromManifest m) a) \<longleftrightarrow> map_of (getAllDependenciesFromManifest m) a \<noteq> None"
proof -
  have t: "map_of (orEmpty ds) a \<noteq> Some []"
    if "ds \<in> {mDependencies m, mDevDependencies m, mOptionalDependencies m}" for ds
    using wfManifest_truthy(1) [OF assms, of ds a] that by (auto simp: in_keys_iff simp del: set_map)
  have "map_of (getAllDependenciesFromManifest m) a \<noteq> Some []"
    using t [of "mDependencies m"] t [of "mDevDependencies m"] t [of "mOptionalDependencies m"]
    by (auto simp: map_of_all orElse_def split: option.splits)
  then show ?thesis by (cases "map_of (getAllDependenciesFromManifest m) a") auto
qed

lemma addPeers_fold:
  defines "step \<equiv> \<lambda>all (peerName, peerRange) m. if truthy (map_of all peerName) then m
     else m\<lparr>mDependencies := Some (jset peerName peerRange (orEmpty (mDependencies m)))\<rparr>"
  assumes "distinct (keys ps)"
  shows "\<exists>x. fold (step all) ps m = m\<lparr>mDependencies := x\<rparr> \<and>
    (\<forall>a. map_of (orEmpty x) a = (if a \<in> set (keys ps) \<and> \<not> truthy (map_of all a) then map_of ps a
       else map_of (orEmpty (mDependencies m)) a)) \<and>
    (distinct (keys (orEmpty (mDependencies m))) \<longrightarrow> distinct (keys (orEmpty x)))"
  using assms(2)
proof (induction ps arbitrary: m)
  case Nil
  show ?case by (rule exI [of _ "mDependencies m"]) simp
next
  case (Cons y ps)
  obtain n r where y: "y = (n, r)" by (cases y)
  have d: "distinct (keys ps)" "n \<notin> set (keys ps)" using Cons.prems by (simp_all add: y)
  define m1 where "m1 = step all (n, r) m"
  have m1: "m1 = (if truthy (map_of all n) then m
      else m\<lparr>mDependencies := Some (jset n r (orEmpty (mDependencies m)))\<rparr>)" by (simp add: m1_def step_def)
  obtain x where x: "fold (step all) ps m1 = m1\<lparr>mDependencies := x\<rparr>"
    "\<And>a. map_of (orEmpty x) a = (if a \<in> set (keys ps) \<and> \<not> truthy (map_of all a) then map_of ps a
       else map_of (orEmpty (mDependencies m1)) a)"
    "distinct (keys (orEmpty (mDependencies m1))) \<longrightarrow> distinct (keys (orEmpty x))" using Cons.IH [OF d(1), of m1] by blast
  have "fold (step all) (y # ps) m = m\<lparr>mDependencies := x\<rparr>"
    using x(1) unfolding fold_simps o_apply y m1_def [symmetric] by (simp add: m1)
  moreover have "map_of (orEmpty x) a = (if a \<in> set (keys (y # ps)) \<and> \<not> truthy (map_of all a) then map_of (y # ps) a
       else map_of (orEmpty (mDependencies m)) a)" for a
    unfolding x(2) m1 using d(2) by (auto simp: y update_conv')
  moreover have "distinct (keys (orEmpty (mDependencies m))) \<longrightarrow> distinct (keys (orEmpty x))"
    using x(3) by (auto simp: m1 distinct_update split: if_splits)
  ultimately show ?case by blast
qed

lemma addPeers_spec:
  assumes "wfManifest m"
  shows "\<exists>x. addPeers m = m\<lparr>mDependencies := x\<rparr> \<and> distinct (keys (orEmpty x)) \<and>
    (\<forall>a. map_of (orEmpty x) a = (if map_of (getAllDependenciesFromManifest m) a = None
       then map_of (orEmpty (mPeerDependencies m)) a else map_of (orEmpty (mDependencies m)) a))"
proof -
  have d: "distinct (keys (orEmpty (mPeerDependencies m)))" "distinct (keys (orEmpty (mDependencies m)))"
    using assms by (auto intro: wfManifest_truthy(2))
  obtain x where x: "addPeers m = m\<lparr>mDependencies := x\<rparr>"
    "\<And>a. map_of (orEmpty x) a = (if a \<in> set (keys (orEmpty (mPeerDependencies m))) \<and>
       \<not> truthy (map_of (getAllDependenciesFromManifest m) a) then map_of (orEmpty (mPeerDependencies m)) a
       else map_of (orEmpty (mDependencies m)) a)" "distinct (keys (orEmpty x))"
    using addPeers_fold [OF d(1), of "getAllDependenciesFromManifest m" m] d(2) unfolding addPeers_def Let_def by blast
  have n: "map_of (orEmpty (mDependencies m)) a = None" if "map_of (getAllDependenciesFromManifest m) a = None" for a
    using that by (auto simp: map_of_all orElse_def split: option.splits)
  have "map_of (orEmpty x) a = (if map_of (getAllDependenciesFromManifest m) a = None
       then map_of (orEmpty (mPeerDependencies m)) a else map_of (orEmpty (mDependencies m)) a)" for a
    unfolding x(2) all_truthy [OF assms] in_keys_iff using n [of a] by auto
  then show ?thesis using x(1,3) by blast
qed

text \<open>The manifest that the snapshot is made from, and the one that it is compared with, have the same
  dependencies.\<close>

definition sameDependencies :: "manifest \<Rightarrow> manifest \<Rightarrow> bool" where
  "sameDependencies m n \<longleftrightarrow> (\<forall>f. map_of (orEmpty (manifestField f m)) = map_of (orEmpty (manifestField f n)))"

definition manifestToRecord :: "importerOptions \<Rightarrow> manifest \<Rightarrow> manifest" where
  "manifestToRecord opts m = (if ioAutoInstallPeers opts then addPeers m else m)"

definition manifestToCompare :: "importerOptions \<Rightarrow> manifest \<Rightarrow> manifest" where
  "manifestToCompare opts m = (if ioAutoInstallPeers opts
     then m\<lparr>mDependencies := Some (spread (filter (\<lambda>(k, _). k \<notin> set (keys (getAllDependenciesFromManifest m)))
       (orEmpty (mPeerDependencies m))) (orEmpty (mDependencies m)))\<rparr> else m)"

lemma sameDependencies_peers:
  assumes "wfManifest m"
  shows "sameDependencies (manifestToCompare opts m) (manifestToRecord opts m)"
proof (cases "ioAutoInstallPeers opts")
  case True
  obtain x where x: "addPeers m = m\<lparr>mDependencies := x\<rparr>"
    "\<And>a. map_of (orEmpty x) a = (if map_of (getAllDependenciesFromManifest m) a = None
       then map_of (orEmpty (mPeerDependencies m)) a else map_of (orEmpty (mDependencies m)) a)"
    using addPeers_spec [OF assms] by blast
  have n: "map_of (orEmpty (mDependencies m)) a = None" if "map_of (getAllDependenciesFromManifest m) a = None" for a
    using that by (auto simp: map_of_all orElse_def split: option.splits)
  have "map_of (spread (filter (\<lambda>(k, _). k \<notin> set (keys (getAllDependenciesFromManifest m))) (orEmpty (mPeerDependencies m)))
      (orEmpty (mDependencies m))) a = map_of (orEmpty x) a" for a
    unfolding x(2) map_of_spread map_add_def map_of_filter_keyed in_keys_iff using n [of a] by (auto split: option.splits)
  then have "map_of (orEmpty (manifestField f (manifestToCompare opts m))) = map_of (orEmpty (manifestField f (addPeers m)))" for f
    unfolding x(1) by (cases f) (auto simp: manifestToCompare_def True fun_eq_iff)
  then show ?thesis by (simp add: sameDependencies_def manifestToRecord_def True)
qed (simp add: sameDependencies_def manifestToRecord_def manifestToCompare_def)

text \<open>The specifiers that are compared.\<close>

definition specsToCompare :: "importerOptions \<Rightarrow> manifest \<Rightarrow> deps" where
  "specsToCompare opts m = (if ioAutoInstallPeers opts
     then spread (orEmpty (mPeerDependencies m)) (getAllDependenciesFromManifest m) else getAllDependenciesFromManifest m)"

lemma specsToCompare_all:
  assumes "wfManifest m"
  shows "map_of (specsToCompare opts m) a = map_of (getAllDependenciesFromManifest (manifestToRecord opts m)) a"
proof (cases "ioAutoInstallPeers opts")
  case True
  obtain x where x: "addPeers m = m\<lparr>mDependencies := x\<rparr>"
    "\<And>a. map_of (orEmpty x) a = (if map_of (getAllDependenciesFromManifest m) a = None
       then map_of (orEmpty (mPeerDependencies m)) a else map_of (orEmpty (mDependencies m)) a)"
    using addPeers_spec [OF assms] by blast
  show ?thesis
    unfolding specsToCompare_def manifestToRecord_def using True
    by (auto simp: x(1) map_of_all [of "m\<lparr>mDependencies := x\<rparr>"] x(2) map_add_def map_of_all [of m] orElse_def
        split: option.splits)
qed (simp add: specsToCompare_def manifestToRecord_def)

lemma distinct_all:
  assumes "wfManifest m"
  shows "distinct (keys (getAllDependenciesFromManifest m))" "distinct (keys (specsToCompare opts m))"
    "distinct (keys (orEmpty (manifestField f (manifestToCompare opts m))))"
proof -
  have d: "distinct (keys (orEmpty ds))" if "ds \<in> {mDependencies m, mDevDependencies m, mOptionalDependencies m, mPeerDependencies m}" for ds
    using wfManifest_truthy(2) [OF assms that] .
  show a: "distinct (keys (getAllDependenciesFromManifest m))"
    unfolding getAllDependenciesFromManifest_def by (intro distinct_keys_spread d) auto
  show "distinct (keys (specsToCompare opts m))"
    unfolding specsToCompare_def using a d [of "mPeerDependencies m"] by (auto intro: distinct_keys_spread)
  have "distinct (keys (spread (filter P (orEmpty (mPeerDependencies m))) (orEmpty (mDependencies m))))" for P
    by (intro distinct_keys_spread distinct_keys_filter d) auto
  then show "distinct (keys (orEmpty (manifestField f (manifestToCompare opts m))))"
    using d by (cases f) (auto simp: manifestToCompare_def)
qed

subsection \<open>The comparison\<close>

lemma sameObject_iff:
  assumes "distinct (keys a)" "distinct (keys b)"
  shows "sameObject a b \<longleftrightarrow> map_of a = map_of b"
proof
  assume s: "sameObject a b"
  have k: "k \<in> set (keys a) \<Longrightarrow> map_of b k = map_of a k" for k using s by (auto simp: sameObject_def list_all_iff)
  have "set (keys a) \<subseteq> set (keys b)" using k unfolding in_keys_iff by (metis in_keys_iff subsetI)
  moreover have "card (set (keys a)) = card (set (keys b))"
    using s distinct_card [OF assms(1)] distinct_card [OF assms(2)] by (simp add: sameObject_def)
  ultimately have e: "set (keys a) = set (keys b)" by (simp add: card_subset_eq del: set_map)
  show "map_of a = map_of b"
  proof
    fix k show "map_of a k = map_of b k"
    proof (cases "k \<in> set (keys a)")
      case False
      then have "k \<notin> set (keys b)" by (simp add: e del: set_map)
      with False show ?thesis unfolding in_keys_iff by simp
    qed (use k in simp)
  qed
next
  assume m: "map_of a = map_of b"
  then have "set (keys a) = set (keys b)" by (simp add: set_eq_iff in_keys_iff del: set_map)
  then have "length a = length b" using distinct_card [OF assms(1)] distinct_card [OF assms(2)] by simp
  then show "sameObject a b" by (simp add: sameObject_def m list_all_iff)
qed

lemma map_of_filter_value:
  "distinct (keys m) \<Longrightarrow> map_of (filter (\<lambda>(_, v). P v) m) k = (case map_of m k of Some v \<Rightarrow> if P v then Some v else None | None \<Rightarrow> None)"
proof (induction m)
  case (Cons x m)
  then show ?case by (cases x) (auto simp: map_of_eq_None_iff image_iff split: option.splits)
qed simp

lemma pickNonLinkedDeps_get:
  assumes "distinct (keys m)"
  shows "map_of (pickNonLinkedDeps m) k =
    (case map_of m k of Some v \<Rightarrow> if startsWith v ''link:'' then None else Some v | None \<Rightarrow> None)"
    and "distinct (keys (pickNonLinkedDeps m))"
proof -
  show "map_of (pickNonLinkedDeps m) k =
      (case map_of m k of Some v \<Rightarrow> if startsWith v ''link:'' then None else Some v | None \<Rightarrow> None)"
    unfolding pickNonLinkedDeps_def map_of_filter_value [OF assms] by (simp split: option.splits)
  show "distinct (keys (pickNonLinkedDeps m))" unfolding pickNonLinkedDeps_def by (rule distinct_keys_filter [OF assms])
qed

lemma sameDependencies_types:
  assumes "sameDependencies m n"
  shows "map_of (getAliasToDependencyTypeMap m) a = map_of (getAliasToDependencyTypeMap n) a"
    and "map_of (getAllDependenciesFromManifest m) a = map_of (getAllDependenciesFromManifest n) a"
proof -
  have f: "map_of (orEmpty (manifestField f m)) = map_of (orEmpty (manifestField f n))" for f
    using assms by (simp add: sameDependencies_def)
  note f = f [of OptionalDependencies, simplified] f [of Dependencies, simplified] f [of DevDependencies, simplified]
  show "map_of (getAliasToDependencyTypeMap m) a = map_of (getAliasToDependencyTypeMap n) a"
    unfolding getAliasToDependencyTypeMap_get in_keys_iff f ..
  show "map_of (getAllDependenciesFromManifest m) a = map_of (getAllDependenciesFromManifest n) a"
    unfolding map_of_all f ..
qed

lemma compared_not_empty:
  assumes "wfManifest m"
  shows "map_of (orEmpty (manifestField f (manifestToCompare opts m))) a \<noteq> Some []"
proof -
  have t: "map_of (orEmpty ds) a \<noteq> Some []"
    if "ds \<in> {mDependencies m, mDevDependencies m, mOptionalDependencies m, mPeerDependencies m}" for ds
    using wfManifest_truthy(1) [OF assms that, of a] by (auto simp: in_keys_iff simp del: set_map)
  show ?thesis
    using t [of "mDependencies m"] t [of "mDevDependencies m"] t [of "mOptionalDependencies m"] t [of "mPeerDependencies m"]
    by (cases f) (auto simp: manifestToCompare_def map_add_def map_of_filter_keyed split: option.splits)
qed

lemma pkgDepNames_spec:
  assumes "\<And>f a. map_of (orEmpty (manifestField f c)) a \<noteq> Some []"
    and "set (keys ds) \<subseteq> set (keys (orEmpty (manifestField f c)))" "distinct (keys ds)"
  shows "distinct (pkgDepNames c f ds)"
    and "b \<in> set (pkgDepNames c f ds) \<longleftrightarrow> b \<in> set (keys ds) \<and> map_of (getAliasToDependencyTypeMap c) b = Some f"
proof -
  have t: "truthy (map_of (orEmpty (manifestField g c)) a) \<longleftrightarrow> a \<in> set (keys (orEmpty (manifestField g c)))" for g a
    using assms(1) [of g a] by (cases "map_of (orEmpty (manifestField g c)) a") (auto simp: in_keys_iff simp del: set_map)
  note t = t [of OptionalDependencies, simplified manifestField.simps] t [of Dependencies, simplified manifestField.simps]
  show "distinct (pkgDepNames c f ds)" using assms(3) by (cases f) simp_all
  show "b \<in> set (pkgDepNames c f ds) \<longleftrightarrow> b \<in> set (keys ds) \<and> map_of (getAliasToDependencyTypeMap c) b = Some f"
    using assms(2) by (cases f) (auto simp: t getAliasToDependencyTypeMap_get simp del: set_map)
qed

lemma firstMismatch_None: "(\<And>x. f x = None) \<Longrightarrow> firstMismatch f xs = None"
  unfolding firstMismatch_def by (induction xs) simp_all

text \<open>The dependencies of a block that are compared, and their specifiers.\<close>

definition comparedDeps :: "bool \<Rightarrow> manifest \<Rightarrow> depField \<Rightarrow> deps" where
  "comparedDeps e c f = (if e then pickNonLinkedDeps (orEmpty (manifestField f c)) else orEmpty (manifestField f c))"

lemma comparedDeps_get:
  fixes opts :: importerOptions
  assumes "wfManifest m"
  defines "c \<equiv> manifestToCompare opts m" and "n \<equiv> manifestToRecord opts m"
  shows "b \<in> set (pkgDepNames c f (comparedDeps e c f)) \<longleftrightarrow> fieldIn n e b = Some f"
    and "distinct (pkgDepNames c f (comparedDeps e c f))"
    and "fieldIn n e b = Some f \<Longrightarrow> map_of (comparedDeps e c f) b = map_of (getAllDependenciesFromManifest n) b"
proof -
  have sd: "sameDependencies c n" unfolding c_def n_def by (rule sameDependencies_peers [OF assms(1)])
  have d: "distinct (keys (orEmpty (manifestField f c)))" for f unfolding c_def by (rule distinct_all(3) [OF assms(1)])
  have ds: "distinct (keys (comparedDeps e c f))" "set (keys (comparedDeps e c f)) \<subseteq> set (keys (orEmpty (manifestField f c)))"
    using pickNonLinkedDeps_get(2) [OF d] d by (auto simp: comparedDeps_def pickNonLinkedDeps_def)
  note names = pkgDepNames_spec [OF compared_not_empty [OF assms(1), of _ opts, folded c_def] ds(2,1)]
  show "distinct (pkgDepNames c f (comparedDeps e c f))" by (rule names(1))
  have spec: "map_of (getAllDependenciesFromManifest n) b = map_of (orEmpty (manifestField f c)) b \<and>
      map_of (orEmpty (manifestField f c)) b = Some (getSpecFromPackageManifest n b)"
    if "map_of (getAliasToDependencyTypeMap c) b = Some f" for b
  proof -
    have "map_of (getAllDependenciesFromManifest c) b = map_of (orEmpty (manifestField f c)) b \<and>
        map_of (orEmpty (manifestField f c)) b \<noteq> None"
      using that unfolding getAliasToDependencyTypeMap_get map_of_all in_keys_iff
      by (cases f) (auto simp: orElse_def split: if_splits option.splits)
    then show ?thesis unfolding sameDependencies_types(2) [OF sd] using getSpec_all [of n b] by auto
  qed
  have kind: "fieldIn n e b = Some f \<longleftrightarrow> map_of (getAliasToDependencyTypeMap c) b = Some f \<and>
      \<not> (e \<and> startsWith (getSpecFromPackageManifest n b) ''link:'')" for b
    unfolding fieldIn_def sameDependencies_types(1) [OF sd] by auto
  have get: "map_of (comparedDeps e c f) b = (if e \<and> startsWith (getSpecFromPackageManifest n b) ''link:'' then None
      else map_of (orEmpty (manifestField f c)) b)" if "map_of (getAliasToDependencyTypeMap c) b = Some f" for b
    using spec [OF that] pickNonLinkedDeps_get(1) [OF d] by (auto simp: comparedDeps_def)
  show "b \<in> set (pkgDepNames c f (comparedDeps e c f)) \<longleftrightarrow> fieldIn n e b = Some f"
    unfolding names(2) kind in_keys_iff using get [of b] spec [of b] by auto
  show "fieldIn n e b = Some f \<Longrightarrow> map_of (comparedDeps e c f) b = map_of (getAllDependenciesFromManifest n) b"
    unfolding kind using get [of b] spec [of b] by auto
qed

lemma fieldMismatch_None:
  assumes "wfManifest m" "filled p (fieldIn (manifestToRecord opts m) e)" "wfBlocks p"
    and "\<And>b. map_of (specifiers p) b = map_of (getAllDependenciesFromManifest (manifestToRecord opts m)) b"
  shows "fieldMismatch e p (manifestToCompare opts m) f = None"
proof -
  let ?c = "manifestToCompare opts m" and ?n = "manifestToRecord opts m"
  let ?names = "pkgDepNames ?c f (comparedDeps e ?c f)" and ?refs = "orEmpty (projectField f p)"
  note cd = comparedDeps_get [OF assms(1), where opts = opts and e = e and f = f]
  have r: "map_of ?refs b \<noteq> None \<longleftrightarrow> fieldIn ?n e b = Some f" for b
    using assms(2) by (simp add: filled_def refAt_def)
  have "set ?names = set (keys ?refs)" unfolding set_eq_iff cd(1) in_keys_iff r by simp
  moreover have "distinct (keys ?refs)" using assms(3) by (simp add: wfBlocks_def)
  ultimately have len: "length ?names = length ?refs"
    using distinct_card [OF cd(2)] distinct_card [of "keys ?refs"] by simp
  have "\<not> (\<not> truthy (map_of ?refs b) \<or> map_of (specifiers p) b \<noteq> map_of (comparedDeps e ?c f) b)" if "b \<in> set ?names" for b
    using that filled_truthy [OF assms(2)] cd(3) unfolding cd(1) assms(4) refAt_def by simp
  then have "List.find (\<lambda>d. \<not> truthy (map_of ?refs d) \<or> map_of (specifiers p) d \<noteq> map_of (comparedDeps e ?c f) d) ?names = None"
    unfolding find_None_iff by blast
  then show ?thesis using len unfolding fieldMismatch_def Let_def comparedDeps_def by simp
qed


section \<open>Examples\<close>

definition exampleDirect :: "str \<Rightarrow> str \<Rightarrow> bool \<Rightarrow> bool \<Rightarrow> bool \<Rightarrow> resolvedDirectDependency" where
  "exampleDirect name ver dev opt linked = \<lparr>rdAlias = name, rdName = name, rdVersion = ver, rdPkgId = name @ ''@'' @ ver,
     rdResolution = IntegrityResolution ''i'', rdDev = dev, rdOptional = opt, rdLinked = linked, rdNormalizedPref = None,
     rdCatalogLookup = None\<rparr>"

text \<open>A development dependency that the old lockfile and the resolution have as another type, a peer that is installed
  automatically and an excluded link.\<close>

definition exampleManifest :: manifest where
  "exampleManifest = emptyManifest\<lparr>mDevDependencies := Some [(''a'', ''^1.0.0'')], mDependencies := Some [(''l'', ''link:../l'')],
     mPeerDependencies := Some [(''p'', ''*'')]\<rparr>"

definition exampleOptions :: importerOptions where
  "exampleOptions = \<lparr>ioAutoInstallPeers = True, ioExcludeLinksFromLockfile = True\<rparr>"

definition exampleDirects :: "resolvedDirectDependency list" where
  "exampleDirects = [exampleDirect ''a'' ''1.0.0'' False True False, exampleDirect ''p'' ''2.0.0'' False False False,
     exampleDirect ''l'' ''1.0.0'' False False True]"

definition exampleOld :: projectSnapshot where
  "exampleOld = emptyProject\<lparr>specifiers := [(''a'', ''^1.0.0'')], optDeps := Some [(''a'', ''1.0.0'')]\<rparr>"

definition exampleProjectGraph :: dependenciesGraph where
  "exampleProjectGraph = [(''a@1.0.0(p@2.0.0)'', exampleNode ''a'' [])]"

lemma exampleManifest_recorded:
  "manifestToRecord exampleOptions exampleManifest =
     exampleManifest\<lparr>mDependencies := Some [(''l'', ''link:../l''), (''p'', ''*'')]\<rparr>"
  by (simp add: manifestToRecord_def exampleOptions_def addPeers_def exampleManifest_def emptyManifest_def
      getAllDependenciesFromManifest_def spread_def Let_def)

lemma example_recordable:
  "recordable (exampleManifest\<lparr>mDependencies := Some [(''l'', ''link:../l''), (''p'', ''*'')]\<rparr>) exampleOld True [''l'']
     exampleDirects x \<longleftrightarrow> x \<in> {''a'', ''l'', ''p''}"
  by (auto simp: recordable_def recordedRef_def directByAlias_def exampleDirects_def exampleDirect_def isRecorded_def
      getSpecFromPackageManifest_def exampleManifest_def emptyManifest_def fieldOfDirect_def depPathToRef_def substr_def
      startsWith_def exampleOld_def emptyProject_def split: option.splits)


text \<open>Without a resolved dependency the metadata is not written, and the project never satisfies its manifest.\<close>

lemma meta_not_recorded:
  assumes "mDependenciesMeta m = Some [(''a'', \<lparr>injected = Some True, metaNode = None, metaPatch = None\<rparr>)]"
    and "mDependencies m = None" "mDevDependencies m = None" "mOptionalDependencies m = None" "mPublishDirectory m = None"
    and "\<not> ioAutoInstallPeers opts" "\<not> ioExcludeLinksFromLockfile opts"
  shows "\<exists>p. recordProject graph opts m old [] [] [] = Inr (m, p) \<and>
    satisfiesPackageManifest opts (Some p) m = Some DependenciesMetaDiffer"
proof -
  have "getAllDependenciesFromManifest m = []" by (simp add: getAllDependenciesFromManifest_def assms)
  then show ?thesis
    by (simp add: recordProject_def assms addDirectDependenciesToLockfile_def newSnapshot_def emptyProject_def uniq_def
        alignDependencyTypes_def DEPENDENCIES_FIELDS_def alignField_def satisfiesPackageManifest_def sameObject_def)
qed

text \<open>A project of the workspace that is linked by its version is left out with \<open>excludeLinksFromLockfile\<close>, but its
  specifier is not: the snapshot that is written never satisfies the manifest.\<close>

lemma excluded_workspace_link:
  defines "m \<equiv> emptyManifest\<lparr>mDependencies := Some [(''a'', ''^1.0.0'')]\<rparr>"
    and "opts \<equiv> \<lparr>ioAutoInstallPeers = False, ioExcludeLinksFromLockfile = True\<rparr>"
  shows "\<exists>p. recordProject graph opts m emptyProject [''a''] [exampleDirect ''a'' ''1.0.0'' False False True] [] = Inr (m, p) \<and>
    satisfiesPackageManifest opts (Some p) m = Some (FieldDiffers Dependencies)"
  by (simp add: m_def opts_def emptyManifest_def recordProject_def addDirectDependenciesToLockfile_def newSnapshot_def
      emptyProject_def uniq_def sadd_def getAllDependenciesFromManifest_def setSpecifier_def exampleDirect_def
      addDirectDependency_def isRecorded_def getSpecFromPackageManifest_def startsWith_def keepOldDependency_def
      alignDependencyTypes_def DEPENDENCIES_FIELDS_def alignField_def satisfiesPackageManifest_def sameObject_def
      pickNonLinkedDeps_def firstMismatch_def fieldMismatch_def countOfNonLinkedDeps_def)

section \<open>Catalogs\<close>

text \<open>The catalogs of the lockfile are up to date after a resolution.\<close>

lemma in_set_update: "x \<in> set (jset k v m) \<Longrightarrow> x = (k, v) \<or> x \<in> set m"
  by (induction m) (auto split: if_splits)

lemma addCatalogEntry_upToDate:
  assumes "allCatalogsAreUpToDate cfg (Some snapshots)"
    and "case rdCatalogLookup dep of None \<Rightarrow> True
      | Some c \<Rightarrow> Option.bind (map_of cfg (clCatalogName c)) (\<lambda>d. map_of d (rdAlias dep)) = Some (clSpecifier c)"
  shows "allCatalogsAreUpToDate cfg (Some (addCatalogEntry dep snapshots))"
proof (cases "rdCatalogLookup dep")
  case (Some c)
  let ?up = "\<lambda>name (alias, entry). Option.bind (map_of cfg name) (\<lambda>d. map_of d alias) = Some (ceSpecifier entry)"
  have old: "?up name x" if "(name, catalog) \<in> set snapshots" "x \<in> set catalog" for name catalog x
    using assms(1) that by (fastforce simp: allCatalogsAreUpToDate_def list_all_iff)
  have "?up name x" if "(name, catalog) \<in> set (addCatalogEntry dep snapshots)" "x \<in> set catalog" for name catalog x
  proof (cases "(name, catalog) \<in> set snapshots")
    case False
    let ?base = "orEmpty (map_of snapshots (clCatalogName c))"
    have "name = clCatalogName c" "catalog = jset (rdAlias dep) \<lparr>ceSpecifier = clSpecifier c, ceVersion = rdVersion dep\<rparr> ?base"
      using that(1) False by (auto simp: addCatalogEntry_def Some dest!: in_set_update)
    then have "x = (rdAlias dep, \<lparr>ceSpecifier = clSpecifier c, ceVersion = rdVersion dep\<rparr>) \<or> x \<in> set ?base"
      using that(2) by (auto dest!: in_set_update)
    then show ?thesis
    proof
      assume "x \<in> set ?base"
      then obtain catalog' where "(name, catalog') \<in> set snapshots" "x \<in> set catalog'"
        using \<open>name = clCatalogName c\<close> by (cases "map_of snapshots (clCatalogName c)") (auto dest: map_of_SomeD)
      then show ?thesis by (rule old)
    qed (use assms(2) Some \<open>name = clCatalogName c\<close> in simp)
  qed (rule old [OF _ that(2)])
  then show ?thesis by (fastforce simp: allCatalogsAreUpToDate_def list_all_iff)
qed (use assms(1) in \<open>simp add: addCatalogEntry_def\<close>)

lemma getCatalogSnapshots_upToDate:
  assumes "list_all (\<lambda>dep. case rdCatalogLookup dep of None \<Rightarrow> True
      | Some c \<Rightarrow> Option.bind (map_of cfg (clCatalogName c)) (\<lambda>d. map_of d (rdAlias dep)) = Some (clSpecifier c)) deps"
  shows "allCatalogsAreUpToDate cfg (Some (getCatalogSnapshots deps))"
proof -
  have "allCatalogsAreUpToDate cfg (Some s) \<Longrightarrow> allCatalogsAreUpToDate cfg (Some (fold addCatalogEntry deps s))" for s
    using assms by (induction deps arbitrary: s) (simp_all add: addCatalogEntry_upToDate)
  from this [of "[]"] show ?thesis by (simp add: getCatalogSnapshots_def allCatalogsAreUpToDate_def)
qed

end
