(* ===== verification/UpToDate.thy ===== *)
theory UpToDate
  imports ImporterSnapshot
begin

text \<open>
  lockfile/verification/src: whether the projects of a workspace need a new resolution (allProjectsAreUpToDate.ts with
  linkedPackagesAreUpToDate.ts, localTarballDepsAreUpToDate.ts and getWorkspacePackagesByDirectory.ts). The tests that the
  code runs at the same time are taken in order, and the first that fails ends them. Node's \<open>path.join\<close>, semver,
  version-selector-type, the manifests and the archives on the disk are parameters; the cache of the integrities of
  archives is the state.
\<close>

section \<open>The environment\<close>

record upToDateEnv =
  ueJoin :: "str \<Rightarrow> str \<Rightarrow> str"
  ueSatisfiesLoose :: "str \<Rightarrow> str \<Rightarrow> bool"
  ueIsTag :: "str \<Rightarrow> bool"
  ueReadManifest :: "str \<Rightarrow> js_error + manifest option"
  ueIntegrity :: "str \<Rightarrow> js_error + str"

record workspaceProject =
  wjRootDir :: str
  wjManifest :: manifest

record upToDateOptions =
  uoCatalogs :: "deps obj"
  uoImporterOptions :: importerOptions
  uoLinkWorkspacePackages :: bool
  uoWantedLockfile :: lockfileObject
  uoWorkspacePackages :: "workspaceProject obj obj option"
  uoLockfileDir :: str

record projectToCheck =
  pcId :: projectId
  pcManifest :: manifest
  pcRootDir :: str

text \<open>\<open>pEvery\<close>, and the same with a state.\<close>

fun severy :: "('a \<Rightarrow> 'e + bool) \<Rightarrow> 'a list \<Rightarrow> 'e + bool" where
  "severy f [] = Inr True"
| "severy f (x # xs) = sbind (f x) (\<lambda>b. if b then severy f xs else Inr False)"

fun everyFold :: "('a \<Rightarrow> 's \<Rightarrow> bool \<times> 's) \<Rightarrow> 'a list \<Rightarrow> 's \<Rightarrow> bool \<times> 's" where
  "everyFold f [] s = (True, s)"
| "everyFold f (x # xs) s = (case f x s of (b, s') \<Rightarrow> if b then everyFold f xs s' else (False, s'))"

definition getWorkspacePackagesByDirectory :: "workspaceProject obj obj \<Rightarrow> manifest obj" where
  "getWorkspacePackagesByDirectory workspacePackages =
     fold (\<lambda>(_, pkgVersions). fold (\<lambda>(_, w). jset (wjRootDir w) (wjManifest w)) pkgVersions) workspacePackages []"

section \<open>Linked packages\<close>

definition getVersionRange :: "str \<Rightarrow> str" where
  "getVersionRange spec =
     (if startsWith spec ''workspace:'' then drop 10 spec
      else if startsWith spec ''npm:'' then
        (let spec = drop 4 spec; index = indexOfFrom spec (CHR ''@'') 1 in
         if index = - 1 then ''*''
         else if substr spec (index + 1) = [] then ''*'' else substr spec (index + 1))
      else spec)"

fun snapshotField :: "depOrPeerField \<Rightarrow> packageSnapshot \<Rightarrow> deps option" where
  "snapshotField (DepField OptionalDependencies) p = optionalDependencies p"
| "snapshotField (DepField Dependencies) p = dependencies p"
| "snapshotField (DepField DevDependencies) p = None"
| "snapshotField PeerDependencies p = peerDependencies p"

definition localDepMatches :: "upToDateEnv \<Rightarrow> deps \<Rightarrow> str \<times> str \<Rightarrow> bool" where
  "localDepMatches env lockfileDeps dep =
     (case dep of (depName, currentSpec) \<Rightarrow>
        truthy (map_of lockfileDeps depName) \<and>
        (startsWith currentSpec ''file:'' \<or> startsWith currentSpec ''link:'' \<or> startsWith currentSpec ''workspace:'' \<or>
         ueSatisfiesLoose env (the (map_of lockfileDeps depName)) (getVersionRange currentSpec)))"

definition localFieldMatches :: "upToDateEnv \<Rightarrow> manifest \<Rightarrow> packageSnapshot \<Rightarrow> depOrPeerField \<Rightarrow> bool" where
  "localFieldMatches env m pkgSnapshot f \<longleftrightarrow>
     (let wantedDeps = orEmpty (manifestFieldOrPeer f m); lockfileDeps = orEmpty (snapshotField f pkgSnapshot) in
      list_all (\<lambda>d. truthy (map_of wantedDeps d)) (keys lockfileDeps) \<and>
      list_all (localDepMatches env lockfileDeps) wantedDeps)"

definition isLocalFileDepUpdated :: "upToDateEnv \<Rightarrow> str \<Rightarrow> packageSnapshot option \<Rightarrow> js_error + bool" where
  "isLocalFileDepUpdated env lockfileDir pkgSnapshot =
     (case pkgSnapshot of
        None \<Rightarrow> Inr False
      | Some p \<Rightarrow>
          (case pkgResolution p of
             Some (DirectoryResolution dir) \<Rightarrow>
               sbind (ueReadManifest env (ueJoin env lockfileDir dir)) (\<lambda>m. case m of
                   None \<Rightarrow> Inr False
                 | Some m \<Rightarrow> Inr (list_all (localFieldMatches env m p)
                     (filter (\<lambda>f. f \<noteq> DepField DevDependencies) DEPENDENCIES_OR_PEER_FIELDS)))
           | _ \<Rightarrow> Inl (TypeError ''path'')))"

record linkedContext =
  lcLinkWorkspacePackages :: bool
  lcManifestsByDir :: "manifest obj"
  lcWorkspacePackages :: "workspaceProject obj obj option"
  lcLockfilePackages :: "packageSnapshots option"
  lcLockfileDir :: str

text \<open>Whether the package in the linked directory satisfies the range; \<open>None\<close> is \<open>null\<close>, which is no boolean.\<close>

definition satisfiesLocally :: "upToDateEnv \<Rightarrow> manifest option \<Rightarrow> str \<Rightarrow> bool option" where
  "satisfiesLocally env linkedPkg availableRange =
     (if availableRange \<in> {''*'', ''^'', ''~''} then Some True
      else map_option (\<lambda>m. case mVersion m of None \<Rightarrow> False | Some v \<Rightarrow> ueSatisfiesLoose env v availableRange) linkedPkg)"

definition linkedDirUpToDate ::
    "upToDateEnv \<Rightarrow> linkedContext \<Rightarrow> bool \<Rightarrow> str \<Rightarrow> str option \<Rightarrow> js_error + bool" where
  "linkedDirUpToDate env ctx isLinked currentSpec linkedDir =
     (if \<not> truthy linkedDir then Inr True
      else if \<not> lcLinkWorkspacePackages ctx \<and> \<not> startsWith currentSpec ''workspace:'' then Inr True
      else sbind (case map_of (lcManifestsByDir ctx) (the linkedDir) of
               Some m \<Rightarrow> Inr (Some m) | None \<Rightarrow> ueReadManifest env (the linkedDir))
             (\<lambda>linkedPkg. Inr (satisfiesLocally env linkedPkg (getVersionRange currentSpec) = Some isLinked)))"

definition linkedDepUpToDate ::
    "upToDateEnv \<Rightarrow> linkedContext \<Rightarrow> str \<Rightarrow> projectSnapshot \<Rightarrow> deps \<Rightarrow> str \<times> str \<Rightarrow> js_error + bool" where
  "linkedDepUpToDate env ctx dir snapshot wantedDeps dep =
     (case dep of (depName, lockfileRef) \<Rightarrow>
        if \<not> truthy (map_of wantedDeps depName) then Inr True
        else let currentSpec = the (map_of wantedDeps depName) in
          case map_of (specifiers snapshot) depName of
            None \<Rightarrow> Inl (TypeError ''ref.startsWith'')
          | Some spec \<Rightarrow>
              if refIsLocalDirectory spec then
                (case refToRelative lockfileRef depName of
                   None \<Rightarrow> Inr False
                 | Some depPath \<Rightarrow> isLocalFileDepUpdated env (lcLockfileDir ctx) (map_of (orEmpty (lcLockfilePackages ctx)) depPath))
              else let isLinked = startsWith lockfileRef ''link:'' in
                if isLinked \<and> (startsWith currentSpec ''link:'' \<or> startsWith currentSpec ''file:'' \<or>
                    startsWith currentSpec ''workspace:.'' \<or> ueIsTag env currentSpec) then Inr True
                else linkedDirUpToDate env ctx isLinked currentSpec
                  (if isLinked then Some (ueJoin env dir (drop 5 lockfileRef))
                   else map_option wjRootDir (Option.bind (Option.bind (lcWorkspacePackages ctx) (\<lambda>ws. map_of ws depName))
                     (\<lambda>versions. map_of versions lockfileRef))))"

definition linkedPackagesAreUpToDate ::
    "upToDateEnv \<Rightarrow> linkedContext \<Rightarrow> str \<Rightarrow> manifest \<Rightarrow> projectSnapshot \<Rightarrow> js_error + bool" where
  "linkedPackagesAreUpToDate env ctx dir m snapshot =
     severy (\<lambda>f. case (projectField f snapshot, manifestField f m) of
         (Some lockfileDeps, Some wantedDeps) \<Rightarrow> severy (linkedDepUpToDate env ctx dir snapshot wantedDeps) lockfileDeps
       | _ \<Rightarrow> Inr True) DEPENDENCIES_FIELDS"

section \<open>Local archives\<close>

type_synonym integrityCache = "(js_error + str) obj"

text \<open>\<open>resolution.integrity\<close>; every entry of a lockfile has a resolution.\<close>

fun integrityIn :: "resolution \<Rightarrow> str option" where
  "integrityIn (TarballResolution _ i _) = i"
| "integrityIn (IntegrityResolution i) = Some i"
| "integrityIn _ = None"

definition localTarballUpToDate ::
    "upToDateEnv \<Rightarrow> packageSnapshots option \<Rightarrow> str \<Rightarrow> str \<times> str \<Rightarrow> integrityCache \<Rightarrow> bool \<times> integrityCache" where
  "localTarballUpToDate env pkgs lockfileDir dep cache =
     (case dep of (depName, ref) \<Rightarrow>
        if \<not> refIsLocalTarball ref then (True, cache)
        else case Option.bind (refToRelative ref depName) (map_of (orEmpty pkgs)) of
            None \<Rightarrow> (False, cache)
          | Some packageSnapshot \<Rightarrow>
              let filePath = ueJoin env lockfileDir (drop 5 ref);
                  fileIntegrity = (case map_of cache filePath of Some r \<Rightarrow> r | None \<Rightarrow> ueIntegrity env filePath);
                  cache' = (if map_of cache filePath = None then jset filePath fileIntegrity cache else cache)
              in case fileIntegrity of
                  Inl _ \<Rightarrow> (False, cache')
                | Inr i \<Rightarrow> (Option.bind (pkgResolution packageSnapshot) integrityIn = Some i, cache'))"

definition localTarballDepsAreUpToDate ::
    "upToDateEnv \<Rightarrow> packageSnapshots option \<Rightarrow> str \<Rightarrow> projectSnapshot \<Rightarrow> integrityCache \<Rightarrow> bool \<times> integrityCache" where
  "localTarballDepsAreUpToDate env pkgs lockfileDir snapshot cache =
     everyFold (\<lambda>f. case projectField f snapshot of None \<Rightarrow> Pair True
         | Some lockfileDeps \<Rightarrow> everyFold (localTarballUpToDate env pkgs lockfileDir) lockfileDeps) DEPENDENCIES_FIELDS cache"

section \<open>All projects\<close>

definition projectIsUpToDate ::
    "upToDateEnv \<Rightarrow> upToDateOptions \<Rightarrow> projectToCheck \<Rightarrow> integrityCache \<Rightarrow> js_error + bool \<times> integrityCache" where
  "projectIsUpToDate env opts project cache =
     (let lockfile = uoWantedLockfile opts in
      case map_of (importers lockfile) (pcId project) of
        None \<Rightarrow> Inr (list_all (\<lambda>f. orEmpty (manifestField f (pcManifest project)) = []) DEPENDENCIES_FIELDS, cache)
      | Some importer \<Rightarrow>
          if satisfiesPackageManifest (uoImporterOptions opts) (Some importer) (pcManifest project) \<noteq> None then Inr (False, cache)
          else case localTarballDepsAreUpToDate env (packages lockfile) (uoLockfileDir opts) importer cache of
              (False, cache') \<Rightarrow> Inr (False, cache')
            | (True, cache') \<Rightarrow>
                sbind (linkedPackagesAreUpToDate env
                    \<lparr>lcLinkWorkspacePackages = uoLinkWorkspacePackages opts,
                     lcManifestsByDir = (case uoWorkspacePackages opts of None \<Rightarrow> [] | Some w \<Rightarrow> getWorkspacePackagesByDirectory w),
                     lcWorkspacePackages = uoWorkspacePackages opts, lcLockfilePackages = packages lockfile,
                     lcLockfileDir = uoLockfileDir opts\<rparr> (pcRootDir project) (pcManifest project) importer)
                  (\<lambda>b. Inr (b, cache')))"

fun checkProjects ::
    "upToDateEnv \<Rightarrow> upToDateOptions \<Rightarrow> projectToCheck list \<Rightarrow> integrityCache \<Rightarrow> js_error + bool" where
  "checkProjects env opts [] cache = Inr True"
| "checkProjects env opts (p # ps) cache =
     sbind (projectIsUpToDate env opts p cache) (\<lambda>(b, cache'). if b then checkProjects env opts ps cache' else Inr False)"

definition allProjectsAreUpToDate :: "upToDateEnv \<Rightarrow> upToDateOptions \<Rightarrow> projectToCheck list \<Rightarrow> js_error + bool" where
  "allProjectsAreUpToDate env opts projects =
     (if \<not> allCatalogsAreUpToDate (uoCatalogs opts) (catalogs (uoWantedLockfile opts)) then Inr False
      else checkProjects env opts projects [])"

section \<open>The cache of integrities\<close>

lemma everyFold_inv:
  assumes "\<And>x s. ok s \<Longrightarrow> fst (f x s) = P x \<and> ok (snd (f x s))" "ok s"
  shows "fst (everyFold f xs s) = list_all P xs \<and> ok (snd (everyFold f xs s))"
  using assms(2)
proof (induction xs arbitrary: s)
  case (Cons x xs)
  obtain b s' where f: "f x s = (b, s')" by (rule prod.exhaust)
  then have "b = P x" "ok s'" using assms(1) [OF Cons.prems, of x] by simp_all
  then show ?case using Cons.IH [of s'] f by auto
qed simp

text \<open>What is asked of one dependency, by the archive on the disk.\<close>

definition tarballUnchanged :: "upToDateEnv \<Rightarrow> packageSnapshots option \<Rightarrow> str \<Rightarrow> str \<times> str \<Rightarrow> bool" where
  "tarballUnchanged env pkgs lockfileDir dep =
     (case dep of (depName, ref) \<Rightarrow>
        \<not> refIsLocalTarball ref \<or>
        (case Option.bind (refToRelative ref depName) (map_of (orEmpty pkgs)) of
           None \<Rightarrow> False
         | Some p \<Rightarrow> (case ueIntegrity env (ueJoin env lockfileDir (drop 5 ref)) of
              Inl _ \<Rightarrow> False
            | Inr i \<Rightarrow> Option.bind (pkgResolution p) integrityIn = Some i)))"

definition cacheOk :: "upToDateEnv \<Rightarrow> integrityCache \<Rightarrow> bool" where
  "cacheOk env cache \<longleftrightarrow> (\<forall>file r. map_of cache file = Some r \<longrightarrow> r = ueIntegrity env file)"

lemma localTarballUpToDate_spec:
  assumes "cacheOk env cache"
  shows "fst (localTarballUpToDate env pkgs dir dep cache) = tarballUnchanged env pkgs dir dep \<and>
    cacheOk env (snd (localTarballUpToDate env pkgs dir dep cache))"
proof (cases dep)
  case (Pair depName ref)
  let ?file = "ueJoin env dir (drop 5 ref)"
  have i: "(case map_of cache ?file of Some r \<Rightarrow> r | None \<Rightarrow> ueIntegrity env ?file) = ueIntegrity env ?file"
    using assms by (auto simp: cacheOk_def split: option.splits)
  have "cacheOk env (jset ?file (ueIntegrity env ?file) cache)" using assms by (auto simp: cacheOk_def update_conv')
  then show ?thesis
    using assms unfolding Pair localTarballUpToDate_def tarballUnchanged_def prod.case Let_def i
    by (auto split: option.splits sum.splits)
qed

definition snapshotTarballsUnchanged :: "upToDateEnv \<Rightarrow> packageSnapshots option \<Rightarrow> str \<Rightarrow> projectSnapshot \<Rightarrow> bool" where
  "snapshotTarballsUnchanged env pkgs lockfileDir snapshot \<longleftrightarrow>
     list_all (\<lambda>f. list_all (tarballUnchanged env pkgs lockfileDir) (orEmpty (projectField f snapshot))) DEPENDENCIES_FIELDS"

lemma localTarballDeps_spec:
  assumes "cacheOk env cache"
  shows "fst (localTarballDepsAreUpToDate env pkgs dir snapshot cache) = snapshotTarballsUnchanged env pkgs dir snapshot \<and>
    cacheOk env (snd (localTarballDepsAreUpToDate env pkgs dir snapshot cache))"
  unfolding localTarballDepsAreUpToDate_def snapshotTarballsUnchanged_def
proof (rule everyFold_inv [where ok = "cacheOk env", OF _ assms])
  fix f and s assume s: "cacheOk env s"
  show "fst ((case projectField f snapshot of None \<Rightarrow> Pair True
         | Some lockfileDeps \<Rightarrow> everyFold (localTarballUpToDate env pkgs dir) lockfileDeps) s) =
      list_all (tarballUnchanged env pkgs dir) (orEmpty (projectField f snapshot)) \<and>
    cacheOk env (snd ((case projectField f snapshot of None \<Rightarrow> Pair True
         | Some lockfileDeps \<Rightarrow> everyFold (localTarballUpToDate env pkgs dir) lockfileDeps) s))"
    using s everyFold_inv [of "cacheOk env" "localTarballUpToDate env pkgs dir", OF localTarballUpToDate_spec s]
    by (cases "projectField f snapshot") auto
qed

text \<open>The same test of a project without a cache.\<close>

definition projectIsCurrent :: "upToDateEnv \<Rightarrow> upToDateOptions \<Rightarrow> projectToCheck \<Rightarrow> js_error + bool" where
  "projectIsCurrent env opts project =
     (let lockfile = uoWantedLockfile opts in
      case map_of (importers lockfile) (pcId project) of
        None \<Rightarrow> Inr (list_all (\<lambda>f. orEmpty (manifestField f (pcManifest project)) = []) DEPENDENCIES_FIELDS)
      | Some importer \<Rightarrow>
          if satisfiesPackageManifest (uoImporterOptions opts) (Some importer) (pcManifest project) = None \<and>
            snapshotTarballsUnchanged env (packages lockfile) (uoLockfileDir opts) importer
          then linkedPackagesAreUpToDate env
                 \<lparr>lcLinkWorkspacePackages = uoLinkWorkspacePackages opts,
                  lcManifestsByDir = (case uoWorkspacePackages opts of None \<Rightarrow> [] | Some w \<Rightarrow> getWorkspacePackagesByDirectory w),
                  lcWorkspacePackages = uoWorkspacePackages opts, lcLockfilePackages = packages lockfile,
                  lcLockfileDir = uoLockfileDir opts\<rparr> (pcRootDir project) (pcManifest project) importer
          else Inr False)"

lemma projectIsUpToDate_current:
  assumes "cacheOk env cache"
  shows "case projectIsUpToDate env opts project cache of
      Inl e \<Rightarrow> projectIsCurrent env opts project = Inl e
    | Inr (b, cache') \<Rightarrow> projectIsCurrent env opts project = Inr b \<and> cacheOk env cache'"
proof (cases "map_of (importers (uoWantedLockfile opts)) (pcId project)")
  case None
  then show ?thesis using assms by (simp add: projectIsUpToDate_def projectIsCurrent_def)
next
  case (Some importer)
  obtain b cache' where b: "localTarballDepsAreUpToDate env (packages (uoWantedLockfile opts)) (uoLockfileDir opts) importer cache =
      (b, cache')" by (rule prod.exhaust)
  with localTarballDeps_spec [OF assms, of "packages (uoWantedLockfile opts)" "uoLockfileDir opts" importer]
  have "b = snapshotTarballsUnchanged env (packages (uoWantedLockfile opts)) (uoLockfileDir opts) importer" "cacheOk env cache'"
    by simp_all
  then show ?thesis
    using assms unfolding projectIsUpToDate_def projectIsCurrent_def Let_def Some option.case b prod.case
    by (auto simp: sbind_def split: sum.splits bool.splits)
qed


text \<open>A local directory whose package has a peer is never up to date: the lockfile has the range of the peer, which is
  no version that could satisfy it.\<close>

lemma local_directory_with_peers:
  assumes "pkgResolution p = Some (DirectoryResolution dir)" "ueReadManifest env (ueJoin env lockfileDir dir) = Inr (Some m)"
    and "mPeerDependencies m = Some [(''react'', ''^18.0.0'')]" "peerDependencies p = Some [(''react'', ''^18.0.0'')]"
    and "\<not> ueSatisfiesLoose env ''^18.0.0'' ''^18.0.0''"
  shows "isLocalFileDepUpdated env lockfileDir (Some p) = Inr False"
proof -
  have "getVersionRange ''^18.0.0'' = ''^18.0.0''" by (simp add: getVersionRange_def startsWith_def)
  then have "\<not> localFieldMatches env m p PeerDependencies"
    using assms(3-5) by (simp add: localFieldMatches_def localDepMatches_def startsWith_def)
  moreover have "PeerDependencies \<in> set (filter (\<lambda>f. f \<noteq> DepField DevDependencies) DEPENDENCIES_OR_PEER_FIELDS)"
    by (simp add: DEPENDENCIES_OR_PEER_FIELDS_def)
  ultimately have "\<not> list_all (localFieldMatches env m p) (filter (\<lambda>f. f \<noteq> DepField DevDependencies) DEPENDENCIES_OR_PEER_FIELDS)"
    unfolding list_all_iff by blast
  then show ?thesis using assms(1,2) by (simp add: isLocalFileDepUpdated_def)
qed

end
