(* ===== verification/CalcDepState.thy ===== *)
theory CalcDepState
  imports LockfileTypes JsSort
begin

text \<open>
  packages/calc-dep-state/src/index.ts: the key under which the side effects of a build are cached. It holds the name of
  the engine, a hash of the state of the dependencies and the hash of a patch. The state of a package is the tree of the
  ids below it; it is computed with a cache, which is part of the state, and with the set of ids on the way from the
  root, which cuts cycles. The hash (\<open>hashObjectWithoutSorting\<close>), the comparison of keys and the name of the engine are
  parameters. The section on refinement shows that without cycles the cached computation is the plain unfolding of the
  graph.
\<close>

section \<open>The definitions\<close>

datatype depState = DepState "(str \<times> depState) list"

record depsGraphNode =
  dgChildren :: "str obj"
  dgPkgIdWithPatchHash :: str

type_synonym depsGraph = "depsGraphNode obj"
type_synonym depsStateCache = "depState obj"

definition sortDirectKeys :: "(str \<Rightarrow> str \<Rightarrow> int) \<Rightarrow> (str \<times> 'a) list \<Rightarrow> (str \<times> 'a) list" where
  "sortDirectKeys lexCompare obj = jsSort (\<lambda>a b. lexCompare (fst a) (fst b)) obj"

function calcDepStateObj ::
    "(str \<Rightarrow> str \<Rightarrow> int) \<Rightarrow> depsGraph \<Rightarrow> str \<Rightarrow> depsStateCache \<Rightarrow> str list \<Rightarrow> depState \<times> depsStateCache"
  and calcChildStates ::
    "(str \<Rightarrow> str \<Rightarrow> int) \<Rightarrow> depsGraph \<Rightarrow> str list \<Rightarrow> depsStateCache \<Rightarrow> str list \<Rightarrow> str list \<Rightarrow> (str \<times> depState) list \<Rightarrow>
     (str \<times> depState) list \<times> depsStateCache" where
  "calcDepStateObj lexCompare depsGraph depPath cache parents =
     (case map_of cache depPath of
        Some state \<Rightarrow> (state, cache)
      | None \<Rightarrow>
         (case map_of depsGraph depPath of
            None \<Rightarrow> (DepState [], cache)
          | Some node \<Rightarrow>
              (case calcChildStates lexCompare depsGraph (vals (dgChildren node)) cache parents
                   (sadd (dgPkgIdWithPatchHash node) parents) [] of
                 (state, cache') \<Rightarrow>
                   let sorted = DepState (sortDirectKeys lexCompare state) in (sorted, jset depPath sorted cache'))))"
| "calcChildStates lexCompare depsGraph [] cache parents nextParents state = (state, cache)"
| "calcChildStates lexCompare depsGraph (childId # childIds) cache parents nextParents state =
     (case map_of depsGraph childId of
        None \<Rightarrow> calcChildStates lexCompare depsGraph childIds cache parents nextParents state
      | Some child \<Rightarrow>
          if dgPkgIdWithPatchHash child \<in> set parents
          then calcChildStates lexCompare depsGraph childIds cache parents nextParents
                 (jset (dgPkgIdWithPatchHash child) (DepState []) state)
          else (case calcDepStateObj lexCompare depsGraph childId cache nextParents of
                 (childState, cache') \<Rightarrow> calcChildStates lexCompare depsGraph childIds cache' parents nextParents
                   (jset (dgPkgIdWithPatchHash child) childState state)))"
  by pat_completeness auto

text \<open>A call for a package whose id is not on the way yet lengthens the way; one whose id is (its parent has the same
  id) only calls packages whose ids are not.\<close>

definition idsOf :: "depsGraph \<Rightarrow> str set" where
  "idsOf g = dgPkgIdWithPatchHash ` set (vals g)"

definition callMeasure :: "depsGraph \<Rightarrow> str \<Rightarrow> str list \<Rightarrow> nat" where
  "callMeasure g d P = 2 * card (idsOf g - set P) +
     (case map_of g d of None \<Rightarrow> 0 | Some node \<Rightarrow> if dgPkgIdWithPatchHash node \<in> set P then 1 else 0)"

definition loopMeasure :: "depsGraph \<Rightarrow> str list \<Rightarrow> str list \<Rightarrow> nat" where
  "loopMeasure g P NP = 2 * card (idsOf g - set NP) + (if set NP \<subseteq> set P then 1 else 2)"

lemma idsOf_finite [simp]: "finite (idsOf g)"
  by (simp add: idsOf_def)

lemma in_idsOf: "map_of g d = Some node \<Longrightarrow> dgPkgIdWithPatchHash node \<in> idsOf g"
  unfolding idsOf_def by (metis image_eqI map_of_SomeD set_map snd_conv)

lemma loopMeasure_call:
  assumes "map_of g d = Some node"
  shows "loopMeasure g P (sadd (dgPkgIdWithPatchHash node) P) \<le> callMeasure g d P"
proof (cases "dgPkgIdWithPatchHash node \<in> set P")
  case True
  then have "sadd (dgPkgIdWithPatchHash node) P = P" by (simp add: sadd_def)
  then show ?thesis using True assms by (simp add: loopMeasure_def callMeasure_def)
next
  case False
  let ?a = "dgPkgIdWithPatchHash node"
  have "idsOf g - set (sadd ?a P) = (idsOf g - set P) - {?a}" by auto
  moreover have "?a \<in> idsOf g - set P" using False in_idsOf [OF assms] by simp
  ultimately have "card (idsOf g - set P) = Suc (card (idsOf g - set (sadd ?a P)))"
    by (metis card.remove finite_Diff idsOf_finite)
  then show ?thesis using False assms by (auto simp: loopMeasure_def callMeasure_def)
qed

lemma callMeasure_child:
  assumes "map_of g c = Some child" "dgPkgIdWithPatchHash child \<notin> set P"
  shows "callMeasure g c NP < loopMeasure g P NP"
  using assms by (auto simp: callMeasure_def loopMeasure_def)

termination calcDepStateObj
proof (relation "measures
    [\<lambda>x. case x of Inl (_, g, d, _, P) \<Rightarrow> callMeasure g d P | Inr (_, g, _, _, P, NP, _) \<Rightarrow> loopMeasure g P NP,
     \<lambda>x. case x of Inl (_, g, d, _, _) \<Rightarrow> Suc (length (dgChildren (the (map_of g d)))) | Inr (_, _, cs, _) \<Rightarrow> length cs]",
    goal_cases)
  case (2 lc g d cache P node)
  then show ?case using loopMeasure_call [of g d node P] by auto
qed (auto dest: callMeasure_child)

declare calcDepStateObj.simps [simp del] calcChildStates.simps [simp del]

text \<open>The key of a package; \<open>engineName\<close> is \<open>ENGINE_NAME\<close>.\<close>

record calcOptions =
  coPatchFileHash :: "str option"
  coIsBuilt :: bool

definition calcDepState ::
    "(str \<Rightarrow> str \<Rightarrow> int) \<Rightarrow> (depState \<Rightarrow> str) \<Rightarrow> str \<Rightarrow> depsGraph \<Rightarrow> str \<Rightarrow> calcOptions \<Rightarrow> depsStateCache \<Rightarrow>
     str \<times> depsStateCache" where
  "calcDepState lexCompare hashObject engineName depsGraph depPath opts cache =
     (let (deps, cache') = (if coIsBuilt opts
            then (case calcDepStateObj lexCompare depsGraph depPath cache [] of
                (depStateObj, cache') \<Rightarrow> ('';deps='' @ hashObject depStateObj, cache'))
            else ([], cache));
          patch = (if truthy (coPatchFileHash opts) then '';patch='' @ the (coPatchFileHash opts) else [])
      in (engineName @ deps @ patch, cache'))"

definition lockfileDepsToGraphChildren :: "deps \<Rightarrow> str obj" where
  "lockfileDepsToGraphChildren ds =
     fold (\<lambda>(alias, reference) children. case refToRelative reference alias of
         None \<Rightarrow> children
       | Some depPath \<Rightarrow> if depPath = [] then children else jset alias depPath children) ds []"

definition lockfileToDepGraph :: "lockfileObject \<Rightarrow> depsGraph" where
  "lockfileToDepGraph lockfile =
     fold (\<lambda>(depPath, pkgSnapshot). jset depPath
         \<lparr>dgChildren = lockfileDepsToGraphChildren
            (spread (orEmpty (dependencies pkgSnapshot)) (orEmpty (optionalDependencies pkgSnapshot))),
          dgPkgIdWithPatchHash = getPkgIdWithPatchHash depPath\<rparr>) (orEmpty (packages lockfile)) []"

section \<open>The state of a package as a specification\<close>

text \<open>The tree of ids below a package, without a cache and without a way.\<close>

inductive stateOf :: "(str \<Rightarrow> str \<Rightarrow> int) \<Rightarrow> depsGraph \<Rightarrow> str \<Rightarrow> depState \<Rightarrow> bool"
  and childStatesOf :: "(str \<Rightarrow> str \<Rightarrow> int) \<Rightarrow> depsGraph \<Rightarrow> str list \<Rightarrow> (str \<times> depState) list \<Rightarrow> (str \<times> depState) list \<Rightarrow> bool"
  for lc :: "str \<Rightarrow> str \<Rightarrow> int" and g :: depsGraph where
  missing: "map_of g d = None \<Longrightarrow> stateOf lc g d (DepState [])"
| node: "map_of g d = Some node \<Longrightarrow> childStatesOf lc g (vals (dgChildren node)) [] state \<Longrightarrow>
    stateOf lc g d (DepState (sortDirectKeys lc state))"
| nil: "childStatesOf lc g [] state state"
| skip: "map_of g c = None \<Longrightarrow> childStatesOf lc g cs state state' \<Longrightarrow> childStatesOf lc g (c # cs) state state'"
| child: "map_of g c = Some n \<Longrightarrow> stateOf lc g c s \<Longrightarrow>
    childStatesOf lc g cs (jset (dgPkgIdWithPatchHash n) s state) state' \<Longrightarrow> childStatesOf lc g (c # cs) state state'"

inductive_cases stateOfE: "stateOf lc g d s"
inductive_cases childStatesNilE: "childStatesOf lc g [] state state'"
inductive_cases childStatesConsE: "childStatesOf lc g (c # cs) state state'"

lemma stateOf_unique:
  "stateOf lc g d s \<Longrightarrow> stateOf lc g d s' \<Longrightarrow> s' = s"
  "childStatesOf lc g cs st t \<Longrightarrow> childStatesOf lc g cs st t' \<Longrightarrow> t' = t"
proof (induction arbitrary: s' and t' rule: stateOf_childStatesOf.inducts)
  case (missing d)
  from missing.prems show ?case by (rule stateOfE) (simp_all add: missing(1))
next
  case (node d n state)
  from node.prems show ?case
  proof (rule stateOfE)
    fix n' state'
    assume "s' = DepState (sortDirectKeys lc state')" "map_of g d = Some n'"
      "childStatesOf lc g (vals (dgChildren n')) [] state'"
    then show ?thesis using node(1) node.IH by simp
  qed (simp add: node(1))
next
  case (nil state)
  from nil.prems show ?case by (rule childStatesNilE)
next
  case (skip c cs state state')
  from skip.prems show ?case
  proof (rule childStatesConsE)
    assume "childStatesOf lc g cs state t'"
    then show ?thesis by (rule skip.IH)
  qed (simp add: skip(1))
next
  case (child c n s cs state state')
  from child.prems show ?case
  proof (rule childStatesConsE)
    fix n' s' assume "map_of g c = Some n'" "stateOf lc g c s'" "childStatesOf lc g cs (jset (dgPkgIdWithPatchHash n') s' state) t'"
    then show ?thesis using child(1) child.IH by simp
  qed (simp add: child(1))
qed

section \<open>Refinement\<close>

text \<open>No package depends on its own id: the ids fall along the edges by some rank. A cache is valid when it holds
  the states of the packages.\<close>

definition fallingIds :: "(str \<Rightarrow> nat) \<Rightarrow> depsGraph \<Rightarrow> bool" where
  "fallingIds rank g \<longleftrightarrow> list_all (\<lambda>(_, node). list_all (\<lambda>c. case map_of g c of None \<Rightarrow> True
     | Some child \<Rightarrow> rank (dgPkgIdWithPatchHash child) < rank (dgPkgIdWithPatchHash node)) (vals (dgChildren node))) g"

definition validCache :: "(str \<Rightarrow> str \<Rightarrow> int) \<Rightarrow> depsGraph \<Rightarrow> depsStateCache \<Rightarrow> bool" where
  "validCache lc g cache \<longleftrightarrow> (\<forall>d s. map_of cache d = Some s \<longrightarrow> stateOf lc g d s)"

definition below :: "(str \<Rightarrow> nat) \<Rightarrow> depsGraph \<Rightarrow> str \<Rightarrow> str list \<Rightarrow> bool" where
  "below rank g d P \<longleftrightarrow> (\<forall>node. map_of g d = Some node \<longrightarrow> (\<forall>p \<in> set P. rank (dgPkgIdWithPatchHash node) < rank p))"

lemma fallingIds_child:
  assumes "fallingIds rank g" "map_of g d = Some node" "c \<in> set (vals (dgChildren node))" "below rank g d P"
  shows "below rank g c (sadd (dgPkgIdWithPatchHash node) P)" "below rank g c P"
proof -
  have "(d, node) \<in> set g" using assms(2) by (rule map_of_SomeD)
  then have r: "rank (dgPkgIdWithPatchHash child) < rank (dgPkgIdWithPatchHash node)" if "map_of g c = Some child" for child
    using assms(1,3) that by (fastforce simp: fallingIds_def list_all_iff)
  then show "below rank g c (sadd (dgPkgIdWithPatchHash node) P)" "below rank g c P"
    using assms(2,4) unfolding below_def by (auto intro: less_trans)
qed

lemma calcDepStateObj_refines:
  assumes "fallingIds rank g"
  shows "\<lbrakk>calcDepStateObj lc g d cache P = (s, cache'); validCache lc g cache; below rank g d P\<rbrakk> \<Longrightarrow>
      stateOf lc g d s \<and> validCache lc g cache'"
    and "\<lbrakk>calcChildStates lc g cs cache P NP st = (st', cache'); validCache lc g cache;
        \<forall>c \<in> set cs. below rank g c P \<and> below rank g c NP\<rbrakk> \<Longrightarrow> childStatesOf lc g cs st st' \<and> validCache lc g cache'"
  using assms
proof (induction lc g d cache P and lc g cs cache P NP st arbitrary: s cache' and st' cache'
    rule: calcDepStateObj_calcChildStates.induct)
  case (1 lc g d cache P)
  show ?case
  proof (cases "map_of cache d")
    case (Some s0)
    then show ?thesis using "1.prems" by (auto simp: calcDepStateObj.simps [of lc g d] validCache_def)
  next
    case nc: None
    show ?thesis
    proof (cases "map_of g d")
      case None
      then show ?thesis using nc "1.prems" by (auto simp: calcDepStateObj.simps [of lc g d] intro: missing)
    next
      case (Some node)
      obtain st c1 where c: "calcChildStates lc g (vals (dgChildren node)) cache P
          (sadd (dgPkgIdWithPatchHash node) P) [] = (st, c1)" by (rule prod.exhaust)
      have r: "s = DepState (sortDirectKeys lc st)" "cache' = jset d s c1"
        using "1.prems"(1) by (auto simp: calcDepStateObj.simps [of lc g d] nc Some c Let_def)
      have "childStatesOf lc g (vals (dgChildren node)) [] st \<and> validCache lc g c1"
        using "1.IH" [OF nc Some c "1.prems"(2)] fallingIds_child [OF "1.prems"(4) Some _ "1.prems"(3)] "1.prems"(4) by blast
      then show ?thesis unfolding r(2) r(1) using node [OF Some] by (auto simp: validCache_def update_conv')
    qed
  qed
next
  case (2 lc g cache P NP st)
  then show ?case by (auto simp: calcChildStates.simps intro: nil)
next
  case (3 lc g c cs cache P NP st)
  show ?case
  proof (cases "map_of g c")
    case None
    then show ?thesis using 3 by (auto simp: calcChildStates.simps(2) [of lc g c] intro: skip)
  next
    case (Some n)
    let ?id = "dgPkgIdWithPatchHash n"
    have n: "?id \<notin> set P" using "3.prems"(3) Some by (auto simp: below_def)
    obtain s c1 where s: "calcDepStateObj lc g c cache NP = (s, c1)" by (rule prod.exhaust)
    have rest: "calcChildStates lc g cs c1 P NP (jset ?id s st) = (st', cache')"
      using "3.prems"(1) by (simp add: calcChildStates.simps(2) [of lc g c] Some n s)
    have "stateOf lc g c s \<and> validCache lc g c1"
      using "3.IH"(3) [OF Some n s] "3.prems"(2-4) by simp
    then show ?thesis
      using "3.IH"(4) [OF Some n s [symmetric] rest _ _ "3.prems"(4)] "3.prems"(3) child [OF Some] by auto
  qed
qed

text \<open>The keys of a list of packages, computed one after another with one cache.\<close>

definition calcDepStates ::
    "(str \<Rightarrow> str \<Rightarrow> int) \<Rightarrow> (depState \<Rightarrow> str) \<Rightarrow> str \<Rightarrow> depsGraph \<Rightarrow> (str \<times> calcOptions) list \<Rightarrow> str list" where
  "calcDepStates lc hash engine g requests =
     fst (fold (\<lambda>(d, opts) (results, cache). case calcDepState lc hash engine g d opts cache of
         (result, cache') \<Rightarrow> (results @ [result], cache')) requests ([], []))"

text \<open>The key as a specification: what the state of the package gives.\<close>

definition keyOf :: "(depState \<Rightarrow> str) \<Rightarrow> str \<Rightarrow> calcOptions \<Rightarrow> depState \<Rightarrow> str" where
  "keyOf hash engine opts s = engine @ (if coIsBuilt opts then '';deps='' @ hash s else []) @
     (if truthy (coPatchFileHash opts) then '';patch='' @ the (coPatchFileHash opts) else [])"

lemma calcDepState_key:
  assumes "fallingIds rank g" "validCache lc g cache" "calcDepState lc hash engine g d opts cache = (r, cache')"
  shows "validCache lc g cache'" and "coIsBuilt opts \<Longrightarrow> \<exists>s. stateOf lc g d s \<and> r = keyOf hash engine opts s"
    and "\<not> coIsBuilt opts \<Longrightarrow> r = keyOf hash engine opts s"
proof -
  obtain s0 c1 where s: "calcDepStateObj lc g d cache [] = (s0, c1)" by (rule prod.exhaust)
  have "stateOf lc g d s0 \<and> validCache lc g c1"
    by (rule calcDepStateObj_refines(1) [OF assms(1) s assms(2)]) (simp add: below_def)
  then show "validCache lc g cache'" "coIsBuilt opts \<Longrightarrow> \<exists>s. stateOf lc g d s \<and> r = keyOf hash engine opts s"
    "\<not> coIsBuilt opts \<Longrightarrow> r = keyOf hash engine opts s"
    using assms(2,3) by (auto simp: calcDepState_def keyOf_def s Let_def split: if_splits)
qed

lemma stateOf_total:
  assumes "fallingIds rank g"
  shows "\<exists>s. stateOf lc g d s"
proof -
  obtain s c1 where s: "calcDepStateObj lc g d [] [] = (s, c1)" by (rule prod.exhaust)
  have "stateOf lc g d s \<and> validCache lc g c1"
    by (rule calcDepStateObj_refines(1) [OF assms s]) (simp_all add: below_def validCache_def)
  then show ?thesis by blast
qed

text \<open>C15. The keys of packages are computed with a cache that all the computations share, and with the ids on the way
  from the root, which cut cycles. When no package depends on its own id, this refines the plain specification: every
  package has exactly one state, the tree of the ids below it, and each key is made from that state, whichever packages
  were asked for before.\<close>

theorem calcDepStates_refine:
  assumes "fallingIds rank g"
  shows "(\<forall>d. \<exists>!s. stateOf lc g d s) \<and>
    list_all2 (\<lambda>(d, opts) key. \<exists>s. stateOf lc g d s \<and> key = keyOf hash engine opts s) requests
      (calcDepStates lc hash engine g requests)"
proof -
  have u: "\<exists>!s. stateOf lc g d s" for d using stateOf_total [OF assms] stateOf_unique(1) by blast
  let ?ok = "\<lambda>(d, opts) key. \<exists>s. stateOf lc g d s \<and> key = keyOf hash engine opts s"
  let ?step = "\<lambda>(d, opts) (results, cache). case calcDepState lc hash engine g d opts cache of
         (result, cache') \<Rightarrow> (results @ [result], cache')"
  have "validCache lc g cache \<Longrightarrow> \<exists>rs'. fst (fold ?step requests (rs, cache)) = rs @ rs' \<and> list_all2 ?ok requests rs'" for rs cache
  proof (induction requests arbitrary: rs cache)
    case (Cons x xs)
    obtain d opts where x: "x = (d, opts)" by (cases x)
    obtain r c1 where r: "calcDepState lc hash engine g d opts cache = (r, c1)" by (rule prod.exhaust)
    note k = calcDepState_key [OF assms Cons.prems r]
    have "\<exists>s. stateOf lc g d s \<and> r = keyOf hash engine opts s"
      using k(2,3) u [of d] by (cases "coIsBuilt opts") blast+
    moreover obtain rs' where "fst (fold ?step xs (rs @ [r], c1)) = (rs @ [r]) @ rs'" "list_all2 ?ok xs rs'"
      using Cons.IH [OF k(1)] by blast
    ultimately show ?case by (intro exI [of _ "r # rs'"]) (simp add: x r)
  qed simp
  from this [of "[]" "[]"] u show ?thesis by (auto simp: calcDepStates_def validCache_def)
qed

definition diamondGraph :: depsGraph where
  "diamondGraph = [(''a'', \<lparr>dgChildren = [(''b'', ''b''), (''c'', ''c'')], dgPkgIdWithPatchHash = ''a''\<rparr>),
     (''b'', \<lparr>dgChildren = [(''d'', ''d'')], dgPkgIdWithPatchHash = ''b''\<rparr>),
     (''c'', \<lparr>dgChildren = [(''d'', ''d'')], dgPkgIdWithPatchHash = ''c''\<rparr>),
     (''d'', \<lparr>dgChildren = [], dgPkgIdWithPatchHash = ''d''\<rparr>)]"

theorem calcDepStates_refine_witness:
  "\<exists>!s. stateOf (\<lambda>_ _. 0) diamondGraph ''a'' s"
  using calcDepStates_refine [of "\<lambda>s. if s = ''a'' then 2 else if s = ''d'' then 0 else 1" diamondGraph
      "\<lambda>_ _. 0" "\<lambda>_. []" "[]" "[]"]
  by (simp add: fallingIds_def diamondGraph_def)

text \<open>In a cycle the state depends on the order: \<open>b\<close> has another key when \<open>a\<close> was asked for first.\<close>

definition cyclicGraph :: depsGraph where
  "cyclicGraph = [(''a'', \<lparr>dgChildren = [(''b'', ''b'')], dgPkgIdWithPatchHash = ''a''\<rparr>),
     (''b'', \<lparr>dgChildren = [(''a'', ''a'')], dgPkgIdWithPatchHash = ''b''\<rparr>)]"

lemma cyclic_state_depends_on_order:
  "fst (calcDepStateObj lc cyclicGraph ''b'' [] []) = DepState [(''a'', DepState [(''b'', DepState [])])]"
  "fst (calcDepStateObj lc cyclicGraph ''b'' (snd (calcDepStateObj lc cyclicGraph ''a'' [] [])) []) =
     DepState [(''a'', DepState [])]"
  by (simp_all add: cyclicGraph_def calcDepStateObj.simps calcChildStates.simps sadd_def sortDirectKeys_def jsSort_def Let_def)

end
