(* ===== verification/DependencyTree.thy ===== *)
theory DependencyTree
  imports Prelude
begin

text \<open>
  pkg-manager/resolve-dependencies/src: the tree of dependencies that the peers are resolved in (resolveDependencyTree.ts:
  \<open>buildTree\<close>, the pending nodes and \<open>dedupeSameAliasDirectDeps\<close>; parentIdsContainSequence.ts, nextNodeId.ts). The
  packages form a graph, which may have cycles; the tree is unfolded from it node by node. The children of a node are a
  closure that is called when they are needed: the model keeps its arguments as a record. The closures of one call share
  the variable \<open>installable\<close>, so they see its last value.
\<close>

section \<open>Sequences of ids\<close>

definition listIndexOf :: "'a list \<Rightarrow> 'a \<Rightarrow> int" where
  "listIndexOf xs x = (if x \<in> set xs then int (length (takeWhile (\<lambda>y. y \<noteq> x) xs)) else - 1)"

definition listLastIndexOf :: "'a list \<Rightarrow> 'a \<Rightarrow> int" where
  "listLastIndexOf xs x = (if x \<in> set xs then int (length xs) - 1 - listIndexOf (rev xs) x else - 1)"

definition parentIdsContainSequence :: "str list \<Rightarrow> str \<Rightarrow> str \<Rightarrow> bool" where
  "parentIdsContainSequence pkgIds pkgId1 pkgId2 =
     (let pkg1Index = listIndexOf pkgIds pkgId1; last = int (length pkgIds) - 1 in
      if pkg1Index = - 1 \<or> pkg1Index = last then False
      else let pkg2Index = listLastIndexOf pkgIds pkgId2 in pkg1Index < pkg2Index \<and> pkg2Index \<noteq> last)"

section \<open>The tree\<close>

datatype nodeId = StrId str | NumId nat

record treeThunk =
  ttParentId :: str
  ttParentIds :: "str list"
  ttDepth :: int
  ttInstallable :: bool

record treeNode =
  tnChildren :: "treeThunk + nodeId obj"
  tnDepth :: int
  tnInstallable :: bool
  tnPkgId :: str

record treeState =
  tsCounter :: nat
  tsTree :: "(nodeId \<times> treeNode) list"

text \<open>The children of each package, whether a resolved package is a leaf, and the packages to skip.\<close>

record treeCtx =
  tcChildrenByParentId :: "(str \<times> str) list obj"
  tcIsLeaf :: "bool obj"
  tcSkipped :: "str list"

record treeLoop =
  tlInstallable :: bool
  tlChildrenNodeIds :: "nodeId obj"
  tlNew :: "(nodeId \<times> treeNode) list"
  tlCounter :: nat

definition addTreeChild :: "treeCtx \<Rightarrow> treeThunk \<Rightarrow> str \<times> str \<Rightarrow> treeLoop \<Rightarrow> js_error + treeLoop" where
  "addTreeChild ctx t child l =
     (case child of (alias, childId) \<Rightarrow>
        if startsWith childId ''link:''
        then Inr (l\<lparr>tlChildrenNodeIds := jset alias (StrId childId) (tlChildrenNodeIds l)\<rparr>)
        else if parentIdsContainSequence (ttParentIds t) (ttParentId t) childId \<or> ttParentId t = childId then Inr l
        else (case map_of (tcIsLeaf ctx) childId of
            None \<Rightarrow> Inl (TypeError ''isLeaf'')
          | Some True \<Rightarrow> Inr (l\<lparr>tlChildrenNodeIds := jset alias (StrId childId) (tlChildrenNodeIds l)\<rparr>)
          | Some False \<Rightarrow>
              let childNodeId = NumId (Suc (tlCounter l));
                  installable = (tlInstallable l \<or> childId \<notin> set (tcSkipped ctx))
              in Inr \<lparr>tlInstallable = installable,
                  tlChildrenNodeIds = jset alias childNodeId (tlChildrenNodeIds l),
                  tlNew = tlNew l @ [(childNodeId, \<lparr>
                    tnChildren = Inl \<lparr>ttParentId = childId, ttParentIds = ttParentIds t @ [childId],
                      ttDepth = ttDepth t + 1, ttInstallable = installable\<rparr>,
                    tnDepth = ttDepth t, tnInstallable = installable, tnPkgId = childId\<rparr>)],
                  tlCounter = Suc (tlCounter l)\<rparr>))"

definition shareInstallable :: "bool \<Rightarrow> treeNode \<Rightarrow> treeNode" where
  "shareInstallable installable n = n\<lparr>tnChildren := (case tnChildren n of
     Inl t \<Rightarrow> Inl (t\<lparr>ttInstallable := installable\<rparr>) | Inr m \<Rightarrow> Inr m)\<rparr>"

definition buildTree :: "treeCtx \<Rightarrow> treeThunk \<Rightarrow> treeState \<Rightarrow> js_error + nodeId obj \<times> treeState" where
  "buildTree ctx t st =
     (case map_of (tcChildrenByParentId ctx) (ttParentId t) of
        None \<Rightarrow> Inl (TypeError ''children is not iterable'')
      | Some children \<Rightarrow>
          sbind (sfold (addTreeChild ctx t) children
              \<lparr>tlInstallable = ttInstallable t, tlChildrenNodeIds = [], tlNew = [], tlCounter = tsCounter st\<rparr>)
            (\<lambda>l. Inr (tlChildrenNodeIds l, \<lparr>tsCounter = tlCounter l,
               tsTree = fold (\<lambda>(nodeId, n). jset nodeId (shareInstallable (tlInstallable l) n)) (tlNew l) (tsTree st)\<rparr>)))"

text \<open>\<open>if (typeof node.children === 'function') node.children = node.children()\<close>\<close>

definition forceChildren :: "treeCtx \<Rightarrow> nodeId \<Rightarrow> treeState \<Rightarrow> js_error + nodeId obj \<times> treeState" where
  "forceChildren ctx nodeId st =
     (case map_of (tsTree st) nodeId of
        None \<Rightarrow> Inl (TypeError ''node.children'')
      | Some n \<Rightarrow>
          (case tnChildren n of
             Inr m \<Rightarrow> Inr (m, st)
           | Inl t \<Rightarrow> sbind (buildTree ctx t st) (\<lambda>(m, st').
               Inr (m, st'\<lparr>tsTree := jset nodeId (n\<lparr>tnChildren := Inr m\<rparr>) (tsTree st')\<rparr>))))"

record pendingNode =
  pnNodeId :: nodeId
  pnPkgId :: str
  pnDepth :: int
  pnInstallable :: bool
  pnParentIds :: "str list"

definition addPendingNode :: "pendingNode \<Rightarrow> (nodeId \<times> treeNode) list \<Rightarrow> (nodeId \<times> treeNode) list" where
  "addPendingNode p = jset (pnNodeId p)
     \<lparr>tnChildren = Inl \<lparr>ttParentId = pnPkgId p, ttParentIds = pnParentIds p, ttDepth = pnDepth p + 1,
        ttInstallable = pnInstallable p\<rparr>,
      tnDepth = pnDepth p, tnInstallable = pnInstallable p, tnPkgId = pnPkgId p\<rparr>"

section \<open>Direct dependencies with the same alias\<close>

record directDep =
  ddAlias :: str
  ddNormalizedPref :: "str option"
  ddPkgId :: str

record wantedDep =
  wtAlias :: "str option"
  wtPref :: str
  wtIsNew :: bool

definition addDirectDep :: "wantedDep list \<Rightarrow> directDep \<Rightarrow> directDep obj \<Rightarrow> directDep obj" where
  "addDirectDep wanted d deps =
     (if map_of deps (ddAlias d) = None then jset (ddAlias d) d deps
      else case List.find (\<lambda>w. if truthy (wtAlias w) then wtAlias w = Some (ddAlias d) else Some (wtPref w) = ddNormalizedPref d) wanted of
          Some w \<Rightarrow> if wtIsNew w then jset (ddAlias d) d deps else deps
        | None \<Rightarrow> deps)"

definition dedupeSameAliasDirectDeps :: "directDep list \<Rightarrow> wantedDep list \<Rightarrow> directDep list" where
  "dedupeSameAliasDirectDeps directDeps wanted = vals (fold (addDirectDep wanted) directDeps [])"

section \<open>The whole tree\<close>

text \<open>What forcing one closure gives: the closures of the inner children and the ids of the leaves.\<close>

definition leavesOf :: "nodeId obj \<Rightarrow> str list" where
  "leavesOf m = List.map_filter (\<lambda>(_, n). case n of StrId i \<Rightarrow> if startsWith i ''link:'' then None else Some i | NumId _ \<Rightarrow> None) m"

definition thunksOf :: "(nodeId \<times> treeNode) list \<Rightarrow> treeThunk list" where
  "thunksOf new = List.map_filter (\<lambda>(_, n). case tnChildren n of Inl t \<Rightarrow> Some t | Inr _ \<Rightarrow> None) new"

definition forced :: "treeCtx \<Rightarrow> treeThunk \<Rightarrow> js_error + treeThunk list \<times> str list" where
  "forced ctx t = sbind (buildTree ctx t \<lparr>tsCounter = 0, tsTree = []\<rparr>) (\<lambda>(m, st). Inr (thunksOf (tsTree st), leavesOf m))"

datatype idTree = LeafTree str | NodeTree str "idTree list"

lemma smap_cong [fundef_cong]:
  "xs = ys \<Longrightarrow> (\<And>y. y \<in> set ys \<Longrightarrow> f y = g y) \<Longrightarrow> smap f xs = smap g ys"
proof (induction ys arbitrary: xs)
  case (Cons y ys)
  then have "f y = g y" "smap f ys = smap g ys" by simp_all
  then show ?case using Cons.prems(1) by simp
qed simp

function unfoldTree :: "treeCtx \<Rightarrow> treeThunk \<Rightarrow> js_error + idTree" where
  "unfoldTree ctx t =
     sbind (forced ctx t) (\<lambda>r. sbind (smap (unfoldTree ctx) (fst r))
       (\<lambda>ts. Inr (NodeTree (ttParentId t) (map LeafTree (snd r) @ ts))))"
  by pat_completeness auto

subsection \<open>No sequence of two ids repeats on a way\<close>

lemma listIndexOf_le: "i < length xs \<Longrightarrow> listIndexOf xs (xs ! i) \<le> int i"
proof -
  assume i: "i < length xs"
  have "length (takeWhile (\<lambda>y. y \<noteq> xs ! i) xs) \<le> i"
    by (rule ccontr) (use takeWhile_nth [of i "\<lambda>y. y \<noteq> xs ! i" xs] nth_mem [of i "takeWhile (\<lambda>y. y \<noteq> xs ! i) xs"]
        set_takeWhileD in fastforce)
  with i show ?thesis by (simp add: listIndexOf_def)
qed

lemma listLastIndexOf_ge:
  assumes "i < length xs"
  shows "int i \<le> listLastIndexOf xs (xs ! i)"
proof -
  have "rev xs ! (length xs - 1 - i) = xs ! i" using assms by (simp add: rev_nth)
  then have "listIndexOf (rev xs) (xs ! i) \<le> int (length xs - 1 - i)"
    using listIndexOf_le [of "length xs - 1 - i" "rev xs"] assms by simp
  then show ?thesis using assms by (simp add: listLastIndexOf_def)
qed

lemma listLastIndexOf_last:
  assumes "listLastIndexOf xs x = int (length xs) - 1" "xs \<noteq> []"
  shows "last xs = x"
proof -
  have x: "x \<in> set xs"
  proof (rule ccontr)
    assume "x \<notin> set xs"
    then show False using assms by (simp add: listLastIndexOf_def)
  qed
  then have "listIndexOf (rev xs) x = 0" using assms(1) by (simp add: listLastIndexOf_def)
  then have "takeWhile (\<lambda>y. y \<noteq> x) (rev xs) = []" using x by (simp add: listIndexOf_def)
  then have "hd (rev xs) = x" using assms(2) by (cases "rev xs") (auto split: if_splits)
  then show ?thesis by (simp add: hd_rev)
qed

definition pairsOf :: "'a list \<Rightarrow> ('a \<times> 'a) set" where
  "pairsOf xs = set (zip xs (tl xs))"

lemma pairsOf_append: "xs \<noteq> [] \<Longrightarrow> pairsOf (xs @ [x]) = insert (last xs, x) (pairsOf xs)"
  by (induction xs rule: induct_list012) (auto simp: pairsOf_def)

lemma sequence_contained:
  assumes "(a, c) \<in> pairsOf xs" "xs \<noteq> []" "last xs = a" "c \<noteq> a"
  shows "parentIdsContainSequence xs a c"
proof -
  obtain j where j: "xs ! j = a" "xs ! Suc j = c" "Suc j < length xs"
    using assms(1) by (auto simp: pairsOf_def in_set_zip nth_tl)
  have i1: "listIndexOf xs a \<le> int j" using listIndexOf_le [of j xs] j by simp
  have i2: "int (Suc j) \<le> listLastIndexOf xs c" using listLastIndexOf_ge [of "Suc j" xs] j by simp
  have n: "listLastIndexOf xs c \<noteq> int (length xs) - 1" using listLastIndexOf_last [of xs c] assms by auto
  have a: "listIndexOf xs a \<noteq> - 1" using j by (auto simp: listIndexOf_def)
  show ?thesis using i1 i2 n a j(3) by (simp add: parentIdsContainSequence_def Let_def)
qed

subsection \<open>What one call adds\<close>

definition isCut :: "treeThunk \<Rightarrow> str \<Rightarrow> bool" where
  "isCut t c \<longleftrightarrow> parentIdsContainSequence (ttParentIds t) (ttParentId t) c \<or> ttParentId t = c"

text \<open>The closure of an inner child.\<close>

definition childThunk :: "treeThunk \<Rightarrow> str \<Rightarrow> treeNode \<Rightarrow> bool" where
  "childThunk t c n \<longleftrightarrow> (\<exists>i. tnChildren n = Inl \<lparr>ttParentId = c, ttParentIds = ttParentIds t @ [c], ttDepth = ttDepth t + 1,
     ttInstallable = i\<rparr>)"

lemma addTreeChild_cases:
  assumes "addTreeChild ctx t (alias, c) l = Inr l'"
  obtains "startsWith c ''link:''" "l' = l\<lparr>tlChildrenNodeIds := jset alias (StrId c) (tlChildrenNodeIds l)\<rparr>"
  | "\<not> startsWith c ''link:''" "isCut t c" "l' = l"
  | "\<not> startsWith c ''link:''" "\<not> isCut t c" "map_of (tcIsLeaf ctx) c = Some True"
    "l' = l\<lparr>tlChildrenNodeIds := jset alias (StrId c) (tlChildrenNodeIds l)\<rparr>"
  | n where "\<not> startsWith c ''link:''" "\<not> isCut t c" "map_of (tcIsLeaf ctx) c = Some False" "childThunk t c n"
    "tlChildrenNodeIds l' = jset alias (NumId (Suc (tlCounter l))) (tlChildrenNodeIds l)"
    "tlNew l' = tlNew l @ [(NumId (Suc (tlCounter l)), n)]" "tlCounter l' = Suc (tlCounter l)"
proof (cases "startsWith c ''link:'' \<or> isCut t c \<or> map_of (tcIsLeaf ctx) c = Some True")
  case True
  then show ?thesis using assms that(1,2,3) by (auto simp: addTreeChild_def isCut_def [symmetric] split: if_splits)
next
  case False
  then have "map_of (tcIsLeaf ctx) c = Some False"
    using assms by (auto simp: addTreeChild_def isCut_def [symmetric] split: if_splits option.splits bool.splits)
  then show ?thesis using assms False
    by (intro that(4)) (auto simp: addTreeChild_def isCut_def [symmetric] Let_def childThunk_def)
qed

text \<open>The nodes of one call have numbers of their own.\<close>

definition freshNodes :: "treeLoop \<Rightarrow> bool" where
  "freshNodes l \<longleftrightarrow> distinct (keys (tlNew l)) \<and> (\<forall>k \<in> set (keys (tlNew l)). \<exists>j \<le> tlCounter l. k = NumId j)"

lemma addTreeChild_fresh: "addTreeChild ctx t child l = Inr l' \<Longrightarrow> freshNodes l \<Longrightarrow> freshNodes l'"
proof (cases child)
  case (Pair al c)
  assume a: "addTreeChild ctx t child l = Inr l'" and f: "freshNodes l"
  from a [unfolded Pair] show ?thesis
  proof (cases rule: addTreeChild_cases)
    case (4 n)
    have "\<forall>k \<in> set (keys (tlNew l)). \<exists>j \<le> Suc (tlCounter l). k = NumId j" using f unfolding freshNodes_def by (meson le_SucI)
    moreover have "NumId (Suc (tlCounter l)) \<notin> set (keys (tlNew l))" using f unfolding freshNodes_def by fastforce
    ultimately show ?thesis using f unfolding freshNodes_def 4(6,7) by simp
  qed (use f in \<open>simp_all add: freshNodes_def\<close>)
qed

lemma addTreeChildren_fresh: "sfold (addTreeChild ctx t) cs l = Inr l' \<Longrightarrow> freshNodes l \<Longrightarrow> freshNodes l'"
  by (induction cs arbitrary: l) (auto simp: sbind_Inr_iff intro: addTreeChild_fresh)

lemma addTreeChildren_new:
  assumes "sfold (addTreeChild ctx t) cs l = Inr l'"
  shows "set (tlNew l) \<subseteq> set (tlNew l')"
    and "(k, n) \<in> set (tlNew l') \<Longrightarrow> (k, n) \<in> set (tlNew l) \<or>
      (\<exists>alias c. (alias, c) \<in> set cs \<and> \<not> startsWith c ''link:'' \<and> \<not> isCut t c \<and>
        map_of (tcIsLeaf ctx) c = Some False \<and> childThunk t c n)"
    and "(alias, c) \<in> set cs \<Longrightarrow> \<not> startsWith c ''link:'' \<Longrightarrow> isCut t c \<or> map_of (tcIsLeaf ctx) c = Some True \<or>
      (\<exists>(k, n) \<in> set (tlNew l'). childThunk t c n)"
  using assms
proof (induction cs arbitrary: l)
  case (Cons x cs)
  obtain alias0 c0 where x: "x = (alias0, c0)" by (cases x)
  {
    case 1
    then obtain l1 where l1: "addTreeChild ctx t (alias0, c0) l = Inr l1" "sfold (addTreeChild ctx t) cs l1 = Inr l'"
      by (auto simp: x sbind_Inr_iff)
    from l1(1) have "set (tlNew l) \<subseteq> set (tlNew l1)" by (cases rule: addTreeChild_cases) auto
    then show ?case using Cons.IH(1) [OF l1(2)] by blast
  next
    case 2
    then obtain l1 where l1: "addTreeChild ctx t (alias0, c0) l = Inr l1" "sfold (addTreeChild ctx t) cs l1 = Inr l'"
      by (auto simp: x sbind_Inr_iff)
    from l1(1) have "(k, n) \<in> set (tlNew l1) \<Longrightarrow> (k, n) \<in> set (tlNew l) \<or>
        (\<not> startsWith c0 ''link:'' \<and> \<not> isCut t c0 \<and> map_of (tcIsLeaf ctx) c0 = Some False \<and> childThunk t c0 n)" by (cases rule: addTreeChild_cases) auto
    then show ?case using Cons.IH(2) [OF 2(1) l1(2)] x by auto
  next
    case 3
    then obtain l1 where l1: "addTreeChild ctx t (alias0, c0) l = Inr l1" "sfold (addTreeChild ctx t) cs l1 = Inr l'"
      by (auto simp: x sbind_Inr_iff)
    show ?case
    proof (cases "(alias, c) \<in> set cs")
      case True
      then show ?thesis using Cons.IH(3) [OF True 3(2) l1(2)] by simp
    next
      case False
      then have c: "c0 = c" using 3(1) x by simp
      from l1(1) have "isCut t c \<or> map_of (tcIsLeaf ctx) c = Some True \<or> (\<exists>(k, n) \<in> set (tlNew l1). childThunk t c n)"
        using 3(2) c by (cases rule: addTreeChild_cases) auto
      then show ?thesis using Cons.IH(1) [OF l1(2)] by blast
    qed
  }
qed auto

lemma addTreeChildren_leaves:
  assumes "sfold (addTreeChild ctx t) cs l = Inr l'"
  shows "alias \<notin> set (keys cs) \<Longrightarrow> map_of (tlChildrenNodeIds l') alias = map_of (tlChildrenNodeIds l) alias"
    and "distinct (keys cs) \<Longrightarrow> (alias, c) \<in> set cs \<Longrightarrow> \<not> startsWith c ''link:'' \<Longrightarrow> \<not> isCut t c \<Longrightarrow>
      map_of (tcIsLeaf ctx) c = Some True \<Longrightarrow> map_of (tlChildrenNodeIds l') alias = Some (StrId c)"
  using assms
proof (induction cs arbitrary: l)
  case (Cons x cs)
  obtain alias0 c0 where x: "x = (alias0, c0)" by (cases x)
  {
    case 1
    then obtain l1 where l1: "addTreeChild ctx t (alias0, c0) l = Inr l1" "sfold (addTreeChild ctx t) cs l1 = Inr l'"
      by (auto simp: x sbind_Inr_iff)
    from l1(1) have "map_of (tlChildrenNodeIds l1) alias = map_of (tlChildrenNodeIds l) alias"
      by (cases rule: addTreeChild_cases) (use 1 x in \<open>auto simp: update_conv'\<close>)
    then show ?case using Cons.IH(1) [OF _ l1(2)] 1(1) by simp
  next
    case 2
    then obtain l1 where l1: "addTreeChild ctx t (alias0, c0) l = Inr l1" "sfold (addTreeChild ctx t) cs l1 = Inr l'"
      by (auto simp: x sbind_Inr_iff)
    show ?case
    proof (cases "(alias, c) \<in> set cs")
      case True
      then show ?thesis using Cons.IH(2) [OF _ True 2(3-5) l1(2)] 2(1) by simp
    next
      case False
      then have c: "c0 = c" "alias0 = alias" "alias \<notin> set (keys cs)" using 2(1,2) x by auto
      from l1(1) have "map_of (tlChildrenNodeIds l1) alias = Some (StrId c)"
        by (cases rule: addTreeChild_cases) (use 2 c in \<open>auto simp: update_conv'\<close>)
      then show ?thesis using Cons.IH(1) [OF c(3) l1(2)] by simp
    qed
  }
qed auto

text \<open>The nodes of one call are new, so writing them to the tree keeps each of them.\<close>

definition freeLoop :: "treeThunk \<Rightarrow> treeLoop" where
  "freeLoop t = \<lparr>tlInstallable = ttInstallable t, tlChildrenNodeIds = [], tlNew = [], tlCounter = 0\<rparr>"

lemma keys_share: "keys (map (\<lambda>(k, n). (k, f n)) xs) = keys xs"
  by (induction xs) auto

lemma fold_jset_share:
  assumes "distinct (keys xs)"
  shows "fold (\<lambda>(k, n). jset k (f n)) xs [] = map (\<lambda>(k, n). (k, f n)) xs"
proof -
  have "fold (\<lambda>(k, n). jset k (f n)) xs m = fold (\<lambda>(k, n). jset k n) (map (\<lambda>(k, n). (k, f n)) xs) m" for m
    by (induction xs arbitrary: m) auto
  moreover have "distinct (keys (map (\<lambda>(k, n). (k, f n)) xs))" using assms by (simp only: keys_share)
  ultimately show ?thesis using fold_jset_distinct by metis
qed

lemma forced_loop:
  assumes "forced ctx t = Inr r"
  obtains children l where "map_of (tcChildrenByParentId ctx) (ttParentId t) = Some children"
    "sfold (addTreeChild ctx t) children (freeLoop t) = Inr l"
    "fst r = thunksOf (map (\<lambda>(k, n). (k, shareInstallable (tlInstallable l) n)) (tlNew l))"
    "snd r = leavesOf (tlChildrenNodeIds l)"
proof -
  from assms obtain children l where c: "map_of (tcChildrenByParentId ctx) (ttParentId t) = Some children"
    and l: "sfold (addTreeChild ctx t) children (freeLoop t) = Inr l"
    and r: "r = (thunksOf (fold (\<lambda>(k, n). jset k (shareInstallable (tlInstallable l) n)) (tlNew l) []),
      leavesOf (tlChildrenNodeIds l))"
    by (auto simp: forced_def buildTree_def freeLoop_def sbind_Inr_iff split: option.splits)
  have "freshNodes (freeLoop t)" by (simp add: freshNodes_def freeLoop_def)
  then have "distinct (keys (tlNew l))" using addTreeChildren_fresh [OF l] by (simp add: freshNodes_def)
  then have "fst r = thunksOf (map (\<lambda>(k, n). (k, shareInstallable (tlInstallable l) n)) (tlNew l))"
    using fold_jset_share [of "tlNew l" "shareInstallable (tlInstallable l)"] r by simp
  then show ?thesis using that [OF c l] r by simp
qed

definition childOf :: "treeCtx \<Rightarrow> str \<Rightarrow> str \<Rightarrow> bool" where
  "childOf ctx p c \<longleftrightarrow> (\<exists>children al. map_of (tcChildrenByParentId ctx) p = Some children \<and> (al, c) \<in> set children \<and>
     \<not> startsWith c ''link:'')"

definition thunkFor :: "treeThunk \<Rightarrow> str \<Rightarrow> treeThunk \<Rightarrow> bool" where
  "thunkFor t c t' \<longleftrightarrow> ttParentId t' = c \<and> ttParentIds t' = ttParentIds t @ [c]"

lemma in_thunksOf_share:
  "t' \<in> set (thunksOf (map (\<lambda>(k, n). (k, shareInstallable i n)) xs)) \<longleftrightarrow>
     (\<exists>(k, n) \<in> set xs. \<exists>t. tnChildren n = Inl t \<and> t' = t\<lparr>ttInstallable := i\<rparr>)"
  by (force simp: thunksOf_def map_filter_def shareInstallable_def split: sum.splits)

lemma forced_thunks:
  assumes "forced ctx t = Inr r" "t' \<in> set (fst r)"
  shows "childOf ctx (ttParentId t) (ttParentId t') \<and> \<not> isCut t (ttParentId t') \<and> thunkFor t (ttParentId t') t' \<and>
    map_of (tcIsLeaf ctx) (ttParentId t') = Some False"
proof -
  obtain children l where c: "map_of (tcChildrenByParentId ctx) (ttParentId t) = Some children"
    "sfold (addTreeChild ctx t) children (freeLoop t) = Inr l"
    "fst r = thunksOf (map (\<lambda>(k, n). (k, shareInstallable (tlInstallable l) n)) (tlNew l))"
    using forced_loop [OF assms(1)] by metis
  obtain k n t0 where n: "(k, n) \<in> set (tlNew l)" "tnChildren n = Inl t0" "t' = t0\<lparr>ttInstallable := tlInstallable l\<rparr>"
    using assms(2) unfolding c(3) in_thunksOf_share by blast
  obtain al d where "(al, d) \<in> set children" "\<not> startsWith d ''link:''" "\<not> isCut t d" "childThunk t d n"
    "map_of (tcIsLeaf ctx) d = Some False" using addTreeChildren_new(2) [OF c(2) n(1)] by (auto simp: freeLoop_def)
  then show ?thesis using n c(1) by (auto simp: childOf_def thunkFor_def childThunk_def)
qed

lemma in_leavesOf: "c \<in> set (leavesOf m) \<longleftrightarrow> (\<exists>al. (al, StrId c) \<in> set m) \<and> \<not> startsWith c ''link:''"
  by (induction m) (auto simp: leavesOf_def map_filter_simps split: nodeId.splits option.splits if_splits)

text \<open>Every child that is not cut is a leaf or an inner child.\<close>

lemma forced_keeps:
  assumes "forced ctx t = Inr r" "childOf ctx (ttParentId t) c" "\<not> isCut t c"
    and "\<And>children. map_of (tcChildrenByParentId ctx) (ttParentId t) = Some children \<Longrightarrow> distinct (keys children)"
  shows "c \<in> set (snd r) \<or> (\<exists>t' \<in> set (fst r). ttParentId t' = c)"
proof -
  obtain children l where c: "map_of (tcChildrenByParentId ctx) (ttParentId t) = Some children"
    "sfold (addTreeChild ctx t) children (freeLoop t) = Inr l"
    "fst r = thunksOf (map (\<lambda>(k, n). (k, shareInstallable (tlInstallable l) n)) (tlNew l))"
    "snd r = leavesOf (tlChildrenNodeIds l)"
    using forced_loop [OF assms(1)] by metis
  obtain al where al: "(al, c) \<in> set children" "\<not> startsWith c ''link:''" using assms(2) c(1) by (auto simp: childOf_def)
  show ?thesis
  proof (cases "map_of (tcIsLeaf ctx) c = Some True")
    case True
    then have "map_of (tlChildrenNodeIds l) al = Some (StrId c)"
      using addTreeChildren_leaves(2) [OF c(2) assms(4) [OF c(1)] al assms(3)] by simp
    then show ?thesis using al(2) c(4) map_of_SomeD by (force simp: in_leavesOf)
  next
    case False
    then obtain k n where n: "(k, n) \<in> set (tlNew l)" "childThunk t c n"
      using addTreeChildren_new(3) [OF c(2) al] assms(3) by blast
    then obtain t0 where t0: "tnChildren n = Inl t0" "ttParentId t0 = c" by (auto simp: childThunk_def)
    have "t0\<lparr>ttInstallable := tlInstallable l\<rparr> \<in> set (fst r)" unfolding c(3) in_thunksOf_share using n(1) t0(1) by blast
    then show ?thesis using t0(2) by force
  qed
qed

subsection \<open>The unfolding ends\<close>

definition treeIds :: "treeCtx \<Rightarrow> str list" where
  "treeIds ctx = remdups (keys (tcChildrenByParentId ctx) @ concat (map (map snd \<circ> snd) (tcChildrenByParentId ctx)))"

lemma childOf_ids: "childOf ctx p c \<Longrightarrow> p \<in> set (treeIds ctx) \<and> c \<in> set (treeIds ctx)"
  by (force simp: childOf_def treeIds_def dest: map_of_SomeD)

text \<open>The pairs of ids that have not been on the way yet.\<close>

definition openPairs :: "treeCtx \<Rightarrow> str list \<Rightarrow> (str \<times> str) set" where
  "openPairs ctx ids = set (treeIds ctx) \<times> set (treeIds ctx) - pairsOf ids"

definition treeMeasure :: "treeCtx \<Rightarrow> treeThunk \<Rightarrow> nat" where
  "treeMeasure ctx t = card (openPairs ctx (ttParentIds t)) +
     (if ttParentIds t \<noteq> [] \<and> last (ttParentIds t) = ttParentId t then 0 else 1)"

lemma treeMeasure_le: "treeMeasure ctx t \<le> (length (treeIds ctx))\<^sup>2 + 1"
proof -
  have "card (openPairs ctx (ttParentIds t)) \<le> card (set (treeIds ctx) \<times> set (treeIds ctx))"
    by (rule card_mono) (auto simp: openPairs_def)
  also have "\<dots> \<le> (length (treeIds ctx))\<^sup>2" by (simp add: card_cartesian_product power2_eq_square mult_le_mono card_length)
  finally show ?thesis by (simp add: treeMeasure_def)
qed

lemma pairsOf_mono: "pairsOf xs \<subseteq> pairsOf (xs @ [x])"
  by (cases "xs = []") (auto simp: pairsOf_append, simp add: pairsOf_def)

lemma treeMeasure_child:
  assumes "childOf ctx (ttParentId t) c" "\<not> isCut t c" "thunkFor t c t'"
  shows "treeMeasure ctx t' < treeMeasure ctx t"
proof -
  let ?ids = "ttParentIds t" and ?p = "ttParentId t"
  have t': "ttParentIds t' = ?ids @ [c]" "ttParentId t' = c" using assms(3) by (auto simp: thunkFor_def)
  have fin: "finite (openPairs ctx ?ids)" by (simp add: openPairs_def)
  have sub: "openPairs ctx (?ids @ [c]) \<subseteq> openPairs ctx ?ids" using pairsOf_mono [of ?ids c] by (auto simp: openPairs_def)
  show ?thesis
  proof (cases "?ids \<noteq> [] \<and> last ?ids = ?p")
    case True
    then have "(?p, c) \<notin> pairsOf ?ids" using assms(2) sequence_contained [of ?p c ?ids] by (auto simp: isCut_def)
    then have "(?p, c) \<in> openPairs ctx ?ids" using childOf_ids [OF assms(1)] by (simp add: openPairs_def)
    moreover have "(?p, c) \<notin> openPairs ctx (?ids @ [c])" using True by (simp add: openPairs_def pairsOf_append)
    ultimately have "openPairs ctx (?ids @ [c]) \<subset> openPairs ctx ?ids" using sub by blast
    then show ?thesis using True psubset_card_mono [OF fin] by (simp add: treeMeasure_def t')
  next
    case False
    then show ?thesis using card_mono [OF fin sub] by (auto simp: treeMeasure_def t')
  qed
qed

termination unfoldTree
  by (relation "measure (\<lambda>(ctx, t). treeMeasure ctx t)") (auto dest: forced_thunks intro: treeMeasure_child)

section \<open>The tree has all that the packages need\<close>

fun treeRoot :: "idTree \<Rightarrow> str" where
  "treeRoot (LeafTree c) = c"
| "treeRoot (NodeTree p _) = p"

fun treeHeight :: "idTree \<Rightarrow> nat" where
  "treeHeight (LeafTree _) = 1"
| "treeHeight (NodeTree _ ts) = Suc (fold max (map treeHeight ts) 0)"

definition isChildOrLink :: "str list \<Rightarrow> str \<times> str \<Rightarrow> bool" where
  "isChildOrLink ids child = (startsWith (snd child) ''link:'' \<or> snd child \<in> set ids)"

fun keepsChildren :: "treeCtx \<Rightarrow> str list \<Rightarrow> idTree \<Rightarrow> bool" where
  "keepsChildren ctx ids (LeafTree c) = (map_of (tcIsLeaf ctx) c = Some True)"
| "keepsChildren ctx ids (NodeTree p ts) =
     ((case map_of (tcChildrenByParentId ctx) p of
         None \<Rightarrow> False
       | Some children \<Rightarrow> list_all (isChildOrLink (map treeRoot ts @ p # ids)) children) \<and>
      list_all (keepsChildren ctx (p # ids)) ts)"

text \<open>What the resolution has recorded when the tree is built.\<close>

definition childKnown :: "treeCtx \<Rightarrow> str \<times> str \<Rightarrow> bool" where
  "childKnown ctx child = (startsWith (snd child) ''link:'' \<or>
     (case map_of (tcIsLeaf ctx) (snd child) of
        None \<Rightarrow> False
      | Some leaf \<Rightarrow> leaf \<or> snd child \<in> set (keys (tcChildrenByParentId ctx))))"

definition completeCtx :: "treeCtx \<Rightarrow> bool" where
  "completeCtx ctx = list_all (\<lambda>(_, children). distinct (keys children) \<and> list_all (childKnown ctx) children) (tcChildrenByParentId ctx)"

lemma addTreeChild_total: "childKnown ctx child \<Longrightarrow> \<exists>l'. addTreeChild ctx t child l = Inr l'"
  by (cases child) (auto simp: childKnown_def addTreeChild_def Let_def split: option.splits bool.splits)

lemma addTreeChildren_total: "list_all (childKnown ctx) cs \<Longrightarrow> \<exists>l'. sfold (addTreeChild ctx t) cs l = Inr l'"
proof (induction cs arbitrary: l)
  case (Cons x cs)
  obtain l1 where "addTreeChild ctx t x l = Inr l1" using addTreeChild_total [of ctx x t l] Cons.prems by auto
  then show ?case using Cons.IH [of l1] Cons.prems by simp
qed simp

lemma completeCtx_children:
  assumes "completeCtx ctx" "map_of (tcChildrenByParentId ctx) p = Some children"
  shows "distinct (keys children)" "list_all (childKnown ctx) children"
  using assms map_of_SomeD [OF assms(2)] by (auto simp: completeCtx_def list_all_iff)

lemma forced_total:
  assumes "completeCtx ctx" "ttParentId t \<in> set (keys (tcChildrenByParentId ctx))"
  obtains r where "forced ctx t = Inr r"
proof -
  from assms(2) obtain children where c: "map_of (tcChildrenByParentId ctx) (ttParentId t) = Some children"
    by (auto simp only: in_keys_iff)
  obtain l where "sfold (addTreeChild ctx t) children (freeLoop t) = Inr l"
    using addTreeChildren_total completeCtx_children(2) [OF assms(1) c] by blast
  then show ?thesis using that c by (simp add: forced_def buildTree_def freeLoop_def)
qed

lemma update_pair: "(a, b) \<in> set (jset k v m) \<Longrightarrow> (a, b) \<in> set m \<or> b = v"
  by (induction m) (auto split: if_splits)

lemma addTreeChildren_isLeaf:
  assumes "sfold (addTreeChild ctx t) cs l = Inr l'" "c \<in> set (leavesOf (tlChildrenNodeIds l'))"
  shows "c \<in> set (leavesOf (tlChildrenNodeIds l)) \<or> map_of (tcIsLeaf ctx) c = Some True"
  using assms
proof (induction cs arbitrary: l)
  case (Cons x cs)
  have upd: "d \<in> set (leavesOf (jset k v m)) \<Longrightarrow> d \<in> set (leavesOf m) \<or> (v = StrId d \<and> \<not> startsWith d ''link:'')" for d k v m
    by (auto simp: in_leavesOf dest: update_pair)
  obtain al d where x: "x = (al, d)" by (cases x)
  from Cons.prems obtain l1 where l1: "addTreeChild ctx t (al, d) l = Inr l1" "sfold (addTreeChild ctx t) cs l1 = Inr l'"
    by (auto simp: x sbind_Inr_iff)
  have "c \<in> set (leavesOf (tlChildrenNodeIds l1)) \<Longrightarrow>
      c \<in> set (leavesOf (tlChildrenNodeIds l)) \<or> map_of (tcIsLeaf ctx) c = Some True"
    using l1(1) by (cases rule: addTreeChild_cases) (auto dest!: upd)
  then show ?case using Cons.IH [OF l1(2)] Cons.prems(2) by blast
qed simp

lemma forced_leaves: "forced ctx t = Inr r \<Longrightarrow> c \<in> set (snd r) \<Longrightarrow> map_of (tcIsLeaf ctx) c = Some True"
  by (erule forced_loop) (auto dest!: addTreeChildren_isLeaf simp: freeLoop_def in_leavesOf)

lemma isCut_before: "isCut t c \<Longrightarrow> c = ttParentId t \<or> c \<in> set (ttParentIds t)"
  by (auto simp: isCut_def parentIdsContainSequence_def Let_def listLastIndexOf_def listIndexOf_def split: if_splits)

lemma keepsChildren_Node:
  "keepsChildren ctx ids (NodeTree p ts) \<longleftrightarrow> (\<exists>children. map_of (tcChildrenByParentId ctx) p = Some children \<and>
     list_all (isChildOrLink (map treeRoot ts @ p # ids)) children) \<and> list_all (keepsChildren ctx (p # ids)) ts"
  by (auto split: option.splits)

lemma list_all_isChildOrLink_mono:
  "list_all (isChildOrLink ids) cs \<Longrightarrow> set ids \<subseteq> set ids' \<Longrightarrow> list_all (isChildOrLink ids') cs"
  by (auto simp: list_all_iff isChildOrLink_def)

lemma keepsChildren_mono: "keepsChildren ctx ids tree \<Longrightarrow> set ids \<subseteq> insert (treeRoot tree) (set ids') \<Longrightarrow> keepsChildren ctx ids' tree"
proof (induction tree arbitrary: ids ids')
  case (NodeTree p ts)
  have "list_all (keepsChildren ctx (p # ids')) ts"
    using NodeTree.IH [of _ "p # ids" "p # ids'"] NodeTree.prems by (auto simp: list_all_iff)
  moreover have "set (map treeRoot ts @ p # ids) \<subseteq> set (map treeRoot ts @ p # ids')" using NodeTree.prems(2) by auto
  ultimately show ?case using NodeTree.prems(1) list_all_isChildOrLink_mono unfolding keepsChildren_Node by blast
qed simp

lemma fold_max_le: "list_all (\<lambda>x. x \<le> m) xs \<Longrightarrow> a \<le> m \<Longrightarrow> fold max xs a \<le> (m :: nat)"
  by (induction xs arbitrary: a) auto

text \<open>One step of the unfolding.\<close>

definition goodTree :: "treeCtx \<Rightarrow> treeThunk \<Rightarrow> idTree \<Rightarrow> bool" where
  "goodTree ctx t tree \<longleftrightarrow> unfoldTree ctx t = Inr tree \<and> treeRoot tree = ttParentId t \<and>
     treeHeight tree \<le> treeMeasure ctx t + 2 \<and> keepsChildren ctx (ttParentIds t) tree"

lemma goodTree_step:
  assumes "completeCtx ctx" "forced ctx t = Inr r" "list_all2 (goodTree ctx) (fst r) ts"
  shows "goodTree ctx t (NodeTree (ttParentId t) (map LeafTree (snd r) @ ts))"
proof -
  let ?tree = "NodeTree (ttParentId t) (map LeafTree (snd r) @ ts)"
  have "smap (unfoldTree ctx) (fst r) = Inr ts"
    using assms(3) by (auto simp: smap_Inr_iff goodTree_def elim: list_all2_mono)
  then have unf: "unfoldTree ctx t = Inr ?tree" using assms(2) by (simp add: unfoldTree.simps [of ctx t])
  have sub: "treeHeight s \<le> treeMeasure ctx t + 1 \<and> keepsChildren ctx (ttParentId t # ttParentIds t) s" if s: "s \<in> set ts" for s
  proof -
    obtain t' where t': "t' \<in> set (fst r)" "goodTree ctx t' s" using s assms(3) by (metis in_set_conv_nth list_all2_conv_all_nth)
    have f: "childOf ctx (ttParentId t) (ttParentId t')" "\<not> isCut t (ttParentId t')" "thunkFor t (ttParentId t') t'"
      using forced_thunks [OF assms(2) t'(1)] by auto
    have "set (ttParentIds t') \<subseteq> insert (treeRoot s) (set (ttParentId t # ttParentIds t))"
      using f(3) t'(2) by (auto simp: thunkFor_def goodTree_def)
    then show ?thesis using t'(2) treeMeasure_child [OF f] keepsChildren_mono by (fastforce simp: goodTree_def)
  qed
  have roots: "map treeRoot ts = map ttParentId (fst r)"
    using assms(3) by (auto simp: list_eq_iff_nth_eq list_all2_conv_all_nth goodTree_def)
  obtain children where c: "map_of (tcChildrenByParentId ctx) (ttParentId t) = Some children"
    using assms(2) by (elim forced_loop) auto
  have "isChildOrLink (map treeRoot (map LeafTree (snd r) @ ts) @ ttParentId t # ttParentIds t) (al, d)"
    if d: "(al, d) \<in> set children" for al d
  proof (cases "startsWith d ''link:''")
    case False
    then have d': "childOf ctx (ttParentId t) d" using c d by (auto simp: childOf_def)
    have "distinct (keys children)" using completeCtx_children [OF assms(1) c] by simp
    then have "isCut t d \<or> d \<in> set (snd r) \<or> (\<exists>t' \<in> set (fst r). ttParentId t' = d)"
      using forced_keeps [OF assms(2) d'] c by auto
    then show ?thesis using isCut_before [of t d] by (auto simp: roots image_image image_iff isChildOrLink_def)
  qed (simp add: isChildOrLink_def)
  then have "list_all (isChildOrLink (map treeRoot (map LeafTree (snd r) @ ts) @ ttParentId t # ttParentIds t)) children"
    by (auto simp: list_all_iff)
  moreover have "list_all (keepsChildren ctx (ttParentId t # ttParentIds t)) (map LeafTree (snd r) @ ts)"
    using forced_leaves [OF assms(2)] sub by (auto simp: list_all_iff)
  ultimately have "keepsChildren ctx (ttParentIds t) ?tree" using c unfolding keepsChildren_Node by blast
  moreover have "treeHeight ?tree \<le> treeMeasure ctx t + 2"
    using sub by (auto intro!: fold_max_le simp: list_all_iff)
  ultimately show ?thesis using unf by (simp add: goodTree_def)
qed

lemma unfoldTree_good:
  "completeCtx ctx \<Longrightarrow> ttParentId t \<in> set (keys (tcChildrenByParentId ctx)) \<Longrightarrow> \<exists>tree. goodTree ctx t tree"
proof (induction ctx t rule: unfoldTree.induct)
  case (1 ctx t)
  obtain r where r: "forced ctx t = Inr r" using forced_total 1(2,3) by blast
  have "\<exists>s. goodTree ctx t' s" if t': "t' \<in> set (fst r)" for t'
  proof -
    have f: "childOf ctx (ttParentId t) (ttParentId t')" "map_of (tcIsLeaf ctx) (ttParentId t') = Some False"
      using forced_thunks [OF r t'] by auto
    have "ttParentId t' \<in> set (keys (tcChildrenByParentId ctx))"
      using f completeCtx_children(2) [OF 1(2)] by (fastforce simp: childOf_def list_all_iff childKnown_def)
    then show ?thesis using 1(1) [OF r t'] 1(2) by blast
  qed
  then have "list_all2 (goodTree ctx) (fst r) (map (\<lambda>t'. SOME s. goodTree ctx t' s) (fst r))"
    by (auto simp: list_all2_conv_all_nth intro: someI_ex)
  then show ?case using goodTree_step [OF 1(2) r] by blast
qed

text \<open>C17. (termination) The packages of a project may depend on each other in cycles, and the children of each node of the
  dependency tree are made on demand by a call of \<open>buildTree\<close>. When the resolution has recorded the children of every
  package that is not a leaf, then forcing them all ends with a tree: no closure fails, no way from the root has more than
  n * n + 3 nodes, for n ids, and the tree leaves nothing out. Each child of a package is below its node, unless
  the package of the child is the node or one of those above it.\<close>

theorem unfoldTree_terminates:
  assumes "completeCtx ctx" and "ttParentId t \<in> set (keys (tcChildrenByParentId ctx))"
  shows "\<exists>tree. unfoldTree ctx t = Inr tree \<and> treeRoot tree = ttParentId t \<and>
    treeHeight tree \<le> (length (treeIds ctx))\<^sup>2 + 3 \<and> keepsChildren ctx (ttParentIds t) tree"
  using unfoldTree_good [OF assms] treeMeasure_le [of ctx t] by (force simp: goodTree_def)

text \<open>Two packages that need each other and a leaf.\<close>

definition cycleCtx :: treeCtx where
  "cycleCtx = \<lparr>tcChildrenByParentId = [(''a'', [(''b'', ''b''), (''l'', ''l'')]), (''b'', [(''a'', ''a''), (''w'', ''link:w'')])],
     tcIsLeaf = [(''a'', False), (''b'', False), (''l'', True)], tcSkipped = []\<rparr>"

definition cycleRoot :: treeThunk where
  "cycleRoot = \<lparr>ttParentId = ''a'', ttParentIds = [''a''], ttDepth = 1, ttInstallable = True\<rparr>"

theorem unfoldTree_terminates_witness:
  "\<exists>tree. unfoldTree cycleCtx cycleRoot = Inr tree \<and> treeRoot tree = ''a'' \<and> treeHeight tree \<le> 19 \<and>
     keepsChildren cycleCtx [''a''] tree"
proof -
  have "completeCtx cycleCtx" by code_simp
  moreover have "ttParentId cycleRoot \<in> set (keys (tcChildrenByParentId cycleCtx))"
    by (simp add: cycleCtx_def cycleRoot_def)
  moreover have "length (treeIds cycleCtx) = 3 + 1" by code_simp
  ultimately show ?thesis using unfoldTree_terminates [of cycleCtx cycleRoot] by (simp add: cycleRoot_def)
qed

text \<open>The tree of the example: the way ends at the third \<open>a\<close>, where the sequence of \<open>a\<close> and \<open>b\<close> would repeat.\<close>

lemma cycle_unfolded:
  "unfoldTree cycleCtx cycleRoot = Inr (NodeTree ''a'' [LeafTree ''l'', NodeTree ''b'' [NodeTree ''a'' [LeafTree ''l'']]])"
  by code_simp

end
