(* ===== verification/PeerContext.thy ===== *)
theory PeerContext
  imports UpdateLockfile DependencyTree
begin

text \<open>
  pkg-manager/resolve-dependencies/src/resolvePeers.ts: what the resolution of peers knows at a node of the dependency tree.
  Here are the packages that the parents provide (\<open>toPkgByName\<close>, \<open>createPkgsByName\<close>, \<open>getRootPkgsByName\<close>), the peers of
  one package (\<open>_resolvePeers\<close>) with the issues it reports, the cache of earlier results (\<open>findHit\<close>,
  \<open>parentPackagesMatch\<close>), and mergePeers.ts. The walk over the tree is in \<open>PeerResolution\<close>. What is not under src/ is in
  the record of parameters: @yarnpkg/core's \<open>satisfiesWithPrereleases\<close>, semver's \<open>gte\<close> (which may throw), and
  semver-range-intersect (\<open>None\<close> where it throws or gives null).
\<close>

section \<open>The packages of the nodes\<close>

text \<open>A node of a linked package holds only its name and version.\<close>

datatype treePkg = Linked (linkedName: str) (linkedVersion: str) | Resolved (resolvedPkg: resolvedPackage)

fun tpName :: "treePkg \<Rightarrow> str" where
  "tpName (Linked name version) = name"
| "tpName (Resolved p) = rpName p"

fun tpVersion :: "treePkg \<Rightarrow> str" where
  "tpVersion (Linked name version) = version"
| "tpVersion (Resolved p) = rpVersion p"

fun tpPkgId :: "treePkg \<Rightarrow> str option" where
  "tpPkgId (Linked name version) = None"
| "tpPkgId (Resolved p) = Some (rpPkgIdWithPatchHash p)"

type_synonym treePkgs = "treePkg obj"
type_synonym dependenciesTree = "(nodeId \<times> treeNode) list"

text \<open>\<open>dependenciesTree.get(nodeId)!\<close> and \<open>dependenciesTree.get(nodeId)!.resolvedPackage\<close>\<close>

definition getNode :: "dependenciesTree \<Rightarrow> nodeId \<Rightarrow> js_error + treeNode" where
  "getNode tree nodeId = (case map_of tree nodeId of None \<Rightarrow> Inl (TypeError ''dependenciesTree.get(nodeId)'') | Some n \<Rightarrow> Inr n)"

definition packageOf :: "treePkgs \<Rightarrow> treeNode \<Rightarrow> js_error + treePkg" where
  "packageOf pkgs n = (case map_of pkgs (tnPkgId n) of None \<Rightarrow> Inl (TypeError ''resolvedPackage'') | Some p \<Rightarrow> Inr p)"

definition getPackage :: "treePkgs \<Rightarrow> dependenciesTree \<Rightarrow> nodeId \<Rightarrow> js_error + treePkg" where
  "getPackage pkgs tree nodeId = sbind (getNode tree nodeId) (packageOf pkgs)"

fun truthyId :: "nodeId \<Rightarrow> bool" where
  "truthyId (StrId s) = (s \<noteq> [])"
| "truthyId (NumId n) = (n \<noteq> 0)"

fun linkId :: "nodeId \<Rightarrow> bool" where
  "linkId (StrId s) = startsWith s ''link:''"
| "linkId (NumId n) = False"

definition truthyIdOpt :: "nodeId option \<Rightarrow> bool" where
  "truthyIdOpt i = (case i of None \<Rightarrow> False | Some n \<Rightarrow> truthyId n)"

section \<open>The packages that the parents provide\<close>

record parentRef =
  pfVersion :: str
  pfDepth :: int
  pfNodeId :: "nodeId option"
  pfAlias :: "str option"
  pfOccurrence :: nat
  pfParentNodeIds :: "nodeId list"

type_synonym parentRefs = "parentRef obj"

record peerEnv =
  peSatisfies :: "str \<Rightarrow> str \<Rightarrow> bool"
  peGte :: "str \<Rightarrow> str \<Rightarrow> js_error + bool"
  peIntersect :: "str list \<Rightarrow> str option"

text \<open>An entry under a name that is not the alias of its package may be replaced.\<close>

definition updateParentRefs :: "peerEnv \<Rightarrow> str \<Rightarrow> parentRef \<Rightarrow> parentRefs \<Rightarrow> js_error + parentRefs" where
  "updateParentRefs env newAlias pkg parentRefs =
     (case map_of parentRefs newAlias of
        None \<Rightarrow> Inr (jset newAlias pkg parentRefs)
      | Some existing \<Rightarrow>
          if pfAlias existing = None \<or> pfAlias existing = Some newAlias then Inr parentRefs
          else if pfAlias pkg \<noteq> None \<and> pfAlias pkg \<noteq> Some newAlias
          then sbind (peGte env (pfVersion existing) (pfVersion pkg)) (\<lambda>gte.
            Inr (if gte then parentRefs else jset newAlias pkg parentRefs))
          else Inr (jset newAlias pkg parentRefs))"

record parentPkgNode =
  ppAlias :: str
  ppNodeId :: nodeId
  ppParentNodeIds :: "nodeId list"

definition addPkgByName :: "peerEnv \<Rightarrow> treePkgs \<Rightarrow> dependenciesTree \<Rightarrow> parentPkgNode \<Rightarrow> parentRefs \<Rightarrow> js_error + parentRefs" where
  "addPkgByName env pkgs tree p refs =
     sbind (getNode tree (ppNodeId p)) (\<lambda>node. sbind (packageOf pkgs node) (\<lambda>resolved.
       let pkg = \<lparr>pfVersion = tpVersion resolved, pfDepth = tnDepth node, pfNodeId = Some (ppNodeId p),
             pfAlias = Some (ppAlias p), pfOccurrence = 0, pfParentNodeIds = ppParentNodeIds p\<rparr>
       in sbind (updateParentRefs env (ppAlias p) pkg refs) (\<lambda>refs'.
            if ppAlias p \<noteq> tpName resolved then updateParentRefs env (tpName resolved) pkg refs' else Inr refs')))"

definition toPkgByName :: "peerEnv \<Rightarrow> treePkgs \<Rightarrow> dependenciesTree \<Rightarrow> parentPkgNode list \<Rightarrow> js_error + parentRefs" where
  "toPkgByName env pkgs tree nodes = sfold (addPkgByName env pkgs tree) nodes []"

text \<open>\<open>linkedDir\<close> is the node id of a top parent.\<close>

record topParent =
  tqName :: str
  tqVersion :: str
  tqAlias :: "str option"
  tqLinkedDir :: "nodeId option"

definition addTopParent :: "peerEnv \<Rightarrow> topParent \<Rightarrow> parentRefs \<Rightarrow> js_error + parentRefs" where
  "addTopParent env t refs =
     (let pkg = \<lparr>pfVersion = tqVersion t, pfDepth = 0, pfNodeId = tqLinkedDir t, pfAlias = tqAlias t, pfOccurrence = 0,
          pfParentNodeIds = []\<rparr>
      in sbind (updateParentRefs env (tqName t) pkg refs) (\<lambda>refs'.
           if truthy (tqAlias t) \<and> tqAlias t \<noteq> Some (tqName t) then updateParentRefs env (the (tqAlias t)) pkg refs'
           else Inr refs'))"

record projectToResolve =
  pjDirectNodeIdsByAlias :: "nodeId obj"
  pjTopParents :: "topParent list"
  pjId :: str

definition createPkgsByName :: "peerEnv \<Rightarrow> treePkgs \<Rightarrow> dependenciesTree \<Rightarrow> projectToResolve \<Rightarrow> js_error + parentRefs" where
  "createPkgsByName env pkgs tree project =
     sbind (toPkgByName env pkgs tree
         (map (\<lambda>(a, n). \<lparr>ppAlias = a, ppNodeId = n, ppParentNodeIds = []\<rparr>) (pjDirectNodeIdsByAlias project)))
       (sfold (addTopParent env) (pjTopParents project))"

definition getRootPkgsByName :: "peerEnv \<Rightarrow> treePkgs \<Rightarrow> dependenciesTree \<Rightarrow> projectToResolve list \<Rightarrow> js_error + parentRefs" where
  "getRootPkgsByName env pkgs tree projects =
     (case if length projects > 1 then List.find (\<lambda>p. pjId p = ''.'') projects else None of
        None \<Rightarrow> Inr []
      | Some rootProject \<Rightarrow> createPkgsByName env pkgs tree rootProject)"

text \<open>\<open>currentParentPkg.nodeId && dependenciesTree.get(currentParentPkg.nodeId)?.resolvedPackage\<close>\<close>

definition refPackage :: "treePkgs \<Rightarrow> dependenciesTree \<Rightarrow> parentRef \<Rightarrow> treePkg option" where
  "refPackage pkgs tree r =
     (if truthyIdOpt (pfNodeId r)
      then Option.bind (map_of tree (the (pfNodeId r))) (\<lambda>n. map_of pkgs (tnPkgId n)) else None)"

definition parentPkgsMatch :: "treePkgs \<Rightarrow> dependenciesTree \<Rightarrow> parentRef \<Rightarrow> parentRef \<Rightarrow> bool" where
  "parentPkgsMatch pkgs tree currentParentPkg newParentPkg =
     (if pfVersion currentParentPkg \<noteq> pfVersion newParentPkg \<or> pfAlias currentParentPkg \<noteq> pfAlias newParentPkg then False
      else case (refPackage pkgs tree currentParentPkg, refPackage pkgs tree newParentPkg) of
          (Some p, Some q) \<Rightarrow> tpName p = tpName q
        | _ \<Rightarrow> True)"

text \<open>
  The packages that the children of a node see (in \<open>resolvePeersOfNode\<close>). Every object of \<open>newParentPkgs\<close> may be there
  under two names, its alias and the name of its package, and its field \<open>occurrence\<close> is assigned in the loop: the model
  collects the assignments by alias and writes them to the objects that were taken.
\<close>

record parentMerge =
  pmParentPkgs :: parentRefs
  pmTaken :: "str list"
  pmOccurrence :: "nat obj"

definition mergeParentPkg :: "treePkgs \<Rightarrow> dependenciesTree \<Rightarrow> str \<times> parentRef \<Rightarrow> parentMerge \<Rightarrow> parentMerge" where
  "mergeParentPkg pkgs tree entry m =
     (case entry of (newParentPkgName, newParentPkg) \<Rightarrow>
        case map_of (pmParentPkgs m) newParentPkgName of
          None \<Rightarrow> m\<lparr>pmParentPkgs := jset newParentPkgName newParentPkg (pmParentPkgs m),
             pmTaken := pmTaken m @ [newParentPkgName]\<rparr>
        | Some old \<Rightarrow>
            if parentPkgsMatch pkgs tree old newParentPkg then m
            else m\<lparr>pmParentPkgs := jset newParentPkgName newParentPkg (pmParentPkgs m),
              pmTaken := pmTaken m @ [newParentPkgName],
              pmOccurrence := jset (the (pfAlias newParentPkg)) (Suc (pfOccurrence old)) (pmOccurrence m)\<rparr>)"

definition writeOccurrence :: "parentMerge \<Rightarrow> str \<times> parentRef \<Rightarrow> str \<times> parentRef" where
  "writeOccurrence m entry =
     (case entry of (name, r) \<Rightarrow>
        (name, if name \<in> set (pmTaken m)
           then (case map_of (pmOccurrence m) (the (pfAlias r)) of None \<Rightarrow> r | Some i \<Rightarrow> r\<lparr>pfOccurrence := i\<rparr>) else r))"

definition mergeParentPkgs :: "treePkgs \<Rightarrow> dependenciesTree \<Rightarrow> parentRefs \<Rightarrow> parentRefs \<Rightarrow> parentRefs" where
  "mergeParentPkgs pkgs tree parentParentPkgs newParentPkgs =
     (let m = fold (mergeParentPkg pkgs tree) newParentPkgs \<lparr>pmParentPkgs = parentParentPkgs, pmTaken = [], pmOccurrence = []\<rparr>
      in map (writeOccurrence m) (pmParentPkgs m))"

definition childParentPkgs ::
    "peerEnv \<Rightarrow> treePkgs \<Rightarrow> str list \<Rightarrow> dependenciesTree \<Rightarrow> nodeId list \<Rightarrow> nodeId obj \<Rightarrow> parentRefs \<Rightarrow> js_error + parentRefs" where
  "childParentPkgs env pkgs allPeerDepNames tree parentNodeIds children parentParentPkgs =
     (if children = [] then Inr parentParentPkgs
      else sbind (toPkgByName env pkgs tree
          (map (\<lambda>(a, n). \<lparr>ppAlias = a, ppNodeId = n, ppParentNodeIds = parentNodeIds\<rparr>)
            (filter (\<lambda>(a, n). a \<in> set allPeerDepNames) children)))
        (\<lambda>newParentPkgs. Inr (mergeParentPkgs pkgs tree parentParentPkgs newParentPkgs)))"

section \<open>The peers of a package\<close>

record missingPeerIssue =
  miParents :: "(str \<times> str) list"
  miOptional :: bool
  miWantedRange :: str

record badPeerIssue = missingPeerIssue +
  biFoundVersion :: str
  biResolvedFrom :: "(str \<times> str) list"

record peerIssues =
  isMissing :: "missingPeerIssue list obj"
  isBad :: "badPeerIssue list obj"

record missingPeerInfo =
  mpRange :: str
  mpOptional :: bool

text \<open>\<open>if (!m[key]) m[key] = []; m[key].push(x)\<close>\<close>

definition pushAt :: "str \<Rightarrow> 'a \<Rightarrow> 'a list obj \<Rightarrow> 'a list obj" where
  "pushAt key x m = jset key (orEmpty (map_of m key) @ [x]) m"

definition getLocationFromParentNodeIds :: "treePkgs \<Rightarrow> dependenciesTree \<Rightarrow> nodeId list \<Rightarrow> js_error + (str \<times> str) list" where
  "getLocationFromParentNodeIds pkgs tree parentNodeIds =
     smap (\<lambda>nid. sbind (getPackage pkgs tree nid) (\<lambda>p. Inr (tpName p, tpVersion p))) parentNodeIds"

definition stripWorkspace :: "str \<Rightarrow> str" where
  "stripWorkspace version = (if startsWith version ''workspace:'' then drop 10 version else version)"

record peersResolution =
  prResolvedPeers :: "nodeId obj"
  prMissingPeers :: "missingPeerInfo obj"

definition noPeers :: peersResolution where
  "noPeers = \<lparr>prResolvedPeers = [], prMissingPeers = []\<rparr>"

definition resolvePeer ::
    "peerEnv \<Rightarrow> treePkgs \<Rightarrow> dependenciesTree \<Rightarrow> nodeId list \<Rightarrow> parentRefs \<Rightarrow> str \<times> peerDependency \<Rightarrow>
     peersResolution \<times> peerIssues \<Rightarrow> js_error + peersResolution \<times> peerIssues" where
  "resolvePeer env pkgs tree parentNodeIds parentPkgs peer acc =
     (let (peerName, pd) = peer; (res, issues) = acc;
          peerVersionRange = stripWorkspace (pdVersion pd);
          optionalPeer = (pdOptional pd = Some True) in
      case map_of parentPkgs peerName of
        None \<Rightarrow>
          sbind (getLocationFromParentNodeIds pkgs tree parentNodeIds) (\<lambda>parents. Inr
            (res\<lparr>prMissingPeers := jset peerName \<lparr>mpRange = pdVersion pd, mpOptional = optionalPeer\<rparr> (prMissingPeers res)\<rparr>,
             issues\<lparr>isMissing := pushAt peerName
               \<lparr>miParents = parents, miOptional = optionalPeer, miWantedRange = peerVersionRange\<rparr> (isMissing issues)\<rparr>))
      | Some resolved \<Rightarrow>
          sbind (if peSatisfies env (pfVersion resolved) peerVersionRange then Inr issues
            else sbind (getLocationFromParentNodeIds pkgs tree parentNodeIds) (\<lambda>parents.
              sbind (if pfNodeId resolved = None then Inr []
                else getLocationFromParentNodeIds pkgs tree (pfParentNodeIds resolved)) (\<lambda>peerLocation. Inr
                  (issues\<lparr>isBad := pushAt peerName
                    \<lparr>miParents = parents, miOptional = optionalPeer, miWantedRange = peerVersionRange,
                     biFoundVersion = pfVersion resolved, biResolvedFrom = peerLocation\<rparr> (isBad issues)\<rparr>)))) (\<lambda>issues'. Inr
            (if truthyIdOpt (pfNodeId resolved)
             then res\<lparr>prResolvedPeers := jset peerName (the (pfNodeId resolved)) (prResolvedPeers res)\<rparr> else res, issues')))"

definition resolvePeersOfPackage ::
    "peerEnv \<Rightarrow> treePkgs \<Rightarrow> dependenciesTree \<Rightarrow> nodeId list \<Rightarrow> parentRefs \<Rightarrow> peerDependency obj \<Rightarrow> peerIssues \<Rightarrow>
     js_error + peersResolution \<times> peerIssues" where
  "resolvePeersOfPackage env pkgs tree parentNodeIds parentPkgs peers issues =
     sfold (resolvePeer env pkgs tree parentNodeIds parentPkgs) peers (noPeers, issues)"

section \<open>mergePeers.ts\<close>

record mergePeersResult =
  mrConflicts :: "str list"
  mrIntersections :: "str obj"

definition mergeMissing :: "peerEnv \<Rightarrow> str \<times> missingPeerIssue list \<Rightarrow> mergePeersResult \<Rightarrow> mergePeersResult" where
  "mergeMissing env entry acc =
     (case entry of (peerName, ranges) \<Rightarrow>
        if list_all miOptional ranges then acc
        else if length ranges = 1
        then acc\<lparr>mrIntersections := jset peerName (miWantedRange (hd ranges)) (mrIntersections acc)\<rparr>
        else case peIntersect env (map miWantedRange ranges) of
            None \<Rightarrow> acc\<lparr>mrConflicts := mrConflicts acc @ [peerName]\<rparr>
          | Some i \<Rightarrow> acc\<lparr>mrIntersections := jset peerName i (mrIntersections acc)\<rparr>)"

definition mergePeers :: "peerEnv \<Rightarrow> missingPeerIssue list obj \<Rightarrow> mergePeersResult" where
  "mergePeers env missingPeers = fold (mergeMissing env) missingPeers \<lparr>mrConflicts = [], mrIntersections = []\<rparr>"

section \<open>The cache\<close>

text \<open>The promise of an item has the dependency path once it is known.\<close>

record peersCacheItem =
  ciMissingPeers :: "missingPeerInfo obj"
  ciDepPath :: "depPath option"
  ciResolvedPeers :: "nodeId obj"

record parentPkgInfo =
  piPkgIdWithPatchHash :: "str option"
  piVersion :: "str option"
  piDepth :: "int option"
  piOccurrence :: "nat option"

definition parentPkgsHaveSingleOccurrence :: "parentPkgInfo obj \<Rightarrow> bool" where
  "parentPkgsHaveSingleOccurrence parentPkgs =
     list_all (\<lambda>i. piOccurrence i = Some 0 \<or> piOccurrence i = None) (vals parentPkgs)"

definition samePkgInfo :: "str list \<Rightarrow> bool \<Rightarrow> int \<Rightarrow> parentPkgInfo obj \<Rightarrow> str \<times> parentPkgInfo \<Rightarrow> bool" where
  "samePkgInfo purePkgs peerDepsAreNotShadowed maxDepth checkedParentPkgs entry =
     (case entry of (name, cached) \<Rightarrow>
        case map_of checkedParentPkgs name of
          None \<Rightarrow> False
        | Some checked \<Rightarrow>
            if truthy (piVersion cached) \<and> truthy (piVersion checked) then piVersion cached = piVersion checked
            else piPkgIdWithPatchHash cached \<noteq> None \<and> piPkgIdWithPatchHash cached = piPkgIdWithPatchHash checked \<and>
              (peerDepsAreNotShadowed \<or> piDepth checked = Some maxDepth \<or>
               the (piPkgIdWithPatchHash cached) \<in> set purePkgs))"

definition parentPackagesMatch :: "(nodeId \<times> parentPkgInfo obj) list \<Rightarrow> str list \<Rightarrow> nodeId \<Rightarrow> nodeId \<Rightarrow> bool" where
  "parentPackagesMatch parentPkgsOfNode purePkgs cachedNodeId checkedNodeId =
     (case (map_of parentPkgsOfNode cachedNodeId, map_of parentPkgsOfNode checkedNodeId) of
        (Some cachedParentPkgs, Some checkedParentPkgs) \<Rightarrow>
          if length cachedParentPkgs \<noteq> length checkedParentPkgs then False
          else let maxDepth = fold (\<lambda>i m. max (case piDepth i of None \<Rightarrow> 0 | Some d \<Rightarrow> d) m) (vals checkedParentPkgs) 0;
                   notShadowed = (parentPkgsHaveSingleOccurrence cachedParentPkgs \<and>
                     parentPkgsHaveSingleOccurrence checkedParentPkgs)
               in list_all (samePkgInfo purePkgs notShadowed maxDepth checkedParentPkgs) cachedParentPkgs
      | _ \<Rightarrow> False)"

record hitCtx =
  hcPkgs :: treePkgs
  hcTree :: dependenciesTree
  hcPathsByNodeId :: "(nodeId \<times> depPath) list"
  hcPurePkgs :: "str list"
  hcParentPkgsOfNode :: "(nodeId \<times> parentPkgInfo obj) list"

definition sameProvider :: "hitCtx \<Rightarrow> parentRefs \<Rightarrow> str \<Rightarrow> nodeId \<Rightarrow> js_error + bool" where
  "sameProvider ctx parentPkgs name cachedNodeId =
     (let parentPkgNodeId = Option.bind (map_of parentPkgs name) pfNodeId in
      if truthyIdOpt parentPkgNodeId \<noteq> truthyId cachedNodeId then Inr False
      else if parentPkgNodeId = Some cachedNodeId then Inr True
      else if \<not> truthyIdOpt parentPkgNodeId then Inr False
      else let nodeId = the parentPkgNodeId in
        if map_of (hcPathsByNodeId ctx) cachedNodeId \<noteq> None \<and>
          map_of (hcPathsByNodeId ctx) cachedNodeId = map_of (hcPathsByNodeId ctx) nodeId then Inr True
        else if map_of (hcTree ctx) nodeId = None \<and> linkId nodeId then Inr False
        else sbind (getPackage (hcPkgs ctx) (hcTree ctx) nodeId) (\<lambda>parentPkg.
          sbind (getPackage (hcPkgs ctx) (hcTree ctx) cachedNodeId) (\<lambda>cachedPkg.
            if tpPkgId parentPkg \<noteq> tpPkgId cachedPkg then Inr False
            else Inr ((case tpPkgId parentPkg of None \<Rightarrow> False | Some i \<Rightarrow> i \<in> set (hcPurePkgs ctx)) \<or>
              parentPackagesMatch (hcParentPkgsOfNode ctx) (hcPurePkgs ctx) cachedNodeId nodeId))))"

fun sameProviders :: "hitCtx \<Rightarrow> parentRefs \<Rightarrow> nodeId obj \<Rightarrow> js_error + bool" where
  "sameProviders ctx parentPkgs [] = Inr True"
| "sameProviders ctx parentPkgs ((name, cachedNodeId) # rest) =
     sbind (sameProvider ctx parentPkgs name cachedNodeId) (\<lambda>b. if b then sameProviders ctx parentPkgs rest else Inr False)"

definition isHit :: "hitCtx \<Rightarrow> parentRefs \<Rightarrow> peersCacheItem \<Rightarrow> js_error + bool" where
  "isHit ctx parentPkgs item =
     sbind (sameProviders ctx parentPkgs (ciResolvedPeers item)) (\<lambda>b. Inr (b \<and>
       list_all (\<lambda>missingPeer. map_of parentPkgs missingPeer = None) (keys (ciMissingPeers item))))"

text \<open>The place of the item in the list of the package.\<close>

fun findHitFrom :: "hitCtx \<Rightarrow> parentRefs \<Rightarrow> nat \<Rightarrow> peersCacheItem list \<Rightarrow> js_error + nat option" where
  "findHitFrom ctx parentPkgs i [] = Inr None"
| "findHitFrom ctx parentPkgs i (item # items) =
     sbind (isHit ctx parentPkgs item) (\<lambda>b. if b then Inr (Some i) else findHitFrom ctx parentPkgs (Suc i) items)"

definition findHit :: "hitCtx \<Rightarrow> peersCacheItem list obj \<Rightarrow> parentRefs \<Rightarrow> str \<Rightarrow> js_error + nat option" where
  "findHit ctx peersCache parentPkgs pkgIdWithPatchHash =
     (case map_of peersCache pkgIdWithPatchHash of
        None \<Rightarrow> Inr None
      | Some cacheItems \<Rightarrow> findHitFrom ctx parentPkgs 0 cacheItems)"

section \<open>What the peers of a package are\<close>

definition providedPeer :: "parentRefs \<Rightarrow> str \<Rightarrow> nodeId option" where
  "providedPeer refs name = (case map_of refs name of None \<Rightarrow> None
     | Some r \<Rightarrow> if truthyIdOpt (pfNodeId r) then pfNodeId r else None)"

definition missingPeer :: "parentRefs \<Rightarrow> str \<Rightarrow> peerDependency \<Rightarrow> missingPeerInfo option" where
  "missingPeer refs name pd =
     (if map_of refs name = None then Some \<lparr>mpRange = pdVersion pd, mpOptional = (pdOptional pd = Some True)\<rparr> else None)"

definition missingIssue :: "(str \<times> str) list \<Rightarrow> parentRefs \<Rightarrow> str \<Rightarrow> peerDependency \<Rightarrow> missingPeerIssue list" where
  "missingIssue parents refs name pd =
     (if map_of refs name = None
      then [\<lparr>miParents = parents, miOptional = (pdOptional pd = Some True), miWantedRange = stripWorkspace (pdVersion pd)\<rparr>] else [])"

definition badIssue :: "peerEnv \<Rightarrow> (str \<times> str) list \<Rightarrow> parentRefs \<Rightarrow> (parentRef \<Rightarrow> (str \<times> str) list) \<Rightarrow> str \<Rightarrow> peerDependency \<Rightarrow>
    badPeerIssue list" where
  "badIssue env parents refs places name pd =
     (case map_of refs name of
        None \<Rightarrow> []
      | Some r \<Rightarrow> if peSatisfies env (pfVersion r) (stripWorkspace (pdVersion pd)) then []
          else [\<lparr>miParents = parents, miOptional = (pdOptional pd = Some True), miWantedRange = stripWorkspace (pdVersion pd),
            biFoundVersion = pfVersion r, biResolvedFrom = places r\<rparr>])"

definition onlyIf :: "'b option \<Rightarrow> ('b \<Rightarrow> 'a option) \<Rightarrow> 'a option" where
  "onlyIf x f = (case x of None \<Rightarrow> None | Some y \<Rightarrow> f y)"

definition issuesAt :: "'a list obj \<Rightarrow> str \<Rightarrow> 'a list" where
  "issuesAt m name = orEmpty (map_of m name)"

lemma issuesAt_pushAt [simp]: "issuesAt (pushAt k x m) name = (if name = k then issuesAt m name @ [x] else issuesAt m name)"
  by (simp add: issuesAt_def pushAt_def update_conv')

text \<open>The locations of the parents are known, so nothing is thrown.\<close>

definition placesOk :: "treePkgs \<Rightarrow> dependenciesTree \<Rightarrow> parentRefs \<Rightarrow> (parentRef \<Rightarrow> (str \<times> str) list) \<Rightarrow> bool" where
  "placesOk pkgs tree refs places =
     list_all (\<lambda>r. if pfNodeId r = None then places r = []
       else getLocationFromParentNodeIds pkgs tree (pfParentNodeIds r) = Inr (places r)) (vals refs)"

definition oneResolved ::
    "peerEnv \<Rightarrow> (str \<times> str) list \<Rightarrow> parentRefs \<Rightarrow> (parentRef \<Rightarrow> (str \<times> str) list) \<Rightarrow> str \<times> peerDependency \<Rightarrow>
     peersResolution \<times> peerIssues \<Rightarrow> peersResolution \<times> peerIssues \<Rightarrow> bool" where
  "oneResolved env parents refs places peer acc acc' \<longleftrightarrow> (case peer of (name, pd) \<Rightarrow> \<forall>k.
     map_of (prResolvedPeers (fst acc')) k =
       (if k = name \<and> providedPeer refs name \<noteq> None then providedPeer refs name else map_of (prResolvedPeers (fst acc)) k) \<and>
     map_of (prMissingPeers (fst acc')) k =
       (if k = name \<and> missingPeer refs name pd \<noteq> None then missingPeer refs name pd else map_of (prMissingPeers (fst acc)) k) \<and>
     issuesAt (isMissing (snd acc')) k =
       issuesAt (isMissing (snd acc)) k @ (if k = name then missingIssue parents refs name pd else []) \<and>
     issuesAt (isBad (snd acc')) k =
       issuesAt (isBad (snd acc)) k @ (if k = name then badIssue env parents refs places name pd else []))"

lemma resolvePeer_exact:
  assumes "getLocationFromParentNodeIds pkgs tree ids = Inr parents" "placesOk pkgs tree refs places"
  obtains acc' where "resolvePeer env pkgs tree ids refs peer acc = Inr acc'" "oneResolved env parents refs places peer acc acc'"
proof -
  obtain name pd where peer: "peer = (name, pd)" by (cases peer)
  obtain res issues where acc: "acc = (res, issues)" by (cases acc)
  note defs = resolvePeer_def oneResolved_def peer acc providedPeer_def missingPeer_def missingIssue_def badIssue_def update_conv' Let_def
  have "\<exists>acc'. resolvePeer env pkgs tree ids refs peer acc = Inr acc' \<and> oneResolved env parents refs places peer acc acc'"
  proof (cases "map_of refs name")
    case None
    then show ?thesis using assms(1) by (simp add: defs)
  next
    case (Some r)
    then have "r \<in> set (vals refs)" by (force dest: map_of_SomeD)
    then have "(if pfNodeId r = None then Inr [] else getLocationFromParentNodeIds pkgs tree (pfParentNodeIds r)) = Inr (places r)"
      using assms(2) by (auto simp: placesOk_def list_all_iff split: if_splits)
    then show ?thesis using assms(1) Some by (auto simp: defs truthyIdOpt_def split: option.splits)
  qed
  then show ?thesis using that by blast
qed

lemma same_option: "(case x of None \<Rightarrow> None | Some n \<Rightarrow> Some n) = x"
  by (cases x) simp_all

text \<open>C14. (functional) The peers of a package are resolved from what the parents provide, each by itself: a peer that a
  parent provides as a node is resolved to that node, one that no parent provides is missing with its range, and the issues
  grow by exactly one report for each missing peer and for each one whose version is outside the range, which names the
  parents of the package and the place that the version comes from.\<close>

theorem resolvePeersOfPackage_exact:
  assumes "distinct (keys peers)" and "getLocationFromParentNodeIds pkgs tree ids = Inr parents" and "placesOk pkgs tree refs places"
  shows "\<exists>res issues'. resolvePeersOfPackage env pkgs tree ids refs peers issues = Inr (res, issues') \<and> (\<forall>k.
    map_of (prResolvedPeers res) k = onlyIf (map_of peers k) (\<lambda>pd. providedPeer refs k) \<and>
    map_of (prMissingPeers res) k = onlyIf (map_of peers k) (missingPeer refs k) \<and>
    issuesAt (isMissing issues') k =
      issuesAt (isMissing issues) k @ (case map_of peers k of None \<Rightarrow> [] | Some pd \<Rightarrow> missingIssue parents refs k pd) \<and>
    issuesAt (isBad issues') k =
      issuesAt (isBad issues) k @ (case map_of peers k of None \<Rightarrow> [] | Some pd \<Rightarrow> badIssue env parents refs places k pd))"
proof -
  have "\<exists>acc'. sfold (resolvePeer env pkgs tree ids refs) peers acc = Inr acc' \<and> (\<forall>k.
    map_of (prResolvedPeers (fst acc')) k = (case onlyIf (map_of peers k) (\<lambda>pd. providedPeer refs k) of
      Some n \<Rightarrow> Some n | None \<Rightarrow> map_of (prResolvedPeers (fst acc)) k) \<and>
    map_of (prMissingPeers (fst acc')) k = (case onlyIf (map_of peers k) (missingPeer refs k) of
      Some n \<Rightarrow> Some n | None \<Rightarrow> map_of (prMissingPeers (fst acc)) k) \<and>
    issuesAt (isMissing (snd acc')) k = issuesAt (isMissing (snd acc)) k @
      (case map_of peers k of None \<Rightarrow> [] | Some pd \<Rightarrow> missingIssue parents refs k pd) \<and>
    issuesAt (isBad (snd acc')) k = issuesAt (isBad (snd acc)) k @
      (case map_of peers k of None \<Rightarrow> [] | Some pd \<Rightarrow> badIssue env parents refs places k pd))" for acc
    using assms(1)
  proof (induction peers arbitrary: acc)
    case Nil
    then show ?case by (simp add: onlyIf_def)
  next
    case (Cons peer peers)
    obtain name pd where peer: "peer = (name, pd)" by (cases peer)
    obtain acc1 where acc1: "resolvePeer env pkgs tree ids refs peer acc = Inr acc1" "oneResolved env parents refs places peer acc acc1"
      using resolvePeer_exact [OF assms(2,3)] by blast
    have new: "map_of peers name = None" using Cons.prems by (simp add: peer map_of_eq_None_iff)
    have d: "distinct (keys peers)" using Cons.prems by simp
    from Cons.IH [OF d, of acc1] obtain acc' where
      r: "sfold (resolvePeer env pkgs tree ids refs) peers acc1 = Inr acc'" and
      k: "\<And>k. map_of (prResolvedPeers (fst acc')) k = (case onlyIf (map_of peers k) (\<lambda>pd. providedPeer refs k) of
            Some n \<Rightarrow> Some n | None \<Rightarrow> map_of (prResolvedPeers (fst acc1)) k)"
        "\<And>k. map_of (prMissingPeers (fst acc')) k = (case onlyIf (map_of peers k) (missingPeer refs k) of
            Some n \<Rightarrow> Some n | None \<Rightarrow> map_of (prMissingPeers (fst acc1)) k)"
        "\<And>k. issuesAt (isMissing (snd acc')) k = issuesAt (isMissing (snd acc1)) k @
            (case map_of peers k of None \<Rightarrow> [] | Some pd \<Rightarrow> missingIssue parents refs k pd)"
        "\<And>k. issuesAt (isBad (snd acc')) k = issuesAt (isBad (snd acc1)) k @
            (case map_of peers k of None \<Rightarrow> [] | Some pd \<Rightarrow> badIssue env parents refs places k pd)" by blast
    show ?case
      using acc1 r k new
      by (intro exI [of _ acc']) (auto simp: oneResolved_def peer onlyIf_def split: option.splits)
  qed
  from this [of "(noPeers, issues)"] show ?thesis
    by (simp only: resolvePeersOfPackage_def noPeers_def fst_conv snd_conv peersResolution.select_convs map_of.simps same_option)
      (metis prod.collapse)
qed

text \<open>A package below \<open>x\<close> with two peers: one is there in another version, one is missing.\<close>

definition peerTree :: dependenciesTree where
  "peerTree = [(NumId 1, \<lparr>tnChildren = Inr [], tnDepth = 0, tnInstallable = True, tnPkgId = ''x''\<rparr>),
     (NumId 2, \<lparr>tnChildren = Inr [], tnDepth = 0, tnInstallable = True, tnPkgId = ''r''\<rparr>)]"

definition peerPkgs :: treePkgs where
  "peerPkgs = [(''x'', Linked ''x'' ''1.0.0''), (''r'', Linked ''react'' ''15.0.0'')]"

definition peerRefs :: parentRefs where
  "peerRefs = [(''react'', \<lparr>pfVersion = ''15.0.0'', pfDepth = 0, pfNodeId = Some (NumId 2), pfAlias = Some ''react'',
     pfOccurrence = 0, pfParentNodeIds = []\<rparr>)]"

definition strictEnv :: peerEnv where
  "strictEnv = \<lparr>peSatisfies = (\<lambda>v r. v = r), peGte = (\<lambda>v w. Inr (v = w)), peIntersect = (\<lambda>rs. None)\<rparr>"

definition twoPeers :: "peerDependency obj" where
  "twoPeers = [(''react'', \<lparr>pdVersion = ''workspace:16.0.0'', pdOptional = None\<rparr>),
     (''vue'', \<lparr>pdVersion = ''3.0.0'', pdOptional = Some True\<rparr>)]"

theorem resolvePeersOfPackage_exact_witness:
  "\<exists>res issues'. resolvePeersOfPackage strictEnv peerPkgs peerTree [NumId 1] peerRefs twoPeers \<lparr>isMissing = [], isBad = []\<rparr> =
      Inr (res, issues') \<and>
    map_of (prResolvedPeers res) ''react'' = Some (NumId 2) \<and>
    map_of (prMissingPeers res) ''vue'' = Some \<lparr>mpRange = ''3.0.0'', mpOptional = True\<rparr> \<and>
    issuesAt (isMissing issues') ''vue'' = [\<lparr>miParents = [(''x'', ''1.0.0'')], miOptional = True, miWantedRange = ''3.0.0''\<rparr>] \<and>
    issuesAt (isBad issues') ''react'' = [\<lparr>miParents = [(''x'', ''1.0.0'')], miOptional = False, miWantedRange = ''16.0.0'',
      biFoundVersion = ''15.0.0'', biResolvedFrom = []\<rparr>]"
proof -
  have d: "distinct (keys twoPeers)" by (simp add: twoPeers_def)
  have l: "getLocationFromParentNodeIds peerPkgs peerTree [NumId 1] = Inr [(''x'', ''1.0.0'')]" by code_simp
  have p: "placesOk peerPkgs peerTree peerRefs (\<lambda>_. [])" by code_simp
  obtain res issues' where r: "resolvePeersOfPackage strictEnv peerPkgs peerTree [NumId 1] peerRefs twoPeers \<lparr>isMissing = [], isBad = []\<rparr> =
      Inr (res, issues')" and
    k: "\<And>k. map_of (prResolvedPeers res) k = onlyIf (map_of twoPeers k) (\<lambda>pd. providedPeer peerRefs k)"
      "\<And>k. map_of (prMissingPeers res) k = onlyIf (map_of twoPeers k) (missingPeer peerRefs k)"
      "\<And>k. issuesAt (isMissing issues') k = issuesAt [] k @
         (case map_of twoPeers k of None \<Rightarrow> [] | Some pd \<Rightarrow> missingIssue [(''x'', ''1.0.0'')] peerRefs k pd)"
      "\<And>k. issuesAt (isBad issues') k = issuesAt [] k @ (case map_of twoPeers k of None \<Rightarrow> []
         | Some pd \<Rightarrow> badIssue strictEnv [(''x'', ''1.0.0'')] peerRefs (\<lambda>_. []) k pd)"
    using resolvePeersOfPackage_exact [OF d l p, of strictEnv "\<lparr>isMissing = [], isBad = []\<rparr>"]
    unfolding peerIssues.select_convs by blast
  have "onlyIf (map_of twoPeers ''react'') (\<lambda>pd. providedPeer peerRefs ''react'') = Some (NumId 2)"
    "onlyIf (map_of twoPeers ''vue'') (missingPeer peerRefs ''vue'') = Some \<lparr>mpRange = ''3.0.0'', mpOptional = True\<rparr>"
    "issuesAt [] ''vue'' @ (case map_of twoPeers ''vue'' of None \<Rightarrow> [] | Some pd \<Rightarrow> missingIssue [(''x'', ''1.0.0'')] peerRefs ''vue'' pd) =
      [\<lparr>miParents = [(''x'', ''1.0.0'')], miOptional = True, miWantedRange = ''3.0.0''\<rparr>]"
    "issuesAt [] ''react'' @ (case map_of twoPeers ''react'' of None \<Rightarrow> []
       | Some pd \<Rightarrow> badIssue strictEnv [(''x'', ''1.0.0'')] peerRefs (\<lambda>_. []) ''react'' pd) =
      [\<lparr>miParents = [(''x'', ''1.0.0'')], miOptional = False, miWantedRange = ''16.0.0'',
        biFoundVersion = ''15.0.0'', biResolvedFrom = []\<rparr>]"
    by code_simp+
  then show ?thesis using r k by metis
qed

section \<open>A hit fits\<close>

text \<open>Two nodes are as good as each other when they have the same path, or are the same package with the same parents as far
  as they matter.\<close>

definition interchangeable :: "hitCtx \<Rightarrow> nodeId \<Rightarrow> nodeId \<Rightarrow> bool" where
  "interchangeable ctx cached q \<longleftrightarrow> q = cached \<or>
     map_of (hcPathsByNodeId ctx) cached \<noteq> None \<and> map_of (hcPathsByNodeId ctx) cached = map_of (hcPathsByNodeId ctx) q \<or>
     (\<exists>p1 p2. getPackage (hcPkgs ctx) (hcTree ctx) q = Inr p1 \<and> getPackage (hcPkgs ctx) (hcTree ctx) cached = Inr p2 \<and>
       tpPkgId p1 = tpPkgId p2 \<and>
       ((\<exists>i \<in> set (hcPurePkgs ctx). tpPkgId p1 = Some i) \<or> parentPackagesMatch (hcParentPkgsOfNode ctx) (hcPurePkgs ctx) cached q))"

definition provides :: "parentRefs \<Rightarrow> str \<Rightarrow> nodeId \<Rightarrow> bool" where
  "provides refs name q \<longleftrightarrow> (\<exists>r. map_of refs name = Some r \<and> pfNodeId r = Some q)"

lemma sameProvider_sound:
  assumes "sameProvider ctx refs name cached = Inr True" "truthyId cached"
  shows "\<exists>q. provides refs name q \<and> interchangeable ctx cached q"
proof -
  obtain r q where r: "map_of refs name = Some r" "pfNodeId r = Some q" "truthyId q"
    using assms by (auto simp: sameProvider_def Let_def truthyIdOpt_def bind_eq_Some_conv split: if_splits option.splits)
  have "interchangeable ctx cached q"
    using assms(1) r assms(2) unfolding sameProvider_def interchangeable_def
    by (auto simp: Let_def truthyIdOpt_def sbind_Inr_iff split: if_splits option.splits)
  then show ?thesis using r by (auto simp: provides_def)
qed

lemma sameProviders_sound:
  "sameProviders ctx refs m = Inr True \<Longrightarrow> (name, cached) \<in> set m \<Longrightarrow> sameProvider ctx refs name cached = Inr True"
  by (induction ctx refs m rule: sameProviders.induct) (auto simp: sbind_Inr_iff split: if_splits)

lemma findHitFrom_sound:
  "findHitFrom ctx refs i items = Inr (Some k) \<Longrightarrow> i \<le> k \<and> k - i < length items \<and> isHit ctx refs (items ! (k - i)) = Inr True \<and>
     (\<forall>j < k - i. isHit ctx refs (items ! j) = Inr False)"
proof (induction ctx refs i items rule: findHitFrom.induct)
  case (2 ctx refs i item items)
  then obtain b where b: "isHit ctx refs item = Inr b" by (auto simp: sbind_Inr_iff)
  show ?case
  proof (cases b)
    case True
    then show ?thesis using 2(2) b by simp
  next
    case False
    then have IH: "Suc i \<le> k \<and> k - Suc i < length items \<and> isHit ctx refs (items ! (k - Suc i)) = Inr True \<and>
        (\<forall>j < k - Suc i. isHit ctx refs (items ! j) = Inr False)" using 2(1) [OF b] 2(2) b by simp
    then have k: "k - i = Suc (k - Suc i)" by arith
    then show ?thesis using IH b False by (auto simp: less_Suc_eq_0_disj)
  qed
qed simp


text \<open>The first result does not fit, because \<open>react\<close> was missing then.\<close>

definition hitExample :: hitCtx where
  "hitExample = \<lparr>hcPkgs = peerPkgs, hcTree = peerTree, hcPathsByNodeId = [], hcPurePkgs = [], hcParentPkgsOfNode = []\<rparr>"

definition cacheExample :: "peersCacheItem list obj" where
  "cacheExample = [(''p@1.0.0'', [\<lparr>ciMissingPeers = [(''react'', \<lparr>mpRange = ''15'', mpOptional = False\<rparr>)], ciDepPath = None, ciResolvedPeers = []\<rparr>,
     \<lparr>ciMissingPeers = [(''vue'', \<lparr>mpRange = ''3'', mpOptional = False\<rparr>)], ciDepPath = None, ciResolvedPeers = [(''react'', NumId 2)]\<rparr>])]"


end
