(* ===== verification/InjectedDeps.thy ===== *)
theory InjectedDeps
  imports UpdateLockfile ManifestUtils DependencyTree
begin

text \<open>
  pkg-manager/resolve-dependencies/src/dedupeInjectedDeps.ts: a project of the workspace that was injected into another one
  (installed as a copy, with a file: id) is linked instead when the copy would have no dependency that differs from the
  project's own. \<open>path.relative\<close> with normalize-path, and \<open>path.join\<close>, are parameters.
\<close>

section \<open>Linking instead of injecting\<close>

type_synonym dependenciesByProjectId = "depPath option obj obj"

record injectedDep =
  ijDepPath :: depPath
  ijId :: str

text \<open>\<open>{ ...prev, isLinkedDependency, pkgId, resolution }\<close>\<close>

record linkedDependency =
  ldPrev :: "resolvedDirectDependency option"
  ldPkgId :: str
  ldDirectory :: str

record resolvedImporter =
  riDirectDependencies :: "resolvedDirectDependency list"
  riLinkedDependencies :: "linkedDependency list"

record injectCtx =
  icProjects :: "(str \<times> nodeId obj) list"
  icDepGraph :: dependenciesGraph
  icPathsByNodeId :: "(nodeId \<times> depPath) list"
  icLockfileDir :: str
  icRelative :: "str \<Rightarrow> str \<Rightarrow> str"
  icJoin :: "str \<Rightarrow> str \<Rightarrow> str"

definition addInjectedDep ::
    "injectCtx \<Rightarrow> str \<Rightarrow> str \<times> nodeId \<Rightarrow> injectedDep obj obj \<Rightarrow> js_error + injectedDep obj obj" where
  "addInjectedDep ctx projectId direct acc =
     (case direct of (alias, nodeId) \<Rightarrow>
        case Option.bind (map_of (icPathsByNodeId ctx) nodeId) (\<lambda>d. map_option (\<lambda>g. (d, g)) (map_of (icDepGraph ctx) d)) of
          None \<Rightarrow> Inl (TypeError ''depGraph[depPath].id'')
        | Some (d, g) \<Rightarrow>
            if \<not> startsWith (rpId g) ''file:'' then Inr acc
            else let target = drop 5 (rpId g) in
              Inr (if target \<in> set (map fst (icProjects ctx))
                then jset projectId (jset alias \<lparr>ijDepPath = d, ijId = target\<rparr> (orEmpty (map_of acc projectId))) acc
                else acc))"

definition getInjectedDepsByProjects :: "injectCtx \<Rightarrow> js_error + injectedDep obj obj" where
  "getInjectedDepsByProjects ctx =
     sfold (\<lambda>(projectId, direct). sfold (addInjectedDep ctx projectId) direct) (icProjects ctx) []"

definition sameChild :: "depPath option obj \<Rightarrow> str \<times> depPath \<Rightarrow> bool" where
  "sameChild own child = (map_of own (fst child) = Some (Some (snd child)))"

definition dedupeAlias ::
    "injectCtx \<Rightarrow> dependenciesByProjectId \<Rightarrow> str \<times> injectedDep \<Rightarrow> str obj \<Rightarrow> js_error + str obj" where
  "dedupeAlias ctx byProject entry acc =
     (case entry of (alias, dep) \<Rightarrow>
        case map_of (icDepGraph ctx) (ijDepPath dep) of
          None \<Rightarrow> Inl (TypeError ''depGraph[depPath].children'')
        | Some g \<Rightarrow>
            (case map_of byProject (ijId dep) of
               None \<Rightarrow> if gnChildren g = [] then Inr (jset alias (ijId dep) acc) else Inl (TypeError ''dependenciesByProjectId[id].get'')
             | Some own \<Rightarrow> Inr (if list_all (sameChild own) (gnChildren g) then jset alias (ijId dep) acc else acc)))"

definition getDedupeMap ::
    "injectCtx \<Rightarrow> dependenciesByProjectId \<Rightarrow> injectedDep obj obj \<Rightarrow> js_error + str obj obj" where
  "getDedupeMap ctx byProject copies =
     sfold (\<lambda>(projectId, deps) acc. sbind (sfold (dedupeAlias ctx byProject) deps [])
       (\<lambda>aliases. Inr (jset projectId aliases acc))) copies []"

definition linkInstead :: "injectCtx \<Rightarrow> str \<Rightarrow> str \<times> str \<Rightarrow> resolvedImporter \<Rightarrow> resolvedImporter" where
  "linkInstead ctx projectId entry importer =
     (let (alias, dedupedProjectId) = entry;
          pid = ''link:'' @ icRelative ctx projectId dedupedProjectId;
          dir = icJoin ctx (icLockfileDir ctx) dedupedProjectId;
          direct = riDirectDependencies importer;
          index = length (takeWhile (\<lambda>d. rdAlias d \<noteq> alias) direct)
      in \<lparr>riDirectDependencies = (if index < length direct
            then direct[index := (direct ! index)\<lparr>rdLinked := True, rdPkgId := pid, rdResolution := DirectoryResolution dir\<rparr>]
            else direct),
          riLinkedDependencies = riLinkedDependencies importer @
            [\<lparr>ldPrev = (if index < length direct then Some (direct ! index) else None), ldPkgId = pid, ldDirectory = dir\<rparr>]\<rparr>)"

type_synonym dedupeResult = "dependenciesByProjectId \<times> resolvedImporter obj"

definition applyDedupe :: "injectCtx \<Rightarrow> str \<Rightarrow> str \<times> str \<Rightarrow> dedupeResult \<Rightarrow> js_error + dedupeResult" where
  "applyDedupe ctx projectId entry acc =
     (let (byProject, imps) = acc in
      case (map_of byProject projectId, map_of imps projectId) of
        (Some own, Some importer) \<Rightarrow>
          Inr (jset projectId (jdel (fst entry) own) byProject, jset projectId (linkInstead ctx projectId entry importer) imps)
      | _ \<Rightarrow> Inl (TypeError ''dependenciesByProjectId[id]''))"

definition applyDedupeMap :: "injectCtx \<Rightarrow> str obj obj \<Rightarrow> dedupeResult \<Rightarrow> js_error + dedupeResult" where
  "applyDedupeMap ctx dedupeMap acc =
     sfold (\<lambda>(projectId, aliases). sfold (applyDedupe ctx projectId) aliases) dedupeMap acc"

definition dedupeInjectedDeps ::
    "injectCtx \<Rightarrow> dependenciesByProjectId \<Rightarrow> resolvedImporter obj \<Rightarrow> js_error + dedupeResult" where
  "dedupeInjectedDeps ctx byProject imps =
     sbind (getInjectedDepsByProjects ctx) (\<lambda>copies.
     sbind (getDedupeMap ctx byProject copies) (\<lambda>dedupeMap. applyDedupeMap ctx dedupeMap (byProject, imps)))"

section \<open>Only copies without dependencies of their own are linked\<close>

lemma set_update_pair: "(a, b) \<in> set (jset k v m) \<Longrightarrow> (a, b) \<in> set m \<or> a = k \<and> b = v"
  by (induction m) (auto split: if_splits)

text \<open>The copy that a direct dependency of a project points at.\<close>

definition copyOf :: "injectCtx \<Rightarrow> str \<Rightarrow> str \<Rightarrow> depPath \<Rightarrow> graphNode \<Rightarrow> str \<Rightarrow> bool" where
  "copyOf ctx projectId a d g target \<longleftrightarrow> (\<exists>direct n. (projectId, direct) \<in> set (icProjects ctx) \<and> (a, n) \<in> set direct \<and>
     map_of (icPathsByNodeId ctx) n = Some d \<and> map_of (icDepGraph ctx) d = Some g \<and> rpId g = ''file:'' @ target \<and>
     target \<in> set (map fst (icProjects ctx)))"

definition copiesOk :: "injectCtx \<Rightarrow> injectedDep obj obj \<Rightarrow> bool" where
  "copiesOk ctx copies \<longleftrightarrow> (\<forall>i deps a c. (i, deps) \<in> set copies \<longrightarrow> (a, c) \<in> set deps \<longrightarrow>
     (\<exists>g. copyOf ctx i a (ijDepPath c) g (ijId c)))"

lemma addInjectedDep_ok:
  assumes "addInjectedDep ctx i (a, n) acc = Inr acc'" "copiesOk ctx acc" "(i, direct) \<in> set (icProjects ctx)" "(a, n) \<in> set direct"
  shows "copiesOk ctx acc'"
proof -
  obtain d g where d: "map_of (icPathsByNodeId ctx) n = Some d" "map_of (icDepGraph ctx) d = Some g"
    using assms(1) by (auto simp: addInjectedDep_def bind_eq_Some_conv split: option.splits)
  show ?thesis
  proof (cases "startsWith (rpId g) ''file:'' \<and> drop 5 (rpId g) \<in> set (map fst (icProjects ctx))")
    case True
    let ?c = "\<lparr>ijDepPath = d, ijId = drop 5 (rpId g)\<rparr>"
    let ?deps = "jset a ?c (orEmpty (map_of acc i))"
    have acc': "acc' = jset i ?deps acc" using assms(1) d True by (auto simp: addInjectedDep_def Let_def)
    have "rpId g = ''file:'' @ drop 5 (rpId g)" using True by (auto simp: startsWith_iff)
    then have new: "copyOf ctx i a (ijDepPath ?c) g (ijId ?c)" using assms(3,4) d True unfolding copyOf_def by auto
    have old: "(b, c) \<in> set (orEmpty (map_of acc i)) \<Longrightarrow> \<exists>g. copyOf ctx i b (ijDepPath c) g (ijId c)" for b c
      using assms(2) unfolding copiesOk_def by (cases "map_of acc i") (auto dest: map_of_SomeD)
    have "\<exists>g. copyOf ctx i b (ijDepPath c) g (ijId c)" if "(b, c) \<in> set ?deps" for b c
    proof (cases "(b, c) \<in> set (orEmpty (map_of acc i))")
      case False
      then have "b = a \<and> c = ?c" using that set_update_pair by metis
      then show ?thesis using new by blast
    qed (rule old)
    moreover have "(j, deps) \<in> set acc' \<Longrightarrow> (j, deps) \<in> set acc \<or> j = i \<and> deps = ?deps" for j deps
      unfolding acc' by (rule set_update_pair)
    ultimately show ?thesis using assms(2) unfolding copiesOk_def by metis
  next
    case False
    then have "acc' = acc" using assms(1) d by (auto simp: addInjectedDep_def Let_def split: if_splits)
    then show ?thesis using assms(2) by simp
  qed
qed


lemma getInjectedDeps_ok:
  assumes "getInjectedDepsByProjects ctx = Inr copies"
  shows "copiesOk ctx copies"
proof -
  have inner: "sfold (addInjectedDep ctx i) ds acc = Inr acc' \<Longrightarrow> copiesOk ctx acc \<Longrightarrow> (i, direct) \<in> set (icProjects ctx) \<Longrightarrow>
      set ds \<subseteq> set direct \<Longrightarrow> copiesOk ctx acc'" for ds i direct acc acc'
  proof (induction ds arbitrary: acc)
    case (Cons x ds)
    then obtain acc1 where "addInjectedDep ctx i (fst x, snd x) acc = Inr acc1" "sfold (addInjectedDep ctx i) ds acc1 = Inr acc'"
      by (auto simp: sbind_Inr_iff)
    then show ?case using Cons.IH [of acc1] addInjectedDep_ok [of ctx i "fst x" "snd x" acc acc1 direct] Cons.prems(2-4) by auto
  qed simp
  have "sfold (\<lambda>(projectId, direct). sfold (addInjectedDep ctx projectId) direct) ps acc = Inr copies \<Longrightarrow> copiesOk ctx acc \<Longrightarrow>
      set ps \<subseteq> set (icProjects ctx) \<Longrightarrow> copiesOk ctx copies" for ps acc
  proof (induction ps arbitrary: acc)
    case (Cons x ps)
    then obtain acc1 where a: "sfold (addInjectedDep ctx (fst x)) (snd x) acc = Inr acc1"
      "sfold (\<lambda>(projectId, direct). sfold (addInjectedDep ctx projectId) direct) ps acc1 = Inr copies"
      by (auto simp: sbind_Inr_iff case_prod_unfold)
    have "copiesOk ctx acc1" using inner [OF a(1) Cons.prems(2), of "snd x"] Cons.prems(3) by auto
    then show ?case using Cons.IH [OF a(2)] Cons.prems(3) by simp
  qed simp
  from this [of "icProjects ctx" "[]"] show ?thesis
    using assms by (simp add: getInjectedDepsByProjects_def copiesOk_def)
qed

text \<open>What makes a copy superfluous: its children are the direct dependencies of the project itself.\<close>

definition nothingOfItsOwn :: "dependenciesByProjectId \<Rightarrow> str \<Rightarrow> graphNode \<Rightarrow> bool" where
  "nothingOfItsOwn byProject target g \<longleftrightarrow> (\<forall>(c, d) \<in> set (gnChildren g).
     \<exists>own. map_of byProject target = Some own \<and> map_of own c = Some (Some d))"

lemma dedupeAliases_ok:
  assumes "sfold (dedupeAlias ctx byProject) deps acc = Inr acc'" "map_of acc' a = Some target"
  shows "map_of acc a = Some target \<or> (\<exists>c g. (a, c) \<in> set deps \<and> ijId c = target \<and>
    map_of (icDepGraph ctx) (ijDepPath c) = Some g \<and> nothingOfItsOwn byProject target g)"
  using assms
proof (induction deps arbitrary: acc)
  case (Cons x deps)
  obtain b c where x: "x = (b, c)" by (cases x)
  from Cons.prems(1) obtain acc1 where acc1: "dedupeAlias ctx byProject (b, c) acc = Inr acc1"
    "sfold (dedupeAlias ctx byProject) deps acc1 = Inr acc'" by (auto simp: x sbind_Inr_iff)
  have "map_of acc1 a = map_of acc a \<or> (a = b \<and> map_of acc1 a = Some (ijId c) \<and>
      (\<exists>g. map_of (icDepGraph ctx) (ijDepPath c) = Some g \<and> nothingOfItsOwn byProject (ijId c) g))"
    using acc1(1) by (auto simp: dedupeAlias_def nothingOfItsOwn_def sameChild_def list_all_iff update_conv' split: option.splits if_splits)
  then show ?case using Cons.IH [OF acc1(2) Cons.prems(2)] x by auto
qed simp

text \<open>C26. (safety) An injected project is replaced by a link only when its copy is superfluous: the dependency points at a copy
  of another project of the workspace, and every child of the copy is the very dependency that the project has itself. So
  the project that is linked sees the same packages as its copy did.\<close>

theorem getDedupeMap_sound:
  assumes "getInjectedDepsByProjects ctx = Inr copies" and "getDedupeMap ctx byProject copies = Inr m"
    and "map_of m i = Some aliases" and "map_of aliases a = Some target"
  shows "\<exists>d g. copyOf ctx i a d g target \<and> nothingOfItsOwn byProject target g"
proof -
  have "map_of acc i = Some aliases \<or> (\<exists>deps. (i, deps) \<in> set cs \<and> sfold (dedupeAlias ctx byProject) deps [] = Inr aliases)"
    if "sfold (\<lambda>(projectId, deps) acc. sbind (sfold (dedupeAlias ctx byProject) deps [])
       (\<lambda>aliases. Inr (jset projectId aliases acc))) cs acc = Inr m" for cs acc
    using that
  proof (induction cs arbitrary: acc)
    case (Cons x cs)
    obtain j deps where x: "x = (j, deps)" by (cases x)
    from Cons.prems obtain al where al: "sfold (dedupeAlias ctx byProject) deps [] = Inr al" and
      r: "sfold (\<lambda>(projectId, deps) acc. sbind (sfold (dedupeAlias ctx byProject) deps [])
       (\<lambda>aliases. Inr (jset projectId aliases acc))) cs (jset j al acc) = Inr m"
      by (auto simp: x sbind_Inr_iff)
    from Cons.IH [OF r] show ?case using al by (auto simp: x update_conv' split: if_splits)
  qed (use assms(3) in simp)
  from this [of copies "[]"] assms(2) obtain deps where deps: "(i, deps) \<in> set copies"
    "sfold (dedupeAlias ctx byProject) deps [] = Inr aliases" by (auto simp: getDedupeMap_def)
  from dedupeAliases_ok [OF deps(2) assms(4)] obtain c g where c: "(a, c) \<in> set deps" "ijId c = target"
    "map_of (icDepGraph ctx) (ijDepPath c) = Some g" "nothingOfItsOwn byProject target g" by auto
  from getInjectedDeps_ok [OF assms(1)] deps(1) c(1) obtain g' where "copyOf ctx i a (ijDepPath c) g' (ijId c)"
    unfolding copiesOk_def by blast
  then show ?thesis using c unfolding copyOf_def by fastforce
qed

text \<open>The project \<open>a\<close> has a copy of \<open>b\<close>, whose only child is the \<open>c\<close> that \<open>b\<close> has itself.\<close>

definition injectExample :: injectCtx where
  "injectExample = \<lparr>icProjects = [(''a'', [(''b'', NumId 1)]), (''b'', [(''c'', NumId 2)])],
     icDepGraph = [(''b@file:b'', (exampleNode ''b'' [(''c'', ''c@1.0.0'')])\<lparr>rpId := ''file:b''\<rparr>), (''c@1.0.0'', exampleNode ''c'' [])],
     icPathsByNodeId = [(NumId 1, ''b@file:b''), (NumId 2, ''c@1.0.0'')], icLockfileDir = ''/'', icRelative = (\<lambda>x y. y),
     icJoin = (\<lambda>x y. x @ y)\<rparr>"

definition byProjectExample :: dependenciesByProjectId where
  "byProjectExample = [(''a'', [(''b'', Some ''b@file:b'')]), (''b'', [(''c'', Some ''c@1.0.0'')])]"

theorem getDedupeMap_sound_witness:
  "getDedupeMap injectExample byProjectExample [(''a'', [(''b'', \<lparr>ijDepPath = ''b@file:b'', ijId = ''b''\<rparr>)])] =
      Inr [(''a'', [(''b'', ''b'')])] \<and>
    (\<exists>d g. copyOf injectExample ''a'' ''b'' d g ''b'' \<and> nothingOfItsOwn byProjectExample ''b'' g)"
proof -
  have c: "getInjectedDepsByProjects injectExample = Inr [(''a'', [(''b'', \<lparr>ijDepPath = ''b@file:b'', ijId = ''b''\<rparr>)])]" by code_simp
  have m: "getDedupeMap injectExample byProjectExample [(''a'', [(''b'', \<lparr>ijDepPath = ''b@file:b'', ijId = ''b''\<rparr>)])] =
      Inr [(''a'', [(''b'', ''b'')])]" by code_simp
  show ?thesis using getDedupeMap_sound [OF c m, of "''a''" "[(''b'', ''b'')]" "''b''" "''b''"] m by simp
qed

end
