(* ===== verification/PeerResolution.thy ===== *)
theory PeerResolution
  imports PeerContext PeerDedupe InjectedDeps
begin

text \<open>
  pkg-manager/resolve-dependencies/src/resolvePeers.ts: the walk over the dependency tree that resolves the peers
  (\<open>resolvePeersOfNode\<close>, \<open>resolvePeersOfChildren\<close>, \<open>resolvePeers\<close>). The functions are asynchronous: the walk itself is
  sequential, but a node whose dependency path is not known yet leaves a task behind that waits for promises. The state
  holds the tasks; between two parts of the walk, where the code awaits, any of the tasks whose promises are resolved may
  run. In which order they run is given by a schedule, a parameter that every statement quantifies over. Parameters are
  also Node's \<open>path.join\<close>, filenamify, the hash function, and the cycles that graph-cycles finds.
\<close>

section \<open>The state\<close>

record resolveCtx =
  rcEnv :: peerEnv
  rcTreeCtx :: treeCtx
  rcPkgs :: treePkgs
  rcAllPeerDepNames :: "str list"
  rcVirtualStoreDir :: str
  rcVirtualStoreDirMaxLength :: nat
  rcPeersSuffixMaxLength :: nat
  rcCreateHexHash :: "str \<Rightarrow> str"
  rcFilenamify :: "str \<Rightarrow> str"
  rcJoin :: "str list \<Rightarrow> str"
  rcAnalyzeCycles :: "(str \<times> str list) list \<Rightarrow> str list list"
  rcSchedule :: "nat \<Rightarrow> nat list"

record peerGraphNode =
  qgPackage :: resolvedPackage
  qgChildrenNodeIds :: "nodeId obj"
  qgDepPath :: depPath
  qgDepth :: int
  qgDir :: str
  qgInstallable :: bool
  qgIsPure :: bool
  qgModules :: str
  qgTransitivePeerDependencies :: "str list"
  qgResolvedPeerNames :: "str list"

text \<open>What the closures of one call of \<open>resolvePeersOfNode\<close> use. An item of the cache is found by its package and place.\<close>

record nodeInfo =
  niAlias :: str
  niNodeId :: nodeId
  niDepth :: int
  niInstallable :: bool
  niPackage :: resolvedPackage
  niChildren :: "nodeId obj"
  niResolvedPeers :: "nodeId obj"
  niAllResolvedPeers :: "nodeId obj"
  niMissingPeersOfChildren :: "missingPeerInfo obj"
  niIsPure :: bool
  niParentNodeIds :: "nodeId list"
  niParentDepPathsChain :: "str list"
  niCache :: "(str \<times> nat) option"

text \<open>\<open>calculateDepPath\<close> with its two bound arguments, and the tasks: the end of a hit, and \<open>calculateDepPath\<close> once it
  waits for its pending peers. A peer of a cycle is an id already.\<close>

record calculateDepPath =
  cdInfo :: nodeInfo
  cdPeerIds :: "peerId list"
  cdPendingPeers :: "(str \<times> nodeId) list"

datatype pendingTask =
    HitTask nodeId int str nat
  | PathTask nodeInfo "peerId list" "(str + nodeId) list"

record peerState =
  psTree :: treeState
  psDepGraph :: "peerGraphNode obj"
  psPathsByNodeId :: "(nodeId \<times> depPath) list"
  psPathsByNodeIdPromises :: "(nodeId \<times> depPath option) list"
  psDepPathsByPkgId :: "depPath list obj"
  psPeersCache :: "peersCacheItem list obj"
  psPurePkgs :: "str list"
  psIssues :: peerIssues
  psParentPkgsOfNode :: "(nodeId \<times> parentPkgInfo obj) list"
  psTasks :: "pendingTask list"
  psClock :: nat

text \<open>A call throws, or it never ends because its tasks wait for each other, or the fuel of the walk is too small.\<close>

datatype resolveError = Throws js_error | NeverEnds | OutOfFuel

definition asError :: "js_error + 'a \<Rightarrow> resolveError + 'a" where
  "asError x = (case x of Inl e \<Rightarrow> Inl (Throws e) | Inr a \<Rightarrow> Inr a)"

text \<open>\<open>pathsByNodeIdPromises.get(nodeId)!.resolve(depPath)\<close>: only the first call counts.\<close>

definition resolvePromise :: "nodeId \<Rightarrow> depPath \<Rightarrow> peerState \<Rightarrow> js_error + peerState" where
  "resolvePromise nodeId d st =
     (case map_of (psPathsByNodeIdPromises st) nodeId of
        None \<Rightarrow> Inl (TypeError ''pathsByNodeIdPromises.get(nodeId)'')
      | Some None \<Rightarrow> Inr (st\<lparr>psPathsByNodeIdPromises := jset nodeId (Some d) (psPathsByNodeIdPromises st)\<rparr>)
      | Some (Some _) \<Rightarrow> Inr st)"

definition cacheItemAt :: "(str \<times> nat) \<Rightarrow> peersCacheItem list obj \<Rightarrow> peersCacheItem option" where
  "cacheItemAt ref cache =
     (case map_of cache (fst ref) of
        None \<Rightarrow> None
      | Some items \<Rightarrow> if snd ref < length items then Some (items ! snd ref) else None)"

definition resolveCacheItem :: "depPath \<Rightarrow> (str \<times> nat) option \<Rightarrow> peersCacheItem list obj \<Rightarrow> peersCacheItem list obj" where
  "resolveCacheItem d ref cache =
     (case ref of
        None \<Rightarrow> cache
      | Some (pid, i) \<Rightarrow>
          (case map_of cache pid of
             None \<Rightarrow> cache
           | Some items \<Rightarrow> if i < length items \<and> ciDepPath (items ! i) = None
               then jset pid (items[i := (items ! i)\<lparr>ciDepPath := Some d\<rparr>]) cache else cache))"

section \<open>A node of the graph\<close>

definition addPreviousChildren ::
    "resolveCtx \<Rightarrow> str \<Rightarrow> nodeId \<Rightarrow> nodeId obj \<times> treeState \<Rightarrow> js_error + nodeId obj \<times> treeState" where
  "addPreviousChildren ctx currentDepPath parentNodeId acc =
     sbind (getPackage (rcPkgs ctx) (tsTree (snd acc)) parentNodeId) (\<lambda>p.
       if tpPkgId p = Some currentDepPath
       then sbind (forceChildren (rcTreeCtx ctx) parentNodeId (snd acc)) (\<lambda>(m, tree'). Inr (spread (fst acc) m, tree'))
       else Inr acc)"

definition getPreviouslyResolvedChildren ::
    "resolveCtx \<Rightarrow> nodeId list \<Rightarrow> str list \<Rightarrow> str \<Rightarrow> treeState \<Rightarrow> js_error + nodeId obj \<times> treeState" where
  "getPreviouslyResolvedChildren ctx parentNodeIds parentDepPathsChain currentDepPath tree =
     (if currentDepPath = [] \<or> currentDepPath \<notin> set parentDepPathsChain then Inr ([], tree)
      else sfold (addPreviousChildren ctx currentDepPath) (rev parentNodeIds) ([], tree))"

definition transitivePeers :: "nodeInfo \<Rightarrow> str list" where
  "transitivePeers info =
     fold sadd (filter (\<lambda>p. map_of (rpPeerDependencies (niPackage info)) p = None)
       (keys (niAllResolvedPeers info) @ keys (niMissingPeersOfChildren info))) []"

definition graphNodeAt :: "resolveCtx \<Rightarrow> nodeInfo \<Rightarrow> depPath \<Rightarrow> nodeId obj \<Rightarrow> peerGraphNode" where
  "graphNodeAt ctx info d previousChildren =
     (let modules = rcJoin ctx [rcVirtualStoreDir ctx,
          depPathToFilename (rcCreateHexHash ctx) d (rcVirtualStoreDirMaxLength ctx), ''node_modules'']
      in \<lparr>qgPackage = niPackage info,
          qgChildrenNodeIds = spread (spread previousChildren (niChildren info)) (niResolvedPeers info),
          qgDepPath = d, qgDepth = niDepth info, qgDir = rcJoin ctx [modules, rpName (niPackage info)],
          qgInstallable = niInstallable info, qgIsPure = niIsPure info, qgModules = modules,
          qgTransitivePeerDependencies = transitivePeers info,
          qgResolvedPeerNames = keys (niAllResolvedPeers info)\<rparr>)"

definition addDepPathToGraph :: "resolveCtx \<Rightarrow> nodeInfo \<Rightarrow> depPath \<Rightarrow> peerState \<Rightarrow> js_error + peerState" where
  "addDepPathToGraph ctx info d st =
     (let pid = rpPkgIdWithPatchHash (niPackage info) in
      sbind (resolvePromise (niNodeId info) d
          (st\<lparr>psPeersCache := resolveCacheItem d (niCache info) (psPeersCache st),
              psPathsByNodeId := jset (niNodeId info) d (psPathsByNodeId st)\<rparr>)) (\<lambda>st1.
        let st2 = st1\<lparr>psDepPathsByPkgId :=
              jset pid (sadd d (orEmpty (map_of (psDepPathsByPkgId st1) pid))) (psDepPathsByPkgId st1)\<rparr> in
        if (case map_of (psDepGraph st2) d of None \<Rightarrow> True | Some g \<Rightarrow> niDepth info < qgDepth g)
        then sbind (getPreviouslyResolvedChildren ctx (niParentNodeIds info) (niParentDepPathsChain info) pid (psTree st2))
          (\<lambda>(previousChildren, tree'). Inr (st2\<lparr>psTree := tree',
             psDepGraph := jset d (graphNodeAt ctx info d previousChildren) (psDepGraph st2)\<rparr>))
        else Inr st2))"

section \<open>Tasks\<close>

definition isReady :: "peerState \<Rightarrow> pendingTask \<Rightarrow> bool" where
  "isReady st t =
     (case t of
        HitTask nodeId depth pid i \<Rightarrow>
          (case cacheItemAt (pid, i) (psPeersCache st) of None \<Rightarrow> False | Some item \<Rightarrow> ciDepPath item \<noteq> None)
      | PathTask info peerIds waits \<Rightarrow>
          list_all (\<lambda>w. case w of Inl _ \<Rightarrow> True
            | Inr n \<Rightarrow> (case map_of (psPathsByNodeIdPromises st) n of Some (Some _) \<Rightarrow> True | _ \<Rightarrow> False)) waits)"

text \<open>The rest of an asynchronous function, once the promises that it waits for are resolved.\<close>

definition runTask :: "resolveCtx \<Rightarrow> pendingTask \<Rightarrow> peerState \<Rightarrow> js_error + peerState" where
  "runTask ctx t st =
     (case t of
        HitTask nodeId depth pid i \<Rightarrow>
          (case Option.bind (cacheItemAt (pid, i) (psPeersCache st)) ciDepPath of
             None \<Rightarrow> Inl (TypeError ''hit'')
           | Some d \<Rightarrow>
               (case map_of (psDepGraph st) d of
                  None \<Rightarrow> Inl (TypeError ''depGraph[depPath].depth'')
                | Some g \<Rightarrow> resolvePromise nodeId d
                    (st\<lparr>psPathsByNodeId := jset nodeId d (psPathsByNodeId st),
                        psDepGraph := jset d (g\<lparr>qgDepth := min (qgDepth g) depth\<rparr>) (psDepGraph st)\<rparr>)))
      | PathTask info peerIds waits \<Rightarrow>
          let paths = map (\<lambda>w. case w of Inl p \<Rightarrow> p | Inr n \<Rightarrow> the (the (map_of (psPathsByNodeIdPromises st) n))) waits in
          addDepPathToGraph ctx info (rpPkgIdWithPatchHash (niPackage info) @
            createPeersDirSuffix (rcCreateHexHash ctx) (peerIds @ map PeerDep paths) (rcPeersSuffixMaxLength ctx)) st)"

text \<open>The task at a place runs if its promises are resolved.\<close>

definition tryTask :: "resolveCtx \<Rightarrow> nat \<Rightarrow> peerState \<Rightarrow> js_error + peerState" where
  "tryTask ctx i st =
     (if i < length (psTasks st) \<and> isReady st (psTasks st ! i)
      then runTask ctx (psTasks st ! i) (st\<lparr>psTasks := take i (psTasks st) @ drop (Suc i) (psTasks st)\<rparr>)
      else Inr st)"

text \<open>An \<open>await\<close>: some of the tasks run, as the schedule says.\<close>

definition awaitTasks :: "resolveCtx \<Rightarrow> peerState \<Rightarrow> js_error + peerState" where
  "awaitTasks ctx st = sfold (tryTask ctx) (rcSchedule ctx (psClock st)) (st\<lparr>psClock := Suc (psClock st)\<rparr>)"

text \<open>\<open>calculateDepPath(cycles)\<close> up to its \<open>await\<close>: a pending peer that is in a cycle with the package is known by its name
  and version.\<close>

definition startPending :: "resolveCtx \<Rightarrow> str list \<Rightarrow> str \<times> nodeId \<Rightarrow> (str + nodeId) list \<times> peerState \<Rightarrow>
    js_error + (str + nodeId) list \<times> peerState" where
  "startPending ctx cyclicPeerAliases pending acc =
     (let (peerAlias, peerNodeId) = pending; (waits, st) = acc in
      if peerAlias \<in> set cyclicPeerAliases
      then sbind (getPackage (rcPkgs ctx) (tsTree (psTree st)) peerNodeId) (\<lambda>p.
        let peerId = tpName p @ ''@'' @ tpVersion p in
        if map_of (psPathsByNodeIdPromises st) peerNodeId = None then Inr (waits @ [Inl peerId], st)
        else sbind (resolvePromise peerNodeId peerId st) (\<lambda>st'. Inr (waits @ [Inl peerId], st')))
      else if map_of (psPathsByNodeIdPromises st) peerNodeId = None
      then Inl (TypeError ''pathsByNodeIdPromises.get(nodeId).promise'')
      else Inr (waits @ [Inr peerNodeId], st))"

definition startTask :: "resolveCtx \<Rightarrow> str list list \<Rightarrow> calculateDepPath \<Rightarrow> peerState \<Rightarrow> js_error + peerState" where
  "startTask ctx cycles c st =
     (let cyclicPeerAliases = concat (filter (\<lambda>cycle. niAlias (cdInfo c) \<in> set cycle) cycles) in
      sbind (sfold (startPending ctx cyclicPeerAliases) (cdPendingPeers c) ([], st)) (\<lambda>(waits, st').
        Inr (st'\<lparr>psTasks := psTasks st' @ [PathTask (cdInfo c) (cdPeerIds c) waits]\<rparr>)))"

section \<open>The walk\<close>

record nodeScope =
  nsParentNodeIds :: "nodeId list"
  nsParentDepPathsChain :: "str list"

record nodeResult = peersResolution +
  nrCalculateDepPath :: "calculateDepPath option"

definition nodeResultOf :: "peersResolution \<Rightarrow> calculateDepPath option \<Rightarrow> nodeResult" where
  "nodeResultOf r c = \<lparr>prResolvedPeers = prResolvedPeers r, prMissingPeers = prMissingPeers r, nrCalculateDepPath = c\<rparr>"

text \<open>A package without peers at all (a pure one) need not be resolved again, unless it comes nearer to the root.\<close>

definition knownPure :: "resolvedPackage \<Rightarrow> treeNode \<Rightarrow> peerState \<Rightarrow> js_error + bool" where
  "knownPure p node st =
     (if rpPkgIdWithPatchHash p \<in> set (psPurePkgs st)
      then (case map_of (psDepGraph st) (rpPkgIdWithPatchHash p) of
          None \<Rightarrow> Inl (TypeError ''depGraph[pkgIdWithPatchHash].depth'')
        | Some g \<Rightarrow> Inr (qgDepth g \<le> tnDepth node \<and> rpPeerDependencies p = []))
      else Inr False)"

definition resolvedPackageOf :: "resolveCtx \<Rightarrow> treeNode \<Rightarrow> js_error + resolvedPackage" where
  "resolvedPackageOf ctx node =
     sbind (packageOf (rcPkgs ctx) node) (\<lambda>p. case p of Resolved r \<Rightarrow> Inr r | Linked _ _ \<Rightarrow> Inl (TypeError ''peerDependencies''))"

definition hitCtxOf :: "resolveCtx \<Rightarrow> peerState \<Rightarrow> hitCtx" where
  "hitCtxOf ctx st = \<lparr>hcPkgs = rcPkgs ctx, hcTree = tsTree (psTree st), hcPathsByNodeId = psPathsByNodeId st,
     hcPurePkgs = psPurePkgs st, hcParentPkgsOfNode = psParentPkgsOfNode st\<rparr>"

definition reportMissing ::
    "resolveCtx \<Rightarrow> nodeId list \<Rightarrow> str \<times> missingPeerInfo \<Rightarrow> peerState \<Rightarrow> js_error + peerState" where
  "reportMissing ctx parentNodeIds missing st =
     sbind (getLocationFromParentNodeIds (rcPkgs ctx) (tsTree (psTree st)) parentNodeIds) (\<lambda>parents.
       Inr (st\<lparr>psIssues := (psIssues st)\<lparr>isMissing := pushAt (fst missing)
         \<lparr>miParents = parents, miOptional = mpOptional (snd missing), miWantedRange = mpRange (snd missing)\<rparr>
         (isMissing (psIssues st))\<rparr>\<rparr>))"

definition takeHit ::
    "resolveCtx \<Rightarrow> nodeId list \<Rightarrow> nodeId \<Rightarrow> treeNode \<Rightarrow> str \<times> nat \<Rightarrow> peerState \<Rightarrow> js_error + nodeResult \<times> peerState" where
  "takeHit ctx parentNodeIds nodeId node ref st =
     (case cacheItemAt ref (psPeersCache st) of
        None \<Rightarrow> Inl (TypeError ''hit'')
      | Some hit \<Rightarrow> sbind (sfold (reportMissing ctx parentNodeIds) (ciMissingPeers hit) st) (\<lambda>st'. Inr
          (\<lparr>prResolvedPeers = ciResolvedPeers hit, prMissingPeers = ciMissingPeers hit, nrCalculateDepPath = None\<rparr>,
           st'\<lparr>psTasks := psTasks st' @ [HitTask nodeId (tnDepth node) (fst ref) (snd ref)]\<rparr>)))"

definition splitPeer :: "resolveCtx \<Rightarrow> (nodeId \<times> depPath) list \<Rightarrow> str \<times> nodeId \<Rightarrow> peerId list \<times> (str \<times> nodeId) list \<Rightarrow>
    peerId list \<times> (str \<times> nodeId) list" where
  "splitPeer ctx paths peer acc =
     (let (peerAlias, peerNodeId) = peer; (peerIds, pendingPeers) = acc in
      if linkId peerNodeId
      then (peerIds @ [PeerPkg peerAlias (rcFilenamify ctx (case peerNodeId of StrId s \<Rightarrow> drop 5 s | NumId _ \<Rightarrow> []))], pendingPeers)
      else if truthy (map_of paths peerNodeId) then (peerIds @ [PeerDep (the (map_of paths peerNodeId))], pendingPeers)
      else (peerIds, pendingPeers @ [(peerAlias, peerNodeId)]))"

definition setAll :: "('k \<times> 'v) list \<Rightarrow> ('k \<times> 'v) list \<Rightarrow> ('k \<times> 'v) list" where
  "setAll entries m = fold (\<lambda>(k, v). jset k v) entries m"

text \<open>The part of \<open>resolvePeersOfNode\<close> after its children are resolved.\<close>

definition recordPeers :: "str \<Rightarrow> peersResolution \<Rightarrow> peerState \<Rightarrow> peerState \<times> (str \<times> nat) option" where
  "recordPeers pid r st =
     (if prResolvedPeers r = [] \<and> prMissingPeers r = []
      then (st\<lparr>psPurePkgs := sadd pid (psPurePkgs st)\<rparr>, None)
      else let items = orEmpty (map_of (psPeersCache st) pid) in
        (st\<lparr>psPeersCache := jset pid (items @ [\<lparr>ciMissingPeers = prMissingPeers r, ciDepPath = None,
           ciResolvedPeers = prResolvedPeers r\<rparr>]) (psPeersCache st)\<rparr>, Some (pid, length items)))"

definition nameNode :: "resolveCtx \<Rightarrow> nodeInfo \<Rightarrow> peersResolution \<Rightarrow> peerState \<Rightarrow> js_error + nodeResult \<times> peerState" where
  "nameNode ctx info r st =
     (let pid = rpPkgIdWithPatchHash (niPackage info) in
      if prResolvedPeers r = []
      then sbind (addDepPathToGraph ctx info pid st) (\<lambda>st'. Inr (nodeResultOf r None, st'))
      else let (peerIds, pendingPeers) = fold (splitPeer ctx (psPathsByNodeId st)) (prResolvedPeers r) ([], []) in
        if pendingPeers = []
        then sbind (addDepPathToGraph ctx info
            (pid @ createPeersDirSuffix (rcCreateHexHash ctx) peerIds (rcPeersSuffixMaxLength ctx)) st)
          (\<lambda>st'. Inr (nodeResultOf r None, st'))
        else Inr (nodeResultOf r (Some \<lparr>cdInfo = info, cdPeerIds = peerIds, cdPendingPeers = pendingPeers\<rparr>), st))"

definition finishNode ::
    "resolveCtx \<Rightarrow> nodeScope \<Rightarrow> str \<Rightarrow> nodeId \<Rightarrow> treeNode \<Rightarrow> resolvedPackage \<Rightarrow> nodeId obj \<Rightarrow> parentRefs \<Rightarrow> peersResolution \<Rightarrow>
     peerState \<Rightarrow> js_error + nodeResult \<times> peerState" where
  "finishNode ctx scope currentAlias nodeId node p children parentPkgs ofChildren st =
     sbind (if rpPeerDependencies p = [] then Inr (noPeers, psIssues st)
       else resolvePeersOfPackage (rcEnv ctx) (rcPkgs ctx) (tsTree (psTree st)) (nsParentNodeIds scope @ [nodeId]) parentPkgs
         (rpPeerDependencies p) (psIssues st)) (\<lambda>(own, issues).
       let allResolvedPeers = jdel (rpName p) (setAll (prResolvedPeers own) (prResolvedPeers ofChildren));
           allMissingPeers = setAll (prMissingPeers own) (setAll (prMissingPeers ofChildren) []);
           r = \<lparr>prResolvedPeers = allResolvedPeers, prMissingPeers = allMissingPeers\<rparr>;
           (st1, cache) = recordPeers (rpPkgIdWithPatchHash p) r (st\<lparr>psIssues := issues\<rparr>)
       in nameNode ctx \<lparr>niAlias = currentAlias, niNodeId = nodeId, niDepth = tnDepth node, niInstallable = tnInstallable node,
            niPackage = p, niChildren = children, niResolvedPeers = prResolvedPeers own, niAllResolvedPeers = allResolvedPeers,
            niMissingPeersOfChildren = prMissingPeers ofChildren,
            niIsPure = (allResolvedPeers = [] \<and> allMissingPeers = []), niParentNodeIds = nsParentNodeIds scope,
            niParentDepPathsChain = nsParentDepPathsChain scope, niCache = cache\<rparr> r st1)"

subsection \<open>The children of a node\<close>

definition parentInfoOf :: "treePkgs \<Rightarrow> dependenciesTree \<Rightarrow> str \<times> parentRef \<Rightarrow> js_error + str \<times> parentPkgInfo" where
  "parentInfoOf pkgs tree entry =
     (case entry of (name, r) \<Rightarrow>
        if truthyIdOpt (pfNodeId r) \<and> \<not> linkId (the (pfNodeId r))
        then sbind (getPackage pkgs tree (the (pfNodeId r))) (\<lambda>p. Inr (name, \<lparr>piPkgIdWithPatchHash = tpPkgId p,
          piVersion = None, piDepth = Some (pfDepth r), piOccurrence = Some (pfOccurrence r)\<rparr>))
        else Inr (name, \<lparr>piPkgIdWithPatchHash = None, piVersion = Some (pfVersion r), piDepth = None, piOccurrence = None\<rparr>))"

text \<open>Children whose alias the parents have come first; a node is resolved once, under its last alias.\<close>

definition childNodeIds :: "nodeId obj \<Rightarrow> parentRefs \<Rightarrow> nodeId list" where
  "childNodeIds children parentPkgs =
     (let (repeated, notRepeated) = partition (\<lambda>(a, _). map_of parentPkgs a \<noteq> None) children
      in uniq (map snd (repeated @ notRepeated)))"

definition aliasByNodeId :: "nodeId obj \<Rightarrow> nodeId \<Rightarrow> str" where
  "aliasByNodeId children nodeId = (case map_of (rev (map (\<lambda>(a, n). (n, a)) children)) nodeId of None \<Rightarrow> [] | Some a \<Rightarrow> a)"

definition addPromise :: "nodeId \<Rightarrow> (nodeId \<times> depPath option) list \<Rightarrow> (nodeId \<times> depPath option) list" where
  "addPromise nodeId promises = (if map_of promises nodeId = None then jset nodeId None promises else promises)"

record childrenLoop =
  clResolvedPeers :: "nodeId obj"
  clMissingPeers :: "missingPeerInfo obj"
  clGraph :: "(str \<times> str list) list"
  clCalculateDepPaths :: "calculateDepPath list"

type_synonym nodeResolver = "nodeScope \<Rightarrow> str \<Rightarrow> nodeId \<Rightarrow> parentRefs \<Rightarrow> peerState \<Rightarrow> resolveError + nodeResult \<times> peerState"

definition resolveChild ::
    "resolveCtx \<Rightarrow> nodeResolver \<Rightarrow> nodeScope \<Rightarrow> nodeId obj \<Rightarrow> parentRefs \<Rightarrow> nodeId \<Rightarrow> childrenLoop \<times> peerState \<Rightarrow>
     resolveError + childrenLoop \<times> peerState" where
  "resolveChild ctx resolveNode scope children parentPkgs childNodeId acc =
     (let currentAlias = aliasByNodeId children childNodeId; l = fst acc in
      sbind (resolveNode scope currentAlias childNodeId parentPkgs (snd acc)) (\<lambda>(r, st).
      sbind (asError (awaitTasks ctx st)) (\<lambda>st'. Inr
        (\<lparr>clResolvedPeers = setAll (prResolvedPeers r) (clResolvedPeers l),
          clMissingPeers = setAll (prMissingPeers r) (clMissingPeers l),
          clGraph = clGraph l @ [(currentAlias, keys (prResolvedPeers r))],
          clCalculateDepPaths = clCalculateDepPaths l @
            (case nrCalculateDepPath r of None \<Rightarrow> [] | Some c \<Rightarrow> [c])\<rparr>, st'))))"

definition startTasks :: "resolveCtx \<Rightarrow> childrenLoop \<Rightarrow> peerState \<Rightarrow> js_error + peerState" where
  "startTasks ctx l st =
     (if clCalculateDepPaths l = [] then Inr st
      else sfold (startTask ctx (rcAnalyzeCycles ctx (clGraph l))) (clCalculateDepPaths l) st)"

definition openChildren :: "resolveCtx \<Rightarrow> parentRefs \<Rightarrow> nodeId list \<Rightarrow> peerState \<Rightarrow> js_error + peerState" where
  "openChildren ctx parentPkgs nodeIds st =
     sbind (smap (parentInfoOf (rcPkgs ctx) (tsTree (psTree st)))
         (filter (\<lambda>(name, _). name \<in> set (rcAllPeerDepNames ctx)) parentPkgs)) (\<lambda>parentDepPaths. Inr
       (st\<lparr>psPathsByNodeIdPromises := fold addPromise nodeIds (psPathsByNodeIdPromises st),
           psParentPkgsOfNode := fold (\<lambda>n. jset n parentDepPaths) nodeIds (psParentPkgsOfNode st)\<rparr>))"

definition resolvePeersOfChildren ::
    "resolveCtx \<Rightarrow> nodeResolver \<Rightarrow> nodeScope \<Rightarrow> nodeId obj \<Rightarrow> parentRefs \<Rightarrow> peerState \<Rightarrow>
     resolveError + peersResolution \<times> peerState" where
  "resolvePeersOfChildren ctx resolveNode scope children parentPkgs st =
     (let nodeIds = childNodeIds children parentPkgs in
      sbind (asError (openChildren ctx parentPkgs nodeIds st)) (\<lambda>st1.
      sbind (sfold (resolveChild ctx resolveNode scope children parentPkgs) nodeIds
          (\<lparr>clResolvedPeers = [], clMissingPeers = [], clGraph = [], clCalculateDepPaths = []\<rparr>, st1)) (\<lambda>(l, st2).
      sbind (asError (startTasks ctx l st2)) (\<lambda>st3. Inr
        (\<lparr>prResolvedPeers = filter (\<lambda>(a, _). \<not> truthyIdOpt (map_of children a)) (clResolvedPeers l),
          prMissingPeers = clMissingPeers l\<rparr>, st3)))))"

text \<open>The fuel is the depth of the tree.\<close>

primrec resolvePeersOfNode :: "resolveCtx \<Rightarrow> nat \<Rightarrow> nodeResolver" where
  "resolvePeersOfNode ctx 0 scope currentAlias nodeId parentParentPkgs st = Inl OutOfFuel"
| "resolvePeersOfNode ctx (Suc fuel) scope currentAlias nodeId parentParentPkgs st =
     sbind (asError (getNode (tsTree (psTree st)) nodeId)) (\<lambda>node.
     if tnDepth node = - 1 then Inr (nodeResultOf noPeers None, st)
     else
     sbind (asError (resolvedPackageOf ctx node)) (\<lambda>p.
     sbind (asError (knownPure p node st)) (\<lambda>pure.
     if pure
     then sbind (asError (resolvePromise nodeId (rpPkgIdWithPatchHash p)
         (st\<lparr>psPathsByNodeId := jset nodeId (rpPkgIdWithPatchHash p) (psPathsByNodeId st)\<rparr>))) (\<lambda>st'.
       Inr (nodeResultOf noPeers None, st'))
     else
     sbind (asError (forceChildren (rcTreeCtx ctx) nodeId (psTree st))) (\<lambda>(children, tree').
     let st1 = st\<lparr>psTree := tree'\<rparr>; parentNodeIds = nsParentNodeIds scope @ [nodeId] in
     sbind (asError (childParentPkgs (rcEnv ctx) (rcPkgs ctx) (rcAllPeerDepNames ctx) (tsTree tree') parentNodeIds children
       parentParentPkgs)) (\<lambda>parentPkgs.
     sbind (asError (findHit (hitCtxOf ctx st1) (psPeersCache st1) parentPkgs (rpPkgIdWithPatchHash p))) (\<lambda>hit.
     case hit of
       Some i \<Rightarrow> asError (takeHit ctx parentNodeIds nodeId node (rpPkgIdWithPatchHash p, i) st1)
     | None \<Rightarrow>
         let chain = nsParentDepPathsChain scope;
             chain' = (if rpPkgIdWithPatchHash p \<in> set chain then chain else chain @ [rpPkgIdWithPatchHash p]) in
         sbind (resolvePeersOfChildren ctx (resolvePeersOfNode ctx fuel)
           \<lparr>nsParentNodeIds = parentNodeIds, nsParentDepPathsChain = chain'\<rparr> children parentPkgs st1) (\<lambda>(ofChildren, st2).
         sbind (asError (awaitTasks ctx st2)) (\<lambda>st3.
           asError (finishNode ctx scope currentAlias nodeId node p children parentPkgs ofChildren st3)))))))))"

section \<open>All projects\<close>

record resolvePeersOptions =
  roProjects :: "projectToResolve list"
  roResolvePeersFromWorkspaceRoot :: bool
  roDedupePeerDependents :: bool
  roDedupeInjectedDeps :: bool
  roLockfileDir :: str
  roRelative :: "str \<Rightarrow> str \<Rightarrow> str"

record peerDependencyIssues = peerIssues +
  pyMerged :: mergePeersResult

definition noIssues :: peerIssues where
  "noIssues = \<lparr>isMissing = [], isBad = []\<rparr>"

definition initialState :: "treeState \<Rightarrow> peerState" where
  "initialState tree = \<lparr>psTree = tree, psDepGraph = [], psPathsByNodeId = [], psPathsByNodeIdPromises = [],
     psDepPathsByPkgId = [], psPeersCache = [], psPurePkgs = [], psIssues = noIssues, psParentPkgsOfNode = [],
     psTasks = [], psClock = 0\<rparr>"

definition projectPkgs :: "resolveCtx \<Rightarrow> parentRefs \<Rightarrow> projectToResolve \<Rightarrow> treeState \<Rightarrow> js_error + parentRefs" where
  "projectPkgs ctx rootPkgsByName project tree =
     sbind (createPkgsByName (rcEnv ctx) (rcPkgs ctx) (tsTree tree) project) (\<lambda>pkgs.
       Inr (filter (\<lambda>(peerName, _). peerName \<in> set (rcAllPeerDepNames ctx)) (spread rootPkgsByName pkgs)))"

definition promiseIds :: "parentRefs \<Rightarrow> nodeId list" where
  "promiseIds pkgsByName = List.map_filter (\<lambda>(_, r). if truthyIdOpt (pfNodeId r) then pfNodeId r else None) pkgsByName"

definition resolvePeersOfProject ::
    "resolveCtx \<Rightarrow> nat \<Rightarrow> parentRefs \<Rightarrow> projectToResolve \<Rightarrow> peerState \<times> peerDependencyIssues obj \<Rightarrow>
     resolveError + peerState \<times> peerDependencyIssues obj" where
  "resolvePeersOfProject ctx fuel rootPkgsByName project acc =
     (let (st, issuesByProjects) = acc in
      sbind (asError (projectPkgs ctx rootPkgsByName project (psTree st))) (\<lambda>pkgsByName.
      let st1 = st\<lparr>psIssues := noIssues, psParentPkgsOfNode := [],
            psPathsByNodeIdPromises := fold addPromise (promiseIds pkgsByName) (psPathsByNodeIdPromises st)\<rparr> in
      sbind (resolvePeersOfChildren ctx (resolvePeersOfNode ctx fuel) \<lparr>nsParentNodeIds = [], nsParentDepPathsChain = []\<rparr>
          (pjDirectNodeIdsByAlias project) pkgsByName st1) (\<lambda>(_, st2).
      sbind (asError (awaitTasks ctx st2)) (\<lambda>st3.
        let issues = psIssues st3 in
        Inr (st3, if isBad issues \<noteq> [] \<or> isMissing issues \<noteq> []
          then jset (pjId project) \<lparr>isMissing = isMissing issues, isBad = isBad issues,
            pyMerged = mergePeers (rcEnv ctx) (isMissing issues)\<rparr> issuesByProjects
          else issuesByProjects)))))"

text \<open>\<open>await Promise.all(finishingList)\<close>: every task has to run. When none of them can, the promise is never resolved.\<close>

definition readyTask :: "peerState \<Rightarrow> nat option" where
  "readyTask st = List.find (\<lambda>i. isReady st (psTasks st ! i)) [0..<length (psTasks st)]"

primrec finishTasks :: "resolveCtx \<Rightarrow> nat \<Rightarrow> peerState \<Rightarrow> resolveError + peerState" where
  "finishTasks ctx 0 st = (if psTasks st = [] then Inr st else Inl NeverEnds)"
| "finishTasks ctx (Suc n) st =
     (if psTasks st = [] then Inr st
      else case readyTask st of
          None \<Rightarrow> Inl NeverEnds
        | Some i \<Rightarrow> sbind (asError (tryTask ctx i st)) (finishTasks ctx n))"

definition finishAll :: "resolveCtx \<Rightarrow> peerState \<Rightarrow> resolveError + peerState" where
  "finishAll ctx st = sbind (asError (awaitTasks ctx st)) (\<lambda>st'. finishTasks ctx (length (psTasks st')) st')"

definition resolveChildren :: "(nodeId \<times> depPath) list \<Rightarrow> peerGraphNode \<Rightarrow> graphNode" where
  "resolveChildren paths node =
     resolvedPackage.extend (resolvedPackage.truncate (qgPackage node)) (graphNode.fields
       (map (\<lambda>(a, n). (a, case map_of paths n of Some d \<Rightarrow> d | None \<Rightarrow> (case n of StrId s \<Rightarrow> s | NumId _ \<Rightarrow> [])))
         (qgChildrenNodeIds node))
       (qgTransitivePeerDependencies node) (qgResolvedPeerNames node) (qgDepth node))"

text \<open>A number is no dependency path; that each number has a path when all tasks have run is shown below.\<close>

definition byProjectIdOf :: "(nodeId \<times> depPath) list \<Rightarrow> projectToResolve list \<Rightarrow> dependenciesByProjectId" where
  "byProjectIdOf paths projects =
     fold (\<lambda>p. jset (pjId p) (map (\<lambda>(a, n). (a, map_of paths n)) (pjDirectNodeIdsByAlias p))) projects []"

definition redirectDirect :: "depPath obj \<Rightarrow> projectToResolve list \<Rightarrow> dependenciesByProjectId \<Rightarrow> dependenciesByProjectId" where
  "redirectDirect depPathsMap projects byProject =
     map (\<lambda>(i, deps). (i, if i \<in> set (map pjId projects)
       then map (\<lambda>(a, d). (a, case Option.bind d (map_of depPathsMap) of Some e \<Rightarrow> Some e | None \<Rightarrow> d)) deps else deps)) byProject"

record resolvePeersResult =
  rrDependenciesGraph :: dependenciesGraph
  rrDependenciesByProjectId :: dependenciesByProjectId
  rrIssuesByProjects :: "peerDependencyIssues obj"
  rrResolvedImporters :: "resolvedImporter obj"

definition resolveTree ::
    "resolveCtx \<Rightarrow> nat \<Rightarrow> resolvePeersOptions \<Rightarrow> treeState \<Rightarrow> resolveError + peerState \<times> peerDependencyIssues obj" where
  "resolveTree ctx fuel opts tree =
     sbind (asError (if roResolvePeersFromWorkspaceRoot opts
         then getRootPkgsByName (rcEnv ctx) (rcPkgs ctx) (tsTree tree) (roProjects opts) else Inr [])) (\<lambda>rootPkgsByName.
     sbind (sfold (resolvePeersOfProject ctx fuel rootPkgsByName) (roProjects opts) (initialState tree, [])) (\<lambda>(st, issues).
     sbind (finishAll ctx st) (\<lambda>st'. Inr (st', issues))))"

definition resolvePeers ::
    "resolveCtx \<Rightarrow> nat \<Rightarrow> resolvePeersOptions \<Rightarrow> treeState \<Rightarrow> resolvedImporter obj \<Rightarrow> resolveError + resolvePeersResult" where
  "resolvePeers ctx fuel opts tree imps =
     sbind (resolveTree ctx fuel opts tree) (\<lambda>(st, issues).
     let paths = psPathsByNodeId st;
         graph = map (\<lambda>(d, g). (d, resolveChildren paths g)) (psDepGraph st);
         byProject = byProjectIdOf paths (roProjects opts) in
     sbind (asError (if roDedupeInjectedDeps opts
         then dedupeInjectedDeps \<lparr>icProjects = map (\<lambda>p. (pjId p, pjDirectNodeIdsByAlias p)) (roProjects opts),
             icDepGraph = graph, icPathsByNodeId = paths, icLockfileDir = roLockfileDir opts, icRelative = roRelative opts,
             icJoin = (\<lambda>a b. rcJoin ctx [a, b])\<rparr> byProject imps
         else Inr (byProject, imps))) (\<lambda>(byProject', imps').
     sbind (asError (if roDedupePeerDependents opts
         then sbind (deduplicateAll graph (filter (\<lambda>ds. length ds > 1) (vals (psDepPathsByPkgId st)))) (\<lambda>(m, graph').
           Inr (graph', redirectDirect m (roProjects opts) byProject'))
         else Inr (graph, byProject'))) (\<lambda>(graph', byProject'').
       Inr \<lparr>rrDependenciesGraph = graph', rrDependenciesByProjectId = byProject'', rrIssuesByProjects = issues,
         rrResolvedImporters = imps'\<rparr>)))"

section \<open>Examples\<close>

text \<open>Two packages that are each the peer of the other. graph-cycles finds the cycles of two nodes, which is all they need.\<close>

definition toyPackage :: "str \<Rightarrow> str obj \<Rightarrow> resolvedPackage" where
  "toyPackage name peers = \<lparr>rpId = name @ ''@1.0.0'', rpPkgIdWithPatchHash = name @ ''@1.0.0'', rpName = name,
     rpVersion = ''1.0.0'', rpResolution = IntegrityResolution [],
     rpPeerDependencies = map (\<lambda>(n, v). (n, \<lparr>pdVersion = v, pdOptional = None\<rparr>)) peers, rpOptionalDependencies = [],
     rpOptional = False, rpHasBin = False, rpPatched = False, rpEngines = None, rpCpu = None, rpOs = None, rpLibc = None,
     rpBundledDependencies = None, rpBundleDependencies = None, rpDeprecated = None\<rparr>"

definition pairCycles :: "(str \<times> str list) list \<Rightarrow> str list list" where
  "pairCycles g = map (\<lambda>((a, _), (b, _)). [a, b]) (filter (\<lambda>((a, as), (b, bs)). b \<in> set as \<and> a \<in> set bs) (List.product g g))"

definition toyCtx :: "(nat \<Rightarrow> nat list) \<Rightarrow> resolveCtx" where
  "toyCtx schedule = \<lparr>rcEnv = \<lparr>peSatisfies = (\<lambda>v r. True), peGte = (\<lambda>v w. Inr True), peIntersect = (\<lambda>rs. None)\<rparr>,
     rcTreeCtx = \<lparr>tcChildrenByParentId = [(''a@1.0.0'', []), (''b@1.0.0'', [])],
       tcIsLeaf = [(''a@1.0.0'', False), (''b@1.0.0'', False)], tcSkipped = []\<rparr>,
     rcPkgs = [(''a@1.0.0'', Resolved (toyPackage ''a'' [(''b'', ''1'')])), (''b@1.0.0'', Resolved (toyPackage ''b'' [(''a'', ''1'')]))],
     rcAllPeerDepNames = [''a'', ''b''], rcVirtualStoreDir = ''v'', rcVirtualStoreDirMaxLength = 120,
     rcPeersSuffixMaxLength = 1000, rcCreateHexHash = id, rcFilenamify = id, rcJoin = concat, rcAnalyzeCycles = pairCycles,
     rcSchedule = schedule\<rparr>"

definition toyPending :: "nat \<Rightarrow> str \<Rightarrow> pendingNode" where
  "toyPending i d = \<lparr>pnNodeId = NumId i, pnPkgId = d, pnDepth = 0, pnInstallable = True, pnParentIds = [''.'', d]\<rparr>"

definition toyTree :: treeState where
  "toyTree = \<lparr>tsCounter = 2, tsTree = addPendingNode (toyPending 2 ''b@1.0.0'') (addPendingNode (toyPending 1 ''a@1.0.0'') [])\<rparr>"

definition toyProject :: "str \<Rightarrow> str \<Rightarrow> resolvePeersOptions" where
  "toyProject x y = \<lparr>roProjects = [\<lparr>pjDirectNodeIdsByAlias = [(x, NumId 1), (y, NumId 2)], pjTopParents = [], pjId = ''.''\<rparr>],
     roResolvePeersFromWorkspaceRoot = False, roDedupePeerDependents = False, roDedupeInjectedDeps = False,
     roLockfileDir = ''/'', roRelative = (\<lambda>a b. b)\<rparr>"

text \<open>Installed under their names, the two packages get their paths; under other aliases the cycle is not found, since its
  nodes are aliases and its edges the names of peers, and both wait for the path of the other.\<close>

lemma peers_of_each_other:
  "(case resolvePeers (toyCtx (\<lambda>_. [])) 3 (toyProject ''a'' ''b'') toyTree [] of Inl e \<Rightarrow> [] | Inr r \<Rightarrow> keys (rrDependenciesGraph r)) =
     [''a@1.0.0(b@1.0.0)'', ''b@1.0.0(a@1.0.0)'']"
  by code_simp

lemma aliased_peers_never_end:
  "(case resolvePeers (toyCtx (\<lambda>_. [])) 3 (toyProject ''x'' ''y'') toyTree [] of Inl NeverEnds \<Rightarrow> True | _ \<Rightarrow> False)"
  by code_simp

end
