(* ===== verification/PeerClosed.thy ===== *)
theory PeerClosed
  imports PeerResolution
begin

text \<open>
  The graph that \<open>resolvePeers\<close> returns (\<open>PeerResolution\<close>) has no loose ends. An invariant of the state, kept by every part
  of the walk and by every task in whichever order they run, says that the children of a node of the graph are links, or
  have a path already, or a task that will give them one, or are still to be visited.
\<close>

section \<open>The dependency tree while it is built\<close>

definition treeOk :: "treeState \<Rightarrow> bool" where
  "treeOk ts \<longleftrightarrow> (\<forall>k n. map_of (tsTree ts) k = Some n \<longrightarrow> (\<forall>i. k = NumId i \<longrightarrow> i \<le> tsCounter ts) \<and>
     (tnDepth n = - 1 \<longrightarrow> linkId k) \<and> (\<forall>t. tnChildren n = Inl t \<longrightarrow> 0 \<le> ttDepth t))"

text \<open>The children of a node stay as they are once they are known.\<close>

definition opened :: "dependenciesTree \<Rightarrow> nodeId \<Rightarrow> nodeId obj \<Rightarrow> bool" where
  "opened tree i m \<longleftrightarrow> (\<exists>n. map_of tree i = Some n \<and> tnChildren n = Inr m)"

definition treeGrows :: "treeState \<Rightarrow> treeState \<Rightarrow> bool" where
  "treeGrows ts ts' \<longleftrightarrow> (\<forall>i m. opened (tsTree ts) i m \<longrightarrow> opened (tsTree ts') i m)"

lemma treeGrows_refl [simp]: "treeGrows ts ts" by (simp add: treeGrows_def)

lemma treeGrows_trans: "treeGrows a b \<Longrightarrow> treeGrows b c \<Longrightarrow> treeGrows a c" by (simp add: treeGrows_def)

text \<open>The nodes that a call of \<open>buildTree\<close> adds.\<close>

definition newNode :: "nat \<Rightarrow> nat \<Rightarrow> int \<Rightarrow> nodeId \<times> treeNode \<Rightarrow> bool" where
  "newNode start c depth x \<longleftrightarrow> (\<exists>i. fst x = NumId i \<and> start < i \<and> i \<le> c) \<and> tnDepth (snd x) = depth \<and>
     (\<exists>t. tnChildren (snd x) = Inl t \<and> ttDepth t = depth + 1)"

definition newNodesOk :: "nat \<Rightarrow> int \<Rightarrow> treeLoop \<Rightarrow> bool" where
  "newNodesOk start depth l \<longleftrightarrow> start \<le> tlCounter l \<and> (\<forall>x \<in> set (tlNew l). newNode start (tlCounter l) depth x)"

lemma newNode_Suc: "newNode start c depth x \<Longrightarrow> newNode start (Suc c) depth x"
  unfolding newNode_def using le_SucI by blast

lemma addTreeChild_newNodesOk:
  assumes "addTreeChild ctx t child l = Inr l'" "newNodesOk start (ttDepth t) l"
  shows "newNodesOk start (ttDepth t) l'"
proof -
  consider "tlNew l' = tlNew l" "tlCounter l' = tlCounter l"
    | x where "tlNew l' = tlNew l @ [x]" "tlCounter l' = Suc (tlCounter l)" "fst x = NumId (Suc (tlCounter l))"
      "tnDepth (snd x) = ttDepth t" "\<exists>t'. tnChildren (snd x) = Inl t' \<and> ttDepth t' = ttDepth t + 1"
    using assms(1) unfolding addTreeChild_def by (auto simp: Let_def split: prod.splits if_splits option.splits bool.splits)
  then show ?thesis
  proof cases
    case 1
    then show ?thesis using assms(2) by (simp add: newNodesOk_def)
  next
    case 2
    then have "newNode start (Suc (tlCounter l)) (ttDepth t) x" using assms(2) by (simp add: newNode_def newNodesOk_def)
    then show ?thesis using assms(2) newNode_Suc unfolding newNodesOk_def 2 by (simp add: ball_Un)
  qed
qed

lemma addTreeChildren_newNodesOk:
  "sfold (addTreeChild ctx t) cs l = Inr l' \<Longrightarrow> newNodesOk start (ttDepth t) l \<Longrightarrow> newNodesOk start (ttDepth t) l'"
  by (induction cs arbitrary: l) (auto simp: sbind_Inr_iff intro: addTreeChild_newNodesOk)

lemma addNodes_map_of:
  "map_of (fold (\<lambda>(k, n). jset k (f n)) xs tree) k = Some n \<Longrightarrow>
     map_of tree k = Some n \<or> (\<exists>n0. (k, n0) \<in> set xs \<and> n = f n0)"
proof (induction xs arbitrary: tree)
  case (Cons x xs)
  obtain a b where x: "x = (a, b)" by (cases x)
  show ?case using Cons.IH [of "jset a (f b) tree"] Cons.prems by (auto simp: x update_conv' split: if_splits)
qed simp

lemma addNodes_other:
  "k \<notin> fst ` set xs \<Longrightarrow> map_of (fold (\<lambda>(k, n). jset k (f n)) xs tree) k = map_of tree k"
  by (induction xs arbitrary: tree) (auto simp: update_conv')

lemma buildTree_ok:
  assumes "buildTree ctx t ts = Inr (m, ts')" "treeOk ts" "0 \<le> ttDepth t"
  shows "treeOk ts' \<and> treeGrows ts ts'"
    and "map_of (tsTree ts) k = Some n \<Longrightarrow> map_of (tsTree ts') k = Some n"
proof -
  obtain l where l: "newNodesOk (tsCounter ts) (ttDepth t) l"
    and ts': "ts' = \<lparr>tsCounter = tlCounter l,
      tsTree = fold (\<lambda>(k, n). jset k (shareInstallable (tlInstallable l) n)) (tlNew l) (tsTree ts)\<rparr>"
  proof -
    obtain cs l where l: "sfold (addTreeChild ctx t) cs \<lparr>tlInstallable = ttInstallable t, tlChildrenNodeIds = [], tlNew = [],
        tlCounter = tsCounter ts\<rparr> = Inr l"
      and ts': "ts' = \<lparr>tsCounter = tlCounter l,
        tsTree = fold (\<lambda>(k, n). jset k (shareInstallable (tlInstallable l) n)) (tlNew l) (tsTree ts)\<rparr>"
      using assms(1) by (auto simp: buildTree_def sbind_Inr_iff split: option.splits)
    have "newNodesOk (tsCounter ts) (ttDepth t) l"
      by (rule addTreeChildren_newNodesOk [OF l]) (simp add: newNodesOk_def)
    then show ?thesis using that ts' by blast
  qed
  have old: "map_of (tsTree ts') k = Some n" if "map_of (tsTree ts) k = Some n" for k n
  proof -
    have "k \<notin> fst ` set (tlNew l)" using that l assms(2) by (fastforce simp: newNodesOk_def newNode_def treeOk_def)
    then show ?thesis using that by (simp add: ts' addNodes_other)
  qed
  then show "map_of (tsTree ts) k = Some n \<Longrightarrow> map_of (tsTree ts') k = Some n" by blast
  have "treeGrows ts ts'" using old by (auto simp: treeGrows_def opened_def)
  moreover have "treeOk ts'"
    unfolding treeOk_def
  proof (intro allI impI, goal_cases)
    case (1 k n)
    from 1 [unfolded ts', simplified]
    consider "map_of (tsTree ts) k = Some n" | n0 where "(k, n0) \<in> set (tlNew l)" "n = shareInstallable (tlInstallable l) n0"
      using addNodes_map_of by fastforce
    then show ?case
    proof cases
      case 1
      moreover have "tsCounter ts \<le> tsCounter ts'" using l by (simp add: newNodesOk_def ts')
      ultimately show ?thesis using assms(2) 1 unfolding treeOk_def by (metis le_trans)
    next
      case 2
      then have "newNode (tsCounter ts) (tlCounter l) (ttDepth t) (k, n0)" using l unfolding newNodesOk_def by blast
      then show ?thesis using 2(2) assms(3) by (auto simp: newNode_def shareInstallable_def ts')
    qed
  qed
  ultimately show "treeOk ts' \<and> treeGrows ts ts'" by simp
qed

lemma forceChildren_ok:
  assumes "forceChildren ctx i ts = Inr (m, ts')" "treeOk ts"
  shows "treeOk ts'" and "treeGrows ts ts'" and "opened (tsTree ts') i m"
proof -
  obtain n where n: "map_of (tsTree ts) i = Some n" using assms(1) by (auto simp: forceChildren_def split: option.splits)
  have "treeOk ts' \<and> treeGrows ts ts' \<and> opened (tsTree ts') i m"
  proof (cases "tnChildren n")
    case (Inr m0)
    then show ?thesis using assms n by (auto simp: forceChildren_def opened_def)
  next
    case (Inl t)
    then obtain ts1 where b: "buildTree ctx t ts = Inr (m, ts1)"
      and ts': "ts' = ts1\<lparr>tsTree := jset i (n\<lparr>tnChildren := Inr m\<rparr>) (tsTree ts1)\<rparr>"
      using assms(1) n by (auto simp: forceChildren_def sbind_Inr_iff)
    have t: "0 \<le> ttDepth t" using assms(2) n Inl by (auto simp: treeOk_def)
    note b1 = buildTree_ok [OF b assms(2) t]
    have n1: "map_of (tsTree ts1) i = Some n" using b1(2) n by blast
    have "treeOk ts'" using b1(1) n1 unfolding ts' treeOk_def by (auto simp: update_conv')
    moreover have "treeGrows ts ts'" using b1(1) n Inl by (auto simp: ts' treeGrows_def opened_def update_conv')
    ultimately show ?thesis by (simp add: ts' opened_def update_conv')
  qed
  then show "treeOk ts'" "treeGrows ts ts'" "opened (tsTree ts') i m" by simp_all
qed

section \<open>The invariant\<close>

fun taskNode :: "pendingTask \<Rightarrow> nodeId" where
  "taskNode (HitTask nodeId _ _ _) = nodeId"
| "taskNode (PathTask info _ _) = niNodeId info"

text \<open>The nodes that have a path or a task that will give them one.\<close>

definition covered :: "peerState \<Rightarrow> nodeId set" where
  "covered st = fst ` set (psPathsByNodeId st) \<union> taskNode ` set (psTasks st)"

text \<open>\<open>V\<close> holds the nodes that the walk is still going to visit.\<close>

definition okId :: "nodeId set \<Rightarrow> peerState \<Rightarrow> nodeId \<Rightarrow> bool" where
  "okId V st n \<longleftrightarrow> linkId n \<or> n \<in> V \<or> n \<in> covered st"

definition okIds :: "nodeId set \<Rightarrow> peerState \<Rightarrow> nodeId obj \<Rightarrow> bool" where
  "okIds V st m \<longleftrightarrow> (\<forall>a n. (a, n) \<in> set m \<longrightarrow> okId V st n)"

definition okParents :: "nodeId set \<Rightarrow> peerState \<Rightarrow> nodeId list \<Rightarrow> bool" where
  "okParents V st ids \<longleftrightarrow> (\<forall>i \<in> set ids. \<exists>m. opened (tsTree (psTree st)) i m \<and> okIds V st m)"

definition okRefs :: "nodeId set \<Rightarrow> peerState \<Rightarrow> parentRefs \<Rightarrow> bool" where
  "okRefs V st refs \<longleftrightarrow> (\<forall>a r n. (a, r) \<in> set refs \<longrightarrow> pfNodeId r = Some n \<longrightarrow> okId V st n)"

definition okInfo :: "nodeId set \<Rightarrow> peerState \<Rightarrow> nodeInfo \<Rightarrow> bool" where
  "okInfo V st info \<longleftrightarrow> okIds V st (niChildren info) \<and> okIds V st (niResolvedPeers info) \<and> okParents V st (niParentNodeIds info)"

definition closedState :: "nodeId set \<Rightarrow> peerState \<Rightarrow> bool" where
  "closedState V st \<longleftrightarrow> treeOk (psTree st) \<and>
     (\<forall>d g. (d, g) \<in> set (psDepGraph st) \<longrightarrow> okIds V st (qgChildrenNodeIds g)) \<and>
     (\<forall>n d. (n, d) \<in> set (psPathsByNodeId st) \<longrightarrow> d \<in> set (keys (psDepGraph st))) \<and>
     (\<forall>p items item. (p, items) \<in> set (psPeersCache st) \<longrightarrow> item \<in> set items \<longrightarrow> okIds V st (ciResolvedPeers item)) \<and>
     (\<forall>info ids ws. PathTask info ids ws \<in> set (psTasks st) \<longrightarrow> okInfo V st info)"

text \<open>What later parts of the walk may rely on.\<close>

definition grows :: "peerState \<Rightarrow> peerState \<Rightarrow> bool" where
  "grows st st' \<longleftrightarrow> covered st \<subseteq> covered st' \<and> treeGrows (psTree st) (psTree st')"

lemma grows_refl [simp]: "grows st st" by (simp add: grows_def)

lemma grows_trans: "grows a b \<Longrightarrow> grows b c \<Longrightarrow> grows a c"
  by (auto simp: grows_def intro: treeGrows_trans)

text \<open>The nodes of \<open>V\<close> that the state covers by itself need not be in \<open>V\<close>.\<close>

definition absorbed :: "nodeId set \<Rightarrow> nodeId set \<Rightarrow> peerState \<Rightarrow> bool" where
  "absorbed V W st \<longleftrightarrow> (\<forall>n \<in> V. okId W st n)"

lemma okId_mono: "okId V st n \<Longrightarrow> grows st st' \<Longrightarrow> absorbed V W st' \<Longrightarrow> okId W st' n"
  by (auto simp: okId_def grows_def absorbed_def)

lemma okIds_mono: "okIds V st m \<Longrightarrow> grows st st' \<Longrightarrow> absorbed V W st' \<Longrightarrow> okIds W st' m"
  unfolding okIds_def using okId_mono by blast

lemma okRefs_mono: "okRefs V st m \<Longrightarrow> grows st st' \<Longrightarrow> absorbed V W st' \<Longrightarrow> okRefs W st' m"
  unfolding okRefs_def using okId_mono by blast

lemma okParents_mono: "okParents V st ids \<Longrightarrow> grows st st' \<Longrightarrow> absorbed V W st' \<Longrightarrow> okParents W st' ids"
  unfolding okParents_def using okIds_mono by (meson grows_def treeGrows_def)

lemma okInfo_mono: "okInfo V st info \<Longrightarrow> grows st st' \<Longrightarrow> absorbed V W st' \<Longrightarrow> okInfo W st' info"
  unfolding okInfo_def using okIds_mono okParents_mono by blast

lemma absorbed_subset [simp]: "V \<subseteq> W \<Longrightarrow> absorbed V W st"
  by (auto simp: absorbed_def okId_def)

lemmas ok_mono = okId_mono okIds_mono okRefs_mono okParents_mono okInfo_mono

lemma closedState_absorb: "closedState V st \<Longrightarrow> absorbed V W st \<Longrightarrow> closedState W st"
  unfolding closedState_def using ok_mono [OF _ grows_refl] by meson

lemma closedState_step:
  assumes "closedState V st" "grows st st'" "treeOk (psTree st')"
    and "\<And>d g. (d, g) \<in> set (psDepGraph st') \<Longrightarrow> (\<exists>d0 g0. (d0, g0) \<in> set (psDepGraph st) \<and> qgChildrenNodeIds g = qgChildrenNodeIds g0) \<or>
      okIds V st' (qgChildrenNodeIds g)"
    and "\<And>n d. (n, d) \<in> set (psPathsByNodeId st') \<Longrightarrow> (n, d) \<in> set (psPathsByNodeId st) \<or> d \<in> set (keys (psDepGraph st'))"
    and "set (keys (psDepGraph st)) \<subseteq> set (keys (psDepGraph st'))"
    and "\<And>p items item. (p, items) \<in> set (psPeersCache st') \<Longrightarrow> item \<in> set items \<Longrightarrow>
      (\<exists>p0 items0 item0. (p0, items0) \<in> set (psPeersCache st) \<and> item0 \<in> set items0 \<and> ciResolvedPeers item = ciResolvedPeers item0) \<or>
      okIds V st' (ciResolvedPeers item)"
    and "\<And>info ids ws. PathTask info ids ws \<in> set (psTasks st') \<Longrightarrow> PathTask info ids ws \<in> set (psTasks st) \<or> okInfo V st' info"
  shows "closedState V st'"
proof -
  note mono = ok_mono [OF _ assms(2) absorbed_subset [OF subset_refl]]
  have "okIds V st' (qgChildrenNodeIds g)" if "(d, g) \<in> set (psDepGraph st')" for d g
    using assms(4) [OF that] assms(1) mono(2) unfolding closedState_def by metis
  moreover have "d \<in> set (keys (psDepGraph st'))" if "(n, d) \<in> set (psPathsByNodeId st')" for n d
    using assms(5) [OF that] assms(1,6) unfolding closedState_def by blast
  moreover have "okIds V st' (ciResolvedPeers item)" if "(p, items) \<in> set (psPeersCache st')" "item \<in> set items" for p items item
    using assms(7) [OF that] assms(1) mono(2) unfolding closedState_def by metis
  moreover have "okInfo V st' info" if "PathTask info ids ws \<in> set (psTasks st')" for info ids ws
    using assms(8) [OF that] assms(1) mono(5) unfolding closedState_def by metis
  ultimately show ?thesis using assms(3) unfolding closedState_def by blast
qed

section \<open>Naming a node\<close>

lemma resolvePromise_frame: "resolvePromise n d st = Inr st' \<Longrightarrow> \<exists>ps. st' = st\<lparr>psPathsByNodeIdPromises := ps\<rparr>"
  by (auto simp: resolvePromise_def split: option.splits) (metis peerState.surjective peerState.update_convs(4))

lemma spread_values: "(k, v) \<in> set (spread a b) \<Longrightarrow> (\<exists>k'. (k', v) \<in> set a) \<or> (\<exists>k'. (k', v) \<in> set b)"
  unfolding spread_def by (fastforce split: option.splits dest: map_of_SomeD)

lemma okIds_spread: "okIds V st a \<Longrightarrow> okIds V st b \<Longrightarrow> okIds V st (spread a b)"
  unfolding okIds_def using spread_values by metis

lemma forceChildren_opened: "opened (tsTree ts) i m \<Longrightarrow> forceChildren ctx i ts = Inr (m, ts)"
  by (auto simp: opened_def forceChildren_def)

lemma previousChildren_ok:
  assumes "getPreviouslyResolvedChildren ctx ids chain p (psTree st) = Inr (m, ts)" "okParents V st ids"
  shows "ts = psTree st \<and> okIds V st m"
proof -
  have "ts' = psTree st \<and> okIds V st m'"
    if "sfold (addPreviousChildren ctx p) is (m0, psTree st) = Inr (m', ts')" "okIds V st m0" "okParents V st is" for "is" m0 m' ts'
    using that
  proof (induction "is" arbitrary: m0)
    case (Cons i ids)
    obtain mi where mi: "opened (tsTree (psTree st)) i mi" "okIds V st mi" using Cons.prems(3) by (auto simp: okParents_def)
    obtain acc where acc: "addPreviousChildren ctx p i (m0, psTree st) = Inr acc" "sfold (addPreviousChildren ctx p) ids acc = Inr (m', ts')"
      using Cons.prems(1) by (auto simp: sbind_Inr_iff)
    from acc(1) have "acc = (m0, psTree st) \<or> acc = (spread m0 mi, psTree st)"
      by (auto simp: addPreviousChildren_def sbind_Inr_iff forceChildren_opened [OF mi(1)] split: if_splits)
    then obtain m1 where "acc = (m1, psTree st)" "okIds V st m1" using Cons.prems(2) okIds_spread mi(2) by blast
    then show ?case using Cons.IH [of m1] acc(2) Cons.prems(3) by (simp add: okParents_def)
  qed simp
  from this [of "rev ids" "[]" m ts] assms show ?thesis
    by (auto simp: getPreviouslyResolvedChildren_def okParents_def okIds_def split: if_splits)
qed

lemma resolveCacheItem_item:
  assumes "(p, items) \<in> set (resolveCacheItem d ref cache)" "item \<in> set items"
  shows "\<exists>p0 items0 item0. (p0, items0) \<in> set cache \<and> item0 \<in> set items0 \<and> ciResolvedPeers item = ciResolvedPeers item0 \<and>
    (ciDepPath item = ciDepPath item0 \<or> ciDepPath item = Some d)"
proof (cases "resolveCacheItem d ref cache = cache")
  case False
  then obtain q i its where q: "map_of cache q = Some its" "i < length its"
    "resolveCacheItem d ref cache = jset q (its[i := (its ! i)\<lparr>ciDepPath := Some d\<rparr>]) cache"
    by (auto simp: resolveCacheItem_def split: option.splits prod.splits if_splits)
  have its: "(q, its) \<in> set cache" using q(1) map_of_SomeD by fastforce
  from assms(1) [unfolded q(3)] have "(p, items) \<in> set cache \<or> items = its[i := (its ! i)\<lparr>ciDepPath := Some d\<rparr>]"
    using update_pair by fastforce
  then show ?thesis
  proof
    assume "items = its[i := (its ! i)\<lparr>ciDepPath := Some d\<rparr>]"
    then have "item \<in> set its \<or> item = (its ! i)\<lparr>ciDepPath := Some d\<rparr>" using assms(2) set_update_subset_insert by fastforce
    then have "\<exists>item0 \<in> set its. ciResolvedPeers item = ciResolvedPeers item0 \<and>
        (ciDepPath item = ciDepPath item0 \<or> ciDepPath item = Some d)" using q(2) nth_mem by fastforce
    then show ?thesis using its by blast
  qed (use assms(2) in blast)
qed (use assms in auto)

lemma resolveCacheItem_values:
  assumes "(p, items) \<in> set (resolveCacheItem d ref cache)" "item \<in> set items"
  shows "\<exists>p0 items0 item0. (p0, items0) \<in> set cache \<and> item0 \<in> set items0 \<and> ciResolvedPeers item = ciResolvedPeers item0"
  using resolveCacheItem_item [OF assms] by blast

lemma keys_jset_insert: "set (keys (jset k v m)) = insert k (set (keys m))"
  by (induction m) auto

lemma covered_jset:
  "psTasks st' = psTasks st \<Longrightarrow> psPathsByNodeId st' = jset n d (psPathsByNodeId st) \<Longrightarrow> covered st' = insert n (covered st)"
  using keys_jset_insert [of n d "psPathsByNodeId st"] by (simp add: covered_def)

definition sameExcept :: "resolveCtx \<Rightarrow> nodeInfo \<Rightarrow> depPath \<Rightarrow> peerState \<Rightarrow> peerState \<Rightarrow> bool" where
  "sameExcept ctx info d st st' \<longleftrightarrow> psTasks st' = psTasks st \<and>
     psPathsByNodeId st' = jset (niNodeId info) d (psPathsByNodeId st) \<and>
     psPeersCache st' = resolveCacheItem d (niCache info) (psPeersCache st)"

lemma addDepPathToGraph_frame:
  assumes "addDepPathToGraph ctx info d st = Inr st'"
  shows "sameExcept ctx info d st st'"
    and "psTree st' = psTree st \<and> psDepGraph st' = psDepGraph st \<and> map_of (psDepGraph st) d \<noteq> None \<or>
      (\<exists>m. getPreviouslyResolvedChildren ctx (niParentNodeIds info) (niParentDepPathsChain info)
         (rpPkgIdWithPatchHash (niPackage info)) (psTree st) = Inr (m, psTree st') \<and>
       psDepGraph st' = jset d (graphNodeAt ctx info d m) (psDepGraph st))"
proof -
  let ?st0 = "st\<lparr>psPeersCache := resolveCacheItem d (niCache info) (psPeersCache st),
    psPathsByNodeId := jset (niNodeId info) d (psPathsByNodeId st)\<rparr>"
  obtain st1 where st1: "resolvePromise (niNodeId info) d ?st0 = Inr st1" using assms
    by (auto simp: addDepPathToGraph_def Let_def sbind_Inr_iff)
  then obtain ps where ps: "st1 = ?st0\<lparr>psPathsByNodeIdPromises := ps\<rparr>" using resolvePromise_frame by blast
  note add = assms [unfolded addDepPathToGraph_def Let_def st1 sbind_simps]
  show "sameExcept ctx info d st st'"
    using add ps by (auto simp: sameExcept_def sbind_Inr_iff split: if_splits)
  show "psTree st' = psTree st \<and> psDepGraph st' = psDepGraph st \<and> map_of (psDepGraph st) d \<noteq> None \<or>
      (\<exists>m. getPreviouslyResolvedChildren ctx (niParentNodeIds info) (niParentDepPathsChain info)
         (rpPkgIdWithPatchHash (niPackage info)) (psTree st) = Inr (m, psTree st') \<and>
       psDepGraph st' = jset d (graphNodeAt ctx info d m) (psDepGraph st))"
    using add ps by (auto simp: sbind_Inr_iff split: if_splits option.splits)
qed

lemma addDepPathToGraph_ok:
  assumes "addDepPathToGraph ctx info d st = Inr st'" "closedState V st" "okInfo V st info"
  shows "closedState V st' \<and> grows st st' \<and> niNodeId info \<in> covered st'"
proof -
  note st' = addDepPathToGraph_frame(1) [OF assms(1), unfolded sameExcept_def]
  have graph: "psTree st' = psTree st \<and> (psDepGraph st' = psDepGraph st \<and> map_of (psDepGraph st) d \<noteq> None \<or>
      (\<exists>m. okIds V st m \<and> psDepGraph st' = jset d (graphNodeAt ctx info d m) (psDepGraph st)))"
    using addDepPathToGraph_frame(2) [OF assms(1)]
  proof (elim disjE exE conjE, goal_cases)
    case (2 m)
    then show ?thesis using previousChildren_ok [OF 2(1), of V] assms(3) by (simp only: okInfo_def) blast
  qed simp
  have g: "grows st st'" "niNodeId info \<in> covered st'"
    using covered_jset [of st' st "niNodeId info" d] st' graph by (auto simp: grows_def)
  have d: "d \<in> set (keys (psDepGraph st'))"
    using graph by (auto simp: in_keys_iff update_conv' simp del: set_map)
  have "closedState V st'"
  proof (rule closedState_step [OF assms(2) g(1)], goal_cases)
    case 1
    then show ?case using assms(2) graph by (simp add: closedState_def)
  next
    case (2 e h)
    then consider "(e, h) \<in> set (psDepGraph st)" | m where "okIds V st m" "h = graphNodeAt ctx info d m"
      using graph by (auto dest!: update_pair)
    then show ?case
    proof cases
      case 2
      then have "okIds V st (qgChildrenNodeIds h)"
        using assms(3) by (simp add: graphNodeAt_def Let_def okIds_spread okInfo_def)
      then show ?thesis using okIds_mono [OF _ g(1) absorbed_subset [OF subset_refl]] by blast
    qed blast
  next
    case (3 n e)
    then have "(n, e) \<in> set (jset (niNodeId info) d (psPathsByNodeId st))" using st' by simp
    then show ?case using d update_pair [of n e "niNodeId info" d "psPathsByNodeId st"] by blast
  next
    case 4
    then show ?case using graph by (auto simp: keys_jset_insert simp del: set_map)
  next
    case (5 p items item)
    then show ?case using resolveCacheItem_values [of p items d "niCache info" "psPeersCache st" item] st' by simp
  next
    case (6 info' ids ws)
    then show ?case using st' by simp
  qed
  then show ?thesis using g by simp
qed

section \<open>Tasks\<close>

text \<open>Parts of the state that the invariant does not look at.\<close>

definition sameCore :: "peerState \<Rightarrow> peerState \<Rightarrow> bool" where
  "sameCore st st' \<longleftrightarrow> psTree st' = psTree st \<and> psDepGraph st' = psDepGraph st \<and> psPathsByNodeId st' = psPathsByNodeId st \<and>
     psPeersCache st' = psPeersCache st \<and> psTasks st' = psTasks st"

lemma sameCore_grows: "sameCore st st' \<Longrightarrow> grows st st'"
  by (simp add: sameCore_def grows_def covered_def)

lemma sameCore_closed: "sameCore st st' \<Longrightarrow> closedState V st \<Longrightarrow> closedState V st'"
  by (rule closedState_step [of V st]) (auto simp: sameCore_grows simp del: set_map, auto simp: sameCore_def closedState_def)

text \<open>A step of the walk: the invariant stays, and what was known stays known.\<close>

definition safeStep :: "nodeId set \<Rightarrow> peerState \<Rightarrow> peerState \<Rightarrow> bool" where
  "safeStep V st st' \<longleftrightarrow> closedState V st' \<and> grows st st'"

lemma safeStep_core: "sameCore st st' \<Longrightarrow> closedState V st \<Longrightarrow> safeStep V st st'"
  by (simp add: safeStep_def sameCore_closed sameCore_grows)

lemma safeStep_trans: "safeStep V a b \<Longrightarrow> safeStep W b c \<Longrightarrow> safeStep W a c"
  by (auto simp: safeStep_def intro: grows_trans)

lemma safeStep_mono:
  assumes "safeStep W st st'"
  shows "okId V st n \<Longrightarrow> okId V st' n" and "okIds V st m \<Longrightarrow> okIds V st' m" and "okRefs V st refs \<Longrightarrow> okRefs V st' refs"
    and "okParents V st ids \<Longrightarrow> okParents V st' ids" and "okInfo V st info \<Longrightarrow> okInfo V st' info"
  using ok_mono [OF _ _ absorbed_subset [OF subset_refl]] assms unfolding safeStep_def by blast+

lemma hitTask_safe:
  assumes "map_of (psDepGraph st) d = Some g" "closedState V st"
    and "resolvePromise n d (st\<lparr>psPathsByNodeId := jset n d (psPathsByNodeId st),
      psDepGraph := jset d (g\<lparr>qgDepth := min (qgDepth g) depth\<rparr>) (psDepGraph st)\<rparr>) = Inr st'"
  shows "safeStep V st st' \<and> n \<in> covered st'"
proof -
  let ?graph = "jset d (g\<lparr>qgDepth := min (qgDepth g) depth\<rparr>) (psDepGraph st)"
  obtain ps where st': "st' = st\<lparr>psPathsByNodeId := jset n d (psPathsByNodeId st), psDepGraph := ?graph,
      psPathsByNodeIdPromises := ps\<rparr>"
    using resolvePromise_frame [OF assms(3)] by auto
  have g: "(d, g) \<in> set (psDepGraph st)" using assms(1) map_of_SomeD by fastforce
  have gr: "grows st st'" "n \<in> covered st'" using covered_jset [of st' st n d] by (auto simp: grows_def st')
  have "closedState V st'"
  proof (rule closedState_step [OF assms(2) gr(1)], goal_cases)
    case 1
    then show ?case using assms(2) by (simp add: closedState_def st')
  next
    case (2 e h)
    then have "(e, h) \<in> set ?graph" by (simp add: st')
    then have "(e, h) \<in> set (psDepGraph st) \<or> h = g\<lparr>qgDepth := min (qgDepth g) depth\<rparr>" by (rule update_pair)
    then show ?case using g by (elim disjE) (blast, rule disjI1, simp, blast)
  next
    case (3 m e)
    then have "(m, e) \<in> set (jset n d (psPathsByNodeId st))" by (simp add: st')
    then have "(m, e) \<in> set (psPathsByNodeId st) \<or> e = d" by (rule update_pair)
    then show ?case by (auto simp: st' keys_jset_insert simp del: set_map)
  next
    case 4
    then show ?case by (auto simp: st' keys_jset_insert simp del: set_map)
  next
    case (5 p items item)
    then show ?case by (auto simp: st')
  next
    case (6 info ids ws)
    then show ?case by (simp add: st')
  qed
  then show ?thesis using gr by (simp add: safeStep_def)
qed

lemma runTask_safe:
  assumes "runTask ctx t st = Inr st'" "closedState V st" "\<And>info ids ws. t = PathTask info ids ws \<Longrightarrow> okInfo V st info"
  shows "safeStep V st st' \<and> taskNode t \<in> covered st'"
proof (cases t)
  case (HitTask n depth p i)
  then show ?thesis using assms(1,2) hitTask_safe
    by (fastforce simp: runTask_def split: option.splits)
next
  case (PathTask info ids ws)
  then show ?thesis using assms addDepPathToGraph_ok by (auto simp: runTask_def Let_def safeStep_def)
qed

lemma tryTask_safe:
  assumes "tryTask ctx i st = Inr st'" "closedState V st"
  shows "safeStep V st st'"
proof (cases "i < length (psTasks st) \<and> isReady st (psTasks st ! i)")
  case True
  let ?t = "psTasks st ! i"
  let ?st0 = "st\<lparr>psTasks := take i (psTasks st) @ drop (Suc i) (psTasks st)\<rparr>"
  let ?W = "insert (taskNode ?t) V"
  have tasks: "psTasks st = take i (psTasks st) @ ?t # drop (Suc i) (psTasks st)" using True by (simp add: id_take_nth_drop [symmetric])
  have split: "set (psTasks st) = insert ?t (set (psTasks ?st0))" by (subst tasks) simp
  then have cov: "covered st = insert (taskNode ?t) (covered ?st0)" by (simp add: covered_def)
  have ok: "okId V st n \<Longrightarrow> okId ?W ?st0 n" for n using cov by (auto simp: okId_def)
  then have oks: "okIds V st m \<Longrightarrow> okIds ?W ?st0 m" for m by (auto simp: okIds_def)
  then have infos: "okInfo V st info \<Longrightarrow> okInfo ?W ?st0 info" for info
    unfolding okInfo_def okParents_def by (metis (no_types, lifting) peerState.select_convs(1) peerState.surjective peerState.update_convs(10))
  have c0: "closedState ?W ?st0" unfolding closedState_def
    using assms(2) [unfolded closedState_def] oks infos split by simp
  have run: "runTask ctx ?t ?st0 = Inr st'" using assms(1) True by (simp add: tryTask_def)
  have "\<And>info ids ws. ?t = PathTask info ids ws \<Longrightarrow> okInfo ?W ?st0 info"
    using assms(2) [unfolded closedState_def] infos split by (metis insertI1)
  from runTask_safe [OF run c0 this] have r: "closedState ?W st'" "grows ?st0 st'" "taskNode ?t \<in> covered st'" by (auto simp: safeStep_def)
  have "closedState V st'" by (rule closedState_absorb [OF r(1)]) (use r(3) in \<open>auto simp: absorbed_def okId_def\<close>)
  moreover have "grows st st'" using r(2,3) cov by (simp add: grows_def)
  ultimately show ?thesis by (simp add: safeStep_def)
next
  case False
  then show ?thesis using assms by (auto simp: tryTask_def safeStep_def)
qed

lemma tryTasks_safe: "sfold (tryTask ctx) is st = Inr st' \<Longrightarrow> closedState V st \<Longrightarrow> safeStep V st st'"
proof (induction "is" arbitrary: st)
  case (Cons i ids)
  then obtain st1 where "tryTask ctx i st = Inr st1" "sfold (tryTask ctx) ids st1 = Inr st'" by (auto simp: sbind_Inr_iff)
  then show ?case using Cons.IH Cons.prems(2) tryTask_safe safeStep_trans safeStep_def by metis
qed (simp add: safeStep_def)

lemma awaitTasks_safe: "awaitTasks ctx st = Inr st' \<Longrightarrow> closedState V st \<Longrightarrow> safeStep V st st'"
proof -
  assume a: "awaitTasks ctx st = Inr st'" and c: "closedState V st"
  have core: "sameCore st (st\<lparr>psClock := Suc (psClock st)\<rparr>)" by (simp add: sameCore_def)
  from a have "safeStep V (st\<lparr>psClock := Suc (psClock st)\<rparr>) st'"
    unfolding awaitTasks_def by (rule tryTasks_safe) (rule sameCore_closed [OF core c])
  then show ?thesis using safeStep_trans [OF safeStep_core [OF core c]] by blast
qed

lemma finishTasks_safe: "finishTasks ctx n st = Inr st' \<Longrightarrow> closedState V st \<Longrightarrow> safeStep V st st' \<and> psTasks st' = []"
proof (induction n arbitrary: st)
  case (Suc n)
  show ?case
  proof (cases "psTasks st = []")
    case False
    then obtain i st1 where i: "tryTask ctx i st = Inr st1" "finishTasks ctx n st1 = Inr st'"
      using Suc.prems(1) by (auto simp: sbind_Inr_iff asError_def split: option.splits sum.splits)
    have s: "safeStep V st st1" using tryTask_safe [OF i(1) Suc.prems(2)] .
    then show ?thesis using Suc.IH [OF i(2)] safeStep_trans by (auto simp: safeStep_def)
  qed (use Suc.prems in \<open>simp add: safeStep_def\<close>)
qed (auto simp: safeStep_def split: if_splits)

section \<open>The packages of the parents\<close>

lemma updateParentRefs_values:
  "updateParentRefs env k pkg refs = Inr refs' \<Longrightarrow> (a, r) \<in> set refs' \<Longrightarrow> (a, r) \<in> set refs \<or> r = pkg"
  unfolding updateParentRefs_def
  by (auto simp: sbind_Inr_iff split: option.splits if_splits dest!: update_pair)

lemma addPkgByName_values:
  assumes "addPkgByName env pkgs tree p refs = Inr refs'" "(a, r) \<in> set refs'"
  shows "(a, r) \<in> set refs \<or> pfNodeId r = Some (ppNodeId p)"
  using assms unfolding addPkgByName_def
  by (fastforce simp: sbind_Inr_iff Let_def split: if_splits dest!: updateParentRefs_values)

lemma toPkgByName_values:
  assumes "toPkgByName env pkgs tree nodes = Inr refs" "(a, r) \<in> set refs"
  shows "\<exists>p \<in> set nodes. pfNodeId r = Some (ppNodeId p)"
proof -
  have "(a, r) \<in> set refs0 \<or> (\<exists>p \<in> set nodes. pfNodeId r = Some (ppNodeId p))"
    if "sfold (addPkgByName env pkgs tree) nodes refs0 = Inr refs" for refs0
    using that
  proof (induction nodes arbitrary: refs0)
    case (Cons p nodes)
    then obtain refs1 where "addPkgByName env pkgs tree p refs0 = Inr refs1" "sfold (addPkgByName env pkgs tree) nodes refs1 = Inr refs"
      by (auto simp: sbind_Inr_iff)
    then show ?case using Cons.IH [of refs1] addPkgByName_values by fastforce
  qed (use assms(2) in simp)
  from this [of "[]"] assms(1) show ?thesis by (simp add: toPkgByName_def)
qed

lemma mergeParentPkg_values:
  "(a, r) \<in> set (pmParentPkgs (mergeParentPkg pkgs tree e m)) \<Longrightarrow> (a, r) \<in> set (pmParentPkgs m) \<or> r = snd e"
  unfolding mergeParentPkg_def by (auto split: prod.splits option.splits if_splits dest!: update_pair)

lemma mergeParentPkgs_refs:
  assumes "(a, r) \<in> set (mergeParentPkgs pkgs tree old new)"
  shows "\<exists>a0 r0 i. ((a0, r0) \<in> set old \<or> (a0, r0) \<in> set new) \<and> r = r0\<lparr>pfOccurrence := i\<rparr>"
proof -
  have f: "(b, q) \<in> set (pmParentPkgs (fold (mergeParentPkg pkgs tree) new m)) \<Longrightarrow>
      (b, q) \<in> set (pmParentPkgs m) \<or> (\<exists>b0. (b0, q) \<in> set new)" for b q m
  proof (induction new arbitrary: m)
    case (Cons e new)
    then show ?case using mergeParentPkg_values [of b q pkgs tree e m] by (cases e) fastforce
  qed simp
  define m where "m = fold (mergeParentPkg pkgs tree) new \<lparr>pmParentPkgs = old, pmTaken = [], pmOccurrence = []\<rparr>"
  from assms obtain b q where q: "(b, q) \<in> set (pmParentPkgs m)" "(a, r) = writeOccurrence m (b, q)"
    by (auto simp: mergeParentPkgs_def m_def Let_def)
  have "r = q \<or> (\<exists>i. r = q\<lparr>pfOccurrence := i\<rparr>)" using q(2) by (auto simp: writeOccurrence_def split: if_splits option.splits)
  moreover have "q = q\<lparr>pfOccurrence := pfOccurrence q\<rparr>" by simp
  ultimately have "\<exists>i. r = q\<lparr>pfOccurrence := i\<rparr>" by metis
  moreover have "(b, q) \<in> set old \<or> (\<exists>b0. (b0, q) \<in> set new)" using f q(1) by (fastforce simp: m_def)
  ultimately show ?thesis by blast
qed

lemma mergeParentPkgs_values:
  assumes "(a, r) \<in> set (mergeParentPkgs pkgs tree old new)"
  shows "\<exists>a0 r0. ((a0, r0) \<in> set old \<or> (a0, r0) \<in> set new) \<and> pfNodeId r = pfNodeId r0"
  using mergeParentPkgs_refs [OF assms] by force

lemma childParentPkgs_ok:
  assumes "childParentPkgs env pkgs names tree ids children refs = Inr refs'" "okRefs V st refs" "okIds V st children"
  shows "okRefs V st refs'"
proof (cases "children = []")
  case False
  then obtain new where new: "toPkgByName env pkgs tree (map (\<lambda>(a, n). \<lparr>ppAlias = a, ppNodeId = n, ppParentNodeIds = ids\<rparr>)
      (filter (\<lambda>(a, n). a \<in> set names) children)) = Inr new" "refs' = mergeParentPkgs pkgs tree refs new"
    using assms(1) by (auto simp: childParentPkgs_def sbind_Inr_iff)
  have "okRefs V st new" unfolding okRefs_def
  proof (intro allI impI)
    fix a r n assume "(a, r) \<in> set new" "pfNodeId r = Some n"
    then obtain b where "(b, n) \<in> set children" using toPkgByName_values [OF new(1)] by fastforce
    then show "okId V st n" using assms(3) by (auto simp: okIds_def)
  qed
  then show ?thesis unfolding okRefs_def new(2) using mergeParentPkgs_values assms(2) [unfolded okRefs_def] by metis
qed (use assms in \<open>simp add: childParentPkgs_def\<close>)

text \<open>The peers of one package are nodes that the parents provide.\<close>

lemma setAll_values: "(k, v) \<in> set (setAll es m) \<Longrightarrow> (\<exists>k'. (k', v) \<in> set es) \<or> (\<exists>k'. (k', v) \<in> set m)"
  unfolding setAll_def
proof (induction es arbitrary: m)
  case (Cons e es)
  then show ?case by (cases e) (fastforce dest!: update_pair)
qed auto

lemma okIds_setAll: "okIds V st es \<Longrightarrow> okIds V st m \<Longrightarrow> okIds V st (setAll es m)"
  unfolding okIds_def using setAll_values by metis

lemma resolvePeer_ok:
  assumes "resolvePeer env pkgs tree ids refs peer acc = Inr acc'" "okRefs V st refs" "okIds V st (prResolvedPeers (fst acc))"
  shows "okIds V st (prResolvedPeers (fst acc'))"
proof (cases "map_of refs (fst peer)")
  case None
  then show ?thesis using assms by (auto simp: resolvePeer_def Let_def sbind_Inr_iff split: prod.splits)
next
  case (Some r)
  then have r: "(fst peer, r) \<in> set refs" by (rule map_of_SomeD)
  have "prResolvedPeers (fst acc') = prResolvedPeers (fst acc) \<or>
      (\<exists>n. pfNodeId r = Some n \<and> prResolvedPeers (fst acc') = jset (fst peer) n (prResolvedPeers (fst acc)))"
    using assms(1) Some
    by (auto simp: resolvePeer_def Let_def sbind_Inr_iff truthyIdOpt_def split: prod.splits option.splits if_splits)
  then show ?thesis
  proof (elim disjE exE conjE)
    fix n assume n: "pfNodeId r = Some n" "prResolvedPeers (fst acc') = jset (fst peer) n (prResolvedPeers (fst acc))"
    then have "okId V st n" using assms(2) r unfolding okRefs_def by blast
    then show ?thesis using assms(3) n(2) unfolding okIds_def by (auto dest!: update_pair)
  qed (use assms(3) in simp)
qed

lemma resolvePeersOfPackage_ok:
  assumes "resolvePeersOfPackage env pkgs tree ids refs peers issues = Inr (res, issues')" "okRefs V st refs"
  shows "okIds V st (prResolvedPeers res)"
proof -
  have "okIds V st (prResolvedPeers (fst acc'))"
    if "sfold (resolvePeer env pkgs tree ids refs) ps acc = Inr acc'" "okIds V st (prResolvedPeers (fst acc))" for ps acc acc'
    using that
  proof (induction ps arbitrary: acc)
    case (Cons p ps)
    then obtain acc1 where "resolvePeer env pkgs tree ids refs p acc = Inr acc1" "sfold (resolvePeer env pkgs tree ids refs) ps acc1 = Inr acc'"
      by (auto simp: sbind_Inr_iff)
    then show ?case using Cons.IH Cons.prems(2) resolvePeer_ok [OF _ assms(2)] by blast
  qed simp
  from this [of peers "(noPeers, issues)" "(res, issues')"] assms(1) show ?thesis
    by (simp add: resolvePeersOfPackage_def noPeers_def okIds_def)
qed

section \<open>The walk\<close>

lemma covered_addTasks: "psPathsByNodeId st' = psPathsByNodeId st \<Longrightarrow> psTasks st' = psTasks st @ ts \<Longrightarrow>
    covered st' = covered st \<union> taskNode ` set ts"
  by (auto simp: covered_def)

lemma addTask_safe:
  assumes "closedState V st" "sameCore (st\<lparr>psTasks := psTasks st @ [t]\<rparr>) st'" "\<And>info ids ws. t = PathTask info ids ws \<Longrightarrow> okInfo V st info"
  shows "safeStep V st st' \<and> taskNode t \<in> covered st'"
proof -
  let ?st1 = "st\<lparr>psTasks := psTasks st @ [t]\<rparr>"
  have cov: "covered ?st1 = insert (taskNode t) (covered st)" using covered_addTasks [of ?st1 st "[t]"] by simp
  have g: "grows st ?st1" using cov by (auto simp: grows_def)
  have "closedState V ?st1"
  proof (rule closedState_step [OF assms(1) g], goal_cases)
    case 1
    then show ?case using assms(1) by (simp add: closedState_def)
  next
    case (6 info ids ws)
    then show ?case using assms(3) okInfo_mono [OF _ g absorbed_subset [OF subset_refl]] by fastforce
  qed auto
  then have "safeStep V ?st1 st'" using safeStep_core [OF assms(2)] by blast
  moreover have "taskNode t \<in> covered st'" using cov assms(2) by (simp add: sameCore_def covered_def)
  ultimately show ?thesis using safeStep_trans [of V st ?st1 V st'] \<open>closedState V ?st1\<close> g by (simp add: safeStep_def)
qed

lemma resolvePromise_core: "resolvePromise n d st = Inr st' \<Longrightarrow> sameCore st st'"
  using resolvePromise_frame by (fastforce simp: sameCore_def)

lemma sameCore_trans: "sameCore a b \<Longrightarrow> sameCore b c \<Longrightarrow> sameCore a c"
  by (simp add: sameCore_def)

lemma sameCore_refl [simp]: "sameCore st st"
  by (simp add: sameCore_def)

lemma startPending_core: "startPending ctx as p acc = Inr acc' \<Longrightarrow> sameCore (snd acc) (snd acc')"
  unfolding startPending_def
  by (auto simp: Let_def sbind_Inr_iff dest: resolvePromise_core split: prod.splits if_splits)

text \<open>What every step of a loop relates, the loop relates.\<close>

lemma sfold_rel:
  assumes "\<And>x s s'. f x s = Inr s' \<Longrightarrow> R s s'" "\<And>s. R s s" "\<And>a b c. R a b \<Longrightarrow> R b c \<Longrightarrow> R a c"
  shows "sfold f xs s = Inr s' \<Longrightarrow> R s s'"
proof (induction xs arbitrary: s)
  case (Cons x xs)
  then obtain s1 where "f x s = Inr s1" "sfold f xs s1 = Inr s'" by (auto simp: sbind_Inr_iff)
  then show ?case using Cons.IH assms(1,3) by blast
qed (use assms(2) in simp)

lemma startPendings_core: "sfold (startPending ctx as) ps acc = Inr acc' \<Longrightarrow> sameCore (snd acc) (snd acc')"
  by (rule sfold_rel [where R = "\<lambda>a b. sameCore (snd a) (snd b)"]) (auto intro: startPending_core sameCore_trans)

lemma startTask_safe:
  assumes "startTask ctx cycles c st = Inr st'" "closedState V st" "okInfo V st (cdInfo c)"
  shows "safeStep V st st' \<and> niNodeId (cdInfo c) \<in> covered st'"
proof -
  obtain ws st1 where s: "sfold (startPending ctx (concat (filter (\<lambda>cycle. niAlias (cdInfo c) \<in> set cycle) cycles))) (cdPendingPeers c) ([], st)
      = Inr (ws, st1)" and st': "st' = st1\<lparr>psTasks := psTasks st1 @ [PathTask (cdInfo c) (cdPeerIds c) ws]\<rparr>"
    using assms(1) by (auto simp: startTask_def Let_def sbind_Inr_iff)
  have core: "sameCore st st1" using startPendings_core [OF s] by simp
  have "okInfo V st1 (cdInfo c)" using assms(3) okInfo_mono sameCore_grows [OF core] absorbed_subset by blast
  then have "safeStep V st1 st' \<and> taskNode (PathTask (cdInfo c) (cdPeerIds c) ws) \<in> covered st'"
    by (intro addTask_safe sameCore_closed [OF core assms(2)]) (auto simp: st')
  then show ?thesis using safeStep_trans [OF safeStep_core [OF core assms(2)]] by simp
qed

lemma startTasks_safe:
  assumes "sfold (startTask ctx cycles) cs st = Inr st'" "closedState V st" "\<And>c. c \<in> set cs \<Longrightarrow> okInfo V st (cdInfo c)"
  shows "safeStep V st st' \<and> (\<forall>c \<in> set cs. niNodeId (cdInfo c) \<in> covered st')"
  using assms
proof (induction cs arbitrary: st)
  case (Cons c cs)
  then obtain st1 where st1: "startTask ctx cycles c st = Inr st1" "sfold (startTask ctx cycles) cs st1 = Inr st'"
    by (auto simp: sbind_Inr_iff)
  have s: "safeStep V st st1" "niNodeId (cdInfo c) \<in> covered st1"
    using startTask_safe [OF st1(1) Cons.prems(2)] Cons.prems(3) by auto
  have "okInfo V st1 (cdInfo c')" if "c' \<in> set cs" for c'
    using safeStep_mono(5) [OF s(1)] Cons.prems(3) [of c'] that by simp
  then have r: "safeStep V st1 st'" "\<forall>c \<in> set cs. niNodeId (cdInfo c) \<in> covered st'"
    using Cons.IH [OF st1(2)] s(1) by (auto simp: safeStep_def)
  then show ?case using s safeStep_trans [OF s(1) r(1)] by (auto simp: safeStep_def grows_def)
qed (simp add: safeStep_def)

lemma reportMissing_core: "reportMissing ctx ids m st = Inr st' \<Longrightarrow> sameCore st st'"
  by (auto simp: reportMissing_def sbind_Inr_iff sameCore_def)

lemma reportsMissing_core: "sfold (reportMissing ctx ids) ms st = Inr st' \<Longrightarrow> sameCore st st'"
  by (rule sfold_rel [where R = sameCore]) (auto intro: reportMissing_core sameCore_trans)

text \<open>What a call for a node promises.\<close>

definition nodeDone :: "nodeId set \<Rightarrow> nodeId \<Rightarrow> nodeResult \<Rightarrow> peerState \<Rightarrow> bool" where
  "nodeDone V n r st \<longleftrightarrow> okIds V st (prResolvedPeers r) \<and>
     (case nrCalculateDepPath r of
        None \<Rightarrow> linkId n \<or> n \<in> covered st
      | Some c \<Rightarrow> niNodeId (cdInfo c) = n \<and> okInfo V st (cdInfo c))"

lemma cacheItemAt_set: "cacheItemAt ref cache = Some item \<Longrightarrow> \<exists>p items. (p, items) \<in> set cache \<and> item \<in> set items"
  by (auto simp: cacheItemAt_def split: option.splits if_splits dest!: map_of_SomeD) (meson nth_mem)

lemma takeHit_safe:
  assumes "takeHit ctx ids n node ref st = Inr (r, st')" "closedState V st"
  shows "safeStep V st st' \<and> nodeDone V n r st'"
proof -
  obtain hit st1 where hit: "cacheItemAt ref (psPeersCache st) = Some hit"
    and st1: "sfold (reportMissing ctx ids) (ciMissingPeers hit) st = Inr st1"
    and r: "r = \<lparr>prResolvedPeers = ciResolvedPeers hit, prMissingPeers = ciMissingPeers hit, nrCalculateDepPath = None\<rparr>"
    and st': "st' = st1\<lparr>psTasks := psTasks st1 @ [HitTask n (tnDepth node) (fst ref) (snd ref)]\<rparr>"
    using assms(1) by (auto simp: takeHit_def sbind_Inr_iff split: option.splits)
  have core: "sameCore st st1" by (rule reportsMissing_core [OF st1])
  have s: "safeStep V st st' \<and> n \<in> covered st'"
    using addTask_safe [OF sameCore_closed [OF core assms(2)], of "HitTask n (tnDepth node) (fst ref) (snd ref)" st']
      safeStep_trans [OF safeStep_core [OF core assms(2)]] by (simp add: st')
  have "okIds V st (ciResolvedPeers hit)" using assms(2) cacheItemAt_set [OF hit] unfolding closedState_def by blast
  then have "okIds V st' (ciResolvedPeers hit)"
    using s safeStep_mono(2) by blast
  then show ?thesis using s by (simp add: nodeDone_def r)
qed

lemma recordPeers_safe:
  assumes "recordPeers p r st = (st', ref)" "closedState V st" "okIds V st (prResolvedPeers r)"
  shows "safeStep V st st'"
proof (cases "prResolvedPeers r = [] \<and> prMissingPeers r = []")
  case True
  then have "sameCore st st'" using assms(1) by (auto simp: recordPeers_def sameCore_def)
  then show ?thesis using assms(2) by (rule safeStep_core)
next
  case False
  let ?items = "orEmpty (map_of (psPeersCache st) p)"
  let ?item = "\<lparr>ciMissingPeers = prMissingPeers r, ciDepPath = None, ciResolvedPeers = prResolvedPeers r\<rparr>"
  have st': "st' = st\<lparr>psPeersCache := jset p (?items @ [?item]) (psPeersCache st)\<rparr>"
    using assms(1) False by (auto simp: recordPeers_def Let_def)
  have g: "grows st st'" by (simp add: grows_def covered_def st')
  have "closedState V st'"
  proof (rule closedState_step [OF assms(2) g], goal_cases)
    case 1
    then show ?case using assms(2) by (simp add: closedState_def st')
  next
    case (5 q items item)
    then have "(q, items) \<in> set (psPeersCache st) \<or> items = ?items @ [?item]" using update_pair by (fastforce simp: st')
    then show ?case
    proof
      assume "items = ?items @ [?item]"
      then have "item \<in> set ?items \<or> item = ?item" using 5(2) by auto
      then show ?thesis
      proof
        assume "item \<in> set ?items"
        then obtain its where "(p, its) \<in> set (psPeersCache st)" "item \<in> set its"
          by (cases "map_of (psPeersCache st) p") (auto dest: map_of_SomeD)
        then show ?thesis by blast
      next
        assume "item = ?item"
        then have "okIds V st (ciResolvedPeers item)" using assms(3) by simp
        then show ?thesis using okIds_mono [OF _ g absorbed_subset [OF subset_refl]] by blast
      qed
    qed (use 5(2) in blast)
  qed (auto simp: st')
  then show ?thesis using g by (simp add: safeStep_def)
qed

lemma nameNode_safe:
  assumes "nameNode ctx info p st = Inr (r, st')" "closedState V st" "okInfo V st info" "okIds V st (prResolvedPeers p)"
  shows "safeStep V st st' \<and> nodeDone V (niNodeId info) r st'"
proof (cases "nrCalculateDepPath r")
  case None
  then obtain d where d: "addDepPathToGraph ctx info d st = Inr st'" "prResolvedPeers r = prResolvedPeers p"
    using assms(1) by (auto simp: nameNode_def Let_def sbind_Inr_iff nodeResultOf_def split: if_splits prod.splits)
  then show ?thesis
    using addDepPathToGraph_ok [OF d(1) assms(2,3)] okIds_mono [OF assms(4) _ absorbed_subset [OF subset_refl]] None
    by (simp add: safeStep_def nodeDone_def)
next
  case (Some c)
  then have "st' = st \<and> cdInfo c = info \<and> prResolvedPeers r = prResolvedPeers p"
    using assms(1) by (auto simp: nameNode_def Let_def sbind_Inr_iff nodeResultOf_def split: if_splits prod.splits)
  then show ?thesis using assms Some by (simp add: nodeDone_def safeStep_def)
qed

lemma okIds_jdel: "okIds V st m \<Longrightarrow> okIds V st (jdel k m)"
  unfolding okIds_def by (auto simp: AList.delete_eq)

lemma sameCore_issues: "sameCore st (st\<lparr>psIssues := i\<rparr>)"
  by (simp add: sameCore_def)

lemma finishNode_safe:
  assumes "finishNode ctx scope a n node p children refs ofChildren st = Inr (r, st')" "closedState V st"
    and "okIds V st children" "okRefs V st refs" "okParents V st (nsParentNodeIds scope)" "okIds V st (prResolvedPeers ofChildren)"
  shows "safeStep V st st' \<and> nodeDone V n r st'"
proof -
  obtain own issues where own: "(if rpPeerDependencies p = [] then Inr (noPeers, psIssues st)
       else resolvePeersOfPackage (rcEnv ctx) (rcPkgs ctx) (tsTree (psTree st)) (nsParentNodeIds scope @ [n]) refs
         (rpPeerDependencies p) (psIssues st)) = Inr (own, issues)"
    using assms(1) by (auto simp: finishNode_def sbind_Inr_iff)
  have ownOk: "okIds V st (prResolvedPeers own)"
    using own resolvePeersOfPackage_ok [OF _ assms(4)] by (auto simp: noPeers_def okIds_def split: if_splits)
  define res where "res = \<lparr>prResolvedPeers = jdel (rpName p) (setAll (prResolvedPeers own) (prResolvedPeers ofChildren)),
    prMissingPeers = setAll (prMissingPeers own) (setAll (prMissingPeers ofChildren) [])\<rparr>"
  have resOk: "okIds V st (prResolvedPeers res)" using ownOk assms(6) by (simp add: res_def okIds_jdel okIds_setAll)
  obtain st1 ref where rec: "recordPeers (rpPkgIdWithPatchHash p) res (st\<lparr>psIssues := issues\<rparr>) = (st1, ref)" by (rule prod.exhaust)
  obtain info where info: "nameNode ctx info res st1 = Inr (r, st')" "niNodeId info = n" "niChildren info = children"
    "niResolvedPeers info = prResolvedPeers own" "niParentNodeIds info = nsParentNodeIds scope"
    using assms(1) [unfolded finishNode_def own sbind_simps prod.case Let_def] rec by (simp add: res_def)
  let ?st0 = "st\<lparr>psIssues := issues\<rparr>"
  have s0: "safeStep V st ?st0" by (rule safeStep_core [OF sameCore_issues assms(2)])
  have s1: "safeStep V ?st0 st1"
    using recordPeers_safe [OF rec, of V] s0 safeStep_mono(2) [OF s0 resOk] by (simp add: safeStep_def)
  have s: "safeStep V st st1" by (rule safeStep_trans [OF s0 s1])
  have "okInfo V st1 info"
    using safeStep_mono [OF s] assms(3,5) ownOk unfolding okInfo_def info by blast
  then have "safeStep V st1 st' \<and> nodeDone V (niNodeId info) r st'"
    using nameNode_safe [OF info(1), of V] s safeStep_mono(2) [OF s resOk] by (simp add: safeStep_def)
  then show ?thesis using safeStep_trans [OF s] info(2) by blast
qed

definition nodeSpec :: "nodeResolver \<Rightarrow> bool" where
  "nodeSpec rn \<longleftrightarrow> (\<forall>V scope a n refs st r st'. rn scope a n refs st = Inr (r, st') \<longrightarrow> closedState V st \<longrightarrow> okRefs V st refs \<longrightarrow>
     okParents V st (nsParentNodeIds scope) \<longrightarrow> safeStep V st st' \<and> nodeDone V n r st')"

definition loopOk :: "nodeId set \<Rightarrow> nodeId set \<Rightarrow> childrenLoop \<Rightarrow> peerState \<Rightarrow> bool" where
  "loopOk W seen l st \<longleftrightarrow> closedState W st \<and> okIds W st (clResolvedPeers l) \<and>
     (\<forall>c \<in> set (clCalculateDepPaths l). okInfo W st (cdInfo c)) \<and>
     (\<forall>n \<in> seen. linkId n \<or> n \<in> covered st \<or> (\<exists>c \<in> set (clCalculateDepPaths l). niNodeId (cdInfo c) = n))"

lemma asError_Inr [simp]: "asError x = Inr y \<longleftrightarrow> x = Inr y"
  by (simp add: asError_def split: sum.splits)

lemma asError_simps [simp]: "asError (Inr x) = Inr x" "asError (Inl e) = Inl (Throws e)"
  by (simp_all add: asError_def)

lemma resolveChild_safe:
  assumes "resolveChild ctx rn scope children refs n (l, st) = Inr (l', st')" "nodeSpec rn" "loopOk W seen l st"
    and "okRefs W st refs" "okParents W st (nsParentNodeIds scope)"
  shows "safeStep W st st' \<and> loopOk W (insert n seen) l' st'"
proof -
  obtain r st1 where r: "rn scope (aliasByNodeId children n) n refs st = Inr (r, st1)" and aw: "awaitTasks ctx st1 = Inr st'"
    and l': "l' = \<lparr>clResolvedPeers = setAll (prResolvedPeers r) (clResolvedPeers l),
          clMissingPeers = setAll (prMissingPeers r) (clMissingPeers l),
          clGraph = clGraph l @ [(aliasByNodeId children n, keys (prResolvedPeers r))],
          clCalculateDepPaths = clCalculateDepPaths l @ (case nrCalculateDepPath r of None \<Rightarrow> [] | Some c \<Rightarrow> [c])\<rparr>"
    using assms(1) by (auto simp: resolveChild_def Let_def sbind_Inr_iff)
  have s1: "safeStep W st st1" "nodeDone W n r st1"
    using assms(2-5) r unfolding nodeSpec_def loopOk_def by blast+
  have s2: "safeStep W st1 st'" using awaitTasks_safe [OF aw, of W] s1(1) by (simp add: safeStep_def)
  have s: "safeStep W st st'" by (rule safeStep_trans [OF s1(1) s2])
  have res: "okIds W st' (clResolvedPeers l')"
    using okIds_setAll [of W st' "prResolvedPeers r" "clResolvedPeers l"] safeStep_mono(2) [OF s] safeStep_mono(2) [OF s2]
      s1(2) assms(3) by (simp add: l' loopOk_def nodeDone_def)
  have calcs: "okInfo W st' (cdInfo c)" if "c \<in> set (clCalculateDepPaths l')" for c
    using that safeStep_mono(5) [OF s] safeStep_mono(5) [OF s2] s1(2) assms(3)
    by (auto simp: l' loopOk_def nodeDone_def split: option.splits)
  have cov: "covered st \<subseteq> covered st'" "covered st1 \<subseteq> covered st'" using s s2 by (auto simp: safeStep_def grows_def)
  have "linkId i \<or> i \<in> covered st' \<or> (\<exists>c \<in> set (clCalculateDepPaths l'). niNodeId (cdInfo c) = i)" if "i \<in> insert n seen" for i
    using that cov s1(2) assms(3) by (cases "nrCalculateDepPath r") (auto simp: l' loopOk_def nodeDone_def)
  then show ?thesis using s res calcs by (simp add: loopOk_def safeStep_def)
qed

lemma resolveChilds_safe:
  assumes "sfold (resolveChild ctx rn scope children refs) ns (l, st) = Inr (l', st')" "nodeSpec rn" "loopOk W seen l st"
    and "okRefs W st refs" "okParents W st (nsParentNodeIds scope)"
  shows "safeStep W st st' \<and> loopOk W (seen \<union> set ns) l' st'"
  using assms
proof (induction ns arbitrary: l st seen)
  case Nil
  then show ?case by (simp add: safeStep_def loopOk_def)
next
  case (Cons n ns)
  then obtain l1 st1 where st1: "resolveChild ctx rn scope children refs n (l, st) = Inr (l1, st1)"
      "sfold (resolveChild ctx rn scope children refs) ns (l1, st1) = Inr (l', st')"
    by (auto simp: sbind_Inr_iff)
  have s: "safeStep W st st1" "loopOk W (insert n seen) l1 st1"
    using resolveChild_safe [OF st1(1) Cons.prems(2-5)] by auto
  have "safeStep W st1 st' \<and> loopOk W (insert n seen \<union> set ns) l' st'"
    using Cons.IH [OF st1(2) Cons.prems(2) s(2)] safeStep_mono [OF s(1)] Cons.prems(4,5) by blast
  then show ?case using safeStep_trans [OF s(1)] by simp
qed

lemma childNodeIds_set: "set (childNodeIds children refs) = snd ` set children"
  by (auto simp: childNodeIds_def image_iff)

lemma openChildren_core: "openChildren ctx refs ns st = Inr st' \<Longrightarrow> sameCore st st'"
  by (auto simp: openChildren_def sbind_Inr_iff sameCore_def)

text \<open>Once its children are visited, the walk below a node has nothing left to visit that was not to be visited before.\<close>

lemma resolvePeersOfChildren_safe:
  assumes "resolvePeersOfChildren ctx rn scope children refs st = Inr (r, st')" "nodeSpec rn"
    and "closedState (V \<union> snd ` set children) st" "okRefs (V \<union> snd ` set children) st refs"
    and "okParents (V \<union> snd ` set children) st (nsParentNodeIds scope)"
  shows "closedState V st'" "grows st st'" "absorbed (V \<union> snd ` set children) V st'" "okIds V st' (prResolvedPeers r)"
proof -
  let ?W = "V \<union> snd ` set children" and ?ns = "childNodeIds children refs"
  let ?l0 = "\<lparr>clResolvedPeers = [], clMissingPeers = [], clGraph = [], clCalculateDepPaths = []\<rparr>"
  obtain st1 l st2 where o: "openChildren ctx refs ?ns st = Inr st1"
    and f: "sfold (resolveChild ctx rn scope children refs) ?ns (?l0, st1) = Inr (l, st2)"
    and t: "startTasks ctx l st2 = Inr st'"
    and r: "prResolvedPeers r = filter (\<lambda>(a, _). \<not> truthyIdOpt (map_of children a)) (clResolvedPeers l)"
    using assms(1) by (auto simp: resolvePeersOfChildren_def Let_def sbind_Inr_iff)
  have s1: "safeStep ?W st st1" by (rule safeStep_core [OF openChildren_core [OF o] assms(3)])
  have s2: "safeStep ?W st1 st2 \<and> loopOk ?W ({} \<union> set ?ns) l st2"
  proof (rule resolveChilds_safe [OF f assms(2)])
    show "loopOk ?W {} ?l0 st1" using s1 by (simp add: loopOk_def safeStep_def okIds_def)
    show "okRefs ?W st1 refs" by (rule safeStep_mono(3) [OF s1 assms(4)])
    show "okParents ?W st1 (nsParentNodeIds scope)" by (rule safeStep_mono(4) [OF s1 assms(5)])
  qed
  then have l: "loopOk ?W (snd ` set children) l st2" by (simp add: childNodeIds_set)
  have s3: "safeStep ?W st2 st' \<and> (\<forall>c \<in> set (clCalculateDepPaths l). niNodeId (cdInfo c) \<in> covered st')"
  proof (cases "clCalculateDepPaths l = []")
    case True
    then show ?thesis using t s2 by (auto simp: startTasks_def safeStep_def)
  next
    case False
    then show ?thesis using t l by (intro startTasks_safe [of ctx "rcAnalyzeCycles ctx (clGraph l)"]) (auto simp: startTasks_def loopOk_def)
  qed
  have s: "safeStep ?W st st'" using safeStep_trans [OF s1] safeStep_trans s2 s3 by blast
  then show g: "grows st st'" by (simp add: safeStep_def)
  have "covered st2 \<subseteq> covered st'" using s3 by (simp add: safeStep_def grows_def)
  then show a: "absorbed ?W V st'"
    using l s3 unfolding absorbed_def okId_def loopOk_def by (metis UnE in_mono)
  have "closedState ?W st'" using s by (simp add: safeStep_def)
  then show "closedState V st'" using a by (rule closedState_absorb)
  have "okIds ?W st2 (prResolvedPeers r)" using l by (auto simp: loopOk_def r okIds_def)
  then show "okIds V st' (prResolvedPeers r)" using okIds_mono a s3 by (meson safeStep_def)
qed

lemma okIds_children: "okIds (V \<union> snd ` set children) st children"
  by (auto simp: okIds_def okId_def intro: rev_image_eqI)

lemma addPath_safe:
  assumes "map_of (psDepGraph st) d \<noteq> None" "closedState V st"
    and "resolvePromise n d (st\<lparr>psPathsByNodeId := jset n d (psPathsByNodeId st)\<rparr>) = Inr st'"
  shows "safeStep V st st' \<and> n \<in> covered st'"
proof -
  obtain ps where st': "st' = st\<lparr>psPathsByNodeId := jset n d (psPathsByNodeId st), psPathsByNodeIdPromises := ps\<rparr>"
    using resolvePromise_frame [OF assms(3)] by auto
  have gr: "grows st st'" "n \<in> covered st'" using covered_jset [of st' st n d] by (auto simp: grows_def st')
  have "closedState V st'"
  proof (rule closedState_step [OF assms(2) gr(1)], goal_cases)
    case 1
    then show ?case using assms(2) by (simp add: closedState_def st')
  next
    case (3 m e)
    then have "(m, e) \<in> set (jset n d (psPathsByNodeId st))" by (simp add: st')
    then have "(m, e) \<in> set (psPathsByNodeId st) \<or> e = d" by (rule update_pair)
    then show ?case using assms(1) in_keys_iff [of d "psDepGraph st"] by (auto simp: st' simp del: set_map)
  qed (auto simp: st')
  then show ?thesis using gr by (simp add: safeStep_def)
qed

text \<open>A node that is neither pure nor a link: its children are opened, a hit is taken, or its children are resolved.\<close>

lemma resolveOpened_safe:
  assumes "forceChildren tc n (psTree st) = Inr (children, ts)" "st1 = st\<lparr>psTree := ts\<rparr>"
    and "childParentPkgs env pkgs names (tsTree ts) ids children refs = Inr refs'"
    and "closedState V st" "okRefs V st refs" "okParents V st (nsParentNodeIds scope)"
  shows "closedState (V \<union> snd ` set children) st1" "safeStep V st st1" "okRefs (V \<union> snd ` set children) st1 refs'"
    "okParents (V \<union> snd ` set children) st1 (nsParentNodeIds scope @ [n])"
proof -
  let ?W = "V \<union> snd ` set children"
  have tree: "treeOk (psTree st)" using assms(4) by (simp add: closedState_def)
  note f = forceChildren_ok [OF assms(1) tree]
  have g: "grows st st1" using f(2) by (simp add: grows_def covered_def assms(2))
  have c: "closedState V st1"
    by (rule closedState_step [OF assms(4) g]) (auto simp: assms(2) f(1))
  then show "safeStep V st st1" using g by (simp add: safeStep_def)
  have sub: "absorbed V ?W st1" by simp
  show "closedState ?W st1" using closedState_absorb [OF c sub] .
  have "okRefs ?W st1 refs" using okRefs_mono [OF assms(5) g sub] .
  then show "okRefs ?W st1 refs'" using childParentPkgs_ok [OF assms(3) _ okIds_children] by blast
  have "okParents ?W st1 (nsParentNodeIds scope)" using okParents_mono [OF assms(6) g sub] .
  moreover have "opened (tsTree (psTree st1)) n children" using f(3) by (simp add: assms(2))
  ultimately show "okParents ?W st1 (nsParentNodeIds scope @ [n])" using okIds_children unfolding okParents_def by auto
qed

lemma resolvePeersOfNode_safe: "nodeSpec (resolvePeersOfNode ctx fuel)"
proof (induction fuel)
  case 0
  then show ?case by (simp add: nodeSpec_def)
next
  case (Suc fuel)
  show ?case unfolding nodeSpec_def
  proof (intro allI impI)
    fix V scope a n refs st r st'
    assume run: "resolvePeersOfNode ctx (Suc fuel) scope a n refs st = Inr (r, st')" and c: "closedState V st"
      and refs: "okRefs V st refs" and ps: "okParents V st (nsParentNodeIds scope)"
    obtain node where node: "map_of (tsTree (psTree st)) n = Some node"
      using run by (auto simp: sbind_Inr_iff getNode_def split: option.splits)
    show "safeStep V st st' \<and> nodeDone V n r st'"
    proof (cases "tnDepth node = - 1")
      case True
      then have "linkId n" using c node unfolding closedState_def treeOk_def by blast
      then show ?thesis using run node True c
        by (simp add: getNode_def asError_def nodeDone_def nodeResultOf_def noPeers_def okIds_def safeStep_def) auto
    next
      case False
      then obtain p pure where p: "resolvedPackageOf ctx node = Inr p" "knownPure p node st = Inr pure"
        using run node by (auto simp: sbind_Inr_iff getNode_def)
      let ?pid = "rpPkgIdWithPatchHash p"
      have gn: "getNode (tsTree (psTree st)) n = Inr node" using node by (simp add: getNode_def)
      note run1 = run [unfolded resolvePeersOfNode.simps gn p asError_simps sbind_simps if_not_P [OF False]]
      show ?thesis
      proof (cases pure)
        case True
        then have "map_of (psDepGraph st) ?pid \<noteq> None" using p(2) by (auto simp: knownPure_def split: if_splits option.splits)
        moreover have "resolvePromise n ?pid (st\<lparr>psPathsByNodeId := jset n ?pid (psPathsByNodeId st)\<rparr>) = Inr st'"
          "r = nodeResultOf noPeers None" using run1 True by (auto simp: sbind_Inr_iff)
        ultimately show ?thesis using addPath_safe [OF _ c] by (simp add: nodeDone_def nodeResultOf_def noPeers_def okIds_def)
      next
        case notPure: False
        obtain children ts where f: "forceChildren (rcTreeCtx ctx) n (psTree st) = Inr (children, ts)"
          using run1 notPure by (auto simp: sbind_Inr_iff)
        let ?st1 = "st\<lparr>psTree := ts\<rparr>" and ?ids = "nsParentNodeIds scope @ [n]"
        obtain refs' hit where refs': "childParentPkgs (rcEnv ctx) (rcPkgs ctx) (rcAllPeerDepNames ctx) (tsTree ts) ?ids children refs = Inr refs'"
          and hit: "findHit (hitCtxOf ctx ?st1) (psPeersCache ?st1) refs' ?pid = Inr hit"
          using run1 notPure f by (auto simp: sbind_Inr_iff Let_def)
        note o = resolveOpened_safe [OF f refl refs' c refs ps]
        have c1: "closedState V ?st1" using o(2) by (simp add: safeStep_def)
        show ?thesis
        proof (cases hit)
          case (Some i)
          then have "takeHit ctx ?ids n node (?pid, i) ?st1 = Inr (r, st')"
            using run1 notPure f refs' hit by (auto simp: Let_def)
          then show ?thesis using takeHit_safe [OF _ c1] safeStep_trans [OF o(2)] by blast
        next
          case None
          let ?W = "V \<union> snd ` set children"
          let ?chain = "nsParentDepPathsChain scope"
          let ?scope = "\<lparr>nsParentNodeIds = ?ids, nsParentDepPathsChain = (if ?pid \<in> set ?chain then ?chain else ?chain @ [?pid])\<rparr>"
          obtain ofChildren st2 st3 where
            ch: "resolvePeersOfChildren ctx (resolvePeersOfNode ctx fuel) ?scope children refs' ?st1 = Inr (ofChildren, st2)"
            and aw: "awaitTasks ctx st2 = Inr st3"
            and fin: "finishNode ctx scope a n node p children refs' ofChildren st3 = Inr (r, st')"
            using run1 notPure f refs' hit None by (auto simp: Let_def sbind_Inr_iff)
          have "okParents ?W ?st1 (nsParentNodeIds ?scope)" using o(4) by simp
          note r = resolvePeersOfChildren_safe [OF ch Suc.IH o(1,3) this]
          have s2: "safeStep V ?st1 st2" using r by (simp add: safeStep_def)
          have s3: "safeStep V st2 st3" using awaitTasks_safe [OF aw r(1)] .
          have s: "safeStep V st st3" using safeStep_trans [OF o(2)] safeStep_trans [OF s2 s3] by blast
          have "okIds V st2 children" using okIds_mono [OF okIds_children r(2,3)] .
          moreover have "okRefs V st2 refs'" using okRefs_mono [OF o(3) r(2,3)] .
          ultimately have "safeStep V st3 st' \<and> nodeDone V n r st'"
            using finishNode_safe [OF fin, of V] safeStep_mono [OF s3] safeStep_mono(4) [OF s ps] s r(4)
            by (simp add: safeStep_def)
          then show ?thesis using safeStep_trans [OF s] by blast
        qed
      qed
    qed
  qed
qed

end
