(* ===== verification/PeerGraph.thy ===== *)
theory PeerGraph
  imports PeerClosed
begin

text \<open>
  The result of \<open>resolvePeers\<close> (\<open>PeerResolution\<close>): the invariant of \<open>PeerClosed\<close> carried through all projects and the last
  tasks, and through the passes that redirect the children (\<open>deduplicateAll\<close>) and the direct dependencies
  (\<open>dedupeInjectedDeps\<close>).
\<close>

section \<open>All projects\<close>

definition directIds :: "projectToResolve list \<Rightarrow> nodeId set" where
  "directIds ps = (\<Union>p \<in> set ps. snd ` set (pjDirectNodeIdsByAlias p))"

definition linkedTops :: "projectToResolve \<Rightarrow> bool" where
  "linkedTops p = list_all (\<lambda>t. case tqLinkedDir t of None \<Rightarrow> True | Some n \<Rightarrow> linkId n) (pjTopParents p)"

lemma addTopParent_ok:
  assumes "addTopParent env t refs = Inr refs'" "okRefs V st refs" "case tqLinkedDir t of None \<Rightarrow> True | Some n \<Rightarrow> linkId n"
  shows "okRefs V st refs'"
proof -
  have "(a, r) \<in> set refs' \<Longrightarrow> (a, r) \<in> set refs \<or> pfNodeId r = tqLinkedDir t" for a r
    using assms(1) by (fastforce simp: addTopParent_def Let_def sbind_Inr_iff split: if_splits dest!: updateParentRefs_values)
  then show ?thesis using assms(2,3) unfolding okRefs_def okId_def by (metis option.simps(5))
qed

lemma createPkgsByName_ok:
  assumes "createPkgsByName env pkgs tree p = Inr refs" "okIds V st (pjDirectNodeIdsByAlias p)" "linkedTops p"
  shows "okRefs V st refs"
proof -
  obtain refs0 where r0: "toPkgByName env pkgs tree (map (\<lambda>(a, n). \<lparr>ppAlias = a, ppNodeId = n, ppParentNodeIds = []\<rparr>)
      (pjDirectNodeIdsByAlias p)) = Inr refs0" and r: "sfold (addTopParent env) (pjTopParents p) refs0 = Inr refs"
    using assms(1) by (auto simp: createPkgsByName_def sbind_Inr_iff)
  have "okRefs V st refs0" unfolding okRefs_def
  proof (intro allI impI)
    fix a q n assume "(a, q) \<in> set refs0" "pfNodeId q = Some n"
    then obtain b where "(b, n) \<in> set (pjDirectNodeIdsByAlias p)" using toPkgByName_values [OF r0] by fastforce
    then show "okId V st n" using assms(2) by (auto simp: okIds_def)
  qed
  moreover have "okRefs V st refs1 \<Longrightarrow> sfold (addTopParent env) ts refs1 = Inr refs \<Longrightarrow>
      \<forall>t \<in> set ts. case tqLinkedDir t of None \<Rightarrow> True | Some n \<Rightarrow> linkId n \<Longrightarrow> okRefs V st refs" for ts refs1
  proof (induction ts arbitrary: refs1)
    case (Cons t ts)
    then obtain refs2 where "addTopParent env t refs1 = Inr refs2" "sfold (addTopParent env) ts refs2 = Inr refs"
      by (auto simp: sbind_Inr_iff)
    then show ?case using Cons.IH [of refs2] addTopParent_ok Cons.prems by (metis list.set_intros)
  qed simp
  ultimately show ?thesis using r assms(3) by (auto simp: linkedTops_def list_all_iff)
qed

lemma getRootPkgsByName_ok:
  assumes "getRootPkgsByName env pkgs tree ps = Inr refs" "\<forall>p \<in> set ps. linkedTops p"
  shows "okRefs (directIds ps) st refs"
proof (cases "if length ps > 1 then List.find (\<lambda>p. pjId p = ''.'') ps else None")
  case None
  then show ?thesis using assms(1) by (simp add: getRootPkgsByName_def okRefs_def)
next
  case (Some p)
  then have p: "p \<in> set ps" by (auto simp: find_Some_iff split: if_splits)
  then have "okIds (directIds ps) st (pjDirectNodeIdsByAlias p)"
    unfolding okIds_def okId_def directIds_def by (metis UN_iff imageI snd_conv)
  then show ?thesis using assms Some p by (auto simp: getRootPkgsByName_def intro: createPkgsByName_ok)
qed

lemma resolvePeersOfProject_safe:
  assumes "resolvePeersOfProject ctx fuel root p (st, issues) = Inr (st', issues')" "closedState (directIds (p # ps)) st"
    and "okRefs (directIds (p # ps)) st root" "linkedTops p"
  shows "closedState (directIds ps) st'" "grows st st'" "absorbed (directIds (p # ps)) (directIds ps) st'"
proof -
  let ?W = "directIds (p # ps)" and ?direct = "pjDirectNodeIdsByAlias p"
  have W: "?W = directIds ps \<union> snd ` set ?direct" by (auto simp: directIds_def)
  obtain pkgs0 pkgs r st2 where
    p: "createPkgsByName (rcEnv ctx) (rcPkgs ctx) (tsTree (psTree st)) p = Inr pkgs0"
      "pkgs = filter (\<lambda>(peerName, _). peerName \<in> set (rcAllPeerDepNames ctx)) (spread root pkgs0)"
    and ch: "resolvePeersOfChildren ctx (resolvePeersOfNode ctx fuel) \<lparr>nsParentNodeIds = [], nsParentDepPathsChain = []\<rparr>
        ?direct pkgs (st\<lparr>psIssues := noIssues, psParentPkgsOfNode := [],
          psPathsByNodeIdPromises := fold addPromise (promiseIds pkgs) (psPathsByNodeIdPromises st)\<rparr>) = Inr (r, st2)"
    and aw: "awaitTasks ctx st2 = Inr st'"
    using assms(1) by (auto simp: resolvePeersOfProject_def projectPkgs_def Let_def sbind_Inr_iff)
  let ?st1 = "st\<lparr>psIssues := noIssues, psParentPkgsOfNode := [],
          psPathsByNodeIdPromises := fold addPromise (promiseIds pkgs) (psPathsByNodeIdPromises st)\<rparr>"
  have core: "sameCore st ?st1" by (simp add: sameCore_def)
  have s1: "safeStep ?W st ?st1" by (rule safeStep_core [OF core assms(2)])
  have "okIds ?W st ?direct" using okIds_children W by metis
  then have "okRefs ?W st pkgs0" using createPkgsByName_ok [OF p(1)] assms(4) by blast
  then have "okRefs ?W st (spread root pkgs0)" using assms(3) spread_values unfolding okRefs_def by metis
  then have "okRefs ?W st pkgs" unfolding okRefs_def p(2) by auto
  then have refs: "okRefs ?W ?st1 pkgs" by (rule safeStep_mono(3) [OF s1])
  have "closedState ?W ?st1" using s1 by (simp add: safeStep_def)
  then have r: "closedState (directIds ps) st2" "grows ?st1 st2" "absorbed ?W (directIds ps) st2"
    using resolvePeersOfChildren_safe [OF ch resolvePeersOfNode_safe, of "directIds ps"] refs unfolding W by (auto simp: okParents_def)
  have s3: "safeStep (directIds ps) st2 st'" by (rule awaitTasks_safe [OF aw r(1)])
  then show "closedState (directIds ps) st'" by (simp add: safeStep_def)
  show "grows st st'" using grows_trans [OF sameCore_grows [OF core] grows_trans [OF r(2)]] s3 by (simp add: safeStep_def)
  show "absorbed ?W (directIds ps) st'" using r(3) safeStep_mono(1) [OF s3] by (simp add: absorbed_def)
qed

lemma resolvePeersOfProjects_safe:
  assumes "sfold (resolvePeersOfProject ctx fuel root) ps (st, issues) = Inr (st', issues')" "closedState (directIds ps) st"
    and "okRefs (directIds ps) st root" "\<forall>p \<in> set ps. linkedTops p"
  shows "closedState {} st' \<and> grows st st' \<and> absorbed (directIds ps) {} st'"
  using assms
proof (induction ps arbitrary: st issues)
  case Nil
  then show ?case by (simp add: directIds_def)
next
  case (Cons p ps)
  then obtain st1 issues1 where p: "resolvePeersOfProject ctx fuel root p (st, issues) = Inr (st1, issues1)"
      "sfold (resolvePeersOfProject ctx fuel root) ps (st1, issues1) = Inr (st', issues')"
    by (auto simp: sbind_Inr_iff)
  note r = resolvePeersOfProject_safe [OF p(1) Cons.prems(2,3)]
  have lt: "linkedTops p" "\<forall>p \<in> set ps. linkedTops p" using Cons.prems(4) by auto
  have "okRefs (directIds ps) st1 root" using okRefs_mono [OF Cons.prems(3)] r(2,3) lt by blast
  then have IH: "closedState {} st' \<and> grows st1 st' \<and> absorbed (directIds ps) {} st'"
    using Cons.IH [OF p(2) r(1)] lt by blast
  have "okId {} st' n" if "n \<in> directIds (p # ps)" for n
    using r(3) [OF lt(1)] IH that unfolding absorbed_def okId_def grows_def by blast
  then show ?case using IH grows_trans [OF r(2)] lt(1) by (simp add: absorbed_def)
qed

text \<open>When no task is left, the children of every node of the graph have a path.\<close>

lemma resolveTree_closed:
  assumes "resolveTree ctx fuel opts tree = Inr (st, issues)" "treeOk tree" "\<forall>p \<in> set (roProjects opts). linkedTops p"
  shows "closedState {} st" "psTasks st = []" "absorbed (directIds (roProjects opts)) {} st"
proof -
  let ?ps = "roProjects opts"
  obtain root st1 st2 where
    root: "(if roResolvePeersFromWorkspaceRoot opts then getRootPkgsByName (rcEnv ctx) (rcPkgs ctx) (tsTree tree) ?ps else Inr []) = Inr root"
    and ps: "sfold (resolvePeersOfProject ctx fuel root) ?ps (initialState tree, []) = Inr (st1, issues)"
    and aw: "awaitTasks ctx st1 = Inr st2" and fin: "finishTasks ctx (length (psTasks st2)) st2 = Inr st"
    using assms(1) by (auto simp: resolveTree_def finishAll_def sbind_Inr_iff)
  have c0: "closedState (directIds ?ps) (initialState tree)" using assms(2) by (simp add: closedState_def initialState_def)
  have "okRefs (directIds ?ps) (initialState tree) root"
    using root getRootPkgsByName_ok [OF _ assms(3)] by (auto simp: okRefs_def split: if_splits)
  then have p: "closedState {} st1" "absorbed (directIds ?ps) {} st1"
    using resolvePeersOfProjects_safe [OF ps c0 _ assms(3)] by auto
  have s2: "safeStep {} st1 st2" by (rule awaitTasks_safe [OF aw p(1)])
  then have s3: "safeStep {} st2 st \<and> psTasks st = []" using finishTasks_safe [OF fin, of "{}"] by (simp add: safeStep_def)
  have s: "safeStep {} st1 st" using safeStep_trans [OF s2] s3 by blast
  then show "closedState {} st" by (simp add: safeStep_def)
  show "psTasks st = []" using s3 by simp
  show "absorbed (directIds ?ps) {} st" using p(2) safeStep_mono(1) [OF s] by (simp add: absorbed_def)
qed

definition isLinkOrIn :: "dependenciesGraph \<Rightarrow> depPath \<Rightarrow> bool" where
  "isLinkOrIn graph d = (startsWith d ''link:'' \<or> map_of graph d \<noteq> None)"

definition closedGraph :: "dependenciesGraph \<Rightarrow> bool" where
  "closedGraph graph = list_all (\<lambda>(_, g). list_all (\<lambda>(_, c). isLinkOrIn graph c) (gnChildren g)) graph"

definition directsIn :: "dependenciesGraph \<Rightarrow> dependenciesByProjectId \<Rightarrow> bool" where
  "directsIn graph byProject =
     list_all (\<lambda>(_, deps). list_all (\<lambda>(_, d). case d of None \<Rightarrow> False | Some e \<Rightarrow> map_of graph e \<noteq> None) deps) byProject"

lemma map_of_resolved: "map_of (map (\<lambda>(d, g). (d, f g)) graph) d = map_option f (map_of graph d)"
  by (induction graph) auto

lemma okId_path:
  assumes "closedState {} st" "psTasks st = []" "okId {} st n"
  shows "linkId n \<or> (\<exists>d. map_of (psPathsByNodeId st) n = Some d)"
    and "map_of (psPathsByNodeId st) n = Some d \<Longrightarrow> map_of (psDepGraph st) d \<noteq> None"
proof -
  have "n \<in> fst ` set (psPathsByNodeId st) \<Longrightarrow> \<exists>d. map_of (psPathsByNodeId st) n = Some d"
    using in_keys_iff [of n "psPathsByNodeId st"] by auto
  then show "linkId n \<or> (\<exists>d. map_of (psPathsByNodeId st) n = Some d)"
    using assms(2,3) by (auto simp: okId_def covered_def)
  assume "map_of (psPathsByNodeId st) n = Some d"
  then have "(n, d) \<in> set (psPathsByNodeId st)" by (rule map_of_SomeD)
  then show "map_of (psDepGraph st) d \<noteq> None"
    using assms(1) in_keys_iff [of d "psDepGraph st"] unfolding closedState_def by blast
qed

lemma resolveChildren_children: "gnChildren (resolveChildren paths node) =
    map (\<lambda>(a, n). (a, case map_of paths n of Some d \<Rightarrow> d | None \<Rightarrow> (case n of StrId s \<Rightarrow> s | NumId _ \<Rightarrow> [])))
      (qgChildrenNodeIds node)"
  by (simp add: resolveChildren_def resolvedPackage.defs graphNode.defs)

lemma resolvedGraph_closed:
  assumes "closedState {} st" "psTasks st = []"
  shows "closedGraph (map (\<lambda>(d, g). (d, resolveChildren (psPathsByNodeId st) g)) (psDepGraph st))"
  unfolding closedGraph_def list_all_iff
proof (clarsimp simp: resolveChildren_children)
  let ?paths = "psPathsByNodeId st"
  fix d g a n
  assume g: "(d, g) \<in> set (psDepGraph st)" and n: "(a, n) \<in> set (qgChildrenNodeIds g)"
  have ok: "okId {} st n" using assms(1) g n unfolding closedState_def okIds_def by blast
  show "isLinkOrIn (map (\<lambda>(d, g). (d, resolveChildren ?paths g)) (psDepGraph st))
      (case map_of ?paths n of Some d \<Rightarrow> d | None \<Rightarrow> (case n of StrId s \<Rightarrow> s | NumId _ \<Rightarrow> []))"
  proof (cases "map_of ?paths n")
    case None
    then have "linkId n" using okId_path(1) [OF assms ok] by simp
    then show ?thesis using None by (cases n) (auto simp: isLinkOrIn_def)
  next
    case (Some e)
    then show ?thesis using okId_path(2) [OF assms ok Some] by (auto simp: isLinkOrIn_def map_of_resolved)
  qed
qed

section \<open>What the passes over the graph keep\<close>

text \<open>A replacement is a path of the graph.\<close>

lemma compareWith_values:
  "(d, e) \<in> set (dsMap (compareWith one two st)) \<Longrightarrow> (d, e) \<in> set (dsMap st) \<or> e = fst one"
  by (auto simp: compareWith_def split: if_splits dest!: update_pair)

lemma compareAll_values:
  "(d, e) \<in> set (dsMap (fold (compareWith one) xs st)) \<Longrightarrow> (d, e) \<in> set (dsMap st) \<or> e = fst one"
proof (induction xs arbitrary: st)
  case (Cons x xs)
  then show ?case using compareWith_values [of d e one x st] by fastforce
qed simp

lemma dsNext_set: "set (dsNext (fold (compareWith one) xs st)) \<subseteq> set (dsNext st) \<union> set xs"
proof (induction xs arbitrary: st)
  case (Cons x xs)
  have "set (dsNext (compareWith one x st)) \<subseteq> insert x (set (dsNext st))" by (auto simp: compareWith_def)
  then show ?case using Cons.IH [of "compareWith one x st"] by auto
qed simp

lemma dedupeLoop_values:
  "dedupeLoop cur m u = (m', u') \<Longrightarrow> (d, e) \<in> set m' \<Longrightarrow> (d, e) \<in> set m \<or> e \<in> fst ` set cur"
proof (induction cur m u arbitrary: m' u' rule: dedupeLoop.induct)
  case (1 cur m u)
  show ?case
  proof (cases "cur = []")
    case True
    then show ?thesis using 1(2,3) dedupeLoop.simps [of "[]" m u] by simp
  next
    case False
    define s where "s = fold (compareWith (last cur)) (rev (butlast cur)) \<lparr>dsMap = m, dsUnresolved = u, dsNext = []\<rparr>"
    have l: "dedupeLoop (jsSort depCountSorter (dsNext s)) (dsMap s) (dsUnresolved s) = (m', u')"
      using 1(2) False by (simp add: dedupeLoop.simps [of cur] s_def Let_def)
    have "(d, e) \<in> set (dsMap s) \<or> e \<in> fst ` set (jsSort depCountSorter (dsNext s))"
      using 1(1) [OF False s_def l 1(3)] .
    moreover have "set (dsNext s) \<subseteq> set cur" using dsNext_set [of "last cur" "rev (butlast cur)"]
      unfolding s_def by (fastforce dest: in_set_butlastD)
    moreover have "(d, e) \<in> set (dsMap s) \<Longrightarrow> (d, e) \<in> set m \<or> e = fst (last cur)"
      unfolding s_def by (drule compareAll_values) simp
    ultimately show ?thesis using False by auto
  qed
qed

lemma nodesOf_keys: "nodesOf g ds = Inr ns \<Longrightarrow> fst ` set ns \<subseteq> {d. map_of g d \<noteq> None}"
  unfolding nodesOf_def smap_Inr_iff
  by (induction ds ns rule: list_all2_induct) (auto split: option.splits)

lemma deduplicateDepPaths_values:
  assumes "deduplicateDepPaths dups g = Inr (m, rest)" "(d, e) \<in> set m"
  shows "map_of g e \<noteq> None"
proof -
  have "(d, e) \<in> set (fst acc) \<or> map_of g e \<noteq> None"
    if "sfold (deduplicateSet g) ds acc = Inr (m, rest)" for ds acc
    using that
  proof (induction ds arbitrary: acc)
    case (Cons s ds)
    then obtain acc1 where acc1: "deduplicateSet g s acc = Inr acc1" "sfold (deduplicateSet g) ds acc1 = Inr (m, rest)"
      by (auto simp: sbind_Inr_iff)
    then obtain ns where n: "nodesOf g s = Inr ns" by (auto simp: deduplicateSet_def sbind_Inr_iff)
    obtain m1 u1 where l: "dedupeLoop (jsSort depCountSorter ns) (fst acc) s = (m1, u1)" by (rule prod.exhaust)
    then have "fst acc1 = m1" using acc1(1) n by (auto simp: deduplicateSet_def)
    note ns = n l this
    have "(d, e) \<in> set m1 \<Longrightarrow> (d, e) \<in> set (fst acc) \<or> e \<in> fst ` set ns" using dedupeLoop_values [OF ns(2)] by simp
    then show ?case using Cons.IH [OF acc1(2)] nodesOf_keys [OF ns(1)] ns(3) by blast
  qed (use assms(2) in simp)
  from this [of dups "([], [])"] assms(1) show ?thesis by (simp add: deduplicateDepPaths_def)
qed

lemma replaceChildren_closed:
  assumes "closedGraph g" "\<And>d e. (d, e) \<in> set m \<Longrightarrow> map_of g e \<noteq> None"
  shows "closedGraph (map (\<lambda>(d, n). (d, replaceChildren m n)) g)"
proof -
  have child: "isLinkOrIn (map (\<lambda>(d, n). (d, replaceChildren m n)) g) (if truthy (map_of m c) then the (map_of m c) else c)"
    if "isLinkOrIn g c" for c
    using that assms(2) [of c] by (cases "map_of m c") (auto simp: isLinkOrIn_def map_of_resolved dest: map_of_SomeD)
  show ?thesis using assms(1) child by (fastforce simp: closedGraph_def list_all_iff replaceChildren_def)
qed

lemma spread_pair: "(k, v) \<in> set (spread a b) \<Longrightarrow> (\<exists>k. (k, v) \<in> set a) \<or> (\<exists>k. (k, v) \<in> set b)"
  by (rule spread_values)

lemma deduplicateAll_closed:
  "deduplicateAll g dups = Inr (m, g') \<Longrightarrow> closedGraph g \<Longrightarrow>
     closedGraph g' \<and> (\<forall>d. map_of g' d = None \<longleftrightarrow> map_of g d = None) \<and> (\<forall>d e. (d, e) \<in> set m \<longrightarrow> map_of g e \<noteq> None)"
proof (induction g dups arbitrary: m g' rule: deduplicateAll.induct)
  case (1 g dups)
  from 1(2) obtain m1 rest where d: "deduplicateDepPaths dups g = Inr (m1, rest)"
    by (subst (asm) deduplicateAll.simps) (auto simp: sbind_Inr_iff)
  note v = deduplicateDepPaths_values [OF d]
  let ?g = "map (\<lambda>(d, n). (d, replaceChildren m1 n)) g"
  show ?case
  proof (cases "length rest = length dups \<or> m1 = []")
    case True
    then have "m = m1 \<and> (g' = g \<or> g' = ?g)" using 1(2) d by (subst (asm) deduplicateAll.simps) (auto simp: Let_def split: if_splits)
    then show ?thesis using 1(3) v replaceChildren_closed [OF 1(3) v] by (auto simp: map_of_resolved)
  next
    case False
    then obtain m2 where r: "deduplicateAll ?g rest = Inr (m2, g')" "m = spread m1 m2"
      using 1(2) d by (subst (asm) deduplicateAll.simps) (auto simp: Let_def sbind_Inr_iff)
    have IH: "closedGraph g' \<and> (\<forall>d. map_of g' d = None \<longleftrightarrow> map_of ?g d = None) \<and> (\<forall>d e. (d, e) \<in> set m2 \<longrightarrow> map_of ?g e \<noteq> None)"
      by (rule 1(1) [OF d refl _ refl _ r(1) replaceChildren_closed [OF 1(3) v]]) (use False in auto)
    have "\<forall>d e. (d, e) \<in> set m \<longrightarrow> map_of g e \<noteq> None"
    proof (intro allI impI)
      fix d e assume "(d, e) \<in> set m"
      then have "(\<exists>k. (k, e) \<in> set m1) \<or> (\<exists>k. (k, e) \<in> set m2)" unfolding r(2) by (rule spread_values)
      then show "map_of g e \<noteq> None" using IH v by (auto simp: map_of_resolved)
    qed
    then show ?thesis using IH by (simp add: map_of_resolved)
  qed
qed

lemma directsIn_iff: "directsIn g by \<longleftrightarrow> (\<forall>i deps a d. (i, deps) \<in> set by \<longrightarrow> (a, d) \<in> set deps \<longrightarrow> (\<exists>e. d = Some e \<and> map_of g e \<noteq> None))"
  by (fastforce simp: directsIn_def list_all_iff split: option.splits)

lemma applyDedupe_directs:
  assumes "applyDedupe ctx i e acc = Inr acc'" "directsIn g (fst acc)"
  shows "directsIn g (fst acc')"
proof -
  obtain own where own: "map_of (fst acc) i = Some own" "fst acc' = jset i (jdel (fst e) own) (fst acc)"
    using assms(1) by (auto simp: applyDedupe_def Let_def split: prod.splits option.splits)
  then have "(i, own) \<in> set (fst acc)" by (simp add: map_of_SomeD)
  show ?thesis unfolding directsIn_iff
  proof (intro allI impI)
    fix j deps a d assume j: "(j, deps) \<in> set (fst acc')" and d: "(a, d) \<in> set deps"
    have "(j, deps) \<in> set (fst acc) \<or> deps = jdel (fst e) own" using j unfolding own(2) by (rule update_pair)
    then have "\<exists>j deps0. (j, deps0) \<in> set (fst acc) \<and> (a, d) \<in> set deps0"
      using d \<open>(i, own) \<in> set (fst acc)\<close> unfolding AList.delete_eq by (metis filter_is_subset in_mono)
    then show "\<exists>e. d = Some e \<and> map_of g e \<noteq> None" using assms(2) unfolding directsIn_iff by blast
  qed
qed

lemma dedupeInjectedDeps_directs:
  assumes "dedupeInjectedDeps ctx by imps = Inr acc" "directsIn g by"
  shows "directsIn g (fst acc)"
proof -
  obtain m where "applyDedupeMap ctx m (by, imps) = Inr acc" using assms(1) by (auto simp: dedupeInjectedDeps_def sbind_Inr_iff)
  then have "directsIn g (fst (by, imps)) \<longrightarrow> directsIn g (fst acc)" unfolding applyDedupeMap_def
  proof (rule sfold_rel [where R = "\<lambda>a b. directsIn g (fst a) \<longrightarrow> directsIn g (fst b)", rotated 3])
    fix x s s' assume "(case x of (projectId, aliases) \<Rightarrow> sfold (applyDedupe ctx projectId) aliases) s = Inr s'"
    then have "sfold (applyDedupe ctx (fst x)) (snd x) s = Inr s'" by (simp add: case_prod_unfold)
    then show "directsIn g (fst s) \<longrightarrow> directsIn g (fst s')"
      by (rule sfold_rel [where R = "\<lambda>a b. directsIn g (fst a) \<longrightarrow> directsIn g (fst b)", rotated 3])
        (use applyDedupe_directs in blast)+
  qed blast+
  then show ?thesis using assms(2) by simp
qed

lemma redirectDirect_directs:
  assumes "directsIn g by" "\<And>d e. (d, e) \<in> set m \<Longrightarrow> map_of g e \<noteq> None"
  shows "directsIn g (redirectDirect m ps by)"
  unfolding directsIn_iff
proof (intro allI impI)
  fix i deps a d assume i: "(i, deps) \<in> set (redirectDirect m ps by)" and d: "(a, d) \<in> set deps"
  then obtain deps0 d0 where d0: "(i, deps0) \<in> set by" "(a, d0) \<in> set deps0"
    "d = d0 \<or> (\<exists>e. d = Some e \<and> Option.bind d0 (map_of m) = Some e)"
    by (auto simp: redirectDirect_def split: if_splits option.splits)
  show "\<exists>e. d = Some e \<and> map_of g e \<noteq> None"
    using d0(3)
  proof (elim disjE exE conjE)
    fix e assume e: "d = Some e" "Option.bind d0 (map_of m) = Some e"
    then obtain c where "(c, e) \<in> set m" by (auto simp: bind_eq_Some_conv dest: map_of_SomeD)
    then show ?thesis using e(1) assms(2) by blast
  qed (use assms(1) d0(1,2) in \<open>auto simp: directsIn_iff\<close>)
qed

definition directsNotLinked :: "projectToResolve \<Rightarrow> bool" where
  "directsNotLinked p = list_all (\<lambda>(_, n). \<not> linkId n) (pjDirectNodeIdsByAlias p)"

lemma byProjectIdOf_values:
  assumes "(i, deps) \<in> set (byProjectIdOf paths ps)"
  shows "\<exists>p \<in> set ps. deps = map (\<lambda>(a, n). (a, map_of paths n)) (pjDirectNodeIdsByAlias p)"
proof -
  have "(i, deps) \<in> set (fold (\<lambda>p. jset (pjId p) (map (\<lambda>(a, n). (a, map_of paths n)) (pjDirectNodeIdsByAlias p))) ps acc) \<Longrightarrow>
      (i, deps) \<in> set acc \<or> (\<exists>p \<in> set ps. deps = map (\<lambda>(a, n). (a, map_of paths n)) (pjDirectNodeIdsByAlias p))" for acc
  proof (induction ps arbitrary: acc)
    case (Cons p ps)
    then show ?case by (fastforce dest!: update_pair)
  qed simp
  from this [of "[]"] assms show ?thesis by (simp add: byProjectIdOf_def)
qed

lemma direct_path:
  assumes "closedState {} st" "psTasks st = []" "absorbed (directIds ps) {} st" "p \<in> set ps" "(a, n) \<in> set (pjDirectNodeIdsByAlias p)"
    and "\<not> linkId n"
  shows "\<exists>e. map_of (psPathsByNodeId st) n = Some e \<and> map_of (psDepGraph st) e \<noteq> None"
proof -
  have "n \<in> directIds ps" using assms(4,5) unfolding directIds_def by (metis UN_iff imageI snd_conv)
  then have ok: "okId {} st n" using assms(3) by (simp add: absorbed_def)
  then obtain e where "map_of (psPathsByNodeId st) n = Some e" using okId_path(1) [OF assms(1,2) ok] assms(6) by blast
  then show ?thesis using okId_path(2) [OF assms(1,2) ok] by blast
qed

lemma byProjectIdOf_directs:
  assumes "closedState {} st" "psTasks st = []" "absorbed (directIds ps) {} st" "\<forall>p \<in> set ps. directsNotLinked p"
  shows "directsIn (map (\<lambda>(d, g). (d, resolveChildren (psPathsByNodeId st) g)) (psDepGraph st)) (byProjectIdOf (psPathsByNodeId st) ps)"
  unfolding directsIn_iff
proof (intro allI impI)
  fix i deps a d assume "(i, deps) \<in> set (byProjectIdOf (psPathsByNodeId st) ps)" "(a, d) \<in> set deps"
  then obtain p n where p: "p \<in> set ps" "(a, n) \<in> set (pjDirectNodeIdsByAlias p)" "d = map_of (psPathsByNodeId st) n"
    using byProjectIdOf_values by fastforce
  moreover have "\<not> linkId n" using assms(4) p(1,2) by (auto simp: directsNotLinked_def list_all_iff)
  ultimately show "\<exists>e. d = Some e \<and> map_of (map (\<lambda>(d, g). (d, resolveChildren (psPathsByNodeId st) g)) (psDepGraph st)) e \<noteq> None"
    using direct_path [OF assms(1-3) p(1,2)] by (simp add: map_of_resolved)
qed

text \<open>C3. (safety) The graph that \<open>resolvePeers\<close> returns is closed, however its asynchronous parts interleave: every child of
  every node is a link or the dependency path of a node of the graph, also after the children have been redirected to other
  paths, and so is every direct dependency of every project. So \<open>updateLockfile\<close> finds a node for every path it follows.\<close>

theorem resolvePeers_closed:
  assumes "resolvePeers ctx fuel opts tree imps = Inr res" and "treeOk tree"
    and "\<forall>p \<in> set (roProjects opts). linkedTops p \<and> directsNotLinked p"
  shows "closedGraph (rrDependenciesGraph res) \<and> directsIn (rrDependenciesGraph res) (rrDependenciesByProjectId res)"
proof -
  let ?ps = "roProjects opts"
  obtain st issues by1 imps1 graph2 by2 where
    t: "resolveTree ctx fuel opts tree = Inr (st, issues)"
    and inj: "(if roDedupeInjectedDeps opts
         then dedupeInjectedDeps \<lparr>icProjects = map (\<lambda>p. (pjId p, pjDirectNodeIdsByAlias p)) ?ps,
             icDepGraph = map (\<lambda>(d, g). (d, resolveChildren (psPathsByNodeId st) g)) (psDepGraph st),
             icPathsByNodeId = psPathsByNodeId st, icLockfileDir = roLockfileDir opts, icRelative = roRelative opts,
             icJoin = (\<lambda>a b. rcJoin ctx [a, b])\<rparr> (byProjectIdOf (psPathsByNodeId st) ?ps) imps
         else Inr (byProjectIdOf (psPathsByNodeId st) ?ps, imps)) = Inr (by1, imps1)"
    and ded: "(if roDedupePeerDependents opts
         then sbind (deduplicateAll (map (\<lambda>(d, g). (d, resolveChildren (psPathsByNodeId st) g)) (psDepGraph st))
             (filter (\<lambda>ds. length ds > 1) (vals (psDepPathsByPkgId st)))) (\<lambda>(m, graph'). Inr (graph', redirectDirect m ?ps by1))
         else Inr (map (\<lambda>(d, g). (d, resolveChildren (psPathsByNodeId st) g)) (psDepGraph st), by1)) = Inr (graph2, by2)"
    and res: "rrDependenciesGraph res = graph2" "rrDependenciesByProjectId res = by2"
    using assms(1) unfolding resolvePeers_def Let_def sbind_Inr_iff by (auto simp: sbind_Inr_iff)
  let ?paths = "psPathsByNodeId st"
  let ?graph = "map (\<lambda>(d, g). (d, resolveChildren ?paths g)) (psDepGraph st)"
  note c = resolveTree_closed [OF t assms(2)]
  have cs: "closedState {} st" "psTasks st = []" "absorbed (directIds ?ps) {} st" using c assms(3) by auto
  have g: "closedGraph ?graph" by (rule resolvedGraph_closed [OF cs(1,2)])
  have d0: "directsIn ?graph (byProjectIdOf ?paths ?ps)"
    by (rule byProjectIdOf_directs [OF cs]) (use assms(3) in blast)
  have d1: "directsIn ?graph by1" using inj d0 dedupeInjectedDeps_directs by (fastforce split: if_splits)
  show ?thesis
  proof (cases "roDedupePeerDependents opts")
    case False
    then show ?thesis using ded g d1 by (simp add: res)
  next
    case True
    then obtain m where m: "deduplicateAll ?graph (filter (\<lambda>ds. length ds > 1) (vals (psDepPathsByPkgId st))) = Inr (m, graph2)"
      "by2 = redirectDirect m ?ps by1" using ded by (auto simp: sbind_Inr_iff)
    note da = deduplicateAll_closed [OF m(1) g]
    have "directsIn ?graph by2" unfolding m(2) using redirectDirect_directs [OF d1] da by blast
    then have "directsIn graph2 by2" using da unfolding directsIn_iff by metis
    then show ?thesis using da by (simp add: res)
  qed
qed


theorem resolvePeers_closed_witness:
  "(case resolvePeers (toyCtx (\<lambda>_. [])) 3 (toyProject ''a'' ''b'') toyTree [] of Inl e \<Rightarrow> False
    | Inr res \<Rightarrow> closedGraph (rrDependenciesGraph res) \<and> directsIn (rrDependenciesGraph res) (rrDependenciesByProjectId res))"
proof (cases "resolvePeers (toyCtx (\<lambda>_. [])) 3 (toyProject ''a'' ''b'') toyTree []")
  case (Inl e)
  then show ?thesis using peers_of_each_other by simp
next
  case (Inr res)
  have t: "treeOk toyTree" by (auto simp: treeOk_def toyTree_def addPendingNode_def toyPending_def split: if_splits)
  have "\<forall>p \<in> set (roProjects (toyProject ''a'' ''b'')). linkedTops p \<and> directsNotLinked p"
    by (simp add: toyProject_def linkedTops_def directsNotLinked_def)
  from resolvePeers_closed [OF Inr t this] show ?thesis by (simp add: Inr)
qed

end
