(* ===== verification/PeerTree.thy ===== *)
theory PeerTree
  imports PeerGraph
begin

text \<open>
  The tables that the resolution of dependencies fills, and the tree that is unfolded from them (\<open>DependencyTree\<close>) while
  the peers are resolved: when the tables are complete, every node can be opened, and its children are nodes of smaller
  rank. The rank of a node that is not open is the bound on the depth below it. \<open>PeerTotal\<close> carries this through the walk.
\<close>

text \<open>A loop whose steps succeed and keep a property.\<close>

lemma sfold_inv:
  "(\<And>x s. x \<in> set xs \<Longrightarrow> P s \<Longrightarrow> \<exists>s'. f x s = Inr s' \<and> P s') \<Longrightarrow> P s \<Longrightarrow> \<exists>s'. sfold f xs s = Inr s' \<and> P s'"
proof (induction xs arbitrary: s)
  case (Cons x xs)
  obtain s1 where s1: "f x s = Inr s1" "P s1" using Cons.prems(1) [of x s] Cons.prems(2) by auto
  have "\<exists>s'. sfold f xs s1 = Inr s' \<and> P s'" by (rule Cons.IH [OF _ s1(2)]) (use Cons.prems(1) in auto)
  then show ?case using s1(1) by simp
qed simp

section \<open>The tables\<close>

text \<open>A child in the tables: a link and a leaf are nodes already, any other package has children of its own.\<close>

definition childGood :: "resolveCtx \<Rightarrow> dependenciesTree \<Rightarrow> str \<Rightarrow> bool" where
  "childGood ctx tree c =
     (if startsWith c ''link:'' then map_of tree (StrId c) \<noteq> None
      else case map_of (tcIsLeaf (rcTreeCtx ctx)) c of
          None \<Rightarrow> False
        | Some True \<Rightarrow> map_of tree (StrId c) \<noteq> None
        | Some False \<Rightarrow> map_of (tcChildrenByParentId (rcTreeCtx ctx)) c \<noteq> None \<and>
            (case map_of (rcPkgs ctx) c of Some (Resolved _) \<Rightarrow> True | _ \<Rightarrow> False))"

definition tablesGood :: "resolveCtx \<Rightarrow> dependenciesTree \<Rightarrow> bool" where
  "tablesGood ctx tree = list_all (\<lambda>(_, cs). list_all (\<lambda>(_, c). childGood ctx tree c) cs) (tcChildrenByParentId (rcTreeCtx ctx))"

text \<open>A node has its package, and its children have smaller ranks.\<close>

definition nodeGood :: "resolveCtx \<Rightarrow> (nodeId \<Rightarrow> nat) \<Rightarrow> dependenciesTree \<Rightarrow> nodeId \<Rightarrow> treeNode \<Rightarrow> bool" where
  "nodeGood ctx rank tree k n \<longleftrightarrow>
     (case map_of (rcPkgs ctx) (tnPkgId n) of
        None \<Rightarrow> False
      | Some (Linked _ _) \<Rightarrow> tnDepth n = - 1
      | Some (Resolved _) \<Rightarrow> True) \<and>
     (case tnChildren n of
        Inl t \<Rightarrow> (case map_of (tcChildrenByParentId (rcTreeCtx ctx)) (ttParentId t) of
            None \<Rightarrow> False
          | Some cs \<Rightarrow> cs = [] \<or> treeMeasure (rcTreeCtx ctx) t < rank k)
      | Inr m \<Rightarrow> list_all (\<lambda>(_, c). map_of tree c \<noteq> None \<and> rank c < rank k) m)"

definition freshFrom :: "treeState \<Rightarrow> nodeId \<Rightarrow> bool" where
  "freshFrom ts k = (case k of StrId _ \<Rightarrow> True | NumId i \<Rightarrow> i \<le> tsCounter ts)"

definition treeGood :: "resolveCtx \<Rightarrow> (nodeId \<Rightarrow> nat) \<Rightarrow> treeState \<Rightarrow> bool" where
  "treeGood ctx rank ts \<longleftrightarrow> tablesGood ctx (tsTree ts) \<and> (\<forall>s. rank (StrId s) = 0) \<and>
     (\<forall>k n. map_of (tsTree ts) k = Some n \<longrightarrow> freshFrom ts k \<and> nodeGood ctx rank (tsTree ts) k n)"

lemma treeGoodD:
  assumes "treeGood ctx rank ts"
  shows "tablesGood ctx (tsTree ts)" and "rank (StrId s) = 0"
    and "map_of (tsTree ts) k = Some n \<Longrightarrow> freshFrom ts k" and "map_of (tsTree ts) k = Some n \<Longrightarrow> nodeGood ctx rank (tsTree ts) k n"
  using assms unfolding treeGood_def by blast+

text \<open>Nodes are only added, and keep their place.\<close>

definition treeExt :: "treeState \<Rightarrow> treeState \<Rightarrow> bool" where
  "treeExt ts ts' \<longleftrightarrow> (\<forall>k n. map_of (tsTree ts) k = Some n \<longrightarrow> (\<exists>n'. map_of (tsTree ts') k = Some n' \<and> tnDepth n' = tnDepth n \<and>
     tnPkgId n' = tnPkgId n \<and> (\<forall>m. tnChildren n = Inr m \<longrightarrow> tnChildren n' = Inr m)))"

definition sameRank :: "treeState \<Rightarrow> (nodeId \<Rightarrow> nat) \<Rightarrow> (nodeId \<Rightarrow> nat) \<Rightarrow> bool" where
  "sameRank ts rank rank' \<longleftrightarrow> (\<forall>k. map_of (tsTree ts) k \<noteq> None \<longrightarrow> rank' k = rank k)"

lemma treeExt_refl [simp]: "treeExt ts ts" by (simp add: treeExt_def)

lemma treeExt_trans: "treeExt a b \<Longrightarrow> treeExt b c \<Longrightarrow> treeExt a c"
  unfolding treeExt_def
proof (intro allI impI)
  fix k n
  assume a: "\<forall>k n. map_of (tsTree a) k = Some n \<longrightarrow> (\<exists>n'. map_of (tsTree b) k = Some n' \<and> tnDepth n' = tnDepth n \<and>
      tnPkgId n' = tnPkgId n \<and> (\<forall>m. tnChildren n = Inr m \<longrightarrow> tnChildren n' = Inr m))"
    and b: "\<forall>k n. map_of (tsTree b) k = Some n \<longrightarrow> (\<exists>n'. map_of (tsTree c) k = Some n' \<and> tnDepth n' = tnDepth n \<and>
      tnPkgId n' = tnPkgId n \<and> (\<forall>m. tnChildren n = Inr m \<longrightarrow> tnChildren n' = Inr m))"
    and n: "map_of (tsTree a) k = Some n"
  from a n obtain n1 where n1: "map_of (tsTree b) k = Some n1" "tnDepth n1 = tnDepth n" "tnPkgId n1 = tnPkgId n"
    "\<forall>m. tnChildren n = Inr m \<longrightarrow> tnChildren n1 = Inr m" by blast
  from b n1(1) obtain n2 where "map_of (tsTree c) k = Some n2" "tnDepth n2 = tnDepth n1" "tnPkgId n2 = tnPkgId n1"
    "\<forall>m. tnChildren n1 = Inr m \<longrightarrow> tnChildren n2 = Inr m" by blast
  then show "\<exists>n'. map_of (tsTree c) k = Some n' \<and> tnDepth n' = tnDepth n \<and> tnPkgId n' = tnPkgId n \<and>
      (\<forall>m. tnChildren n = Inr m \<longrightarrow> tnChildren n' = Inr m)" using n1 by auto
qed

lemma treeExt_known: "treeExt a b \<Longrightarrow> map_of (tsTree a) k \<noteq> None \<Longrightarrow> map_of (tsTree b) k \<noteq> None"
  unfolding treeExt_def by (metis not_Some_eq)

lemma treeExt_opened: "treeExt a b \<Longrightarrow> opened (tsTree a) i m \<Longrightarrow> opened (tsTree b) i m"
  unfolding treeExt_def opened_def by metis

lemma sameRank_refl [simp]: "sameRank ts rank rank" by (simp add: sameRank_def)

lemma sameRank_trans: "sameRank a r1 r2 \<Longrightarrow> sameRank b r2 r3 \<Longrightarrow> treeExt a b \<Longrightarrow> sameRank a r1 r3"
  unfolding sameRank_def using treeExt_known by metis

subsection \<open>Opening a node\<close>

text \<open>What the loop of \<open>buildTree\<close> has collected.\<close>

definition newChild :: "resolveCtx \<Rightarrow> treeThunk \<Rightarrow> nat \<Rightarrow> nat \<Rightarrow> nodeId \<times> treeNode \<Rightarrow> bool" where
  "newChild ctx t start cnt x \<longleftrightarrow> (\<exists>i c t'. fst x = NumId i \<and> start < i \<and> i \<le> cnt \<and> tnPkgId (snd x) = c \<and>
     tnChildren (snd x) = Inl t' \<and> thunkFor t c t' \<and> \<not> isCut t c \<and> childOf (rcTreeCtx ctx) (ttParentId t) c \<and>
     map_of (tcIsLeaf (rcTreeCtx ctx)) c = Some False)"

definition childThere :: "dependenciesTree \<Rightarrow> treeLoop \<Rightarrow> nodeId \<Rightarrow> bool" where
  "childThere tree l v \<longleftrightarrow> v \<in> set (keys (tlNew l)) \<or> (\<exists>c. v = StrId c \<and> map_of tree v \<noteq> None)"

definition loopGood :: "resolveCtx \<Rightarrow> dependenciesTree \<Rightarrow> treeThunk \<Rightarrow> nat \<Rightarrow> treeLoop \<Rightarrow> bool" where
  "loopGood ctx tree t start l \<longleftrightarrow> start \<le> tlCounter l \<and> distinct (keys (tlNew l)) \<and>
     (\<forall>x \<in> set (tlNew l). newChild ctx t start (tlCounter l) x) \<and> (\<forall>a v. (a, v) \<in> set (tlChildrenNodeIds l) \<longrightarrow> childThere tree l v)"

lemma childThere_mono: "childThere tree l v \<Longrightarrow> set (keys (tlNew l)) \<subseteq> set (keys (tlNew l')) \<Longrightarrow> childThere tree l' v"
  unfolding childThere_def by blast

lemma newChild_Suc: "newChild ctx t start c x \<Longrightarrow> newChild ctx t start (Suc c) x"
  unfolding newChild_def using le_SucI by blast

lemma addTreeChild_good:
  assumes l: "loopGood ctx tree t start l" and c: "childGood ctx tree c"
    and cs: "map_of (tcChildrenByParentId (rcTreeCtx ctx)) (ttParentId t) = Some cs" "(al, c) \<in> set cs"
  shows "\<exists>l'. addTreeChild (rcTreeCtx ctx) t (al, c) l = Inr l' \<and> loopGood ctx tree t start l'"
proof -
  have keep: "loopGood ctx tree t start (l\<lparr>tlChildrenNodeIds := jset al (StrId c) (tlChildrenNodeIds l)\<rparr>)"
    if "map_of tree (StrId c) \<noteq> None"
    using l that unfolding loopGood_def childThere_def by (auto dest!: set_update_pair)
  consider "startsWith c ''link:''" | "\<not> startsWith c ''link:''" "isCut t c"
    | "\<not> startsWith c ''link:''" "\<not> isCut t c" "map_of (tcIsLeaf (rcTreeCtx ctx)) c = Some True"
    | "\<not> startsWith c ''link:''" "\<not> isCut t c" "map_of (tcIsLeaf (rcTreeCtx ctx)) c = Some False"
    using c by (auto simp: childGood_def split: if_splits option.splits bool.splits)
  then show ?thesis
  proof cases
    case 1
    then show ?thesis using keep c by (simp add: addTreeChild_def childGood_def)
  next
    case 2
    then show ?thesis using l by (simp add: addTreeChild_def isCut_def)
  next
    case 3
    then show ?thesis using keep c by (simp add: addTreeChild_def isCut_def childGood_def)
  next
    case 4
    let ?k = "NumId (Suc (tlCounter l))"
    obtain x i where x: "addTreeChild (rcTreeCtx ctx) t (al, c) l = Inr \<lparr>tlInstallable = i,
        tlChildrenNodeIds = jset al ?k (tlChildrenNodeIds l), tlNew = tlNew l @ [(?k, x)], tlCounter = Suc (tlCounter l)\<rparr>"
      and xc: "tnPkgId x = c" "childThunk t c x"
      using 4 by (auto simp: addTreeChild_def isCut_def Let_def childThunk_def)
    let ?l' = "\<lparr>tlInstallable = i, tlChildrenNodeIds = jset al ?k (tlChildrenNodeIds l), tlNew = tlNew l @ [(?k, x)],
        tlCounter = Suc (tlCounter l)\<rparr>"
    have "start \<le> tlCounter l" using l by (simp add: loopGood_def)
    moreover have "childOf (rcTreeCtx ctx) (ttParentId t) c" using cs 4(1) by (auto simp: childOf_def)
    ultimately have new: "newChild ctx t start (Suc (tlCounter l)) (?k, x)"
      using xc 4 by (auto simp: newChild_def childThunk_def thunkFor_def)
    have "fst y \<noteq> ?k" if "y \<in> set (tlNew l)" for y
      using l that unfolding loopGood_def newChild_def by fastforce
    then have "distinct (keys (tlNew ?l'))" using l by (force simp: loopGood_def)
    moreover have "\<forall>x \<in> set (tlNew ?l'). newChild ctx t start (tlCounter ?l') x"
      using l new newChild_Suc by (simp add: loopGood_def ball_Un)
    moreover have "childThere tree ?l' v" if "(a, v) \<in> set (tlChildrenNodeIds ?l')" for a v
    proof -
      have "(a, v) \<in> set (tlChildrenNodeIds l) \<or> v = ?k" using that update_pair by fastforce
      then show ?thesis
      proof
        assume "(a, v) \<in> set (tlChildrenNodeIds l)"
        then have "childThere tree l v" using l by (simp add: loopGood_def)
        then show ?thesis by (rule childThere_mono) auto
      qed (simp add: childThere_def)
    qed
    ultimately have "loopGood ctx tree t start ?l'" using l by (simp add: loopGood_def)
    then show ?thesis using x by blast
  qed
qed

lemma addTreeChildren_good:
  assumes "loopGood ctx tree t start l" "\<And>al c. (al, c) \<in> set ds \<Longrightarrow> childGood ctx tree c"
    and "map_of (tcChildrenByParentId (rcTreeCtx ctx)) (ttParentId t) = Some cs" "set ds \<subseteq> set cs"
  shows "\<exists>l'. sfold (addTreeChild (rcTreeCtx ctx) t) ds l = Inr l' \<and> loopGood ctx tree t start l'"
proof (rule sfold_inv [where P = "loopGood ctx tree t start", OF _ assms(1)])
  fix x l assume x: "x \<in> set ds" and l: "loopGood ctx tree t start l"
  obtain al c where al: "x = (al, c)" by (cases x)
  show "\<exists>l'. addTreeChild (rcTreeCtx ctx) t x l = Inr l' \<and> loopGood ctx tree t start l'"
    unfolding al by (rule addTreeChild_good [OF l _ assms(3)]) (use assms(2,4) x al in auto)
qed

lemma map_of_addNodes:
  "distinct (keys xs) \<Longrightarrow> map_of (fold (\<lambda>(k, n). jset k (f n)) xs tree) k =
     (case map_of xs k of Some n \<Rightarrow> Some (f n) | None \<Rightarrow> map_of tree k)"
proof (induction xs arbitrary: tree)
  case (Cons x xs)
  obtain a b where x: "x = (a, b)" by (cases x)
  have "map_of xs a = None" using Cons.prems by (simp add: x map_of_eq_None_iff)
  then show ?case using Cons.IH [of "jset a (f b) tree"] Cons.prems by (auto simp: x update_conv' split: option.splits)
qed simp

lemma childGood_ext: "childGood ctx a c \<Longrightarrow> (\<And>k. map_of a k \<noteq> None \<Longrightarrow> map_of b k \<noteq> None) \<Longrightarrow> childGood ctx b c"
  by (auto simp: childGood_def split: if_splits option.splits bool.splits)

lemma tablesGood_ext: "tablesGood ctx a \<Longrightarrow> (\<And>k. map_of a k \<noteq> None \<Longrightarrow> map_of b k \<noteq> None) \<Longrightarrow> tablesGood ctx b"
  unfolding tablesGood_def list_all_iff using childGood_ext by fastforce

lemma nodeGood_ext:
  assumes "nodeGood ctx rank a k n" "\<And>k. map_of a k \<noteq> None \<Longrightarrow> map_of b k \<noteq> None \<and> rank' k = rank k" "rank' k = rank k"
  shows "nodeGood ctx rank' b k n"
  using assms by (auto simp: nodeGood_def list_all_iff split: sum.splits option.splits)

definition rankWith :: "treeCtx \<Rightarrow> (nodeId \<times> treeNode) list \<Rightarrow> (nodeId \<Rightarrow> nat) \<Rightarrow> nodeId \<Rightarrow> nat" where
  "rankWith tc new rank k = (case map_of new k of
     Some n \<Rightarrow> (case tnChildren n of Inl t \<Rightarrow> Suc (treeMeasure tc t) | Inr _ \<Rightarrow> 0) | None \<Rightarrow> rank k)"

lemma treeMeasure_cong: "ttParentId t' = ttParentId t \<Longrightarrow> ttParentIds t' = ttParentIds t \<Longrightarrow> treeMeasure tc t' = treeMeasure tc t"
  by (simp add: treeMeasure_def)

text \<open>The state once the loop of \<open>buildTree\<close> is over.\<close>

definition builtTree :: "treeLoop \<Rightarrow> treeState \<Rightarrow> treeState" where
  "builtTree l ts = \<lparr>tsCounter = tlCounter l,
     tsTree = fold (\<lambda>(k, n). jset k (shareInstallable (tlInstallable l) n)) (tlNew l) (tsTree ts)\<rparr>"

definition newRank :: "treeCtx \<Rightarrow> treeLoop \<Rightarrow> (nodeId \<Rightarrow> nat) \<Rightarrow> nodeId \<Rightarrow> nat" where
  "newRank tc l rank = rankWith tc (tlNew l) rank"

lemma builtTree_map_of:
  "loopGood ctx tree t start l \<Longrightarrow> map_of (tsTree (builtTree l ts)) k =
     (case map_of (tlNew l) k of Some n \<Rightarrow> Some (shareInstallable (tlInstallable l) n) | None \<Rightarrow> map_of (tsTree ts) k)"
  by (simp add: builtTree_def loopGood_def map_of_addNodes)

lemma loopGood_new:
  "loopGood ctx tree t start l \<Longrightarrow> map_of (tlNew l) k = Some n \<Longrightarrow> newChild ctx t start (tlCounter l) (k, n)"
  unfolding loopGood_def by (blast dest: map_of_SomeD)

lemma loopGood_fresh:
  assumes "loopGood ctx (tsTree ts) t (tsCounter ts) l" "treeGood ctx rank ts" "map_of (tsTree ts) k \<noteq> None"
  shows "map_of (tlNew l) k = None"
proof (rule ccontr)
  assume "map_of (tlNew l) k \<noteq> None"
  then obtain x where "map_of (tlNew l) k = Some x" by blast
  from loopGood_new [OF assms(1) this] have "newChild ctx t (tsCounter ts) (tlCounter l) (k, x)" .
  then obtain i where "k = NumId i" "tsCounter ts < i" by (auto simp: newChild_def)
  moreover obtain n where "map_of (tsTree ts) k = Some n" using assms(3) by blast
  then have "freshFrom ts k" by (rule treeGoodD(3) [OF assms(2)])
  ultimately show False by (simp add: freshFrom_def)
qed

lemma builtTree_old:
  assumes "loopGood ctx (tsTree ts) t (tsCounter ts) l" "treeGood ctx rank ts" "map_of (tsTree ts) k = Some n"
  shows "map_of (tsTree (builtTree l ts)) k = Some n" and "newRank tc l rank k = rank k"
proof -
  have "map_of (tlNew l) k = None" by (rule loopGood_fresh [OF assms(1,2)]) (simp add: assms(3))
  then show "map_of (tsTree (builtTree l ts)) k = Some n" "newRank tc l rank k = rank k"
    using assms(3) by (simp_all add: builtTree_map_of [OF assms(1)] newRank_def rankWith_def)
qed

lemma newChild_nodeGood:
  assumes "newChild ctx t start cnt (k, n0)" "map_of (tcChildrenByParentId (rcTreeCtx ctx)) (ttParentId t) = Some cs"
    and "\<And>al c. (al, c) \<in> set cs \<Longrightarrow> childGood ctx tree c" "map_of (tlNew l) k = Some n0"
  shows "nodeGood ctx (newRank (rcTreeCtx ctx) l rank) tree' k (shareInstallable i n0)"
proof -
  let ?tc = "rcTreeCtx ctx"
  from assms(1) obtain c t' where n0: "tnPkgId n0 = c" "tnChildren n0 = Inl t'" "thunkFor t c t'"
    "childOf ?tc (ttParentId t) c" "map_of (tcIsLeaf ?tc) c = Some False" by (auto simp: newChild_def)
  from n0(4) assms(2) obtain al where al: "(al, c) \<in> set cs" "\<not> startsWith c ''link:''" by (auto simp: childOf_def)
  from assms(3) [OF al(1)] al(2) n0(5) obtain ds r where c: "map_of (tcChildrenByParentId ?tc) c = Some ds"
    "map_of (rcPkgs ctx) c = Some (Resolved r)"
    by (auto simp: childGood_def split: option.splits treePkg.splits)
  have rank: "newRank ?tc l rank k = Suc (treeMeasure ?tc t')" using assms(4) n0(2) by (simp add: newRank_def rankWith_def)
  have t': "ttParentId t' = c" using n0(3) by (simp add: thunkFor_def)
  have m: "treeMeasure ?tc (t'\<lparr>ttInstallable := i\<rparr>) = treeMeasure ?tc t'" by (rule treeMeasure_cong) simp_all
  show ?thesis using c rank m by (simp add: nodeGood_def shareInstallable_def n0(1,2) t')
qed

lemma builtTree_good:
  assumes l: "loopGood ctx (tsTree ts) t (tsCounter ts) l" and g: "treeGood ctx rank ts"
    and cs: "map_of (tcChildrenByParentId (rcTreeCtx ctx)) (ttParentId t) = Some cs"
    and kids: "\<And>al c. (al, c) \<in> set cs \<Longrightarrow> childGood ctx (tsTree ts) c"
  shows "treeGood ctx (newRank (rcTreeCtx ctx) l rank) (builtTree l ts)"
proof -
  let ?ts = "builtTree l ts" and ?rank = "newRank (rcTreeCtx ctx) l rank"
  note old = builtTree_old [OF l g]
  have there: "map_of (tsTree ts) k \<noteq> None \<Longrightarrow> map_of (tsTree ?ts) k \<noteq> None \<and> ?rank k = rank k" for k
    using old by fastforce
  show ?thesis unfolding treeGood_def
  proof (intro conjI allI impI)
    have "tablesGood ctx (tsTree ts)" by (rule treeGoodD [OF g])
    then show "tablesGood ctx (tsTree ?ts)" by (rule tablesGood_ext) (use there in blast)
    fix s show "?rank (StrId s) = 0"
    proof (cases "map_of (tlNew l) (StrId s)")
      case None
      then show ?thesis using treeGoodD(2) [OF g] by (simp add: newRank_def rankWith_def)
    next
      case (Some n)
      from loopGood_new [OF l Some] show ?thesis by (simp add: newChild_def)
    qed
  next
    fix k n assume k: "map_of (tsTree ?ts) k = Some n"
    have c: "tsCounter ?ts = tlCounter l" by (simp add: builtTree_def)
    have c': "tsCounter ts \<le> tlCounter l" using l [unfolded loopGood_def] by (rule conjunct1)
    consider "map_of (tsTree ts) k = Some n"
      | n0 where "map_of (tlNew l) k = Some n0" "n = shareInstallable (tlInstallable l) n0"
      using k builtTree_map_of [OF l, of ts k] by (cases "map_of (tlNew l) k") simp_all
    then have "freshFrom ?ts k \<and> nodeGood ctx ?rank (tsTree ?ts) k n"
    proof cases
      case 1
      have "nodeGood ctx ?rank (tsTree ?ts) k n" by (rule nodeGood_ext [OF treeGoodD(4) [OF g 1] there old(2) [OF 1]])
      moreover have "freshFrom ?ts k" using treeGoodD(3) [OF g 1] c c' by (cases k) (simp_all add: freshFrom_def)
      ultimately show ?thesis by simp
    next
      case 2
      note new = loopGood_new [OF l 2(1)]
      have "freshFrom ?ts k" using new c by (auto simp: newChild_def freshFrom_def)
      moreover have "nodeGood ctx ?rank (tsTree ?ts) k n" unfolding 2(2) by (rule newChild_nodeGood [OF new cs kids 2(1)])
      ultimately show ?thesis by simp
    qed
    then show "freshFrom ?ts k" "nodeGood ctx ?rank (tsTree ?ts) k n" by blast+
  qed
qed

lemma builtTree_child:
  assumes l: "loopGood ctx (tsTree ts) t (tsCounter ts) l" and g: "treeGood ctx rank ts" and v: "childThere (tsTree ts) l v"
  shows "map_of (tsTree (builtTree l ts)) v \<noteq> None \<and> newRank (rcTreeCtx ctx) l rank v \<le> treeMeasure (rcTreeCtx ctx) t"
proof -
  let ?tc = "rcTreeCtx ctx"
  consider n where "map_of (tlNew l) v = Some n" | c n where "v = StrId c" "map_of (tsTree ts) v = Some n"
    using v unfolding childThere_def in_keys_iff by auto
  then show ?thesis
  proof cases
    case 1
    from loopGood_new [OF l 1] obtain c t' where n: "tnChildren n = Inl t'" "thunkFor t c t'" "\<not> isCut t c"
      "childOf ?tc (ttParentId t) c" by (auto simp: newChild_def)
    have "treeMeasure ?tc t' < treeMeasure ?tc t" by (rule treeMeasure_child [OF n(4,3,2)])
    then show ?thesis using 1 n(1) by (simp add: builtTree_map_of [OF l] newRank_def rankWith_def)
  next
    case 2
    have "rank v = 0" using g 2(1) by (simp add: treeGood_def)
    then show ?thesis using builtTree_old [OF l g 2(2)] by simp
  qed
qed

text \<open>A call of \<open>buildTree\<close> succeeds, keeps the nodes, and makes children of smaller rank.\<close>

definition builtGood :: "resolveCtx \<Rightarrow> (nodeId \<Rightarrow> nat) \<Rightarrow> treeState \<Rightarrow> treeThunk \<Rightarrow> nodeId obj \<Rightarrow> treeState \<Rightarrow> (nodeId \<Rightarrow> nat) \<Rightarrow> bool" where
  "builtGood ctx rank ts t m ts' rank' \<longleftrightarrow> treeGood ctx rank' ts' \<and> sameRank ts rank rank' \<and>
     (\<forall>k n. map_of (tsTree ts) k = Some n \<longrightarrow> map_of (tsTree ts') k = Some n) \<and>
     (\<forall>a v. (a, v) \<in> set m \<longrightarrow> map_of (tsTree ts') v \<noteq> None \<and> rank' v \<le> treeMeasure (rcTreeCtx ctx) t)"

lemma buildTree_good:
  assumes g: "treeGood ctx rank ts" and cs: "map_of (tcChildrenByParentId (rcTreeCtx ctx)) (ttParentId t) = Some cs"
  obtains m ts' rank' where "buildTree (rcTreeCtx ctx) t ts = Inr (m, ts')" "builtGood ctx rank ts t m ts' rank'" "cs = [] \<Longrightarrow> m = []"
proof -
  let ?tc = "rcTreeCtx ctx" and ?start = "tsCounter ts"
  let ?l0 = "\<lparr>tlInstallable = ttInstallable t, tlChildrenNodeIds = [], tlNew = [], tlCounter = ?start\<rparr>"
  have kids: "childGood ctx (tsTree ts) c" if "(al, c) \<in> set cs" for al c
    using treeGoodD(1) [OF g] that map_of_SomeD [OF cs] unfolding tablesGood_def list_all_iff by fast
  have "loopGood ctx (tsTree ts) t ?start ?l0" by (simp add: loopGood_def)
  then have "\<exists>l. sfold (addTreeChild ?tc t) cs ?l0 = Inr l \<and> loopGood ctx (tsTree ts) t ?start l"
    by (rule addTreeChildren_good [OF _ _ cs]) (use kids in auto)
  then obtain l where l: "sfold (addTreeChild ?tc t) cs ?l0 = Inr l" "loopGood ctx (tsTree ts) t ?start l" by blast
  have b: "buildTree ?tc t ts = Inr (tlChildrenNodeIds l, builtTree l ts)" using cs l(1) by (simp add: buildTree_def builtTree_def)
  note old = builtTree_old [OF l(2) g]
  have there: "(a, v) \<in> set (tlChildrenNodeIds l) \<Longrightarrow> childThere (tsTree ts) l v" for a v using l(2) unfolding loopGood_def by blast
  have "builtGood ctx rank ts t (tlChildrenNodeIds l) (builtTree l ts) (newRank ?tc l rank)"
    unfolding builtGood_def sameRank_def
  proof (intro conjI allI impI)
    show "treeGood ctx (newRank ?tc l rank) (builtTree l ts)" by (rule builtTree_good [OF l(2) g cs kids])
  qed (use old builtTree_child [OF l(2) g there] in blast)+
  moreover have "cs = [] \<Longrightarrow> tlChildrenNodeIds l = []" using l(1) by auto
  ultimately show ?thesis using that b by blast
qed

text \<open>Opening a node.\<close>

definition forcedGood :: "resolveCtx \<Rightarrow> (nodeId \<Rightarrow> nat) \<Rightarrow> treeState \<Rightarrow> nodeId \<Rightarrow> nodeId obj \<Rightarrow> treeState \<Rightarrow> (nodeId \<Rightarrow> nat) \<Rightarrow> bool" where
  "forcedGood ctx rank ts k m ts' rank' \<longleftrightarrow> treeGood ctx rank' ts' \<and> sameRank ts rank rank' \<and> treeExt ts ts' \<and>
     opened (tsTree ts') k m \<and> (\<forall>a v. (a, v) \<in> set m \<longrightarrow> map_of (tsTree ts') v \<noteq> None \<and> rank' v < rank' k)"

lemma nodeGood_opened:
  assumes "nodeGood ctx rank0 tree0 k n" "\<And>a v. (a, v) \<in> set m \<Longrightarrow> map_of tree v \<noteq> None \<and> rank v < rank k"
  shows "nodeGood ctx rank tree k (n\<lparr>tnChildren := Inr m\<rparr>)"
  using assms by (auto simp: nodeGood_def list_all_iff split: option.splits treePkg.splits)

lemma forceChildren_good:
  assumes g: "treeGood ctx rank ts" and k: "map_of (tsTree ts) k = Some n"
  obtains m ts' rank' where "forceChildren (rcTreeCtx ctx) k ts = Inr (m, ts')" "forcedGood ctx rank ts k m ts' rank'"
proof -
  have n: "nodeGood ctx rank (tsTree ts) k n" using g k by (simp add: treeGood_def)
  show ?thesis
  proof (cases "tnChildren n")
    case (Inr m)
    then have "opened (tsTree ts) k m" using k by (simp add: opened_def)
    moreover have "\<forall>a v. (a, v) \<in> set m \<longrightarrow> map_of (tsTree ts) v \<noteq> None \<and> rank v < rank k"
      using n Inr by (auto simp: nodeGood_def list_all_iff)
    ultimately show ?thesis using that [of m ts rank] g k Inr by (simp add: forceChildren_def forcedGood_def)
  next
    case (Inl t)
    then obtain cs where cs: "map_of (tcChildrenByParentId (rcTreeCtx ctx)) (ttParentId t) = Some cs"
      "cs = [] \<or> treeMeasure (rcTreeCtx ctx) t < rank k" using n by (auto simp: nodeGood_def split: option.splits)
    from buildTree_good [OF g cs(1)] obtain m ts1 rank' where b: "buildTree (rcTreeCtx ctx) t ts = Inr (m, ts1)"
      and bg: "builtGood ctx rank ts t m ts1 rank'" and m: "cs = [] \<Longrightarrow> m = []" by blast
    note bg = bg [unfolded builtGood_def]
    let ?n = "n\<lparr>tnChildren := Inr m\<rparr>"
    let ?ts = "ts1\<lparr>tsTree := jset k ?n (tsTree ts1)\<rparr>"
    have f: "forceChildren (rcTreeCtx ctx) k ts = Inr (m, ?ts)" using k Inl b by (simp add: forceChildren_def)
    have k1: "map_of (tsTree ts1) k = Some n" using bg k by blast
    have there: "map_of (tsTree ts1) j \<noteq> None \<Longrightarrow> map_of (tsTree ?ts) j \<noteq> None" for j by (simp add: update_conv')
    have kids: "map_of (tsTree ?ts) v \<noteq> None \<and> rank' v < rank' k" if v: "(a, v) \<in> set m" for a v
    proof -
      have "map_of (tsTree ts1) v \<noteq> None" "rank' v \<le> treeMeasure (rcTreeCtx ctx) t" using bg v by blast+
      moreover have "rank' k = rank k" using bg k by (simp add: sameRank_def)
      moreover have "cs \<noteq> []" using m v by auto
      ultimately show ?thesis using cs(2) there [of v] by simp
    qed
    have "treeGood ctx rank' ?ts" unfolding treeGood_def
    proof (intro conjI allI impI)
      have "tablesGood ctx (tsTree ts1)" using bg by (simp add: treeGood_def)
      then show "tablesGood ctx (tsTree ?ts)" by (rule tablesGood_ext) (rule there)
      fix s show "rank' (StrId s) = 0" using bg by (simp add: treeGood_def)
    next
      fix j x assume "map_of (tsTree ?ts) j = Some x"
      then have j: "j = k \<and> x = ?n \<or> map_of (tsTree ts1) j = Some x" by (auto simp: update_conv' split: if_splits)
      have "freshFrom ts1 j" using j k1 bg by (auto simp: treeGood_def)
      then show "freshFrom ?ts j" by (simp add: freshFrom_def split: nodeId.splits)
      show "nodeGood ctx rank' (tsTree ?ts) j x"
      proof (cases "j = k \<and> x = ?n")
        case True
        then show ?thesis using nodeGood_opened [OF n kids] by simp
      next
        case False
        then have "nodeGood ctx rank' (tsTree ts1) j x" using j bg treeGoodD(4) by blast
        then show ?thesis by (rule nodeGood_ext) (use there in auto)
      qed
    qed
    moreover have "treeExt ts ?ts" unfolding treeExt_def
    proof (intro allI impI)
      fix j x assume "map_of (tsTree ts) j = Some x"
      then show "\<exists>n'. map_of (tsTree ?ts) j = Some n' \<and> tnDepth n' = tnDepth x \<and> tnPkgId n' = tnPkgId x \<and>
          (\<forall>m. tnChildren x = Inr m \<longrightarrow> tnChildren n' = Inr m)"
        using bg k Inl by (cases "j = k") (auto simp: update_conv')
    qed
    moreover have "opened (tsTree ?ts) k m" by (simp add: opened_def update_conv')
    moreover have "sameRank ts rank rank'" using bg by blast
    ultimately show ?thesis using that [OF f, of rank'] kids by (simp add: forcedGood_def)
  qed
qed

end
