(* ===== verification/PeerTotal.thy ===== *)
theory PeerTotal
  imports PeerTree
begin

text \<open>
  What every part of the walk over the tree may rely on (\<open>PeerResolution\<close>), so that nothing that it looks up is missing:
  the nodes, the promises, the nodes of the graph behind the pure packages and behind the items of the cache.
\<close>

section \<open>The state of the walk\<close>

definition known :: "peerState \<Rightarrow> nodeId \<Rightarrow> bool" where
  "known st n \<longleftrightarrow> map_of (tsTree (psTree st)) n \<noteq> None"

definition promised :: "peerState \<Rightarrow> nodeId \<Rightarrow> bool" where
  "promised st n \<longleftrightarrow> map_of (psPathsByNodeIdPromises st) n \<noteq> None"

definition inGraph :: "peerState \<Rightarrow> depPath \<Rightarrow> bool" where
  "inGraph st d \<longleftrightarrow> map_of (psDepGraph st) d \<noteq> None"

definition stateExt :: "peerState \<Rightarrow> peerState \<Rightarrow> bool" where
  "stateExt st st' \<longleftrightarrow> treeExt (psTree st) (psTree st') \<and> (\<forall>n. promised st n \<longrightarrow> promised st' n) \<and> (\<forall>d. inGraph st d \<longrightarrow> inGraph st' d)"

text \<open>A peer is a node that has a promise, or a link.\<close>

definition peerGood :: "peerState \<Rightarrow> nodeId \<Rightarrow> bool" where
  "peerGood st n \<longleftrightarrow> known st n \<and> (linkId n \<or> promised st n)"

definition peersGood :: "peerState \<Rightarrow> nodeId obj \<Rightarrow> bool" where
  "peersGood st m \<longleftrightarrow> (\<forall>a n. (a, n) \<in> set m \<longrightarrow> peerGood st n)"

definition parentsOpen :: "peerState \<Rightarrow> nodeId list \<Rightarrow> bool" where
  "parentsOpen st ids \<longleftrightarrow> (\<forall>i \<in> set ids. \<exists>m. opened (tsTree (psTree st)) i m)"

text \<open>What a parent provides: the nodes of \<open>V\<close> are those that get their promises next, and the versions can be compared.\<close>

definition refGood :: "(str \<Rightarrow> bool) \<Rightarrow> nodeId set \<Rightarrow> peerState \<Rightarrow> parentRef \<Rightarrow> bool" where
  "refGood valid V st r \<longleftrightarrow> valid (pfVersion r) \<and> (\<forall>i \<in> set (pfParentNodeIds r). known st i) \<and>
     (\<forall>n. pfNodeId r = Some n \<longrightarrow> known st n \<and> (truthyId n \<longrightarrow> n \<in> V \<or> peerGood st n))"

definition refsGood :: "(str \<Rightarrow> bool) \<Rightarrow> nodeId set \<Rightarrow> peerState \<Rightarrow> parentRefs \<Rightarrow> bool" where
  "refsGood valid V st refs \<longleftrightarrow> (\<forall>a r. (a, r) \<in> set refs \<longrightarrow> refGood valid V st r)"

definition infoGood :: "peerState \<Rightarrow> nodeInfo \<Rightarrow> bool" where
  "infoGood st info \<longleftrightarrow> promised st (niNodeId info) \<and> parentsOpen st (niParentNodeIds info)"

fun taskGood :: "peerState \<Rightarrow> pendingTask \<Rightarrow> bool" where
  "taskGood st (HitTask nodeId _ _ _) = promised st nodeId"
| "taskGood st (PathTask info _ _) = infoGood st info"

definition itemGood :: "peerState \<Rightarrow> peersCacheItem \<Rightarrow> bool" where
  "itemGood st item \<longleftrightarrow> peersGood st (ciResolvedPeers item) \<and> (\<forall>d. ciDepPath item = Some d \<longrightarrow> inGraph st d)"

text \<open>\<open>P\<close> holds the pure packages whose node is about to be added to the graph.\<close>

definition stateGood :: "resolveCtx \<Rightarrow> (nodeId \<Rightarrow> nat) \<Rightarrow> depPath set \<Rightarrow> peerState \<Rightarrow> bool" where
  "stateGood ctx rank P st \<longleftrightarrow> treeGood ctx rank (psTree st) \<and>
     (\<forall>p items item. (p, items) \<in> set (psPeersCache st) \<longrightarrow> item \<in> set items \<longrightarrow> itemGood st item) \<and>
     (\<forall>p. p \<in> set (psPurePkgs st) \<longrightarrow> p \<in> P \<or> inGraph st p) \<and> (\<forall>t. t \<in> set (psTasks st) \<longrightarrow> taskGood st t) \<and>
     (\<forall>p ds d. (p, ds) \<in> set (psDepPathsByPkgId st) \<longrightarrow> d \<in> set ds \<longrightarrow> inGraph st d)"

lemma stateGoodD:
  assumes "stateGood ctx rank P st"
  shows "treeGood ctx rank (psTree st)" and "(p, items) \<in> set (psPeersCache st) \<Longrightarrow> item \<in> set items \<Longrightarrow> itemGood st item"
    and "q \<in> set (psPurePkgs st) \<Longrightarrow> q \<in> P \<or> inGraph st q" and "t \<in> set (psTasks st) \<Longrightarrow> taskGood st t"
    and "(p, ds) \<in> set (psDepPathsByPkgId st) \<Longrightarrow> d \<in> set ds \<Longrightarrow> inGraph st d"
  using assms unfolding stateGood_def by blast+

lemma stateExt_refl [simp]: "stateExt st st" by (simp add: stateExt_def)

lemma stateExt_trans: "stateExt a b \<Longrightarrow> stateExt b c \<Longrightarrow> stateExt a c"
  unfolding stateExt_def using treeExt_trans by blast

lemma stateExt_known: "stateExt a b \<Longrightarrow> known a n \<Longrightarrow> known b n"
  unfolding stateExt_def known_def using treeExt_known by blast

lemma stateExt_peerGood: "stateExt a b \<Longrightarrow> peerGood a n \<Longrightarrow> peerGood b n"
  unfolding peerGood_def using stateExt_known unfolding stateExt_def by blast

lemma stateExt_peersGood: "stateExt a b \<Longrightarrow> peersGood a m \<Longrightarrow> peersGood b m"
  unfolding peersGood_def using stateExt_peerGood by blast

lemma stateExt_parentsOpen: "stateExt a b \<Longrightarrow> parentsOpen a ids \<Longrightarrow> parentsOpen b ids"
  unfolding parentsOpen_def stateExt_def using treeExt_opened by blast

lemma stateExt_refsGood: "stateExt a b \<Longrightarrow> refsGood valid V a refs \<Longrightarrow> refsGood valid V b refs"
  unfolding refsGood_def refGood_def using stateExt_peerGood stateExt_known by blast

lemma stateExt_infoGood: "stateExt a b \<Longrightarrow> infoGood a info \<Longrightarrow> infoGood b info"
  unfolding infoGood_def using stateExt_parentsOpen unfolding stateExt_def by blast

lemma stateExt_taskGood: "stateExt a b \<Longrightarrow> taskGood a t \<Longrightarrow> taskGood b t"
  using stateExt_infoGood by (cases t) (auto simp: stateExt_def)

lemma stateExt_inGraph: "stateExt a b \<Longrightarrow> inGraph a d \<Longrightarrow> inGraph b d"
  by (simp add: stateExt_def)

lemma stateExt_itemGood: "stateExt a b \<Longrightarrow> itemGood a item \<Longrightarrow> itemGood b item"
  unfolding itemGood_def using stateExt_peersGood stateExt_inGraph by blast

lemma stateGood_step:
  assumes "stateGood ctx rank P st" "stateExt st st'" "treeGood ctx rank' (psTree st')"
    and "\<And>p items item. (p, items) \<in> set (psPeersCache st') \<Longrightarrow> item \<in> set items \<Longrightarrow>
      (\<exists>p0 items0 item0. (p0, items0) \<in> set (psPeersCache st) \<and> item0 \<in> set items0 \<and> ciResolvedPeers item = ciResolvedPeers item0 \<and>
        (ciDepPath item = ciDepPath item0 \<or> (\<forall>d. ciDepPath item = Some d \<longrightarrow> inGraph st' d))) \<or> itemGood st' item"
    and "\<And>p. p \<in> set (psPurePkgs st') \<Longrightarrow> p \<in> set (psPurePkgs st) \<or> p \<in> P'" "\<And>p. p \<in> P \<Longrightarrow> p \<in> P' \<or> inGraph st' p"
    and "\<And>t. t \<in> set (psTasks st') \<Longrightarrow> t \<in> set (psTasks st) \<or> taskGood st' t"
    and "\<And>p ds d. (p, ds) \<in> set (psDepPathsByPkgId st') \<Longrightarrow> d \<in> set ds \<Longrightarrow>
      (\<exists>p0 ds0. (p0, ds0) \<in> set (psDepPathsByPkgId st) \<and> d \<in> set ds0) \<or> inGraph st' d"
  shows "stateGood ctx rank' P' st'"
  unfolding stateGood_def
proof (intro conjI allI impI)
  note g = stateGoodD [OF assms(1)]
  show "treeGood ctx rank' (psTree st')" by (rule assms(3))
  fix p items item assume i: "(p, items) \<in> set (psPeersCache st')" "item \<in> set items"
  from assms(4) [OF i] show "itemGood st' item"
  proof (elim disjE exE conjE)
    fix p0 items0 item0
    assume o: "(p0, items0) \<in> set (psPeersCache st)" "item0 \<in> set items0" "ciResolvedPeers item = ciResolvedPeers item0"
    have "itemGood st' item0" by (rule stateExt_itemGood [OF assms(2) g(2) [OF o(1,2)]])
    then show "ciDepPath item = ciDepPath item0 \<Longrightarrow> itemGood st' item"
      "\<forall>d. ciDepPath item = Some d \<longrightarrow> inGraph st' d \<Longrightarrow> itemGood st' item" using o(3) by (simp_all add: itemGood_def)
  qed
next
  note g = stateGoodD [OF assms(1)]
  fix p assume "p \<in> set (psPurePkgs st')"
  then show "p \<in> P' \<or> inGraph st' p" using assms(5,6) g(3) stateExt_inGraph [OF assms(2)] by blast
next
  note g = stateGoodD [OF assms(1)]
  fix t assume "t \<in> set (psTasks st')"
  then show "taskGood st' t" using assms(7) g(4) stateExt_taskGood [OF assms(2)] by blast
next
  note g = stateGoodD [OF assms(1)]
  fix p ds d assume "(p, ds) \<in> set (psDepPathsByPkgId st')" "d \<in> set ds"
  then show "inGraph st' d" using assms(8) g(5) stateExt_inGraph [OF assms(2)] by blast
qed

section \<open>What is looked up is there\<close>

lemma treeGood_package:
  assumes "treeGood ctx rank ts" "map_of (tsTree ts) k \<noteq> None"
  obtains n p where "getNode (tsTree ts) k = Inr n" "packageOf (rcPkgs ctx) n = Inr p" "(tnPkgId n, p) \<in> set (rcPkgs ctx)"
proof -
  obtain n where n: "map_of (tsTree ts) k = Some n" using assms(2) by blast
  from treeGoodD(4) [OF assms(1) n] obtain p where p: "map_of (rcPkgs ctx) (tnPkgId n) = Some p"
    by (auto simp: nodeGood_def split: option.splits)
  show ?thesis
  proof (rule that)
    show "getNode (tsTree ts) k = Inr n" using n by (simp add: getNode_def)
    show "packageOf (rcPkgs ctx) n = Inr p" using p by (simp add: packageOf_def)
    show "(tnPkgId n, p) \<in> set (rcPkgs ctx)" using p by (rule map_of_SomeD)
  qed
qed

lemma getPackage_total:
  assumes "treeGood ctx rank ts" "map_of (tsTree ts) k \<noteq> None"
  obtains p where "getPackage (rcPkgs ctx) (tsTree ts) k = Inr p"
  using treeGood_package [OF assms] by (metis getPackage_def sbind_simps(2))

lemma getLocation_total:
  assumes "treeGood ctx rank ts"
  shows "\<forall>i \<in> set ids. map_of (tsTree ts) i \<noteq> None \<Longrightarrow> \<exists>l. getLocationFromParentNodeIds (rcPkgs ctx) (tsTree ts) ids = Inr l"
proof (induction ids)
  case (Cons i ids)
  then obtain l where "getLocationFromParentNodeIds (rcPkgs ctx) (tsTree ts) ids = Inr l" by auto
  moreover obtain p where "getPackage (rcPkgs ctx) (tsTree ts) i = Inr p" using getPackage_total [OF assms] Cons.prems by auto
  ultimately show ?case by (simp add: getLocationFromParentNodeIds_def)
qed (simp add: getLocationFromParentNodeIds_def)

lemma parentsOpen_known: "parentsOpen st ids \<Longrightarrow> i \<in> set ids \<Longrightarrow> known st i"
  by (auto simp: parentsOpen_def opened_def known_def)

lemma locations_total:
  assumes "stateGood ctx rank P st" "\<And>i. i \<in> set ids \<Longrightarrow> known st i"
  obtains l where "getLocationFromParentNodeIds (rcPkgs ctx) (tsTree (psTree st)) ids = Inr l"
  using getLocation_total [OF stateGoodD(1) [OF assms(1)], of ids] assms(2) unfolding known_def by blast

subsection \<open>Naming a node\<close>

lemma resolvePromise_total:
  assumes "promised st n"
  obtains ps where "resolvePromise n d st = Inr (st\<lparr>psPathsByNodeIdPromises := ps\<rparr>)"
    "\<And>k. map_of (psPathsByNodeIdPromises st) k \<noteq> None \<Longrightarrow> map_of ps k \<noteq> None"
proof -
  from assms obtain v where v: "map_of (psPathsByNodeIdPromises st) n = Some v" by (auto simp: promised_def)
  show ?thesis
  proof (cases v)
    case None
    then show ?thesis using v that [of "jset n (Some d) (psPathsByNodeIdPromises st)"] by (simp add: resolvePromise_def update_conv')
  next
    case (Some e)
    then show ?thesis using v that [of "psPathsByNodeIdPromises st"] by (simp add: resolvePromise_def)
  qed
qed

text \<open>A step that does not open nodes.\<close>

definition goodStep :: "resolveCtx \<Rightarrow> (nodeId \<Rightarrow> nat) \<Rightarrow> peerState \<Rightarrow> peerState \<Rightarrow> bool" where
  "goodStep ctx rank st st' \<longleftrightarrow> stateGood ctx rank {} st' \<and> stateExt st st' \<and> psTree st' = psTree st"

lemma goodStep_refl: "stateGood ctx rank {} st \<Longrightarrow> goodStep ctx rank st st"
  by (simp add: goodStep_def)

lemma goodStep_trans: "goodStep ctx rank a b \<Longrightarrow> goodStep ctx rank b c \<Longrightarrow> goodStep ctx rank a c"
  unfolding goodStep_def using stateExt_trans by auto

lemma goodStepD:
  assumes "goodStep ctx rank st st'"
  shows "stateGood ctx rank {} st'" and "stateExt st st'" and "psTree st' = psTree st"
  using assms by (simp_all add: goodStep_def)

text \<open>Only promises, issues, the clock and the tables of the parents change, and no promise is lost.\<close>

lemma goodStep_frame:
  assumes "stateGood ctx rank {} st" "psTree st' = psTree st" "psDepGraph st' = psDepGraph st" "psPeersCache st' = psPeersCache st"
    and "psPurePkgs st' = psPurePkgs st" "psDepPathsByPkgId st' = psDepPathsByPkgId st"
    and "\<And>n. promised st n \<Longrightarrow> promised st' n" "\<And>t. t \<in> set (psTasks st') \<Longrightarrow> t \<in> set (psTasks st) \<or> taskGood st' t"
  shows "goodStep ctx rank st st'"
proof -
  have e: "stateExt st st'" using assms(2,3,7) by (simp add: stateExt_def inGraph_def)
  have "stateGood ctx rank {} st'"
  proof (rule stateGood_step [OF assms(1) e], goal_cases)
    case 1
    show ?case using stateGoodD(1) [OF assms(1)] assms(2) by simp
  next
    case (2 p items item)
    then have "itemGood st item" using stateGoodD(2) [OF assms(1)] assms(4) by simp
    then show ?case using stateExt_itemGood [OF e] by blast
  next
    case (6 p ds d)
    then show ?case using assms(6) by auto
  qed (use assms(5,8) in simp_all)
  then show ?thesis using e assms(2) by (simp add: goodStep_def)
qed

lemma previousChildren_total:
  assumes "parentsOpen st ids" "treeGood ctx rank (psTree st)"
  shows "\<exists>m. getPreviouslyResolvedChildren ctx ids chain p (psTree st) = Inr (m, psTree st)"
proof -
  have "\<exists>acc. sfold (addPreviousChildren ctx p) (rev ids) ([], psTree st) = Inr acc \<and> snd acc = psTree st"
  proof (rule sfold_inv)
    fix i and acc :: "nodeId obj \<times> treeState" assume i: "i \<in> set (rev ids)" and acc: "snd acc = psTree st"
    obtain m where m: "opened (tsTree (psTree st)) i m" using assms(1) i by (auto simp: parentsOpen_def)
    then have "map_of (tsTree (psTree st)) i \<noteq> None" by (auto simp: opened_def)
    then obtain q where "getPackage (rcPkgs ctx) (tsTree (psTree st)) i = Inr q" using getPackage_total [OF assms(2)] by blast
    then show "\<exists>acc'. addPreviousChildren ctx p i acc = Inr acc' \<and> snd acc' = psTree st"
      using acc forceChildren_opened [OF m] by (cases acc) (simp add: addPreviousChildren_def)
  qed simp
  then show ?thesis by (auto simp: getPreviouslyResolvedChildren_def)
qed

text \<open>The state after a call of \<open>addDepPathToGraph\<close>, except for the graph.\<close>

definition namedState :: "nodeInfo \<Rightarrow> depPath \<Rightarrow> (nodeId \<times> depPath option) list \<Rightarrow> peerState \<Rightarrow> peerState" where
  "namedState info d ps st =
     (let pid = rpPkgIdWithPatchHash (niPackage info) in
      st\<lparr>psPeersCache := resolveCacheItem d (niCache info) (psPeersCache st),
         psPathsByNodeId := jset (niNodeId info) d (psPathsByNodeId st), psPathsByNodeIdPromises := ps,
         psDepPathsByPkgId := jset pid (sadd d (orEmpty (map_of (psDepPathsByPkgId st) pid))) (psDepPathsByPkgId st)\<rparr>)"

lemma namedState_simps [simp]:
  "psTree (namedState info d ps st) = psTree st" "psDepGraph (namedState info d ps st) = psDepGraph st"
  "psPathsByNodeIdPromises (namedState info d ps st) = ps" "psTasks (namedState info d ps st) = psTasks st"
  "psPurePkgs (namedState info d ps st) = psPurePkgs st"
  "psPeersCache (namedState info d ps st) = resolveCacheItem d (niCache info) (psPeersCache st)"
  by (simp_all add: namedState_def Let_def)

lemma addDepPathToGraph_result:
  assumes "treeGood ctx rank (psTree st)" "infoGood st info"
  obtains ps graph where "addDepPathToGraph ctx info d st = Inr ((namedState info d ps st)\<lparr>psTree := psTree st, psDepGraph := graph\<rparr>)"
    "\<forall>k. map_of (psPathsByNodeIdPromises st) k \<noteq> None \<longrightarrow> map_of ps k \<noteq> None"
    "map_of graph d \<noteq> None" "\<forall>e. map_of (psDepGraph st) e \<noteq> None \<longrightarrow> map_of graph e \<noteq> None"
proof -
  let ?st0 = "st\<lparr>psPeersCache := resolveCacheItem d (niCache info) (psPeersCache st),
    psPathsByNodeId := jset (niNodeId info) d (psPathsByNodeId st)\<rparr>"
  have "promised ?st0 (niNodeId info)" using assms(2) by (simp add: infoGood_def promised_def)
  from resolvePromise_total [OF this, of d] obtain ps where
    ps: "resolvePromise (niNodeId info) d ?st0 = Inr (?st0\<lparr>psPathsByNodeIdPromises := ps\<rparr>)"
      "\<And>k. map_of (psPathsByNodeIdPromises ?st0) k \<noteq> None \<Longrightarrow> map_of ps k \<noteq> None" by blast
  let ?st2 = "namedState info d ps st"
  obtain m where m: "getPreviouslyResolvedChildren ctx (niParentNodeIds info) (niParentDepPathsChain info)
      (rpPkgIdWithPatchHash (niPackage info)) (psTree ?st2) = Inr (m, psTree st)"
    using previousChildren_total [of st "niParentNodeIds info" ctx rank] assms by (auto simp: infoGood_def)
  have run: "addDepPathToGraph ctx info d st =
      (if (case map_of (psDepGraph ?st2) d of None \<Rightarrow> True | Some g \<Rightarrow> niDepth info < qgDepth g)
       then Inr (?st2\<lparr>psTree := psTree st, psDepGraph := jset d (graphNodeAt ctx info d m) (psDepGraph ?st2)\<rparr>) else Inr ?st2)"
    unfolding addDepPathToGraph_def Let_def ps(1) sbind_simps
    using m by (simp add: namedState_def Let_def)
  show ?thesis
  proof (cases "case map_of (psDepGraph ?st2) d of None \<Rightarrow> True | Some g \<Rightarrow> niDepth info < qgDepth g")
    case True
    then show ?thesis using that [where ps = ps and graph = "jset d (graphNodeAt ctx info d m) (psDepGraph st)"] run ps(2) by (simp add: update_conv')
  next
    case False
    have "?st2 = ?st2\<lparr>psTree := psTree st, psDepGraph := psDepGraph st\<rparr>" by (simp add: namedState_def Let_def)
    then show ?thesis using that [where ps = ps and graph = "psDepGraph st"] run ps(2) False by (auto split: option.splits)
  qed
qed

lemma addDepPathToGraph_total:
  assumes g: "stateGood ctx rank P st" and info: "infoGood st info" and P: "P \<subseteq> {d}"
  obtains st' where "addDepPathToGraph ctx info d st = Inr st'" "goodStep ctx rank st st'"
proof -
  from addDepPathToGraph_result [OF stateGoodD(1) [OF g] info, of d]
  obtain ps graph where r: "addDepPathToGraph ctx info d st = Inr ((namedState info d ps st)\<lparr>psTree := psTree st, psDepGraph := graph\<rparr>)"
    and pr: "\<forall>k. map_of (psPathsByNodeIdPromises st) k \<noteq> None \<longrightarrow> map_of ps k \<noteq> None"
    and gr: "map_of graph d \<noteq> None" "\<forall>e. map_of (psDepGraph st) e \<noteq> None \<longrightarrow> map_of graph e \<noteq> None"
    .
  let ?st = "(namedState info d ps st)\<lparr>psTree := psTree st, psDepGraph := graph\<rparr>"
  have d: "inGraph ?st d" using gr(1) by (simp add: inGraph_def)
  have e: "stateExt st ?st" unfolding stateExt_def promised_def inGraph_def using pr gr(2) by simp
  have "stateGood ctx rank {} ?st"
  proof (rule stateGood_step [OF g e], goal_cases)
    case 1
    show ?case using stateGoodD(1) [OF g] by simp
  next
    case (2 p items item)
    then have "(p, items) \<in> set (resolveCacheItem d (niCache info) (psPeersCache st))" by simp
    from resolveCacheItem_item [OF this 2(2)] show ?case using d by (metis option.sel)
  next
    case (6 p ds e)
    let ?pid = "rpPkgIdWithPatchHash (niPackage info)" and ?m = "psDepPathsByPkgId st"
    from 6(1) have "(p, ds) \<in> set ?m \<or> ds = sadd d (orEmpty (map_of ?m ?pid))"
      by (intro update_pair) (simp add: namedState_def Let_def)
    then show ?case
    proof
      assume "ds = sadd d (orEmpty (map_of ?m ?pid))"
      then have "e = d \<or> e \<in> set (orEmpty (map_of ?m ?pid))" using 6(2) by simp
      then show ?thesis using d by (cases "map_of ?m ?pid") (auto dest: map_of_SomeD)
    qed (use 6(2) in blast)
  qed (use P d in auto)
  then show ?thesis using that [OF r] e by (simp add: goodStep_def)
qed

section \<open>Tasks\<close>

lemma cacheItemAt_good:
  assumes "stateGood ctx rank P st" "cacheItemAt ref (psPeersCache st) = Some item"
  shows "itemGood st item"
  using cacheItemAt_set [OF assms(2)] stateGoodD(2) [OF assms(1)] by blast

lemma hitTask_total:
  assumes g: "stateGood ctx rank {} st" and n: "promised st n" and d: "map_of (psDepGraph st) d = Some q"
  obtains st' where "resolvePromise n d (st\<lparr>psPathsByNodeId := jset n d (psPathsByNodeId st),
      psDepGraph := jset d (q\<lparr>qgDepth := depth\<rparr>) (psDepGraph st)\<rparr>) = Inr st'" "goodStep ctx rank st st'"
proof -
  let ?st0 = "st\<lparr>psPathsByNodeId := jset n d (psPathsByNodeId st), psDepGraph := jset d (q\<lparr>qgDepth := depth\<rparr>) (psDepGraph st)\<rparr>"
  have "promised ?st0 n" using n by (simp add: promised_def)
  from resolvePromise_total [OF this, of d] obtain ps where
    ps: "resolvePromise n d ?st0 = Inr (?st0\<lparr>psPathsByNodeIdPromises := ps\<rparr>)"
      "\<And>k. map_of (psPathsByNodeIdPromises ?st0) k \<noteq> None \<Longrightarrow> map_of ps k \<noteq> None" by blast
  let ?st = "?st0\<lparr>psPathsByNodeIdPromises := ps\<rparr>"
  have e: "stateExt st ?st" using ps(2) by (simp add: stateExt_def promised_def inGraph_def update_conv')
  have "stateGood ctx rank {} ?st"
    by (rule stateGood_step [OF g e]) (use stateGoodD(1) [OF g] in \<open>simp, auto\<close>)
  then show ?thesis using that [OF ps(1)] e by (simp add: goodStep_def)
qed

lemma runTask_total:
  assumes g: "stateGood ctx rank {} st" and t: "taskGood st t" and ready: "isReady st t"
  obtains st' where "runTask ctx t st = Inr st'" "goodStep ctx rank st st'"
proof (cases t)
  case (HitTask n depth p i)
  then obtain item d where item: "cacheItemAt (p, i) (psPeersCache st) = Some item" "ciDepPath item = Some d"
    using ready by (auto simp: isReady_def split: option.splits)
  then have "inGraph st d" using cacheItemAt_good [OF g item(1)] by (simp add: itemGood_def)
  then obtain q where q: "map_of (psDepGraph st) d = Some q" by (auto simp: inGraph_def)
  have "promised st n" using t HitTask by simp
  from hitTask_total [OF g this q, of "min (qgDepth q) depth"] show ?thesis
    using that item q HitTask by (auto simp: runTask_def)
next
  case (PathTask info ids ws)
  then have "infoGood st info" using t by simp
  then show ?thesis using addDepPathToGraph_total [OF g _ empty_subsetI] that PathTask
    by (metis (no_types, lifting) pendingTask.simps(6) runTask_def)
qed

lemma tryTask_total:
  assumes g: "stateGood ctx rank {} st"
  obtains st' where "tryTask ctx i st = Inr st'" "goodStep ctx rank st st'"
proof (cases "i < length (psTasks st) \<and> isReady st (psTasks st ! i)")
  case True
  let ?t = "psTasks st ! i"
  let ?st0 = "st\<lparr>psTasks := take i (psTasks st) @ drop (Suc i) (psTasks st)\<rparr>"
  have "t \<in> set (take i (psTasks st) @ drop (Suc i) (psTasks st)) \<Longrightarrow> t \<in> set (psTasks st)" for t
    by (auto dest: in_set_takeD in_set_dropD)
  then have s0: "goodStep ctx rank st ?st0" by (intro goodStep_frame [OF g]) (simp_all add: promised_def)
  have "taskGood st ?t" using stateGoodD(4) [OF g] True by simp
  then have t: "taskGood ?st0 ?t" using stateExt_taskGood goodStepD(2) [OF s0] by blast
  have r: "isReady ?st0 ?t" using True by (simp add: isReady_def split: pendingTask.splits)
  from runTask_total [OF goodStepD(1) [OF s0] t r] obtain st' where
    "runTask ctx ?t ?st0 = Inr st'" "goodStep ctx rank ?st0 st'" by blast
  then show ?thesis using that [of st'] True goodStep_trans [OF s0] by (simp add: tryTask_def)
next
  case False
  then have "tryTask ctx i st = Inr st" unfolding tryTask_def by (rule if_not_P)
  then show ?thesis using that goodStep_refl [OF g] by blast
qed

lemma awaitTasks_total:
  assumes g: "stateGood ctx rank {} st"
  obtains st' where "awaitTasks ctx st = Inr st'" "goodStep ctx rank st st'"
proof -
  have s0: "goodStep ctx rank st (st\<lparr>psClock := Suc (psClock st)\<rparr>)" by (rule goodStep_frame [OF g]) (simp_all add: promised_def)
  have "\<exists>st'. awaitTasks ctx st = Inr st' \<and> goodStep ctx rank st st'"
    unfolding awaitTasks_def
  proof (rule sfold_inv [where P = "goodStep ctx rank st", OF _ s0])
    fix i s assume s: "goodStep ctx rank st s"
    from tryTask_total [OF goodStepD(1) [OF s]] obtain s' where "tryTask ctx i s = Inr s'" "goodStep ctx rank s s'" .
    then show "\<exists>s'. tryTask ctx i s = Inr s' \<and> goodStep ctx rank st s'" using goodStep_trans [OF s] by blast
  qed
  then show ?thesis using that by blast
qed

lemma finishTasks_total:
  "stateGood ctx rank {} st \<Longrightarrow> finishTasks ctx n st = Inl NeverEnds \<or> (\<exists>st'. finishTasks ctx n st = Inr st' \<and> goodStep ctx rank st st')"
proof (induction n arbitrary: st)
  case 0
  then show ?case using goodStep_refl by simp
next
  case (Suc n)
  show ?case
  proof (cases "psTasks st = [] \<or> readyTask st = None")
    case True
    then show ?thesis using goodStep_refl [OF Suc.prems] by auto
  next
    case False
    then obtain i where i: "psTasks st \<noteq> []" "readyTask st = Some i" by blast
    from tryTask_total [OF Suc.prems] obtain st1 where st1: "tryTask ctx i st = Inr st1" "goodStep ctx rank st st1" .
    then show ?thesis using i Suc.IH [OF goodStepD(1) [OF st1(2)]] goodStep_trans [OF st1(2)] by auto
  qed
qed

subsection \<open>Starting tasks\<close>

definition calcGood :: "peerState \<Rightarrow> calculateDepPath \<Rightarrow> bool" where
  "calcGood st c \<longleftrightarrow> infoGood st (cdInfo c) \<and> (\<forall>a n. (a, n) \<in> set (cdPendingPeers c) \<longrightarrow> known st n \<and> promised st n)"

lemma stateExt_calcGood: "stateExt a b \<Longrightarrow> calcGood a c \<Longrightarrow> calcGood b c"
  unfolding calcGood_def using stateExt_infoGood stateExt_known unfolding stateExt_def by blast

lemma startPending_total:
  assumes g: "stateGood ctx rank {} (snd acc)" and n: "known (snd acc) n" "promised (snd acc) n"
  shows "\<exists>acc'. startPending ctx cyclic (a, n) acc = Inr acc' \<and> goodStep ctx rank (snd acc) (snd acc')"
proof -
  obtain ws st where acc: "acc = (ws, st)" by (cases acc)
  note g = g [unfolded acc snd_conv] and n = n [unfolded acc snd_conv]
  show ?thesis
  proof (cases "a \<in> set cyclic")
    case True
    obtain p where p: "getPackage (rcPkgs ctx) (tsTree (psTree st)) n = Inr p"
      using getPackage_total [OF stateGoodD(1) [OF g]] n(1) unfolding known_def by blast
    obtain ps where ps: "resolvePromise n (tpName p @ ''@'' @ tpVersion p) st = Inr (st\<lparr>psPathsByNodeIdPromises := ps\<rparr>)"
      "\<And>k. map_of (psPathsByNodeIdPromises st) k \<noteq> None \<Longrightarrow> map_of ps k \<noteq> None"
      using resolvePromise_total [OF n(2)] by blast
    have "goodStep ctx rank st (st\<lparr>psPathsByNodeIdPromises := ps\<rparr>)"
      by (rule goodStep_frame [OF g]) (use ps(2) in \<open>simp_all add: promised_def\<close>)
    moreover have "map_of (psPathsByNodeIdPromises st) n \<noteq> None" using n(2) by (simp add: promised_def)
    ultimately show ?thesis using True p ps(1) by (auto simp: startPending_def acc Let_def)
  next
    case False
    then show ?thesis using n(2) goodStep_refl [OF g] by (auto simp: startPending_def acc promised_def)
  qed
qed

lemma addTask_good:
  assumes "stateGood ctx rank {} st" "taskGood st t"
  shows "goodStep ctx rank st (st\<lparr>psTasks := psTasks st @ [t]\<rparr>)"
proof (rule goodStep_frame [OF assms(1)])
  let ?st = "st\<lparr>psTasks := psTasks st @ [t]\<rparr>"
  have "stateExt st ?st" by (simp add: stateExt_def promised_def inGraph_def)
  then have "taskGood ?st t" using assms(2) stateExt_taskGood by blast
  then show "u \<in> set (psTasks ?st) \<Longrightarrow> u \<in> set (psTasks st) \<or> taskGood ?st u" for u by auto
qed (simp_all add: promised_def)

lemma startTask_total:
  assumes g: "stateGood ctx rank {} st" and c: "calcGood st c"
  obtains st' where "startTask ctx cycles c st = Inr st'" "goodStep ctx rank st st'"
proof -
  let ?cyclic = "concat (filter (\<lambda>cycle. niAlias (cdInfo c) \<in> set cycle) cycles)"
  have "\<exists>acc. sfold (startPending ctx ?cyclic) (cdPendingPeers c) ([], st) = Inr acc \<and> goodStep ctx rank st (snd acc)"
  proof (rule sfold_inv [where P = "\<lambda>acc. goodStep ctx rank st (snd acc)"])
    fix x and acc :: "(str + nodeId) list \<times> peerState"
    assume x: "x \<in> set (cdPendingPeers c)" and acc: "goodStep ctx rank st (snd acc)"
    obtain a n where an: "x = (a, n)" by (cases x)
    have "known (snd acc) n" "promised (snd acc) n"
      using stateExt_calcGood [OF goodStepD(2) [OF acc] c] x unfolding calcGood_def an by blast+
    from startPending_total [OF goodStepD(1) [OF acc] this]
    show "\<exists>acc'. startPending ctx ?cyclic x acc = Inr acc' \<and> goodStep ctx rank st (snd acc')"
      unfolding an using goodStep_trans [OF acc] by blast
  qed (simp add: goodStep_refl g)
  then obtain ws st1 where s: "sfold (startPending ctx ?cyclic) (cdPendingPeers c) ([], st) = Inr (ws, st1)" "goodStep ctx rank st st1"
    by auto
  have "taskGood st1 (PathTask (cdInfo c) (cdPeerIds c) ws)"
    using stateExt_calcGood [OF goodStepD(2) [OF s(2)] c] by (simp add: calcGood_def)
  from addTask_good [OF goodStepD(1) [OF s(2)] this] show ?thesis
    using that goodStep_trans [OF s(2)] s(1) by (simp add: startTask_def Let_def)
qed

lemma startTasks_total:
  assumes g: "stateGood ctx rank {} st" and c: "\<And>c. c \<in> set (clCalculateDepPaths l) \<Longrightarrow> calcGood st c"
  obtains st' where "startTasks ctx l st = Inr st'" "goodStep ctx rank st st'"
proof (cases "clCalculateDepPaths l = []")
  case True
  then show ?thesis using that goodStep_refl [OF g] by (simp add: startTasks_def)
next
  case False
  have "\<exists>st'. sfold (startTask ctx (rcAnalyzeCycles ctx (clGraph l))) (clCalculateDepPaths l) st = Inr st' \<and> goodStep ctx rank st st'"
  proof (rule sfold_inv [where P = "goodStep ctx rank st", OF _ goodStep_refl [OF g]])
    fix x s assume x: "x \<in> set (clCalculateDepPaths l)" and s: "goodStep ctx rank st s"
    from startTask_total [OF goodStepD(1) [OF s] stateExt_calcGood [OF goodStepD(2) [OF s] c [OF x]]]
    obtain s' where "startTask ctx (rcAnalyzeCycles ctx (clGraph l)) x s = Inr s'" "goodStep ctx rank s s'" .
    then show "\<exists>s'. startTask ctx (rcAnalyzeCycles ctx (clGraph l)) x s = Inr s' \<and> goodStep ctx rank st s'"
      using goodStep_trans [OF s] by blast
  qed
  then show ?thesis using that False by (auto simp: startTasks_def)
qed

section \<open>The packages that the parents provide\<close>

text \<open>semver's \<open>gte\<close> throws only for versions that are not valid.\<close>

definition comparable :: "resolveCtx \<Rightarrow> (str \<Rightarrow> bool) \<Rightarrow> bool" where
  "comparable ctx valid \<longleftrightarrow> (\<forall>v w. valid v \<longrightarrow> valid w \<longrightarrow> (\<exists>b. peGte (rcEnv ctx) v w = Inr b)) \<and>
     (\<forall>k p. (k, p) \<in> set (rcPkgs ctx) \<longrightarrow> valid (tpVersion p))"

lemma updateParentRefs_total:
  assumes "comparable ctx valid" "refsGood valid V st refs" "refGood valid V st pkg"
  obtains refs' where "updateParentRefs (rcEnv ctx) k pkg refs = Inr refs'" "refsGood valid V st refs'"
proof -
  have "\<exists>refs'. updateParentRefs (rcEnv ctx) k pkg refs = Inr refs'"
  proof (cases "map_of refs k")
    case (Some old)
    then have "valid (pfVersion old)" using assms(2) map_of_SomeD unfolding refsGood_def refGood_def by fast
    moreover have "valid (pfVersion pkg)" using assms(3) by (simp add: refGood_def)
    ultimately obtain b where "peGte (rcEnv ctx) (pfVersion old) (pfVersion pkg) = Inr b"
      using assms(1) unfolding comparable_def by blast
    then show ?thesis using Some by (simp add: updateParentRefs_def)
  qed (simp add: updateParentRefs_def)
  then obtain refs' where r: "updateParentRefs (rcEnv ctx) k pkg refs = Inr refs'" ..
  have "refsGood valid V st refs'" unfolding refsGood_def
  proof (intro allI impI)
    fix a q assume "(a, q) \<in> set refs'"
    then have "(a, q) \<in> set refs \<or> q = pkg" by (rule updateParentRefs_values [OF r])
    then show "refGood valid V st q" using assms(2,3) unfolding refsGood_def by blast
  qed
  then show ?thesis using that r by blast
qed

lemma addPkgByName_total:
  assumes c: "comparable ctx valid" and g: "treeGood ctx rank (psTree st)" and refs: "refsGood valid V st refs"
    and p: "known st (ppNodeId p)" "truthyId (ppNodeId p) \<Longrightarrow> ppNodeId p \<in> V \<or> peerGood st (ppNodeId p)"
      "\<And>i. i \<in> set (ppParentNodeIds p) \<Longrightarrow> known st i"
  shows "\<exists>refs'. addPkgByName (rcEnv ctx) (rcPkgs ctx) (tsTree (psTree st)) p refs = Inr refs' \<and> refsGood valid V st refs'"
proof -
  obtain n q where n: "getNode (tsTree (psTree st)) (ppNodeId p) = Inr n" "packageOf (rcPkgs ctx) n = Inr q" "(tnPkgId n, q) \<in> set (rcPkgs ctx)"
    using treeGood_package [OF g] p(1) unfolding known_def by blast
  let ?pkg = "\<lparr>pfVersion = tpVersion q, pfDepth = tnDepth n, pfNodeId = Some (ppNodeId p),
    pfAlias = Some (ppAlias p), pfOccurrence = 0, pfParentNodeIds = ppParentNodeIds p\<rparr>"
  have pkg: "refGood valid V st ?pkg" using c n(3) p unfolding comparable_def refGood_def by auto
  from updateParentRefs_total [OF c refs pkg, of "ppAlias p"] obtain refs1 where
    r1: "updateParentRefs (rcEnv ctx) (ppAlias p) ?pkg refs = Inr refs1" "refsGood valid V st refs1" .
  from updateParentRefs_total [OF c r1(2) pkg, of "tpName q"] obtain refs2 where
    r2: "updateParentRefs (rcEnv ctx) (tpName q) ?pkg refs1 = Inr refs2" "refsGood valid V st refs2" .
  show ?thesis using n r1 r2 by (simp add: addPkgByName_def Let_def)
qed

lemma toPkgByName_total:
  assumes c: "comparable ctx valid" and g: "treeGood ctx rank (psTree st)"
    and p: "\<And>p. p \<in> set ps \<Longrightarrow> known st (ppNodeId p)"
      "\<And>p. p \<in> set ps \<Longrightarrow> truthyId (ppNodeId p) \<Longrightarrow> ppNodeId p \<in> V \<or> peerGood st (ppNodeId p)"
      "\<And>p i. p \<in> set ps \<Longrightarrow> i \<in> set (ppParentNodeIds p) \<Longrightarrow> known st i"
  obtains refs where "toPkgByName (rcEnv ctx) (rcPkgs ctx) (tsTree (psTree st)) ps = Inr refs" "refsGood valid V st refs"
proof -
  have "\<exists>refs. sfold (addPkgByName (rcEnv ctx) (rcPkgs ctx) (tsTree (psTree st))) ps [] = Inr refs \<and> refsGood valid V st refs"
    by (rule sfold_inv) (use addPkgByName_total [OF c g] p in blast, simp add: refsGood_def)
  then show ?thesis using that by (auto simp: toPkgByName_def)
qed

lemma refsGood_mono: "refsGood valid V st refs \<Longrightarrow> V \<subseteq> W \<Longrightarrow> refsGood valid W st refs"
  unfolding refsGood_def refGood_def by blast

lemma mergeParentPkgs_good:
  assumes "refsGood valid V st old" "refsGood valid V st new"
  shows "refsGood valid V st (mergeParentPkgs pkgs tree old new)"
  unfolding refsGood_def
proof (intro allI impI)
  fix a r assume "(a, r) \<in> set (mergeParentPkgs pkgs tree old new)"
  from mergeParentPkgs_refs [OF this] obtain a0 r0 i where "(a0, r0) \<in> set old \<or> (a0, r0) \<in> set new" "r = r0\<lparr>pfOccurrence := i\<rparr>" by blast
  moreover from this have "refGood valid V st r0" using assms unfolding refsGood_def by blast
  ultimately show "refGood valid V st r" by (simp add: refGood_def)
qed

lemma childParentPkgs_total:
  assumes c: "comparable ctx valid" and g: "treeGood ctx rank (psTree st)" and refs: "refsGood valid {} st refs"
    and ids: "\<And>i. i \<in> set ids \<Longrightarrow> known st i" and kids: "\<And>a n. (a, n) \<in> set children \<Longrightarrow> known st n"
  obtains refs' where "childParentPkgs (rcEnv ctx) (rcPkgs ctx) names (tsTree (psTree st)) ids children refs = Inr refs'"
    "refsGood valid (snd ` set children) st refs'"
proof (cases "children = []")
  case True
  then show ?thesis using that refs by (simp add: childParentPkgs_def)
next
  case False
  let ?ps = "map (\<lambda>(a, n). \<lparr>ppAlias = a, ppNodeId = n, ppParentNodeIds = ids\<rparr>) (filter (\<lambda>(a, n). a \<in> set names) children)"
  have ps: "\<exists>a. (a, ppNodeId p) \<in> set children \<and> ppParentNodeIds p = ids" if "p \<in> set ?ps" for p using that by auto
  obtain new where new: "toPkgByName (rcEnv ctx) (rcPkgs ctx) (tsTree (psTree st)) ?ps = Inr new" "refsGood valid (snd ` set children) st new"
  proof (rule toPkgByName_total [OF c g, of ?ps "snd ` set children"])
    fix p assume p: "p \<in> set ?ps"
    show "known st (ppNodeId p)" using ps [OF p] kids by blast
    show "ppNodeId p \<in> snd ` set children \<or> peerGood st (ppNodeId p)" using ps [OF p] by (auto intro: rev_image_eqI)
    show "i \<in> set (ppParentNodeIds p) \<Longrightarrow> known st i" for i using ps [OF p] ids by blast
  qed
  have "refsGood valid (snd ` set children) st refs" using refs by (rule refsGood_mono) simp
  then show ?thesis using that new False mergeParentPkgs_good by (simp add: childParentPkgs_def)
qed

section \<open>The cache\<close>

lemma sameProvider_total:
  assumes g: "treeGood ctx rank (psTree st)" and refs: "refsGood valid V st refs" and n: "known st n"
  shows "\<exists>b. sameProvider (hitCtxOf ctx st) refs name n = Inr b"
proof (cases "truthyIdOpt (Option.bind (map_of refs name) pfNodeId)")
  case True
  then obtain r q where r: "map_of refs name = Some r" "pfNodeId r = Some q"
    by (auto simp: truthyIdOpt_def bind_eq_Some_conv split: option.splits)
  then have "known st q" using refs map_of_SomeD [OF r(1)] unfolding refsGood_def refGood_def by blast
  then obtain p where "getPackage (rcPkgs ctx) (tsTree (psTree st)) q = Inr p"
    using getPackage_total [OF g] unfolding known_def by blast
  moreover obtain p' where "getPackage (rcPkgs ctx) (tsTree (psTree st)) n = Inr p'"
    using getPackage_total [OF g] n unfolding known_def by blast
  ultimately show ?thesis using r
    by (simp add: sameProvider_def hitCtxOf_def Let_def ex_bool_eq) blast
next
  case False
  then show ?thesis by (simp add: sameProvider_def Let_def ex_bool_eq)
qed

lemma sameProviders_total:
  assumes "treeGood ctx rank (psTree st)" "refsGood valid V st refs"
  shows "\<forall>a n. (a, n) \<in> set m \<longrightarrow> known st n \<Longrightarrow> \<exists>b. sameProviders (hitCtxOf ctx st) refs m = Inr b"
proof (induction m)
  case (Cons x m)
  obtain a n where x: "x = (a, n)" by (cases x)
  have "known st n" using Cons.prems x by simp
  then obtain b where "sameProvider (hitCtxOf ctx st) refs a n = Inr b" using sameProvider_total [OF assms] by blast
  then show ?case using Cons by (auto simp: x)
qed auto

lemma isHit_total:
  assumes "treeGood ctx rank (psTree st)" "refsGood valid V st refs" "itemGood st item"
  shows "\<exists>b. isHit (hitCtxOf ctx st) refs item = Inr b"
proof -
  have "\<forall>a n. (a, n) \<in> set (ciResolvedPeers item) \<longrightarrow> known st n"
    using assms(3) unfolding itemGood_def peersGood_def peerGood_def by blast
  then obtain b where "sameProviders (hitCtxOf ctx st) refs (ciResolvedPeers item) = Inr b"
    using sameProviders_total [OF assms(1,2)] by blast
  then show ?thesis by (simp add: isHit_def)
qed

lemma findHitFrom_total:
  assumes "treeGood ctx rank (psTree st)" "refsGood valid V st refs"
  shows "\<forall>item \<in> set items. itemGood st item \<Longrightarrow> \<exists>h. findHitFrom (hitCtxOf ctx st) refs i items = Inr h"
proof (induction items arbitrary: i)
  case (Cons item items)
  obtain b where "isHit (hitCtxOf ctx st) refs item = Inr b" using isHit_total [OF assms] Cons.prems by auto
  then show ?case using Cons by auto
qed simp

lemma findHit_total:
  assumes g: "stateGood ctx rank P st" and refs: "refsGood valid V st refs"
  obtains h where "findHit (hitCtxOf ctx st) (psPeersCache st) refs p = Inr h"
    "\<And>i. h = Some i \<Longrightarrow> \<exists>item. cacheItemAt (p, i) (psPeersCache st) = Some item"
proof (cases "map_of (psPeersCache st) p")
  case None
  then show ?thesis using that by (simp add: findHit_def)
next
  case (Some items)
  then have "\<forall>item \<in> set items. itemGood st item" using stateGoodD(2) [OF g] map_of_SomeD by fast
  then obtain h where h: "findHitFrom (hitCtxOf ctx st) refs 0 items = Inr h"
    using findHitFrom_total [OF stateGoodD(1) [OF g] refs] by blast
  moreover have "\<exists>item. cacheItemAt (p, i) (psPeersCache st) = Some item" if "h = Some i" for i
    using findHitFrom_sound [of "hitCtxOf ctx st" refs 0 items i] h that Some by (simp add: cacheItemAt_def)
  ultimately show ?thesis using that Some by (simp add: findHit_def)
qed

text \<open>What a call for a node returns.\<close>

definition resultGood :: "peerState \<Rightarrow> nodeResult \<Rightarrow> bool" where
  "resultGood st r \<longleftrightarrow> peersGood st (prResolvedPeers r) \<and>
     (case nrCalculateDepPath r of None \<Rightarrow> True | Some c \<Rightarrow> calcGood st c)"

lemma stateExt_resultGood: "stateExt a b \<Longrightarrow> resultGood a r \<Longrightarrow> resultGood b r"
  unfolding resultGood_def using stateExt_peersGood stateExt_calcGood by (auto split: option.splits)

lemma issues_good: "stateGood ctx rank {} st \<Longrightarrow> goodStep ctx rank st (st\<lparr>psIssues := i\<rparr>)"
  by (rule goodStep_frame) (simp_all add: promised_def)

lemma reportMissing_total:
  assumes g: "stateGood ctx rank {} st" and ids: "\<And>i. i \<in> set ids \<Longrightarrow> known st i"
  obtains st' where "reportMissing ctx ids m st = Inr st'" "goodStep ctx rank st st'"
proof -
  from locations_total [OF g ids] obtain l where "getLocationFromParentNodeIds (rcPkgs ctx) (tsTree (psTree st)) ids = Inr l" by blast
  then show ?thesis using that issues_good [OF g] by (simp add: reportMissing_def)
qed

lemma takeHit_total:
  assumes g: "stateGood ctx rank {} st" and ids: "\<And>i. i \<in> set ids \<Longrightarrow> known st i" and n: "promised st n"
    and hit: "cacheItemAt ref (psPeersCache st) = Some hit"
  obtains r st' where "takeHit ctx ids n node ref st = Inr (r, st')" "goodStep ctx rank st st'" "resultGood st' r"
proof -
  have "\<exists>st1. sfold (reportMissing ctx ids) (ciMissingPeers hit) st = Inr st1 \<and> goodStep ctx rank st st1"
  proof (rule sfold_inv [where P = "goodStep ctx rank st", OF _ goodStep_refl [OF g]])
    fix m s assume s: "goodStep ctx rank st s"
    from reportMissing_total [OF goodStepD(1) [OF s] stateExt_known [OF goodStepD(2) [OF s] ids], of ids m]
    obtain s' where "reportMissing ctx ids m s = Inr s'" "goodStep ctx rank s s'" by blast
    then show "\<exists>s'. reportMissing ctx ids m s = Inr s' \<and> goodStep ctx rank st s'" using goodStep_trans [OF s] by blast
  qed
  then obtain st1 where st1: "sfold (reportMissing ctx ids) (ciMissingPeers hit) st = Inr st1" "goodStep ctx rank st st1" by blast
  let ?t = "HitTask n (tnDepth node) (fst ref) (snd ref)"
  have "taskGood st1 ?t" using n goodStepD(2) [OF st1(2)] by (simp add: stateExt_def)
  note s = goodStep_trans [OF st1(2) addTask_good [OF goodStepD(1) [OF st1(2)] this]]
  have "peersGood st (ciResolvedPeers hit)" using cacheItemAt_good [OF g hit] by (simp add: itemGood_def)
  then show ?thesis using that [OF _ s] stateExt_peersGood [OF goodStepD(2) [OF s]] hit st1(1)
    by (simp add: takeHit_def resultGood_def)
qed

section \<open>The end of a node\<close>

lemma resolvePeer_total:
  assumes g: "stateGood ctx rank P st" and refs: "refsGood valid {} st refs" and ids: "\<And>i. i \<in> set ids \<Longrightarrow> known st i"
    and acc: "peersGood st (prResolvedPeers (fst acc))"
  shows "\<exists>acc'. resolvePeer (rcEnv ctx) (rcPkgs ctx) (tsTree (psTree st)) ids refs peer acc = Inr acc' \<and>
    peersGood st (prResolvedPeers (fst acc'))"
proof -
  obtain l where l: "getLocationFromParentNodeIds (rcPkgs ctx) (tsTree (psTree st)) ids = Inr l"
    using locations_total [OF g] ids by blast
  obtain name pd where peer: "peer = (name, pd)" by (cases peer)
  obtain res issues where acc': "acc = (res, issues)" by (cases acc)
  show ?thesis
  proof (cases "map_of refs name")
    case None
    then show ?thesis using l acc by (simp add: resolvePeer_def peer acc' Let_def)
  next
    case (Some r)
    then have r: "refGood valid {} st r" using refs map_of_SomeD unfolding refsGood_def by fast
    obtain l' where l': "getLocationFromParentNodeIds (rcPkgs ctx) (tsTree (psTree st)) (pfParentNodeIds r) = Inr l'"
      using locations_total [OF g, of "pfParentNodeIds r"] r unfolding refGood_def by blast
    have new: "peersGood st (jset name (the (pfNodeId r)) (prResolvedPeers res))" if "truthyIdOpt (pfNodeId r)"
    proof -
      have "peerGood st (the (pfNodeId r))" using that r by (auto simp: truthyIdOpt_def refGood_def split: option.splits)
      then show ?thesis using acc unfolding peersGood_def acc' by (auto dest!: update_pair)
    qed
    have "\<not> truthyIdOpt None" by (simp add: truthyIdOpt_def)
    then show ?thesis using l l' Some acc new by (auto simp: resolvePeer_def peer acc' Let_def)
  qed
qed

lemma resolvePeersOfPackage_total:
  assumes g: "stateGood ctx rank P st" and refs: "refsGood valid {} st refs" and ids: "\<And>i. i \<in> set ids \<Longrightarrow> known st i"
  obtains res issues' where "resolvePeersOfPackage (rcEnv ctx) (rcPkgs ctx) (tsTree (psTree st)) ids refs peers issues = Inr (res, issues')"
    "peersGood st (prResolvedPeers res)"
proof -
  have "\<exists>acc. sfold (resolvePeer (rcEnv ctx) (rcPkgs ctx) (tsTree (psTree st)) ids refs) peers (noPeers, issues) = Inr acc \<and>
      peersGood st (prResolvedPeers (fst acc))"
    by (rule sfold_inv [where P = "\<lambda>acc. peersGood st (prResolvedPeers (fst acc))"])
      (rule resolvePeer_total [OF g refs ids], assumption+, simp add: noPeers_def peersGood_def)
  then show ?thesis using that by (auto simp: resolvePeersOfPackage_def)
qed

lemma splitPeers_pending:
  "(a, n) \<in> set (snd (fold (splitPeer ctx paths) xs acc)) \<Longrightarrow> (a, n) \<in> set (snd acc) \<or> (a, n) \<in> set xs \<and> \<not> linkId n"
proof (induction xs arbitrary: acc)
  case (Cons x xs)
  have "(a, n) \<in> set (snd (splitPeer ctx paths x acc)) \<Longrightarrow> (a, n) \<in> set (snd acc) \<or> x = (a, n) \<and> \<not> linkId n"
    by (auto simp: splitPeer_def Let_def split: prod.splits if_splits)
  then show ?case using Cons.IH [of "splitPeer ctx paths x acc"] Cons.prems by auto
qed simp

lemma nameNode_total:
  assumes g: "stateGood ctx rank P st" and info: "infoGood st info" and r: "peersGood st (prResolvedPeers r)"
    and P: "P = {} \<or> prResolvedPeers r = [] \<and> P \<subseteq> {rpPkgIdWithPatchHash (niPackage info)}"
  obtains r' st' where "nameNode ctx info r st = Inr (r', st')" "goodStep ctx rank st st'" "resultGood st' r'"
proof (cases "prResolvedPeers r = []")
  case True
  obtain st' where "addDepPathToGraph ctx info (rpPkgIdWithPatchHash (niPackage info)) st = Inr st'" "goodStep ctx rank st st'"
    using addDepPathToGraph_total [OF g info] P by blast
  then show ?thesis using that True by (simp add: nameNode_def Let_def resultGood_def nodeResultOf_def peersGood_def)
next
  case False
  then have g0: "stateGood ctx rank {} st" using g P by simp
  obtain ids pending where split: "fold (splitPeer ctx (psPathsByNodeId st)) (prResolvedPeers r) ([], []) = (ids, pending)"
    by (rule prod.exhaust)
  show ?thesis
  proof (cases "pending = []")
    case True
    obtain st' where st': "addDepPathToGraph ctx info (rpPkgIdWithPatchHash (niPackage info) @
        createPeersDirSuffix (rcCreateHexHash ctx) ids (rcPeersSuffixMaxLength ctx)) st = Inr st'" "goodStep ctx rank st st'"
      using addDepPathToGraph_total [OF g0 info empty_subsetI] by blast
    then show ?thesis using that [OF _ st'(2)] False True split stateExt_peersGood [OF goodStepD(2) [OF st'(2)] r]
      by (simp add: nameNode_def Let_def resultGood_def nodeResultOf_def)
  next
    case pending: False
    have "known st n \<and> promised st n" if "(a, n) \<in> set pending" for a n
    proof -
      have "(a, n) \<in> set (prResolvedPeers r) \<and> \<not> linkId n"
        using splitPeers_pending [of a n ctx "psPathsByNodeId st" "prResolvedPeers r" "([], [])"] split that by simp
      then show ?thesis using r unfolding peersGood_def peerGood_def by blast
    qed
    then have "calcGood st \<lparr>cdInfo = info, cdPeerIds = ids, cdPendingPeers = pending\<rparr>" using info by (simp add: calcGood_def)
    then show ?thesis using that [OF _ goodStep_refl [OF g0]] False pending split r
      by (simp add: nameNode_def Let_def resultGood_def nodeResultOf_def)
  qed
qed

definition purePkg :: "str \<Rightarrow> peersResolution \<Rightarrow> depPath set" where
  "purePkg p r = (if prResolvedPeers r = [] \<and> prMissingPeers r = [] then {p} else {})"

lemma recordPeers_total:
  assumes g: "stateGood ctx rank {} st" and r: "peersGood st (prResolvedPeers r)" and rec: "recordPeers p r st = (st', ref)"
  shows "stateGood ctx rank (purePkg p r) st'" and "stateExt st st'" and "psTree st' = psTree st"
proof -
  have frame: "psTree st' = psTree st" "psDepGraph st' = psDepGraph st" "psPathsByNodeIdPromises st' = psPathsByNodeIdPromises st"
    "psTasks st' = psTasks st" "psDepPathsByPkgId st' = psDepPathsByPkgId st"
    using rec by (auto simp: recordPeers_def Let_def split: if_splits)
  then show e: "stateExt st st'" and "psTree st' = psTree st" by (simp_all add: stateExt_def promised_def inGraph_def)
  let ?items = "orEmpty (map_of (psPeersCache st) p)"
  let ?item = "\<lparr>ciMissingPeers = prMissingPeers r, ciDepPath = None, ciResolvedPeers = prResolvedPeers r\<rparr>"
  have "itemGood st ?item" using r by (simp add: itemGood_def)
  then have item: "itemGood st' ?item" by (rule stateExt_itemGood [OF e])
  show "stateGood ctx rank (purePkg p r) st'"
  proof (rule stateGood_step [OF g e], goal_cases)
    case 1
    show ?case using stateGoodD(1) [OF g] frame by simp
  next
    case (2 q items i)
    have old: "itemGood st i \<Longrightarrow> itemGood st' i" by (rule stateExt_itemGood [OF e])
    from 2(1) rec have "(q, items) \<in> set (psPeersCache st) \<or> items = ?items @ [?item]"
      by (auto simp: recordPeers_def Let_def split: if_splits dest!: update_pair)
    then show ?case
    proof
      assume "items = ?items @ [?item]"
      then have "i \<in> set ?items \<or> i = ?item" using 2(2) by auto
      then show ?thesis using item old stateGoodD(2) [OF g, of p] by (cases "map_of (psPeersCache st) p") (auto dest!: map_of_SomeD)
    qed (use 2(2) in blast)
  next
    case (3 q)
    then show ?case using rec by (auto simp: recordPeers_def purePkg_def Let_def split: if_splits)
  next
    case (6 q ds d)
    then show ?case using frame by auto
  qed (use frame in simp_all)
qed

lemma peersGood_jdel: "peersGood st m \<Longrightarrow> peersGood st (jdel k m)"
  unfolding peersGood_def by (auto simp: AList.delete_eq)

lemma peersGood_setAll: "peersGood st es \<Longrightarrow> peersGood st m \<Longrightarrow> peersGood st (setAll es m)"
  unfolding peersGood_def using setAll_values by metis

lemma finishNode_total:
  assumes g: "stateGood ctx rank {} st" and n: "promised st n" "known st n" and refs: "refsGood valid {} st refs"
    and ps: "parentsOpen st (nsParentNodeIds scope)" and kids: "peersGood st (prResolvedPeers ofChildren)"
  obtains r st' where "finishNode ctx scope a n node p children refs ofChildren st = Inr (r, st')"
    "goodStep ctx rank st st'" "resultGood st' r"
proof -
  let ?ids = "nsParentNodeIds scope @ [n]"
  have ids: "known st i" if "i \<in> set ?ids" for i using that n(2) parentsOpen_known [OF ps] by auto
  obtain own issues where own: "(if rpPeerDependencies p = [] then Inr (noPeers, psIssues st)
       else resolvePeersOfPackage (rcEnv ctx) (rcPkgs ctx) (tsTree (psTree st)) ?ids refs
         (rpPeerDependencies p) (psIssues st)) = Inr (own, issues)" and ownOk: "peersGood st (prResolvedPeers own)"
  proof (cases "rpPeerDependencies p = []")
    case True
    then show ?thesis using that [of noPeers "psIssues st"] by (simp add: noPeers_def peersGood_def)
  next
    case False
    from resolvePeersOfPackage_total [OF g refs ids, of ?ids "rpPeerDependencies p" "psIssues st"]
    obtain res iss where "resolvePeersOfPackage (rcEnv ctx) (rcPkgs ctx) (tsTree (psTree st)) ?ids refs
         (rpPeerDependencies p) (psIssues st) = Inr (res, iss)" "peersGood st (prResolvedPeers res)" by blast
    then show ?thesis using that [of res iss] False by simp
  qed
  define res where "res = \<lparr>prResolvedPeers = jdel (rpName p) (setAll (prResolvedPeers own) (prResolvedPeers ofChildren)),
    prMissingPeers = setAll (prMissingPeers own) (setAll (prMissingPeers ofChildren) [])\<rparr>"
  have resOk: "peersGood st (prResolvedPeers res)" using ownOk kids by (simp add: res_def peersGood_jdel peersGood_setAll)
  let ?pid = "rpPkgIdWithPatchHash p"
  obtain st1 ref where rec: "recordPeers ?pid res (st\<lparr>psIssues := issues\<rparr>) = (st1, ref)" by (rule prod.exhaust)
  note s0 = issues_good [OF g, of issues]
  note r1 = recordPeers_total [OF goodStepD(1) [OF s0] stateExt_peersGood [OF goodStepD(2) [OF s0] resOk] rec]
  have e: "stateExt st st1" using stateExt_trans goodStepD(2) [OF s0] r1(2) by blast
  define info where "info = \<lparr>niAlias = a, niNodeId = n, niDepth = tnDepth node, niInstallable = tnInstallable node,
            niPackage = p, niChildren = children, niResolvedPeers = prResolvedPeers own, niAllResolvedPeers = prResolvedPeers res,
            niMissingPeersOfChildren = prMissingPeers ofChildren,
            niIsPure = (prResolvedPeers res = [] \<and> prMissingPeers res = []), niParentNodeIds = nsParentNodeIds scope,
            niParentDepPathsChain = nsParentDepPathsChain scope, niCache = ref\<rparr>"
  have fin: "finishNode ctx scope a n node p children refs ofChildren st = nameNode ctx info res st1"
    unfolding finishNode_def own sbind_simps prod.case Let_def using rec by (simp add: res_def info_def)
  have "infoGood st info" using n(1) ps by (simp add: infoGood_def info_def)
  then have i: "infoGood st1 info" by (rule stateExt_infoGood [OF e])
  have P: "purePkg ?pid res = {} \<or> prResolvedPeers res = [] \<and> purePkg ?pid res \<subseteq> {rpPkgIdWithPatchHash (niPackage info)}"
    by (simp add: purePkg_def info_def)
  from nameNode_total [OF r1(1) i stateExt_peersGood [OF e resOk] P] obtain r st' where
    r: "nameNode ctx info res st1 = Inr (r, st')" "goodStep ctx rank st1 st'" "resultGood st' r" .
  have "goodStep ctx rank st st'"
    using r(2) stateExt_trans [OF e] r1(3) unfolding goodStep_def by simp
  then show ?thesis using that r(1,3) fin by simp
qed

section \<open>The walk\<close>

definition walked :: "resolveCtx \<Rightarrow> (nodeId \<Rightarrow> nat) \<Rightarrow> peerState \<Rightarrow> (nodeId \<Rightarrow> nat) \<Rightarrow> peerState \<Rightarrow> bool" where
  "walked ctx rank st rank' st' \<longleftrightarrow> stateGood ctx rank' {} st' \<and> stateExt st st' \<and> sameRank (psTree st) rank rank'"

lemma goodStep_walked: "goodStep ctx rank st st' \<Longrightarrow> walked ctx rank st rank st'"
  by (simp add: goodStep_def walked_def)

lemma walked_trans: "walked ctx r1 a r2 b \<Longrightarrow> walked ctx r2 b r3 c \<Longrightarrow> walked ctx r1 a r3 c"
  unfolding walked_def using stateExt_trans sameRank_trans unfolding stateExt_def by blast

lemma walkedD:
  assumes "walked ctx rank st rank' st'"
  shows "stateGood ctx rank' {} st'" and "stateExt st st'" and "known st n \<Longrightarrow> rank' n = rank n"
  using assms by (auto simp: walked_def sameRank_def known_def)

lemma parentInfoOf_total:
  assumes "stateGood ctx rank {} st" "refsGood valid V st refs" "x \<in> set refs"
  shows "\<exists>i. parentInfoOf (rcPkgs ctx) (tsTree (psTree st)) x = Inr i"
proof -
  obtain a r where x: "x = (a, r)" by (cases x)
  show ?thesis
  proof (cases "truthyIdOpt (pfNodeId r) \<and> \<not> linkId (the (pfNodeId r))")
    case True
    then have "known st (the (pfNodeId r))" using assms(2,3) unfolding refsGood_def refGood_def x
      by (auto simp: truthyIdOpt_def split: option.splits)
    then obtain p where "getPackage (rcPkgs ctx) (tsTree (psTree st)) (the (pfNodeId r)) = Inr p"
      using getPackage_total [OF stateGoodD(1) [OF assms(1)]] unfolding known_def by blast
    then show ?thesis using True by (simp add: parentInfoOf_def x)
  next
    case False
    then show ?thesis unfolding parentInfoOf_def x prod.case if_not_P [OF False] by blast
  qed
qed

lemma addPromises_map_of:
  "map_of (fold addPromise ns ps) n = None \<longleftrightarrow> map_of ps n = None \<and> n \<notin> set ns"
  by (induction ns arbitrary: ps) (auto simp: addPromise_def update_conv')

lemma openChildren_total:
  assumes g: "stateGood ctx rank {} st" and refs: "refsGood valid (set ns) st refs"
  obtains st' where "openChildren ctx refs ns st = Inr st'" "goodStep ctx rank st st'" "\<forall>n \<in> set ns. promised st' n"
proof -
  let ?refs = "filter (\<lambda>(name, _). name \<in> set (rcAllPeerDepNames ctx)) refs"
  have "\<forall>x. \<exists>i. x \<in> set ?refs \<longrightarrow> parentInfoOf (rcPkgs ctx) (tsTree (psTree st)) x = Inr i"
    using parentInfoOf_total [OF g refs] by auto
  then obtain f where "\<And>x. x \<in> set ?refs \<Longrightarrow> parentInfoOf (rcPkgs ctx) (tsTree (psTree st)) x = Inr (f x)" by metis
  then have s: "smap (parentInfoOf (rcPkgs ctx) (tsTree (psTree st))) ?refs = Inr (map f ?refs)" by (rule smap_total)
  let ?st = "st\<lparr>psPathsByNodeIdPromises := fold addPromise ns (psPathsByNodeIdPromises st),
    psParentPkgsOfNode := fold (\<lambda>n. jset n (map f ?refs)) ns (psParentPkgsOfNode st)\<rparr>"
  have pr: "promised ?st n \<longleftrightarrow> promised st n \<or> n \<in> set ns" for n by (simp only: promised_def) (simp add: addPromises_map_of)
  have "openChildren ctx refs ns st = Inr ?st" by (simp add: openChildren_def s)
  moreover have "goodStep ctx rank st ?st" by (rule goodStep_frame [OF g]) (simp_all add: pr)
  ultimately show ?thesis using that pr by blast
qed

text \<open>What a call for a node needs and gives.\<close>

definition nodeTotal :: "resolveCtx \<Rightarrow> (str \<Rightarrow> bool) \<Rightarrow> nat \<Rightarrow> nodeResolver \<Rightarrow> bool" where
  "nodeTotal ctx valid fuel rn \<longleftrightarrow> (\<forall>scope a n refs st rank. stateGood ctx rank {} st \<longrightarrow> known st n \<longrightarrow> promised st n \<longrightarrow>
     rank n < fuel \<longrightarrow> refsGood valid {} st refs \<longrightarrow> parentsOpen st (nsParentNodeIds scope) \<longrightarrow>
     (\<exists>r st' rank'. rn scope a n refs st = Inr (r, st') \<and> walked ctx rank st rank' st' \<and> resultGood st' r))"

definition loopReady :: "resolveCtx \<Rightarrow> (nodeId \<Rightarrow> nat) \<Rightarrow> peerState \<Rightarrow> childrenLoop \<times> peerState \<Rightarrow> bool" where
  "loopReady ctx rank st acc \<longleftrightarrow> (\<exists>rank'. walked ctx rank st rank' (snd acc)) \<and>
     peersGood (snd acc) (clResolvedPeers (fst acc)) \<and> (\<forall>c \<in> set (clCalculateDepPaths (fst acc)). calcGood (snd acc) c)"

lemma resolveChild_total:
  assumes rn: "nodeTotal ctx valid fuel rn" and l: "loopReady ctx rank st acc"
    and n: "known st n" "promised st n" "rank n < fuel" and refs: "refsGood valid {} st refs"
    and ps: "parentsOpen st (nsParentNodeIds scope)"
  shows "\<exists>acc'. resolveChild ctx rn scope children refs n acc = Inr acc' \<and> loopReady ctx rank st acc'"
proof -
  obtain l0 s where acc: "acc = (l0, s)" by (cases acc)
  obtain rank1 where w: "walked ctx rank st rank1 s" using l by (auto simp: loopReady_def acc)
  note e = walkedD(2) [OF w]
  have "promised s n" using n(2) e by (simp add: stateExt_def)
  moreover have "rank1 n < fuel" using walkedD(3) [OF w n(1)] n(3) by simp
  ultimately obtain r st1 rank2 where r: "rn scope (aliasByNodeId children n) n refs s = Inr (r, st1)"
      "walked ctx rank1 s rank2 st1" "resultGood st1 r"
    using rn walkedD(1) [OF w] stateExt_known [OF e n(1)] stateExt_refsGood [OF e refs] stateExt_parentsOpen [OF e ps]
    unfolding nodeTotal_def by blast
  from awaitTasks_total [OF walkedD(1) [OF r(2)]] obtain st2 where st2: "awaitTasks ctx st1 = Inr st2" "goodStep ctx rank2 st1 st2" .
  have w2: "walked ctx rank st rank2 st2" by (rule walked_trans [OF walked_trans [OF w r(2)] goodStep_walked [OF st2(2)]])
  have e2: "stateExt s st2" using stateExt_trans [OF walkedD(2) [OF r(2)] goodStepD(2) [OF st2(2)]] .
  have r2: "resultGood st2 r" by (rule stateExt_resultGood [OF goodStepD(2) [OF st2(2)] r(3)])
  have old: "peersGood st2 (clResolvedPeers l0)" "\<And>c. c \<in> set (clCalculateDepPaths l0) \<Longrightarrow> calcGood st2 c"
    using l stateExt_peersGood [OF e2] stateExt_calcGood [OF e2] unfolding loopReady_def acc by auto
  show ?thesis
    using r(1) st2(1) w2 r2 old
    by (auto simp: resolveChild_def acc Let_def loopReady_def resultGood_def peersGood_setAll split: option.splits)
qed

lemma refsGood_promised:
  assumes "refsGood valid V st refs" "stateExt st st'" "\<forall>n \<in> V. promised st' n"
  shows "refsGood valid {} st' refs"
  using stateExt_refsGood [OF assms(2,1)] assms(3) unfolding refsGood_def refGood_def peerGood_def by blast

lemma resolvePeersOfChildren_total:
  assumes rn: "nodeTotal ctx valid fuel rn" and g: "stateGood ctx rank {} st"
    and kids: "\<forall>a n. (a, n) \<in> set children \<longrightarrow> known st n \<and> rank n < fuel"
    and refs: "refsGood valid (snd ` set children) st refs" and ps: "parentsOpen st (nsParentNodeIds scope)"
  obtains r st' rank' where "resolvePeersOfChildren ctx rn scope children refs st = Inr (r, st')" "walked ctx rank st rank' st'"
    "peersGood st' (prResolvedPeers r)" "refsGood valid {} st' refs"
proof -
  let ?ns = "childNodeIds children refs"
  let ?l0 = "\<lparr>clResolvedPeers = [], clMissingPeers = [], clGraph = [], clCalculateDepPaths = []\<rparr>"
  have "refsGood valid (set ?ns) st refs" using refs by (simp add: childNodeIds_set)
  from openChildren_total [OF g this] obtain st1 where
    st1: "openChildren ctx refs ?ns st = Inr st1" "goodStep ctx rank st st1" "\<forall>n \<in> set ?ns. promised st1 n" .
  note e1 = goodStepD(2) [OF st1(2)]
  have refs1: "refsGood valid {} st1 refs" using refsGood_promised [OF refs e1] st1(3) by (simp add: childNodeIds_set)
  have "\<exists>acc. sfold (resolveChild ctx rn scope children refs) ?ns (?l0, st1) = Inr acc \<and> loopReady ctx rank st1 acc"
  proof (rule sfold_inv [where P = "loopReady ctx rank st1"])
    fix n acc assume n: "n \<in> set ?ns" and acc: "loopReady ctx rank st1 acc"
    have k: "known st n" "rank n < fuel" using kids n by (auto simp: childNodeIds_set)
    show "\<exists>acc'. resolveChild ctx rn scope children refs n acc = Inr acc' \<and> loopReady ctx rank st1 acc'"
      using resolveChild_total [OF rn acc stateExt_known [OF e1 k(1)] _ k(2) refs1 stateExt_parentsOpen [OF e1 ps]] st1(3) n by blast
  next
    have "walked ctx rank st1 rank st1" using goodStep_walked goodStep_refl goodStepD(1) [OF st1(2)] by blast
    then show "loopReady ctx rank st1 (?l0, st1)" by (auto simp: loopReady_def peersGood_def)
  qed
  then obtain l st2 where f: "sfold (resolveChild ctx rn scope children refs) ?ns (?l0, st1) = Inr (l, st2)"
    and l: "loopReady ctx rank st1 (l, st2)" by auto
  obtain rank' where w: "walked ctx rank st1 rank' st2" using l by (auto simp: loopReady_def)
  have "c \<in> set (clCalculateDepPaths l) \<Longrightarrow> calcGood st2 c" for c using l by (simp add: loopReady_def)
  from startTasks_total [OF walkedD(1) [OF w] this] obtain st3 where st3: "startTasks ctx l st2 = Inr st3" "goodStep ctx rank' st2 st3"
    by blast
  have w3: "walked ctx rank st rank' st3"
    by (rule walked_trans [OF walked_trans [OF goodStep_walked [OF st1(2)] w] goodStep_walked [OF st3(2)]])
  have "peersGood st2 (clResolvedPeers l)" using l by (simp add: loopReady_def)
  then have "peersGood st3 (clResolvedPeers l)" by (rule stateExt_peersGood [OF goodStepD(2) [OF st3(2)]])
  then have "peersGood st3 (filter (\<lambda>(a, _). \<not> truthyIdOpt (map_of children a)) (clResolvedPeers l))" by (auto simp: peersGood_def)
  moreover have "refsGood valid {} st3 refs"
    using stateExt_refsGood stateExt_trans [OF walkedD(2) [OF w] goodStepD(2) [OF st3(2)]] refs1 by blast
  ultimately show ?thesis using that [OF _ w3] st1(1) f st3(1) by (simp add: resolvePeersOfChildren_def Let_def)
qed

lemma forced_walked:
  assumes g: "stateGood ctx rank {} st" and f: "forcedGood ctx rank (psTree st) n children ts rank'"
  shows "walked ctx rank st rank' (st\<lparr>psTree := ts\<rparr>)"
proof -
  note f = f [unfolded forcedGood_def]
  let ?st = "st\<lparr>psTree := ts\<rparr>"
  have e: "stateExt st ?st" using f by (simp add: stateExt_def promised_def inGraph_def)
  have "stateGood ctx rank' {} ?st" by (rule stateGood_step [OF g e]) (use f in auto)
  then show ?thesis using e f by (simp add: walked_def)
qed

lemma knownPure_total:
  assumes "stateGood ctx rank {} st"
  obtains b where "knownPure p node st = Inr b" "b \<Longrightarrow> inGraph st (rpPkgIdWithPatchHash p)"
proof (cases "rpPkgIdWithPatchHash p \<in> set (psPurePkgs st)")
  case True
  then have "inGraph st (rpPkgIdWithPatchHash p)" using stateGoodD(3) [OF assms] by blast
  then show ?thesis using that True by (auto simp: knownPure_def inGraph_def)
next
  case False
  then show ?thesis using that by (simp add: knownPure_def)
qed

lemma purePath_total:
  assumes g: "stateGood ctx rank {} st" and n: "promised st n"
  obtains st' where "resolvePromise n d (st\<lparr>psPathsByNodeId := jset n d (psPathsByNodeId st)\<rparr>) = Inr st'" "goodStep ctx rank st st'"
proof -
  let ?st0 = "st\<lparr>psPathsByNodeId := jset n d (psPathsByNodeId st)\<rparr>"
  have "promised ?st0 n" using n by (simp add: promised_def)
  from resolvePromise_total [OF this, of d] obtain ps where
    ps: "resolvePromise n d ?st0 = Inr (?st0\<lparr>psPathsByNodeIdPromises := ps\<rparr>)"
      "\<And>k. map_of (psPathsByNodeIdPromises ?st0) k \<noteq> None \<Longrightarrow> map_of ps k \<noteq> None" by blast
  have "goodStep ctx rank st (?st0\<lparr>psPathsByNodeIdPromises := ps\<rparr>)"
    by (rule goodStep_frame [OF g]) (use ps(2) in \<open>simp_all add: promised_def\<close>)
  then show ?thesis using that [OF ps(1)] by blast
qed

text \<open>A node that is not pure: its children are opened, and either an item of the cache is taken or its children are resolved.\<close>

lemma resolveOpened_total:
  assumes c: "comparable ctx valid" and g: "stateGood ctx rank {} st" and n: "known st n"
    and refs: "refsGood valid {} st refs" and ps: "parentsOpen st (nsParentNodeIds scope)"
  obtains children ts rank1 refs' h where "forceChildren (rcTreeCtx ctx) n (psTree st) = Inr (children, ts)"
    "walked ctx rank st rank1 (st\<lparr>psTree := ts\<rparr>)"
    "childParentPkgs (rcEnv ctx) (rcPkgs ctx) (rcAllPeerDepNames ctx) (tsTree ts) (nsParentNodeIds scope @ [n]) children refs = Inr refs'"
    "findHit (hitCtxOf ctx (st\<lparr>psTree := ts\<rparr>)) (psPeersCache (st\<lparr>psTree := ts\<rparr>)) refs' pid = Inr h"
    "\<forall>i. h = Some i \<longrightarrow> (\<exists>item. cacheItemAt (pid, i) (psPeersCache st) = Some item)"
    "\<forall>a v. (a, v) \<in> set children \<longrightarrow> known (st\<lparr>psTree := ts\<rparr>) v \<and> rank1 v < rank n"
    "refsGood valid (snd ` set children) (st\<lparr>psTree := ts\<rparr>) refs'"
    "parentsOpen (st\<lparr>psTree := ts\<rparr>) (nsParentNodeIds scope @ [n])"
proof -
  obtain node where node: "map_of (tsTree (psTree st)) n = Some node" using n by (auto simp: known_def)
  from forceChildren_good [OF stateGoodD(1) [OF g] node] obtain children ts rank1 where
    f: "forceChildren (rcTreeCtx ctx) n (psTree st) = Inr (children, ts)" "forcedGood ctx rank (psTree st) n children ts rank1" .
  let ?st = "st\<lparr>psTree := ts\<rparr>" and ?ids = "nsParentNodeIds scope @ [n]"
  note w = forced_walked [OF g f(2)]
  have open_n: "opened (tsTree (psTree ?st)) n children" using f(2) by (simp add: forcedGood_def)
  have ids: "parentsOpen ?st ?ids" using stateExt_parentsOpen [OF walkedD(2) [OF w] ps] open_n by (auto simp: parentsOpen_def)
  have kids: "known ?st v \<and> rank1 v < rank n" if "(a, v) \<in> set children" for a v
    using f(2) that walkedD(3) [OF w n] unfolding forcedGood_def known_def by fastforce
  have "treeGood ctx rank1 (psTree ?st)" by (rule stateGoodD(1) [OF walkedD(1) [OF w]])
  from childParentPkgs_total [OF c this stateExt_refsGood [OF walkedD(2) [OF w] refs] parentsOpen_known [OF ids], of ?ids children "rcAllPeerDepNames ctx"]
  obtain refs' where r: "childParentPkgs (rcEnv ctx) (rcPkgs ctx) (rcAllPeerDepNames ctx) (tsTree (psTree ?st)) ?ids children refs = Inr refs'"
    "refsGood valid (snd ` set children) ?st refs'" using kids by blast
  from findHit_total [OF walkedD(1) [OF w] r(2), of pid] obtain h where
    h: "findHit (hitCtxOf ctx ?st) (psPeersCache ?st) refs' pid = Inr h"
      "\<And>i. h = Some i \<Longrightarrow> \<exists>item. cacheItemAt (pid, i) (psPeersCache ?st) = Some item" by blast
  show ?thesis
    by (rule that [OF f(1) w _ _ _ _ r(2) ids]) (use r(1) h kids in auto)
qed

lemma resolvePeersOfNode_total:
  assumes c: "comparable ctx valid"
  shows "nodeTotal ctx valid fuel (resolvePeersOfNode ctx fuel)"
proof (induction fuel)
  case 0
  then show ?case by (simp add: nodeTotal_def)
next
  case (Suc fuel)
  show ?case unfolding nodeTotal_def
  proof (intro allI impI)
    fix scope :: nodeScope and a n refs st rank
    assume g: "stateGood ctx rank {} st" and n: "known st n" "promised st n" "rank n < Suc fuel"
      and refs: "refsGood valid {} st refs" and ps: "parentsOpen st (nsParentNodeIds scope)"
    let ?run = "resolvePeersOfNode ctx (Suc fuel) scope a n refs st"
    obtain node where node: "map_of (tsTree (psTree st)) n = Some node" using n(1) by (auto simp: known_def)
    have gn: "getNode (tsTree (psTree st)) n = Inr node" using node by (simp add: getNode_def)
    have empty: "resultGood s (nodeResultOf noPeers None)" for s by (simp add: resultGood_def nodeResultOf_def noPeers_def peersGood_def)
    show "\<exists>r st' rank'. ?run = Inr (r, st') \<and> walked ctx rank st rank' st' \<and> resultGood st' r"
    proof (cases "tnDepth node = - 1")
      case True
      then have "?run = Inr (nodeResultOf noPeers None, st)" by (simp add: gn)
      then show ?thesis using empty goodStep_walked [OF goodStep_refl [OF g]] by blast
    next
      case False
      have "nodeGood ctx rank (tsTree (psTree st)) n node" by (rule treeGoodD(4) [OF stateGoodD(1) [OF g] node])
      then obtain p where p: "resolvedPackageOf ctx node = Inr p"
        using False by (auto simp: nodeGood_def resolvedPackageOf_def packageOf_def split: option.splits treePkg.splits)
      let ?pid = "rpPkgIdWithPatchHash p"
      from knownPure_total [OF g, of p node] obtain pure where pure: "knownPure p node st = Inr pure" by blast
      note step = resolvePeersOfNode.simps(2) [of ctx fuel scope a n refs st, unfolded gn p pure asError_simps sbind_simps if_not_P [OF False]]
      show ?thesis
      proof (cases pure)
        case True
        from purePath_total [OF g n(2), of ?pid] obtain st' where
          "resolvePromise n ?pid (st\<lparr>psPathsByNodeId := jset n ?pid (psPathsByNodeId st)\<rparr>) = Inr st'" "goodStep ctx rank st st'" .
        then have "?run = Inr (nodeResultOf noPeers None, st')" "walked ctx rank st rank st'"
          using True goodStep_walked by (simp_all only: step if_True asError_simps sbind_simps)
        then show ?thesis using empty by blast
      next
        case notPure: False
        from resolveOpened_total [OF c g n(1) refs ps, of ?pid] obtain children ts rank1 refs' h where
          o: "forceChildren (rcTreeCtx ctx) n (psTree st) = Inr (children, ts)"
            "walked ctx rank st rank1 (st\<lparr>psTree := ts\<rparr>)"
            "childParentPkgs (rcEnv ctx) (rcPkgs ctx) (rcAllPeerDepNames ctx) (tsTree ts) (nsParentNodeIds scope @ [n]) children refs = Inr refs'"
            "findHit (hitCtxOf ctx (st\<lparr>psTree := ts\<rparr>)) (psPeersCache (st\<lparr>psTree := ts\<rparr>)) refs' ?pid = Inr h"
            "\<forall>i. h = Some i \<longrightarrow> (\<exists>item. cacheItemAt (?pid, i) (psPeersCache st) = Some item)"
            "\<forall>a v. (a, v) \<in> set children \<longrightarrow> known (st\<lparr>psTree := ts\<rparr>) v \<and> rank1 v < rank n"
            "refsGood valid (snd ` set children) (st\<lparr>psTree := ts\<rparr>) refs'"
            "parentsOpen (st\<lparr>psTree := ts\<rparr>) (nsParentNodeIds scope @ [n])" .
        let ?st = "st\<lparr>psTree := ts\<rparr>" and ?ids = "nsParentNodeIds scope @ [n]"
        note g1 = walkedD(1) [OF o(2)] and e1 = walkedD(2) [OF o(2)]
        have n1: "promised ?st n" using n(2) by (simp add: promised_def)
        note step = step [unfolded if_not_P [OF notPure] o(1) prod.case Let_def o(3,4) asError_simps sbind_simps]
        show ?thesis
        proof (cases h)
          case (Some i)
          then obtain item where item: "cacheItemAt (?pid, i) (psPeersCache ?st) = Some item" using o(5) by auto
          from takeHit_total [OF g1 parentsOpen_known [OF o(8)] n1 item, of ?ids node] obtain r st' where
            t: "takeHit ctx ?ids n node (?pid, i) ?st = Inr (r, st')" "goodStep ctx rank1 ?st st'" "resultGood st' r" by blast
          have "?run = Inr (r, st')" by (simp only: step Some option.case t(1) asError_simps)
          then show ?thesis using walked_trans [OF o(2) goodStep_walked [OF t(2)]] t(3) by blast
        next
          case None
          let ?chain = "nsParentDepPathsChain scope"
          let ?scope = "\<lparr>nsParentNodeIds = ?ids, nsParentDepPathsChain = (if ?pid \<in> set ?chain then ?chain else ?chain @ [?pid])\<rparr>"
          have kids: "\<forall>a v. (a, v) \<in> set children \<longrightarrow> known ?st v \<and> rank1 v < fuel" using o(6) n(3) by fastforce
          have "parentsOpen ?st (nsParentNodeIds ?scope)" using o(8) by simp
          from resolvePeersOfChildren_total [OF Suc.IH g1 kids o(7) this] obtain ofChildren st2 rank2 where
            ch: "resolvePeersOfChildren ctx (resolvePeersOfNode ctx fuel) ?scope children refs' ?st = Inr (ofChildren, st2)"
              "walked ctx rank1 ?st rank2 st2" "peersGood st2 (prResolvedPeers ofChildren)" "refsGood valid {} st2 refs'" .
          from awaitTasks_total [OF walkedD(1) [OF ch(2)]] obtain st3 where aw: "awaitTasks ctx st2 = Inr st3" "goodStep ctx rank2 st2 st3" .
          have w3: "walked ctx rank st rank2 st3" by (rule walked_trans [OF walked_trans [OF o(2) ch(2)] goodStep_walked [OF aw(2)]])
          note e3 = walkedD(2) [OF w3] and e23 = goodStepD(2) [OF aw(2)]
          have n3: "promised st3 n" "known st3 n" using n(2) stateExt_known [OF e3 n(1)] e3 by (auto simp: stateExt_def)
          from finishNode_total [OF goodStepD(1) [OF aw(2)] n3 stateExt_refsGood [OF e23 ch(4)] stateExt_parentsOpen [OF e3 ps]
              stateExt_peersGood [OF e23 ch(3)], of a node p children]
          obtain r st' where fin: "finishNode ctx scope a n node p children refs' ofChildren st3 = Inr (r, st')"
            "goodStep ctx rank2 st3 st'" "resultGood st' r" .
          have "?run = Inr (r, st')"
            by (simp only: step None option.case ch(1) aw(1) fin(1) prod.case asError_simps sbind_simps)
          then show ?thesis using walked_trans [OF w3 goodStep_walked [OF fin(2)]] fin(3) by blast
        qed
      qed
    qed
  qed
qed

end
