(* ===== verification/PeerReturns.thy ===== *)
theory PeerReturns
  imports PeerTotal
begin

text \<open>
  \<open>resolvePeers\<close> (\<open>PeerResolution\<close>) returns: what \<open>PeerTotal\<close> shows of the walk below one node, carried through all projects,
  the last tasks and the passes over the graph. Only the last tasks may wait for each other.
\<close>

section \<open>All projects\<close>

text \<open>A linked dependency of a project is a node of the tree, and what the projects bring along has versions that can be compared.\<close>

definition topGood :: "(str \<Rightarrow> bool) \<Rightarrow> dependenciesTree \<Rightarrow> topParent \<Rightarrow> bool" where
  "topGood valid tree t \<longleftrightarrow> valid (tqVersion t) \<and> (case tqLinkedDir t of None \<Rightarrow> True | Some n \<Rightarrow> linkId n \<and> map_of tree n \<noteq> None)"

definition projectGood :: "(str \<Rightarrow> bool) \<Rightarrow> (nodeId \<Rightarrow> nat) \<Rightarrow> nat \<Rightarrow> dependenciesTree \<Rightarrow> projectToResolve \<Rightarrow> bool" where
  "projectGood valid rank fuel tree p \<longleftrightarrow> (\<forall>a n. (a, n) \<in> set (pjDirectNodeIdsByAlias p) \<longrightarrow> \<not> linkId n \<and> map_of tree n \<noteq> None \<and> rank n < fuel) \<and>
     (\<forall>t \<in> set (pjTopParents p). topGood valid tree t)"

lemma projectGood_ext:
  assumes "projectGood valid rank fuel tree p" "\<And>k. map_of tree k \<noteq> None \<Longrightarrow> map_of tree' k \<noteq> None \<and> rank' k = rank k"
  shows "projectGood valid rank' fuel tree' p"
  using assms unfolding projectGood_def topGood_def by (auto split: option.splits)

lemma addTopParent_total:
  assumes c: "comparable ctx valid" and t: "topGood valid (tsTree (psTree st)) t" and refs: "refsGood valid V st refs"
  shows "\<exists>refs'. addTopParent (rcEnv ctx) t refs = Inr refs' \<and> refsGood valid V st refs'"
proof -
  let ?pkg = "\<lparr>pfVersion = tqVersion t, pfDepth = 0, pfNodeId = tqLinkedDir t, pfAlias = tqAlias t, pfOccurrence = 0, pfParentNodeIds = []\<rparr>"
  have pkg: "refGood valid V st ?pkg" using t by (auto simp: topGood_def refGood_def peerGood_def known_def)
  from updateParentRefs_total [OF c refs pkg, of "tqName t"] obtain refs1 where
    r1: "updateParentRefs (rcEnv ctx) (tqName t) ?pkg refs = Inr refs1" "refsGood valid V st refs1" .
  from updateParentRefs_total [OF c r1(2) pkg, of "the (tqAlias t)"] obtain refs2 where
    r2: "updateParentRefs (rcEnv ctx) (the (tqAlias t)) ?pkg refs1 = Inr refs2" "refsGood valid V st refs2" .
  show ?thesis using r1 r2 by (simp add: addTopParent_def Let_def)
qed

lemma createPkgsByName_total:
  assumes c: "comparable ctx valid" and g: "stateGood ctx rank {} st" and p: "projectGood valid rank fuel (tsTree (psTree st)) p"
  obtains refs where "createPkgsByName (rcEnv ctx) (rcPkgs ctx) (tsTree (psTree st)) p = Inr refs" "refsGood valid UNIV st refs"
proof -
  let ?ps = "map (\<lambda>(a, n). \<lparr>ppAlias = a, ppNodeId = n, ppParentNodeIds = []\<rparr>) (pjDirectNodeIdsByAlias p)"
  obtain refs0 where
    r0: "toPkgByName (rcEnv ctx) (rcPkgs ctx) (tsTree (psTree st)) ?ps = Inr refs0" "refsGood valid UNIV st refs0"
  proof (rule toPkgByName_total [OF c stateGoodD(1) [OF g], of ?ps UNIV])
    fix q assume q: "q \<in> set ?ps"
    then show "known st (ppNodeId q)" using p by (auto simp: projectGood_def known_def)
    show "i \<in> set (ppParentNodeIds q) \<Longrightarrow> known st i" for i using q by auto
  qed simp_all
  have "\<exists>refs. sfold (addTopParent (rcEnv ctx)) (pjTopParents p) refs0 = Inr refs \<and> refsGood valid UNIV st refs"
    by (rule sfold_inv [OF addTopParent_total [OF c] r0(2)]) (use p in \<open>auto simp: projectGood_def\<close>)
  then show ?thesis using that r0(1) by (auto simp: createPkgsByName_def)
qed

lemma promiseIds_iff: "n \<in> set (promiseIds refs) \<longleftrightarrow> (\<exists>a r. (a, r) \<in> set refs \<and> pfNodeId r = Some n \<and> truthyId n)"
proof (induction refs)
  case (Cons x refs)
  obtain a r where x: "x = (a, r)" by (cases x)
  have "n \<in> set (promiseIds (x # refs)) \<longleftrightarrow> pfNodeId r = Some n \<and> truthyId n \<or> n \<in> set (promiseIds refs)"
    by (auto simp: promiseIds_def truthyIdOpt_def x split: option.splits)
  then show ?case using Cons x by auto
qed (simp add: promiseIds_def map_filter_simps)

lemma refsGood_promiseIds:
  assumes "refsGood valid UNIV st refs" "stateExt st st'" "\<forall>n \<in> set (promiseIds refs). promised st' n"
  shows "refsGood valid {} st' refs"
  unfolding refsGood_def
proof (intro allI impI)
  fix a r assume r: "(a, r) \<in> set refs"
  then have old: "refGood valid UNIV st' r" using stateExt_refsGood [OF assms(2,1)] unfolding refsGood_def by blast
  have "promised st' n" if "pfNodeId r = Some n" "truthyId n" for n using assms(3) r that promiseIds_iff by blast
  then show "refGood valid {} st' r" using old unfolding refGood_def peerGood_def by blast
qed

lemma resolvePeersOfProject_total:
  assumes c: "comparable ctx valid" and g: "stateGood ctx rank {} st" and p: "projectGood valid rank fuel (tsTree (psTree st)) p"
    and root: "refsGood valid UNIV st root"
  shows "\<exists>st' issues' rank'. resolvePeersOfProject ctx fuel root p (st, issues) = Inr (st', issues') \<and> walked ctx rank st rank' st'"
proof -
  let ?direct = "pjDirectNodeIdsByAlias p"
  from createPkgsByName_total [OF c g p] obtain pkgs0 where
    p0: "createPkgsByName (rcEnv ctx) (rcPkgs ctx) (tsTree (psTree st)) p = Inr pkgs0" "refsGood valid UNIV st pkgs0" .
  define pkgs where "pkgs = filter (\<lambda>(peerName, _). peerName \<in> set (rcAllPeerDepNames ctx)) (spread root pkgs0)"
  have pp: "projectPkgs ctx root p (psTree st) = Inr pkgs" using p0(1) by (simp add: projectPkgs_def pkgs_def)
  have "refsGood valid UNIV st (spread root pkgs0)"
    using root p0(2) spread_values unfolding refsGood_def by metis
  then have refs: "refsGood valid UNIV st pkgs" by (auto simp: refsGood_def pkgs_def)
  let ?st1 = "st\<lparr>psIssues := noIssues, psParentPkgsOfNode := [],
          psPathsByNodeIdPromises := fold addPromise (promiseIds pkgs) (psPathsByNodeIdPromises st)\<rparr>"
  have pr: "promised ?st1 n \<longleftrightarrow> promised st n \<or> n \<in> set (promiseIds pkgs)" for n
    by (simp only: promised_def) (simp add: addPromises_map_of)
  have s1: "goodStep ctx rank st ?st1" by (rule goodStep_frame [OF g]) (simp_all add: pr)
  have refs1: "refsGood valid {} ?st1 pkgs" by (rule refsGood_promiseIds [OF refs goodStepD(2) [OF s1]]) (simp add: pr)
  have kids: "\<forall>a n. (a, n) \<in> set ?direct \<longrightarrow> known ?st1 n \<and> rank n < fuel" using p by (simp add: projectGood_def known_def)
  let ?scope = "\<lparr>nsParentNodeIds = [], nsParentDepPathsChain = []\<rparr>"
  have "parentsOpen ?st1 (nsParentNodeIds ?scope)" by (simp add: parentsOpen_def)
  from resolvePeersOfChildren_total [OF resolvePeersOfNode_total [OF c] goodStepD(1) [OF s1] kids refsGood_mono [OF refs1 empty_subsetI] this]
  obtain r st2 rank2 where ch: "resolvePeersOfChildren ctx (resolvePeersOfNode ctx fuel) ?scope ?direct pkgs ?st1 = Inr (r, st2)"
    "walked ctx rank ?st1 rank2 st2" by blast
  from awaitTasks_total [OF walkedD(1) [OF ch(2)]] obtain st3 where aw: "awaitTasks ctx st2 = Inr st3" "goodStep ctx rank2 st2 st3" .
  have w: "walked ctx rank st rank2 st3"
    by (rule walked_trans [OF walked_trans [OF goodStep_walked [OF s1] ch(2)] goodStep_walked [OF aw(2)]])
  then show ?thesis using pp ch(1) aw(1) by (auto simp: resolvePeersOfProject_def Let_def)
qed

lemma walked_projectGood:
  assumes "walked ctx rank st rank' st'" "projectGood valid rank fuel (tsTree (psTree st)) p"
  shows "projectGood valid rank' fuel (tsTree (psTree st')) p"
  by (rule projectGood_ext [OF assms(2)])
    (use walkedD(3) [OF assms(1)] stateExt_known [OF walkedD(2) [OF assms(1)]] in \<open>simp add: known_def\<close>)

lemma resolvePeersOfProjects_total:
  assumes c: "comparable ctx valid" and g: "stateGood ctx rank {} st" and root: "refsGood valid UNIV st root"
    and ps: "\<forall>p \<in> set ps. projectGood valid rank fuel (tsTree (psTree st)) p"
  obtains st' issues' rank' where "sfold (resolvePeersOfProject ctx fuel root) ps (st, issues) = Inr (st', issues')"
    "walked ctx rank st rank' st'"
proof -
  have "\<exists>acc. sfold (resolvePeersOfProject ctx fuel root) ps (st, issues) = Inr acc \<and> (\<exists>rank'. walked ctx rank st rank' (fst acc))"
  proof (rule sfold_inv [where P = "\<lambda>acc. \<exists>rank'. walked ctx rank st rank' (fst acc)"])
    fix p and acc :: "peerState \<times> peerDependencyIssues obj"
    assume p: "p \<in> set ps" and acc: "\<exists>rank'. walked ctx rank st rank' (fst acc)"
    obtain s iss where s: "acc = (s, iss)" by (cases acc)
    from acc obtain rank1 where w: "walked ctx rank st rank1 s" by (auto simp: s)
    have "projectGood valid rank1 fuel (tsTree (psTree s)) p" using walked_projectGood [OF w] ps p by blast
    from resolvePeersOfProject_total [OF c walkedD(1) [OF w] this stateExt_refsGood [OF walkedD(2) [OF w] root], of iss]
    show "\<exists>acc'. resolvePeersOfProject ctx fuel root p acc = Inr acc' \<and> (\<exists>rank'. walked ctx rank st rank' (fst acc'))"
      using walked_trans [OF w] unfolding s by fastforce
  next
    show "\<exists>rank'. walked ctx rank st rank' (fst (st, issues))" using goodStep_walked [OF goodStep_refl [OF g]] by auto
  qed
  then show ?thesis using that by auto
qed

lemma getRootPkgsByName_total:
  assumes c: "comparable ctx valid" and g: "stateGood ctx rank {} st"
    and ps: "\<forall>p \<in> set ps. projectGood valid rank fuel (tsTree (psTree st)) p"
  obtains refs where "getRootPkgsByName (rcEnv ctx) (rcPkgs ctx) (tsTree (psTree st)) ps = Inr refs" "refsGood valid UNIV st refs"
proof (cases "if length ps > 1 then List.find (\<lambda>p. pjId p = ''.'') ps else None")
  case None
  then show ?thesis using that [of "[]"] by (simp add: getRootPkgsByName_def refsGood_def)
next
  case (Some p)
  then have "p \<in> set ps" by (auto simp: find_Some_iff split: if_splits)
  then have "projectGood valid rank fuel (tsTree (psTree st)) p" using ps by blast
  from createPkgsByName_total [OF c g this] obtain refs where
    "createPkgsByName (rcEnv ctx) (rcPkgs ctx) (tsTree (psTree st)) p = Inr refs" "refsGood valid UNIV st refs" .
  then show ?thesis using that Some by (simp add: getRootPkgsByName_def)
qed

lemma initialState_good: "treeGood ctx rank tree \<Longrightarrow> stateGood ctx rank {} (initialState tree)"
  by (simp add: stateGood_def initialState_def)

lemma resolveTree_total:
  assumes c: "comparable ctx valid" and g: "treeGood ctx rank tree"
    and ps: "\<forall>p \<in> set (roProjects opts). projectGood valid rank fuel (tsTree tree) p"
  shows "resolveTree ctx fuel opts tree = Inl NeverEnds \<or>
    (\<exists>st issues rank'. resolveTree ctx fuel opts tree = Inr (st, issues) \<and> stateGood ctx rank' {} st)"
proof -
  let ?st = "initialState tree"
  note g0 = initialState_good [OF g]
  have ps0: "\<forall>p \<in> set (roProjects opts). projectGood valid rank fuel (tsTree (psTree ?st)) p" using ps by (simp add: initialState_def)
  obtain root where root: "(if roResolvePeersFromWorkspaceRoot opts
      then getRootPkgsByName (rcEnv ctx) (rcPkgs ctx) (tsTree tree) (roProjects opts) else Inr []) = Inr root"
    "refsGood valid UNIV ?st root"
  proof (cases "roResolvePeersFromWorkspaceRoot opts")
    case True
    from getRootPkgsByName_total [OF c g0 ps0] obtain refs where
      "getRootPkgsByName (rcEnv ctx) (rcPkgs ctx) (tsTree (psTree ?st)) (roProjects opts) = Inr refs" "refsGood valid UNIV ?st refs" .
    then show ?thesis using that True by (simp add: initialState_def)
  next
    case False
    then show ?thesis using that [of "[]"] by (simp add: refsGood_def)
  qed
  from resolvePeersOfProjects_total [OF c g0 root(2) ps0, of "[]"] obtain st1 issues rank1 where
    p: "sfold (resolvePeersOfProject ctx fuel root) (roProjects opts) (?st, []) = Inr (st1, issues)" "walked ctx rank ?st rank1 st1" .
  from awaitTasks_total [OF walkedD(1) [OF p(2)]] obtain st2 where aw: "awaitTasks ctx st1 = Inr st2" "goodStep ctx rank1 st1 st2" .
  note fin = finishTasks_total [OF goodStepD(1) [OF aw(2)], of "length (psTasks st2)"]
  have "resolveTree ctx fuel opts tree = sbind (finishTasks ctx (length (psTasks st2)) st2) (\<lambda>st'. Inr (st', issues))"
    by (simp only: resolveTree_def root(1) p(1) finishAll_def aw(1) asError_simps sbind_simps prod.case)
  then show ?thesis using fin goodStepD(1) by fastforce
qed

section \<open>The passes over the graph\<close>

definition directsHavePaths :: "injectCtx \<Rightarrow> bool" where
  "directsHavePaths ctx \<longleftrightarrow> (\<forall>i direct a n. (i, direct) \<in> set (icProjects ctx) \<longrightarrow> (a, n) \<in> set direct \<longrightarrow>
     (\<exists>d g. map_of (icPathsByNodeId ctx) n = Some d \<and> map_of (icDepGraph ctx) d = Some g))"

lemma keys_jset_subset: "set (keys m) \<subseteq> A \<Longrightarrow> k \<in> A \<Longrightarrow> set (keys (jset k v m)) \<subseteq> A"
  by (simp only: keys_jset_insert) blast

lemma addInjectedDep_total:
  assumes "map_of (icPathsByNodeId ctx) n = Some d" "map_of (icDepGraph ctx) d = Some g" "i \<in> A" "set (keys acc) \<subseteq> A"
  shows "\<exists>acc'. addInjectedDep ctx i (a, n) acc = Inr acc' \<and> set (keys acc') \<subseteq> A"
  using assms keys_jset_subset [of acc A i] by (simp add: addInjectedDep_def Let_def del: set_map)

lemma getInjectedDeps_total:
  assumes "directsHavePaths ctx"
  obtains copies where "getInjectedDepsByProjects ctx = Inr copies" "set (keys copies) \<subseteq> set (keys (icProjects ctx))"
proof -
  let ?P = "\<lambda>acc. set (keys acc) \<subseteq> set (keys (icProjects ctx))"
  have "\<exists>copies. getInjectedDepsByProjects ctx = Inr copies \<and> ?P copies"
    unfolding getInjectedDepsByProjects_def
  proof (rule sfold_inv [where P = ?P])
    fix x and acc :: "injectedDep obj obj" assume x: "x \<in> set (icProjects ctx)" and acc: "?P acc"
    obtain i direct where i: "x = (i, direct)" by (cases x)
    have k: "i \<in> set (keys (icProjects ctx))" using x unfolding i by force
    show "\<exists>acc'. (case x of (projectId, direct) \<Rightarrow> sfold (addInjectedDep ctx projectId) direct) acc = Inr acc' \<and> ?P acc'"
      unfolding i prod.case
    proof (rule sfold_inv [where P = ?P, OF _ acc])
      fix y and acc1 :: "injectedDep obj obj" assume y: "y \<in> set direct" and acc1: "?P acc1"
      obtain a n where an: "y = (a, n)" by (cases y)
      obtain d g where "map_of (icPathsByNodeId ctx) n = Some d" "map_of (icDepGraph ctx) d = Some g"
        using assms x y unfolding directsHavePaths_def i an by blast
      then show "\<exists>acc'. addInjectedDep ctx i y acc1 = Inr acc' \<and> ?P acc'"
        unfolding an using addInjectedDep_total k acc1 by blast
    qed
  qed simp
  then show ?thesis using that by blast
qed

lemma getDedupeMap_total:
  assumes "copiesOk ctx copies" "set (keys copies) \<subseteq> A" "set (keys (icProjects ctx)) \<subseteq> A" "\<And>i. i \<in> A \<Longrightarrow> map_of byProject i \<noteq> None"
  obtains m where "getDedupeMap ctx byProject copies = Inr m" "set (keys m) \<subseteq> A"
proof -
  let ?P = "\<lambda>m. set (keys m) \<subseteq> A"
  have "\<exists>m. getDedupeMap ctx byProject copies = Inr m \<and> ?P m"
    unfolding getDedupeMap_def
  proof (rule sfold_inv [where P = ?P])
    fix x and acc :: "str obj obj" assume x: "x \<in> set copies" and acc: "?P acc"
    obtain i deps where i: "x = (i, deps)" by (cases x)
    have "\<exists>al. sfold (dedupeAlias ctx byProject) deps [] = Inr al \<and> True"
    proof (rule sfold_inv [where P = "\<lambda>_. True"])
      fix y and al :: "str obj" assume y: "y \<in> set deps"
      obtain a c where ac: "y = (a, c)" by (cases y)
      obtain g where "copyOf ctx i a (ijDepPath c) g (ijId c)" using assms(1) x y unfolding copiesOk_def i ac by blast
      then have g: "map_of (icDepGraph ctx) (ijDepPath c) = Some g" "ijId c \<in> set (map fst (icProjects ctx))"
        unfolding copyOf_def by blast+
      then have "map_of byProject (ijId c) \<noteq> None" using assms(3,4) by blast
      then show "\<exists>al'. dedupeAlias ctx byProject y al = Inr al' \<and> True" using g(1) by (auto simp: dedupeAlias_def ac)
    qed simp
    moreover have "i \<in> A" using assms(2) x unfolding i by force
    ultimately show "\<exists>acc'. (case x of (projectId, deps) \<Rightarrow> \<lambda>acc. sbind (sfold (dedupeAlias ctx byProject) deps [])
       (\<lambda>aliases. Inr (jset projectId aliases acc))) acc = Inr acc' \<and> ?P acc'"
      using keys_jset_subset [OF acc] by (auto simp: i simp del: set_map)
  qed simp
  then show ?thesis using that by blast
qed

definition hasProjects :: "str set \<Rightarrow> dedupeResult \<Rightarrow> bool" where
  "hasProjects A acc \<longleftrightarrow> (\<forall>i \<in> A. map_of (fst acc) i \<noteq> None \<and> map_of (snd acc) i \<noteq> None)"

lemma applyDedupe_total:
  assumes "hasProjects A acc" "i \<in> A"
  shows "\<exists>acc'. applyDedupe ctx i e acc = Inr acc' \<and> hasProjects A acc'"
proof -
  obtain by1 imps where acc: "acc = (by1, imps)" by (cases acc)
  obtain own importer where "map_of by1 i = Some own" "map_of imps i = Some importer" using assms by (auto simp: hasProjects_def acc)
  then show ?thesis using assms(1) by (simp add: applyDedupe_def acc hasProjects_def update_conv')
qed

lemma applyDedupeMap_total:
  assumes "hasProjects A acc" "set (keys m) \<subseteq> A"
  shows "\<exists>acc'. applyDedupeMap ctx m acc = Inr acc' \<and> hasProjects A acc'"
  unfolding applyDedupeMap_def
proof (rule sfold_inv [where P = "hasProjects A", OF _ assms(1)])
  fix x acc assume x: "x \<in> set m" and acc: "hasProjects A acc"
  obtain i al where i: "x = (i, al)" by (cases x)
  have "i \<in> A" using x assms(2) unfolding i by force
  then show "\<exists>acc'. (case x of (projectId, aliases) \<Rightarrow> sfold (applyDedupe ctx projectId) aliases) acc = Inr acc' \<and> hasProjects A acc'"
    unfolding i prod.case by (intro sfold_inv [where P = "hasProjects A", OF _ acc]) (rule applyDedupe_total)
qed

lemma dedupeInjectedDeps_total:
  assumes "directsHavePaths ctx" "hasProjects (set (keys (icProjects ctx))) (byProject, imps)"
  shows "\<exists>acc. dedupeInjectedDeps ctx byProject imps = Inr acc"
proof -
  let ?A = "set (keys (icProjects ctx))"
  from getInjectedDeps_total [OF assms(1)] obtain copies where c: "getInjectedDepsByProjects ctx = Inr copies" "set (keys copies) \<subseteq> ?A" .
  have "\<And>i. i \<in> ?A \<Longrightarrow> map_of byProject i \<noteq> None" using assms(2) by (simp add: hasProjects_def del: set_map)
  from getDedupeMap_total [OF getInjectedDeps_ok [OF c(1)] c(2) subset_refl this] obtain m where
    m: "getDedupeMap ctx byProject copies = Inr m" "set (keys m) \<subseteq> ?A" by blast
  from applyDedupeMap_total [OF assms(2) m(2)] obtain acc where "applyDedupeMap ctx m (byProject, imps) = Inr acc" by blast
  then show ?thesis using c(1) m(1) by (simp add: dedupeInjectedDeps_def)
qed

lemma dedupeLoop_unresolved: "set (snd (dedupeLoop cur m u)) \<subseteq> set u"
proof (induction cur m u rule: dedupeLoop.induct)
  case (1 cur m u)
  have sub: "set (dsUnresolved (fold (compareWith one) xs st)) \<subseteq> set (dsUnresolved st)" for one xs and st :: dedupeState
    by (simp add: compareWith_fold(3))
  show ?case
  proof (cases "cur = []")
    case False
    show ?thesis using 1 [OF False refl] sub by (subst dedupeLoop.simps) (fastforce simp: False Let_def)
  qed (simp add: dedupeLoop.simps)
qed

definition allIn :: "dependenciesGraph \<Rightarrow> depPath list list \<Rightarrow> bool" where
  "allIn g dups \<longleftrightarrow> (\<forall>ds \<in> set dups. \<forall>d \<in> set ds. map_of g d \<noteq> None)"

lemma deduplicateDepPaths_total:
  assumes "allIn g dups"
  obtains m rest where "deduplicateDepPaths dups g = Inr (m, rest)" "allIn g rest"
proof -
  have "\<exists>acc. sfold (deduplicateSet g) dups ([], []) = Inr acc \<and> allIn g (snd acc)"
  proof (rule sfold_inv [where P = "\<lambda>acc. allIn g (snd acc)"])
    fix ds and acc :: "depPath obj \<times> depPath list list" assume ds: "ds \<in> set dups" and acc: "allIn g (snd acc)"
    have "\<forall>d \<in> set ds. map_of g d \<noteq> None" using assms ds by (simp add: allIn_def)
    then have n: "nodesOf g ds = Inr (map (\<lambda>d. (d, the (map_of g d))) ds)" by (rule nodesOf_total)
    obtain m u where mu: "dedupeLoop (jsSort depCountSorter (map (\<lambda>d. (d, the (map_of g d))) ds)) (fst acc) ds = (m, u)" by (rule prod.exhaust)
    have "set u \<subseteq> set ds" using dedupeLoop_unresolved mu by (metis snd_conv)
    then have "allIn g (snd acc @ [u])" using acc \<open>\<forall>d \<in> set ds. map_of g d \<noteq> None\<close> unfolding allIn_def by fastforce
    then show "\<exists>acc'. deduplicateSet g ds acc = Inr acc' \<and> allIn g (snd acc')" using acc by (simp add: deduplicateSet_def n mu)
  qed (simp add: allIn_def)
  then show ?thesis using that by (auto simp: deduplicateDepPaths_def)
qed

lemma deduplicateAll_total: "allIn g dups \<Longrightarrow> \<exists>m g'. deduplicateAll g dups = Inr (m, g')"
proof (induction g dups rule: deduplicateAll.induct)
  case (1 g dups)
  from deduplicateDepPaths_total [OF 1(2)] obtain m rest where d: "deduplicateDepPaths dups g = Inr (m, rest)" "allIn g rest" .
  let ?g = "map (\<lambda>(d, n). (d, replaceChildren m n)) g"
  have "allIn ?g rest" using d(2) by (simp add: allIn_def map_of_resolved)
  then have "length rest \<noteq> length dups \<Longrightarrow> m \<noteq> [] \<Longrightarrow> \<exists>m' g'. deduplicateAll ?g rest = Inr (m', g')"
    using 1(1) [OF d(1)] by simp
  then show ?case using d(1) by (subst deduplicateAll.simps) (auto simp: Let_def)
qed

section \<open>The last tasks\<close>

text \<open>When the tasks do not end, none of those that are left can run: what the fuel of \<open>finishTasks\<close> stops is a deadlock.\<close>

definition stuck :: "peerState \<Rightarrow> bool" where
  "stuck st \<longleftrightarrow> psTasks st \<noteq> [] \<and> list_all (\<lambda>t. \<not> isReady st t) (psTasks st)"

lemma runTask_tasks: "runTask ctx t st = Inr st' \<Longrightarrow> psTasks st' = psTasks st"
proof (cases t)
  case (HitTask n depth p i)
  moreover assume "runTask ctx t st = Inr st'"
  ultimately show ?thesis by (auto simp: runTask_def split: option.splits dest!: resolvePromise_frame)
next
  case (PathTask info ids ws)
  moreover assume "runTask ctx t st = Inr st'"
  ultimately show ?thesis using addDepPathToGraph_frame(1) unfolding sameExcept_def by (fastforce simp: runTask_def Let_def)
qed

lemma readyTask_None: "readyTask st = None \<Longrightarrow> psTasks st \<noteq> [] \<Longrightarrow> stuck st"
  by (auto simp: readyTask_def find_None_iff stuck_def list_all_length)

lemma readyTask_Some: "readyTask st = Some i \<Longrightarrow> i < length (psTasks st) \<and> isReady st (psTasks st ! i)"
  by (auto simp: readyTask_def find_Some_iff)

lemma tryTask_tasks:
  assumes "tryTask ctx i st = Inr st'" "i < length (psTasks st)" "isReady st (psTasks st ! i)"
  shows "Suc (length (psTasks st')) = length (psTasks st)"
proof -
  let ?st0 = "st\<lparr>psTasks := take i (psTasks st) @ drop (Suc i) (psTasks st)\<rparr>"
  have "runTask ctx (psTasks st ! i) ?st0 = Inr st'" using assms by (simp add: tryTask_def)
  then have "psTasks st' = psTasks ?st0" by (rule runTask_tasks)
  then show ?thesis using assms(2) by simp
qed

lemma finishTasks_stuck:
  "finishTasks ctx n st = Inl NeverEnds \<Longrightarrow> length (psTasks st) \<le> n \<Longrightarrow> \<exists>is st'. sfold (tryTask ctx) is st = Inr st' \<and> stuck st'"
proof (induction n arbitrary: st)
  case (Suc n)
  have ne: "psTasks st \<noteq> []" using Suc.prems(1) by auto
  show ?case
  proof (cases "readyTask st")
    case None
    then have "sfold (tryTask ctx) [] st = Inr st \<and> stuck st" using readyTask_None ne by simp
    then show ?thesis by blast
  next
    case (Some i)
    then obtain st1 where st1: "tryTask ctx i st = Inr st1" "finishTasks ctx n st1 = Inl NeverEnds"
      using Suc.prems(1) ne by (cases "tryTask ctx i st") auto
    have "length (psTasks st1) \<le> n" using tryTask_tasks [OF st1(1)] readyTask_Some [OF Some] Suc.prems(2) by simp
    from Suc.IH [OF st1(2) this] obtain js st' where "sfold (tryTask ctx) js st1 = Inr st'" "stuck st'" by blast
    then have "sfold (tryTask ctx) (i # js) st = Inr st' \<and> stuck st'" using st1(1) by simp
    then show ?thesis by blast
  qed
qed (simp split: if_splits)

text \<open>No schedule gets out of a deadlock.\<close>

lemma stuck_stays: "stuck st \<Longrightarrow> sfold (tryTask ctx) is st = Inr st"
  by (induction "is") (auto simp: stuck_def tryTask_def list_all_length)

section \<open>The whole\<close>

lemma map_of_byProjectIdOf: "p \<in> set ps \<Longrightarrow> map_of (byProjectIdOf paths ps) (pjId p) \<noteq> None"
proof -
  have "map_of acc k \<noteq> None \<or> (\<exists>p \<in> set ps. pjId p = k) \<Longrightarrow>
      map_of (fold (\<lambda>p. jset (pjId p) (map (\<lambda>(a, n). (a, map_of paths n)) (pjDirectNodeIdsByAlias p))) ps acc) k \<noteq> None" for acc k
    by (induction ps arbitrary: acc) (auto simp: update_conv')
  then show "p \<in> set ps \<Longrightarrow> ?thesis" unfolding byProjectIdOf_def by blast
qed

lemma projectGood_links: "projectGood valid rank fuel tree p \<Longrightarrow> linkedTops p \<and> directsNotLinked p"
  by (fastforce simp: projectGood_def topGood_def linkedTops_def directsNotLinked_def list_all_iff split: option.splits)

text \<open>The versions can be compared, and each project has its entry among the resolved importers.\<close>

definition projectsReady :: "(str \<Rightarrow> bool) \<Rightarrow> (nodeId \<Rightarrow> nat) \<Rightarrow> nat \<Rightarrow> treeState \<Rightarrow> resolvePeersOptions \<Rightarrow> resolvedImporter obj \<Rightarrow> bool" where
  "projectsReady valid rank fuel tree opts imps \<longleftrightarrow>
     (\<forall>p \<in> set (roProjects opts). projectGood valid rank fuel (tsTree tree) p \<and> map_of imps (pjId p) \<noteq> None)"

lemma resolvePeers_passes:
  assumes t: "resolveTree ctx fuel opts tree = Inr (st, issues)" and g: "stateGood ctx rank' {} st"
    and ok: "treeOk tree" and ps: "projectsReady valid rank fuel tree opts imps"
  shows "\<exists>res. resolvePeers ctx fuel opts tree imps = Inr res"
proof -
  let ?ps = "roProjects opts" and ?paths = "psPathsByNodeId st"
  let ?graph = "map (\<lambda>(d, g). (d, resolveChildren ?paths g)) (psDepGraph st)"
  let ?inj = "\<lparr>icProjects = map (\<lambda>p. (pjId p, pjDirectNodeIdsByAlias p)) ?ps, icDepGraph = ?graph, icPathsByNodeId = ?paths,
    icLockfileDir = roLockfileDir opts, icRelative = roRelative opts, icJoin = (\<lambda>a b. rcJoin ctx [a, b])\<rparr>"
  have links: "linkedTops p \<and> directsNotLinked p" if "p \<in> set ?ps" for p
    using ps that projectGood_links unfolding projectsReady_def by blast
  have cs: "closedState {} st" "psTasks st = []" "absorbed (directIds ?ps) {} st"
    using resolveTree_closed [OF t ok] links by auto
  have "directsHavePaths ?inj" unfolding directsHavePaths_def
  proof (intro allI impI)
    fix i direct a n assume "(i, direct) \<in> set (icProjects ?inj)" and an: "(a, n) \<in> set direct"
    then obtain p where p: "p \<in> set ?ps" "direct = pjDirectNodeIdsByAlias p" by auto
    then have "\<not> linkId n" using an links by (auto simp: directsNotLinked_def list_all_iff)
    from direct_path [OF cs p(1) an [unfolded p(2)] this]
    show "\<exists>d g. map_of (icPathsByNodeId ?inj) n = Some d \<and> map_of (icDepGraph ?inj) d = Some g" by (auto simp: map_of_resolved)
  qed
  moreover have "hasProjects (set (keys (icProjects ?inj))) (byProjectIdOf ?paths ?ps, imps)"
    using ps map_of_byProjectIdOf unfolding hasProjects_def projectsReady_def by fastforce
  ultimately obtain acc where acc: "dedupeInjectedDeps ?inj (byProjectIdOf ?paths ?ps) imps = Inr acc"
    using dedupeInjectedDeps_total by blast
  have "allIn ?graph (filter (\<lambda>ds. length ds > 1) (vals (psDepPathsByPkgId st)))"
    using stateGoodD(5) [OF g] by (fastforce simp: allIn_def map_of_resolved inGraph_def)
  then obtain m g' where "deduplicateAll ?graph (filter (\<lambda>ds. length ds > 1) (vals (psDepPathsByPkgId st))) = Inr (m, g')"
    using deduplicateAll_total by blast
  then show ?thesis using acc by (cases acc) (simp add: resolvePeers_def t Let_def)
qed


text \<open>The two packages that are each the peer of the other, under every schedule.\<close>

definition toyImporters :: "resolvedImporter obj" where
  "toyImporters = [(''.'', \<lparr>riDirectDependencies = [], riLinkedDependencies = []\<rparr>)]"


text \<open>A linked dependency that is no node of the tree, as one outside of the workspace with excludeLinksFromLockfile: when it is the
  peer of \<open>x\<close> in the project \<open>p\<close>, and \<open>q\<close> has the peer from the registry, the lookup of the cached peer throws.\<close>

definition linkCtx :: resolveCtx where
  "linkCtx = (toyCtx (\<lambda>_. []))\<lparr>
     rcTreeCtx := \<lparr>tcChildrenByParentId = [(''x@1.0.0'', []), (''r@1.0.0'', [])],
       tcIsLeaf = [(''x@1.0.0'', False), (''r@1.0.0'', False)], tcSkipped = []\<rparr>,
     rcPkgs := [(''x@1.0.0'', Resolved (toyPackage ''x'' [(''r'', ''1'')])), (''r@1.0.0'', Resolved (toyPackage ''r'' []))],
     rcAllPeerDepNames := [''r'']\<rparr>"

definition linkTree :: treeState where
  "linkTree = \<lparr>tsCounter = 3, tsTree = addPendingNode (toyPending 3 ''r@1.0.0'')
     (addPendingNode (toyPending 2 ''x@1.0.0'') (addPendingNode (toyPending 1 ''x@1.0.0'') []))\<rparr>"

definition linkProjects :: resolvePeersOptions where
  "linkProjects = (toyProject [] [])\<lparr>roProjects := [
     \<lparr>pjDirectNodeIdsByAlias = [(''x'', NumId 1)],
       pjTopParents = [\<lparr>tqName = ''r'', tqVersion = ''1.0.0'', tqAlias = None, tqLinkedDir = Some (StrId ''link:p/node_modules/r'')\<rparr>],
       pjId = ''p''\<rparr>,
     \<lparr>pjDirectNodeIdsByAlias = [(''x'', NumId 2), (''r'', NumId 3)], pjTopParents = [], pjId = ''q''\<rparr>]\<rparr>"

lemma external_link_throws:
  "(case resolvePeers linkCtx 3 linkProjects linkTree [] of Inl (Throws (TypeError _)) \<Rightarrow> True | _ \<Rightarrow> False)"
  by code_simp

end
